(* ===== verification/Prelude.thy ===== *)
theory Prelude
  imports Main "HOL-Library.AList" "HOL-Library.List_Lexorder" "HOL-Library.Char_ord"
    "HOL-Library.Word" "HOL-Library.Multiset" "HOL-Library.Sublist"
begin

section \<open>Shared vocabulary of the development\<close>

text \<open>
  What every component uses: Go maps as association lists, Go strings as byte lists, the
  handful of functions of Go's \<^verbatim>\<open>strings\<close>, \<^verbatim>\<open>strconv\<close> and \<^verbatim>\<open>unicode\<close> packages the
  sources call, and instants and 64-bit counters.

  A Go map is a list of key/value pairs with distinct keys (\<open>wf_map\<close>). The list order
  stands for the order in which a \<^verbatim>\<open>range\<close> loop visits the map, which Go leaves open:
  a theorem that quantifies over the list quantifies over every visiting order. A nil map
  and an empty map are both \<open>[]\<close>; no code modelled here tells them apart other than by
  their length.
\<close>

named_theorems store_simps "frame equations of the store operations"
named_theorems map_simps "lookups after updates of Go maps"

type_synonym ('k, 'v) gomap = "('k \<times> 'v) list"
type_synonym strmap = "(string, string) gomap"
type_synonym uid = string

text \<open>
  An instant is the number of nanoseconds since the zero \<^verbatim>\<open>time.Time\<close>, so that
  \<^verbatim>\<open>IsZero\<close> is equality with 0; a duration is a number of nanoseconds.
\<close>
type_synonym instant = int
type_synonym duration = int

text \<open>\<^verbatim>\<open>uint64\<close> and the \<^verbatim>\<open>atomic.Uint64\<close>/\<^verbatim>\<open>atomic.Int64\<close> counters: addition wraps.\<close>
type_synonym u64 = "64 word"

subsection \<open>Go maps\<close>

abbreviation get :: "('k, 'v) gomap \<Rightarrow> 'k \<Rightarrow> 'v option" where
  "get m k \<equiv> map_of m k"

abbreviation put :: "'k \<Rightarrow> 'v \<Rightarrow> ('k, 'v) gomap \<Rightarrow> ('k, 'v) gomap" where
  "put k v m \<equiv> AList.update k v m"

abbreviation del :: "'k \<Rightarrow> ('k, 'v) gomap \<Rightarrow> ('k, 'v) gomap" where
  "del k m \<equiv> AList.delete k m"

abbreviation wf_map :: "('k, 'v) gomap \<Rightarrow> bool" where
  "wf_map m \<equiv> distinct (map fst m)"

text \<open>A read of an absent key of a map of maps is the nil map, which reads as empty.\<close>
definition get_map :: "('k, ('a, 'b) gomap) gomap \<Rightarrow> 'k \<Rightarrow> ('a, 'b) gomap" where
  "get_map m k = (case get m k of None \<Rightarrow> [] | Some x \<Rightarrow> x)"

locale go_map =
  fixes look :: "'m \<Rightarrow> 'k \<Rightarrow> 'v option"
    and ins :: "'k \<Rightarrow> 'v \<Rightarrow> 'm \<Rightarrow> 'm"
    and rem :: "'k \<Rightarrow> 'm \<Rightarrow> 'm"
    and range_over :: "'m \<Rightarrow> ('k \<times> 'v) list"
    and valid :: "'m \<Rightarrow> bool"
  assumes look_ins: "look (ins k v m) k' = (if k' = k then Some v else look m k')"
    and look_rem: "look (rem k m) k' = (if k' = k then None else look m k')"
    and valid_ins: "valid m \<Longrightarrow> valid (ins k v m)"
    and valid_rem: "valid m \<Longrightarrow> valid (rem k m)"
    and range_look: "valid m \<Longrightarrow> (k, v) \<in> set (range_over m) \<longleftrightarrow> look m k = Some v"
    and range_distinct: "valid m \<Longrightarrow> distinct (map fst (range_over m))"
begin

lemma look_fold_ins:
  "look (fold (\<lambda>(k, v) m. ins k v m) kvs m) k =
     (case map_of (rev kvs) k of Some v \<Rightarrow> Some v | None \<Rightarrow> look m k)"
  by (induction kvs arbitrary: m) (auto simp: look_ins map_add_def split: option.splits)

lemma range_after_ins:
  "valid m \<Longrightarrow> (k', v') \<in> set (range_over (ins k v m)) \<longleftrightarrow>
     (if k' = k then v' = v else (k', v') \<in> set (range_over m))"
  by (auto simp: range_look look_ins valid_ins)

lemma range_after_rem:
  "valid m \<Longrightarrow> (k', v') \<in> set (range_over (rem k m)) \<longleftrightarrow> k' \<noteq> k \<and> (k', v') \<in> set (range_over m)"
  by (auto simp: range_look look_rem valid_rem)

lemma range_empty_iff: "valid m \<Longrightarrow> range_over m = [] \<longleftrightarrow> (\<forall>k. look m k = None)"
  by (metis (no_types) empty_iff last_in_set list.set(1) option.distinct(1) option.exhaust
      prod.exhaust range_look)

end

interpretation alist: go_map map_of AList.update AList.delete "\<lambda>m. m" "\<lambda>m. distinct (map fst m)"
  by unfold_locales (auto simp: update_conv' delete_conv' distinct_update distinct_delete)

lemma get_put [simp, map_simps]: "get (put k v m) k' = (if k' = k then Some v else get m k')"
  by (rule alist.look_ins)

lemma get_del [simp, map_simps]: "get (del k m) k' = (if k' = k then None else get m k')"
  by (rule alist.look_rem)

lemma get_put_fun: "get (put k v m) = (get m)(k \<mapsto> v)"
  by (rule update_conv')

lemma wf_put [simp, intro]: "wf_map m \<Longrightarrow> wf_map (put k v m)"
  by (rule alist.valid_ins)

lemma wf_del [simp, intro]: "wf_map m \<Longrightarrow> wf_map (del k m)"
  by (rule alist.valid_rem)

lemma get_map_put [simp, map_simps]:
  "get_map (put k v m) k' = (if k' = k then v else get_map m k')"
  by (simp add: get_map_def)

lemma get_map_del [simp, map_simps]:
  "get_map (del k m) k' = (if k' = k then [] else get_map m k')"
  by (simp add: get_map_def)

lemma get_Nil_iff: "(\<forall>k. get m k = None) \<longleftrightarrow> m = []"
  by (cases m) (auto split: if_splits)

lemma set_put: "wf_map m \<Longrightarrow> set (put k v m) = insert (k, v) {p \<in> set m. fst p \<noteq> k}"
  by (auto simp: alist.range_after_ins split: if_splits)

lemma set_del: "set (del k m) = {p \<in> set m. fst p \<noteq> k}"
  by (induction m) auto

text \<open>Two lists of the same entries are the same map.\<close>
lemma get_perm: "wf_map m \<Longrightarrow> mset m = mset m' \<Longrightarrow> get m = get m'"
  by (metis map_of_inject_set mset_eq_imp_distinct_iff mset_eq_setD mset_map)

subsection \<open>Go strings\<close>

text \<open>
  A Go string is a list of bytes (\<open>char\<close> has 256 values), \<^verbatim>\<open>len\<close> counts bytes, and \<open><\<close> on
  strings is the lexicographic order of the bytes, as in Go. What follows models the parts of
  \<^verbatim>\<open>strings\<close>, \<^verbatim>\<open>strconv\<close> and \<^verbatim>\<open>unicode\<close> that the modelled sources call.
\<close>

text \<open>The UTF-8 encodings of the runes for which \<^verbatim>\<open>unicode.IsSpace\<close> holds.\<close>
definition space_runes :: "string list" where
  "space_runes =
     [[CHR 0x09], [CHR 0x0A], [CHR 0x0B], [CHR 0x0C], [CHR 0x0D], [CHR 0x20],
      [CHR 0xC2, CHR 0x85], [CHR 0xC2, CHR 0xA0], [CHR 0xE1, CHR 0x9A, CHR 0x80],
      [CHR 0xE2, CHR 0x80, CHR 0x80], [CHR 0xE2, CHR 0x80, CHR 0x81],
      [CHR 0xE2, CHR 0x80, CHR 0x82], [CHR 0xE2, CHR 0x80, CHR 0x83],
      [CHR 0xE2, CHR 0x80, CHR 0x84], [CHR 0xE2, CHR 0x80, CHR 0x85],
      [CHR 0xE2, CHR 0x80, CHR 0x86], [CHR 0xE2, CHR 0x80, CHR 0x87],
      [CHR 0xE2, CHR 0x80, CHR 0x88], [CHR 0xE2, CHR 0x80, CHR 0x89],
      [CHR 0xE2, CHR 0x80, CHR 0x8A], [CHR 0xE2, CHR 0x80, CHR 0xA8],
      [CHR 0xE2, CHR 0x80, CHR 0xA9], [CHR 0xE2, CHR 0x80, CHR 0xAF],
      [CHR 0xE2, CHR 0x81, CHR 0x9F], [CHR 0xE3, CHR 0x80, CHR 0x80]]"

text \<open>
  \<^verbatim>\<open>strings.TrimLeftFunc\<close> with the predicate given by the encodings of the runes it accepts:
  drop an accepted rune from the front as long as there is one. \<^verbatim>\<open>TrimRightFunc\<close> is its
  mirror image, and \<^verbatim>\<open>TrimSpace\<close> both of them for white space.
\<close>
function TrimLeft :: "string list \<Rightarrow> string \<Rightarrow> string" where
  "TrimLeft rs s =
     (case find (\<lambda>r. r \<noteq> [] \<and> prefix r s) rs of
        None \<Rightarrow> s
      | Some r \<Rightarrow> TrimLeft rs (drop (length r) s))"
  by pat_completeness auto
termination
  by (relation "measure (\<lambda>(rs, s). length s)") (auto simp: find_Some_iff prefix_def)

declare TrimLeft.simps [simp del]

definition TrimRight :: "string list \<Rightarrow> string \<Rightarrow> string" where
  "TrimRight rs s = rev (TrimLeft (map rev rs) (rev s))"

definition TrimSpace :: "string \<Rightarrow> string" where
  "TrimSpace s = TrimRight space_runes (TrimLeft space_runes s)"

text \<open>What follows the last occurrence of a byte, as \<^verbatim>\<open>s[strings.LastIndexByte(s, c)+1:]\<close>.\<close>
definition after_last :: "char \<Rightarrow> string \<Rightarrow> string" where
  "after_last c s = rev (takeWhile (\<lambda>x. x \<noteq> c) (rev s))"

text \<open>\<^verbatim>\<open>strings.Cut\<close>: the text before and after the first occurrence of a separator.\<close>
fun Cut :: "string \<Rightarrow> string \<Rightarrow> (string \<times> string) option" where
  "Cut sep [] = (if sep = [] then Some ([], []) else None)"
| "Cut sep (c # s) =
     (if prefix sep (c # s) then Some ([], drop (length sep) (c # s))
      else map_option (\<lambda>(a, b). (c # a, b)) (Cut sep s))"

lemma Cut_length: "Cut sep s = Some (a, b) \<Longrightarrow> s = a @ sep @ b"
proof (induction s arbitrary: a)
  case (Cons c s)
  show ?case
  proof (cases "prefix sep (c # s)")
    case True
    with Cons.prems show ?thesis by (auto simp: prefix_def)
  next
    case False
    with Cons.prems obtain a' where "Cut sep s = Some (a', b)" "a = c # a'"
      by auto
    with Cons.IH show ?thesis by simp
  qed
qed (auto split: if_splits)

text \<open>\<^verbatim>\<open>strings.Split\<close> (and \<^verbatim>\<open>SplitSeq\<close>) for a separator that is not empty.\<close>
function Split :: "string \<Rightarrow> string \<Rightarrow> string list" where
  "Split sep s =
     (if sep = [] then [s]
      else case Cut sep s of None \<Rightarrow> [s] | Some (a, b) \<Rightarrow> a # Split sep b)"
  by pat_completeness auto
termination
  by (relation "measure (\<lambda>(sep, s). length s)") (auto dest: Cut_length)

declare Split.simps [simp del]

text \<open>\<^verbatim>\<open>strconv.Itoa\<close> on a number that is not negative.\<close>
fun Itoa :: "nat \<Rightarrow> string" where
  "Itoa n = (if n < 10 then [char_of (48 + n)] else Itoa (n div 10) @ [char_of (48 + n mod 10)])"

declare Itoa.simps [simp del]

subsubsection \<open>Trimming\<close>

lemma TrimLeft_suffix: "suffix (TrimLeft rs s) s"
proof (induction rs s rule: TrimLeft.induct)
  case (1 rs s)
  show ?case
  proof (cases "find (\<lambda>r. r \<noteq> [] \<and> prefix r s) rs")
    case None
    then show ?thesis by (simp add: TrimLeft.simps [of rs s])
  next
    case (Some r)
    then have "suffix (TrimLeft rs (drop (length r) s)) (drop (length r) s)"
      by (rule "1.IH")
    with Some show ?thesis
      by (simp add: TrimLeft.simps [of rs s] suffix_order.trans suffix_drop)
  qed
qed

lemma TrimLeft_stuck: "r \<in> set rs \<Longrightarrow> r \<noteq> [] \<Longrightarrow> \<not> prefix r (TrimLeft rs s)"
proof (induction rs s rule: TrimLeft.induct)
  case (1 rs s)
  show ?case
  proof (cases "find (\<lambda>r. r \<noteq> [] \<and> prefix r s) rs")
    case None
    then have "TrimLeft rs s = s" by (simp add: TrimLeft.simps [of rs s])
    with None "1.prems" show ?thesis by (auto simp: find_None_iff)
  next
    case (Some r')
    with "1.IH" [OF Some] "1.prems" show ?thesis by (simp add: TrimLeft.simps [of rs s])
  qed
qed

lemma TrimLeft_id: "(\<And>r. r \<in> set rs \<Longrightarrow> r \<noteq> [] \<Longrightarrow> \<not> prefix r s) \<Longrightarrow> TrimLeft rs s = s"
  by (auto simp: TrimLeft.simps [of rs s] find_Some_iff split: option.splits)

lemma TrimRight_prefix: "prefix (TrimRight rs s) s"
  using TrimLeft_suffix [of "map rev rs" "rev s"]
  by (simp add: TrimRight_def suffix_to_prefix)

lemma TrimRight_stuck: "r \<in> set rs \<Longrightarrow> r \<noteq> [] \<Longrightarrow> \<not> suffix r (TrimRight rs s)"
  using TrimLeft_stuck [of "rev r" "map rev rs" "rev s"]
  by (simp add: TrimRight_def suffix_to_prefix)

lemma TrimRight_id: "(\<And>r. r \<in> set rs \<Longrightarrow> r \<noteq> [] \<Longrightarrow> \<not> suffix r s) \<Longrightarrow> TrimRight rs s = s"
  unfolding TrimRight_def
  by (subst TrimLeft_id) (auto simp: suffix_to_prefix)

lemma TrimSpace_id:
  assumes "\<And>r. r \<in> set space_runes \<Longrightarrow> r \<noteq> [] \<Longrightarrow> \<not> prefix r s \<and> \<not> suffix r s"
  shows "TrimSpace s = s"
  using assms by (simp add: TrimSpace_def TrimLeft_id TrimRight_id)

lemma TrimSpace_stuck:
  assumes "r \<in> set space_runes" "r \<noteq> []"
  shows "\<not> prefix r (TrimSpace s) \<and> \<not> suffix r (TrimSpace s)"
  using assms TrimLeft_stuck [of r space_runes s] TrimRight_stuck [of r space_runes]
    TrimRight_prefix [of space_runes "TrimLeft space_runes s"]
  unfolding TrimSpace_def by (meson prefix_order.trans)

lemma after_last_suffix: "suffix (after_last c s) s"
  by (metis after_last_def rev_rev_ident suffix_to_prefix takeWhile_is_prefix)

lemma after_last_notin: "c \<notin> set (after_last c s)"
  by (auto simp: after_last_def dest: set_takeWhileD)

subsection \<open>Subsequences and sorting\<close>

lemma subseq_set: "subseq xs ys \<Longrightarrow> set xs \<subseteq> set ys"
  by (auto elim: list_emb_set)

lemma subseq_distinct: "subseq xs ys \<Longrightarrow> distinct ys \<Longrightarrow> distinct xs"
  by (auto simp: subseq_conv_nths)

lemma subseq_sorted: "subseq xs ys \<Longrightarrow> sorted ys \<Longrightarrow> sorted xs"
  by (auto simp: subseq_conv_nths intro: sorted_nths)

lemma sort_perm: "mset xs = mset ys \<Longrightarrow> sort xs = sort ys"
  by (metis mset_sort properties_for_sort sorted_sort)

subsection \<open>Cutting, splitting and numbers\<close>

lemma Cut_hit: "sep \<noteq> [] \<Longrightarrow> hd sep \<notin> set a \<Longrightarrow> Cut sep (a @ sep @ b) = Some (a, b)"
proof (induction a)
  case Nil
  then show ?case by (cases sep) (auto simp: prefix_def)
next
  case (Cons c a)
  then have "\<not> prefix sep (c # a @ sep @ b)" by (cases sep) auto
  with Cons show ?case by simp
qed

lemma Cut_miss: "sep \<noteq> [] \<Longrightarrow> hd sep \<notin> set s \<Longrightarrow> Cut sep s = None"
proof (induction s)
  case (Cons c s)
  then have "\<not> prefix sep (c # s)" by (cases sep) auto
  with Cons show ?case by simp
qed simp

fun join :: "string \<Rightarrow> string list \<Rightarrow> string" where
  "join sep [] = []"
| "join sep [x] = x"
| "join sep (x # y # xs) = x @ sep @ join sep (y # xs)"

lemma join_snoc: "xs \<noteq> [] \<Longrightarrow> join sep (xs @ [y]) = join sep xs @ sep @ y"
  by (induction sep xs rule: join.induct) auto

lemma join_Cons: "join sep (x # xs) = x @ concat (map (\<lambda>y. sep @ y) xs)"
  by (induction xs arbitrary: x) auto

lemma Split_join:
  "sep \<noteq> [] \<Longrightarrow> xs \<noteq> [] \<Longrightarrow> \<forall>x \<in> set xs. hd sep \<notin> set x \<Longrightarrow> Split sep (join sep xs) = xs"
  by (induction sep xs rule: join.induct) (auto simp: Split.simps Cut_miss Cut_hit)

lemma Itoa_digits: "c \<in> set (Itoa n) \<Longrightarrow> of_char c \<in> {48..57::nat}"
proof (induction n rule: Itoa.induct)
  case (1 n)
  show ?case
  proof (cases "n < 10")
    case True
    with "1.prems" show ?thesis by (simp add: Itoa.simps [of n])
  next
    case False
    with "1.prems" have "c \<in> set (Itoa (n div 10)) \<or> c = char_of (48 + n mod 10)"
      by (auto simp: Itoa.simps [of n])
    with "1.IH" False show ?thesis by auto
  qed
qed

lemma Itoa_chars: "CHR '';'' \<notin> set (Itoa n)" "CHR '','' \<notin> set (Itoa n)"
  using Itoa_digits by force+

lemma Itoa_length: "n < 10 ^ d \<Longrightarrow> 0 < d \<Longrightarrow> length (Itoa n) \<le> d"
proof (induction d arbitrary: n)
  case (Suc d)
  show ?case
  proof (cases "n < 10")
    case True
    then show ?thesis by (simp add: Itoa.simps [of n])
  next
    case False
    with Suc.prems have "n div 10 < 10 ^ d" "0 < d"
      by (auto simp: less_mult_imp_div_less mult.commute intro: ccontr)
    with Suc.IH False show ?thesis by (simp add: Itoa.simps [of n])
  qed
qed simp

end
