(* ===== verification/Kubemeta.thy ===== *)
theory Kubemeta
  imports Prelude
begin

section \<open>The metadata model (pkg/kubemeta)\<close>

text \<open>
  The served document types of \<^verbatim>\<open>types.go\<close> and the container-ID normalisation of
  \<^verbatim>\<open>normalize.go\<close>. A pointer field is an option; \<^verbatim>\<open>int32\<close> is a 32-bit word read as
  signed.
\<close>

type_synonym i32 = "32 word"

record Owner =
  own_APIVersion :: string
  own_Kind :: string
  own_Name :: string
  own_UID :: uid
  own_Controller :: bool
  own_Labels :: strmap
  own_Annotations :: strmap

record ObjectMeta =
  om_UID :: uid
  om_Labels :: strmap
  om_Annotations :: strmap

record ContainerPort =
  cp_Name :: string
  cp_Port :: i32
  cp_Protocol :: string

record Container =
  ctr_Name :: string
  ctr_Type :: string
  ctr_ID :: string
  ctr_RuntimeID :: string
  ctr_Image :: string
  ctr_ImageID :: string
  ctr_Ports :: "ContainerPort list"
  ctr_RestartCount :: i32
  ctr_Ready :: bool
  ctr_State :: string
  ctr_WaitingReason :: string
  ctr_StartedAt :: "instant option"
  ctr_FinishedAt :: "instant option"
  ctr_ExitCode :: "i32 option"

record Pod =
  pod_Name :: string
  pod_Namespace :: string
  pod_UID :: uid
  pod_NodeName :: string
  pod_PodIP :: string
  pod_PodIPs :: "string list"
  pod_HostIP :: string
  pod_HostNetwork :: bool
  pod_Phase :: string
  pod_Ready :: bool
  pod_Labels :: strmap
  pod_Annotations :: strmap
  pod_CreatedAt :: instant
  pod_StartedAt :: "instant option"
  pod_DeletionTimestamp :: "instant option"
  pod_DeletedAt :: "instant option"
  pod_NamespaceMetadata :: "ObjectMeta option"
  pod_Owners :: "Owner list"
  pod_OwnersOmitted :: int
  pod_Containers :: "Container list"

text \<open>Go's zero values of the two structs that are built field by field.\<close>
definition zero_Container :: Container where
  "zero_Container =
     \<lparr>ctr_Name = [], ctr_Type = [], ctr_ID = [], ctr_RuntimeID = [], ctr_Image = [],
      ctr_ImageID = [], ctr_Ports = [], ctr_RestartCount = 0, ctr_Ready = False,
      ctr_State = [], ctr_WaitingReason = [], ctr_StartedAt = None, ctr_FinishedAt = None,
      ctr_ExitCode = None\<rparr>"

definition zero_Pod :: Pod where
  "zero_Pod =
     \<lparr>pod_Name = [], pod_Namespace = [], pod_UID = [], pod_NodeName = [], pod_PodIP = [],
      pod_PodIPs = [], pod_HostIP = [], pod_HostNetwork = False, pod_Phase = [],
      pod_Ready = False, pod_Labels = [], pod_Annotations = [], pod_CreatedAt = 0,
      pod_StartedAt = None, pod_DeletionTimestamp = None, pod_DeletedAt = None,
      pod_NamespaceMetadata = None, pod_Owners = [], pod_OwnersOmitted = 0,
      pod_Containers = []\<rparr>"

definition FinishedPhase :: "string \<Rightarrow> bool" where
  "FinishedPhase phase \<longleftrightarrow> phase = ''Succeeded'' \<or> phase = ''Failed''"

definition MaxContainerIDLen :: nat where
  "MaxContainerIDLen = 256"

definition NormalizeContainerID :: "string \<Rightarrow> string" where
  "NormalizeContainerID id0 =
     (let id = TrimSpace id0 in
      if CHR '':'' \<in> set id
      then TrimLeft (''/'' # space_runes) (after_last CHR '':'' id)
      else id)"

subsection \<open>Normalisation\<close>

lemma NormalizeContainerID_no_colon: "CHR '':'' \<notin> set (NormalizeContainerID i)"
proof -
  have "CHR '':'' \<notin> set (TrimLeft rs (after_last CHR '':'' s))" for rs s
    using after_last_notin [of "CHR '':''" s]
      TrimLeft_suffix [of rs "after_last CHR '':'' s"]
    by (meson in_mono set_mono_suffix)
  then show ?thesis by (simp add: NormalizeContainerID_def Let_def)
qed

text \<open>The result has white space at neither end, so that a second pass finds nothing to trim.\<close>
lemma NormalizeContainerID_trimmed:
  assumes "r \<in> set space_runes" "r \<noteq> []"
  shows "\<not> prefix r (NormalizeContainerID i) \<and> \<not> suffix r (NormalizeContainerID i)"
proof (cases "CHR '':'' \<in> set (TrimSpace i)")
  case True
  let ?t = "after_last CHR '':'' (TrimSpace i)"
  let ?n = "TrimLeft (''/'' # space_runes) ?t"
  from True have n: "NormalizeContainerID i = ?n"
    by (simp add: NormalizeContainerID_def)
  have "suffix ?n (TrimSpace i)"
    using TrimLeft_suffix after_last_suffix suffix_order.trans by blast
  then have "suffix r ?n \<Longrightarrow> suffix r (TrimSpace i)"
    by (meson suffix_order.trans)
  with TrimSpace_stuck [OF assms] TrimLeft_stuck [of r "''/'' # space_runes" ?t] assms
  show ?thesis by (auto simp: n)
next
  case False
  with TrimSpace_stuck [OF assms] show ?thesis by (simp add: NormalizeContainerID_def)
qed

text \<open>
  Normalising a container ID twice is normalising it once: the agent, the HTTP handler
  and the store may each apply it to the same ID.
\<close>
theorem NormalizeContainerID_idem:
  "NormalizeContainerID (NormalizeContainerID i) = NormalizeContainerID i"
proof -
  have "TrimSpace (NormalizeContainerID i) = NormalizeContainerID i"
    using NormalizeContainerID_trimmed by (intro TrimSpace_id)
  then show ?thesis
    using NormalizeContainerID_no_colon [of i]
    by (simp add: NormalizeContainerID_def [of "NormalizeContainerID i"])
qed

end
