(* ===== verification/Annotations.thy ===== *)
theory Annotations
  imports Kubemeta
begin

section \<open>The served metadata and its budgets (pkg/kubemeta/annotations.go)\<close>

text \<open>
  Which labels and annotations of a cluster object are served: the refused keys, the two
  ceilings on annotations with the ordered admission behind them, the label budget of an
  owner, and the notes that name what was left out.
\<close>

definition OmittedAnnotation :: string where
  "OmittedAnnotation = ''kubescrape.io/annotations-omitted''"

definition LabelsOmittedAnnotation :: string where
  "LabelsOmittedAnnotation = ''kubescrape.io/labels-omitted''"

definition refusedAnnotations :: "string list" where
  "refusedAnnotations =
     [''kubectl.kubernetes.io/last-applied-configuration'', ''kapp.k14s.io/original'',
      OmittedAnnotation, LabelsOmittedAnnotation]"

definition MaxOwnerLabelBytes :: nat where "MaxOwnerLabelBytes = 16384"
definition MaxAnnotationValueBytes :: nat where "MaxAnnotationValueBytes = 8192"
definition MaxAnnotationBytes :: nat where "MaxAnnotationBytes = 16384"
definition maxOmittedNamedBytes :: nat where "maxOmittedNamedBytes = 512"

definition preservedAnnotationPrefixes :: "string list" where
  "preservedAnnotationPrefixes = [''prometheus.io/'', ''kubescrape.io/'']"

definition omittedListPrefix :: string where "omittedListPrefix = ''; omitted: ''"
definition omittedListSep :: string where "omittedListSep = '', ''"

text \<open>The transform's in-place removal: the map that is left, and whether a key was removed.\<close>
fun strip_loop :: "string list \<Rightarrow> strmap \<Rightarrow> bool \<Rightarrow> strmap \<times> bool" where
  "strip_loop [] m dropped = (m, dropped)"
| "strip_loop (k # ks) m dropped =
     (case get m k of
        Some _ \<Rightarrow> strip_loop ks (del k m) True
      | None \<Rightarrow> strip_loop ks m dropped)"

definition StripDroppedAnnotations :: "strmap \<Rightarrow> strmap \<times> bool" where
  "StripDroppedAnnotations m = strip_loop refusedAnnotations m False"

definition preservedAnnotation :: "string \<Rightarrow> bool" where
  "preservedAnnotation k \<longleftrightarrow> list_ex (\<lambda>p. prefix p k) preservedAnnotationPrefixes"

text \<open>Every key the loop reads comes from the map, so the default is never used.\<close>
definition val_of :: "strmap \<Rightarrow> string \<Rightarrow> string" where
  "val_of m k = (case get m k of Some v \<Rightarrow> v | None \<Rightarrow> [])"

text \<open>
  The admission loop shared by the two budgets: keys are taken in order while they fit what
  is left of the cap, a key that does not fit is skipped. The result holds the refused keys,
  the map with the admitted ones and the bytes spent.
\<close>
fun admit :: "nat \<Rightarrow> strmap \<Rightarrow> string list \<Rightarrow> strmap \<Rightarrow> nat \<Rightarrow> string list \<times> strmap \<times> nat" where
  "admit cap m [] out spent = ([], out, spent)"
| "admit cap m (k # ks) out spent =
     (let cost = length k + length (val_of m k) in
      if spent + cost \<le> cap then admit cap m ks (put k (val_of m k) out) (spent + cost)
      else (let (refused, rest) = admit cap m ks out spent in (k # refused, rest)))"

definition admitAnnotations ::
  "strmap \<Rightarrow> string list \<Rightarrow> strmap \<Rightarrow> nat \<Rightarrow> string list \<times> strmap \<times> nat" where
  "admitAnnotations m keys out spent = admit MaxAnnotationBytes m keys out spent"

definition budgetOwnerLabelsSorted :: "strmap \<Rightarrow> strmap \<times> string list" where
  "budgetOwnerLabelsSorted labels =
     (let (omitted, out, _) = admit MaxOwnerLabelBytes labels (sort (map fst labels)) [] 0
      in (out, omitted))"

fun label_loop :: "strmap \<Rightarrow> strmap \<Rightarrow> nat \<Rightarrow> strmap \<Rightarrow> strmap \<times> string list" where
  "label_loop labels [] sum_len fast = (fast, [])"
| "label_loop labels ((k, v) # rest) sum_len fast =
     (let sum_len = sum_len + (length k + length v) in
      if sum_len > MaxOwnerLabelBytes then budgetOwnerLabelsSorted labels
      else label_loop labels rest sum_len (put k v fast))"

definition budgetOwnerLabels :: "strmap \<Rightarrow> strmap \<times> string list" where
  "budgetOwnerLabels labels = (if labels = [] then ([], []) else label_loop labels labels 0 [])"

text \<open>
  Names as many keys as the note affords: \<open>named\<close> counts the keys written so far and
  \<open>spent\<close> the bytes they took, separators included. \<open>note_sep\<close> is the separator the
  next item is preceded by.
\<close>
definition note_sep :: "nat \<Rightarrow> string" where
  "note_sep named = (if named = 0 then omittedListPrefix else omittedListSep)"

fun name_keys :: "string list \<Rightarrow> nat \<Rightarrow> nat \<Rightarrow> string \<times> nat" where
  "name_keys [] named spent = ([], named)"
| "name_keys (k # ks) named spent =
     (if spent + length k > maxOmittedNamedBytes then ([], named)
      else (let (t, n) = name_keys ks (Suc named) (spent + (length k + length omittedListSep))
            in (note_sep named @ k @ t, n)))"

definition appendNamedKeys :: "string \<Rightarrow> string list \<Rightarrow> string" where
  "appendNamedKeys b keys =
     (let (t, named) = name_keys keys 0 0;
          rest = length keys - named
      in b @ t @ (if rest > 0 then note_sep named @ ''+'' @ Itoa rest @ '' more'' else []))"

definition omittedLabelsNote :: "string list \<Rightarrow> string" where
  "omittedLabelsNote keys =
     appendNamedKeys
       (Itoa (length keys) @ '' label(s) omitted by kubescrape: this owner's '' @
        Itoa MaxOwnerLabelBytes @ ''-byte label budget was spent'')
       keys"

definition omittedNote :: "string list \<Rightarrow> string" where
  "omittedNote keys =
     appendNamedKeys
       (Itoa (length keys) @ '' annotation(s) omitted by kubescrape: a value over '' @
        Itoa MaxAnnotationValueBytes @ '' bytes, or this object's '' @
        Itoa MaxAnnotationBytes @ ''-byte annotation budget was spent'')
       keys"

text \<open>The merge of two sorted key lists.\<close>
fun appendMerged :: "string list \<Rightarrow> string list \<Rightarrow> string list \<Rightarrow> string list" where
  "appendMerged dst (a # as) (b # bs) =
     (if a < b then appendMerged (dst @ [a]) as (b # bs) else appendMerged (dst @ [b]) (a # as) bs)"
| "appendMerged dst as bs = dst @ as @ bs"

text \<open>
  The four key groups of the slow path. The code fills one slice from both ends, so the
  preserved keys arrive in visiting order and the others in reverse; both are sorted next.
\<close>
record key_groups =
  kg_preserved :: "string list"
  kg_rest :: "string list"
  kg_bigPreserved :: "string list"
  kg_bigRest :: "string list"

fun group_keys :: "strmap \<Rightarrow> key_groups \<Rightarrow> key_groups" where
  "group_keys [] g = g"
| "group_keys ((k, v) # m) g =
     group_keys m
       (if k \<in> set refusedAnnotations then g
        else if length v > MaxAnnotationValueBytes then
          (if preservedAnnotation k then g\<lparr>kg_bigPreserved := kg_bigPreserved g @ [k]\<rparr>
           else g\<lparr>kg_bigRest := kg_bigRest g @ [k]\<rparr>)
        else if preservedAnnotation k then g\<lparr>kg_preserved := kg_preserved g @ [k]\<rparr>
        else g\<lparr>kg_rest := k # kg_rest g\<rparr>)"

definition no_keys :: key_groups where
  "no_keys = \<lparr>kg_preserved = [], kg_rest = [], kg_bigPreserved = [], kg_bigRest = []\<rparr>"

definition budgetAnnotations :: "strmap \<Rightarrow> strmap" where
  "budgetAnnotations m =
     (let g = group_keys m no_keys;
          preserved = sort (kg_preserved g); rest = sort (kg_rest g);
          bigPreserved = sort (kg_bigPreserved g); bigRest = sort (kg_bigRest g);
          (preserved, out, spent) = admitAnnotations m preserved [] 0;
          (rest, out, _) = admitAnnotations m rest out spent;
          named = appendMerged [] bigPreserved preserved;
          named = appendMerged named bigRest rest
      in put OmittedAnnotation (omittedNote named) out)"

fun filter_loop :: "strmap \<Rightarrow> strmap \<Rightarrow> nat \<Rightarrow> strmap \<Rightarrow> strmap" where
  "filter_loop m [] sum_len out = out"
| "filter_loop m ((k, v) # rest) sum_len out =
     (if k \<in> set refusedAnnotations then filter_loop m rest sum_len out
      else if length v > MaxAnnotationValueBytes then budgetAnnotations m
      else (let sum_len = sum_len + (length k + length v) in
            if sum_len > MaxAnnotationBytes then budgetAnnotations m
            else filter_loop m rest sum_len (put k v out)))"

definition FilterAnnotations :: "strmap \<Rightarrow> strmap" where
  "FilterAnnotations m = (if m = [] then [] else filter_loop m m 0 [])"

definition cloneMap :: "strmap \<Rightarrow> strmap" where
  "cloneMap m = (if m = [] then [] else m)"

definition CopyMeta :: "strmap \<Rightarrow> strmap \<Rightarrow> strmap \<times> strmap" where
  "CopyMeta labels annotations = (cloneMap labels, FilterAnnotations annotations)"

definition CopyOwnerMeta :: "strmap \<Rightarrow> strmap \<Rightarrow> strmap \<times> strmap" where
  "CopyOwnerMeta labels annotations =
     (let (outLabels, omitted) = budgetOwnerLabels labels;
          outAnnotations = FilterAnnotations annotations
      in (outLabels,
          if omitted \<noteq> [] then put LabelsOmittedAnnotation (omittedLabelsNote omitted) outAnnotations
          else outAnnotations))"

definition LabelsOmitted :: "strmap \<Rightarrow> bool" where
  "LabelsOmitted annotations \<longleftrightarrow> get annotations LabelsOmittedAnnotation \<noteq> None"

definition AnnotationsOmitted :: "strmap \<Rightarrow> bool" where
  "AnnotationsOmitted m \<longleftrightarrow> get m OmittedAnnotation \<noteq> None"

definition AnnotationWasOmitted :: "strmap \<Rightarrow> string \<Rightarrow> bool" where
  "AnnotationWasOmitted m key =
     (case get m OmittedAnnotation of
        None \<Rightarrow> False
      | Some note \<Rightarrow>
          (case Cut omittedListPrefix note of
             None \<Rightarrow> False
           | Some (_, names) \<Rightarrow> key \<in> set (Split omittedListSep names)))"

subsection \<open>Sizes\<close>

definition entry_bytes :: "string \<times> string \<Rightarrow> nat" where
  "entry_bytes e = length (fst e) + length (snd e)"

definition bytes :: "strmap \<Rightarrow> nat" where
  "bytes m = sum_list (map entry_bytes m)"

definition cost :: "strmap \<Rightarrow> string \<Rightarrow> nat" where
  "cost m k = length k + length (val_of m k)"

lemma bytes_simps [simp]: "bytes [] = 0" "bytes (e # m) = entry_bytes e + bytes m"
  "bytes (m @ m') = bytes m + bytes m'"
  by (simp_all add: bytes_def)

lemma bytes_perm: "mset m = mset m' \<Longrightarrow> bytes m = bytes m'"
  unfolding bytes_def by (metis mset_map sum_mset_sum_list)

lemma put_fresh: "get m k = None \<Longrightarrow> put k v m = m @ [(k, v)]"
  by (induction m) (auto split: if_splits)

lemma bytes_put: "get m k = None \<Longrightarrow> bytes (put k v m) = bytes m + (length k + length v)"
  by (simp add: put_fresh entry_bytes_def)

subsection \<open>The admission loop\<close>

lemma admit_subseq: "admit cap m ks out spent = (refused, out', spent') \<Longrightarrow> subseq refused ks"
  by (induction ks arbitrary: out spent refused)
    (auto simp: Let_def split: if_splits prod.splits)

lemma admit_get:
  assumes "admit cap m ks out spent = (refused, out', spent')" "distinct ks"
  shows "get out' k = (if k \<in> set ks - set refused then Some (val_of m k) else get out k)"
  using assms
proof (induction ks arbitrary: out spent refused)
  case (Cons x ks)
  show ?case
  proof (cases "spent + (length x + length (val_of m x)) \<le> cap")
    case True
    with Cons.prems have
      adm: "admit cap m ks (put x (val_of m x) out) (spent + (length x + length (val_of m x))) =
        (refused, out', spent')" and d: "distinct ks" "x \<notin> set ks"
      by (simp_all add: Let_def)
    from admit_subseq [OF adm] d(2) have "x \<notin> set refused"
      by (meson in_mono subseq_set)
    with Cons.IH [OF adm d(1)] d show ?thesis by auto
  next
    case False
    with Cons.prems obtain refused' where
      adm: "admit cap m ks out spent = (refused', out', spent')" and r: "refused = x # refused'"
      by (auto simp: Let_def split: prod.splits)
    with Cons.prems(2) Cons.IH [OF adm] show ?thesis by auto
  qed
qed simp

lemma admit_cap:
  "admit cap m ks out spent = (refused, out', spent') \<Longrightarrow> spent \<le> cap \<Longrightarrow> spent' \<le> cap"
  by (induction ks arbitrary: out spent refused)
    (auto simp: Let_def split: if_splits prod.splits)

lemma admit_bytes:
  assumes "admit cap m ks out spent = (refused, out', spent')" "distinct ks"
    and "\<And>k. k \<in> set ks \<Longrightarrow> get out k = None"
  shows "bytes out' + spent = bytes out + spent'"
  using assms
proof (induction ks arbitrary: out spent refused)
  case (Cons x ks)
  show ?case
  proof (cases "spent + (length x + length (val_of m x)) \<le> cap")
    case True
    with Cons.prems have
      adm: "admit cap m ks (put x (val_of m x) out) (spent + (length x + length (val_of m x))) =
        (refused, out', spent')"
      by (simp add: Let_def)
    have "bytes out' + (spent + (length x + length (val_of m x))) =
        bytes (put x (val_of m x) out) + spent'"
      using Cons.prems by (intro Cons.IH [OF adm]) auto
    with Cons.prems(3) [of x] show ?thesis by (simp add: bytes_put)
  next
    case False
    with Cons.prems obtain refused' where
      "admit cap m ks out spent = (refused', out', spent')"
      by (auto simp: Let_def split: prod.splits)
    with Cons.prems show ?thesis by (intro Cons.IH) auto
  qed
qed simp

text \<open>Keys that fit together are all admitted.\<close>
lemma admit_all:
  assumes "spent + sum_list (map (cost m) ks) \<le> cap"
  shows "fst (admit cap m ks out spent) = []"
  using assms
proof (induction ks arbitrary: out spent)
  case (Cons x ks)
  then have "spent + (length x + length (val_of m x)) + sum_list (map (cost m) ks) \<le> cap"
    by (simp add: cost_def [of m x])
  with Cons.IH [of "spent + (length x + length (val_of m x))"] show ?case by (simp add: Let_def)
qed simp

text \<open>A refused key did not fit behind what was admitted before it.\<close>
lemma admit_wf: "admit cap m ks out spent = (refused, out', spent') \<Longrightarrow> wf_map out \<Longrightarrow> wf_map out'"
  by (induction ks arbitrary: out spent refused)
    (auto simp: Let_def split: if_splits prod.splits)

lemma admit_cong:
  "(\<And>k. k \<in> set ks \<Longrightarrow> val_of m k = val_of m' k) \<Longrightarrow>
     admit cap m ks out spent = admit cap m' ks out spent"
  by (induction ks arbitrary: out spent) (auto simp: Let_def)

subsection \<open>The label budget\<close>

lemma fold_put_append:
  "wf_map (xs @ ys) \<Longrightarrow> fold (\<lambda>(k, v). put k v) ys xs = xs @ ys"
proof (induction ys arbitrary: xs)
  case (Cons y ys)
  obtain k v where y: "y = (k, v)" by (cases y)
  with Cons.prems have "get xs k = None" by (auto simp: map_of_eq_None_iff)
  with Cons y show ?case by (simp add: put_fresh)
qed simp

lemma label_loop_eq:
  "sum_len \<le> MaxOwnerLabelBytes \<Longrightarrow>
     label_loop labels rest sum_len fast =
       (if sum_len + bytes rest > MaxOwnerLabelBytes then budgetOwnerLabelsSorted labels
        else (fold (\<lambda>(k, v). put k v) rest fast, []))"
  by (induction labels rest sum_len fast rule: label_loop.induct)
    (auto simp: Let_def entry_bytes_def)

lemma budgetOwnerLabels_eq:
  assumes "wf_map labels"
  shows "budgetOwnerLabels labels =
    (if bytes labels > MaxOwnerLabelBytes then budgetOwnerLabelsSorted labels else (labels, []))"
  using assms fold_put_append [of "[]" labels]
  by (auto simp: budgetOwnerLabels_def label_loop_eq)

subsection \<open>The annotation filter\<close>

definition servable :: "strmap \<Rightarrow> strmap" where
  "servable m = filter (\<lambda>(k, v). k \<notin> set refusedAnnotations) m"

definition over_ceiling :: "strmap \<Rightarrow> bool" where
  "over_ceiling m \<longleftrightarrow>
     list_ex (\<lambda>(k, v). length v > MaxAnnotationValueBytes) (servable m) \<or>
     bytes (servable m) > MaxAnnotationBytes"

lemma filter_loop_eq:
  "sum_len \<le> MaxAnnotationBytes \<Longrightarrow>
     filter_loop m rest sum_len out =
       (if list_ex (\<lambda>(k, v). length v > MaxAnnotationValueBytes) (servable rest) \<or>
           sum_len + bytes (servable rest) > MaxAnnotationBytes
        then budgetAnnotations m
        else fold (\<lambda>(k, v). put k v) (servable rest) out)"
  by (induction m rest sum_len out rule: filter_loop.induct)
    (auto simp: Let_def entry_bytes_def servable_def)

lemma wf_servable: "wf_map m \<Longrightarrow> wf_map (servable m)"
  by (simp add: servable_def distinct_map_filter)

lemma FilterAnnotations_eq:
  assumes "wf_map m"
  shows "FilterAnnotations m = (if over_ceiling m then budgetAnnotations m else servable m)"
  using fold_put_append [of "[]" "servable m"] wf_servable [OF assms]
  by (auto simp: FilterAnnotations_def filter_loop_eq over_ceiling_def servable_def)


subsubsection \<open>The ordered admission\<close>

text \<open>The keys of the entries a predicate selects, in lexicographic order.\<close>
definition keys_where :: "(string \<Rightarrow> string \<Rightarrow> bool) \<Rightarrow> strmap \<Rightarrow> string list" where
  "keys_where P m = sort (map fst (filter (\<lambda>(k, v). k \<notin> set refusedAnnotations \<and> P k v) m))"

abbreviation small :: "string \<Rightarrow> bool" where
  "small v \<equiv> length v \<le> MaxAnnotationValueBytes"

lemma keys_where_perm: "mset m = mset m' \<Longrightarrow> keys_where P m = keys_where P m'"
  unfolding keys_where_def by (intro sort_perm) (simp only: mset_map mset_filter)

lemma sorted_keys_where: "sorted (keys_where P m)"
  by (simp add: keys_where_def)

lemma distinct_keys_where: "wf_map m \<Longrightarrow> distinct (keys_where P m)"
  by (simp add: keys_where_def distinct_map_filter)

lemma set_keys_where:
  "wf_map m \<Longrightarrow> k \<in> set (keys_where P m) \<longleftrightarrow>
     k \<notin> set refusedAnnotations \<and> (\<exists>v. get m k = Some v \<and> P k v)"
  by (force simp: keys_where_def)

lemma group_keys_eq:
  "group_keys m g =
     \<lparr>kg_preserved = kg_preserved g @
        map fst (filter (\<lambda>(k, v). k \<notin> set refusedAnnotations \<and> small v \<and> preservedAnnotation k) m),
      kg_rest = rev
        (map fst (filter (\<lambda>(k, v). k \<notin> set refusedAnnotations \<and> small v \<and> \<not> preservedAnnotation k) m))
        @ kg_rest g,
      kg_bigPreserved = kg_bigPreserved g @
        map fst (filter (\<lambda>(k, v). k \<notin> set refusedAnnotations \<and> \<not> small v \<and> preservedAnnotation k) m),
      kg_bigRest = kg_bigRest g @
        map fst (filter (\<lambda>(k, v). k \<notin> set refusedAnnotations \<and> \<not> small v \<and> \<not> preservedAnnotation k) m)\<rparr>"
  by (induction m g rule: group_keys.induct) auto

lemma sort_rev: "sort (rev xs) = sort xs"
  by (intro sort_perm) simp

lemma sort_groups:
  "sort (kg_preserved (group_keys m no_keys)) = keys_where (\<lambda>k v. small v \<and> preservedAnnotation k) m"
  "sort (kg_rest (group_keys m no_keys)) = keys_where (\<lambda>k v. small v \<and> \<not> preservedAnnotation k) m"
  "sort (kg_bigPreserved (group_keys m no_keys)) = keys_where (\<lambda>k v. \<not> small v \<and> preservedAnnotation k) m"
  "sort (kg_bigRest (group_keys m no_keys)) = keys_where (\<lambda>k v. \<not> small v \<and> \<not> preservedAnnotation k) m"
  by (simp_all add: group_keys_eq no_keys_def keys_where_def sort_rev)

lemma appendMerged_props:
  shows appendMerged_mset: "mset (appendMerged dst as bs) = mset dst + mset as + mset bs"
    and appendMerged_prefix: "prefix dst (appendMerged dst as bs)"
  by (induction dst as bs rule: appendMerged.induct) (auto simp: prefix_def)


text \<open>
  The slow path in closed form: the two admission passes, the entries they let in and the keys
  left out, which are exactly what the note names.
\<close>
abbreviation kept_first :: "strmap \<Rightarrow> string list" where
  "kept_first m \<equiv> keys_where (\<lambda>k v. small v \<and> preservedAnnotation k) m"

abbreviation kept_next :: "strmap \<Rightarrow> string list" where
  "kept_next m \<equiv> keys_where (\<lambda>k v. small v \<and> \<not> preservedAnnotation k) m"

definition pass1 :: "strmap \<Rightarrow> string list \<times> strmap \<times> nat" where
  "pass1 m = admit MaxAnnotationBytes m (kept_first m) [] 0"

definition pass2 :: "strmap \<Rightarrow> string list \<times> strmap \<times> nat" where
  "pass2 m = admit MaxAnnotationBytes m (kept_next m) (fst (snd (pass1 m))) (snd (snd (pass1 m)))"

definition left_out :: "strmap \<Rightarrow> string list" where
  "left_out m =
     appendMerged (appendMerged [] (keys_where (\<lambda>k v. \<not> small v \<and> preservedAnnotation k) m) (fst (pass1 m)))
       (keys_where (\<lambda>k v. \<not> small v \<and> \<not> preservedAnnotation k) m) (fst (pass2 m))"

definition let_in :: "strmap \<Rightarrow> strmap" where
  "let_in m = fst (snd (pass2 m))"

lemma budgetAnnotations_eq:
  "budgetAnnotations m = put OmittedAnnotation (omittedNote (left_out m)) (let_in m)"
  by (simp add: budgetAnnotations_def Let_def admitAnnotations_def sort_groups pass1_def pass2_def
      left_out_def let_in_def case_prod_beta)

lemma pass1_admit: "admit MaxAnnotationBytes m (kept_first m) [] 0 =
    (fst (pass1 m), fst (snd (pass1 m)), snd (snd (pass1 m)))"
  by (simp add: pass1_def)

lemma pass2_admit: "admit MaxAnnotationBytes m (kept_next m) (fst (snd (pass1 m))) (snd (snd (pass1 m))) =
    (fst (pass2 m), let_in m, snd (snd (pass2 m)))"
  by (simp add: pass2_def let_in_def)

lemmas pass_refused =
  subseq_set [OF admit_subseq [OF pass1_admit], THEN subsetD]
  subseq_set [OF admit_subseq [OF pass2_admit], THEN subsetD]

lemma set_left_out:
  "k \<in> set (left_out m) \<longleftrightarrow>
     k \<in> set (keys_where (\<lambda>k v. \<not> small v \<and> preservedAnnotation k) m) \<or> k \<in> set (fst (pass1 m)) \<or>
     k \<in> set (keys_where (\<lambda>k v. \<not> small v \<and> \<not> preservedAnnotation k) m) \<or> k \<in> set (fst (pass2 m))"
  using arg_cong [OF appendMerged_mset, of set_mset] unfolding left_out_def by auto

lemma left_outD:
  assumes "wf_map m" "k \<in> set (left_out m)"
  shows "k \<notin> set refusedAnnotations" "get m k \<noteq> None"
  using assms by (auto simp: set_left_out set_keys_where dest!: pass_refused)

lemma distinct_left_out:
  assumes wf: "wf_map m"
  shows "distinct (left_out m)"
proof -
  note dist = distinct_keys_where [OF wf] and mem = set_keys_where [OF wf]
  have "distinct (fst (pass1 m))" "distinct (fst (pass2 m))"
    using subseq_distinct [OF admit_subseq [OF pass1_admit] dist]
      subseq_distinct [OF admit_subseq [OF pass2_admit] dist] by simp_all
  then have "distinct ((keys_where (\<lambda>k v. \<not> small v \<and> preservedAnnotation k) m @ fst (pass1 m)) @
      keys_where (\<lambda>k v. \<not> small v \<and> \<not> preservedAnnotation k) m @ fst (pass2 m))"
    using dist by (auto simp: mem dest!: pass_refused)
  then show ?thesis
    unfolding left_out_def
    by (rule mset_eq_imp_distinct_iff [THEN iffD1, rotated]) (simp add: appendMerged_mset)
qed

lemma get_pass1:
  "wf_map m \<Longrightarrow> get (fst (snd (pass1 m))) k =
     (if k \<in> set (kept_first m) - set (fst (pass1 m)) then Some (val_of m k) else None)"
  using admit_get [OF pass1_admit distinct_keys_where] by simp

lemma get_let_in:
  assumes wf: "wf_map m"
  shows "get (let_in m) k =
    (if k \<in> set refusedAnnotations \<or> k \<in> set (left_out m) then None else get m k)"
  using pass_refused [where m = m]
  by (cases "get m k")
    (auto simp: admit_get [OF pass2_admit distinct_keys_where [OF wf]] get_pass1 [OF wf]
      set_left_out set_keys_where [OF wf] val_of_def)

lemma bytes_let_in:
  assumes wf: "wf_map m"
  shows "bytes (let_in m) \<le> MaxAnnotationBytes"
proof -
  have "bytes (fst (snd (pass1 m))) = snd (snd (pass1 m))"
    using admit_bytes [OF pass1_admit distinct_keys_where [OF wf]] by simp
  moreover have "bytes (let_in m) + snd (snd (pass1 m)) = bytes (fst (snd (pass1 m))) + snd (snd (pass2 m))"
    by (rule admit_bytes [OF pass2_admit distinct_keys_where [OF wf]])
      (auto simp: get_pass1 [OF wf] set_keys_where [OF wf])
  moreover have "snd (snd (pass2 m)) \<le> MaxAnnotationBytes"
    using admit_cap [OF pass2_admit] admit_cap [OF pass1_admit] by simp
  ultimately show ?thesis by simp
qed

lemma kept_first_let_in:
  assumes "wf_map m" "sum_list (map (cost m) (kept_first m)) \<le> MaxAnnotationBytes"
    and "k \<in> set (kept_first m)"
  shows "k \<notin> set (left_out m)"
proof -
  have "fst (pass1 m) = []"
    using admit_all [of 0 m "kept_first m" MaxAnnotationBytes "[]"] assms(2) by (simp add: pass1_def)
  with assms(3) show ?thesis
    by (auto simp: set_left_out set_keys_where [OF assms(1)] dest!: pass_refused)
qed

lemma OmittedAnnotation_refused: "OmittedAnnotation \<in> set refusedAnnotations"
  by (simp add: refusedAnnotations_def)

lemma get_budgetAnnotations:
  "wf_map m \<Longrightarrow> get (budgetAnnotations m) k =
     (if k = OmittedAnnotation then Some (omittedNote (left_out m))
      else if k \<in> set refusedAnnotations \<or> k \<in> set (left_out m) then None else get m k)"
  by (simp add: budgetAnnotations_eq get_let_in)

lemma get_servable:
  "wf_map m \<Longrightarrow> get (servable m) k = (if k \<in> set refusedAnnotations then None else get m k)"
  unfolding servable_def by (induction m) auto

lemma left_out_perm:
  assumes "wf_map m" "mset m = mset m'"
  shows "left_out m = left_out m'" "let_in m = let_in m'"
proof -
  have "val_of m = val_of m'"
    using get_perm [OF assms] by (simp add: val_of_def fun_eq_iff)
  then have adm: "admit c m ks out s = admit c m' ks out s" for c ks out s
    by (intro admit_cong) simp
  then have "pass1 m = pass1 m'" "pass2 m = pass2 m'"
    using keys_where_perm [OF assms(2)] by (simp_all add: pass1_def pass2_def)
  then show "left_out m = left_out m'" "let_in m = let_in m'"
    using keys_where_perm [OF assms(2)] by (simp_all add: left_out_def let_in_def)
qed

lemma over_ceiling_perm: "mset m = mset m' \<Longrightarrow> over_ceiling m = over_ceiling m'"
proof -
  assume "mset m = mset m'"
  then have "mset (servable m) = mset (servable m')"
    by (simp add: servable_def)
  then have "set (servable m) = set (servable m')" "bytes (servable m) = bytes (servable m')"
    by (rule mset_eq_setD, rule bytes_perm)
  then show ?thesis by (simp add: over_ceiling_def list_ex_iff)
qed

text \<open>
  The served annotations of an object do not depend on the order in which the map is
  visited: the same object gives the same document, and so the same ETag, on every request.
\<close>
theorem FilterAnnotations_order:
  assumes "wf_map m" "mset m = mset m'"
  shows "get (FilterAnnotations m) = get (FilterAnnotations m')"
proof -
  have wf': "wf_map m'"
    using assms mset_eq_imp_distinct_iff mset_map by metis
  have "get (servable m) = get (servable m')"
    using get_perm [OF assms] by (simp add: fun_eq_iff get_servable assms(1) wf')
  with assms wf' show ?thesis
    by (simp add: FilterAnnotations_eq over_ceiling_perm [OF assms(2)] budgetAnnotations_eq left_out_perm [OF assms])
qed

subsection \<open>The note\<close>

definition named_count :: "string list \<Rightarrow> nat" where
  "named_count keys = snd (name_keys keys 0 0)"

lemma name_keys_eq:
  "name_keys keys named spent = (t, n) \<Longrightarrow>
     named \<le> n \<and> n \<le> named + length keys \<and>
     t = (if n = named then []
          else note_sep named @ join omittedListSep (take (n - named) keys))"
proof (induction keys named spent arbitrary: t n rule: name_keys.induct)
  case (2 k ks named spent)
  show ?case
  proof (cases "spent + length k > maxOmittedNamedBytes")
    case False
    with "2.prems" obtain t' where
      rec: "name_keys ks (Suc named) (spent + (length k + length omittedListSep)) = (t', n)"
      and t: "t = note_sep named @ k @ t'"
      by (auto simp: split: prod.splits)
    from "2.IH" [OF False rec] have le: "Suc named \<le> n" "n \<le> Suc named + length ks" and
      t': "t' = (if n = Suc named then [] else note_sep (Suc named) @ join omittedListSep (take (n - Suc named) ks))"
      by auto
    have "take (n - named) (k # ks) = k # take (n - Suc named) ks"
      using le by (simp add: Suc_diff_le take_Cons')
    with le t t' show ?thesis
      by (cases ks) (auto simp: note_sep_def take_Cons' split: if_splits)
  qed (use "2.prems" in auto)
qed simp

text \<open>The items of the note's list: the named keys and, for the others, their number.\<close>
definition note_items :: "string list \<Rightarrow> string list" where
  "note_items keys =
     take (named_count keys) keys @
     (if named_count keys < length keys then [''+'' @ Itoa (length keys - named_count keys) @ '' more'']
      else [])"

lemma appendNamedKeys_eq:
  "keys \<noteq> [] \<Longrightarrow> appendNamedKeys b keys = b @ omittedListPrefix @ join omittedListSep (note_items keys)"
proof -
  assume ne: "keys \<noteq> []"
  obtain t n where nk: "name_keys keys 0 0 = (t, n)" by (cases "name_keys keys 0 0")
  then have n: "named_count keys = n" by (simp add: named_count_def)
  have le: "n \<le> length keys" and t: "t = (if n = 0 then [] else omittedListPrefix @ join omittedListSep (take n keys))"
    using name_keys_eq [OF nk] by (auto simp: note_sep_def)
  show ?thesis
    using ne le by (cases "n = 0")
      (auto simp: appendNamedKeys_def nk n note_items_def t note_sep_def join_snoc)
qed

lemma named_count_le: "named_count keys \<le> length keys"
  using name_keys_eq [of keys 0 0] by (cases "name_keys keys 0 0") (auto simp: named_count_def)

text \<open>A key is named as long as it and the keys before it fit the note's budget.\<close>
lemma name_keys_count:
  "i < length keys \<Longrightarrow>
     spent + sum_list (map (\<lambda>k. length k + 2) (take i keys)) + length (keys ! i) \<le> maxOmittedNamedBytes \<Longrightarrow>
     named + i < snd (name_keys keys named spent)"
proof (induction keys named spent arbitrary: i rule: name_keys.induct)
  case (2 k ks named spent)
  have fits: "\<not> spent + length k > maxOmittedNamedBytes"
    using "2.prems" by (cases i) auto
  have mono: "named \<le> snd (name_keys ks named spent)" for ks named spent
    using name_keys_eq by (metis prod.collapse)
  show ?case
  proof (cases i)
    case 0
    then show ?thesis
      using fits mono [of "Suc named" ks] by (simp add: case_prod_beta less_eq_Suc_le)
  next
    case (Suc j)
    with "2.IH" [OF fits, of j] "2.prems" fits show ?thesis
      by (simp add: case_prod_beta omittedListSep_def)
  qed
qed simp

lemma name_keys_length:
  "length (fst (name_keys keys named spent)) + spent \<le>
     max spent (maxOmittedNamedBytes + 2) + (if named = 0 then 9 else 0)"
proof (induction keys named spent rule: name_keys.induct)
  case (2 k ks named spent)
  then show ?case
    by (cases "spent + length k > maxOmittedNamedBytes")
      (auto simp: case_prod_beta note_sep_def omittedListPrefix_def omittedListSep_def max_def
        split: if_splits)
qed simp

lemma appendNamedKeys_length:
  "length (appendNamedKeys b keys) \<le> length b + maxOmittedNamedBytes + 19 + length (Itoa (length keys - named_count keys))"
proof -
  obtain t n where nk: "name_keys keys 0 0 = (t, n)" by (cases "name_keys keys 0 0")
  then have "length t \<le> maxOmittedNamedBytes + 11" "n = 0 \<Longrightarrow> t = []"
    using name_keys_length [of keys 0 0] name_keys_eq [OF nk] by auto
  then show ?thesis
    by (auto simp: appendNamedKeys_def nk note_sep_def omittedListPrefix_def omittedListSep_def
        named_count_def)
qed

lemma Itoa_mono: "m \<le> n \<Longrightarrow> length (Itoa m) \<le> length (Itoa n)"
proof (induction n arbitrary: m rule: Itoa.induct)
  case (1 n)
  show ?case
  proof (cases "m < 10")
    case True
    then show ?thesis by (simp add: Itoa.simps [of m] Itoa.simps [of n])
  next
    case False
    with "1.prems" "1.IH" [of "m div 10"] show ?thesis
      by (simp add: Itoa.simps [of m] Itoa.simps [of n] div_le_mono)
  qed
qed

lemma omittedNote_length:
  "length (omittedNote keys) \<le> maxOmittedNamedBytes + 151 + 2 * length (Itoa (length keys))"
proof -
  have "length (Itoa (length keys - named_count keys)) \<le> length (Itoa (length keys))"
    by (rule Itoa_mono) simp
  moreover have "length (Itoa 16384) = 5" "length (Itoa 8192) = 4"
    by (simp_all add: Itoa.simps)
  ultimately show ?thesis
    using appendNamedKeys_length [of "Itoa (length keys) @ '' annotation(s) omitted by kubescrape: a value over '' @
        Itoa MaxAnnotationValueBytes @ '' bytes, or this object's '' @
        Itoa MaxAnnotationBytes @ ''-byte annotation budget was spent''" keys]
    by (simp add: omittedNote_def MaxAnnotationValueBytes_def MaxAnnotationBytes_def)
qed

text \<open>
  An annotation key holds no comma, semicolon or space: Kubernetes admits letters, digits,
  \<^verbatim>\<open>-\<close>, \<^verbatim>\<open>_\<close>, \<^verbatim>\<open>.\<close> and one \<^verbatim>\<open>/\<close>.
\<close>
definition plain_key :: "string \<Rightarrow> bool" where
  "plain_key k \<longleftrightarrow> CHR '','' \<notin> set k \<and> CHR '' '' \<notin> set k"

lemma note_items_comma: "\<forall>k \<in> set keys. plain_key k \<Longrightarrow> \<forall>x \<in> set (note_items keys). CHR '','' \<notin> set x"
  by (auto simp: note_items_def plain_key_def Itoa_chars dest: in_set_takeD)

lemma omitted_list:
  assumes "keys \<noteq> []" "\<forall>k \<in> set keys. plain_key k"
  shows "\<exists>b names. Cut omittedListPrefix (omittedNote keys) = Some (b, names) \<and>
    Split omittedListSep names = note_items keys"
proof -
  obtain b where b: "omittedNote keys = b @ omittedListPrefix @ join omittedListSep (note_items keys)"
    and "CHR '';'' \<notin> set b"
    unfolding omittedNote_def appendNamedKeys_eq [OF assms(1)] by (auto simp: Itoa_chars)
  then have "Cut omittedListPrefix (omittedNote keys) = Some (b, join omittedListSep (note_items keys))"
    by (simp only: b) (rule Cut_hit, simp_all add: omittedListPrefix_def)
  moreover have "note_items keys \<noteq> []"
    using assms(1) by (cases keys) (auto simp: note_items_def)
  then have "Split omittedListSep (join omittedListSep (note_items keys)) = note_items keys"
    using note_items_comma [OF assms(2)] by (intro Split_join) (auto simp: omittedListSep_def)
  ultimately show ?thesis by blast
qed


subsection \<open>The contract of the filter\<close>

text \<open>
  Every entry the filter serves, its own note apart, is an entry of the object under a key
  that is not refused; and an object within both ceilings is served whole and without a note.
\<close>
theorem FilterAnnotations_verbatim:
  assumes "wf_map m"
  shows "(k \<noteq> OmittedAnnotation \<and> get (FilterAnnotations m) k = Some v \<longrightarrow>
      get m k = Some v \<and> k \<notin> set refusedAnnotations) \<and>
    (\<not> over_ceiling m \<longrightarrow>
      get (FilterAnnotations m) k = (if k \<in> set refusedAnnotations then None else get m k))"
  using assms OmittedAnnotation_refused
  by (auto simp: FilterAnnotations_eq get_budgetAnnotations get_servable split: if_splits)

text \<open>A named key fits, with the keys before it, and so a key is named exactly when it does.\<close>
lemma name_keys_fit:
  "i < length keys \<Longrightarrow> named + i < snd (name_keys keys named spent) \<Longrightarrow>
     spent + sum_list (map (\<lambda>k. length k + 2) (take i keys)) + length (keys ! i) \<le> maxOmittedNamedBytes"
proof (induction keys named spent arbitrary: i rule: name_keys.induct)
  case (2 k ks named spent)
  show ?case
  proof (cases "spent + length k > maxOmittedNamedBytes")
    case False
    show ?thesis
    proof (cases i)
      case (Suc j)
      with "2.IH" [OF False, of j] "2.prems" False show ?thesis
        by (simp add: case_prod_beta omittedListSep_def)
    qed (use False in simp)
  qed (use "2.prems" in simp)
qed simp

lemma named_iff:
  "i < length keys \<Longrightarrow>
     i < named_count keys \<longleftrightarrow> sum_list (map (\<lambda>k. length k + 2) (take i keys)) + length (keys ! i) \<le> maxOmittedNamedBytes"
  using name_keys_fit [of i keys 0 0] name_keys_count [of i keys 0 0] by (auto simp: named_count_def)

lemma left_out_noted:
  assumes "wf_map m" "over_ceiling m"
  shows "\<exists>names. get (FilterAnnotations m) OmittedAnnotation = Some (omittedNote names) \<and>
    names \<noteq> [] \<and> distinct names \<and>
    set names = {k. k \<notin> set refusedAnnotations \<and> get m k \<noteq> None \<and> get (FilterAnnotations m) k = None}"
proof -
  have "left_out m \<noteq> []"
  proof
    assume none: "left_out m = []"
    have "wf_map (let_in m)" "wf_map (servable m)"
      using admit_wf [OF pass2_admit admit_wf [OF pass1_admit]] wf_servable [OF assms(1)] by simp_all
    moreover have "get (let_in m) = get (servable m)"
      by (simp add: fun_eq_iff get_let_in get_servable assms(1) none)
    ultimately have "mset (let_in m) = mset (servable m)"
      by (metis distinct_map map_of_inject_set set_eq_iff_mset_eq_distinct)
    then have "bytes (servable m) \<le> MaxAnnotationBytes"
      using bytes_let_in [OF assms(1)] bytes_perm by metis
    with assms(2) obtain k v where "(k, v) \<in> set (servable m)" "\<not> small v"
      by (auto simp: over_ceiling_def list_ex_iff)
    then have "k \<in> set (left_out m)"
      using assms(1) by (auto simp: set_left_out set_keys_where servable_def)
    with none show False by simp
  qed
  moreover have "k \<in> set (left_out m) \<longleftrightarrow>
      k \<notin> set refusedAnnotations \<and> get m k \<noteq> None \<and> get (FilterAnnotations m) k = None" for k
    using assms OmittedAnnotation_refused left_outD [OF assms(1), of k]
    by (auto simp: FilterAnnotations_eq get_budgetAnnotations)
  ultimately show ?thesis
    using assms distinct_left_out [OF assms(1)]
    by (intro exI [of _ "left_out m"]) (auto simp: FilterAnnotations_eq get_budgetAnnotations)
qed

text \<open>
  C39. An object over a ceiling is served with a note that accounts for every servable key left out: the
  note opens with their number, lists them in a fixed order as long as a key and those listed before it
  fit 512 bytes, and ends with the number of those it does not list, when there are some.
\<close>
theorem FilterAnnotations_accounts:
  assumes "wf_map m" "over_ceiling m"
  shows "\<exists>names named. get (FilterAnnotations m) OmittedAnnotation =
      Some (Itoa (length names) @ '' annotation(s) omitted by kubescrape: a value over '' @
        Itoa MaxAnnotationValueBytes @ '' bytes, or this object's '' @
        Itoa MaxAnnotationBytes @ ''-byte annotation budget was spent; omitted: '' @
        join '', '' (take named names @ (if named < length names then [''+'' @ Itoa (length names - named) @ '' more''] else []))) \<and>
    named \<le> length names \<and>
    (\<forall>i < length names. i < named \<longleftrightarrow> sum_list (map (\<lambda>k. length k + 2) (take i names)) + length (names ! i) \<le> 512) \<and>
    names \<noteq> [] \<and> distinct names \<and>
    set names = {k. k \<notin> set refusedAnnotations \<and> get m k \<noteq> None \<and> get (FilterAnnotations m) k = None}"
proof -
  from left_out_noted [OF assms] obtain names where
    n: "get (FilterAnnotations m) OmittedAnnotation = Some (omittedNote names)" "names \<noteq> []" "distinct names"
    "set names = {k. k \<notin> set refusedAnnotations \<and> get m k \<noteq> None \<and> get (FilterAnnotations m) k = None}" by blast
  have "\<forall>i < length names. i < named_count names \<longleftrightarrow>
      sum_list (map (\<lambda>k. length k + 2) (take i names)) + length (names ! i) \<le> 512"
    using named_iff [of _ names] by (simp add: maxOmittedNamedBytes_def)
  with n named_count_le [of names] show ?thesis
    by (intro exI [of _ names] exI [of _ "named_count names"])
      (simp add: omittedNote_def appendNamedKeys_eq note_items_def omittedListPrefix_def omittedListSep_def)
qed

lemma FilterAnnotations_size:
  assumes "wf_map m"
  shows "bytes (FilterAnnotations m) \<le>
    MaxAnnotationBytes + maxOmittedNamedBytes + 184 + 2 * length (Itoa (length m))"
proof (cases "over_ceiling m")
  case True
  have "get (let_in m) OmittedAnnotation = None"
    using assms OmittedAnnotation_refused by (simp add: get_let_in)
  then have "bytes (FilterAnnotations m) = bytes (let_in m) + 33 + length (omittedNote (left_out m))"
    using True assms by (simp add: FilterAnnotations_eq budgetAnnotations_eq bytes_put OmittedAnnotation_def)
  moreover have "length (left_out m) \<le> length m"
  proof -
    have "set (left_out m) \<subseteq> set (map fst m)"
      using left_outD(2) [OF assms] by (auto simp: map_of_eq_None_iff)
    then show ?thesis
      using distinct_left_out [OF assms] by (metis card_mono distinct_card finite_set length_map assms)
  qed
  then have "length (Itoa (length (left_out m))) \<le> length (Itoa (length m))"
    by (rule Itoa_mono)
  ultimately show ?thesis
    using bytes_let_in [OF assms] omittedNote_length [of "left_out m"] by linarith
next
  case False
  with assms show ?thesis by (simp add: FilterAnnotations_eq over_ceiling_def)
qed

text \<open>
  The served annotations of one object take at most the annotation budget plus the note:
  its key, 512 bytes of names and a fixed text with two numbers.
\<close>
theorem FilterAnnotations_bytes:
  assumes "wf_map m"
  shows "bytes (FilterAnnotations m) \<le>
    MaxAnnotationBytes + maxOmittedNamedBytes + 184 + 2 * length (Itoa (length m))"
  using assms by (rule FilterAnnotations_size)

lemma bytes_filter: "bytes (filter P m) \<le> bytes m"
  by (induction m) auto

lemma cost_keys_where:
  assumes "wf_map m"
  shows "sum_list (map (cost m) (keys_where P m)) =
    bytes (filter (\<lambda>(k, v). k \<notin> set refusedAnnotations \<and> P k v) m)"
proof -
  have "cost m (fst e) = entry_bytes e" if "e \<in> set m" for e
    using that assms by (metis (no_types, lifting) cost_def entry_bytes_def map_of_eq_Some_iff
        option.case(2) prod.collapse val_of_def)
  then have "bytes (filter Q m) = sum_list (map (cost m) (map fst (filter Q m)))" for Q
    unfolding bytes_def map_map by (intro arg_cong [where f = sum_list] map_cong) auto
  moreover have "sum_list (map (cost m) (sort xs)) = sum_list (map (cost m) xs)" for xs
    by (metis mset_map mset_sort sum_mset_sum_list)
  ultimately show ?thesis by (simp only: keys_where_def)
qed

text \<open>
  The keys this project's own derivations read (\<^verbatim>\<open>prometheus.io/\<close> and
  \<^verbatim>\<open>kubescrape.io/\<close>) are admitted first: as long as they fit the budget on their own, every one
  of them whose value is within its ceiling is served, whatever else the object carries.
\<close>
theorem FilterAnnotations_preserved:
  assumes "wf_map m"
    and "bytes (filter (\<lambda>(k, v). preservedAnnotation k) m) \<le> MaxAnnotationBytes"
    and "get m k = Some v" "preservedAnnotation k" "k \<notin> set refusedAnnotations"
    and "length v \<le> MaxAnnotationValueBytes"
  shows "get (FilterAnnotations m) k = Some v"
proof -
  have "sum_list (map (cost m) (kept_first m)) =
      bytes (filter (\<lambda>(k, v). k \<notin> set refusedAnnotations \<and> small v) (filter (\<lambda>(k, v). preservedAnnotation k) m))"
    unfolding cost_keys_where [OF assms(1)] filter_filter
    by (rule arg_cong [where f = bytes], rule filter_cong) auto
  also have "\<dots> \<le> bytes (filter (\<lambda>(k, v). preservedAnnotation k) m)"
    by (rule bytes_filter)
  also note assms(2)
  finally have "sum_list (map (cost m) (kept_first m)) \<le> MaxAnnotationBytes" .
  moreover have "k \<in> set (kept_first m)"
    using assms by (auto simp: set_keys_where)
  ultimately have "k \<notin> set (left_out m)"
    using kept_first_let_in assms(1) by blast
  moreover have "k \<noteq> OmittedAnnotation"
    using assms(5) OmittedAnnotation_refused by auto
  ultimately show ?thesis
    using assms by (simp add: FilterAnnotations_eq get_budgetAnnotations get_servable)
qed

lemma more_not_plain: "plain_key key \<Longrightarrow> key \<noteq> ''+'' @ n @ '' more''"
  by (auto simp: plain_key_def)

lemma AnnotationWasOmitted_iff:
  assumes "wf_map m" "over_ceiling m" "\<forall>k \<in> dom (get m). plain_key k" "plain_key key"
  shows "AnnotationWasOmitted (FilterAnnotations m) key \<longleftrightarrow>
    key \<in> set (take (named_count (left_out m)) (left_out m))"
proof -
  have eq: "get (FilterAnnotations m) OmittedAnnotation = Some (omittedNote (left_out m))"
    using assms(1,2) by (simp add: FilterAnnotations_eq get_budgetAnnotations)
  show ?thesis
  proof (cases "left_out m = []")
    case True
    have "CHR '';'' \<notin> set (omittedNote [])"
      by (simp add: omittedNote_def appendNamedKeys_def Itoa_chars)
    then have "Cut omittedListPrefix (omittedNote []) = None"
      by (intro Cut_miss) (simp_all add: omittedListPrefix_def)
    with True eq show ?thesis by (simp add: AnnotationWasOmitted_def)
  next
    case False
    have "\<forall>k \<in> set (left_out m). plain_key k"
      using assms(3) left_outD(2) [OF assms(1)] by blast
    with omitted_list [OF False] obtain b names where
      "Cut omittedListPrefix (omittedNote (left_out m)) = Some (b, names)"
      "Split omittedListSep names = note_items (left_out m)" by blast
    with eq show ?thesis
      using more_not_plain [OF assms(4)] by (simp add: AnnotationWasOmitted_def note_items_def)
  qed
qed

text \<open>
  C40. The note is readable: for annotation keys as Kubernetes admits them, \<^verbatim>\<open>AnnotationWasOmitted\<close>
  on the served annotations holds for exactly the left-out keys the note names.
\<close>
theorem AnnotationWasOmitted_exact:
  assumes "wf_map m" "over_ceiling m" "\<forall>k \<in> dom (get m). plain_key k" "plain_key key"
  shows "AnnotationWasOmitted (FilterAnnotations m) key \<longleftrightarrow>
    key \<in> set (take (named_count (left_out m)) (left_out m))"
  using assms by (rule AnnotationWasOmitted_iff)

fun merge_keys :: "string list \<Rightarrow> string list \<Rightarrow> string list" where
  "merge_keys (a # as) (b # bs) = (if a < b then a # merge_keys as (b # bs) else b # merge_keys (a # as) bs)"
| "merge_keys as bs = as @ bs"

lemma appendMerged_eq: "appendMerged dst as bs = dst @ merge_keys as bs"
  by (induction dst as bs rule: appendMerged.induct) auto

lemma set_merge_keys: "set (merge_keys as bs) = set as \<union> set bs"
  by (induction as bs rule: merge_keys.induct) auto

text \<open>The left-out keys with a preserved prefix come first in the note's list.\<close>
lemma left_out_split:
  assumes "wf_map m"
  shows "\<exists>rest. left_out m = filter preservedAnnotation (left_out m) @ rest"
proof -
  let ?P = "merge_keys (keys_where (\<lambda>k v. \<not> small v \<and> preservedAnnotation k) m) (fst (pass1 m))"
  let ?R = "merge_keys (keys_where (\<lambda>k v. \<not> small v \<and> \<not> preservedAnnotation k) m) (fst (pass2 m))"
  have P: "preservedAnnotation k" if "k \<in> set ?P" for k
    using that by (auto simp: set_merge_keys set_keys_where [OF assms] dest!: pass_refused)
  have R: "\<not> preservedAnnotation k" if "k \<in> set ?R" for k
    using that by (auto simp: set_merge_keys set_keys_where [OF assms] dest!: pass_refused)
  have "filter preservedAnnotation ?P = ?P" "filter preservedAnnotation ?R = []"
    by (rule filter_True, use P in blast) (rule filter_False, use R in blast)
  moreover have "left_out m = ?P @ ?R"
    by (simp add: left_out_def appendMerged_eq)
  ultimately show ?thesis by auto
qed

lemma named_count_prefix:
  assumes "sum_list (map (\<lambda>k. length k + 2) xs) \<le> maxOmittedNamedBytes + 2"
  shows "length xs \<le> named_count (xs @ ys)"
proof (cases xs rule: rev_cases)
  case (snoc zs z)
  have "0 + length zs < snd (name_keys ((zs @ [z]) @ ys) 0 0)"
    by (rule name_keys_count) (use assms snoc in \<open>auto simp: nth_append\<close>)
  with snoc show ?thesis by (simp add: named_count_def)
qed simp

text \<open>
  A consumer can tell an absent \<^verbatim>\<open>prometheus.io/\<close> or \<^verbatim>\<open>kubescrape.io/\<close> annotation from one
  the filter refused: as long as the refused keys with these prefixes fit the note's 512 bytes, each of
  them is reported as omitted, however many other keys were refused.
\<close>
theorem AnnotationWasOmitted_preserved:
  assumes "wf_map m" "over_ceiling m" "\<forall>k \<in> dom (get m). plain_key k"
    and "sum_list (map (\<lambda>k. length k + 2) (filter preservedAnnotation (left_out m))) \<le> maxOmittedNamedBytes + 2"
    and "preservedAnnotation key" "key \<notin> set refusedAnnotations" "get m key \<noteq> None"
    and "get (FilterAnnotations m) key = None"
  shows "AnnotationWasOmitted (FilterAnnotations m) key"
proof -
  let ?P = "filter preservedAnnotation (left_out m)"
  obtain rest where split: "left_out m = ?P @ rest"
    using left_out_split [OF assms(1)] by blast
  have "key \<in> set (left_out m)"
    using assms by (simp add: FilterAnnotations_eq get_budgetAnnotations split: if_splits)
  with assms(5) have "key \<in> set ?P" by simp
  moreover have "length ?P \<le> named_count (left_out m)"
    using named_count_prefix [OF assms(4), of rest] split by simp
  then have "set ?P \<subseteq> set (take (named_count (left_out m)) (left_out m))"
    by (metis append_eq_conv_conj set_take_subset_set_take split)
  moreover have "plain_key key"
    using assms(3,7) by blast
  ultimately show ?thesis
    using AnnotationWasOmitted_iff [OF assms(1-3)] by blast
qed

subsection \<open>The contract of an owner's metadata\<close>

lemma budgetOwnerLabelsSorted_cases:
  obtains spent where "admit MaxOwnerLabelBytes labels (sort (map fst labels)) [] 0 =
    (snd (budgetOwnerLabelsSorted labels), fst (budgetOwnerLabelsSorted labels), spent)"
  by (cases "admit MaxOwnerLabelBytes labels (sort (map fst labels)) [] 0")
    (auto simp: budgetOwnerLabelsSorted_def)

lemma budgetOwnerLabelsSorted_spec:
  assumes "wf_map labels"
  shows "bytes (fst (budgetOwnerLabelsSorted labels)) \<le> MaxOwnerLabelBytes"
    and "get (fst (budgetOwnerLabelsSorted labels)) k =
      (if k \<in> set (snd (budgetOwnerLabelsSorted labels)) then None else get labels k)"
    and "wf_map (fst (budgetOwnerLabelsSorted labels))"
proof -
  obtain spent where adm: "admit MaxOwnerLabelBytes labels (sort (map fst labels)) [] 0 =
      (snd (budgetOwnerLabelsSorted labels), fst (budgetOwnerLabelsSorted labels), spent)"
    by (rule budgetOwnerLabelsSorted_cases)
  have "distinct (sort (map fst labels))" using assms by simp
  note bytes = admit_bytes [OF adm this] and look = admit_get [OF adm this, of k]
  show "bytes (fst (budgetOwnerLabelsSorted labels)) \<le> MaxOwnerLabelBytes"
    using bytes admit_cap [OF adm] by simp
  show "get (fst (budgetOwnerLabelsSorted labels)) k =
      (if k \<in> set (snd (budgetOwnerLabelsSorted labels)) then None else get labels k)"
  proof (cases "get labels k")
    case None
    then have "k \<notin> fst ` set labels" by (simp add: map_of_eq_None_iff)
    with None look show ?thesis by simp
  next
    case (Some v)
    then have "k \<in> fst ` set labels" by (metis map_of_eq_None_iff option.distinct(1))
    with Some look show ?thesis by (simp add: val_of_def)
  qed
  show "wf_map (fst (budgetOwnerLabelsSorted labels))"
    by (rule admit_wf [OF adm]) simp
qed

text \<open>An owner over the label budget has a label refused.\<close>
lemma budgetOwnerLabelsSorted_omits:
  assumes "wf_map labels" "bytes labels > MaxOwnerLabelBytes"
  shows "snd (budgetOwnerLabelsSorted labels) \<noteq> []"
proof
  assume "snd (budgetOwnerLabelsSorted labels) = []"
  then have "get (fst (budgetOwnerLabelsSorted labels)) = get labels"
    using budgetOwnerLabelsSorted_spec(2) [OF assms(1)] by auto
  then have "mset (fst (budgetOwnerLabelsSorted labels)) = mset labels"
    using assms(1) budgetOwnerLabelsSorted_spec(3) [OF assms(1)]
    by (metis distinct_map map_of_inject_set set_eq_iff_mset_eq_distinct)
  then have "bytes (fst (budgetOwnerLabelsSorted labels)) = bytes labels"
    by (rule bytes_perm)
  with budgetOwnerLabelsSorted_spec(1) [OF assms(1)] assms(2) show False by simp
qed

lemma budgetOwnerLabelsSorted_dom:
  assumes "wf_map labels" "k \<in> set (snd (budgetOwnerLabelsSorted labels))"
  shows "get labels k \<noteq> None"
  using budgetOwnerLabelsSorted_cases [of labels] subseq_set [OF admit_subseq] assms(2)
  by (metis (no_types, lifting) in_mono list.set_map map_of_eq_None_iff set_sort)

lemma FilterAnnotations_refused:
  assumes "wf_map m" "k \<in> set refusedAnnotations" "k \<noteq> OmittedAnnotation"
  shows "get (FilterAnnotations m) k = None"
  using assms by (simp add: FilterAnnotations_eq get_budgetAnnotations get_servable)

text \<open>
  An owner's labels are served verbatim within a fixed budget: what is served is part of the
  owner's labels and takes at most 16 KiB, an owner within the budget is served whole, and the
  omission note is there exactly when labels are missing.
\<close>
theorem CopyOwnerMeta_labels:
  assumes "wf_map labels" "wf_map annotations"
    and "CopyOwnerMeta labels annotations = (outLabels, outAnnotations)"
  shows "bytes outLabels \<le> MaxOwnerLabelBytes \<and>
    (\<forall>k v. get outLabels k = Some v \<longrightarrow> get labels k = Some v) \<and>
    (LabelsOmitted outAnnotations \<longleftrightarrow> (\<exists>k. get outLabels k \<noteq> get labels k)) \<and>
    (bytes labels \<le> MaxOwnerLabelBytes \<longrightarrow> outLabels = labels)"
proof (cases "bytes labels > MaxOwnerLabelBytes")
  case True
  let ?b = "budgetOwnerLabelsSorted labels"
  have out: "outLabels = fst ?b" "LabelsOmitted outAnnotations"
    using assms True budgetOwnerLabelsSorted_omits [OF assms(1) True]
    by (auto simp: CopyOwnerMeta_def budgetOwnerLabels_eq LabelsOmitted_def case_prod_beta)
  obtain k where k: "k \<in> set (snd ?b)"
    using budgetOwnerLabelsSorted_omits [OF assms(1) True] by (meson last_in_set)
  then have "get outLabels k \<noteq> get labels k"
    using budgetOwnerLabelsSorted_dom [OF assms(1) k] by (auto simp: out budgetOwnerLabelsSorted_spec(2) [OF assms(1)])
  with out True show ?thesis
    by (auto simp: budgetOwnerLabelsSorted_spec [OF assms(1)] split: if_splits)
next
  case False
  have "get (FilterAnnotations annotations) LabelsOmittedAnnotation = None"
    using FilterAnnotations_refused [OF assms(2)]
    by (simp add: refusedAnnotations_def LabelsOmittedAnnotation_def OmittedAnnotation_def)
  with False assms show ?thesis
    by (auto simp: CopyOwnerMeta_def budgetOwnerLabels_eq LabelsOmitted_def)
qed

subsection \<open>The informer's transform\<close>

lemma strip_loop_eq:
  "get (fst (strip_loop ks m b)) k = (if k \<in> set ks then None else get m k) \<and>
   (snd (strip_loop ks m b) \<longleftrightarrow> b \<or> (\<exists>k \<in> set ks. get m k \<noteq> None))"
  by (induction ks arbitrary: m b) (auto split: option.splits if_splits)

lemma strip_loop_wf: "wf_map m \<Longrightarrow> wf_map (fst (strip_loop ks m b))"
  by (induction ks arbitrary: m b) (auto split: option.splits)

lemma keys_where_servable: "keys_where P (servable m) = keys_where P m"
  unfolding keys_where_def servable_def filter_filter
  by (intro arg_cong [where f = sort] arg_cong [where f = "map fst"] filter_cong) auto

lemma budget_servable:
  assumes "wf_map m"
  shows "left_out (servable m) = left_out m" "let_in (servable m) = let_in m"
proof -
  have "admit c (servable m) (keys_where P m) out s = admit c m (keys_where P m) out s" for c P out s
    using assms by (intro admit_cong) (auto simp: val_of_def get_servable set_keys_where)
  then have "pass1 (servable m) = pass1 m" "pass2 (servable m) = pass2 m"
    by (simp_all add: pass1_def pass2_def keys_where_servable)
  then show "left_out (servable m) = left_out m" "let_in (servable m) = let_in m"
    by (simp_all add: left_out_def let_in_def keys_where_servable)
qed

text \<open>What is served is a function of the annotations that are not refused.\<close>
lemma FilterAnnotations_servable:
  assumes "wf_map m"
  shows "get (FilterAnnotations (servable m)) = get (FilterAnnotations m)"
proof -
  have "servable (servable m) = servable m" by (simp add: servable_def)
  then show ?thesis
    using assms by (simp add: FilterAnnotations_eq wf_servable over_ceiling_def budgetAnnotations_eq budget_servable)
qed

lemma strip_servable:
  assumes "wf_map m"
  shows "mset (servable (fst (StripDroppedAnnotations m))) = mset (servable m)"
proof -
  have wf: "wf_map (fst (StripDroppedAnnotations m))"
    using assms by (simp add: StripDroppedAnnotations_def strip_loop_wf)
  then have "get (servable (fst (StripDroppedAnnotations m))) = get (servable m)"
    using assms by (auto simp: fun_eq_iff get_servable StripDroppedAnnotations_def strip_loop_eq)
  then show ?thesis
    using assms wf by (metis distinct_map map_of_inject_set set_eq_iff_mset_eq_distinct wf_servable)
qed

text \<open>
  The informer's transform removes exactly the refused annotations and reports whether it
  removed one, and it changes nothing of what is served: filtering the stripped object and
  filtering the original give the same annotations.
\<close>
theorem StripDroppedAnnotations_serves:
  assumes "wf_map m" and "StripDroppedAnnotations m = (m', changed)"
  shows "(\<forall>k. get m' k = (if k \<in> set refusedAnnotations then None else get m k)) \<and>
    (changed \<longleftrightarrow> (\<exists>k \<in> set refusedAnnotations. get m k \<noteq> None)) \<and>
    get (FilterAnnotations m') = get (FilterAnnotations m)"
proof -
  have m': "m' = fst (StripDroppedAnnotations m)" "changed = snd (StripDroppedAnnotations m)"
    using assms(2) by simp_all
  have wf: "wf_map m'"
    using assms(1) by (simp add: m' StripDroppedAnnotations_def strip_loop_wf)
  have "get (FilterAnnotations m') = get (FilterAnnotations m)"
    using FilterAnnotations_order [OF wf_servable [OF wf], of "servable m"] strip_servable [OF assms(1)]
      FilterAnnotations_servable [OF wf] FilterAnnotations_servable [OF assms(1)] by (simp add: m')
  then show ?thesis
    by (auto simp: m' StripDroppedAnnotations_def strip_loop_eq)
qed

subsection \<open>Witnesses\<close>

text \<open>An object with one oversized value, and the same object visited in another order.\<close>
definition fat_object :: strmap where
  "fat_object = [(''blob'', replicate 9000 CHR ''x''), (''prometheus.io/scrape'', ''true''), (''team'', ''a'')]"

definition fat_object' :: strmap where
  "fat_object' = [(''team'', ''a''), (''blob'', replicate 9000 CHR ''x''), (''prometheus.io/scrape'', ''true'')]"

text \<open>A pod whose own log configuration is over the value ceiling.\<close>
definition fat_logs :: strmap where
  "fat_logs = [(''kubescrape.io/logs'', replicate 9000 CHR ''x''), (''a'', ''b'')]"

lemmas ceiling_defs = MaxAnnotationValueBytes_def MaxAnnotationBytes_def MaxOwnerLabelBytes_def
  maxOmittedNamedBytes_def

lemmas key_defs = refusedAnnotations_def OmittedAnnotation_def LabelsOmittedAnnotation_def
  preservedAnnotation_def preservedAnnotationPrefixes_def

lemma fat_over: "over_ceiling fat_object" "over_ceiling fat_logs"
  by (simp_all add: over_ceiling_def servable_def fat_object_def fat_logs_def key_defs ceiling_defs)

lemma fat_wf: "wf_map fat_object" "wf_map fat_logs" "mset fat_object = mset fat_object'"
  by (simp_all add: fat_object_def fat_logs_def fat_object'_def)

lemma fat_logs_left_out: "left_out fat_logs = [''kubescrape.io/logs'']"
  by (simp add: left_out_def keys_where_def pass1_def pass2_def fat_logs_def key_defs ceiling_defs val_of_def)

theorem FilterAnnotations_order_witness:
  "wf_map fat_object \<and> mset fat_object = mset fat_object' \<and> fat_object \<noteq> fat_object' \<and>
   get (FilterAnnotations fat_object) = get (FilterAnnotations fat_object')"
  using FilterAnnotations_order [OF fat_wf(1,3)] fat_wf(1,3)
  by (simp add: fat_object_def fat_object'_def)

theorem FilterAnnotations_verbatim_witness:
  "wf_map fat_object \<and> get (FilterAnnotations fat_object) ''team'' = Some ''a'' \<and>
   get fat_object ''team'' = Some ''a'' \<and> ''team'' \<notin> set refusedAnnotations"
proof -
  have "get (budgetAnnotations fat_object) ''team'' = Some ''a''"
    by (simp add: get_budgetAnnotations fat_wf left_out_def keys_where_def
        pass1_def pass2_def key_defs ceiling_defs val_of_def) (simp add: fat_object_def val_of_def)
  then have "get (FilterAnnotations fat_object) ''team'' = Some ''a''"
    by (simp add: FilterAnnotations_eq fat_wf fat_over)
  then show ?thesis
    using FilterAnnotations_verbatim [OF fat_wf(1), of "''team''" "''a''"] fat_wf(1)
    by (simp add: OmittedAnnotation_def)
qed

theorem FilterAnnotations_accounts_witness:
  "wf_map fat_logs \<and> over_ceiling fat_logs \<and>
   (\<exists>names named. names \<noteq> [] \<and> named \<le> length names \<and> ''kubescrape.io/logs'' \<in> set names \<and>
     set names = {k. k \<notin> set refusedAnnotations \<and> get fat_logs k \<noteq> None \<and> get (FilterAnnotations fat_logs) k = None})"
proof -
  have "get (FilterAnnotations fat_logs) ''kubescrape.io/logs'' = None"
    by (simp add: FilterAnnotations_eq fat_wf fat_over get_budgetAnnotations fat_logs_left_out OmittedAnnotation_def)
  moreover have "get fat_logs ''kubescrape.io/logs'' \<noteq> None" "''kubescrape.io/logs'' \<notin> set refusedAnnotations"
    by (simp add: fat_logs_def, simp add: key_defs)
  ultimately show ?thesis
    using FilterAnnotations_accounts [OF fat_wf(2) fat_over(2)] fat_wf(2) fat_over(2) by blast
qed
theorem FilterAnnotations_bytes_witness:
  "wf_map fat_object \<and> bytes fat_object > 9000 \<and> bytes (FilterAnnotations fat_object) \<le> 16384 + 512 + 186"
  using FilterAnnotations_bytes [OF fat_wf(1)] fat_wf(1)
  by (simp add: fat_object_def entry_bytes_def ceiling_defs Itoa.simps)

theorem FilterAnnotations_preserved_witness:
  "get fat_object ''prometheus.io/scrape'' = Some ''true'' \<and>
   get (FilterAnnotations fat_object) ''prometheus.io/scrape'' = Some ''true''"
  using FilterAnnotations_preserved [OF fat_wf(1), of "''prometheus.io/scrape''" "''true''"]
  by (simp add: fat_object_def entry_bytes_def key_defs ceiling_defs)

lemma fat_logs_plain: "\<forall>k \<in> dom (get fat_logs). plain_key k"
  by (auto simp: fat_logs_def plain_key_def split: if_splits)

theorem AnnotationWasOmitted_exact_witness:
  "over_ceiling fat_logs \<and> AnnotationWasOmitted (FilterAnnotations fat_logs) ''kubescrape.io/logs''"
  using AnnotationWasOmitted_exact [OF fat_wf(2) fat_over(2) fat_logs_plain, of "''kubescrape.io/logs''"] fat_over(2)
  by (simp add: fat_logs_left_out named_count_def ceiling_defs plain_key_def note_sep_def)

theorem AnnotationWasOmitted_preserved_witness:
  "get fat_logs ''kubescrape.io/logs'' \<noteq> None \<and>
   AnnotationWasOmitted (FilterAnnotations fat_logs) ''kubescrape.io/logs''"
proof -
  have "get (FilterAnnotations fat_logs) ''kubescrape.io/logs'' = None"
    by (simp add: FilterAnnotations_eq fat_wf fat_over get_budgetAnnotations fat_logs_left_out OmittedAnnotation_def)
  then show ?thesis
    using AnnotationWasOmitted_preserved [OF fat_wf(2) fat_over(2) fat_logs_plain, of "''kubescrape.io/logs''"]
    by (simp add: fat_logs_left_out key_defs ceiling_defs) (simp add: fat_logs_def)
qed

theorem CopyOwnerMeta_labels_witness:
  "fst (CopyOwnerMeta [(''app'', ''web'')] []) = [(''app'', ''web'')]"
  using CopyOwnerMeta_labels [of "[(''app'', ''web'')]" "[]"]
  by (cases "CopyOwnerMeta [(''app'', ''web'')] []") (simp add: entry_bytes_def ceiling_defs)


theorem StripDroppedAnnotations_serves_witness:
  "wf_map fat_object \<and> snd (StripDroppedAnnotations fat_object) = False \<and>
   get (FilterAnnotations (fst (StripDroppedAnnotations fat_object))) = get (FilterAnnotations fat_object)"
  using StripDroppedAnnotations_serves [OF fat_wf(1), of "fst (StripDroppedAnnotations fat_object)"
      "snd (StripDroppedAnnotations fat_object)"] fat_wf(1)
  by (simp add: key_defs) (simp add: fat_object_def)

end
