(* ===== verification/Kubeconvert.thy ===== *)
theory Kubeconvert
  imports Kubemeta Annotations
begin

section \<open>From the Kubernetes API to the served model (pkg/kubemeta/kubeconvert)\<close>

text \<open>
  The records at the start are the fields of the Kubernetes API types that the service reads; a
  pointer is an option. \<open>FromPod\<close> builds the served pod document and the index of container
  runtime IDs, previous incarnations included.
\<close>

record APIPort =
  apt_Name :: string
  apt_ContainerPort :: i32
  apt_Protocol :: string

record APIContainer =
  ac_Name :: string
  ac_Image :: string
  ac_Ports :: "APIPort list"

record StateTerminated =
  term_ExitCode :: i32
  term_StartedAt :: instant
  term_FinishedAt :: instant
  term_ContainerID :: string

record ContainerState =
  cs_Waiting :: "string option"  \<comment> \<open>the reason\<close>
  cs_Running :: "instant option" \<comment> \<open>the start\<close>
  cs_Terminated :: "StateTerminated option"

record ContainerStatus =
  st_Name :: string
  st_State :: ContainerState
  st_LastTerminationState :: ContainerState
  st_Ready :: bool
  st_RestartCount :: i32
  st_ImageID :: string
  st_ContainerID :: string

record PodCondition =
  cond_Type :: string
  cond_Status :: string

record OwnerReference =
  or_APIVersion :: string
  or_Kind :: string
  or_Name :: string
  or_UID :: uid
  or_Controller :: "bool option"
  or_BlockOwnerDeletion :: "bool option"

record APIPod =
  ap_Name :: string
  ap_Namespace :: string
  ap_UID :: uid
  ap_ResourceVersion :: string
  ap_Labels :: strmap
  ap_Annotations :: strmap
  ap_OwnerReferences :: "OwnerReference list"
  ap_CreationTimestamp :: instant
  ap_DeletionTimestamp :: "instant option"
  ap_NodeName :: string
  ap_HostNetwork :: bool
  ap_InitContainers :: "APIContainer list"
  ap_Containers :: "APIContainer list"
  ap_EphemeralContainers :: "APIContainer list"
  ap_Phase :: string
  ap_PodIP :: string
  ap_PodIPs :: "string list"
  ap_HostIP :: string
  ap_StartTime :: "instant option"
  ap_Conditions :: "PodCondition list"
  ap_InitContainerStatuses :: "ContainerStatus list"
  ap_ContainerStatuses :: "ContainerStatus list"
  ap_EphemeralContainerStatuses :: "ContainerStatus list"

subsection \<open>The conversion\<close>

definition podIPs :: "APIPod \<Rightarrow> string list" where
  "podIPs p =
     (if ap_PodIPs p = [] then (if ap_PodIP p = [] then [] else [ap_PodIP p])
      else filter (\<lambda>ip. ip \<noteq> []) (ap_PodIPs p))"

text \<open>\<^verbatim>\<open>IsZero\<close> leaves the pointer alone.\<close>
definition fillTerminated :: "Container \<Rightarrow> StateTerminated \<Rightarrow> Container" where
  "fillTerminated c t =
     (let c = c\<lparr>ctr_ExitCode := Some (term_ExitCode t)\<rparr>;
          c = (if term_StartedAt t \<noteq> 0 then c\<lparr>ctr_StartedAt := Some (term_StartedAt t)\<rparr> else c)
      in if term_FinishedAt t \<noteq> 0 then c\<lparr>ctr_FinishedAt := Some (term_FinishedAt t)\<rparr> else c)"

text \<open>
  The clones share no memory with their argument. Values here are immutable, so each of them is
  its argument rebuilt field by field.
\<close>
definition clonePorts :: "ContainerPort list \<Rightarrow> ContainerPort list" where
  "clonePorts ports = (if ports = [] then [] else [] @ ports)"

definition cloneTime :: "instant option \<Rightarrow> instant option" where
  "cloneTime t = (case t of None \<Rightarrow> None | Some v \<Rightarrow> Some v)"

definition cloneContainer :: "Container \<Rightarrow> Container" where
  "cloneContainer c =
     c\<lparr>ctr_Ports := clonePorts (ctr_Ports c),
       ctr_StartedAt := cloneTime (ctr_StartedAt c),
       ctr_FinishedAt := cloneTime (ctr_FinishedAt c),
       ctr_ExitCode := (case ctr_ExitCode c of None \<Rightarrow> None | Some code \<Rightarrow> Some code)\<rparr>"

definition convert_port :: "APIPort \<Rightarrow> ContainerPort" where
  "convert_port pt = \<lparr>cp_Name = apt_Name pt, cp_Port = apt_ContainerPort pt, cp_Protocol = apt_Protocol pt\<rparr>"

definition fill_state :: "Container \<Rightarrow> ContainerState \<Rightarrow> Container" where
  "fill_state c state =
     (case cs_Running state of
        Some t \<Rightarrow> c\<lparr>ctr_State := ''running'', ctr_StartedAt := Some t\<rparr>
      | None \<Rightarrow>
          (case cs_Terminated state of
             Some t \<Rightarrow> fillTerminated (c\<lparr>ctr_State := ''terminated''\<rparr>) t
           | None \<Rightarrow>
               (case cs_Waiting state of
                  Some reason \<Rightarrow> c\<lparr>ctr_State := ''waiting'', ctr_WaitingReason := reason\<rparr>
                | None \<Rightarrow> c)))"

definition convertContainer ::
  "string \<Rightarrow> string \<Rightarrow> APIPort list \<Rightarrow> string \<Rightarrow> ContainerStatus option \<Rightarrow> Container" where
  "convertContainer name img ports typ st0 =
     (let c = zero_Container\<lparr>ctr_Name := name, ctr_Type := typ, ctr_Image := img,
                             ctr_Ports := map convert_port ports\<rparr> in
      case st0 of
        None \<Rightarrow> c
      | Some st \<Rightarrow>
          fill_state
            (c\<lparr>ctr_RuntimeID := st_ContainerID st, ctr_ID := NormalizeContainerID (st_ContainerID st),
               ctr_ImageID := st_ImageID st, ctr_RestartCount := st_RestartCount st,
               ctr_Ready := st_Ready st\<rparr>)
            (st_State st))"

text \<open>\<^verbatim>\<open>max(st.RestartCount-1, 0)\<close> on \<^verbatim>\<open>int32\<close>, where the subtraction wraps.\<close>
definition prev_restarts :: "i32 \<Rightarrow> i32" where
  "prev_restarts n = (if sint (n - 1) < 0 then 0 else n - 1)"

definition previousIncarnation :: "Container \<Rightarrow> ContainerStatus option \<Rightarrow> Container option" where
  "previousIncarnation c st0 =
     (case st0 of
        None \<Rightarrow> None
      | Some st \<Rightarrow>
          (case cs_Terminated (st_LastTerminationState st) of
             None \<Rightarrow> None
           | Some trm \<Rightarrow>
               if term_ContainerID trm = [] then None
               else (let prevID = NormalizeContainerID (term_ContainerID trm) in
                 if prevID = ctr_ID c then None
                 else Some (fillTerminated
                   (zero_Container\<lparr>ctr_Name := ctr_Name c, ctr_Type := ctr_Type c,
                      ctr_Ports := clonePorts (ctr_Ports c), ctr_ID := prevID,
                      ctr_RuntimeID := term_ContainerID trm, ctr_State := ''terminated'',
                      ctr_RestartCount := prev_restarts (st_RestartCount st)\<rparr>)
                   trm))))"

text \<open>The \<^verbatim>\<open>collect\<close> closure: a later status of the same name replaces an earlier one.\<close>
definition collect :: "ContainerStatus list \<Rightarrow> (string, ContainerStatus) gomap \<Rightarrow> (string, ContainerStatus) gomap" where
  "collect sts m = fold (\<lambda>st. put (st_Name st) st) sts m"

definition statuses :: "APIPod \<Rightarrow> (string, ContainerStatus) gomap" where
  "statuses p =
     collect (ap_EphemeralContainerStatuses p)
       (collect (ap_ContainerStatuses p) (collect (ap_InitContainerStatuses p) []))"

type_synonym converted = "Container list \<times> (string, Container) gomap"

text \<open>The \<^verbatim>\<open>add\<close> closure: the container list and the index by runtime ID, both extended.\<close>
definition add_container :: "(string, ContainerStatus) gomap \<Rightarrow> string \<Rightarrow> APIContainer \<Rightarrow> converted \<Rightarrow> converted" where
  "add_container sts typ ac acc =
     (case acc of (cs, byID) \<Rightarrow>
       let st = get sts (ac_Name ac);
           c = convertContainer (ac_Name ac) (ac_Image ac) (ac_Ports ac) typ st;
           byID = (if ctr_ID c \<noteq> [] then put (ctr_ID c) (cloneContainer c) byID else byID);
           byID = (case previousIncarnation c st of
                     Some prev \<Rightarrow> put (ctr_ID prev) prev byID
                   | None \<Rightarrow> byID)
       in (cs @ [c], byID))"

definition convert_all :: "APIPod \<Rightarrow> converted" where
  "convert_all p =
     (let sts = statuses p in
      fold (add_container sts ''ephemeral'') (ap_EphemeralContainers p)
        (fold (add_container sts ''container'') (ap_Containers p)
          (fold (add_container sts ''init'') (ap_InitContainers p) ([], []))))"

text \<open>The first condition of type Ready decides.\<close>
definition pod_ready :: "PodCondition list \<Rightarrow> bool" where
  "pod_ready conds =
     (case find (\<lambda>c. cond_Type c = ''Ready'') conds of
        Some c \<Rightarrow> cond_Status c = ''True''
      | None \<Rightarrow> False)"

definition FromPod :: "APIPod \<Rightarrow> Pod \<times> (string, Container) gomap" where
  "FromPod p =
     (let (labels, annotations) = CopyMeta (ap_Labels p) (ap_Annotations p);
          (cs, byID) = convert_all p
      in (zero_Pod
            \<lparr>pod_Name := ap_Name p, pod_Namespace := ap_Namespace p, pod_UID := ap_UID p,
             pod_NodeName := ap_NodeName p, pod_PodIP := ap_PodIP p, pod_PodIPs := podIPs p,
             pod_HostIP := ap_HostIP p, pod_HostNetwork := ap_HostNetwork p, pod_Phase := ap_Phase p,
             pod_Labels := labels, pod_Annotations := annotations,
             pod_CreatedAt := ap_CreationTimestamp p, pod_StartedAt := ap_StartTime p,
             pod_DeletionTimestamp := ap_DeletionTimestamp p,
             pod_Ready := pod_ready (ap_Conditions p), pod_Containers := cs\<rparr>,
          byID))"

subsection \<open>What the conversion keeps\<close>

lemma FromPod_fields [simp]:
  "pod_UID (fst (FromPod p)) = ap_UID p"
  "pod_Name (fst (FromPod p)) = ap_Name p"
  "pod_Namespace (fst (FromPod p)) = ap_Namespace p"
  "pod_NodeName (fst (FromPod p)) = ap_NodeName p"
  "pod_PodIPs (fst (FromPod p)) = podIPs p"
  "pod_DeletedAt (fst (FromPod p)) = None"
  "pod_DeletionTimestamp (fst (FromPod p)) = ap_DeletionTimestamp p"
  "pod_Containers (fst (FromPod p)) = fst (convert_all p)"
  "snd (FromPod p) = snd (convert_all p)"
  by (simp_all add: FromPod_def zero_Pod_def case_prod_beta)

lemma fillTerminated_fields [simp]:
  "ctr_ID (fillTerminated c t) = ctr_ID c"
  "ctr_Name (fillTerminated c t) = ctr_Name c"
  "ctr_Type (fillTerminated c t) = ctr_Type c"
  "ctr_Ports (fillTerminated c t) = ctr_Ports c"
  "ctr_State (fillTerminated c t) = ctr_State c"
  "ctr_Image (fillTerminated c t) = ctr_Image c"
  "ctr_ImageID (fillTerminated c t) = ctr_ImageID c"
  "ctr_RestartCount (fillTerminated c t) = ctr_RestartCount c"
  "ctr_ExitCode (fillTerminated c t) = Some (term_ExitCode t)"
  by (simp_all add: fillTerminated_def Let_def)

lemma clonePorts_id [simp]: "clonePorts ports = ports"
  by (simp add: clonePorts_def)

lemma cloneContainer_id [simp]: "cloneContainer c = c"
  by (simp add: cloneContainer_def cloneTime_def split: option.splits)

lemma fill_state_fields [simp]:
  "ctr_ID (fill_state c s) = ctr_ID c"
  "ctr_Name (fill_state c s) = ctr_Name c"
  "ctr_Type (fill_state c s) = ctr_Type c"
  "ctr_Ports (fill_state c s) = ctr_Ports c"
  "ctr_Image (fill_state c s) = ctr_Image c"
  by (simp_all add: fill_state_def split: option.splits)

lemma convertContainer_fields [simp]:
  "ctr_Name (convertContainer n i ps t st) = n"
  "ctr_Type (convertContainer n i ps t st) = t"
  "ctr_Image (convertContainer n i ps t st) = i"
  "ctr_Ports (convertContainer n i ps t st) = map convert_port ps"
  "ctr_ID (convertContainer n i ps t st) =
     (case st of None \<Rightarrow> [] | Some s \<Rightarrow> NormalizeContainerID (st_ContainerID s))"
  by (simp_all add: convertContainer_def zero_Container_def Let_def split: option.splits)

text \<open>The restart count of the run before: one less, never negative.\<close>
lemma sint_prev_restarts: "0 \<le> sint n \<Longrightarrow> sint (prev_restarts n) = max 0 (sint n - 1)"
proof -
  assume n: "0 \<le> sint n"
  have "sint n - 1 < 2 ^ 31" "- (2 ^ 31) \<le> sint n - 1"
    using n sint_lt [of n] by simp_all
  then have "sint (n - 1) = sint n - 1"
    by (simp add: sint_word_ariths(2) signed_take_bit_int_eq_self)
  with n show ?thesis by (simp add: prev_restarts_def)
qed

lemma previousIncarnation_spec:
  assumes "previousIncarnation c (Some st) = Some prev"
  shows "ctr_ID prev \<noteq> ctr_ID c \<and> ctr_State prev = ''terminated'' \<and> ctr_Name prev = ctr_Name c \<and>
    ctr_Type prev = ctr_Type c \<and> ctr_Ports prev = ctr_Ports c \<and> ctr_Image prev = [] \<and> ctr_ImageID prev = [] \<and>
    ctr_RestartCount prev = prev_restarts (st_RestartCount st) \<and>
    (\<exists>trm. cs_Terminated (st_LastTerminationState st) = Some trm \<and> term_ContainerID trm \<noteq> [] \<and>
       ctr_ID prev = NormalizeContainerID (term_ContainerID trm) \<and>
       ctr_ExitCode prev = Some (term_ExitCode trm))"
  using assms by (auto simp: previousIncarnation_def zero_Container_def Let_def split: option.splits if_splits)

subsection \<open>The index of runtime IDs\<close>

definition specs :: "APIPod \<Rightarrow> (string \<times> APIContainer) list" where
  "specs p = map (Pair ''init'') (ap_InitContainers p) @ map (Pair ''container'') (ap_Containers p) @
     map (Pair ''ephemeral'') (ap_EphemeralContainers p)"

definition current :: "APIPod \<Rightarrow> string \<times> APIContainer \<Rightarrow> Container" where
  "current p s = (case s of (typ, ac) \<Rightarrow>
     convertContainer (ac_Name ac) (ac_Image ac) (ac_Ports ac) typ (get (statuses p) (ac_Name ac)))"

definition former :: "APIPod \<Rightarrow> string \<times> APIContainer \<Rightarrow> Container option" where
  "former p s = previousIncarnation (current p s) (get (statuses p) (ac_Name (snd s)))"

text \<open>What one declared container contributes to the index, the later entry first.\<close>
definition entries :: "APIPod \<Rightarrow> string \<times> APIContainer \<Rightarrow> (string \<times> Container) list" where
  "entries p s =
     (case former p s of Some c \<Rightarrow> [(ctr_ID c, c)] | None \<Rightarrow> []) @
     (if ctr_ID (current p s) \<noteq> [] then [(ctr_ID (current p s), current p s)] else [])"

lemma convert_all_fold:
  "convert_all p = fold (\<lambda>(typ, ac). add_container (statuses p) typ ac) (specs p) ([], [])"
  by (simp add: convert_all_def specs_def fold_append fold_map comp_def Let_def)

lemma add_container_eq:
  "add_container (statuses p) typ ac (cs, byID) =
     (cs @ [current p (typ, ac)], fold (\<lambda>(k, v). put k v) (rev (entries p (typ, ac))) byID)"
  by (auto simp: add_container_def current_def former_def entries_def Let_def split: option.splits)

lemma add_fold_eq:
  "fold (\<lambda>(typ, ac). add_container (statuses p) typ ac) ss (cs, byID) =
     (cs @ map (current p) ss, fold (\<lambda>(k, v). put k v) (concat (map (\<lambda>s. rev (entries p s)) ss)) byID)"
  by (induction ss arbitrary: cs byID) (auto simp: add_container_eq)

lemma convert_all_eq:
  "fst (convert_all p) = map (current p) (specs p)"
  "get (snd (convert_all p)) = map_of (concat (map (entries p) (rev (specs p))))"
proof -
  have "rev (concat (map (\<lambda>s. rev (entries p s)) ss)) = concat (map (entries p) (rev ss))" for ss
    by (induction ss) auto
  then show "get (snd (convert_all p)) = map_of (concat (map (entries p) (rev (specs p))))"
    by (simp add: convert_all_fold add_fold_eq fun_eq_iff alist.look_fold_ins split: option.splits)
qed (simp add: convert_all_fold add_fold_eq)

lemma entries_key: "(k, c) \<in> set (entries p s) \<Longrightarrow> ctr_ID c = k"
  by (auto simp: entries_def split: option.splits if_splits)

text \<open>
  Container runtime IDs are unique: no two containers of a pod have one in common, in their
  current or their previous incarnation.
\<close>
definition unique_ids :: "APIPod \<Rightarrow> bool" where
  "unique_ids p \<longleftrightarrow> distinct (map fst (concat (map (entries p) (rev (specs p)))))"

lemma entries_own_distinct: "distinct (map fst (entries p s))"
  by (auto simp: entries_def former_def previousIncarnation_def Let_def fillTerminated_fields zero_Container_def
      split: option.splits if_splits)

text \<open>
  The index of runtime IDs agrees with the pod document: the container list is the spec's,
  in order; every container with an ID is found under that ID in its current state, also when
  its last termination carries the same ID; and what else is found is a terminated previous
  incarnation with the ID it is found under.
\<close>
theorem FromPod_index:
  assumes "unique_ids p" and "FromPod p = (pod, byID)"
  shows "map ctr_Name (pod_Containers pod) = map (\<lambda>s. ac_Name (snd s)) (specs p) \<and>
    (\<forall>c \<in> set (pod_Containers pod). ctr_ID c \<noteq> [] \<longrightarrow> get byID (ctr_ID c) = Some c) \<and>
    (\<forall>k c. get byID k = Some c \<longrightarrow> ctr_ID c = k \<and> (c \<in> set (pod_Containers pod) \<or> ctr_State c = ''terminated''))"
proof -
  let ?E = "concat (map (entries p) (rev (specs p)))"
  have pod: "pod_Containers pod = map (current p) (specs p)" and byID: "get byID = map_of ?E"
    using assms(2) FromPod_fields [of p] by (simp_all add: convert_all_eq)
  have "get byID (ctr_ID (current p s)) = Some (current p s)"
    if "s \<in> set (specs p)" "ctr_ID (current p s) \<noteq> []" for s
  proof -
    have "(ctr_ID (current p s), current p s) \<in> set ?E"
      using that by (force simp: entries_def)
    then show ?thesis using assms(1) by (simp add: byID unique_ids_def)
  qed
  moreover have "ctr_ID c = k \<and> (c \<in> set (pod_Containers pod) \<or> ctr_State c = ''terminated'')"
    if "get byID k = Some c" for k c
  proof -
    from that obtain s where s: "s \<in> set (specs p)" "(k, c) \<in> set (entries p s)"
      using map_of_SomeD [of ?E k c] by (auto simp: byID)
    moreover have "ctr_State d = ''terminated''" if "former p s = Some d" for d
      using that previousIncarnation_spec by (cases "get (statuses p) (ac_Name (snd s))")
        (auto simp: former_def previousIncarnation_def)
    ultimately show ?thesis
      using entries_key [OF s(2)] by (auto simp: pod entries_def split: option.splits if_splits)
  qed
  ultimately show ?thesis
    by (auto simp: pod current_def split: prod.splits)
qed

text \<open>
  A restarted container stays resolvable by the ID of its previous run, as history: under
  that ID is a terminated container with the exit code of that run, the declared name, type and
  ports, no image, and a restart count one below the current one (never negative).
\<close>
theorem FromPod_previous:
  assumes "unique_ids p" and "(typ, ac) \<in> set (specs p)"
    and "get (statuses p) (ac_Name ac) = Some st"
    and "cs_Terminated (st_LastTerminationState st) = Some trm" and "term_ContainerID trm \<noteq> []"
    and "NormalizeContainerID (term_ContainerID trm) \<noteq> NormalizeContainerID (st_ContainerID st)"
    and "0 \<le> sint (st_RestartCount st)"
  shows "\<exists>c. get (snd (FromPod p)) (NormalizeContainerID (term_ContainerID trm)) = Some c \<and>
    ctr_State c = ''terminated'' \<and> ctr_ExitCode c = Some (term_ExitCode trm) \<and>
    ctr_Name c = ac_Name ac \<and> ctr_Type c = typ \<and> ctr_Ports c = map convert_port (ac_Ports ac) \<and>
    ctr_Image c = [] \<and> sint (ctr_RestartCount c) = max 0 (sint (st_RestartCount st) - 1)"
proof -
  have cur: "ctr_ID (current p (typ, ac)) = NormalizeContainerID (st_ContainerID st)"
    by (simp add: current_def assms(3))
  with assms obtain c where c: "former p (typ, ac) = Some c"
    by (auto simp: former_def previousIncarnation_def Let_def)
  then have prev: "previousIncarnation (current p (typ, ac)) (Some st) = Some c"
    by (simp add: former_def assms(3))
  note spec = previousIncarnation_spec [OF prev]
  have "(ctr_ID c, c) \<in> set (concat (map (entries p) (rev (specs p))))"
    using assms(2) c by (force simp: entries_def)
  then have "get (snd (FromPod p)) (ctr_ID c) = Some c"
    using assms(1) by (simp add: convert_all_eq unique_ids_def)
  with spec show ?thesis
    using assms(4,7) by (auto simp: current_def sint_prev_restarts)
qed

subsection \<open>Witnesses\<close>

text \<open>A pod whose one container has restarted.\<close>
definition restarted_status :: ContainerStatus where
  "restarted_status =
     \<lparr>st_Name = ''web'',
      st_State = \<lparr>cs_Waiting = None, cs_Running = Some 5, cs_Terminated = None\<rparr>,
      st_LastTerminationState = \<lparr>cs_Waiting = None, cs_Running = None,
        cs_Terminated = Some \<lparr>term_ExitCode = 137, term_StartedAt = 1, term_FinishedAt = 4,
          term_ContainerID = ''cri://old''\<rparr>\<rparr>,
      st_Ready = True, st_RestartCount = 1, st_ImageID = ''sha'', st_ContainerID = ''cri://new''\<rparr>"

definition restarted_pod :: APIPod where
  "restarted_pod =
     \<lparr>ap_Name = ''web-0'', ap_Namespace = ''ns'', ap_UID = ''u1'', ap_ResourceVersion = ''7'',
      ap_Labels = [], ap_Annotations = [], ap_OwnerReferences = [], ap_CreationTimestamp = 1,
      ap_DeletionTimestamp = None, ap_NodeName = ''node-a'', ap_HostNetwork = False,
      ap_InitContainers = [],
      ap_Containers = [\<lparr>ac_Name = ''web'', ac_Image = ''web:2'', ac_Ports = []\<rparr>],
      ap_EphemeralContainers = [], ap_Phase = ''Running'', ap_PodIP = ''10.0.0.1'',
      ap_PodIPs = [''10.0.0.1''], ap_HostIP = ''192.168.0.1'', ap_StartTime = Some 1,
      ap_Conditions = [\<lparr>cond_Type = ''Ready'', cond_Status = ''True''\<rparr>],
      ap_InitContainerStatuses = [], ap_ContainerStatuses = [restarted_status],
      ap_EphemeralContainerStatuses = []\<rparr>"

lemma restarted_ids: "NormalizeContainerID ''cri://old'' = ''old''" "NormalizeContainerID ''cri://new'' = ''new''"
  by code_simp+

lemma restarted_statuses: "get (statuses restarted_pod) ''web'' = Some restarted_status"
  by (simp add: statuses_def collect_def restarted_pod_def) (simp add: restarted_status_def)

lemma restarted_unique: "unique_ids restarted_pod"
proof -
  have "specs restarted_pod = [(''container'', \<lparr>ac_Name = ''web'', ac_Image = ''web:2'', ac_Ports = []\<rparr>)]"
    by (simp add: specs_def restarted_pod_def)
  then show ?thesis by (simp add: unique_ids_def entries_own_distinct)
qed

theorem FromPod_index_witness:
  "unique_ids restarted_pod \<and>
   get (snd (FromPod restarted_pod)) ''new'' = Some (hd (pod_Containers (fst (FromPod restarted_pod))))"
proof -
  have c: "pod_Containers (fst (FromPod restarted_pod)) =
      [convertContainer ''web'' ''web:2'' [] ''container'' (Some restarted_status)]"
    by (simp add: convert_all_eq specs_def current_def restarted_pod_def)
      (simp add: restarted_statuses [unfolded restarted_pod_def])
  have "ctr_ID (hd (pod_Containers (fst (FromPod restarted_pod)))) = ''new''"
    by (simp only: c) (simp add: restarted_status_def restarted_ids)
  with c show ?thesis
    using FromPod_index [OF restarted_unique prod.collapse [symmetric]] restarted_unique by (auto simp del: FromPod_fields)
qed

theorem FromPod_previous_witness:
  "\<exists>c. get (snd (FromPod restarted_pod)) ''old'' = Some c \<and> ctr_State c = ''terminated'' \<and>
     ctr_ExitCode c = Some 137 \<and> ctr_Image c = [] \<and> sint (ctr_RestartCount c) = 0"
  using FromPod_previous [OF restarted_unique, of "''container''"
      "\<lparr>ac_Name = ''web'', ac_Image = ''web:2'', ac_Ports = []\<rparr>" restarted_status "the (cs_Terminated (st_LastTerminationState restarted_status))"] restarted_statuses
  by (auto simp: restarted_ids specs_def restarted_pod_def restarted_status_def)

end
