(* ===== verification/PeerIP.thy ===== *)
theory PeerIP
  imports Prelude
begin

section \<open>Clipped strings and canonical addresses (internal/clip, internal/peerip)\<close>

text \<open>
  The rune-boundary cut of \<^verbatim>\<open>internal/clip\<close>, and the address normalisation of
  \<^verbatim>\<open>internal/peerip\<close> that the pod-IP index is keyed by. The parts of Go's \<^verbatim>\<open>net/netip\<close> and
  \<^verbatim>\<open>net\<close> packages the code calls (\<^verbatim>\<open>ParseAddr\<close>, \<^verbatim>\<open>Unmap\<close>, \<^verbatim>\<open>AppendTo\<close>, \<^verbatim>\<open>SplitHostPort\<close>) are
  modelled first.
\<close>

subsection \<open>Clipping\<close>

text \<open>\<^verbatim>\<open>utf8.RuneStart\<close>: every byte that is not a continuation byte.\<close>
definition RuneStart :: "char \<Rightarrow> bool" where
  "RuneStart c \<longleftrightarrow> \<not> (0x80 \<le> (of_char c :: nat) \<and> (of_char c :: nat) < 0xC0)"

text \<open>The loop \<^verbatim>\<open>for n > 0 && !utf8.RuneStart(s[n]) { n-- }\<close>.\<close>
fun back_off :: "string \<Rightarrow> nat \<Rightarrow> nat" where
  "back_off s 0 = 0"
| "back_off s (Suc n) = (if RuneStart (s ! Suc n) then Suc n else back_off s n)"

definition Runes :: "string \<Rightarrow> int \<Rightarrow> string" where
  "Runes s n =
     (if n \<le> 0 then []
      else if int (length s) \<le> n then s
      else take (back_off s (nat n)) s)"

definition Marked :: "string \<Rightarrow> int \<Rightarrow> string \<Rightarrow> string" where
  "Marked s n mark = (if int (length s) \<le> n then s else Runes s n @ mark)"

text \<open>The ellipsis U+2026 in UTF-8.\<close>
definition Ellipsis :: "string \<Rightarrow> int \<Rightarrow> string" where
  "Ellipsis s n = Marked s n [CHR 0xE2, CHR 0x80, CHR 0xA6]"

subsection \<open>Go's netip and net\<close>

text \<open>An address without a zone: four bytes, or eight 16-bit groups.\<close>
datatype addr = V4 "nat list" | V6 "nat list"

definition is_digit :: "char \<Rightarrow> bool" where
  "is_digit c \<longleftrightarrow> 48 \<le> (of_char c :: nat) \<and> (of_char c :: nat) \<le> 57"

definition dec_val :: "string \<Rightarrow> nat" where
  "dec_val s = foldl (\<lambda>n c. 10 * n + (of_char c - 48)) 0 s"

text \<open>One decimal field: digits without a leading zero, at most 255.\<close>
definition parse_octet :: "string \<Rightarrow> nat option" where
  "parse_octet s =
     (if s \<noteq> [] \<and> list_all is_digit s \<and> (hd s = CHR ''0'' \<longrightarrow> length s = 1) \<and> dec_val s \<le> 255
      then Some (dec_val s) else None)"

definition parse_v4 :: "string \<Rightarrow> (nat \<times> nat \<times> nat \<times> nat) option" where
  "parse_v4 s =
     (case map parse_octet (Split ''.'' s) of
        [Some a, Some b, Some c, Some d] \<Rightarrow> Some (a, b, c, d)
      | _ \<Rightarrow> None)"

definition hex_digit :: "char \<Rightarrow> nat option" where
  "hex_digit c =
     (let n = of_char c in
      if 48 \<le> n \<and> n \<le> 57 then Some (n - 48)
      else if 97 \<le> n \<and> n \<le> 102 then Some (n - 87)
      else if 65 \<le> n \<and> n \<le> 70 then Some (n - 55)
      else None)"

definition hex_val :: "string \<Rightarrow> nat" where
  "hex_val s = foldl (\<lambda>n c. 16 * n + the (hex_digit c)) 0 s"

text \<open>
  The loop of \<^verbatim>\<open>parseIPv6\<close>: the groups read so far, the number of groups in front of the
  ellipsis if there was one, and the text that is left. Running out of room at eight groups
  leaves the rest of the text for the caller to refuse.
\<close>
function v6_loop :: "nat list \<Rightarrow> nat option \<Rightarrow> string \<Rightarrow> (nat list \<times> nat option \<times> string) option" where
  "v6_loop gs ell s =
     (if 8 \<le> length gs then Some (gs, ell, s)
      else (let h = takeWhile (\<lambda>c. hex_digit c \<noteq> None) s;
                r = drop (length h) s;
                gs' = gs @ [hex_val h] in
        if h = [] \<or> 4 < length h then None
        else if r = [] then Some (gs', ell, [])
        else if hd r = CHR ''.'' then
          (if ell = None \<and> length gs \<noteq> 6 \<or> 6 < length gs then None
           else (case parse_v4 s of
                   None \<Rightarrow> None
                 | Some (a, b, c, d) \<Rightarrow> Some (gs @ [256 * a + b, 256 * c + d], ell, [])))
        else if hd r \<noteq> CHR '':'' \<or> tl r = [] then None
        else if hd (tl r) \<noteq> CHR '':'' then v6_loop gs' ell (tl r)
        else if ell \<noteq> None then None
        else if tl (tl r) = [] then Some (gs', Some (length gs'), [])
        else v6_loop gs' (Some (length gs')) (tl (tl r))))"
  by pat_completeness auto
termination
  by (relation "measure (\<lambda>(gs, ell, s). 8 - length gs)") (auto simp: Let_def)

declare v6_loop.simps [simp del]

definition parse_v6 :: "string \<Rightarrow> addr option" where
  "parse_v6 s =
     (let lead = prefix ''::'' s; t = (if lead then drop 2 s else s) in
      if lead \<and> t = [] then Some (V6 (replicate 8 0))
      else (case v6_loop [] (if lead then Some 0 else None) t of
              None \<Rightarrow> None
            | Some (gs, ell, rest) \<Rightarrow>
                if rest \<noteq> [] then None
                else if length gs < 8 then
                  (case ell of
                     None \<Rightarrow> None
                   | Some k \<Rightarrow> Some (V6 (take k gs @ replicate (8 - length gs) 0 @ drop k gs)))
                else if ell \<noteq> None then None
                else Some (V6 gs)))"

text \<open>
  \<^verbatim>\<open>netip.ParseAddr\<close> on a text without a \<^verbatim>\<open>%\<close> (the caller has cut the zone off): the first dot or
  colon decides the family.
\<close>
definition ParseAddr :: "string \<Rightarrow> addr option" where
  "ParseAddr s =
     (case find (\<lambda>c. c = CHR ''.'' \<or> c = CHR '':'') s of
        None \<Rightarrow> None
      | Some c \<Rightarrow>
          if c = CHR ''.'' then map_option (\<lambda>(a, b, c, d). V4 [a, b, c, d]) (parse_v4 s)
          else parse_v6 s)"

text \<open>\<^verbatim>\<open>Unmap\<close>: an IPv4-mapped IPv6 address as the IPv4 address.\<close>
fun Unmap :: "addr \<Rightarrow> addr" where
  "Unmap (V6 [0, 0, 0, 0, 0, f, g, h]) =
     (if f = 65535 then V4 [g div 256, g mod 256, h div 256, h mod 256]
      else V6 [0, 0, 0, 0, 0, f, g, h])"
| "Unmap a = a"

fun to_hex :: "nat \<Rightarrow> string" where
  "to_hex n =
     (let d = (\<lambda>k. char_of (if k < 10 then 48 + k else 87 + k)) in
      if n < 16 then [d n] else to_hex (n div 16) @ [d (n mod 16)])"

declare to_hex.simps [simp del]

definition zero_run :: "nat list \<Rightarrow> nat" where
  "zero_run gs = length (takeWhile (\<lambda>g. g = 0) gs)"

text \<open>The first longest run of at least two zero groups: its start and its length (0 for none).\<close>
fun best_run :: "nat list \<Rightarrow> nat list \<Rightarrow> nat \<times> nat \<Rightarrow> nat \<times> nat" where
  "best_run gs [] best = best"
| "best_run gs (i # is) (start, len) =
     (let l = zero_run (drop i gs) in
      best_run gs is (if 2 \<le> l \<and> len < l then (i, l) else (start, len)))"

definition render_v6 :: "nat list \<Rightarrow> string" where
  "render_v6 gs =
     (case best_run gs [0..<8] (255, 0) of
        (start, len) \<Rightarrow>
          if len = 0 then join '':'' (map to_hex gs)
          else join '':'' (map to_hex (take start gs)) @ ''::'' @
               join '':'' (map to_hex (drop (start + len) gs)))"

text \<open>\<^verbatim>\<open>AppendTo\<close> for an address that is not IPv4-mapped.\<close>
fun render :: "addr \<Rightarrow> string" where
  "render (V4 bs) = join ''.'' (map Itoa bs)"
| "render (V6 gs) = render_v6 gs"

text \<open>\<^verbatim>\<open>net.SplitHostPort\<close>: the host, or nothing where the call returns an error.\<close>
definition SplitHostPort :: "string \<Rightarrow> string option" where
  "SplitHostPort s =
     (if CHR '':'' \<notin> set s then None
      else (let port = after_last CHR '':'' s;
                hostpart = take (length s - length port - 1) s in
        if hd s = CHR ''['' then
          (if CHR '']'' \<notin> set s then None
           else (let host = takeWhile (\<lambda>c. c \<noteq> CHR '']'') (tl s);
                     rest = drop (length host + 2) s in
             if rest \<noteq> CHR '':'' # port \<or> CHR ''['' \<in> set (tl s) \<or> CHR '']'' \<in> set rest then None
             else Some host))
        else if CHR '':'' \<in> set hostpart \<or> CHR ''['' \<in> set s \<or> CHR '']'' \<in> set s then None
        else Some hostpart))"

subsection \<open>The canonical form\<close>

definition canonical :: "string \<Rightarrow> string option" where
  "canonical host0 =
     (let host = takeWhile (\<lambda>c. c \<noteq> CHR ''%'') host0 in
      if host = [] then None
      else map_option (\<lambda>a. render (Unmap a)) (ParseAddr host))"

definition Canonical :: "string \<Rightarrow> string" where
  "Canonical ip = (case canonical ip of Some c \<Rightarrow> c | None \<Rightarrow> ip)"

definition From :: "string \<Rightarrow> string" where
  "From remoteAddr =
     (let host = (case SplitHostPort remoteAddr of Some h \<Rightarrow> h | None \<Rightarrow> remoteAddr) in
      case canonical host of Some ip \<Rightarrow> ip | None \<Rightarrow> [])"

definition maxLogPeerBytes :: int where
  "maxLogPeerBytes = 96"

definition ForLog :: "string \<Rightarrow> string" where
  "ForLog remoteAddr =
     (let ip = From remoteAddr in
      if ip \<noteq> [] then ip else Ellipsis remoteAddr maxLogPeerBytes)"

definition forwardingHeaders :: "string list" where
  "forwardingHeaders = [''Forwarded'', ''Via'', ''X-Forwarded-For'', ''X-Real-Ip'']"

definition ForwardingHeaders :: "string list" where
  "ForwardingHeaders = forwardingHeaders"

text \<open>A header map carries a list of values per name; only the presence of the name counts.\<close>
definition ForwardingHeader :: "(string, string list) gomap \<Rightarrow> string" where
  "ForwardingHeader h =
     (case find (\<lambda>name. get h name \<noteq> None) forwardingHeaders of Some name \<Rightarrow> name | None \<Rightarrow> [])"

subsection \<open>Clipping keeps a prefix that ends on a rune boundary\<close>

lemma back_off_le: "back_off s n \<le> n"
  by (induction n) auto

lemma back_off_start: "back_off s n = 0 \<or> RuneStart (s ! back_off s n)"
  by (induction n) auto

lemma back_off_greatest: "back_off s n < m \<Longrightarrow> m \<le> n \<Longrightarrow> \<not> RuneStart (s ! m)"
  by (induction n) (auto simp: le_Suc_eq split: if_splits)

text \<open>
  A clipped string is a prefix of the original within the bound; it is the original where that fits,
  and otherwise ends where a rune of the original starts, at the last such place within the bound.
\<close>
theorem Runes_boundary:
  assumes "0 < n"
  shows "prefix (Runes s n) s \<and> int (length (Runes s n)) \<le> n \<and>
    (int (length s) \<le> n \<longrightarrow> Runes s n = s) \<and>
    (n < int (length s) \<longrightarrow>
       (Runes s n = [] \<or> RuneStart (s ! length (Runes s n))) \<and>
       (\<forall>m. length (Runes s n) < m \<and> int m \<le> n \<longrightarrow> \<not> RuneStart (s ! m)))"
proof (cases "int (length s) \<le> n")
  case True
  with assms show ?thesis by (simp add: Runes_def)
next
  case False
  let ?k = "back_off s (nat n)"
  have k: "?k \<le> nat n" "nat n < length s" using back_off_le False assms by auto
  have "Runes s n = take ?k s" using False assms by (simp add: Runes_def)
  moreover have "length (take ?k s) = ?k" using k by simp
  ultimately show ?thesis
    using k back_off_start [of s "nat n"] back_off_greatest [of s "nat n"] assms False
    by (auto simp: take_is_prefix)
qed

theorem Runes_boundary_witness:
  "(0::int) < 2 \<and> Runes [CHR ''a'', CHR 0xC3, CHR 0xA9, CHR ''b''] 2 = ''a'' \<and>
   RuneStart ([CHR ''a'', CHR 0xC3, CHR 0xA9, CHR ''b''] ! 1)"
  using Runes_boundary [of 2 "[CHR ''a'', CHR 0xC3, CHR 0xA9, CHR ''b'']"]
  by (simp add: Runes_def RuneStart_def numeral_2_eq_2)

subsection \<open>Numbers in addresses\<close>

lemma dec_val_snoc: "dec_val (s @ [c]) = 10 * dec_val s + (of_char c - 48)"
  by (simp add: dec_val_def)

lemma of_char_small: "n < 256 \<Longrightarrow> (of_char (char_of n :: char) :: nat) = n"
  by simp

lemma dec_val_Itoa [simp]: "dec_val (Itoa n) = n"
proof (induction n rule: Itoa.induct)
  case (1 n)
  show ?case
  proof (cases "n < 10")
    case True
    then show ?thesis by (simp add: Itoa.simps [of n] dec_val_def)
  next
    case False
    then have "dec_val (Itoa n) = 10 * (n div 10) + n mod 10"
      using "1.IH" by (simp add: Itoa.simps [of n] dec_val_snoc)
    then show ?thesis by simp
  qed
qed

lemma Itoa_nonempty [simp]: "Itoa n \<noteq> []"
  by (simp add: Itoa.simps [of n])

lemma Itoa_hd: "0 < n \<Longrightarrow> hd (Itoa n) \<noteq> CHR ''0''"
proof (induction n rule: Itoa.induct)
  case (1 n)
  show ?case
  proof (cases "n < 10")
    case True
    have "char_of (48 + n) \<noteq> CHR ''0''"
    proof
      assume "char_of (48 + n) = CHR ''0''"
      from arg_cong [OF this, of "of_char :: char \<Rightarrow> nat"] True "1.prems" show False by simp
    qed
    then show ?thesis using True by (simp add: Itoa.simps [of n])
  next
    case False
    then have "0 < n div 10" by simp
    with "1.IH" False show ?thesis by (simp add: Itoa.simps [of n])
  qed
qed

lemma parse_octet_Itoa [simp]: "n \<le> 255 \<Longrightarrow> parse_octet (Itoa n) = Some n"
proof -
  assume n: "n \<le> 255"
  have "list_all is_digit (Itoa n)" using Itoa_digits [of _ n] by (auto simp: list_all_iff is_digit_def)
  moreover have "length (Itoa n) = 1" if "hd (Itoa n) = CHR ''0''"
    using that Itoa_hd [of n] by (cases "n = 0") (auto simp: Itoa.simps [of 0])
  ultimately show ?thesis using n by (auto simp: parse_octet_def)
qed

lemma parse_octet_bound: "parse_octet s = Some n \<Longrightarrow> n \<le> 255"
  by (auto simp: parse_octet_def split: if_splits)

lemma digit_chars: "of_char c \<in> {48..57::nat} \<Longrightarrow> c \<noteq> CHR ''.'' \<and> c \<noteq> CHR '':'' \<and> c \<noteq> CHR ''%''"
  by auto

lemma join_chars: "c \<in> set (join sep xs) \<Longrightarrow> c \<in> set sep \<or> (\<exists>x \<in> set xs. c \<in> set x)"
  by (cases xs) (auto simp: join_Cons split: if_splits)

lemma dotted_chars: "c \<in> set (join ''.'' (map Itoa bs)) \<Longrightarrow> c = CHR ''.'' \<or> of_char c \<in> {48..57::nat}"
  by (drule join_chars) (auto dest: Itoa_digits)

subsubsection \<open>IPv4\<close>

lemma parse_v4_render:
  assumes "a \<le> 255" "b \<le> 255" "c \<le> 255" "d \<le> 255"
  shows "parse_v4 (render (V4 [a, b, c, d])) = Some (a, b, c, d)"
proof -
  have "Split ''.'' (join ''.'' (map Itoa [a, b, c, d])) = map Itoa [a, b, c, d]"
    using Itoa_digits by (intro Split_join) force+
  with assms show ?thesis by (simp add: parse_v4_def del: join.simps)
qed

lemma parse_v4_bounds: "parse_v4 s = Some (a, b, c, d) \<Longrightarrow> a \<le> 255 \<and> b \<le> 255 \<and> c \<le> 255 \<and> d \<le> 255"
  by (auto simp: parse_v4_def dest!: sym [of "parse_octet _"] parse_octet_bound split: list.splits option.splits)

lemma ParseAddr_v4:
  assumes "a \<le> 255" "b \<le> 255" "c \<le> 255" "d \<le> 255"
  shows "ParseAddr (render (V4 [a, b, c, d])) = Some (V4 [a, b, c, d])"
proof -
  let ?s = "render (V4 [a, b, c, d])"
  have "find (\<lambda>x. x = CHR ''.'' \<or> x = CHR '':'') (Itoa a @ CHR ''.'' # t) = Some CHR ''.''" for t
  proof -
    have "find (\<lambda>x. x = CHR ''.'' \<or> x = CHR '':'') (xs @ CHR ''.'' # t) = Some CHR ''.''"
      if "\<forall>x \<in> set xs. of_char x \<in> {48..57::nat}" for xs
      using that by (induction xs) auto
    with Itoa_digits show ?thesis by blast
  qed
  then have "find (\<lambda>x. x = CHR ''.'' \<or> x = CHR '':'') ?s = Some CHR ''.''" by simp
  with parse_v4_render [OF assms] show ?thesis by (simp add: ParseAddr_def del: render.simps)
qed

subsubsection \<open>Hexadecimal groups\<close>

lemma hex_digit_char: "k < 10 \<Longrightarrow> hex_digit (char_of (48 + k)) = Some k"
  "\<not> k < 10 \<Longrightarrow> k < 16 \<Longrightarrow> hex_digit (char_of (87 + k)) = Some k"
  by (auto simp: hex_digit_def Let_def)

lemma hex_val_snoc: "hex_val (s @ [c]) = 16 * hex_val s + the (hex_digit c)"
  by (simp add: hex_val_def)

lemma to_hex_step: "to_hex n = (if n < 16 then [] else to_hex (n div 16)) @ [char_of (if n mod 16 < 10 then 48 + n mod 16 else 87 + n mod 16)]"
  by (subst to_hex.simps) (simp add: Let_def)

lemma hex_val_to_hex [simp]: "hex_val (to_hex n) = n"
proof (induction n rule: less_induct)
  case (less n)
  show ?case
  proof (cases "n < 16")
    case True
    then show ?thesis by (simp only: to_hex_step [of n]) (simp add: hex_val_def hex_digit_char)
  next
    case False
    then have "hex_val (to_hex (n div 16)) = n div 16" by (intro less.IH) simp
    with False show ?thesis
      by (simp only: to_hex_step [of n] hex_val_snoc) (simp add: hex_digit_char)
  qed
qed

lemma to_hex_digits: "c \<in> set (to_hex n) \<Longrightarrow> hex_digit c \<noteq> None"
proof (induction n rule: less_induct)
  case (less n)
  have "c \<in> set (to_hex (n div 16)) \<and> \<not> n < 16 \<or> c = char_of (if n mod 16 < 10 then 48 + n mod 16 else 87 + n mod 16)"
    using less.prems by (subst (asm) to_hex_step) (auto split: if_splits)
  then show ?case
    using less.IH [of "n div 16"] by (auto simp: hex_digit_char split: if_splits)
qed

lemma to_hex_nonempty [simp]: "to_hex n \<noteq> []"
  by (subst to_hex_step) simp

lemma to_hex_length: "n < 16 ^ d \<Longrightarrow> 0 < d \<Longrightarrow> length (to_hex n) \<le> d"
proof (induction d arbitrary: n)
  case (Suc d)
  show ?case
  proof (cases "n < 16")
    case True
    then show ?thesis by (subst to_hex_step) simp
  next
    case False
    with Suc.prems have "n div 16 < 16 ^ d" "0 < d"
      by (auto simp: less_mult_imp_div_less mult.commute intro: ccontr)
    with Suc.IH False show ?thesis by (subst to_hex_step) simp
  qed
qed simp

lemma hex_digit_bound: "hex_digit c = Some k \<Longrightarrow> k < 16"
  by (auto simp: hex_digit_def Let_def split: if_splits)

lemma hex_val_bound: "\<forall>c \<in> set s. hex_digit c \<noteq> None \<Longrightarrow> hex_val s < 16 ^ length s"
proof (induction s rule: rev_induct)
  case (snoc c s)
  then obtain k where "hex_digit c = Some k" "k < 16" using hex_digit_bound by fastforce
  moreover have "hex_val s < 16 ^ length s" using snoc by simp
  ultimately show ?case by (simp add: hex_val_snoc)
qed (simp add: hex_val_def)

lemma hex_separators: "hex_digit CHR '':'' = None" "hex_digit CHR ''.'' = None" "hex_digit CHR ''%'' = None"
  by (simp_all add: hex_digit_def)

subsubsection \<open>IPv6\<close>

lemma hex_group:
  assumes "g < 65536" "r = [] \<or> hex_digit (hd r) = None"
  shows "takeWhile (\<lambda>c. hex_digit c \<noteq> None) (to_hex g @ r) = to_hex g" "length (to_hex g) \<le> 4"
  using to_hex_digits [of _ g] assms to_hex_length [of g 4] by (cases r; auto simp: takeWhile_append2)+

lemma hex_head: "hd (to_hex g @ r) \<noteq> CHR '':''" "hd (to_hex g @ r) \<noteq> CHR ''.''"
proof -
  have h: "hex_digit (hd (to_hex g @ r)) \<noteq> None" using to_hex_digits [of "hd (to_hex g)" g] by (simp add: hd_append)
  show "hd (to_hex g @ r) \<noteq> CHR '':''" "hd (to_hex g @ r) \<noteq> CHR ''.''" using h hex_separators by metis+
qed

lemma join_hex_head: "gs \<noteq> [] \<Longrightarrow> join '':'' (map to_hex gs) @ r \<noteq> [] \<and> hd (join '':'' (map to_hex gs) @ r) \<noteq> CHR '':''"
  by (cases gs) (simp_all add: join_Cons hex_head del: hd_append2)

lemma join_hex_lead: "gs \<noteq> [] \<Longrightarrow> \<not> prefix ''::'' (join '':'' (map to_hex gs) @ r)"
  using join_hex_head [of gs r] by (cases "join '':'' (map to_hex gs) @ r") auto

text \<open>One round of the loop on a group that no dotted quad follows.\<close>
lemma v6_loop_round:
  assumes "length gs < 8" "g < 65536" "r = [] \<or> hd r = CHR '':''"
  shows "v6_loop gs ell (to_hex g @ r) =
    (if r = [] then Some (gs @ [g], ell, [])
     else if tl r = [] then None
     else if hd (tl r) \<noteq> CHR '':'' then v6_loop (gs @ [g]) ell (tl r)
     else if ell \<noteq> None then None
     else if tl (tl r) = [] then Some (gs @ [g], Some (length gs + 1), [])
     else v6_loop (gs @ [g]) (Some (length gs + 1)) (tl (tl r)))"
proof -
  have "r = [] \<or> hex_digit (hd r) = None" using assms(3) hex_separators(1) by auto
  note h = hex_group [OF assms(2) this]
  have d: "drop (length (to_hex g)) (to_hex g @ r) = r" by simp
  have n: "\<not> 8 \<le> length gs" "\<not> (to_hex g = [] \<or> 4 < length (to_hex g))" "length (gs @ [g]) = length gs + 1"
    "r \<noteq> [] \<Longrightarrow> hd r \<noteq> CHR ''.''" using assms(1,3) h(2) by auto
  show ?thesis
    unfolding v6_loop.simps [of gs ell "to_hex g @ r"] Let_def h(1) d hex_val_to_hex n(3)
    using n(1,2,4) assms(3) by (cases "r = []") (simp_all del: not_None_eq to_hex_nonempty)
qed

lemma v6_loop_last: "length gs < 8 \<Longrightarrow> g < 65536 \<Longrightarrow> v6_loop gs ell (to_hex g) = Some (gs @ [g], ell, [])"
  using v6_loop_round [of gs g "[]" ell] by simp

lemma v6_loop_next: "length gs < 8 \<Longrightarrow> g < 65536 \<Longrightarrow> t \<noteq> [] \<Longrightarrow> hd t \<noteq> CHR '':'' \<Longrightarrow>
    v6_loop gs ell (to_hex g @ CHR '':'' # t) = v6_loop (gs @ [g]) ell t"
  using v6_loop_round [of gs g "CHR '':'' # t" ell] by simp

lemma v6_loop_gap: "length gs < 8 \<Longrightarrow> g < 65536 \<Longrightarrow> v6_loop gs None (to_hex g @ ''::'' @ t) =
    (if t = [] then Some (gs @ [g], Some (length gs + 1), []) else v6_loop (gs @ [g]) (Some (length gs + 1)) t)"
  using v6_loop_round [of gs g "''::'' @ t" None] by simp

lemma v6_loop_groups:
  "hs \<noteq> [] \<Longrightarrow> length gs + length hs \<le> 8 \<Longrightarrow> \<forall>h \<in> set hs. h < 65536 \<Longrightarrow>
     v6_loop gs ell (join '':'' (map to_hex hs)) = Some (gs @ hs, ell, [])"
proof (induction hs arbitrary: gs)
  case (Cons h hs)
  show ?case
  proof (cases hs)
    case Nil
    with Cons.prems show ?thesis by (simp add: v6_loop_last)
  next
    case (Cons h' hs')
    then have "v6_loop gs ell (join '':'' (map to_hex (h # hs))) = v6_loop (gs @ [h]) ell (join '':'' (map to_hex hs))"
      using v6_loop_next [of gs h "join '':'' (map to_hex hs)" ell] join_hex_head [of hs "[]"] Cons.prems by simp
    with Cons.IH [of "gs @ [h]"] Cons.prems Cons show ?thesis by simp
  qed
qed simp

lemma v6_loop_front:
  "hs \<noteq> [] \<Longrightarrow> length gs + length hs < 8 \<Longrightarrow> \<forall>h \<in> set hs. h < 65536 \<Longrightarrow>
     v6_loop gs None (join '':'' (map to_hex hs) @ ''::'' @ t) =
       (if t = [] then Some (gs @ hs, Some (length (gs @ hs)), [])
        else v6_loop (gs @ hs) (Some (length (gs @ hs))) t)"
proof (induction hs arbitrary: gs)
  case (Cons h hs)
  show ?case
  proof (cases hs)
    case Nil
    with Cons.prems show ?thesis using v6_loop_gap [of gs h t] by simp
  next
    case (Cons h' hs')
    then have "v6_loop gs None (join '':'' (map to_hex (h # hs)) @ ''::'' @ t) =
        v6_loop (gs @ [h]) None (join '':'' (map to_hex hs) @ ''::'' @ t)"
      using v6_loop_next [of gs h "join '':'' (map to_hex hs) @ ''::'' @ t" None] join_hex_head [of hs "''::'' @ t"] Cons.prems
      by simp
    with Cons.IH [of "gs @ [h]"] Cons.prems Cons show ?thesis by simp
  qed
qed simp

text \<open>A run that the printer elides.\<close>
definition zero_span :: "nat list \<Rightarrow> nat \<times> nat \<Rightarrow> bool" where
  "zero_span gs b \<longleftrightarrow> snd b = 0 \<or>
     2 \<le> snd b \<and> gs = take (fst b) gs @ replicate (snd b) 0 @ drop (fst b + snd b) gs \<and> fst b + snd b \<le> length gs"

lemma zero_run_span: "i \<le> length gs \<Longrightarrow> 2 \<le> zero_run (drop i gs) \<Longrightarrow> zero_span gs (i, zero_run (drop i gs))"
proof -
  assume i: "i \<le> length gs" "2 \<le> zero_run (drop i gs)"
  let ?l = "zero_run (drop i gs)"
  have "takeWhile (\<lambda>g. g = 0) (drop i gs) = replicate ?l 0"
    unfolding zero_run_def by (rule replicate_length_same [symmetric]) (auto dest: set_takeWhileD)
  moreover have "takeWhile (\<lambda>g. g = 0) (drop i gs) = take ?l (drop i gs)"
    unfolding zero_run_def by (rule takeWhile_eq_take)
  ultimately have "drop i gs = replicate ?l 0 @ drop ?l (drop i gs)" by (metis append_take_drop_id)
  then have "drop i gs = replicate ?l 0 @ drop (i + ?l) gs" by (simp add: add.commute)
  then have "gs = take i gs @ replicate ?l 0 @ drop (i + ?l) gs" by (metis append_take_drop_id)
  moreover have "?l \<le> length (drop i gs)" unfolding zero_run_def by (rule length_takeWhile_le)
  ultimately show ?thesis using i by (simp add: zero_span_def)
qed

lemma best_run_span: "zero_span gs b \<Longrightarrow> \<forall>i \<in> set is. i \<le> length gs \<Longrightarrow> zero_span gs (best_run gs is b)"
  by (induction gs "is" b rule: best_run.induct) (auto simp: Let_def zero_run_span)

lemma parse_v6_render:
  assumes "length gs = 8" "\<forall>g \<in> set gs. g < 65536"
  shows "parse_v6 (render_v6 gs) = Some (V6 gs)"
proof -
  obtain i l where b: "best_run gs [0..<8] (255, 0) = (i, l)" by fastforce
  have span: "zero_span gs (i, l)"
    using best_run_span [of gs "(255, 0)" "[0..<8]"] assms(1) by (simp only: b) (simp add: zero_span_def)
  let ?j = "\<lambda>hs. join '':'' (map to_hex hs)"
  have ne: "gs \<noteq> []" using assms(1) by auto
  show ?thesis
  proof (cases "l = 0")
    case True
    have "\<not> prefix ''::'' (?j gs)" using join_hex_lead [OF ne, of "[]"] by simp
    then show ?thesis
      using ne v6_loop_groups [of gs "[]" None] assms by (auto simp: render_v6_def b True parse_v6_def)
  next
    case False
    with span have s: "2 \<le> l" "gs = take i gs @ replicate l 0 @ drop (i + l) gs" "i + l \<le> 8"
      using assms(1) by (auto simp: zero_span_def)
    let ?t = "?j (drop (i + l) gs)"
    have t: "?t = [] \<longleftrightarrow> i + l = 8" using join_hex_head [of "drop (i + l) gs" "[]"] assms(1) s(3) by auto
    have r: "render_v6 gs = ?j (take i gs) @ ''::'' @ ?t" using False by (simp add: render_v6_def b)
    have tail: "v6_loop (take i gs) (Some i) ?t = Some (take i gs @ drop (i + l) gs, Some i, [])" if "i + l \<noteq> 8"
      using that assms s(1,3) by (intro v6_loop_groups) (auto dest: in_set_dropD)
    have whole: "take i (take i gs @ drop (i + l) gs) @ replicate l 0 @ drop i (take i gs @ drop (i + l) gs) = gs"
      using s assms(1) by simp
    have len: "length (take i gs @ drop (i + l) gs) = 8 - l" using assms(1) s(3) by simp
    show ?thesis
    proof (cases "i = 0")
      case True
      then show ?thesis
        using r tail t whole len s(1,3) by (auto simp: parse_v6_def Let_def)
    next
      case pos: False
      have low: "\<forall>g \<in> set (take i gs). g < 65536" using assms(2) by (auto dest: in_set_takeD)
      have "\<not> prefix ''::'' (render_v6 gs)"
        unfolding r by (rule join_hex_lead) (use pos assms(1) in auto)
      moreover have "v6_loop [] None (render_v6 gs) = Some (take i gs @ drop (i + l) gs, Some i, [])"
        unfolding r using v6_loop_front [of "take i gs" "[]" ?t] tail t pos ne low assms(1) s(1,3) by auto
      moreover have "8 - (i + (8 - (i + l))) = l" using s(3) by simp
      ultimately show ?thesis using whole len assms(1) s(1,3) by (auto simp: parse_v6_def)
    qed
  qed
qed

subsection \<open>Canonical addresses\<close>

definition wf_addr :: "addr \<Rightarrow> bool" where
  "wf_addr a \<longleftrightarrow> (case a of
       V4 bs \<Rightarrow> length bs = 4 \<and> (\<forall>b \<in> set bs. b \<le> 255)
     | V6 gs \<Rightarrow> length gs = 8 \<and> (\<forall>g \<in> set gs. g < 65536))"

lemma four_list: "length xs = 4 \<Longrightarrow> \<exists>a b c d. xs = [a, b, c, d]"
  by (auto simp: length_Suc_conv numeral_eq_Suc)

lemma eight_list: "length xs = 8 \<Longrightarrow> \<exists>a b c d e f g h. xs = [a, b, c, d, e, f, g, h]"
  by (auto simp: length_Suc_conv numeral_eq_Suc)

lemma find_first: "\<forall>x \<in> set xs. \<not> P x \<Longrightarrow> P y \<Longrightarrow> find P (xs @ y # ys) = Some y"
  by (induction xs) auto

lemma render_v6_find:
  assumes "length gs = 8"
  shows "find (\<lambda>x. x = CHR ''.'' \<or> x = CHR '':'') (render_v6 gs) = Some CHR '':''"
proof -
  have plain: "\<forall>x \<in> set (to_hex g). \<not> (x = CHR ''.'' \<or> x = CHR '':'')" for g
    using to_hex_digits [of _ g] hex_separators by metis
  have seps: "find (\<lambda>x. x = CHR ''.'' \<or> x = CHR '':'') (join '':'' (map to_hex hs) @ t) = Some CHR '':''"
    if "hs \<noteq> []" "t = [] \<and> 2 \<le> length hs \<or> (\<exists>t'. t = CHR '':'' # t')" for hs t
  proof (cases hs)
    case (Cons h hs')
    then have "\<exists>t'. join '':'' (map to_hex hs) @ t = to_hex h @ CHR '':'' # t'"
      using that by (cases hs') (auto simp: join_Cons)
    then obtain t' where "join '':'' (map to_hex hs) @ t = to_hex h @ CHR '':'' # t'" by blast
    then show ?thesis using find_first [OF plain, of "CHR '':''"] by simp
  qed (use that in simp)
  obtain i l where b: "best_run gs [0..<8] (255, 0) = (i, l)" by fastforce
  show ?thesis
  proof (cases "l = 0")
    case True
    have "gs \<noteq> []" using assms by auto
    then show ?thesis using True seps [of gs "[]"] assms by (auto simp: render_v6_def b)
  next
    case False
    then show ?thesis
      using seps [of "take i gs" "''::'' @ join '':'' (map to_hex (drop (i + l) gs))"]
      by (cases "take i gs = []") (auto simp: render_v6_def b)
  qed
qed

text \<open>What the printer writes, the parser reads back.\<close>
lemma ParseAddr_render:
  assumes "wf_addr a"
  shows "ParseAddr (render a) = Some a"
proof (cases a)
  case (V4 bs)
  with assms four_list [of bs] obtain w x y z where "bs = [w, x, y, z]" "w \<le> 255" "x \<le> 255" "y \<le> 255" "z \<le> 255"
    by (auto simp: wf_addr_def)
  with V4 ParseAddr_v4 show ?thesis by blast
next
  case (V6 gs)
  with assms have "length gs = 8" "\<forall>g \<in> set gs. g < 65536" by (simp_all add: wf_addr_def)
  with V6 render_v6_find [of gs] parse_v6_render [of gs] show ?thesis by (simp add: ParseAddr_def)
qed

lemma render_no_zone:
  assumes "wf_addr a"
  shows "CHR ''%'' \<notin> set (render a)" "render a \<noteq> []"
proof -
  have hex: "CHR ''%'' \<notin> set (join '':'' (map to_hex hs))" for hs
  proof
    assume "CHR ''%'' \<in> set (join '':'' (map to_hex hs))"
    from join_chars [OF this] obtain h where "CHR ''%'' \<in> set (to_hex h)" by auto
    then show False using to_hex_digits hex_separators(3) by blast
  qed
  show "CHR ''%'' \<notin> set (render a)"
  proof (cases a)
    case (V4 bs)
    then show ?thesis using dotted_chars [of "CHR ''%''" bs] by auto
  next
    case (V6 gs)
    then show ?thesis using hex by (auto simp: render_v6_def split: prod.splits)
  qed
  have "ParseAddr [] = None" by (simp add: ParseAddr_def)
  then show "render a \<noteq> []" using ParseAddr_render [OF assms] by auto
qed

lemma v6_loop_wf:
  "v6_loop gs ell s = Some (gs', ell', r) \<Longrightarrow> length gs \<le> 8 \<Longrightarrow> \<forall>g \<in> set gs. g < 65536 \<Longrightarrow>
     length gs' \<le> 8 \<and> (\<forall>g \<in> set gs'. g < 65536)"
proof (induction "8 - length gs" arbitrary: gs ell s rule: less_induct)
  case less
  define h where "h = takeWhile (\<lambda>c. hex_digit c \<noteq> None) s"
  have "hex_val h < 65536" if "length h \<le> 4"
  proof -
    have "hex_val h < 16 ^ length h" by (rule hex_val_bound) (auto simp: h_def dest: set_takeWhileD)
    also have "\<dots> \<le> 16 ^ 4" using that by (intro power_increasing) auto
    finally show ?thesis by simp
  qed
  then have new: "\<forall>g \<in> set (gs @ [hex_val h]). g < 65536" if "length h \<le> 4" using that less.prems(3) by auto
  have quad: "256 * a + b < 65536 \<and> 256 * c + d < 65536" if "parse_v4 s = Some (a, b, c, d)" for a b c d
    using parse_v4_bounds [OF that] by auto
  show ?case
  proof (cases "8 \<le> length gs")
    case True
    with less.prems show ?thesis by (subst (asm) v6_loop.simps) auto
  next
    case False
    have IH: "length gs' \<le> 8 \<and> (\<forall>g \<in> set gs'. g < 65536)"
      if "v6_loop (gs @ [hex_val h]) e t = Some (gs', ell', r)" "length h \<le> 4" for e t
      using less.hyps [OF _ that(1) _ new [OF that(2)]] False by simp
    from less.prems(1) [unfolded v6_loop.simps [of gs] Let_def, folded h_def] False less.prems(3)
    show ?thesis
      using IH new quad by (auto simp: not_less split: if_splits option.splits)
  qed
qed

lemma parse_v6_wf: "parse_v6 s = Some a \<Longrightarrow> wf_addr a"
  using v6_loop_wf [of "[]"]
  by (fastforce simp: parse_v6_def wf_addr_def Let_def dest: in_set_takeD in_set_dropD split: if_splits option.splits prod.splits)

lemma ParseAddr_wf: "ParseAddr s = Some a \<Longrightarrow> wf_addr a"
  using parse_v4_bounds [of s] parse_v6_wf [of s a]
  by (auto simp: ParseAddr_def wf_addr_def split: option.splits if_splits)

lemma Unmap_wf: "wf_addr a \<Longrightarrow> wf_addr (Unmap a)"
  by (cases a rule: Unmap.cases) (auto simp: wf_addr_def)

lemma Unmap_idem [simp]: "Unmap (Unmap a) = Unmap a"
  by (cases a rule: Unmap.cases) auto

lemma takeWhile_absent: "c \<notin> set xs \<Longrightarrow> takeWhile (\<lambda>x. x \<noteq> c) (xs @ c # ys) = xs" "c \<notin> set xs \<Longrightarrow> takeWhile (\<lambda>x. x \<noteq> c) xs = xs"
  by (induction xs) auto

lemma canonical_Some: "canonical h = Some c \<Longrightarrow> \<exists>a. wf_addr a \<and> Unmap a = a \<and> c = render a"
proof -
  assume "canonical h = Some c"
  then obtain a where "ParseAddr (takeWhile (\<lambda>c. c \<noteq> CHR ''%'') h) = Some a" "c = render (Unmap a)"
    by (auto simp: canonical_def Let_def split: if_splits)
  then show ?thesis using ParseAddr_wf Unmap_wf Unmap_idem by blast
qed

lemma canonical_render: "wf_addr a \<Longrightarrow> Unmap a = a \<Longrightarrow> canonical (render a) = Some (render a)"
  using render_no_zone [of a] ParseAddr_render [of a]
  by (simp add: canonical_def takeWhile_absent)

lemma canonical_zone: "wf_addr a \<Longrightarrow> Unmap a = a \<Longrightarrow> canonical (render a @ CHR ''%'' # zone) = Some (render a)"
  using render_no_zone [of a] ParseAddr_render [of a]
  by (simp add: canonical_def takeWhile_absent)

lemma canonical_fix: "canonical h = Some c \<Longrightarrow> canonical c = Some c"
  using canonical_Some canonical_render by blast

text \<open>
  The canonical form is canonical: normalising an address twice is normalising it once, so
  that an index keyed with \<^verbatim>\<open>Canonical\<close> and a lookup that went through it meet.
\<close>
theorem Canonical_idem: "Canonical (Canonical ip) = Canonical ip"
  by (cases "canonical ip") (auto simp: Canonical_def dest: canonical_fix)

lemma render_inj: "wf_addr a \<Longrightarrow> wf_addr b \<Longrightarrow> render a = render b \<Longrightarrow> a = b"
  using ParseAddr_render by (metis option.inject)

text \<open>
  What a text denotes, read off it without its zone: an address, an IPv4-mapped IPv6 address being the
  IPv4 address, or nothing when the text is no address.
\<close>
definition denoted :: "string \<Rightarrow> addr option" where
  "denoted text = map_option Unmap (ParseAddr (takeWhile (\<lambda>c. c \<noteq> CHR ''%'') text))"

lemma canonical_denoted: "canonical x = map_option render (denoted x)"
proof -
  have "ParseAddr [] = None" by (simp add: ParseAddr_def)
  then show ?thesis by (cases "takeWhile (\<lambda>c. c \<noteq> CHR ''%'') x = []") (simp_all add: canonical_def denoted_def Let_def option.map_comp comp_def)
qed

lemma denoted_wf:
  assumes "denoted x = Some a"
  shows "wf_addr a" "Unmap a = a"
proof -
  from assms obtain b where "ParseAddr (takeWhile (\<lambda>c. c \<noteq> CHR ''%'') x) = Some b" "a = Unmap b" by (auto simp: denoted_def)
  with ParseAddr_wf Unmap_wf show "wf_addr a" "Unmap a = a" by auto
qed

lemma denoted_render: "wf_addr a \<Longrightarrow> Unmap a = a \<Longrightarrow> denoted (render a) = Some a"
  using render_no_zone [of a] ParseAddr_render [of a] by (simp add: denoted_def takeWhile_absent)

text \<open>
  C38. Two texts have the same canonical form exactly when they denote the same address, up to the zone
  and to IPv4-mapping; a text that denotes no address shares its form with no other text.
\<close>
theorem Canonical_same_address:
  "Canonical x = Canonical y \<longleftrightarrow> (if denoted x = None then x = y else denoted x = denoted y)"
proof -
  have "Canonical z = (case denoted z of None \<Rightarrow> z | Some a \<Rightarrow> render a)" for z
    by (simp add: Canonical_def canonical_denoted split: option.splits)
  moreover have "z \<noteq> render a" if "denoted z = None" "denoted y' = Some a" for z y' a
    using that denoted_render [OF denoted_wf [OF that(2)]] by auto
  moreover have "a = b" if "denoted x = Some a" "denoted y = Some b" "render a = render b" for a b
    by (rule render_inj [OF denoted_wf(1) [OF that(1)] denoted_wf(1) [OF that(2)] that(3)])
  ultimately show ?thesis by (cases "denoted x"; cases "denoted y") auto
qed
lemma after_last_append: "c \<notin> set b \<Longrightarrow> after_last c (a @ c # b) = b"
  by (simp add: after_last_def takeWhile_absent)

lemma render_plain:
  assumes "wf_addr a"
  shows "CHR ''['' \<notin> set (render a)" "CHR '']'' \<notin> set (render a)"
proof -
  have "c \<noteq> CHR ''['' \<and> c \<noteq> CHR '']''" if "c \<in> set (render a)" for c
  proof -
    have "c = CHR ''.'' \<or> c = CHR '':'' \<or> hex_digit c \<noteq> None"
    proof (cases a)
      case (V4 bs)
      with that dotted_chars [of c bs] show ?thesis by (auto simp: hex_digit_def)
    next
      case (V6 gs)
      have "c \<in> set (join '':'' (map to_hex hs)) \<Longrightarrow> c = CHR '':'' \<or> hex_digit c \<noteq> None" for hs
        using join_chars [of c "'':''" "map to_hex hs"] to_hex_digits by auto
      then show ?thesis using that V6 by (auto simp: render_v6_def split: prod.splits if_splits)
    qed
    moreover have "hex_digit CHR ''['' = None" "hex_digit CHR '']'' = None" by (simp_all add: hex_digit_def)
    ultimately show ?thesis by auto
  qed
  then show "CHR ''['' \<notin> set (render a)" "CHR '']'' \<notin> set (render a)" by blast+
qed

lemma SplitHostPort_colons:
  assumes "2 \<le> count_list s CHR '':''" "hd s \<noteq> CHR ''[''"
  shows "SplitHostPort s = None"
proof -
  let ?p = "after_last CHR '':'' s" and ?h = "take (length s - length (after_last CHR '':'' s) - 1) s"
  have in_s: "CHR '':'' \<in> set s" by (rule ccontr) (use assms(1) in simp)
  obtain x where s: "s = x @ ?p" using after_last_suffix [of "CHR '':''" s] by (auto simp: suffix_def)
  have none: "CHR '':'' \<notin> set ?p" by (rule after_last_notin)
  have "count_list s CHR '':'' = count_list x CHR '':''" using arg_cong [OF s, of "\<lambda>s. count_list s CHR '':''"] none by simp
  then have two: "2 \<le> count_list x CHR '':''" using assms(1) by simp
  have "CHR '':'' \<in> set (butlast x)"
  proof (cases x rule: rev_cases)
    case (snoc ys y)
    show ?thesis by (rule ccontr) (use two snoc in \<open>simp split: if_splits\<close>)
  qed (use two in simp)
  moreover have "?h = butlast x"
  proof -
    have "length s = length x + length ?p" using arg_cong [OF s, of length] by simp
    then have "?h = take (length x - 1) s" by simp
    also have "\<dots> = butlast x" using arg_cong [OF s, of "take (length x - 1)"] by (simp add: butlast_conv_take)
    finally show ?thesis .
  qed
  ultimately show ?thesis using in_s assms(2) by (simp add: SplitHostPort_def Let_def)
qed

lemma render_v6_colons:
  assumes "length gs = 8"
  shows "2 \<le> count_list (render_v6 gs) CHR '':''"
proof -
  have "length hs - 1 \<le> count_list (join '':'' (map to_hex hs)) CHR '':''" for hs
    by (induction hs rule: induct_list012) auto
  from this [of gs] show ?thesis using assms by (auto simp: render_v6_def split: prod.splits)
qed

text \<open>
  The peer address of a connection is found in every form a transport writes it: host and
  port for IPv4, brackets, a zone and a port for IPv6, or the bare address; and what is found is the canonical
  key of the address.
\<close>
theorem From_connection:
  assumes "wf_addr a" and "Unmap a = a" and "\<forall>c \<in> set port. c \<notin> {CHR '':'', CHR ''['', CHR '']''}"
    and "\<forall>c \<in> set zone. c \<notin> {CHR ''['', CHR '']''}"
  shows "(case a of
       V4 bs \<Rightarrow> From (render a @ CHR '':'' # port) = render a
     | V6 gs \<Rightarrow> From (CHR ''['' # render a @ CHR ''%'' # zone @ '']:'' @ port) = render a) \<and>
    From (render a) = render a \<and> Canonical (render a) = render a"
proof -
  note plain = render_plain [OF assms(1)] and zone = render_no_zone [OF assms(1)]
  note c = canonical_render [OF assms(1,2)] and z = canonical_zone [OF assms(1,2), of zone]
  have v4: "SplitHostPort (render a @ CHR '':'' # port) = Some (render a)" if "a = V4 bs" for bs
  proof -
    have nc: "CHR '':'' \<notin> set (render a)" using dotted_chars [of "CHR '':''" bs] that by auto
    have "after_last CHR '':'' (render a @ CHR '':'' # port) = port" using assms(3) by (intro after_last_append) auto
    moreover have "hd (render a @ CHR '':'' # port) \<noteq> CHR ''[''" using plain(1) zone(2) by (cases "render a") auto
    ultimately show ?thesis using plain nc assms(3) by (auto simp: SplitHostPort_def Let_def)
  qed
  have v6: "SplitHostPort (CHR ''['' # render a @ CHR ''%'' # zone @ '']:'' @ port) = Some (render a @ CHR ''%'' # zone)"
  proof -
    let ?h = "render a @ CHR ''%'' # zone" and ?s = "CHR ''['' # render a @ CHR ''%'' # zone @ '']:'' @ port"
    have nb: "CHR ''['' \<notin> set ?h" "CHR '']'' \<notin> set ?h" using plain assms(4) by auto
    have s: "?s = CHR ''['' # ?h @ '']:'' @ port" by simp
    have al: "after_last CHR '':'' (CHR ''['' # ?h @ '']:'' @ port) = port"
      using after_last_append [of "CHR '':''" port "CHR ''['' # ?h @ '']''"] assms(3) by auto
    have tw: "takeWhile (\<lambda>c. c \<noteq> CHR '']'') (?h @ '']:'' @ port) = ?h" using takeWhile_absent(1) [OF nb(2)] by simp
    have dr: "drop (length ?h + 2) (CHR ''['' # ?h @ '']:'' @ port) = CHR '':'' # port" by simp
    have np: "CHR ''['' \<notin> set port" "CHR '']'' \<notin> set port" using assms(3) by auto
    show ?thesis
      unfolding s SplitHostPort_def Let_def al list.sel tw dr using nb np by auto
  qed
  have "SplitHostPort (render a) = None"
  proof (cases a)
    case (V4 bs)
    then show ?thesis using dotted_chars [of "CHR '':''" bs] by (auto simp: SplitHostPort_def)
  next
    case (V6 gs)
    have "hd (render a) \<noteq> CHR ''[''" using plain(1) zone(2) by (cases "render a") auto
    then show ?thesis using V6 assms(1) render_v6_colons [of gs] by (simp add: wf_addr_def SplitHostPort_colons)
  qed
  with c have bare: "From (render a) = render a" by (simp add: From_def)
  have "Canonical (render a) = render a" using c by (simp add: Canonical_def)
  with bare show ?thesis
    using v4 v6 c z by (cases a) (simp_all add: From_def)
qed

theorem From_connection_witness:
  "From (render (V4 [10, 0, 0, 5]) @ '':34512'') = render (V4 [10, 0, 0, 5]) \<and> render (V4 [10, 0, 0, 5]) = ''10.0.0.5''"
proof -
  have "render (V4 [10, 0, 0, 5]) = ''10.0.0.5''" by code_simp
  with From_connection [of "V4 [10, 0, 0, 5]" "''34512''" "[]"] show ?thesis by (simp add: wf_addr_def del: render.simps)
qed

end
