(* ===== verification/StoreModel.thy ===== *)
theory StoreModel
  imports Kubeconvert PeerIP
begin

section \<open>The metadata store (internal/store)\<close>

text \<open>
  The state of \<^verbatim>\<open>Store\<close> and its operations, in the order in which the code calls them:
  the parking slots of \<^verbatim>\<open>waiters.go\<close>, the pod-IP index of \<^verbatim>\<open>podip.go\<close>, the upserts and deletes
  of \<^verbatim>\<open>store.go\<close>, the expiry of \<^verbatim>\<open>sweep.go\<close> and the lookups of \<^verbatim>\<open>lookup.go\<close>. One operation under
  the store's mutex is one function on the state.

  The indexes hold pointers to records and the code compares these pointers, so the records live
  in a heap (\<open>heap\<close>) and the indexes hold references to it; \<open>next_ref\<close> is the next free
  reference. A container entry is only ever reached through its key of \<^verbatim>\<open>byContainer\<close>, and a
  channel only needs an identity, so an entry is a value and a channel a number; \<open>closed\<close> lists
  the channels that have been closed. The clock is read once per operation: its reading is the
  argument \<open>now\<close>.
\<close>

type_synonym ref = nat
type_synonym chan = nat

record srecord =
  r_pod :: Pod
  r_ownerRefs :: "OwnerReference list"
  r_resourceVersion :: string
  r_containerIDs :: "string list"
  r_expireAt :: instant
  r_terminating :: bool
  r_ipSeq :: u64

definition zero_record :: srecord where
  "zero_record = \<lparr>r_pod = zero_Pod, r_ownerRefs = [], r_resourceVersion = [], r_containerIDs = [],
     r_expireAt = 0, r_terminating = False, r_ipSeq = 0\<rparr>"

record containerEntry =
  e_podUID :: uid
  e_container :: Container
  e_expireAt :: instant

record pendingExpiry =
  p_when :: instant
  p_uid :: uid
  p_id :: string
  p_isPod :: bool

record store =
  ttl :: duration
  maxWaiters :: int
  pods :: "(uid, ref) gomap"
  byContainer :: "(string, containerEntry) gomap"
  byNode :: "(string, (uid, ref) gomap) gomap"
  byPodName :: "(string, ref) gomap"
  byPodIP :: "(string, ref) gomap"
  ipClaimants :: "(string, (string, ref) gomap) gomap"
  waiters :: "(string, chan list) gomap"
  nWaiters :: int
  nExternal :: int
  draining :: bool
  ipSeq :: u64
  pending :: "pendingExpiry list"
  shed :: u64
  drained :: u64
  nameReused :: u64
  ipContested :: u64
  gen :: u64
  nodeGen :: "(string, u64) gomap"
  annotationsOmitted :: u64
  heap :: "ref \<Rightarrow> srecord"
  next_ref :: ref
  next_chan :: chan
  closed :: "chan list"

text \<open>A read through a pointer, and the update of a record in place.\<close>
abbreviation at :: "store \<Rightarrow> ref \<Rightarrow> srecord" where
  "at s r \<equiv> heap s r"

definition set_rec :: "ref \<Rightarrow> srecord \<Rightarrow> store \<Rightarrow> store" where
  "set_rec r v s = s\<lparr>heap := (heap s)(r := v)\<rparr>"

subsection \<open>Parking slots (waiters.go)\<close>

definition WaiterCostBytes :: int where "WaiterCostBytes = 64 * 1024"
definition WaiterBudgetBytes :: int where "WaiterBudgetBytes = 32 * 1024 * 1024"
definition DefaultMaxWaiters :: int where "DefaultMaxWaiters = WaiterBudgetBytes div WaiterCostBytes"

definition maxWaiterIDLen :: nat where "maxWaiterIDLen = MaxContainerIDLen"

datatype store_error = ErrTooManyWaiters | ErrShuttingDown

definition WithMaxWaiters :: "int \<Rightarrow> store \<Rightarrow> store" where
  "WithMaxWaiters n s = s\<lparr>maxWaiters := n\<rparr>"

definition wakeLocked :: "string \<Rightarrow> store \<Rightarrow> store \<times> int" where
  "wakeLocked cid s =
     (case get (waiters s) cid of
        None \<Rightarrow> (s, 0)
      | Some ws \<Rightarrow>
          if ws = [] then (s, 0)
          else (s\<lparr>closed := closed s @ ws, nWaiters := nWaiters s - int (length ws),
                  waiters := del cid (waiters s)\<rparr>, int (length ws)))"

fun drain_loop :: "string list \<Rightarrow> store \<Rightarrow> int \<Rightarrow> store \<times> int" where
  "drain_loop [] s released = (s, released)"
| "drain_loop (cid # ids) s released = (case wakeLocked cid s of (s', n) \<Rightarrow> drain_loop ids s' (released + n))"

definition Drain :: "store \<Rightarrow> store \<times> int" where
  "Drain s =
     (if draining s then (s, 0)
      else (let s = s\<lparr>draining := True\<rparr> in drain_loop (map fst (waiters s)) s 0))"

text \<open>
  \<^verbatim>\<open>remove1\<close> is the loop that deletes the first occurrence of the channel; the key goes when no
  channel is left. An absent key reads as the empty list.
\<close>
definition removeWaiter :: "string \<Rightarrow> chan \<Rightarrow> store \<Rightarrow> store" where
  "removeWaiter cid ch s =
     (let ws = (case get (waiters s) cid of Some ws \<Rightarrow> ws | None \<Rightarrow> []);
          s = (if ch \<in> set ws
               then s\<lparr>waiters := put cid (remove1 ch ws) (waiters s), nWaiters := nWaiters s - 1\<rparr>
               else s);
          left = (case get (waiters s) cid of Some ws \<Rightarrow> ws | None \<Rightarrow> [])
      in if left = [] then s\<lparr>waiters := del cid (waiters s)\<rparr> else s)"

definition TryPark :: "store \<Rightarrow> store \<times> bool" where
  "TryPark s =
     (if nWaiters s + nExternal s \<ge> maxWaiters s then (s\<lparr>shed := shed s + 1\<rparr>, False)
      else (s\<lparr>nExternal := nExternal s + 1\<rparr>, True))"

definition Unpark :: "store \<Rightarrow> store" where
  "Unpark s = (if nExternal s > 0 then s\<lparr>nExternal := nExternal s - 1\<rparr> else s)"

definition BlockedLookups :: "store \<Rightarrow> int" where
  "BlockedLookups s = nWaiters s + nExternal s"

definition ShedLookups :: "store \<Rightarrow> u64" where "ShedLookups s = shed s"
definition DrainedLookups :: "store \<Rightarrow> u64" where "DrainedLookups s = drained s"

subsection \<open>Expiry stamps (sweep.go)\<close>

definition stampLocked :: "pendingExpiry \<Rightarrow> store \<Rightarrow> store" where
  "stampLocked p s = s\<lparr>pending := pending s @ [p]\<rparr>"

definition expired :: "instant \<Rightarrow> instant \<Rightarrow> bool" where
  "expired expireAt now \<longleftrightarrow> expireAt \<noteq> 0 \<and> now > expireAt"

definition expireEntryLocked :: "instant \<Rightarrow> string \<Rightarrow> containerEntry \<Rightarrow> store \<Rightarrow> store" where
  "expireEntryLocked now cid e s =
     (if ttl s \<le> 0 then s\<lparr>byContainer := del cid (byContainer s)\<rparr>
      else (let when = now + ttl s in
        stampLocked \<lparr>p_when = when, p_uid = [], p_id = cid, p_isPod = False\<rparr>
          (s\<lparr>byContainer := put cid (e\<lparr>e_expireAt := when\<rparr>) (byContainer s)\<rparr>)))"

subsection \<open>The pod-IP index (podip.go)\<close>

text \<open>
  The enumeration returns the pod's own slice as long as every address is canonical, and a copy
  from the first one that is not; the filter of \<^verbatim>\<open>podAddresses\<close> likewise copies from the first
  address that has to go. The first argument is the part of the slice already passed.
\<close>
fun raw_loop :: "string list \<Rightarrow> string list \<Rightarrow> string list" where
  "raw_loop seen [] = seen"
| "raw_loop seen (ip # ips) =
     (let c = Canonical ip in
      if c = ip then raw_loop (seen @ [ip]) ips else seen @ c # map Canonical ips)"

definition rawIPs :: "Pod \<Rightarrow> string list" where
  "rawIPs pod =
     raw_loop [] (if pod_PodIPs pod = [] \<and> pod_PodIP pod \<noteq> [] then [pod_PodIP pod] else pod_PodIPs pod)"

fun addr_loop :: "string \<Rightarrow> string list \<Rightarrow> string list \<Rightarrow> string list" where
  "addr_loop host seen [] = seen"
| "addr_loop host seen (ip # ips) =
     (if ip \<noteq> [] \<and> ip \<noteq> host then addr_loop host (seen @ [ip]) ips
      else seen @ filter (\<lambda>ip. ip \<noteq> [] \<and> ip \<noteq> host) ips)"

definition podAddresses :: "Pod \<Rightarrow> string list" where
  "podAddresses pod =
     (if pod_HostNetwork pod \<or> FinishedPhase (pod_Phase pod) then []
      else addr_loop (Canonical (pod_HostIP pod)) [] (rawIPs pod))"

definition recordAddresses :: "srecord \<Rightarrow> string list" where
  "recordAddresses r = rawIPs (r_pod r)"

definition beatsClaimant :: "srecord \<Rightarrow> srecord \<Rightarrow> bool" where
  "beatsClaimant cur candidate \<longleftrightarrow> r_ipSeq candidate > r_ipSeq cur"

definition addClaimantLocked :: "string \<Rightarrow> ref \<Rightarrow> store \<Rightarrow> store" where
  "addClaimantLocked ip r s =
     s\<lparr>ipClaimants := put ip (put (pod_UID (r_pod (at s r))) r (get_map (ipClaimants s) ip)) (ipClaimants s)\<rparr>"

definition dropClaimantLocked :: "string \<Rightarrow> ref \<Rightarrow> store \<Rightarrow> store" where
  "dropClaimantLocked ip r s =
     (case get (ipClaimants s) ip of
        None \<Rightarrow> s
      | Some m \<Rightarrow>
          (let uid = pod_UID (r_pod (at s r));
               m = (if get m uid = Some r then del uid m else m) in
           if m = [] then s\<lparr>ipClaimants := del ip (ipClaimants s)\<rparr>
           else s\<lparr>ipClaimants := put ip m (ipClaimants s)\<rparr>))"

definition noteContested :: "ref \<Rightarrow> ref \<Rightarrow> store \<Rightarrow> store" where
  "noteContested r cur s =
     (if r_terminating (at s r) \<or> r_terminating (at s cur) then s
      else s\<lparr>ipContested := ipContested s + 1\<rparr>)"

definition ContestedPodIPs :: "store \<Rightarrow> u64" where "ContestedPodIPs s = ipContested s"

text \<open>The scan for the best surviving claimant of an address.\<close>
fun pick_claimant :: "store \<Rightarrow> string \<Rightarrow> ref \<Rightarrow> ref list \<Rightarrow> ref option \<Rightarrow> ref option" where
  "pick_claimant s ip skip [] pick = pick"
| "pick_claimant s ip skip (r # rs) pick =
     (if r = skip \<or> r_expireAt (at s r) \<noteq> 0 \<or> ip \<notin> set (podAddresses (r_pod (at s r)))
      then pick_claimant s ip skip rs pick
      else (case pick of
              None \<Rightarrow> pick_claimant s ip skip rs (Some r)
            | Some c \<Rightarrow>
                pick_claimant s ip skip rs (if beatsClaimant (at s c) (at s r) then Some r else pick)))"

definition promoteIPClaimantLocked :: "string \<Rightarrow> ref \<Rightarrow> store \<Rightarrow> store" where
  "promoteIPClaimantLocked ip skip s =
     (case pick_claimant s ip skip (map snd (get_map (ipClaimants s) ip)) None of
        None \<Rightarrow> s
      | Some r \<Rightarrow> s\<lparr>byPodIP := put ip r (byPodIP s)\<rparr>)"

definition releaseIPLocked :: "ref \<Rightarrow> string \<Rightarrow> store \<Rightarrow> store" where
  "releaseIPLocked r ip s =
     (let s = dropClaimantLocked ip r s in
      if get (byPodIP s) ip = Some r
      then promoteIPClaimantLocked ip r (s\<lparr>byPodIP := del ip (byPodIP s)\<rparr>)
      else s)"

definition claimOneIPLocked :: "ref \<Rightarrow> string list \<Rightarrow> bool \<Rightarrow> string \<Rightarrow> store \<Rightarrow> store" where
  "claimOneIPLocked r oldIPs noEvidence ip s =
     (let s = addClaimantLocked ip r s;
          s = (if \<not> noEvidence \<and> ip \<notin> set oldIPs
               then set_rec r ((at s r)\<lparr>r_ipSeq := ipSeq s + 1\<rparr>) (s\<lparr>ipSeq := ipSeq s + 1\<rparr>)
               else s)
      in case get (byPodIP s) ip of
           None \<Rightarrow> s\<lparr>byPodIP := put ip r (byPodIP s)\<rparr>
         | Some cur \<Rightarrow>
             if cur = r then s\<lparr>byPodIP := put ip r (byPodIP s)\<rparr>
             else if beatsClaimant (at s cur) (at s r)
             then (noteContested r cur s)\<lparr>byPodIP := put ip r (byPodIP s)\<rparr>
             else noteContested r cur s)"

definition claimPodIPLocked :: "ref \<Rightarrow> Pod \<Rightarrow> string list \<Rightarrow> bool \<Rightarrow> store \<Rightarrow> store" where
  "claimPodIPLocked r pod oldIPs noEvidence s =
     (let addrs = podAddresses pod;
          s = fold (claimOneIPLocked r oldIPs noEvidence) addrs s
      in fold (\<lambda>old s. if old = [] \<or> old \<in> set addrs then s else releaseIPLocked r old s) oldIPs s)"

subsection \<open>Upsert and delete (store.go)\<close>

definition New :: "duration \<Rightarrow> (store \<Rightarrow> store) list \<Rightarrow> store" where
  "New ttl' opts =
     fold (\<lambda>opt s. opt s) opts
       \<lparr>ttl = ttl', maxWaiters = DefaultMaxWaiters, pods = [], byContainer = [], byNode = [],
        byPodName = [], byPodIP = [], ipClaimants = [], waiters = [], nWaiters = 0, nExternal = 0,
        draining = False, ipSeq = 0, pending = [], shed = 0, drained = 0, nameReused = 0,
        ipContested = 0, gen = 0, nodeGen = [], annotationsOmitted = 0,
        heap = (\<lambda>_. zero_record), next_ref = 0, next_chan = 0, closed = []\<rparr>"

definition NameReuses :: "store \<Rightarrow> u64" where "NameReuses s = nameReused s"

definition NodeGeneration :: "store \<Rightarrow> string \<Rightarrow> u64" where
  "NodeGeneration s node = (case get (nodeGen s) node of Some g \<Rightarrow> g | None \<Rightarrow> gen s)"

definition stamp_node :: "u64 \<Rightarrow> string \<Rightarrow> store \<Rightarrow> store" where
  "stamp_node g n s =
     (if n = [] then s
      else if get (byNode s) n \<noteq> None then s\<lparr>nodeGen := put n g (nodeGen s)\<rparr>
      else s\<lparr>nodeGen := del n (nodeGen s)\<rparr>)"

definition bumpLocked :: "string list \<Rightarrow> store \<Rightarrow> store" where
  "bumpLocked nodes s = (let g = gen s + 1 in fold (stamp_node g) nodes (s\<lparr>gen := g\<rparr>))"

definition cloneOwnerRefs :: "OwnerReference list \<Rightarrow> OwnerReference list" where
  "cloneOwnerRefs refs =
     (if refs = [] then []
      else map (\<lambda>r. r\<lparr>or_Controller := (case or_Controller r of None \<Rightarrow> None | Some c \<Rightarrow> Some c),
                      or_BlockOwnerDeletion :=
                        (case or_BlockOwnerDeletion r of None \<Rightarrow> None | Some b \<Rightarrow> Some b)\<rparr>) refs)"

definition removeFromNodeLocked :: "string \<Rightarrow> uid \<Rightarrow> store \<Rightarrow> store" where
  "removeFromNodeLocked node uid s =
     (if node = [] then s
      else (case get (byNode s) node of
              None \<Rightarrow> s
            | Some m \<Rightarrow>
                (let m = del uid m in
                 if m = [] then s\<lparr>byNode := del node (byNode s)\<rparr>
                 else s\<lparr>byNode := put node m (byNode s)\<rparr>)))"

definition name_key :: "Pod \<Rightarrow> string" where
  "name_key pod = pod_Namespace pod @ ''/'' @ pod_Name pod"

definition dropNameIndexLocked :: "ref \<Rightarrow> store \<Rightarrow> store" where
  "dropNameIndexLocked r s =
     (let key = name_key (r_pod (at s r)) in
      if get (byPodName s) key = Some r then s\<lparr>byPodName := del key (byPodName s)\<rparr> else s)"

definition drop_own_container :: "uid \<Rightarrow> string \<Rightarrow> store \<Rightarrow> store" where
  "drop_own_container uid cid s =
     (case get (byContainer s) cid of
        Some e \<Rightarrow> if e_podUID e = uid then s\<lparr>byContainer := del cid (byContainer s)\<rparr> else s
      | None \<Rightarrow> s)"

definition removeRecordLocked :: "ref \<Rightarrow> uid \<Rightarrow> store \<Rightarrow> store" where
  "removeRecordLocked r uid s =
     (let s = dropNameIndexLocked r s;
          s = fold (drop_own_container uid) (r_containerIDs (at s r)) s
      in s\<lparr>pods := del uid (pods s)\<rparr>)"

text \<open>The stamp of one of a deleted pod's container entries that has none yet.\<close>
definition stamp_container :: "uid \<Rightarrow> instant \<Rightarrow> string \<Rightarrow> store \<Rightarrow> store" where
  "stamp_container uid when cid s =
     (case get (byContainer s) cid of
        Some e \<Rightarrow>
          if e_podUID e = uid \<and> e_expireAt e = 0
          then stampLocked \<lparr>p_when = when, p_uid = [], p_id = cid, p_isPod = False\<rparr>
                 (s\<lparr>byContainer := put cid (e\<lparr>e_expireAt := when\<rparr>) (byContainer s)\<rparr>)
          else s
      | None \<Rightarrow> s)"

text \<open>The body of \<^verbatim>\<open>deletePodLocked\<close> once the record is found, without the deferred bump.\<close>
definition delete_record :: "instant \<Rightarrow> uid \<Rightarrow> ref \<Rightarrow> store \<Rightarrow> store" where
  "delete_record now uid r s =
     (let s = removeFromNodeLocked (pod_NodeName (r_pod (at s r))) uid s;
          s = fold (releaseIPLocked r) (recordAddresses (at s r)) s
      in if ttl s \<le> 0 then removeRecordLocked r uid s
         else (let when = now + ttl s;
                   rec = at s r;
                   s = set_rec r (rec\<lparr>r_pod := (r_pod rec)\<lparr>pod_DeletedAt := Some now\<rparr>,
                                       r_expireAt := when\<rparr>) s;
                   s = stampLocked \<lparr>p_when = when, p_uid = uid, p_id = [], p_isPod = True\<rparr> s
               in fold (stamp_container uid when) (r_containerIDs (at s r)) s))"

definition deletePodLocked :: "instant \<Rightarrow> uid \<Rightarrow> store \<Rightarrow> store" where
  "deletePodLocked now uid s =
     (case get (pods s) uid of
        None \<Rightarrow> s
      | Some r \<Rightarrow> bumpLocked [pod_NodeName (r_pod (at s r))] (delete_record now uid r s))"

definition DeletePod :: "instant \<Rightarrow> uid \<Rightarrow> store \<Rightarrow> store" where
  "DeletePod now uid s = deletePodLocked now uid s"

definition unchangedLocked :: "srecord option \<Rightarrow> APIPod \<Rightarrow> bool" where
  "unchangedLocked rec p =
     (case rec of
        None \<Rightarrow> False
      | Some r \<Rightarrow>
          r_expireAt r = 0 \<and> ap_ResourceVersion p \<noteq> [] \<and> r_resourceVersion r = ap_ResourceVersion p)"

definition resyncNoOp :: "store \<Rightarrow> APIPod \<Rightarrow> bool" where
  "resyncNoOp s p = unchangedLocked (map_option (at s) (get (pods s) (ap_UID p))) p"

text \<open>One iteration of the loop that indexes the containers a pod reports.\<close>
definition index_one :: "uid \<Rightarrow> string \<times> Container \<Rightarrow> store \<Rightarrow> store" where
  "index_one uid ic s =
     (case ic of (cid, c) \<Rightarrow>
       fst (wakeLocked cid
         (s\<lparr>byContainer := put cid \<lparr>e_podUID = uid, e_container = c, e_expireAt = 0\<rparr> (byContainer s)\<rparr>)))"

text \<open>One iteration of the loop over the IDs the pod reported before.\<close>
definition retire_one :: "instant \<Rightarrow> uid \<Rightarrow> string list \<Rightarrow> string \<Rightarrow> store \<Rightarrow> store" where
  "retire_one now uid ids cid s =
     (if cid \<in> set ids then s
      else (case get (byContainer s) cid of
              Some e \<Rightarrow> if e_podUID e = uid \<and> e_expireAt e = 0 then expireEntryLocked now cid e s else s
            | None \<Rightarrow> s))"

definition indexContainersLocked ::
  "instant \<Rightarrow> ref \<Rightarrow> uid \<Rightarrow> (string, Container) gomap \<Rightarrow> string list \<Rightarrow> store \<Rightarrow> store" where
  "indexContainersLocked now r uid containers oldIDs s =
     (let ids = map fst containers;
          s = fold (index_one uid) containers s;
          s = set_rec r ((at s r)\<lparr>r_containerIDs := ids\<rparr>) s
      in fold (retire_one now uid ids) oldIDs s)"

text \<open>The pod joins its node's set; a pod that is not scheduled is on no node.\<close>
definition add_to_node :: "string \<Rightarrow> uid \<Rightarrow> ref \<Rightarrow> store \<Rightarrow> store" where
  "add_to_node node uid r s =
     (if node = [] then s
      else s\<lparr>byNode := put node (put uid r (get_map (byNode s) node)) (byNode s)\<rparr>)"

text \<open>The guard against a missed delete: a different live record under the same name goes.\<close>
definition take_name :: "instant \<Rightarrow> string \<Rightarrow> ref \<Rightarrow> store \<Rightarrow> store" where
  "take_name now key r s =
     (let s = (case get (byPodName s) key of
                 Some prev \<Rightarrow>
                   if prev \<noteq> r \<and> r_expireAt (at s prev) = 0
                   then deletePodLocked now (pod_UID (r_pod (at s prev)))
                          (s\<lparr>nameReused := nameReused s + 1\<rparr>)
                   else s
               | None \<Rightarrow> s)
      in s\<lparr>byPodName := put key r (byPodName s)\<rparr>)"

text \<open>The record of a pod: the known one, or a fresh one.\<close>
definition alloc :: "uid \<Rightarrow> store \<Rightarrow> ref \<times> store" where
  "alloc uid s =
     (case get (pods s) uid of
        Some r \<Rightarrow> (r, s)
      | None \<Rightarrow> (next_ref s,
          set_rec (next_ref s) zero_record
            (s\<lparr>pods := put uid (next_ref s) (pods s), next_ref := next_ref s + 1\<rparr>)))"

text \<open>The record takes over what the delivery says, and is live again if it was a tombstone.\<close>
definition fill_record :: "APIPod \<Rightarrow> ref \<Rightarrow> store \<Rightarrow> store" where
  "fill_record p r s =
     (let pod = fst (FromPod p) in
      set_rec r ((at s r)\<lparr>r_pod := pod, r_ownerRefs := cloneOwnerRefs (ap_OwnerReferences p),
        r_resourceVersion := ap_ResourceVersion p, r_expireAt := 0,
        r_terminating := (pod_DeletionTimestamp pod \<noteq> None)\<rparr>) s)"

text \<open>
  The write-locked half of \<^verbatim>\<open>UpsertPod\<close>. The bump is deferred, so that it also follows the early
  return, with no node to stamp.
\<close>
definition upsert_locked :: "instant \<Rightarrow> APIPod \<Rightarrow> store \<Rightarrow> store" where
  "upsert_locked now p s =
     (let (pod, containers) = FromPod p; old = get (pods s) (ap_UID p) in
      if unchangedLocked (map_option (at s) old) p then bumpLocked [[], []] s
      else
        (let oldNode = (case old of None \<Rightarrow> [] | Some r \<Rightarrow> pod_NodeName (r_pod (at s r)));
             oldIPs = (case old of None \<Rightarrow> [] | Some r \<Rightarrow> podAddresses (r_pod (at s r)));
             oldIDs = (case old of None \<Rightarrow> [] | Some r \<Rightarrow> r_containerIDs (at s r));
             (r, s) = alloc (ap_UID p) s;
             s = fill_record p r s;
             s = indexContainersLocked now r (ap_UID p) containers oldIDs s;
             s = (if oldNode \<noteq> pod_NodeName pod then removeFromNodeLocked oldNode (ap_UID p) s else s);
             s = add_to_node (pod_NodeName pod) (ap_UID p) r s;
             s = take_name now (name_key pod) r s;
             s = claimPodIPLocked r pod oldIPs (old = None \<and> r_terminating (at s r)) s
         in bumpLocked [oldNode, pod_NodeName pod] s))"

definition count_omitted :: "Pod \<Rightarrow> store \<Rightarrow> store" where
  "count_omitted pod s =
     (if AnnotationsOmitted (pod_Annotations pod) then s\<lparr>annotationsOmitted := annotationsOmitted s + 1\<rparr> else s)"

definition UpsertPod :: "instant \<Rightarrow> APIPod \<Rightarrow> store \<Rightarrow> store" where
  "UpsertPod now p s =
     (if resyncNoOp s p then s
      else upsert_locked now p (count_omitted (fst (FromPod p)) s))"

definition Stats :: "store \<Rightarrow> nat \<times> nat" where
  "Stats s = (length (pods s), length (byContainer s))"

subsection \<open>The sweep (sweep.go)\<close>

definition sweepContainerLocked :: "instant \<Rightarrow> string \<Rightarrow> store \<Rightarrow> store" where
  "sweepContainerLocked now cid s =
     (case get (byContainer s) cid of
        Some e \<Rightarrow> if expired (e_expireAt e) now then s\<lparr>byContainer := del cid (byContainer s)\<rparr> else s
      | None \<Rightarrow> s)"

definition sweepPodLocked :: "instant \<Rightarrow> uid \<Rightarrow> store \<Rightarrow> store" where
  "sweepPodLocked now uid s =
     (case get (pods s) uid of
        None \<Rightarrow> s
      | Some r \<Rightarrow>
          if \<not> expired (r_expireAt (at s r)) now then s
          else removeRecordLocked r uid
                 (fold (\<lambda>ip. dropClaimantLocked ip r) (recordAddresses (at s r)) s))"

text \<open>The walk over the pending list: how many stamps were due, and the store behind them.\<close>
fun sweep_loop :: "instant \<Rightarrow> pendingExpiry list \<Rightarrow> nat \<Rightarrow> store \<Rightarrow> nat \<times> store" where
  "sweep_loop now [] n s = (n, s)"
| "sweep_loop now (p # ps) n s =
     (if \<not> expired (p_when p) now then (n, s)
      else sweep_loop now ps (Suc n)
             (if p_isPod p then sweepPodLocked now (p_uid p) s else sweepContainerLocked now (p_id p) s))"

text \<open>
  The list is compacted in place and its array reallocated when it is too empty
  (\<^verbatim>\<open>shrinkPending\<close>, below); neither changes the elements.
\<close>
definition sweep :: "instant \<Rightarrow> store \<Rightarrow> store" where
  "sweep now s =
     (case sweep_loop now (pending s) 0 s of
        (n, s) \<Rightarrow>
          if n = 0 then s
          else bumpLocked [] (s\<lparr>pending := drop n (pending s)\<rparr>))"

definition maxIdlePendingStamps :: nat where "maxIdlePendingStamps = 1024"

text \<open>A slice with its capacity: the elements and the size of the array behind them.\<close>
definition shrinkPending :: "pendingExpiry list \<Rightarrow> nat \<Rightarrow> pendingExpiry list \<times> nat" where
  "shrinkPending p c =
     (if c \<le> maxIdlePendingStamps \<or> length p \<ge> c div 4 then (p, c)
      else if p = [] then ([], 0)
      else (p, max (2 * length p) maxIdlePendingStamps))"

text \<open>\<^verbatim>\<open>Run\<close>'s ticker interval, in nanoseconds; every tick is a \<open>sweep\<close>.\<close>
definition run_interval :: "duration \<Rightarrow> duration" where
  "run_interval t = min (max (t div 4) 5000000000) 60000000000"

subsection \<open>Lookups (lookup.go)\<close>

record ContainerResult =
  cr_Container :: Container
  cr_Pod :: Pod
  cr_OwnerRefs :: "OwnerReference list"

record NodePod =
  np_Pod :: Pod
  np_OwnerRefs :: "OwnerReference list"

text \<open>A hit, an entry that has lapsed (\<^verbatim>\<open>gone\<close>), or an unknown ID.\<close>
datatype found = Found ContainerResult | Gone | Missing

definition lookupLocked :: "instant \<Rightarrow> string \<Rightarrow> store \<Rightarrow> found" where
  "lookupLocked now cid s =
     (case get (byContainer s) cid of
        None \<Rightarrow> Missing
      | Some e \<Rightarrow>
          if expired (e_expireAt e) now then Gone
          else (case get (pods s) (e_podUID e) of
                  None \<Rightarrow> Gone
                | Some r \<Rightarrow>
                    if expired (r_expireAt (at s r)) now then Gone
                    else Found \<lparr>cr_Container = e_container e, cr_Pod = r_pod (at s r),
                                cr_OwnerRefs = r_ownerRefs (at s r)\<rparr>))"

definition node_pod :: "srecord \<Rightarrow> NodePod" where
  "node_pod r = \<lparr>np_Pod = r_pod r, np_OwnerRefs = r_ownerRefs r\<rparr>"

definition GetPodByName :: "instant \<Rightarrow> string \<Rightarrow> string \<Rightarrow> store \<Rightarrow> NodePod option" where
  "GetPodByName now namespace name s =
     (case get (byPodName s) (namespace @ ''/'' @ name) of
        None \<Rightarrow> None
      | Some r \<Rightarrow> if expired (r_expireAt (at s r)) now then None else Some (node_pod (at s r)))"

definition GetPodByUID :: "instant \<Rightarrow> uid \<Rightarrow> store \<Rightarrow> NodePod option" where
  "GetPodByUID now uid s =
     (case get (pods s) uid of
        None \<Rightarrow> None
      | Some r \<Rightarrow> if expired (r_expireAt (at s r)) now then None else Some (node_pod (at s r)))"

definition GetPodByIP :: "string \<Rightarrow> store \<Rightarrow> NodePod option" where
  "GetPodByIP ip s =
     (case get (byPodIP s) (Canonical ip) of
        None \<Rightarrow> None
      | Some r \<Rightarrow>
          if pod_DeletedAt (r_pod (at s r)) \<noteq> None \<or> FinishedPhase (pod_Phase (r_pod (at s r))) then None
          else Some (node_pod (at s r)))"

definition PodsOnNode :: "string \<Rightarrow> store \<Rightarrow> NodePod list" where
  "PodsOnNode node s = map (\<lambda>(uid, r). node_pod (at s r)) (get_map (byNode s) node)"

subsubsection \<open>A blocking lookup\<close>

text \<open>
  \<^verbatim>\<open>GetContainer\<close> takes the mutex several times. Each of its critical sections is one step of a
  lookup: the first read-locked look, the re-check at the head of the loop, the write-locked look
  that parks, and what follows the wait. A lookup waits on a channel; it goes on when the channel
  is closed, or when its context is done (\<open>ctx_done\<close>). When both are ready at once the code's
  \<^verbatim>\<open>select\<close> takes either arm, so that \<open>ctx_done\<close> at a parked lookup says which one it took.
\<close>
datatype outcome = Resolved ContainerResult | NotFound | Refused store_error

datatype phase =
    Start
  | Probe
  | Register
  | Parked chan
  | Answered outcome

definition answer :: "found \<Rightarrow> outcome" where
  "answer f = (case f of Found res \<Rightarrow> Resolved res | _ \<Rightarrow> NotFound)"

definition gc_start :: "instant \<Rightarrow> string \<Rightarrow> store \<Rightarrow> phase" where
  "gc_start now cid s =
     (if cid = [] then Answered NotFound
      else (case lookupLocked now cid s of
              Missing \<Rightarrow> if length cid > maxWaiterIDLen then Answered NotFound else Probe
            | f \<Rightarrow> Answered (answer f)))"

definition gc_probe :: "instant \<Rightarrow> bool \<Rightarrow> string \<Rightarrow> store \<Rightarrow> phase" where
  "gc_probe now ctx_done cid s =
     (case lookupLocked now cid s of
        Missing \<Rightarrow> if ctx_done then Answered NotFound else Register
      | f \<Rightarrow> Answered (answer f))"

definition gc_register :: "instant \<Rightarrow> string \<Rightarrow> store \<Rightarrow> phase \<times> store" where
  "gc_register now cid s =
     (case lookupLocked now cid s of
        Missing \<Rightarrow>
          if draining s then (Answered (Refused ErrShuttingDown), s\<lparr>drained := drained s + 1\<rparr>)
          else if nWaiters s + nExternal s \<ge> maxWaiters s
          then (Answered (Refused ErrTooManyWaiters), s\<lparr>shed := shed s + 1\<rparr>)
          else (let ch = next_chan s;
                    ws = (case get (waiters s) cid of Some ws \<Rightarrow> ws | None \<Rightarrow> [])
                in (Parked ch, s\<lparr>next_chan := ch + 1, waiters := put cid (ws @ [ch]) (waiters s),
                                 nWaiters := nWaiters s + 1\<rparr>))
      | f \<Rightarrow> (Answered (answer f), s))"

text \<open>The context ended: the waiter is removed, and an ID that landed meanwhile is still served.\<close>
definition gc_timeout :: "instant \<Rightarrow> string \<Rightarrow> chan \<Rightarrow> store \<Rightarrow> phase \<times> store" where
  "gc_timeout now cid ch s =
     (let s = removeWaiter cid ch s in (Answered (answer (lookupLocked now cid s)), s))"

definition gc_step :: "instant \<Rightarrow> bool \<Rightarrow> string \<Rightarrow> phase \<Rightarrow> store \<Rightarrow> phase \<times> store" where
  "gc_step now ctx_done cid ph s =
     (case ph of
        Start \<Rightarrow> (gc_start now cid s, s)
      | Probe \<Rightarrow> (gc_probe now ctx_done cid s, s)
      | Register \<Rightarrow> gc_register now cid s
      | Parked ch \<Rightarrow>
          if ctx_done then gc_timeout now cid ch s
          else if ch \<in> set (closed s) then (Probe, s)
          else (ph, s)
      | Answered res \<Rightarrow> (ph, s))"

text \<open>
  A lookup whose context is done from the start: the first look and the re-check, never a wait.
\<close>
definition GetContainer_nowait :: "instant \<Rightarrow> string \<Rightarrow> store \<Rightarrow> outcome" where
  "GetContainer_nowait now raw s =
     (let cid = NormalizeContainerID raw in
      case gc_start now cid s of
        Probe \<Rightarrow> (case gc_probe now True cid s of Answered res \<Rightarrow> res | _ \<Rightarrow> NotFound)
      | Answered res \<Rightarrow> res
      | _ \<Rightarrow> NotFound)"

end
