(* ===== verification/StoreFrames.thy ===== *)
theory StoreFrames
  imports StoreModel
begin

section \<open>What each store operation leaves alone\<close>

text \<open>
  One lemma per operation of the store: the fields it does not touch. The invariant proofs rest
  on these equations, so that each of them only speaks about the indexes an operation changes.
\<close>

lemma fold_frame: "(\<And>x s. F (g x s) = F s) \<Longrightarrow> F (fold g xs s) = F s"
  by (induction xs arbitrary: s) auto

lemma set_rec_frame [simp, store_simps]:
  "ttl (set_rec r v s) = ttl s" "maxWaiters (set_rec r v s) = maxWaiters s"
  "pods (set_rec r v s) = pods s" "byContainer (set_rec r v s) = byContainer s"
  "byNode (set_rec r v s) = byNode s" "byPodName (set_rec r v s) = byPodName s"
  "byPodIP (set_rec r v s) = byPodIP s" "ipClaimants (set_rec r v s) = ipClaimants s"
  "waiters (set_rec r v s) = waiters s" "nWaiters (set_rec r v s) = nWaiters s"
  "nExternal (set_rec r v s) = nExternal s" "draining (set_rec r v s) = draining s"
  "ipSeq (set_rec r v s) = ipSeq s" "pending (set_rec r v s) = pending s"
  "gen (set_rec r v s) = gen s" "nodeGen (set_rec r v s) = nodeGen s"
  "next_ref (set_rec r v s) = next_ref s" "next_chan (set_rec r v s) = next_chan s"
  "closed (set_rec r v s) = closed s"
  by (simp_all add: set_rec_def Let_def split: option.splits)

lemma wakeLocked_frame [simp, store_simps]:
  "ttl (fst (wakeLocked i s)) = ttl s" "maxWaiters (fst (wakeLocked i s)) = maxWaiters s"
  "pods (fst (wakeLocked i s)) = pods s" "byContainer (fst (wakeLocked i s)) = byContainer s"
  "byNode (fst (wakeLocked i s)) = byNode s" "byPodName (fst (wakeLocked i s)) = byPodName s"
  "byPodIP (fst (wakeLocked i s)) = byPodIP s" "ipClaimants (fst (wakeLocked i s)) = ipClaimants s"
  "nExternal (fst (wakeLocked i s)) = nExternal s" "draining (fst (wakeLocked i s)) = draining s"
  "ipSeq (fst (wakeLocked i s)) = ipSeq s" "pending (fst (wakeLocked i s)) = pending s"
  "gen (fst (wakeLocked i s)) = gen s" "nodeGen (fst (wakeLocked i s)) = nodeGen s"
  "heap (fst (wakeLocked i s)) = heap s" "next_ref (fst (wakeLocked i s)) = next_ref s"
  "next_chan (fst (wakeLocked i s)) = next_chan s"
  by (simp_all add: wakeLocked_def Let_def split: option.splits)

lemma stampLocked_frame [simp, store_simps]:
  "ttl (stampLocked p s) = ttl s" "maxWaiters (stampLocked p s) = maxWaiters s"
  "pods (stampLocked p s) = pods s" "byContainer (stampLocked p s) = byContainer s"
  "byNode (stampLocked p s) = byNode s" "byPodName (stampLocked p s) = byPodName s"
  "byPodIP (stampLocked p s) = byPodIP s" "ipClaimants (stampLocked p s) = ipClaimants s"
  "waiters (stampLocked p s) = waiters s" "nWaiters (stampLocked p s) = nWaiters s"
  "nExternal (stampLocked p s) = nExternal s" "draining (stampLocked p s) = draining s"
  "ipSeq (stampLocked p s) = ipSeq s" "gen (stampLocked p s) = gen s"
  "nodeGen (stampLocked p s) = nodeGen s" "heap (stampLocked p s) = heap s"
  "next_ref (stampLocked p s) = next_ref s" "next_chan (stampLocked p s) = next_chan s"
  "closed (stampLocked p s) = closed s"
  by (simp_all add: stampLocked_def Let_def split: option.splits)

lemma expireEntryLocked_frame [simp, store_simps]:
  "ttl (expireEntryLocked now i e s) = ttl s"
  "maxWaiters (expireEntryLocked now i e s) = maxWaiters s"
  "pods (expireEntryLocked now i e s) = pods s" "byNode (expireEntryLocked now i e s) = byNode s"
  "byPodName (expireEntryLocked now i e s) = byPodName s"
  "byPodIP (expireEntryLocked now i e s) = byPodIP s"
  "ipClaimants (expireEntryLocked now i e s) = ipClaimants s"
  "waiters (expireEntryLocked now i e s) = waiters s"
  "nWaiters (expireEntryLocked now i e s) = nWaiters s"
  "nExternal (expireEntryLocked now i e s) = nExternal s"
  "draining (expireEntryLocked now i e s) = draining s"
  "ipSeq (expireEntryLocked now i e s) = ipSeq s" "gen (expireEntryLocked now i e s) = gen s"
  "nodeGen (expireEntryLocked now i e s) = nodeGen s" "heap (expireEntryLocked now i e s) = heap s"
  "next_ref (expireEntryLocked now i e s) = next_ref s"
  "next_chan (expireEntryLocked now i e s) = next_chan s"
  "closed (expireEntryLocked now i e s) = closed s"
  by (simp_all add: expireEntryLocked_def Let_def split: option.splits)

lemma addClaimantLocked_frame [simp, store_simps]:
  "ttl (addClaimantLocked ip r s) = ttl s" "maxWaiters (addClaimantLocked ip r s) = maxWaiters s"
  "pods (addClaimantLocked ip r s) = pods s"
  "byContainer (addClaimantLocked ip r s) = byContainer s"
  "byNode (addClaimantLocked ip r s) = byNode s"
  "byPodName (addClaimantLocked ip r s) = byPodName s"
  "byPodIP (addClaimantLocked ip r s) = byPodIP s" "waiters (addClaimantLocked ip r s) = waiters s"
  "nWaiters (addClaimantLocked ip r s) = nWaiters s"
  "nExternal (addClaimantLocked ip r s) = nExternal s"
  "draining (addClaimantLocked ip r s) = draining s" "ipSeq (addClaimantLocked ip r s) = ipSeq s"
  "pending (addClaimantLocked ip r s) = pending s" "gen (addClaimantLocked ip r s) = gen s"
  "nodeGen (addClaimantLocked ip r s) = nodeGen s" "heap (addClaimantLocked ip r s) = heap s"
  "next_ref (addClaimantLocked ip r s) = next_ref s"
  "next_chan (addClaimantLocked ip r s) = next_chan s"
  "closed (addClaimantLocked ip r s) = closed s"
  by (simp_all add: addClaimantLocked_def Let_def split: option.splits)

lemma dropClaimantLocked_frame [simp, store_simps]:
  "ttl (dropClaimantLocked ip r s) = ttl s" "maxWaiters (dropClaimantLocked ip r s) = maxWaiters s"
  "pods (dropClaimantLocked ip r s) = pods s"
  "byContainer (dropClaimantLocked ip r s) = byContainer s"
  "byNode (dropClaimantLocked ip r s) = byNode s"
  "byPodName (dropClaimantLocked ip r s) = byPodName s"
  "byPodIP (dropClaimantLocked ip r s) = byPodIP s"
  "waiters (dropClaimantLocked ip r s) = waiters s"
  "nWaiters (dropClaimantLocked ip r s) = nWaiters s"
  "nExternal (dropClaimantLocked ip r s) = nExternal s"
  "draining (dropClaimantLocked ip r s) = draining s" "ipSeq (dropClaimantLocked ip r s) = ipSeq s"
  "pending (dropClaimantLocked ip r s) = pending s" "gen (dropClaimantLocked ip r s) = gen s"
  "nodeGen (dropClaimantLocked ip r s) = nodeGen s" "heap (dropClaimantLocked ip r s) = heap s"
  "next_ref (dropClaimantLocked ip r s) = next_ref s"
  "next_chan (dropClaimantLocked ip r s) = next_chan s"
  "closed (dropClaimantLocked ip r s) = closed s"
  by (simp_all add: dropClaimantLocked_def Let_def split: option.splits)

lemma noteContested_frame [simp, store_simps]:
  "ttl (noteContested r c s) = ttl s" "maxWaiters (noteContested r c s) = maxWaiters s"
  "pods (noteContested r c s) = pods s" "byContainer (noteContested r c s) = byContainer s"
  "byNode (noteContested r c s) = byNode s" "byPodName (noteContested r c s) = byPodName s"
  "byPodIP (noteContested r c s) = byPodIP s" "ipClaimants (noteContested r c s) = ipClaimants s"
  "waiters (noteContested r c s) = waiters s" "nWaiters (noteContested r c s) = nWaiters s"
  "nExternal (noteContested r c s) = nExternal s" "draining (noteContested r c s) = draining s"
  "ipSeq (noteContested r c s) = ipSeq s" "pending (noteContested r c s) = pending s"
  "gen (noteContested r c s) = gen s" "nodeGen (noteContested r c s) = nodeGen s"
  "heap (noteContested r c s) = heap s" "next_ref (noteContested r c s) = next_ref s"
  "next_chan (noteContested r c s) = next_chan s" "closed (noteContested r c s) = closed s"
  by (simp_all add: noteContested_def Let_def split: option.splits)

lemma promoteIPClaimantLocked_frame [simp, store_simps]:
  "ttl (promoteIPClaimantLocked ip k s) = ttl s"
  "maxWaiters (promoteIPClaimantLocked ip k s) = maxWaiters s"
  "pods (promoteIPClaimantLocked ip k s) = pods s"
  "byContainer (promoteIPClaimantLocked ip k s) = byContainer s"
  "byNode (promoteIPClaimantLocked ip k s) = byNode s"
  "byPodName (promoteIPClaimantLocked ip k s) = byPodName s"
  "ipClaimants (promoteIPClaimantLocked ip k s) = ipClaimants s"
  "waiters (promoteIPClaimantLocked ip k s) = waiters s"
  "nWaiters (promoteIPClaimantLocked ip k s) = nWaiters s"
  "nExternal (promoteIPClaimantLocked ip k s) = nExternal s"
  "draining (promoteIPClaimantLocked ip k s) = draining s"
  "ipSeq (promoteIPClaimantLocked ip k s) = ipSeq s"
  "pending (promoteIPClaimantLocked ip k s) = pending s"
  "gen (promoteIPClaimantLocked ip k s) = gen s"
  "nodeGen (promoteIPClaimantLocked ip k s) = nodeGen s"
  "heap (promoteIPClaimantLocked ip k s) = heap s"
  "next_ref (promoteIPClaimantLocked ip k s) = next_ref s"
  "next_chan (promoteIPClaimantLocked ip k s) = next_chan s"
  "closed (promoteIPClaimantLocked ip k s) = closed s"
  by (simp_all add: promoteIPClaimantLocked_def Let_def split: option.splits)

lemma releaseIPLocked_frame [simp, store_simps]:
  "ttl (releaseIPLocked r ip s) = ttl s" "maxWaiters (releaseIPLocked r ip s) = maxWaiters s"
  "pods (releaseIPLocked r ip s) = pods s" "byContainer (releaseIPLocked r ip s) = byContainer s"
  "byNode (releaseIPLocked r ip s) = byNode s" "byPodName (releaseIPLocked r ip s) = byPodName s"
  "waiters (releaseIPLocked r ip s) = waiters s" "nWaiters (releaseIPLocked r ip s) = nWaiters s"
  "nExternal (releaseIPLocked r ip s) = nExternal s"
  "draining (releaseIPLocked r ip s) = draining s" "ipSeq (releaseIPLocked r ip s) = ipSeq s"
  "pending (releaseIPLocked r ip s) = pending s" "gen (releaseIPLocked r ip s) = gen s"
  "nodeGen (releaseIPLocked r ip s) = nodeGen s" "heap (releaseIPLocked r ip s) = heap s"
  "next_ref (releaseIPLocked r ip s) = next_ref s"
  "next_chan (releaseIPLocked r ip s) = next_chan s" "closed (releaseIPLocked r ip s) = closed s"
  by (simp_all add: releaseIPLocked_def Let_def split: option.splits)

lemma claimOneIPLocked_frame [simp, store_simps]:
  "ttl (claimOneIPLocked r old ne ip s) = ttl s"
  "maxWaiters (claimOneIPLocked r old ne ip s) = maxWaiters s"
  "pods (claimOneIPLocked r old ne ip s) = pods s"
  "byContainer (claimOneIPLocked r old ne ip s) = byContainer s"
  "byNode (claimOneIPLocked r old ne ip s) = byNode s"
  "byPodName (claimOneIPLocked r old ne ip s) = byPodName s"
  "waiters (claimOneIPLocked r old ne ip s) = waiters s"
  "nWaiters (claimOneIPLocked r old ne ip s) = nWaiters s"
  "nExternal (claimOneIPLocked r old ne ip s) = nExternal s"
  "draining (claimOneIPLocked r old ne ip s) = draining s"
  "pending (claimOneIPLocked r old ne ip s) = pending s"
  "gen (claimOneIPLocked r old ne ip s) = gen s"
  "nodeGen (claimOneIPLocked r old ne ip s) = nodeGen s"
  "next_ref (claimOneIPLocked r old ne ip s) = next_ref s"
  "next_chan (claimOneIPLocked r old ne ip s) = next_chan s"
  "closed (claimOneIPLocked r old ne ip s) = closed s"
  by (simp_all add: claimOneIPLocked_def Let_def split: option.splits)

lemma release_all_frame [simp, store_simps]:
  "ttl (fold (releaseIPLocked r) ips s) = ttl s"
  "maxWaiters (fold (releaseIPLocked r) ips s) = maxWaiters s"
  "pods (fold (releaseIPLocked r) ips s) = pods s"
  "byContainer (fold (releaseIPLocked r) ips s) = byContainer s"
  "byNode (fold (releaseIPLocked r) ips s) = byNode s"
  "byPodName (fold (releaseIPLocked r) ips s) = byPodName s"
  "waiters (fold (releaseIPLocked r) ips s) = waiters s"
  "nWaiters (fold (releaseIPLocked r) ips s) = nWaiters s"
  "nExternal (fold (releaseIPLocked r) ips s) = nExternal s"
  "draining (fold (releaseIPLocked r) ips s) = draining s"
  "ipSeq (fold (releaseIPLocked r) ips s) = ipSeq s"
  "pending (fold (releaseIPLocked r) ips s) = pending s"
  "gen (fold (releaseIPLocked r) ips s) = gen s"
  "nodeGen (fold (releaseIPLocked r) ips s) = nodeGen s"
  "heap (fold (releaseIPLocked r) ips s) = heap s"
  "next_ref (fold (releaseIPLocked r) ips s) = next_ref s"
  "next_chan (fold (releaseIPLocked r) ips s) = next_chan s"
  "closed (fold (releaseIPLocked r) ips s) = closed s"
  by (rule fold_frame, simp)+

lemma drop_all_frame [simp, store_simps]:
  "ttl (fold (\<lambda>ip. dropClaimantLocked ip r) ips s) = ttl s"
  "maxWaiters (fold (\<lambda>ip. dropClaimantLocked ip r) ips s) = maxWaiters s"
  "pods (fold (\<lambda>ip. dropClaimantLocked ip r) ips s) = pods s"
  "byContainer (fold (\<lambda>ip. dropClaimantLocked ip r) ips s) = byContainer s"
  "byNode (fold (\<lambda>ip. dropClaimantLocked ip r) ips s) = byNode s"
  "byPodName (fold (\<lambda>ip. dropClaimantLocked ip r) ips s) = byPodName s"
  "byPodIP (fold (\<lambda>ip. dropClaimantLocked ip r) ips s) = byPodIP s"
  "waiters (fold (\<lambda>ip. dropClaimantLocked ip r) ips s) = waiters s"
  "nWaiters (fold (\<lambda>ip. dropClaimantLocked ip r) ips s) = nWaiters s"
  "nExternal (fold (\<lambda>ip. dropClaimantLocked ip r) ips s) = nExternal s"
  "draining (fold (\<lambda>ip. dropClaimantLocked ip r) ips s) = draining s"
  "ipSeq (fold (\<lambda>ip. dropClaimantLocked ip r) ips s) = ipSeq s"
  "pending (fold (\<lambda>ip. dropClaimantLocked ip r) ips s) = pending s"
  "gen (fold (\<lambda>ip. dropClaimantLocked ip r) ips s) = gen s"
  "nodeGen (fold (\<lambda>ip. dropClaimantLocked ip r) ips s) = nodeGen s"
  "heap (fold (\<lambda>ip. dropClaimantLocked ip r) ips s) = heap s"
  "next_ref (fold (\<lambda>ip. dropClaimantLocked ip r) ips s) = next_ref s"
  "next_chan (fold (\<lambda>ip. dropClaimantLocked ip r) ips s) = next_chan s"
  "closed (fold (\<lambda>ip. dropClaimantLocked ip r) ips s) = closed s"
  by (rule fold_frame, simp)+

lemma claim_all_frame [simp, store_simps]:
  "ttl (fold (claimOneIPLocked r old ne) ips s) = ttl s"
  "maxWaiters (fold (claimOneIPLocked r old ne) ips s) = maxWaiters s"
  "pods (fold (claimOneIPLocked r old ne) ips s) = pods s"
  "byContainer (fold (claimOneIPLocked r old ne) ips s) = byContainer s"
  "byNode (fold (claimOneIPLocked r old ne) ips s) = byNode s"
  "byPodName (fold (claimOneIPLocked r old ne) ips s) = byPodName s"
  "waiters (fold (claimOneIPLocked r old ne) ips s) = waiters s"
  "nWaiters (fold (claimOneIPLocked r old ne) ips s) = nWaiters s"
  "nExternal (fold (claimOneIPLocked r old ne) ips s) = nExternal s"
  "draining (fold (claimOneIPLocked r old ne) ips s) = draining s"
  "pending (fold (claimOneIPLocked r old ne) ips s) = pending s"
  "gen (fold (claimOneIPLocked r old ne) ips s) = gen s"
  "nodeGen (fold (claimOneIPLocked r old ne) ips s) = nodeGen s"
  "next_ref (fold (claimOneIPLocked r old ne) ips s) = next_ref s"
  "next_chan (fold (claimOneIPLocked r old ne) ips s) = next_chan s"
  "closed (fold (claimOneIPLocked r old ne) ips s) = closed s"
  by (rule fold_frame, simp)+

lemma release_some_frame [simp, store_simps]:

  "ttl (fold (\<lambda>old s. if old = [] \<or> old \<in> set addrs then s else releaseIPLocked r old s) ips s) = ttl s"
  "maxWaiters (fold (\<lambda>old s. if old = [] \<or> old \<in> set addrs then s else releaseIPLocked r old s) ips s) = maxWaiters s"
  "pods (fold (\<lambda>old s. if old = [] \<or> old \<in> set addrs then s else releaseIPLocked r old s) ips s) = pods s"
  "byContainer (fold (\<lambda>old s. if old = [] \<or> old \<in> set addrs then s else releaseIPLocked r old s) ips s) = byContainer s"
  "byNode (fold (\<lambda>old s. if old = [] \<or> old \<in> set addrs then s else releaseIPLocked r old s) ips s) = byNode s"
  "byPodName (fold (\<lambda>old s. if old = [] \<or> old \<in> set addrs then s else releaseIPLocked r old s) ips s) = byPodName s"
  "waiters (fold (\<lambda>old s. if old = [] \<or> old \<in> set addrs then s else releaseIPLocked r old s) ips s) = waiters s"
  "nWaiters (fold (\<lambda>old s. if old = [] \<or> old \<in> set addrs then s else releaseIPLocked r old s) ips s) = nWaiters s"
  "nExternal (fold (\<lambda>old s. if old = [] \<or> old \<in> set addrs then s else releaseIPLocked r old s) ips s) = nExternal s"
  "draining (fold (\<lambda>old s. if old = [] \<or> old \<in> set addrs then s else releaseIPLocked r old s) ips s) = draining s"
  "ipSeq (fold (\<lambda>old s. if old = [] \<or> old \<in> set addrs then s else releaseIPLocked r old s) ips s) = ipSeq s"
  "pending (fold (\<lambda>old s. if old = [] \<or> old \<in> set addrs then s else releaseIPLocked r old s) ips s) = pending s"
  "gen (fold (\<lambda>old s. if old = [] \<or> old \<in> set addrs then s else releaseIPLocked r old s) ips s) = gen s"
  "nodeGen (fold (\<lambda>old s. if old = [] \<or> old \<in> set addrs then s else releaseIPLocked r old s) ips s) = nodeGen s"
  "heap (fold (\<lambda>old s. if old = [] \<or> old \<in> set addrs then s else releaseIPLocked r old s) ips s) = heap s"
  "next_ref (fold (\<lambda>old s. if old = [] \<or> old \<in> set addrs then s else releaseIPLocked r old s) ips s) = next_ref s"
  "next_chan (fold (\<lambda>old s. if old = [] \<or> old \<in> set addrs then s else releaseIPLocked r old s) ips s) = next_chan s"
  "closed (fold (\<lambda>old s. if old = [] \<or> old \<in> set addrs then s else releaseIPLocked r old s) ips s) = closed s"
  by (rule fold_frame, simp)+

lemma claimPodIPLocked_frame [simp, store_simps]:
  "ttl (claimPodIPLocked r pod old ne s) = ttl s"
  "maxWaiters (claimPodIPLocked r pod old ne s) = maxWaiters s"
  "pods (claimPodIPLocked r pod old ne s) = pods s"
  "byContainer (claimPodIPLocked r pod old ne s) = byContainer s"
  "byNode (claimPodIPLocked r pod old ne s) = byNode s"
  "byPodName (claimPodIPLocked r pod old ne s) = byPodName s"
  "waiters (claimPodIPLocked r pod old ne s) = waiters s"
  "nWaiters (claimPodIPLocked r pod old ne s) = nWaiters s"
  "nExternal (claimPodIPLocked r pod old ne s) = nExternal s"
  "draining (claimPodIPLocked r pod old ne s) = draining s"
  "pending (claimPodIPLocked r pod old ne s) = pending s"
  "gen (claimPodIPLocked r pod old ne s) = gen s"
  "nodeGen (claimPodIPLocked r pod old ne s) = nodeGen s"
  "next_ref (claimPodIPLocked r pod old ne s) = next_ref s"
  "next_chan (claimPodIPLocked r pod old ne s) = next_chan s"
  "closed (claimPodIPLocked r pod old ne s) = closed s"
  by (simp_all add: claimPodIPLocked_def Let_def split: option.splits)

lemma stamp_node_frame [simp, store_simps]:
  "ttl (stamp_node g n s) = ttl s" "maxWaiters (stamp_node g n s) = maxWaiters s"
  "pods (stamp_node g n s) = pods s" "byContainer (stamp_node g n s) = byContainer s"
  "byNode (stamp_node g n s) = byNode s" "byPodName (stamp_node g n s) = byPodName s"
  "byPodIP (stamp_node g n s) = byPodIP s" "ipClaimants (stamp_node g n s) = ipClaimants s"
  "waiters (stamp_node g n s) = waiters s" "nWaiters (stamp_node g n s) = nWaiters s"
  "nExternal (stamp_node g n s) = nExternal s" "draining (stamp_node g n s) = draining s"
  "ipSeq (stamp_node g n s) = ipSeq s" "pending (stamp_node g n s) = pending s"
  "gen (stamp_node g n s) = gen s" "heap (stamp_node g n s) = heap s"
  "next_ref (stamp_node g n s) = next_ref s" "next_chan (stamp_node g n s) = next_chan s"
  "closed (stamp_node g n s) = closed s"
  by (simp_all add: stamp_node_def Let_def split: option.splits)

lemma stamp_nodes_frame [simp, store_simps]:
  "ttl (fold (stamp_node g) ns s) = ttl s" "maxWaiters (fold (stamp_node g) ns s) = maxWaiters s"
  "pods (fold (stamp_node g) ns s) = pods s"
  "byContainer (fold (stamp_node g) ns s) = byContainer s"
  "byNode (fold (stamp_node g) ns s) = byNode s"
  "byPodName (fold (stamp_node g) ns s) = byPodName s"
  "byPodIP (fold (stamp_node g) ns s) = byPodIP s"
  "ipClaimants (fold (stamp_node g) ns s) = ipClaimants s"
  "waiters (fold (stamp_node g) ns s) = waiters s"
  "nWaiters (fold (stamp_node g) ns s) = nWaiters s"
  "nExternal (fold (stamp_node g) ns s) = nExternal s"
  "draining (fold (stamp_node g) ns s) = draining s" "ipSeq (fold (stamp_node g) ns s) = ipSeq s"
  "pending (fold (stamp_node g) ns s) = pending s" "gen (fold (stamp_node g) ns s) = gen s"
  "heap (fold (stamp_node g) ns s) = heap s" "next_ref (fold (stamp_node g) ns s) = next_ref s"
  "next_chan (fold (stamp_node g) ns s) = next_chan s"
  "closed (fold (stamp_node g) ns s) = closed s"
  by (rule fold_frame, simp)+

lemma bumpLocked_frame [simp, store_simps]:
  "ttl (bumpLocked ns s) = ttl s" "maxWaiters (bumpLocked ns s) = maxWaiters s"
  "pods (bumpLocked ns s) = pods s" "byContainer (bumpLocked ns s) = byContainer s"
  "byNode (bumpLocked ns s) = byNode s" "byPodName (bumpLocked ns s) = byPodName s"
  "byPodIP (bumpLocked ns s) = byPodIP s" "ipClaimants (bumpLocked ns s) = ipClaimants s"
  "waiters (bumpLocked ns s) = waiters s" "nWaiters (bumpLocked ns s) = nWaiters s"
  "nExternal (bumpLocked ns s) = nExternal s" "draining (bumpLocked ns s) = draining s"
  "ipSeq (bumpLocked ns s) = ipSeq s" "pending (bumpLocked ns s) = pending s"
  "heap (bumpLocked ns s) = heap s" "next_ref (bumpLocked ns s) = next_ref s"
  "next_chan (bumpLocked ns s) = next_chan s" "closed (bumpLocked ns s) = closed s"
  by (simp_all add: bumpLocked_def Let_def split: option.splits)

lemma removeFromNodeLocked_frame [simp, store_simps]:
  "ttl (removeFromNodeLocked n u s) = ttl s"
  "maxWaiters (removeFromNodeLocked n u s) = maxWaiters s"
  "pods (removeFromNodeLocked n u s) = pods s"
  "byContainer (removeFromNodeLocked n u s) = byContainer s"
  "byPodName (removeFromNodeLocked n u s) = byPodName s"
  "byPodIP (removeFromNodeLocked n u s) = byPodIP s"
  "ipClaimants (removeFromNodeLocked n u s) = ipClaimants s"
  "waiters (removeFromNodeLocked n u s) = waiters s"
  "nWaiters (removeFromNodeLocked n u s) = nWaiters s"
  "nExternal (removeFromNodeLocked n u s) = nExternal s"
  "draining (removeFromNodeLocked n u s) = draining s"
  "ipSeq (removeFromNodeLocked n u s) = ipSeq s" "pending (removeFromNodeLocked n u s) = pending s"
  "gen (removeFromNodeLocked n u s) = gen s" "nodeGen (removeFromNodeLocked n u s) = nodeGen s"
  "heap (removeFromNodeLocked n u s) = heap s" "next_ref (removeFromNodeLocked n u s) = next_ref s"
  "next_chan (removeFromNodeLocked n u s) = next_chan s"
  "closed (removeFromNodeLocked n u s) = closed s"
  by (simp_all add: removeFromNodeLocked_def Let_def split: option.splits)

lemma add_to_node_frame [simp, store_simps]:
  "ttl (add_to_node n u r s) = ttl s" "maxWaiters (add_to_node n u r s) = maxWaiters s"
  "pods (add_to_node n u r s) = pods s" "byContainer (add_to_node n u r s) = byContainer s"
  "byPodName (add_to_node n u r s) = byPodName s" "byPodIP (add_to_node n u r s) = byPodIP s"
  "ipClaimants (add_to_node n u r s) = ipClaimants s" "waiters (add_to_node n u r s) = waiters s"
  "nWaiters (add_to_node n u r s) = nWaiters s" "nExternal (add_to_node n u r s) = nExternal s"
  "draining (add_to_node n u r s) = draining s" "ipSeq (add_to_node n u r s) = ipSeq s"
  "pending (add_to_node n u r s) = pending s" "gen (add_to_node n u r s) = gen s"
  "nodeGen (add_to_node n u r s) = nodeGen s" "heap (add_to_node n u r s) = heap s"
  "next_ref (add_to_node n u r s) = next_ref s" "next_chan (add_to_node n u r s) = next_chan s"
  "closed (add_to_node n u r s) = closed s"
  by (simp_all add: add_to_node_def Let_def split: option.splits)

lemma dropNameIndexLocked_frame [simp, store_simps]:
  "ttl (dropNameIndexLocked r s) = ttl s" "maxWaiters (dropNameIndexLocked r s) = maxWaiters s"
  "pods (dropNameIndexLocked r s) = pods s" "byContainer (dropNameIndexLocked r s) = byContainer s"
  "byNode (dropNameIndexLocked r s) = byNode s" "byPodIP (dropNameIndexLocked r s) = byPodIP s"
  "ipClaimants (dropNameIndexLocked r s) = ipClaimants s"
  "waiters (dropNameIndexLocked r s) = waiters s" "nWaiters (dropNameIndexLocked r s) = nWaiters s"
  "nExternal (dropNameIndexLocked r s) = nExternal s"
  "draining (dropNameIndexLocked r s) = draining s" "ipSeq (dropNameIndexLocked r s) = ipSeq s"
  "pending (dropNameIndexLocked r s) = pending s" "gen (dropNameIndexLocked r s) = gen s"
  "nodeGen (dropNameIndexLocked r s) = nodeGen s" "heap (dropNameIndexLocked r s) = heap s"
  "next_ref (dropNameIndexLocked r s) = next_ref s"
  "next_chan (dropNameIndexLocked r s) = next_chan s" "closed (dropNameIndexLocked r s) = closed s"
  by (simp_all add: dropNameIndexLocked_def Let_def split: option.splits)

lemma drop_own_container_frame [simp, store_simps]:
  "ttl (drop_own_container u i s) = ttl s" "maxWaiters (drop_own_container u i s) = maxWaiters s"
  "pods (drop_own_container u i s) = pods s" "byNode (drop_own_container u i s) = byNode s"
  "byPodName (drop_own_container u i s) = byPodName s"
  "byPodIP (drop_own_container u i s) = byPodIP s"
  "ipClaimants (drop_own_container u i s) = ipClaimants s"
  "waiters (drop_own_container u i s) = waiters s"
  "nWaiters (drop_own_container u i s) = nWaiters s"
  "nExternal (drop_own_container u i s) = nExternal s"
  "draining (drop_own_container u i s) = draining s" "ipSeq (drop_own_container u i s) = ipSeq s"
  "pending (drop_own_container u i s) = pending s" "gen (drop_own_container u i s) = gen s"
  "nodeGen (drop_own_container u i s) = nodeGen s" "heap (drop_own_container u i s) = heap s"
  "next_ref (drop_own_container u i s) = next_ref s"
  "next_chan (drop_own_container u i s) = next_chan s"
  "closed (drop_own_container u i s) = closed s"
  by (simp_all add: drop_own_container_def Let_def split: option.splits)

lemma drop_own_containers_frame [simp, store_simps]:
  "ttl (fold (drop_own_container u) ids s) = ttl s"
  "maxWaiters (fold (drop_own_container u) ids s) = maxWaiters s"
  "pods (fold (drop_own_container u) ids s) = pods s"
  "byNode (fold (drop_own_container u) ids s) = byNode s"
  "byPodName (fold (drop_own_container u) ids s) = byPodName s"
  "byPodIP (fold (drop_own_container u) ids s) = byPodIP s"
  "ipClaimants (fold (drop_own_container u) ids s) = ipClaimants s"
  "waiters (fold (drop_own_container u) ids s) = waiters s"
  "nWaiters (fold (drop_own_container u) ids s) = nWaiters s"
  "nExternal (fold (drop_own_container u) ids s) = nExternal s"
  "draining (fold (drop_own_container u) ids s) = draining s"
  "ipSeq (fold (drop_own_container u) ids s) = ipSeq s"
  "pending (fold (drop_own_container u) ids s) = pending s"
  "gen (fold (drop_own_container u) ids s) = gen s"
  "nodeGen (fold (drop_own_container u) ids s) = nodeGen s"
  "heap (fold (drop_own_container u) ids s) = heap s"
  "next_ref (fold (drop_own_container u) ids s) = next_ref s"
  "next_chan (fold (drop_own_container u) ids s) = next_chan s"
  "closed (fold (drop_own_container u) ids s) = closed s"
  by (rule fold_frame, simp)+

lemma removeRecordLocked_frame [simp, store_simps]:
  "ttl (removeRecordLocked r u s) = ttl s" "maxWaiters (removeRecordLocked r u s) = maxWaiters s"
  "byNode (removeRecordLocked r u s) = byNode s" "byPodIP (removeRecordLocked r u s) = byPodIP s"
  "ipClaimants (removeRecordLocked r u s) = ipClaimants s"
  "waiters (removeRecordLocked r u s) = waiters s"
  "nWaiters (removeRecordLocked r u s) = nWaiters s"
  "nExternal (removeRecordLocked r u s) = nExternal s"
  "draining (removeRecordLocked r u s) = draining s" "ipSeq (removeRecordLocked r u s) = ipSeq s"
  "pending (removeRecordLocked r u s) = pending s" "gen (removeRecordLocked r u s) = gen s"
  "nodeGen (removeRecordLocked r u s) = nodeGen s" "heap (removeRecordLocked r u s) = heap s"
  "next_ref (removeRecordLocked r u s) = next_ref s"
  "next_chan (removeRecordLocked r u s) = next_chan s"
  "closed (removeRecordLocked r u s) = closed s"
  by (simp_all add: removeRecordLocked_def Let_def split: option.splits)

lemma stamp_container_frame [simp, store_simps]:
  "ttl (stamp_container u w i s) = ttl s" "maxWaiters (stamp_container u w i s) = maxWaiters s"
  "pods (stamp_container u w i s) = pods s" "byNode (stamp_container u w i s) = byNode s"
  "byPodName (stamp_container u w i s) = byPodName s"
  "byPodIP (stamp_container u w i s) = byPodIP s"
  "ipClaimants (stamp_container u w i s) = ipClaimants s"
  "waiters (stamp_container u w i s) = waiters s" "nWaiters (stamp_container u w i s) = nWaiters s"
  "nExternal (stamp_container u w i s) = nExternal s"
  "draining (stamp_container u w i s) = draining s" "ipSeq (stamp_container u w i s) = ipSeq s"
  "gen (stamp_container u w i s) = gen s" "nodeGen (stamp_container u w i s) = nodeGen s"
  "heap (stamp_container u w i s) = heap s" "next_ref (stamp_container u w i s) = next_ref s"
  "next_chan (stamp_container u w i s) = next_chan s" "closed (stamp_container u w i s) = closed s"
  by (simp_all add: stamp_container_def Let_def split: option.splits)

lemma stamp_containers_frame [simp, store_simps]:
  "ttl (fold (stamp_container u w) ids s) = ttl s"
  "maxWaiters (fold (stamp_container u w) ids s) = maxWaiters s"
  "pods (fold (stamp_container u w) ids s) = pods s"
  "byNode (fold (stamp_container u w) ids s) = byNode s"
  "byPodName (fold (stamp_container u w) ids s) = byPodName s"
  "byPodIP (fold (stamp_container u w) ids s) = byPodIP s"
  "ipClaimants (fold (stamp_container u w) ids s) = ipClaimants s"
  "waiters (fold (stamp_container u w) ids s) = waiters s"
  "nWaiters (fold (stamp_container u w) ids s) = nWaiters s"
  "nExternal (fold (stamp_container u w) ids s) = nExternal s"
  "draining (fold (stamp_container u w) ids s) = draining s"
  "ipSeq (fold (stamp_container u w) ids s) = ipSeq s"
  "gen (fold (stamp_container u w) ids s) = gen s"
  "nodeGen (fold (stamp_container u w) ids s) = nodeGen s"
  "heap (fold (stamp_container u w) ids s) = heap s"
  "next_ref (fold (stamp_container u w) ids s) = next_ref s"
  "next_chan (fold (stamp_container u w) ids s) = next_chan s"
  "closed (fold (stamp_container u w) ids s) = closed s"
  by (rule fold_frame, simp)+

lemma delete_record_frame [simp, store_simps]:
  "ttl (delete_record now u r s) = ttl s" "maxWaiters (delete_record now u r s) = maxWaiters s"
  "waiters (delete_record now u r s) = waiters s" "nWaiters (delete_record now u r s) = nWaiters s"
  "nExternal (delete_record now u r s) = nExternal s"
  "draining (delete_record now u r s) = draining s" "ipSeq (delete_record now u r s) = ipSeq s"
  "gen (delete_record now u r s) = gen s" "nodeGen (delete_record now u r s) = nodeGen s"
  "next_ref (delete_record now u r s) = next_ref s"
  "next_chan (delete_record now u r s) = next_chan s" "closed (delete_record now u r s) = closed s"
  by (simp_all add: delete_record_def Let_def split: option.splits)

lemma deletePodLocked_frame [simp, store_simps]:
  "ttl (deletePodLocked now u s) = ttl s" "maxWaiters (deletePodLocked now u s) = maxWaiters s"
  "waiters (deletePodLocked now u s) = waiters s" "nWaiters (deletePodLocked now u s) = nWaiters s"
  "nExternal (deletePodLocked now u s) = nExternal s"
  "draining (deletePodLocked now u s) = draining s" "ipSeq (deletePodLocked now u s) = ipSeq s"
  "next_ref (deletePodLocked now u s) = next_ref s"
  "next_chan (deletePodLocked now u s) = next_chan s" "closed (deletePodLocked now u s) = closed s"
  by (simp_all add: deletePodLocked_def Let_def split: option.splits)

lemma index_one_frame [simp, store_simps]:
  "ttl (index_one u ic s) = ttl s" "maxWaiters (index_one u ic s) = maxWaiters s"
  "pods (index_one u ic s) = pods s" "byNode (index_one u ic s) = byNode s"
  "byPodName (index_one u ic s) = byPodName s" "byPodIP (index_one u ic s) = byPodIP s"
  "ipClaimants (index_one u ic s) = ipClaimants s" "nExternal (index_one u ic s) = nExternal s"
  "draining (index_one u ic s) = draining s" "ipSeq (index_one u ic s) = ipSeq s"
  "pending (index_one u ic s) = pending s" "gen (index_one u ic s) = gen s"
  "nodeGen (index_one u ic s) = nodeGen s" "heap (index_one u ic s) = heap s"
  "next_ref (index_one u ic s) = next_ref s" "next_chan (index_one u ic s) = next_chan s"
  by (simp_all add: index_one_def Let_def split: prod.splits)

lemma index_all_frame [simp, store_simps]:
  "ttl (fold (index_one u) ics s) = ttl s" "maxWaiters (fold (index_one u) ics s) = maxWaiters s"
  "pods (fold (index_one u) ics s) = pods s" "byNode (fold (index_one u) ics s) = byNode s"
  "byPodName (fold (index_one u) ics s) = byPodName s"
  "byPodIP (fold (index_one u) ics s) = byPodIP s"
  "ipClaimants (fold (index_one u) ics s) = ipClaimants s"
  "nExternal (fold (index_one u) ics s) = nExternal s"
  "draining (fold (index_one u) ics s) = draining s" "ipSeq (fold (index_one u) ics s) = ipSeq s"
  "pending (fold (index_one u) ics s) = pending s" "gen (fold (index_one u) ics s) = gen s"
  "nodeGen (fold (index_one u) ics s) = nodeGen s" "heap (fold (index_one u) ics s) = heap s"
  "next_ref (fold (index_one u) ics s) = next_ref s"
  "next_chan (fold (index_one u) ics s) = next_chan s"
  by (rule fold_frame, simp)+

lemma retire_one_frame [simp, store_simps]:
  "ttl (retire_one now u ids i s) = ttl s" "maxWaiters (retire_one now u ids i s) = maxWaiters s"
  "pods (retire_one now u ids i s) = pods s" "byNode (retire_one now u ids i s) = byNode s"
  "byPodName (retire_one now u ids i s) = byPodName s"
  "byPodIP (retire_one now u ids i s) = byPodIP s"
  "ipClaimants (retire_one now u ids i s) = ipClaimants s"
  "waiters (retire_one now u ids i s) = waiters s"
  "nWaiters (retire_one now u ids i s) = nWaiters s"
  "nExternal (retire_one now u ids i s) = nExternal s"
  "draining (retire_one now u ids i s) = draining s" "ipSeq (retire_one now u ids i s) = ipSeq s"
  "gen (retire_one now u ids i s) = gen s" "nodeGen (retire_one now u ids i s) = nodeGen s"
  "heap (retire_one now u ids i s) = heap s" "next_ref (retire_one now u ids i s) = next_ref s"
  "next_chan (retire_one now u ids i s) = next_chan s"
  "closed (retire_one now u ids i s) = closed s"
  by (simp_all add: retire_one_def Let_def split: option.splits)

lemma retire_all_frame [simp, store_simps]:
  "ttl (fold (retire_one now u ids) is s) = ttl s"
  "maxWaiters (fold (retire_one now u ids) is s) = maxWaiters s"
  "pods (fold (retire_one now u ids) is s) = pods s"
  "byNode (fold (retire_one now u ids) is s) = byNode s"
  "byPodName (fold (retire_one now u ids) is s) = byPodName s"
  "byPodIP (fold (retire_one now u ids) is s) = byPodIP s"
  "ipClaimants (fold (retire_one now u ids) is s) = ipClaimants s"
  "waiters (fold (retire_one now u ids) is s) = waiters s"
  "nWaiters (fold (retire_one now u ids) is s) = nWaiters s"
  "nExternal (fold (retire_one now u ids) is s) = nExternal s"
  "draining (fold (retire_one now u ids) is s) = draining s"
  "ipSeq (fold (retire_one now u ids) is s) = ipSeq s"
  "gen (fold (retire_one now u ids) is s) = gen s"
  "nodeGen (fold (retire_one now u ids) is s) = nodeGen s"
  "heap (fold (retire_one now u ids) is s) = heap s"
  "next_ref (fold (retire_one now u ids) is s) = next_ref s"
  "next_chan (fold (retire_one now u ids) is s) = next_chan s"
  "closed (fold (retire_one now u ids) is s) = closed s"
  by (rule fold_frame, simp)+

lemma indexContainersLocked_frame [simp, store_simps]:
  "ttl (indexContainersLocked now r u cs old s) = ttl s"
  "maxWaiters (indexContainersLocked now r u cs old s) = maxWaiters s"
  "pods (indexContainersLocked now r u cs old s) = pods s"
  "byNode (indexContainersLocked now r u cs old s) = byNode s"
  "byPodName (indexContainersLocked now r u cs old s) = byPodName s"
  "byPodIP (indexContainersLocked now r u cs old s) = byPodIP s"
  "ipClaimants (indexContainersLocked now r u cs old s) = ipClaimants s"
  "nExternal (indexContainersLocked now r u cs old s) = nExternal s"
  "draining (indexContainersLocked now r u cs old s) = draining s"
  "ipSeq (indexContainersLocked now r u cs old s) = ipSeq s"
  "gen (indexContainersLocked now r u cs old s) = gen s"
  "nodeGen (indexContainersLocked now r u cs old s) = nodeGen s"
  "next_ref (indexContainersLocked now r u cs old s) = next_ref s"
  "next_chan (indexContainersLocked now r u cs old s) = next_chan s"
  by (simp_all add: indexContainersLocked_def Let_def split: option.splits)

lemma take_name_frame [simp, store_simps]:
  "ttl (take_name now k r s) = ttl s" "maxWaiters (take_name now k r s) = maxWaiters s"
  "waiters (take_name now k r s) = waiters s" "nWaiters (take_name now k r s) = nWaiters s"
  "nExternal (take_name now k r s) = nExternal s" "draining (take_name now k r s) = draining s"
  "ipSeq (take_name now k r s) = ipSeq s" "next_ref (take_name now k r s) = next_ref s"
  "next_chan (take_name now k r s) = next_chan s" "closed (take_name now k r s) = closed s"
  by (simp_all add: take_name_def Let_def split: option.splits)

lemma fill_record_frame [simp, store_simps]:
  "ttl (fill_record p r s) = ttl s" "maxWaiters (fill_record p r s) = maxWaiters s"
  "pods (fill_record p r s) = pods s" "byContainer (fill_record p r s) = byContainer s"
  "byNode (fill_record p r s) = byNode s" "byPodName (fill_record p r s) = byPodName s"
  "byPodIP (fill_record p r s) = byPodIP s" "ipClaimants (fill_record p r s) = ipClaimants s"
  "waiters (fill_record p r s) = waiters s" "nWaiters (fill_record p r s) = nWaiters s"
  "nExternal (fill_record p r s) = nExternal s" "draining (fill_record p r s) = draining s"
  "ipSeq (fill_record p r s) = ipSeq s" "pending (fill_record p r s) = pending s"
  "gen (fill_record p r s) = gen s" "nodeGen (fill_record p r s) = nodeGen s"
  "next_ref (fill_record p r s) = next_ref s" "next_chan (fill_record p r s) = next_chan s"
  "closed (fill_record p r s) = closed s"
  by (simp_all add: fill_record_def Let_def split: option.splits)

lemma count_omitted_frame [simp, store_simps]:
  "ttl (count_omitted pod s) = ttl s" "maxWaiters (count_omitted pod s) = maxWaiters s"
  "pods (count_omitted pod s) = pods s" "byContainer (count_omitted pod s) = byContainer s"
  "byNode (count_omitted pod s) = byNode s" "byPodName (count_omitted pod s) = byPodName s"
  "byPodIP (count_omitted pod s) = byPodIP s" "ipClaimants (count_omitted pod s) = ipClaimants s"
  "waiters (count_omitted pod s) = waiters s" "nWaiters (count_omitted pod s) = nWaiters s"
  "nExternal (count_omitted pod s) = nExternal s" "draining (count_omitted pod s) = draining s"
  "ipSeq (count_omitted pod s) = ipSeq s" "pending (count_omitted pod s) = pending s"
  "gen (count_omitted pod s) = gen s" "nodeGen (count_omitted pod s) = nodeGen s"
  "heap (count_omitted pod s) = heap s" "next_ref (count_omitted pod s) = next_ref s"
  "next_chan (count_omitted pod s) = next_chan s" "closed (count_omitted pod s) = closed s"
  by (simp_all add: count_omitted_def Let_def split: option.splits)

lemma sweepContainerLocked_frame [simp, store_simps]:
  "ttl (sweepContainerLocked now i s) = ttl s"
  "maxWaiters (sweepContainerLocked now i s) = maxWaiters s"
  "pods (sweepContainerLocked now i s) = pods s" "byNode (sweepContainerLocked now i s) = byNode s"
  "byPodName (sweepContainerLocked now i s) = byPodName s"
  "byPodIP (sweepContainerLocked now i s) = byPodIP s"
  "ipClaimants (sweepContainerLocked now i s) = ipClaimants s"
  "waiters (sweepContainerLocked now i s) = waiters s"
  "nWaiters (sweepContainerLocked now i s) = nWaiters s"
  "nExternal (sweepContainerLocked now i s) = nExternal s"
  "draining (sweepContainerLocked now i s) = draining s"
  "ipSeq (sweepContainerLocked now i s) = ipSeq s"
  "pending (sweepContainerLocked now i s) = pending s" "gen (sweepContainerLocked now i s) = gen s"
  "nodeGen (sweepContainerLocked now i s) = nodeGen s"
  "heap (sweepContainerLocked now i s) = heap s"
  "next_ref (sweepContainerLocked now i s) = next_ref s"
  "next_chan (sweepContainerLocked now i s) = next_chan s"
  "closed (sweepContainerLocked now i s) = closed s"
  by (simp_all add: sweepContainerLocked_def Let_def split: option.splits)

lemma sweepPodLocked_frame [simp, store_simps]:
  "ttl (sweepPodLocked now u s) = ttl s" "maxWaiters (sweepPodLocked now u s) = maxWaiters s"
  "byNode (sweepPodLocked now u s) = byNode s" "byPodIP (sweepPodLocked now u s) = byPodIP s"
  "waiters (sweepPodLocked now u s) = waiters s" "nWaiters (sweepPodLocked now u s) = nWaiters s"
  "nExternal (sweepPodLocked now u s) = nExternal s"
  "draining (sweepPodLocked now u s) = draining s" "ipSeq (sweepPodLocked now u s) = ipSeq s"
  "pending (sweepPodLocked now u s) = pending s" "gen (sweepPodLocked now u s) = gen s"
  "nodeGen (sweepPodLocked now u s) = nodeGen s" "heap (sweepPodLocked now u s) = heap s"
  "next_ref (sweepPodLocked now u s) = next_ref s"
  "next_chan (sweepPodLocked now u s) = next_chan s" "closed (sweepPodLocked now u s) = closed s"
  by (simp_all add: sweepPodLocked_def Let_def split: option.splits)

lemma heap_set_rec [simp, store_simps]: "heap (set_rec r v s) = (heap s)(r := v)"
  by (simp add: set_rec_def)

text \<open>The claim path changes nothing of a record but its acquisition sequence.\<close>
lemma claimOneIPLocked_core [store_simps]:
  "(heap (claimOneIPLocked r old ne ip s) x)\<lparr>r_ipSeq := 0\<rparr> = (heap s x)\<lparr>r_ipSeq := 0\<rparr>"
  by (simp add: claimOneIPLocked_def Let_def split: option.splits)

lemma claimPodIPLocked_core [store_simps]:
  "(heap (claimPodIPLocked r pod old ne s) x)\<lparr>r_ipSeq := 0\<rparr> = (heap s x)\<lparr>r_ipSeq := 0\<rparr>"
  using fold_frame [of "\<lambda>s. (heap s x)\<lparr>r_ipSeq := 0\<rparr>" "claimOneIPLocked r old ne" "podAddresses pod" s]
  by (simp add: claimPodIPLocked_def Let_def claimOneIPLocked_core)

lemma core_eqD:
  assumes "a\<lparr>r_ipSeq := 0\<rparr> = b\<lparr>r_ipSeq := 0\<rparr>"
  shows "r_pod a = r_pod b" "r_expireAt a = r_expireAt b" "r_containerIDs a = r_containerIDs b"
    "r_ownerRefs a = r_ownerRefs b" "r_terminating a = r_terminating b"
    "r_resourceVersion a = r_resourceVersion b"
  using assms by (metis srecord.select_convs srecord.surjective srecord.update_convs(7))+

lemmas claimOneIPLocked_fields [simp] = core_eqD [OF claimOneIPLocked_core]
lemmas claimPodIPLocked_fields [simp] = core_eqD [OF claimPodIPLocked_core]

end
