(* ===== verification/StoreIP.thy ===== *)
theory StoreIP
  imports StoreFrames
begin

section \<open>The pod-IP index: claims, holders and precedence\<close>

text \<open>
  What the claim, release and promotion paths of \<^verbatim>\<open>podip.go\<close> do to the two maps of the index.
  The relation between records and the addresses they claim is an explicit parameter \<open>K\<close>, so that
  the lemmas also speak about the states in the middle of an upsert.
\<close>

subsection \<open>The addresses of a pod\<close>

lemma raw_loop_eq: "raw_loop seen ips = seen @ map Canonical ips"
  by (induction ips arbitrary: seen) (auto simp: Let_def)

lemma addr_loop_eq: "addr_loop host seen ips = seen @ filter (\<lambda>ip. ip \<noteq> [] \<and> ip \<noteq> host) ips"
  by (induction ips arbitrary: seen) auto

lemma podAddresses_raw: "ip \<in> set (podAddresses pod) \<Longrightarrow> ip \<in> set (rawIPs pod)"
  by (simp add: podAddresses_def addr_loop_eq split: if_splits)

lemma podAddresses_nonempty: "ip \<in> set (podAddresses pod) \<Longrightarrow> ip \<noteq> []"
  by (auto simp: podAddresses_def addr_loop_eq split: if_splits)

subsection \<open>Claims and holders\<close>

text \<open>The UID a record is filed under, and whether it may hold an address.\<close>
abbreviation U :: "store \<Rightarrow> ref \<Rightarrow> uid" where
  "U s r \<equiv> pod_UID (r_pod (at s r))"

abbreviation live :: "store \<Rightarrow> ref \<Rightarrow> bool" where
  "live s r \<equiv> r_expireAt (at s r) = 0"

definition elig :: "store \<Rightarrow> string \<Rightarrow> ref \<Rightarrow> bool" where
  "elig s ip r \<longleftrightarrow> live s r \<and> ip \<in> set (podAddresses (r_pod (at s r)))"

abbreviation claimants :: "store \<Rightarrow> string \<Rightarrow> (uid, ref) gomap" where
  "claimants s ip \<equiv> get_map (ipClaimants s) ip"

text \<open>
  The claims of the index are the relation \<open>K\<close> (the addresses each record claims), every holder
  is a claimant, and an address that an eligible record claims has a holder.
\<close>
definition claims :: "(ref \<Rightarrow> string set) \<Rightarrow> store \<Rightarrow> bool" where
  "claims K s \<longleftrightarrow>
     (\<forall>ip uid r. get (claimants s ip) uid = Some r \<longleftrightarrow> uid = U s r \<and> ip \<in> K r) \<and>
     (\<forall>ip. wf_map (claimants s ip)) \<and>
     (\<forall>ip. get (ipClaimants s) ip \<noteq> Some []) \<and>
     (\<forall>ip r. get (byPodIP s) ip = Some r \<longrightarrow> ip \<in> K r) \<and>
     (\<forall>ip r. ip \<in> K r \<and> elig s ip r \<longrightarrow> get (byPodIP s) ip \<noteq> None)"

lemma claimsD:
  assumes "claims K s"
  shows "get (claimants s ip) uid = Some r \<longleftrightarrow> uid = U s r \<and> ip \<in> K r"
    "wf_map (claimants s ip)" "get (ipClaimants s) ip \<noteq> Some []"
    "get (byPodIP s) ip = Some r \<Longrightarrow> ip \<in> K r"
    "ip \<in> K r \<Longrightarrow> elig s ip r \<Longrightarrow> get (byPodIP s) ip \<noteq> None"
  using assms unfolding claims_def by blast+

lemma claimsI:
  assumes "\<And>ip uid r. get (claimants s ip) uid = Some r \<longleftrightarrow> uid = U s r \<and> ip \<in> K r"
    and "\<And>ip. wf_map (claimants s ip)" and "\<And>ip. get (ipClaimants s) ip \<noteq> Some []"
    and "\<And>ip r. get (byPodIP s) ip = Some r \<Longrightarrow> ip \<in> K r"
    and "\<And>ip r. ip \<in> K r \<Longrightarrow> elig s ip r \<Longrightarrow> get (byPodIP s) ip \<noteq> None"
  shows "claims K s"
  unfolding claims_def by (intro conjI allI impI; (elim conjE)?; rule assms; assumption?)

text \<open>Two records with a common address never share a UID.\<close>
lemma claims_inj: "claims K s \<Longrightarrow> ip \<in> K r \<Longrightarrow> ip \<in> K r' \<Longrightarrow> U s r = U s r' \<Longrightarrow> r = r'"
  by (metis claimsD(1) option.inject)

lemma claims_cong:
  assumes "ipClaimants s' = ipClaimants s" "byPodIP s' = byPodIP s"
    "\<And>r. K r \<noteq> {} \<Longrightarrow> U s' r = U s r" "\<And>ip r. ip \<in> K r \<Longrightarrow> elig s' ip r \<Longrightarrow> elig s ip r"
    and c: "claims K s"
  shows "claims K s'"
proof (rule claimsI)
  fix ip uid r
  show "get (claimants s' ip) uid = Some r \<longleftrightarrow> uid = U s' r \<and> ip \<in> K r"
    using claimsD(1) [OF c, of ip uid r] assms(3) [of r] by (cases "ip \<in> K r") (force simp: assms(1))+
qed (use claimsD [OF c] assms in \<open>auto simp only:\<close>)

lemma del_Nil: "del k m = [] \<Longrightarrow> k' \<noteq> k \<Longrightarrow> get m k' = None"
  by (metis get_del map_of.simps(1))

lemma dropClaimantLocked_get:
  "get (claimants (dropClaimantLocked ip r s) ip') uid =
     (if ip' = ip \<and> uid = U s r \<and> get (claimants s ip) uid = Some r then None else get (claimants s ip') uid)"
  by (auto simp: dropClaimantLocked_def Let_def get_map_def dest: del_Nil split: option.splits if_splits)

lemma alist_values: "wf_map m \<Longrightarrow> v \<in> snd ` set m \<longleftrightarrow> (\<exists>k. get m k = Some v)"
  by (metis (no_types, lifting) alist.range_look image_iff prod.collapse snd_conv)

lemma set_claimants:
  assumes "claims K s"
  shows "r \<in> snd ` set (claimants s ip) \<longleftrightarrow> ip \<in> K r"
  using alist_values [OF claimsD(2) [OF assms, of ip]] by (simp add: claimsD(1) [OF assms])

lemma dropClaimantLocked_claims:
  assumes "claims K s"
  shows "get (claimants (dropClaimantLocked ip r s) ip') uid = Some x \<longleftrightarrow>
      uid = U s x \<and> ip' \<in> (K(r := K r - {ip})) x"
    "wf_map (claimants (dropClaimantLocked ip r s) ip')"
    "get (ipClaimants (dropClaimantLocked ip r s)) ip' \<noteq> Some []"
proof -
  show "get (claimants (dropClaimantLocked ip r s) ip') uid = Some x \<longleftrightarrow>
      uid = U s x \<and> ip' \<in> (K(r := K r - {ip})) x"
    using claims_inj [OF assms, of ip x r]
    by (auto simp: dropClaimantLocked_get claimsD(1) [OF assms])
  show "wf_map (claimants (dropClaimantLocked ip r s) ip')"
    using claimsD(2) [OF assms, of ip] claimsD(2) [OF assms, of ip']
    by (auto simp: dropClaimantLocked_def Let_def get_map_def split: option.splits if_splits)
  show "get (ipClaimants (dropClaimantLocked ip r s)) ip' \<noteq> Some []"
    using claimsD(3) [OF assms]
    by (auto simp: dropClaimantLocked_def Let_def split: option.splits if_splits)
qed

subsection \<open>Promotion picks the latest acquirer\<close>

abbreviation seq :: "store \<Rightarrow> ref \<Rightarrow> u64" where
  "seq s r \<equiv> r_ipSeq (at s r)"

lemma pick_claimant_props:
  "(pick_claimant s ip skip rs pick = None \<longleftrightarrow>
      pick = None \<and> (\<forall>x \<in> set rs. x = skip \<or> \<not> elig s ip x)) \<and>
   (\<forall>r. pick_claimant s ip skip rs pick = Some r \<longrightarrow>
      (pick = Some r \<or> r \<in> set rs \<and> r \<noteq> skip \<and> elig s ip r) \<and>
      (\<forall>c. pick = Some c \<longrightarrow> seq s c \<le> seq s r) \<and>
      (\<forall>x \<in> set rs. x \<noteq> skip \<and> elig s ip x \<longrightarrow> seq s x \<le> seq s r))"
proof (induction rs arbitrary: pick)
  case (Cons x rs)
  show ?case
  proof (cases "x = skip \<or> \<not> elig s ip x")
    case True
    then have "pick_claimant s ip skip (x # rs) pick = pick_claimant s ip skip rs pick"
      by (auto simp: elig_def)
    with Cons.IH [of pick] True show ?thesis by auto
  next
    case False
    then have *: "pick_claimant s ip skip (x # rs) pick = pick_claimant s ip skip rs
        (case pick of None \<Rightarrow> Some x | Some c \<Rightarrow> if seq s x > seq s c then Some x else pick)"
      by (auto simp: elig_def beatsClaimant_def split: option.splits)
    show ?thesis
    proof (cases pick)
      case None
      with Cons.IH [of "Some x"] * False show ?thesis by auto
    next
      case (Some c)
      with Cons.IH [of "Some (if seq s x > seq s c then x else c)"] * False show ?thesis
        by (auto split: if_splits)
    qed
  qed
qed simp

subsection \<open>Release\<close>

definition precedence :: "(ref \<Rightarrow> string set) \<Rightarrow> store \<Rightarrow> bool" where
  "precedence K s \<longleftrightarrow>
     (\<forall>ip h r. get (byPodIP s) ip = Some h \<and> ip \<in> K r \<and> elig s ip r \<longrightarrow> seq s r \<le> seq s h)"

lemma precedenceI:
  "(\<And>ip h r. get (byPodIP s) ip = Some h \<Longrightarrow> ip \<in> K r \<Longrightarrow> elig s ip r \<Longrightarrow> seq s r \<le> seq s h) \<Longrightarrow>
     precedence K s"
  unfolding precedence_def by blast

lemma elig_frame: "heap s' = heap s \<Longrightarrow> elig s' ip r = elig s ip r"
  by (simp add: elig_def)

text \<open>What a release leaves in the holder index of the address.\<close>
lemma releaseIPLocked_holder:
  assumes "claims K s"
  shows "get (byPodIP (releaseIPLocked r ip s)) ip' =
     (if ip' = ip \<and> get (byPodIP s) ip = Some r
      then pick_claimant s ip r (map snd (claimants (dropClaimantLocked ip r s) ip)) None
      else get (byPodIP s) ip')"
proof -
  have pick: "pick_claimant s' ip skip rs pick = pick_claimant s ip skip rs pick"
    if "heap s' = heap s" for s' ip skip rs pick
    using that by (induction rs arbitrary: pick) (auto simp: beatsClaimant_def split: option.splits)
  show ?thesis
    using pick [of "dropClaimantLocked ip r s\<lparr>byPodIP := del ip (byPodIP s)\<rparr>" ip r
        "map snd (claimants (dropClaimantLocked ip r s) ip)" None]
    by (simp add: releaseIPLocked_def Let_def promoteIPClaimantLocked_def split: option.splits)
qed

lemma releaseIPLocked_claimants [simp]:
  "ipClaimants (releaseIPLocked r ip s) = ipClaimants (dropClaimantLocked ip r s)"
  by (auto simp: releaseIPLocked_def Let_def promoteIPClaimantLocked_def split: option.splits)

lemma releaseIPLocked_claims:
  assumes "claims K s"
  shows "claims (K(r := K r - {ip})) (releaseIPLocked r ip s)"
    and "precedence K s \<Longrightarrow> precedence (K(r := K r - {ip})) (releaseIPLocked r ip s)"
proof -
  let ?K = "K(r := K r - {ip})" and ?s = "releaseIPLocked r ip s"
  let ?rs = "map snd (claimants (dropClaimantLocked ip r s) ip)"
  have rs: "x \<in> set ?rs \<longleftrightarrow> ip \<in> ?K x" for x
    unfolding set_map using alist_values [OF dropClaimantLocked_claims(2) [OF assms, of ip r ip]]
      dropClaimantLocked_claims(1) [OF assms, of ip r ip] by simp
  note P = pick_claimant_props [of s ip r ?rs None]
  note H = releaseIPLocked_holder [OF assms, of r ip]
  have elig: "elig ?s = elig s" by (simp add: fun_eq_iff elig_def)
  have held: "ip' \<in> ?K h" if "get (byPodIP ?s) ip' = Some h" for ip' h
  proof (cases "ip' = ip \<and> get (byPodIP s) ip = Some r")
    case True
    with that P rs show ?thesis by (auto simp: H)
  next
    case False
    with that claimsD(4) [OF assms, of ip' h] show ?thesis by (auto simp: H)
  qed
  have holder: "get (byPodIP ?s) ip' \<noteq> None" if "ip' \<in> ?K x" "elig s ip' x" for ip' x
  proof (cases "ip' = ip \<and> get (byPodIP s) ip = Some r")
    case True
    with that have "x \<noteq> r" "x \<in> set ?rs" using rs [of x] by auto
    with True that P show ?thesis by (auto simp: H)
  next
    case False
    with that claimsD(5) [OF assms, of ip' x] show ?thesis by (auto simp: H split: if_splits)
  qed
  show "claims ?K ?s"
    using dropClaimantLocked_claims [OF assms, of ip r] held holder
    by (intro claimsI) (simp_all only: releaseIPLocked_claimants releaseIPLocked_frame elig, simp_all)
  assume prec: "precedence K s"
  have "seq s x \<le> seq s h" if "get (byPodIP ?s) ip' = Some h" "ip' \<in> ?K x" "elig s ip' x" for ip' h x
  proof (cases "ip' = ip \<and> get (byPodIP s) ip = Some r")
    case True
    with that have "x \<noteq> r" "x \<in> set ?rs" using rs [of x] by auto
    with True that P show ?thesis by (auto simp: H)
  next
    case False
    with that prec show ?thesis by (auto simp: H precedence_def split: if_splits)
  qed
  then show "precedence ?K ?s" by (intro precedenceI) (simp only: elig releaseIPLocked_frame)
qed

lemma release_all_claims:
  assumes "claims K s"
  shows "claims (K(r := K r - set ips)) (fold (releaseIPLocked r) ips s)"
    and "precedence K s \<Longrightarrow> precedence (K(r := K r - set ips)) (fold (releaseIPLocked r) ips s)"
proof -
  have "claims (K(r := K r - set ips)) (fold (releaseIPLocked r) ips s) \<and>
    (precedence K s \<longrightarrow> precedence (K(r := K r - set ips)) (fold (releaseIPLocked r) ips s))"
    using assms
  proof (induction ips arbitrary: K s)
    case (Cons ip ips)
    have K: "(K(r := K r - {ip}))(r := (K(r := K r - {ip})) r - set ips) = K(r := K r - set (ip # ips))"
      by (auto simp: fun_eq_iff)
    show ?case
      using Cons.IH [OF releaseIPLocked_claims(1) [OF Cons.prems, of r ip]]
        releaseIPLocked_claims(2) [OF Cons.prems, of r ip]
      unfolding K by (simp only: fold_simps comp_apply) blast
  qed simp
  then show "claims (K(r := K r - set ips)) (fold (releaseIPLocked r) ips s)"
    and "precedence K s \<Longrightarrow> precedence (K(r := K r - set ips)) (fold (releaseIPLocked r) ips s)"
    by blast+
qed

subsection \<open>Claim\<close>

lemma claimOneIPLocked_claimants [simp]:
  "ipClaimants (claimOneIPLocked r old ne ip s) = ipClaimants (addClaimantLocked ip r s)"
  by (auto simp: claimOneIPLocked_def Let_def split: option.splits)

definition acquires :: "string list \<Rightarrow> bool \<Rightarrow> string \<Rightarrow> bool" where
  "acquires old ne ip \<longleftrightarrow> \<not> ne \<and> ip \<notin> set old"

lemma claimOneIPLocked_seq:
  "seq (claimOneIPLocked r old ne ip s) x = (if x = r \<and> acquires old ne ip then ipSeq s + 1 else seq s x)"
  "ipSeq (claimOneIPLocked r old ne ip s) = (if acquires old ne ip then ipSeq s + 1 else ipSeq s)"
  by (auto simp: claimOneIPLocked_def Let_def acquires_def split: option.splits)

lemma claimOneIPLocked_holder:
  "get (byPodIP (claimOneIPLocked r old ne ip s)) ip' =
     (if ip' \<noteq> ip then get (byPodIP s) ip'
      else Some (case get (byPodIP s) ip of
             None \<Rightarrow> r
           | Some cur \<Rightarrow>
               if cur = r \<or> (if acquires old ne ip then ipSeq s + 1 else seq s r) > seq s cur then r else cur))"
  by (auto simp: claimOneIPLocked_def Let_def acquires_def beatsClaimant_def split: option.splits)

lemma claimOneIPLocked_elig: "elig (claimOneIPLocked r old ne ip s) = elig s"
  by (simp add: fun_eq_iff elig_def)

lemma claimOneIPLocked_claims:
  assumes "claims K s" and inj: "\<And>x. ip \<in> K x \<Longrightarrow> U s x = U s r \<Longrightarrow> x = r"
  shows "claims (K(r := insert ip (K r))) (claimOneIPLocked r old ne ip s)"
proof (rule claimsI)
  let ?s = "claimOneIPLocked r old ne ip s"
  fix ip' uid x
  show "get (claimants ?s ip') uid = Some x \<longleftrightarrow> uid = U ?s x \<and> ip' \<in> (K(r := insert ip (K r))) x"
    using inj [of x] claimsD(1) [OF assms(1), of ip' uid x] claimsD(1) [OF assms(1), of ip uid x]
    by (auto simp: addClaimantLocked_def split: if_splits)
  show "wf_map (claimants ?s ip')"
    using claimsD(2) [OF assms(1), of ip'] claimsD(2) [OF assms(1), of ip]
    by (simp add: addClaimantLocked_def)
  have "put k v m \<noteq> []" for k :: uid and v :: ref and m by (cases m) auto
  then show "get (ipClaimants ?s) ip' \<noteq> Some []"
    using claimsD(3) [OF assms(1), of ip'] by (auto simp: addClaimantLocked_def)
  show "ip' \<in> (K(r := insert ip (K r))) x" if "get (byPodIP ?s) ip' = Some x"
    using that claimsD(4) [OF assms(1), of ip' x]
    by (auto simp: claimOneIPLocked_holder split: if_splits option.splits)
  show "get (byPodIP ?s) ip' \<noteq> None" if "ip' \<in> (K(r := insert ip (K r))) x" "elig ?s ip' x"
    using that claimsD(5) [OF assms(1), of ip' x]
    by (auto simp: claimOneIPLocked_holder claimOneIPLocked_elig split: if_splits)
qed

text \<open>A record that re-asserts an address does not change who comes first.\<close>
lemma claimOneIPLocked_keeps:
  assumes "claims K s" "precedence K s" "\<not> acquires old ne ip"
  shows "precedence (K(r := insert ip (K r))) (claimOneIPLocked r old ne ip s)"
proof (rule precedenceI)
  let ?s = "claimOneIPLocked r old ne ip s"
  fix ip' h x
  assume h: "get (byPodIP ?s) ip' = Some h" and x: "ip' \<in> (K(r := insert ip (K r))) x" "elig ?s ip' x"
  have seq: "seq ?s y = seq s y" for y using assms(3) by (simp add: claimOneIPLocked_seq)
  have x': "elig s ip' x" using x by (simp add: claimOneIPLocked_elig)
  have le: "seq s x \<le> seq s c" if "get (byPodIP s) ip' = Some c" "ip' \<in> K x" for c
    using assms(2) that x' by (auto simp: precedence_def)
  show "seq ?s x \<le> seq ?s h"
  proof (cases "ip' = ip")
    case True
    have Kx: "x = r \<or> ip \<in> K x" using x(1) True by (auto split: if_splits)
    show ?thesis
    proof (cases "get (byPodIP s) ip")
      case None
      then have "x = r" using Kx claimsD(5) [OF assms(1), of ip x] x' True by auto
      with h None True show ?thesis by (simp add: claimOneIPLocked_holder)
    next
      case (Some c)
      have "x = r \<or> seq s x \<le> seq s c" using Kx le Some True by blast
      then show ?thesis
        using h Some True assms(3) by (auto simp: claimOneIPLocked_holder seq split: if_splits)
    qed
  next
    case False
    with h x le show ?thesis by (auto simp: claimOneIPLocked_holder seq split: if_splits)
  qed
qed

text \<open>Every sequence was minted by the store's counter.\<close>
definition minted :: "store \<Rightarrow> bool" where
  "minted s \<longleftrightarrow> (\<forall>x. seq s x \<le> ipSeq s)"

text \<open>An address a record claims and may hold is held by it.\<close>
definition holds_own :: "(ref \<Rightarrow> string set) \<Rightarrow> ref \<Rightarrow> store \<Rightarrow> bool" where
  "holds_own K r s \<longleftrightarrow> (\<forall>ip \<in> K r. elig s ip r \<longrightarrow> get (byPodIP s) ip = Some r)"

lemma word_less_succ: "unat (w :: u64) + 1 < 2 ^ 64 \<Longrightarrow> v \<le> w \<Longrightarrow> v < w + 1"
  by (simp add: word_less_nat_alt word_le_nat_alt unat_word_ariths)

lemma unat_succ: "unat (w :: u64) + 1 < 2 ^ 64 \<Longrightarrow> unat (w + 1) = unat w + 1"
  by (simp add: unat_word_ariths)

lemma claimOneIPLocked_minted:
  assumes "minted s" "unat (ipSeq s) + 1 < 2 ^ 64"
  shows "minted (claimOneIPLocked r old ne ip s)"
  unfolding minted_def
proof
  fix x
  have "seq s x \<le> ipSeq s" using assms(1) by (simp add: minted_def)
  with word_less_succ [OF assms(2)] have "seq s x \<le> ipSeq s + 1" by (simp add: order_less_imp_le)
  with \<open>seq s x \<le> ipSeq s\<close> show "seq (claimOneIPLocked r old ne ip s) x \<le> ipSeq (claimOneIPLocked r old ne ip s)"
    by (simp add: claimOneIPLocked_seq)
qed

text \<open>A genuine acquisition takes the address.\<close>
lemma claimOneIPLocked_takes:
  assumes "precedence K s" "acquires old ne ip" "minted s" "unat (ipSeq s) + 1 < 2 ^ 64" "holds_own K r s"
  shows "precedence (K(r := insert ip (K r))) (claimOneIPLocked r old ne ip s)"
    and "holds_own (K(r := insert ip (K r))) r (claimOneIPLocked r old ne ip s)"
proof -
  let ?s = "claimOneIPLocked r old ne ip s" and ?K = "K(r := insert ip (K r))"
  have less: "seq s x < ipSeq s + 1" for x
    using assms(3) by (intro word_less_succ [OF assms(4)]) (simp add: minted_def)
  then have takes: "get (byPodIP ?s) ip = Some r"
    using assms(2) by (auto simp: claimOneIPLocked_holder split: option.splits)
  have others: "get (byPodIP ?s) ip' = get (byPodIP s) ip'" if "ip' \<noteq> ip" for ip'
    using that by (simp add: claimOneIPLocked_holder)
  show own: "holds_own ?K r ?s"
    using takes others assms(5) by (auto simp: holds_own_def claimOneIPLocked_elig) metis+
  have top: "seq ?s x \<le> seq ?s r" for x
    using assms(2) less [of x] by (auto simp: claimOneIPLocked_seq)
  show "precedence ?K ?s"
  proof (rule precedenceI)
    fix ip' h x
    assume h: "get (byPodIP ?s) ip' = Some h" and x: "ip' \<in> ?K x" "elig ?s ip' x"
    show "seq ?s x \<le> seq ?s h"
    proof (cases "h = r")
      case True
      with top show ?thesis by simp
    next
      case False
      then have "x \<noteq> r" "ip' \<noteq> ip" using own h x takes by (auto simp: holds_own_def)
      then have "seq s x \<le> seq s h"
        using assms(1) h x others by (auto simp: precedence_def claimOneIPLocked_elig)
      with False \<open>x \<noteq> r\<close> show ?thesis by (simp add: claimOneIPLocked_seq)
    qed
  qed
qed

subsection \<open>All addresses of an upsert\<close>

lemma claim_all_claims:
  assumes "claims K s" and "\<And>ip x. ip \<in> set ips \<Longrightarrow> ip \<in> K x \<Longrightarrow> U s x = U s r \<Longrightarrow> x = r"
  shows "claims (K(r := K r \<union> set ips)) (fold (claimOneIPLocked r old ne) ips s)"
  using assms
proof (induction ips arbitrary: K s)
  case (Cons ip ips)
  let ?K = "K(r := insert ip (K r))"
  have K: "?K(r := ?K r \<union> set ips) = K(r := K r \<union> set (ip # ips))"
    by (simp add: fun_eq_iff)
  have "claims ?K (claimOneIPLocked r old ne ip s)"
    using Cons.prems by (intro claimOneIPLocked_claims) auto
  moreover have "x = r" if "ip' \<in> set ips" "ip' \<in> ?K x" "U s x = U s r" for ip' x
    using that Cons.prems(2) [of ip' x] by (cases "x = r") auto
  ultimately show ?case
    using Cons.IH [of ?K "claimOneIPLocked r old ne ip s"] unfolding K
    by (simp only: fold_simps comp_apply claimOneIPLocked_fields)
qed simp

lemma claim_all_elig: "elig (fold (claimOneIPLocked r old ne) ips s) = elig s"
  by (rule fold_frame) (rule claimOneIPLocked_elig)

lemma claim_all_keeps:
  assumes "claims K s" "precedence K s" "\<forall>ip \<in> set ips. \<not> acquires old ne ip"
    and "\<And>ip x. ip \<in> set ips \<Longrightarrow> ip \<in> K x \<Longrightarrow> U s x = U s r \<Longrightarrow> x = r"
  shows "precedence (K(r := K r \<union> set ips)) (fold (claimOneIPLocked r old ne) ips s)"
  using assms
proof (induction ips arbitrary: K s)
  case (Cons ip ips)
  let ?K = "K(r := insert ip (K r))"
  have K: "?K(r := ?K r \<union> set ips) = K(r := K r \<union> set (ip # ips))"
    by (simp add: fun_eq_iff)
  have 1: "claims ?K (claimOneIPLocked r old ne ip s)"
    using Cons.prems by (intro claimOneIPLocked_claims) auto
  have 2: "precedence ?K (claimOneIPLocked r old ne ip s)"
    using Cons.prems by (intro claimOneIPLocked_keeps) auto
  have 3: "x = r" if "ip' \<in> set ips" "ip' \<in> ?K x" "U s x = U s r" for ip' x
    using that Cons.prems(4) [of ip' x] by (cases "x = r") auto
  show ?case
    using Cons.IH [OF 1 2] Cons.prems(3) 3 unfolding K
    by (simp only: fold_simps comp_apply claimOneIPLocked_fields list.set_intros set_simps ball_simps) blast
qed simp

lemma claim_all_takes:
  assumes "precedence K s" "\<forall>ip \<in> set ips. acquires old ne ip" "minted s" "holds_own K r s"
    "unat (ipSeq s) + length ips < 2 ^ 64"
  shows "precedence (K(r := K r \<union> set ips)) (fold (claimOneIPLocked r old ne) ips s)"
  using assms
proof (induction ips arbitrary: K s)
  case (Cons ip ips)
  let ?K = "K(r := insert ip (K r))" and ?s = "claimOneIPLocked r old ne ip s"
  have K: "?K(r := ?K r \<union> set ips) = K(r := K r \<union> set (ip # ips))"
    by (simp add: fun_eq_iff)
  have ub: "unat (ipSeq s) + 1 < 2 ^ 64" and acq: "acquires old ne ip" using Cons.prems by simp_all
  note takes = claimOneIPLocked_takes [OF Cons.prems(1) acq Cons.prems(3) ub Cons.prems(4)]
  have "unat (ipSeq ?s) + length ips < 2 ^ 64"
    using Cons.prems(5) acq by (simp add: claimOneIPLocked_seq unat_succ [OF ub])
  then show ?case
    using Cons.IH [OF takes(1) _ claimOneIPLocked_minted [OF Cons.prems(3) ub] takes(2)] Cons.prems(2)
    unfolding K by simp
qed simp

lemma claim_all_minted:
  "minted s \<Longrightarrow> unat (ipSeq s) + length ips < 2 ^ 64 \<Longrightarrow>
     minted (fold (claimOneIPLocked r old ne) ips s) \<and>
     unat (ipSeq (fold (claimOneIPLocked r old ne) ips s)) \<le> unat (ipSeq s) + length ips"
proof (induction ips arbitrary: s)
  case (Cons ip ips)
  let ?s = "claimOneIPLocked r old ne ip s"
  have ub: "unat (ipSeq s) + 1 < 2 ^ 64" using Cons.prems by simp
  have "unat (ipSeq ?s) \<le> unat (ipSeq s) + 1"
    by (simp add: claimOneIPLocked_seq unat_succ [OF ub])
  then show ?case
    using Cons.IH [of ?s] claimOneIPLocked_minted [OF Cons.prems(1) ub, of r old ne ip] Cons.prems(2) by simp
qed simp

lemma fold_release_filter:
  "fold (\<lambda>old s. if P old then s else releaseIPLocked r old s) ips s =
     fold (releaseIPLocked r) (filter (\<lambda>ip. \<not> P ip) ips) s"
  by (induction ips arbitrary: s) auto

lemma claimPodIPLocked_eq:
  "claimPodIPLocked r pod old ne s =
     fold (releaseIPLocked r) (filter (\<lambda>ip. \<not> (ip = [] \<or> ip \<in> set (podAddresses pod))) old)
       (fold (claimOneIPLocked r old ne) (podAddresses pod) s)"
  unfolding claimPodIPLocked_def Let_def by (rule fold_release_filter)

text \<open>
  After an upsert has claimed the pod's addresses and released the others, the record claims
  exactly the addresses its pod may be reached at.
\<close>
lemma claimPodIPLocked_claims:
  assumes "claims K s" "K r \<subseteq> set old" "[] \<notin> set old"
    and "\<And>ip x. ip \<in> set (podAddresses pod) \<Longrightarrow> ip \<in> K x \<Longrightarrow> U s x = U s r \<Longrightarrow> x = r"
  shows "claims (K(r := set (podAddresses pod))) (claimPodIPLocked r pod old ne s)"
proof -
  let ?rel = "filter (\<lambda>ip. \<not> (ip = [] \<or> ip \<in> set (podAddresses pod))) old"
  let ?K = "K(r := K r \<union> set (podAddresses pod))"
  have K: "?K(r := ?K r - set ?rel) = K(r := set (podAddresses pod))"
    using assms(2,3) by (auto simp: fun_eq_iff)
  have "claims ?K (fold (claimOneIPLocked r old ne) (podAddresses pod) s)"
    using assms by (intro claim_all_claims) auto
  from release_all_claims(1) [OF this, of r ?rel] show ?thesis
    unfolding claimPodIPLocked_eq K .
qed

text \<open>
  A pod's status is written whole: an update either keeps to the addresses the pod had, or
  replaces them. What the store cannot order is an update that gains an address while it
  retains another one.
\<close>
definition whole_update :: "string list \<Rightarrow> string list \<Rightarrow> bool" where
  "whole_update old new \<longleftrightarrow> set new \<subseteq> set old \<or> set new \<inter> set old = {}"

lemma claimPodIPLocked_precedence:
  assumes "claims K s" "precedence K s" "K r \<subseteq> set old" "[] \<notin> set old" "minted s"
    and pod: "r_pod (at s r) = pod" and whole: "whole_update old (podAddresses pod)"
    and ub: "unat (ipSeq s) + length (podAddresses pod) < 2 ^ 64"
    and inj: "\<And>ip x. ip \<in> set (podAddresses pod) \<Longrightarrow> ip \<in> K x \<Longrightarrow> U s x = U s r \<Longrightarrow> x = r"
  shows "precedence (K(r := set (podAddresses pod))) (claimPodIPLocked r pod old ne s)"
proof -
  let ?rel = "filter (\<lambda>ip. \<not> (ip = [] \<or> ip \<in> set (podAddresses pod))) old"
  let ?K = "K(r := K r \<union> set (podAddresses pod))" and ?s = "fold (claimOneIPLocked r old ne) (podAddresses pod) s"
  have K: "?K(r := ?K r - set ?rel) = K(r := set (podAddresses pod))"
    using assms(3,4) by (auto simp: fun_eq_iff)
  have c: "claims ?K ?s"
    using assms(1) inj by (intro claim_all_claims) auto
  have "precedence ?K ?s"
  proof (cases "\<forall>ip \<in> set (podAddresses pod). \<not> acquires old ne ip")
    case True
    with assms(1,2) inj show ?thesis by (intro claim_all_keeps) auto
  next
    case False
    then have disj: "set (podAddresses pod) \<inter> set old = {}" and "\<not> ne"
      using whole by (auto simp: whole_update_def acquires_def)
    then have acq: "\<forall>ip \<in> set (podAddresses pod). acquires old ne ip" by (auto simp: acquires_def)
    have "holds_own K r s"
      using assms(3) disj pod by (auto simp: holds_own_def elig_def)
    with acq assms(2,5) ub show ?thesis by (intro claim_all_takes)
  qed
  from release_all_claims(2) [OF c this, of r ?rel] show ?thesis
    unfolding claimPodIPLocked_eq K .
qed

lemma releases_seq:
  "ipSeq (fold (releaseIPLocked r) ips s) = ipSeq s" "heap (fold (releaseIPLocked r) ips s) = heap s"
  by simp_all

lemma claimPodIPLocked_minted:
  assumes "minted s" "unat (ipSeq s) + length (podAddresses pod) < 2 ^ 64"
  shows "minted (claimPodIPLocked r pod old ne s) \<and>
    unat (ipSeq (claimPodIPLocked r pod old ne s)) \<le> unat (ipSeq s) + length (podAddresses pod)"
  using claim_all_minted [OF assms, of r old ne] by (simp add: claimPodIPLocked_eq minted_def)

end
