(* ===== verification/StoreInv.thy ===== *)
theory StoreInv
  imports StoreIP
begin

section \<open>The indexes of the store stay consistent\<close>

text \<open>
  The structural invariant of the store and that every operation keeps it: first the removal of
  a record, then the stages of an upsert, then the sweep.
\<close>

subsection \<open>The invariant\<close>

text \<open>
  Four parts: the record of every known pod is filed under its own UID; the node index holds
  exactly the live scheduled pods; the name index points at known records and at every live one;
  and the pod-IP index is the claims of the live records. \<open>nm\<close> gives the name of a UID: in
  Kubernetes a UID identifies one object, whose name and namespace never change. \<open>E\<close> are records
  that may be missing from the name index in the middle of an upsert.
\<close>
definition pods_ok :: "store \<Rightarrow> bool" where
  "pods_ok s \<longleftrightarrow> (\<forall>uid r. get (pods s) uid = Some r \<longrightarrow> r < next_ref s \<and> U s r = uid)"

abbreviation on_node :: "store \<Rightarrow> string \<Rightarrow> (uid, ref) gomap" where
  "on_node s n \<equiv> get_map (byNode s) n"

abbreviation node :: "store \<Rightarrow> ref \<Rightarrow> string" where
  "node s r \<equiv> pod_NodeName (r_pod (at s r))"

definition nodes_ok :: "store \<Rightarrow> bool" where
  "nodes_ok s \<longleftrightarrow>
     (\<forall>n. wf_map (on_node s n)) \<and> (\<forall>n. get (byNode s) n \<noteq> Some []) \<and>
     (\<forall>n uid r. get (on_node s n) uid = Some r \<longleftrightarrow>
        n \<noteq> [] \<and> get (pods s) uid = Some r \<and> live s r \<and> node s r = n)"

definition names_ok :: "(uid \<Rightarrow> string) \<Rightarrow> ref set \<Rightarrow> store \<Rightarrow> bool" where
  "names_ok nm E s \<longleftrightarrow>
     (\<forall>k r. get (byPodName s) k = Some r \<longrightarrow> get (pods s) (U s r) = Some r \<and> nm (U s r) = k) \<and>
     (\<forall>uid r. get (pods s) uid = Some r \<longrightarrow> name_key (r_pod (at s r)) = nm uid) \<and>
     (\<forall>uid r. get (pods s) uid = Some r \<and> live s r \<and> r \<notin> E \<longrightarrow> get (byPodName s) (nm uid) = Some r)"

text \<open>The addresses each record ought to claim.\<close>
definition due_claims :: "store \<Rightarrow> ref \<Rightarrow> string set" where
  "due_claims s r =
     (if get (pods s) (U s r) = Some r \<and> live s r then set (podAddresses (r_pod (at s r))) else {})"

lemma pods_okD: "pods_ok s \<Longrightarrow> get (pods s) uid = Some r \<Longrightarrow> r < next_ref s \<and> U s r = uid"
  by (simp add: pods_ok_def)

lemma pods_inj: "pods_ok s \<Longrightarrow> get (pods s) u = Some r \<Longrightarrow> get (pods s) u' = Some r \<Longrightarrow> u = u'"
  by (metis pods_okD)

lemma nodes_okD:
  assumes "nodes_ok s"
  shows "wf_map (on_node s n)" "get (byNode s) n \<noteq> Some []"
    "get (on_node s n) uid = Some r \<longleftrightarrow> n \<noteq> [] \<and> get (pods s) uid = Some r \<and> live s r \<and> node s r = n"
  using assms unfolding nodes_ok_def by blast+

lemma nodes_okI:
  assumes "\<And>n. wf_map (on_node s n)" "\<And>n. get (byNode s) n \<noteq> Some []"
    "\<And>n uid r. get (on_node s n) uid = Some r \<longleftrightarrow> n \<noteq> [] \<and> get (pods s) uid = Some r \<and> live s r \<and> node s r = n"
  shows "nodes_ok s"
  unfolding nodes_ok_def by (intro conjI allI; rule assms)

lemma names_okD:
  assumes "names_ok nm E s"
  shows "get (byPodName s) k = Some r \<Longrightarrow> get (pods s) (U s r) = Some r \<and> nm (U s r) = k"
    "get (pods s) uid = Some r \<Longrightarrow> name_key (r_pod (at s r)) = nm uid"
    "get (pods s) uid = Some r \<Longrightarrow> live s r \<Longrightarrow> r \<notin> E \<Longrightarrow> get (byPodName s) (nm uid) = Some r"
  using assms unfolding names_ok_def by blast+

lemma names_okI:
  assumes "\<And>k r. get (byPodName s) k = Some r \<Longrightarrow> get (pods s) (U s r) = Some r \<and> nm (U s r) = k"
    "\<And>uid r. get (pods s) uid = Some r \<Longrightarrow> name_key (r_pod (at s r)) = nm uid"
    "\<And>uid r. get (pods s) uid = Some r \<Longrightarrow> live s r \<Longrightarrow> r \<notin> E \<Longrightarrow> get (byPodName s) (nm uid) = Some r"
  shows "names_ok nm E s"
  unfolding names_ok_def
  by (rule conjI, intro allI impI, rule assms(1), assumption, rule conjI, intro allI impI,
      rule assms(2), assumption, intro allI impI, elim conjE, rule assms(3))

subsection \<open>Removing a record\<close>

lemma removeFromNodeLocked_get:
  "get (on_node (removeFromNodeLocked n u s) n') u' =
     (if n' = n \<and> n \<noteq> [] \<and> u' = u then None else get (on_node s n') u')"
  by (auto simp: removeFromNodeLocked_def Let_def get_map_def dest: del_Nil split: option.splits if_splits)

lemma removeFromNodeLocked_wf:
  assumes "\<And>n. wf_map (on_node s n)" "\<And>n. get (byNode s) n \<noteq> Some []"
  shows "wf_map (on_node (removeFromNodeLocked n u s) n')"
    "get (byNode (removeFromNodeLocked n u s)) n' \<noteq> Some []"
  using assms(1) [of n] assms(1) [of n'] assms(2)
  by (auto simp: removeFromNodeLocked_def Let_def get_map_def split: option.splits if_splits)

lemma removeRecordLocked_effect:
  "pods (removeRecordLocked r u s) = del u (pods s)"
  "byPodName (removeRecordLocked r u s) = byPodName (dropNameIndexLocked r s)"
  by (simp_all add: removeRecordLocked_def Let_def)

text \<open>The record as a delete leaves it behind.\<close>
definition tombstone :: "instant \<Rightarrow> store \<Rightarrow> ref \<Rightarrow> srecord" where
  "tombstone now s r = (at s r)\<lparr>r_pod := (r_pod (at s r))\<lparr>pod_DeletedAt := Some now\<rparr>, r_expireAt := now + ttl s\<rparr>"

lemma delete_record_effect:
  "pods (delete_record now u r s) = (if ttl s \<le> 0 then del u (pods s) else pods s)"
  "heap (delete_record now u r s) = (if ttl s \<le> 0 then heap s else (heap s)(r := tombstone now s r))"
  "byPodName (delete_record now u r s) = (if ttl s \<le> 0 then byPodName (dropNameIndexLocked r s) else byPodName s)"
  "byNode (delete_record now u r s) = byNode (removeFromNodeLocked (node s r) u s)"
  by (simp_all add: delete_record_def Let_def removeRecordLocked_effect tombstone_def dropNameIndexLocked_def)

lemma delete_record_pods_ok: "pods_ok s \<Longrightarrow> pods_ok (delete_record now u r s)"
  by (auto simp: pods_ok_def delete_record_effect tombstone_def)

text \<open>The clock has left the zero instant, so that a stamp is never the live marker.\<close>
definition stamps :: "instant \<Rightarrow> store \<Rightarrow> bool" where
  "stamps now s \<longleftrightarrow> ttl s \<le> 0 \<or> now + ttl s \<noteq> 0"

lemma delete_record_nodes_ok:
  assumes "nodes_ok s" "get (pods s) u = Some r" "pods_ok s" "stamps now s"
  shows "nodes_ok (delete_record now u r s)"
proof (rule nodes_okI)
  let ?s = "delete_record now u r s"
  fix n u' x
  note wf = removeFromNodeLocked_wf [of s, OF nodes_okD(1,2) [OF assms(1)]]
  show "wf_map (on_node ?s n)" "get (byNode ?s) n \<noteq> Some []"
    using wf by (simp_all add: delete_record_effect)
  have *: "get (on_node ?s n) u' = Some x \<longleftrightarrow>
      \<not> (n = node s r \<and> u' = u) \<and> n \<noteq> [] \<and> get (pods s) u' = Some x \<and> live s x \<and> node s x = n"
    using nodes_okD(3) [OF assms(1), of n u' x] by (auto simp: delete_record_effect removeFromNodeLocked_get)
  show "get (on_node ?s n) u' = Some x \<longleftrightarrow> n \<noteq> [] \<and> get (pods ?s) u' = Some x \<and> live ?s x \<and> node ?s x = n"
  proof (cases "x = r")
    case True
    have "get (pods s) u' = Some r \<longleftrightarrow> u' = u" using assms(2) pods_inj [OF assms(3,2), of u'] by metis
    with True * assms(4) show ?thesis by (auto simp: delete_record_effect tombstone_def stamps_def)
  next
    case False
    then have "u' = u \<Longrightarrow> get (pods s) u' \<noteq> Some x" using assms(2) by auto
    with False * show ?thesis by (cases "u' = u") (auto simp: delete_record_effect)
  qed
qed

lemma delete_record_names_ok:
  assumes "names_ok nm E s" "get (pods s) u = Some r" "pods_ok s" "stamps now s"
  shows "names_ok nm E (delete_record now u r s)"
proof (cases "ttl s \<le> 0")
  case True
  have key: "name_key (r_pod (at s r)) = nm u" by (rule names_okD(2) [OF assms(1,2)])
  have other: "x \<noteq> r" if "get (pods s) u' = Some x" "u' \<noteq> u" for u' x
    using that pods_inj [OF assms(3,2)] by blast
  show ?thesis
  proof (rule names_okI)
    fix k x
    assume "get (byPodName (delete_record now u r s)) k = Some x"
    then have k: "get (byPodName s) k = Some x" "\<not> (k = nm u \<and> x = r)"
      using True key by (auto simp: delete_record_effect dropNameIndexLocked_def Let_def split: if_splits)
    note * = names_okD(1) [OF assms(1) k(1)]
    then have "U s x \<noteq> u" using k assms(2) by auto
    with * True show "get (pods (delete_record now u r s)) (U (delete_record now u r s) x) = Some x \<and>
        nm (U (delete_record now u r s) x) = k"
      by (simp add: delete_record_effect)
  next
    fix u' x
    assume "get (pods (delete_record now u r s)) u' = Some x"
    then have x: "get (pods s) u' = Some x" "u' \<noteq> u" using True by (auto simp: delete_record_effect split: if_splits)
    show "name_key (r_pod (at (delete_record now u r s) x)) = nm u'"
      using True names_okD(2) [OF assms(1) x(1)] by (simp add: delete_record_effect)
    assume "live (delete_record now u r s) x" "x \<notin> E"
    with True have "get (byPodName s) (nm u') = Some x"
      using names_okD(3) [OF assms(1) x(1)] by (simp add: delete_record_effect)
    then show "get (byPodName (delete_record now u r s)) (nm u') = Some x"
      using True other [OF x] key by (auto simp: delete_record_effect dropNameIndexLocked_def Let_def)
  qed
next
  case False
  show ?thesis
  proof (rule names_okI)
    fix k u' x
    have eqs: "pods (delete_record now u r s) = pods s" "byPodName (delete_record now u r s) = byPodName s"
      "U (delete_record now u r s) x = U s x"
      "name_key (r_pod (at (delete_record now u r s) x)) = name_key (r_pod (at s x))"
      "live (delete_record now u r s) x \<Longrightarrow> live s x"
      using False assms(4) by (auto simp: delete_record_effect tombstone_def name_key_def stamps_def split: if_splits)
    show "get (pods (delete_record now u r s)) (U (delete_record now u r s) x) = Some x \<and>
        nm (U (delete_record now u r s) x) = k" if "get (byPodName (delete_record now u r s)) k = Some x"
      using names_okD(1) [OF assms(1), of k x] that by (simp add: eqs)
    assume x: "get (pods (delete_record now u r s)) u' = Some x"
    show "name_key (r_pod (at (delete_record now u r s) x)) = nm u'"
      using names_okD(2) [OF assms(1), of u' x] x by (simp add: eqs)
    assume "live (delete_record now u r s) x" "x \<notin> E"
    then show "get (byPodName (delete_record now u r s)) (nm u') = Some x"
      using names_okD(3) [OF assms(1), of u' x] x by (simp add: eqs)
  qed
qed

lemma delete_record_ip_fields:
  "byPodIP (delete_record now u r s) =
     byPodIP (fold (releaseIPLocked r) (recordAddresses (at s r)) (removeFromNodeLocked (node s r) u s))"
  "ipClaimants (delete_record now u r s) =
     ipClaimants (fold (releaseIPLocked r) (recordAddresses (at s r)) (removeFromNodeLocked (node s r) u s))"
  "ipSeq (delete_record now u r s) = ipSeq s"
  by (simp_all add: delete_record_def Let_def)

lemma delete_record_claims:
  assumes "claims K s" "stamps now s"
  shows "claims (K(r := K r - set (recordAddresses (at s r)))) (delete_record now u r s)"
    and "precedence K s \<Longrightarrow> precedence (K(r := K r - set (recordAddresses (at s r)))) (delete_record now u r s)"
proof -
  let ?s1 = "removeFromNodeLocked (node s r) u s" and ?K = "K(r := K r - set (recordAddresses (at s r)))"
  let ?s2 = "fold (releaseIPLocked r) (recordAddresses (at s r)) ?s1"
  have c1: "claims K ?s1" using assms(1) by (rule claims_cong [rotated -1]) (simp_all add: elig_def)
  have el: "elig s ip x" if "elig (delete_record now u r s) ip x" for ip x
    using that assms(2) by (auto simp: elig_def delete_record_effect tombstone_def stamps_def split: if_splits)
  have c2: "claims ?K ?s2" by (rule release_all_claims(1) [OF c1])
  then show "claims ?K (delete_record now u r s)"
  proof (rule claims_cong [rotated -1])
    show "elig ?s2 ip x" if "elig (delete_record now u r s) ip x" for ip x
      using el [OF that] by (simp add: elig_def)
  qed (simp_all only: delete_record_ip_fields, auto simp: delete_record_effect tombstone_def)
  assume "precedence K s"
  then have "precedence K ?s1" by (simp add: precedence_def elig_def)
  from release_all_claims(2) [OF c1 this] have p2: "precedence ?K ?s2" .
  show "precedence ?K (delete_record now u r s)"
  proof (rule precedenceI)
    fix ip h x
    assume "get (byPodIP (delete_record now u r s)) ip = Some h" "ip \<in> ?K x" "elig (delete_record now u r s) ip x"
    then have "get (byPodIP ?s2) ip = Some h" "ip \<in> ?K x" "elig ?s2 ip x"
      using el [of ip x] by (simp_all only: delete_record_ip_fields) (simp add: elig_def)
    then have "seq ?s2 x \<le> seq ?s2 h"
      using p2 unfolding precedence_def by blast
    then show "seq (delete_record now u r s) x \<le> seq (delete_record now u r s) h"
      by (auto simp: delete_record_effect tombstone_def)
  qed
qed

subsection \<open>The stages of an upsert\<close>

definition known :: "APIPod \<Rightarrow> store \<Rightarrow> ref option" where
  "known p s = get (pods s) (ap_UID p)"

definition rec_of :: "APIPod \<Rightarrow> store \<Rightarrow> ref" where
  "rec_of p s = (case known p s of Some r \<Rightarrow> r | None \<Rightarrow> next_ref s)"

definition old_rec :: "APIPod \<Rightarrow> store \<Rightarrow> srecord" where
  "old_rec p s = (case known p s of Some r \<Rightarrow> at s r | None \<Rightarrow> zero_record)"

definition new_rec :: "APIPod \<Rightarrow> store \<Rightarrow> srecord" where
  "new_rec p s = (old_rec p s)\<lparr>r_pod := fst (FromPod p), r_ownerRefs := cloneOwnerRefs (ap_OwnerReferences p),
     r_resourceVersion := ap_ResourceVersion p, r_containerIDs := map fst (snd (FromPod p)), r_expireAt := 0,
     r_terminating := (ap_DeletionTimestamp p \<noteq> None)\<rparr>"

definition oldNode :: "APIPod \<Rightarrow> store \<Rightarrow> string" where
  "oldNode p s = (case known p s of Some r \<Rightarrow> node s r | None \<Rightarrow> [])"

definition oldIPs :: "APIPod \<Rightarrow> store \<Rightarrow> string list" where
  "oldIPs p s = (case known p s of Some r \<Rightarrow> podAddresses (r_pod (at s r)) | None \<Rightarrow> [])"

definition oldIDs :: "APIPod \<Rightarrow> store \<Rightarrow> string list" where
  "oldIDs p s = (case known p s of Some r \<Rightarrow> r_containerIDs (at s r) | None \<Rightarrow> [])"

text \<open>The store once the record is filled and on its node, before the name and the addresses.\<close>
definition indexed :: "instant \<Rightarrow> APIPod \<Rightarrow> store \<Rightarrow> store" where
  "indexed now p s =
     indexContainersLocked now (rec_of p s) (ap_UID p) (snd (FromPod p)) (oldIDs p s)
       (fill_record p (rec_of p s) (snd (alloc (ap_UID p) s)))"

definition placed :: "instant \<Rightarrow> APIPod \<Rightarrow> store \<Rightarrow> store" where
  "placed now p s =
     add_to_node (ap_NodeName p) (ap_UID p) (rec_of p s)
       (if oldNode p s \<noteq> ap_NodeName p then removeFromNodeLocked (oldNode p s) (ap_UID p) (indexed now p s)
        else indexed now p s)"

definition named :: "instant \<Rightarrow> APIPod \<Rightarrow> store \<Rightarrow> store" where
  "named now p s = take_name now (name_key (fst (FromPod p))) (rec_of p s) (placed now p s)"

definition claimed :: "instant \<Rightarrow> APIPod \<Rightarrow> store \<Rightarrow> store" where
  "claimed now p s =
     claimPodIPLocked (rec_of p s) (fst (FromPod p)) (oldIPs p s)
       (known p s = None \<and> r_terminating (at (named now p s) (rec_of p s))) (named now p s)"

lemma alloc_eq: "fst (alloc (ap_UID p) s) = rec_of p s"
  by (simp add: alloc_def rec_of_def known_def split: option.splits)

lemma upsert_locked_eq:
  assumes "\<not> resyncNoOp s p"
  shows "upsert_locked now p s = bumpLocked [oldNode p s, ap_NodeName p] (claimed now p s)"
  using assms unfolding resyncNoOp_def
  by (simp add: upsert_locked_def Let_def case_prod_beta alloc_eq oldNode_def oldIPs_def oldIDs_def claimed_def
      named_def placed_def indexed_def known_def [symmetric] cong: option.case_cong)

lemma upsert_locked_noop: "resyncNoOp s p \<Longrightarrow> upsert_locked now p s = s\<lparr>gen := gen s + 1\<rparr>"
  by (simp add: upsert_locked_def resyncNoOp_def Let_def case_prod_beta bumpLocked_def stamp_node_def)

lemma alloc_frame [simp]:
  "ttl (snd (alloc u s)) = ttl s" "byContainer (snd (alloc u s)) = byContainer s"
  "byNode (snd (alloc u s)) = byNode s" "byPodName (snd (alloc u s)) = byPodName s"
  "byPodIP (snd (alloc u s)) = byPodIP s" "ipClaimants (snd (alloc u s)) = ipClaimants s"
  "waiters (snd (alloc u s)) = waiters s" "nWaiters (snd (alloc u s)) = nWaiters s"
  "nExternal (snd (alloc u s)) = nExternal s" "maxWaiters (snd (alloc u s)) = maxWaiters s"
  "draining (snd (alloc u s)) = draining s" "ipSeq (snd (alloc u s)) = ipSeq s"
  "pending (snd (alloc u s)) = pending s" "gen (snd (alloc u s)) = gen s"
  "nodeGen (snd (alloc u s)) = nodeGen s" "next_chan (snd (alloc u s)) = next_chan s"
  "closed (snd (alloc u s)) = closed s"
  by (simp_all add: alloc_def split: option.splits)

lemma placed_fields:
  "ttl (placed now p s) = ttl s" "byPodName (placed now p s) = byPodName s"
  "byPodIP (placed now p s) = byPodIP s" "ipClaimants (placed now p s) = ipClaimants s"
  "ipSeq (placed now p s) = ipSeq s" "gen (placed now p s) = gen s" "nodeGen (placed now p s) = nodeGen s"
  "nExternal (placed now p s) = nExternal s" "maxWaiters (placed now p s) = maxWaiters s"
  "draining (placed now p s) = draining s" "next_chan (placed now p s) = next_chan s"
  "byContainer (placed now p s) = byContainer (indexed now p s)"
  "pending (placed now p s) = pending (indexed now p s)"
  "waiters (placed now p s) = waiters (indexed now p s)"
  "nWaiters (placed now p s) = nWaiters (indexed now p s)"
  "closed (placed now p s) = closed (indexed now p s)"
  by (simp_all add: placed_def indexed_def)

lemma placed_heap: "heap (placed now p s) = (heap s)(rec_of p s := new_rec p s)"
  by (simp add: placed_def indexed_def indexContainersLocked_def fill_record_def Let_def fun_eq_iff
      alloc_def new_rec_def old_rec_def rec_of_def known_def split: option.splits)

lemma placed_pods: "get (pods (placed now p s)) u = (if u = ap_UID p then Some (rec_of p s) else get (pods s) u)"
  by (auto simp: placed_def indexed_def alloc_def rec_of_def known_def split: option.splits)

lemma placed_next: "next_ref (placed now p s) = (if known p s = None then next_ref s + 1 else next_ref s)"
  by (auto simp: placed_def indexed_def alloc_def known_def split: option.splits)

lemma new_rec_fields [simp]:
  "r_pod (new_rec p s) = fst (FromPod p)" "r_expireAt (new_rec p s) = 0"
  "r_containerIDs (new_rec p s) = map fst (snd (FromPod p))"
  "r_ipSeq (new_rec p s) = r_ipSeq (old_rec p s)"
  "r_terminating (new_rec p s) = (ap_DeletionTimestamp p \<noteq> None)"
  by (simp_all add: new_rec_def)

lemma rec_of_other: "pods_ok s \<Longrightarrow> get (pods s) u = Some x \<Longrightarrow> x = rec_of p s \<longleftrightarrow> u = ap_UID p"
  by (auto simp: rec_of_def known_def split: option.splits dest: pods_okD pods_inj)

lemma placed_pods_ok: "pods_ok s \<Longrightarrow> pods_ok (placed now p s)"
  unfolding pods_ok_def
proof (intro allI impI)
  fix u x
  assume "\<forall>uid r. get (pods s) uid = Some r \<longrightarrow> r < next_ref s \<and> U s r = uid"
  then have ok: "pods_ok s" by (simp add: pods_ok_def)
  assume "get (pods (placed now p s)) u = Some x"
  then have "u = ap_UID p \<and> x = rec_of p s \<or> u \<noteq> ap_UID p \<and> get (pods s) u = Some x"
    by (simp add: placed_pods split: if_splits)
  then show "x < next_ref (placed now p s) \<and> U (placed now p s) x = u"
    using ok rec_of_other [OF ok, of u x p]
    by (auto simp: placed_next placed_heap rec_of_def known_def dest: pods_okD split: option.splits)
qed

lemma placed_byNode:
  "get (on_node (placed now p s) n) u =
     (if n = ap_NodeName p \<and> n \<noteq> [] \<and> u = ap_UID p then Some (rec_of p s)
      else if n = oldNode p s \<and> n \<noteq> [] \<and> oldNode p s \<noteq> ap_NodeName p \<and> u = ap_UID p then None
      else get (on_node s n) u)"
  by (auto simp: placed_def add_to_node_def removeFromNodeLocked_get indexed_def)

lemma add_to_node_wf:
  assumes "\<And>n. wf_map (on_node s n)" "\<And>n. get (byNode s) n \<noteq> Some []"
  shows "wf_map (on_node (add_to_node n u r s) n')" "get (byNode (add_to_node n u r s)) n' \<noteq> Some []"
proof -
  have "put k v m \<noteq> []" for k :: uid and v :: ref and m by (cases m) auto
  then show "get (byNode (add_to_node n u r s)) n' \<noteq> Some []"
    using assms(2) by (simp add: add_to_node_def)
qed (use assms(1) in \<open>simp add: add_to_node_def\<close>)

lemma placed_nodes_ok:
  assumes "nodes_ok s" "pods_ok s"
  shows "nodes_ok (placed now p s)"
proof (rule nodes_okI)
  fix n u x
  let ?t = "if oldNode p s \<noteq> ap_NodeName p then removeFromNodeLocked (oldNode p s) (ap_UID p) (indexed now p s)
        else indexed now p s"
  have t: "wf_map (on_node ?t n)" "get (byNode ?t) n \<noteq> Some []" for n
    using removeFromNodeLocked_wf [of "indexed now p s"] nodes_okD(1,2) [OF assms(1)] by (simp_all add: indexed_def)
  show "wf_map (on_node (placed now p s) n)" "get (byNode (placed now p s)) n \<noteq> Some []"
    unfolding placed_def by (intro add_to_node_wf t)+
  show "get (on_node (placed now p s) n) u = Some x \<longleftrightarrow>
      n \<noteq> [] \<and> get (pods (placed now p s)) u = Some x \<and> live (placed now p s) x \<and> node (placed now p s) x = n"
  proof (cases "u = ap_UID p")
    case True
    have "get (on_node s n) u = Some y \<Longrightarrow> n = oldNode p s \<and> n \<noteq> []" for y
      using nodes_okD(3) [OF assms(1), of n u y] by (simp add: oldNode_def known_def True)
    then show ?thesis
      using True by (cases "get (on_node s n) u") (auto simp: placed_byNode placed_pods placed_heap)
  next
    case False
    then show ?thesis
      using nodes_okD(3) [OF assms(1), of n u x] rec_of_other [OF assms(2), of u x p]
      by (auto simp: placed_byNode placed_pods placed_heap)
  qed
qed

definition same_name :: "(uid \<Rightarrow> string) \<Rightarrow> APIPod \<Rightarrow> bool" where
  "same_name nm p \<longleftrightarrow> ap_Namespace p @ ''/'' @ ap_Name p = nm (ap_UID p)"

lemma same_name_key: "same_name nm p \<Longrightarrow> name_key (fst (FromPod p)) = nm (ap_UID p)"
  by (simp add: same_name_def name_key_def)

lemma placed_names_ok:
  assumes "names_ok nm {} s" "pods_ok s" "same_name nm p"
  shows "names_ok nm {rec_of p s} (placed now p s)"
proof (rule names_okI)
  let ?s = "placed now p s"
  have U: "U ?s x = (if x = rec_of p s then ap_UID p else U s x)" for x by (simp add: placed_heap)
  show "get (pods ?s) (U ?s x) = Some x \<and> nm (U ?s x) = k" if "get (byPodName ?s) k = Some x" for k x
  proof -
    from that have "get (pods s) (U s x) = Some x" "nm (U s x) = k"
      using names_okD(1) [OF assms(1), of k x] by (simp_all add: placed_fields)
    then show ?thesis using rec_of_other [OF assms(2), of "U s x" x p] by (auto simp: U placed_pods)
  qed
  fix u x
  assume x: "get (pods ?s) u = Some x"
  show "name_key (r_pod (at ?s x)) = nm u"
    using x names_okD(2) [OF assms(1), of u x] rec_of_other [OF assms(2), of u x p] same_name_key [OF assms(3)]
    by (auto simp: placed_pods placed_heap split: if_splits)
  assume "live ?s x" "x \<notin> {rec_of p s}"
  then show "get (byPodName ?s) (nm u) = Some x"
    using x names_okD(3) [OF assms(1), of u x] by (auto simp: placed_pods placed_heap placed_fields split: if_splits)
qed

subsection \<open>The name guard\<close>

text \<open>The live record that holds the pod's name under another UID.\<close>
definition displaced :: "instant \<Rightarrow> APIPod \<Rightarrow> store \<Rightarrow> ref option" where
  "displaced now p s =
     (case get (byPodName (placed now p s)) (name_key (fst (FromPod p))) of
        Some d \<Rightarrow> if d \<noteq> rec_of p s \<and> live (placed now p s) d then Some d else None
      | None \<Rightarrow> None)"

definition unseated :: "instant \<Rightarrow> APIPod \<Rightarrow> store \<Rightarrow> store" where
  "unseated now p s =
     (case displaced now p s of
        None \<Rightarrow> placed now p s
      | Some d \<Rightarrow> deletePodLocked now (U (placed now p s) d)
                   ((placed now p s)\<lparr>nameReused := nameReused (placed now p s) + 1\<rparr>))"

lemma named_eq:
  "named now p s = (unseated now p s)\<lparr>byPodName := put (name_key (fst (FromPod p))) (rec_of p s) (byPodName (unseated now p s))\<rparr>"
  by (auto simp: named_def take_name_def unseated_def displaced_def Let_def split: option.splits)

lemma pods_ok_bump: "pods_ok (bumpLocked ns s) = pods_ok s" by (simp add: pods_ok_def)
lemma nodes_ok_bump: "nodes_ok (bumpLocked ns s) = nodes_ok s" by (simp add: nodes_ok_def)
lemma names_ok_bump: "names_ok nm E (bumpLocked ns s) = names_ok nm E s" by (simp add: names_ok_def)
lemma claims_bump: "claims K (bumpLocked ns s) = claims K s" by (simp add: claims_def elig_def)
lemma precedence_bump: "precedence K (bumpLocked ns s) = precedence K s" by (simp add: precedence_def elig_def)
lemma minted_bump: "minted (bumpLocked ns s) = minted s" by (simp add: minted_def)

lemmas bump_inv = pods_ok_bump nodes_ok_bump names_ok_bump claims_bump precedence_bump minted_bump

lemma reused_inv [simp]:
  "pods_ok (s\<lparr>nameReused := v\<rparr>) = pods_ok s" "nodes_ok (s\<lparr>nameReused := v\<rparr>) = nodes_ok s"
  "names_ok nm E (s\<lparr>nameReused := v\<rparr>) = names_ok nm E s" "claims K (s\<lparr>nameReused := v\<rparr>) = claims K s"
  "precedence K (s\<lparr>nameReused := v\<rparr>) = precedence K s" "minted (s\<lparr>nameReused := v\<rparr>) = minted s"
  "stamps now (s\<lparr>nameReused := v\<rparr>) = stamps now s"
  by (simp_all add: pods_ok_def nodes_ok_def names_ok_def claims_def precedence_def elig_def minted_def stamps_def)

lemma deletePodLocked_known:
  "get (pods s) u = Some r \<Longrightarrow> deletePodLocked now u s = bumpLocked [node s r] (delete_record now u r s)"
  by (simp add: deletePodLocked_def)

lemma deletePodLocked_unknown: "get (pods s) u = None \<Longrightarrow> deletePodLocked now u s = s"
  by (simp add: deletePodLocked_def)

text \<open>What the invariant says of a store, all in one.\<close>
definition store_ok :: "(uid \<Rightarrow> string) \<Rightarrow> store \<Rightarrow> bool" where
  "store_ok nm s \<longleftrightarrow> pods_ok s \<and> nodes_ok s \<and> names_ok nm {} s \<and> claims (due_claims s) s"

lemma store_okD:
  assumes "store_ok nm s"
  shows "pods_ok s" "nodes_ok s" "names_ok nm {} s" "claims (due_claims s) s"
  using assms by (simp_all add: store_ok_def)

lemma displacedD:
  assumes "displaced now p s = Some d" "names_ok nm E (placed now p s)"
  shows "d \<noteq> rec_of p s" "live (placed now p s) d" "get (pods (placed now p s)) (U (placed now p s) d) = Some d"
    "get (pods s) (U s d) = Some d" "live s d"
proof -
  show d: "d \<noteq> rec_of p s" "live (placed now p s) d"
    using assms(1) by (auto simp: displaced_def split: option.splits if_splits)
  have "get (byPodName (placed now p s)) (name_key (fst (FromPod p))) = Some d"
    using assms(1) by (auto simp: displaced_def split: option.splits if_splits)
  from names_okD(1) [OF assms(2) this] show k: "get (pods (placed now p s)) (U (placed now p s) d) = Some d" by simp
  show "get (pods s) (U s d) = Some d" "live s d"
    using d k by (auto simp: placed_pods placed_heap split: if_splits)
qed

text \<open>The claims once a displaced record is gone.\<close>
definition left_claims :: "instant \<Rightarrow> APIPod \<Rightarrow> store \<Rightarrow> ref \<Rightarrow> string set" where
  "left_claims now p s =
     (case displaced now p s of None \<Rightarrow> due_claims s | Some d \<Rightarrow> (due_claims s)(d := {}))"

lemma due_claims_known: "due_claims s r \<noteq> {} \<Longrightarrow> get (pods s) (U s r) = Some r \<and> live s r"
  by (auto simp: due_claims_def split: if_splits)

lemma due_claims_rec: "pods_ok s \<Longrightarrow> due_claims s (rec_of p s) \<subseteq> set (oldIPs p s)"
  by (auto simp: due_claims_def rec_of_def oldIPs_def known_def split: option.splits if_splits dest: pods_okD)

lemma placed_claims:
  assumes "pods_ok s" "claims (due_claims s) s"
  shows "claims (due_claims s) (placed now p s)"
proof (rule claims_cong [OF _ _ _ _ assms(2)])
  fix x
  show "U (placed now p s) x = U s x" if "due_claims s x \<noteq> {}"
    using due_claims_known [OF that] rec_of_other [OF assms(1), of "U s x" x p] by (auto simp: placed_heap)
  show "elig s ip x" if "ip \<in> due_claims s x" for ip
    using that by (auto simp: due_claims_def elig_def split: if_splits)
qed (simp_all add: placed_fields)

lemma precedence_placed:
  assumes "pods_ok s" "claims (due_claims s) s" "precedence (due_claims s) s"
  shows "precedence (due_claims s) (placed now p s)"
proof (rule precedenceI)
  fix ip h x
  assume h: "get (byPodIP (placed now p s)) ip = Some h" and x: "ip \<in> due_claims s x"
  have "elig s ip x" using x by (auto simp: due_claims_def elig_def split: if_splits)
  then have le: "seq s x \<le> seq s h"
    using assms(3) h x by (auto simp: precedence_def placed_fields)
  have sq: "seq (placed now p s) y = seq s y" if "ip \<in> due_claims s y" for y
  proof (cases "y = rec_of p s")
    case True
    have "due_claims s y \<noteq> {}" using that by blast
    from due_claims_known [OF this] True rec_of_other [OF assms(1), of "U s y" y p] have "known p s = Some y"
      by (simp add: known_def)
    then show ?thesis by (simp add: placed_heap old_rec_def rec_of_def)
  qed (simp add: placed_heap)
  have "ip \<in> due_claims s h" using claimsD(4) [OF assms(2)] h by (simp add: placed_fields)
  from le sq [OF x] sq [OF this] show "seq (placed now p s) x \<le> seq (placed now p s) h" by simp
qed

lemma minted_placed: "minted s \<Longrightarrow> minted (placed now p s)"
  by (auto simp: minted_def placed_heap placed_fields old_rec_def zero_record_def split: option.splits)

lemma unseated_cases:
  assumes "names_ok nm E (placed now p s)"
  obtains (stay) "displaced now p s = None" "unseated now p s = placed now p s"
  | (leave) d ns t where "displaced now p s = Some d"
      "t = (placed now p s)\<lparr>nameReused := nameReused (placed now p s) + 1\<rparr>"
      "unseated now p s = bumpLocked ns (delete_record now (U (placed now p s) d) d t)"
      "ns = [node (placed now p s) d]"
proof (cases "displaced now p s")
  case None
  then show thesis by (intro stay) (simp_all add: unseated_def)
next
  case (Some d)
  show thesis
    by (rule leave [OF Some refl _ refl])
      (use displacedD(3) [OF Some assms] in \<open>simp add: unseated_def Some deletePodLocked_known\<close>)
qed

lemma unseated_ok:
  assumes ok: "store_ok nm s" "same_name nm p" and st: "stamps now s"
  shows "pods_ok (unseated now p s)" "nodes_ok (unseated now p s)" "names_ok nm {rec_of p s} (unseated now p s)"
    "claims (left_claims now p s) (unseated now p s)"
    "precedence (due_claims s) s \<Longrightarrow> precedence (left_claims now p s) (unseated now p s)"
    "minted s \<Longrightarrow> minted (unseated now p s)"
    "ipSeq (unseated now p s) = ipSeq s"
    "at (unseated now p s) (rec_of p s) = new_rec p s"
    "get (pods (unseated now p s)) (ap_UID p) = Some (rec_of p s)"
proof -
  let ?s = "placed now p s"
  note p = placed_pods_ok [OF store_okD(1) [OF ok(1)], of now p]
  note n = placed_nodes_ok [OF store_okD(2,1) [OF ok(1)], of now p]
  note k = placed_names_ok [OF store_okD(3,1) [OF ok(1)] ok(2), of now]
  note c = placed_claims [OF store_okD(1,4) [OF ok(1)], of now p]
  have st': "stamps now ?s" using st by (simp add: stamps_def placed_fields)
  have all: "pods_ok (unseated now p s) \<and> nodes_ok (unseated now p s) \<and> names_ok nm {rec_of p s} (unseated now p s) \<and>
    claims (left_claims now p s) (unseated now p s) \<and>
    (precedence (due_claims s) s \<longrightarrow> precedence (left_claims now p s) (unseated now p s)) \<and>
    (minted s \<longrightarrow> minted (unseated now p s)) \<and>
    ipSeq (unseated now p s) = ipSeq s \<and> at (unseated now p s) (rec_of p s) = new_rec p s \<and>
    get (pods (unseated now p s)) (ap_UID p) = Some (rec_of p s)"
    using k
  proof (cases rule: unseated_cases)
    case stay
    show ?thesis
      using p n k c precedence_placed [OF store_okD(1,4) [OF ok(1)], of now p] minted_placed [of s now p]
      by (simp add: stay(2) left_claims_def stay(1)) (simp add: placed_fields placed_heap placed_pods)
  next
    case (leave d ns t)
    note d = displacedD [OF leave(1) k]
    have td: "get (pods t) (U ?s d) = Some d" using d(3) by (simp add: leave(2))
    have raw: "due_claims s d \<subseteq> set (recordAddresses (at t d))"
      using d(1) by (auto simp: leave(2) due_claims_def recordAddresses_def placed_heap podAddresses_raw split: if_splits)
    then have K: "(due_claims s)(d := due_claims s d - set (recordAddresses (at t d))) = left_claims now p s"
      by (simp add: left_claims_def leave(1) Diff_eq_empty_iff [THEN iffD2])
    have ct: "claims (due_claims s) t" using c by (simp add: leave(2))
    have stt: "stamps now t" using st' by (simp add: leave(2))
    have "precedence (due_claims s) s \<Longrightarrow> precedence (due_claims s) t"
      using precedence_placed [OF store_okD(1,4) [OF ok(1)], of now p] by (simp add: leave(2))
    moreover have "minted s \<Longrightarrow> minted (delete_record now (U ?s d) d t)"
      using minted_placed [of s now p] by (auto simp: leave(2) minted_def delete_record_effect tombstone_def)
    moreover have "U ?s d \<noteq> ap_UID p" using d(1,3) by (auto simp: placed_pods)
    ultimately show ?thesis
      using delete_record_pods_ok [of t] delete_record_nodes_ok [of t, OF _ td _ stt]
        delete_record_names_ok [of nm "{rec_of p s}" t, OF _ td _ stt] delete_record_claims [OF ct stt, of d "U ?s d"]
        p n k d(1)
      unfolding K leave(3) bump_inv
      by (simp add: leave(2)) (simp add: delete_record_effect placed_heap placed_fields placed_pods)
  qed
  then show "pods_ok (unseated now p s)" "nodes_ok (unseated now p s)" "names_ok nm {rec_of p s} (unseated now p s)"
    "claims (left_claims now p s) (unseated now p s)"
    "precedence (due_claims s) s \<Longrightarrow> precedence (left_claims now p s) (unseated now p s)"
    "minted s \<Longrightarrow> minted (unseated now p s)"
    "ipSeq (unseated now p s) = ipSeq s"
    "at (unseated now p s) (rec_of p s) = new_rec p s"
    "get (pods (unseated now p s)) (ap_UID p) = Some (rec_of p s)"
    by blast+
qed

text \<open>After the guard, every live record under the pod's name is the pod's own.\<close>
lemma unseated_name_free:
  assumes ok: "store_ok nm s" "same_name nm p" and st: "stamps now s"
    and x: "get (pods (unseated now p s)) u = Some x" "live (unseated now p s) x" "nm u = nm (ap_UID p)"
  shows "x = rec_of p s"
proof (rule ccontr)
  assume xr: "x \<noteq> rec_of p s"
  let ?s = "placed now p s"
  note k = placed_names_ok [OF store_okD(3,1) [OF ok(1)] ok(2), of now]
  have key: "name_key (fst (FromPod p)) = nm (ap_UID p)" by (rule same_name_key [OF ok(2)])
  have st': "stamps now ?s" using st by (simp add: stamps_def placed_fields)
  have held: "displaced now p s = Some x" if "get (pods ?s) u = Some x" "live ?s x"
    using names_okD(3) [OF k that] xr that x(3) by (simp add: displaced_def key)
  show False
    using k
  proof (cases rule: unseated_cases)
    case stay
    with held x show False by simp
  next
    case (leave d ns t)
    note d = displacedD [OF leave(1) k]
    have *: "get (pods ?s) u = Some x" "live ?s x" "\<not> (x = d)"
      using x(1,2) st' d(3) names_okD(1) [OF k]
      by (auto simp: leave(2,3) delete_record_effect tombstone_def stamps_def placed_fields split: if_splits
          dest: pods_okD [OF placed_pods_ok [OF store_okD(1) [OF ok(1)]]])
    with held leave(1) show False by simp
  qed
qed

lemma named_ok:
  assumes ok: "store_ok nm s" "same_name nm p" and st: "stamps now s"
  shows "pods_ok (named now p s)" "nodes_ok (named now p s)" "names_ok nm {} (named now p s)"
    "claims (left_claims now p s) (named now p s)"
    "precedence (due_claims s) s \<Longrightarrow> precedence (left_claims now p s) (named now p s)"
    "minted s \<Longrightarrow> minted (named now p s)"
    "ipSeq (named now p s) = ipSeq s"
    "at (named now p s) (rec_of p s) = new_rec p s"
    "get (pods (named now p s)) (ap_UID p) = Some (rec_of p s)"
proof -
  note u = unseated_ok [OF assms]
  have key: "name_key (fst (FromPod p)) = nm (ap_UID p)" by (rule same_name_key [OF ok(2)])
  show "names_ok nm {} (named now p s)"
  proof (rule names_okI)
    fix k x
    assume "get (byPodName (named now p s)) k = Some x"
    then have "k = nm (ap_UID p) \<and> x = rec_of p s \<or> get (byPodName (unseated now p s)) k = Some x"
      by (simp add: named_eq key split: if_splits)
    then show "get (pods (named now p s)) (U (named now p s) x) = Some x \<and> nm (U (named now p s) x) = k"
      using names_okD(1) [OF u(3), of k x] u(8,9) by (auto simp: named_eq)
  next
    fix uid x
    assume x: "get (pods (named now p s)) uid = Some x"
    then show "name_key (r_pod (at (named now p s) x)) = nm uid"
      using names_okD(2) [OF u(3), of uid x] by (simp add: named_eq)
    assume "live (named now p s) x"
    then show "get (byPodName (named now p s)) (nm uid) = Some x"
      using x names_okD(3) [OF u(3), of uid x] unseated_name_free [OF assms, of uid x]
        names_okD(1) [OF u(3), of "nm uid" x] pods_inj [OF u(1), of uid x "ap_UID p"] u(9)
      by (auto simp: named_eq key)
  qed
qed (use unseated_ok [OF assms] in \<open>simp_all add: named_eq pods_ok_def nodes_ok_def claims_def precedence_def elig_def minted_def\<close>)

subsection \<open>The upsert as a whole\<close>

lemma left_claims_known:
  assumes "left_claims now p s x \<noteq> {}"
  shows "get (pods s) (U s x) = Some x" "live s x" "displaced now p s \<noteq> Some x"
  using assms due_claims_known [of s x] by (auto simp: left_claims_def split: option.splits if_splits)

lemma named_others:
  assumes ok: "store_ok nm s" "same_name nm p" and st: "stamps now s" and x: "x \<noteq> rec_of p s"
  shows "U (named now p s) x = U s x" "due_claims (named now p s) x = left_claims now p s x"
proof -
  let ?s = "placed now p s"
  note k = placed_names_ok [OF store_okD(3,1) [OF ok(1)] ok(2), of now]
  note pok = placed_pods_ok [OF store_okD(1) [OF ok(1)], of now p]
  have px: "get (pods ?s) (U s x) = Some x \<longleftrightarrow> get (pods s) (U s x) = Some x"
    using x rec_of_other [OF store_okD(1) [OF ok(1)], of "U s x" x p] by (auto simp: placed_pods)
  have at: "at ?s x = at s x" using x by (simp add: placed_heap)
  have "U (named now p s) x = U s x \<and> due_claims (named now p s) x = left_claims now p s x"
    using k
  proof (cases rule: unseated_cases)
    case stay
    then show ?thesis by (simp add: named_eq due_claims_def left_claims_def at px)
  next
    case (leave d ns t)
    note d = displacedD [OF leave(1) k]
    have "get (pods ?s) (U ?s d) = Some x \<longleftrightarrow> x = d" using d(3) by auto
    then show ?thesis
      using st d(3) at px pods_okD [OF pok, of "U ?s d" x]
      by (cases "x = d") (auto simp: named_eq leave(2,3) left_claims_def leave(1) due_claims_def delete_record_effect
          tombstone_def stamps_def placed_fields)
  qed
  then show "U (named now p s) x = U s x" "due_claims (named now p s) x = left_claims now p s x" by simp_all
qed

lemma left_claims_inj:
  assumes ok: "store_ok nm s" "same_name nm p" and st: "stamps now s"
    and "ip \<in> left_claims now p s x" "U (named now p s) x = U (named now p s) (rec_of p s)"
  shows "x = rec_of p s"
proof (rule ccontr)
  assume x: "x \<noteq> rec_of p s"
  have "left_claims now p s x \<noteq> {}" using assms(4) by blast
  note * = left_claims_known(1) [OF this]
  have "U s x = ap_UID p"
    using assms(5) named_others(1) [OF ok st x] named_ok(8) [OF ok st] by simp
  with * x rec_of_other [OF store_okD(1) [OF ok(1)], of "U s x" x p] show False by simp
qed

lemma left_claims_old:
  assumes "store_ok nm s" "same_name nm p"
  shows "left_claims now p s (rec_of p s) \<subseteq> set (oldIPs p s)"
  using displacedD(1) [OF _ placed_names_ok [OF store_okD(3,1) [OF assms(1)] assms(2)], of now]
    due_claims_rec [OF store_okD(1) [OF assms(1)], of p]
  by (auto simp: left_claims_def split: option.splits)

lemma oldIPs_nonempty: "[] \<notin> set (oldIPs p s)"
  by (auto simp: oldIPs_def dest: podAddresses_nonempty split: option.splits)

lemma claimed_core: "(at (claimed now p s) x)\<lparr>r_ipSeq := 0\<rparr> = (at (named now p s) x)\<lparr>r_ipSeq := 0\<rparr>"
  unfolding claimed_def by (rule claimPodIPLocked_core)

lemmas claimed_fields [simp] = core_eqD [OF claimed_core]

lemma claimed_frames [simp]:
  "pods (claimed now p s) = pods (named now p s)" "byNode (claimed now p s) = byNode (named now p s)"
  "byPodName (claimed now p s) = byPodName (named now p s)" "next_ref (claimed now p s) = next_ref (named now p s)"
  "byContainer (claimed now p s) = byContainer (named now p s)" "pending (claimed now p s) = pending (named now p s)"
  "ttl (claimed now p s) = ttl (named now p s)" "gen (claimed now p s) = gen (named now p s)"
  "nodeGen (claimed now p s) = nodeGen (named now p s)" "waiters (claimed now p s) = waiters (named now p s)"
  "nWaiters (claimed now p s) = nWaiters (named now p s)" "closed (claimed now p s) = closed (named now p s)"
  "nExternal (claimed now p s) = nExternal (named now p s)" "maxWaiters (claimed now p s) = maxWaiters (named now p s)"
  "draining (claimed now p s) = draining (named now p s)" "next_chan (claimed now p s) = next_chan (named now p s)"
  by (simp_all add: claimed_def)

lemma due_claims_claimed:
  assumes ok: "store_ok nm s" "same_name nm p" and st: "stamps now s"
  shows "due_claims (claimed now p s) = (left_claims now p s)(rec_of p s := set (podAddresses (fst (FromPod p))))"
proof
  fix x
  have "due_claims (claimed now p s) x = due_claims (named now p s) x"
    by (simp add: due_claims_def)
  then show "due_claims (claimed now p s) x = ((left_claims now p s)(rec_of p s := set (podAddresses (fst (FromPod p))))) x"
    using named_others(2) [OF ok st, of x] named_ok(8,9) [OF ok st]
    by (cases "x = rec_of p s") (auto simp: due_claims_def)
qed

lemma gen_inv:
  "pods_ok (s\<lparr>gen := v\<rparr>) = pods_ok s" "nodes_ok (s\<lparr>gen := v\<rparr>) = nodes_ok s"
  "names_ok nm E (s\<lparr>gen := v\<rparr>) = names_ok nm E s" "claims K (s\<lparr>gen := v\<rparr>) = claims K s"
  "due_claims (s\<lparr>gen := v\<rparr>) = due_claims s" "due_claims (bumpLocked ns s) = due_claims s"
  by (simp_all add: pods_ok_def nodes_ok_def names_ok_def claims_def elig_def due_claims_def fun_eq_iff)

text \<open>An upsert keeps every index consistent.\<close>
lemma upsert_locked_ok:
  assumes ok: "store_ok nm s" "same_name nm p" and st: "stamps now s"
  shows "store_ok nm (upsert_locked now p s)"
proof (cases "resyncNoOp s p")
  case True
  then show ?thesis
    using ok(1) by (simp add: upsert_locked_noop store_ok_def gen_inv)
next
  case False
  note n = named_ok [OF ok st]
  have "claims (due_claims (claimed now p s)) (claimed now p s)"
    unfolding due_claims_claimed [OF ok st] unfolding claimed_def
    by (rule claimPodIPLocked_claims [OF n(4) left_claims_old [OF ok] oldIPs_nonempty])
      (rule left_claims_inj [OF ok st])
  then show ?thesis
    using n(1,2,3) False
    by (simp add: store_ok_def upsert_locked_eq bump_inv gen_inv) (simp add: pods_ok_def nodes_ok_def names_ok_def)
qed

text \<open>
  And it keeps the latest acquirer in front, for an update that does not gain an address while it
  retains one, as long as the 64-bit sequence does not wrap.
\<close>
definition ranked :: "store \<Rightarrow> bool" where
  "ranked s \<longleftrightarrow> precedence (due_claims s) s \<and> minted s"

lemma upsert_locked_ranked:
  assumes ok: "store_ok nm s" "same_name nm p" and st: "stamps now s" and r: "ranked s"
    and whole: "whole_update (oldIPs p s) (podAddresses (fst (FromPod p)))"
    and ub: "unat (ipSeq s) + length (podAddresses (fst (FromPod p))) < 2 ^ 64"
  shows "ranked (upsert_locked now p s)"
proof (cases "resyncNoOp s p")
  case True
  then show ?thesis
    using r by (simp add: upsert_locked_noop ranked_def precedence_def due_claims_def elig_def minted_def)
next
  case False
  note n = named_ok [OF ok st]
  have p: "precedence (due_claims (claimed now p s)) (claimed now p s)"
    unfolding due_claims_claimed [OF ok st] unfolding claimed_def
    by (rule claimPodIPLocked_precedence [OF n(4,5) left_claims_old [OF ok] oldIPs_nonempty n(6) _ whole])
      (use r ub n(7,8) in \<open>simp_all add: ranked_def left_claims_inj [OF ok st]\<close>)
  have "minted (claimed now p s)"
    unfolding claimed_def using claimPodIPLocked_minted [of "named now p s"] n r ub by (simp add: ranked_def)
  with p show ?thesis
    using False by (simp add: ranked_def upsert_locked_eq bump_inv gen_inv)
qed

subsection \<open>Delete and sweep\<close>

lemma store_ok_cong:
  assumes "pods s' = pods s" "next_ref s' = next_ref s" "heap s' = heap s" "byNode s' = byNode s"
    "byPodName s' = byPodName s" "byPodIP s' = byPodIP s" "ipClaimants s' = ipClaimants s"
  shows "store_ok nm s' = store_ok nm s"
proof -
  have "due_claims s' = due_claims s" "elig s' = elig s"
    by (simp_all add: fun_eq_iff due_claims_def elig_def assms)
  then show ?thesis
    by (simp add: store_ok_def pods_ok_def nodes_ok_def names_ok_def claims_def assms)
qed

lemma ranked_cong:
  assumes "pods s' = pods s" "heap s' = heap s" "byPodIP s' = byPodIP s" "ipSeq s' = ipSeq s"
  shows "ranked s' = ranked s"
proof -
  have "due_claims s' = due_claims s" "elig s' = elig s"
    by (simp_all add: fun_eq_iff due_claims_def elig_def assms)
  then show ?thesis by (simp add: ranked_def precedence_def minted_def assms)
qed

lemma due_claims_delete:
  assumes "pods_ok s" "get (pods s) u = Some r" "stamps now s"
  shows "due_claims (delete_record now u r s) =
    (due_claims s)(r := due_claims s r - set (recordAddresses (at s r)))"
proof
  fix x
  have U: "U s r = u" by (rule pods_okD [OF assms(1,2), THEN conjunct2])
  have "due_claims s r - set (recordAddresses (at s r)) = {}"
    by (auto simp: due_claims_def recordAddresses_def dest: podAddresses_raw split: if_splits)
  moreover have "get (pods s) u = Some x \<Longrightarrow> x = r" using assms(2) by simp
  ultimately show "due_claims (delete_record now u r s) x =
      ((due_claims s)(r := due_claims s r - set (recordAddresses (at s r)))) x"
    using assms(3) U
    by (cases "x = r") (auto simp: due_claims_def delete_record_effect tombstone_def stamps_def)
qed

lemma deletePodLocked_ok:
  assumes "store_ok nm s" "stamps now s"
  shows "store_ok nm (deletePodLocked now u s)"
    and "ranked s \<Longrightarrow> ranked (deletePodLocked now u s)"
proof -
  note ok = store_okD [OF assms(1)]
  have "store_ok nm (deletePodLocked now u s) \<and> (ranked s \<longrightarrow> ranked (deletePodLocked now u s))"
  proof (cases "get (pods s) u")
    case (Some r)
    note c = delete_record_claims [OF ok(4) assms(2), where r = r and u = u]
    have "minted s \<Longrightarrow> minted (delete_record now u r s)"
      by (auto simp: minted_def delete_record_effect tombstone_def)
    then show ?thesis
      using c delete_record_pods_ok [OF ok(1)] delete_record_nodes_ok [OF ok(2) Some ok(1) assms(2)]
        delete_record_names_ok [OF ok(3) Some ok(1) assms(2)]
      by (simp only: store_ok_def ranked_def deletePodLocked_known [OF Some] bump_inv gen_inv
          due_claims_delete [OF ok(1) Some assms(2)]) blast
  qed (use assms(1) in \<open>simp add: deletePodLocked_unknown\<close>)
  then show "store_ok nm (deletePodLocked now u s)" "ranked s \<Longrightarrow> ranked (deletePodLocked now u s)"
    by blast+
qed

lemma dropClaimantLocked_keeps:
  assumes "claims K s" "K r = {}"
  shows "claims K (dropClaimantLocked ip r s)"
proof -
  have "K(r := K r - {ip}) = K" using assms(2) by (auto simp: fun_eq_iff)
  then show ?thesis
    using dropClaimantLocked_claims [OF assms(1), of ip r] claimsD(4,5) [OF assms(1)]
    by (intro claimsI) (simp_all add: elig_def)
qed

lemma drop_all_keeps:
  "claims K s \<Longrightarrow> K r = {} \<Longrightarrow> claims K (fold (\<lambda>ip. dropClaimantLocked ip r) ips s)"
  by (induction ips arbitrary: s) (auto intro: dropClaimantLocked_keeps)

lemma sweepPodLocked_effect:
  "pods (sweepPodLocked now u s) =
     (case get (pods s) u of
        Some r \<Rightarrow> if expired (r_expireAt (at s r)) now then del u (pods s) else pods s
      | None \<Rightarrow> pods s)"
  by (simp add: sweepPodLocked_def removeRecordLocked_effect split: option.splits)

lemma sweepPodLocked_ok:
  assumes "store_ok nm s"
  shows "store_ok nm (sweepPodLocked now u s)" "ranked s \<Longrightarrow> ranked (sweepPodLocked now u s)"
proof -
  note ok = store_okD [OF assms]
  have "store_ok nm (sweepPodLocked now u s) \<and> (ranked s \<longrightarrow> ranked (sweepPodLocked now u s))"
  proof (cases "\<exists>r. get (pods s) u = Some r \<and> expired (r_expireAt (at s r)) now")
    case False
    then show ?thesis using assms by (auto simp: sweepPodLocked_def split: option.splits)
  next
    case True
    then obtain r where r: "get (pods s) u = Some r" "expired (r_expireAt (at s r)) now" by blast
    let ?s = "sweepPodLocked now u s" and ?t = "fold (\<lambda>ip. dropClaimantLocked ip r) (recordAddresses (at s r)) s"
    have s': "?s = removeRecordLocked r u ?t" using r by (simp add: sweepPodLocked_def)
    have dead: "\<not> live s r" using r(2) by (simp add: expired_def)
    have U: "U s r = u" by (rule pods_okD [OF ok(1) r(1), THEN conjunct2])
    have eq: "pods ?s = del u (pods s)" "heap ?s = heap s" "byNode ?s = byNode s" "byPodIP ?s = byPodIP s"
      "byPodName ?s = byPodName (dropNameIndexLocked r s)" "ipClaimants ?s = ipClaimants ?t"
      "next_ref ?s = next_ref s" "ipSeq ?s = ipSeq s"
      by (simp_all add: s' removeRecordLocked_effect dropNameIndexLocked_def Let_def)
    have due: "due_claims ?s = due_claims s"
      using dead r(1) U by (auto simp: fun_eq_iff due_claims_def eq)
    have "due_claims s r = {}" using dead by (simp add: due_claims_def)
    then have "claims (due_claims s) ?t" by (intro drop_all_keeps ok(4))
    then have c: "claims (due_claims s) ?s"
      by (rule claims_cong [rotated -1]) (simp_all add: eq elig_def)
    have n: "nodes_ok ?s"
      using dead r(1) nodes_okD [OF ok(2)] by (intro nodes_okI) (auto simp: eq)
    have byName: "get (byPodName ?s) k = (if get (byPodName s) (nm u) = Some r \<and> k = nm u then None else get (byPodName s) k)" for k
      using names_okD(2) [OF ok(3) r(1)] by (auto simp: eq dropNameIndexLocked_def Let_def)
    have k: "names_ok nm {} ?s"
    proof (rule names_okI)
      fix k x
      assume "get (byPodName ?s) k = Some x"
      then have x: "get (byPodName s) k = Some x" "x \<noteq> r"
        using names_okD(1) [OF ok(3), of k r] U by (auto simp: byName split: if_splits)
      then show "get (pods ?s) (U ?s x) = Some x \<and> nm (U ?s x) = k"
        using names_okD(1) [OF ok(3) x(1)] r(1) by (auto simp: eq)
    next
      fix u' x
      assume x: "get (pods ?s) u' = Some x"
      then show "name_key (r_pod (at ?s x)) = nm u'"
        using names_okD(2) [OF ok(3), of u' x] by (simp add: eq split: if_splits)
      assume "live ?s x" "x \<notin> {}"
      then show "get (byPodName ?s) (nm u') = Some x"
        using names_okD(3) [OF ok(3), of u' x] x dead by (auto simp: eq(1,2) byName split: if_splits)
    qed
    have "pods_ok ?s" using ok(1) by (auto simp: pods_ok_def eq)
    then show ?thesis
      using n k c by (simp add: store_ok_def due ranked_def) (simp add: precedence_def elig_def minted_def eq, blast)
  qed
  then show "store_ok nm (sweepPodLocked now u s)" "ranked s \<Longrightarrow> ranked (sweepPodLocked now u s)" by blast+
qed

lemma sweep_loop_ok:
  "store_ok nm s \<Longrightarrow> store_ok nm (snd (sweep_loop now ps n s))"
  "store_ok nm s \<Longrightarrow> ranked s \<Longrightarrow> ranked (snd (sweep_loop now ps n s))"
proof (induction ps arbitrary: n s)
  case (Cons q ps)
  have c: "store_ok nm (sweepContainerLocked now i s) = store_ok nm s" "ranked (sweepContainerLocked now i s) = ranked s" for i s
    by (rule store_ok_cong ranked_cong; simp)+
  have step: "store_ok nm s \<Longrightarrow> store_ok nm (if p_isPod q then sweepPodLocked now (p_uid q) s else sweepContainerLocked now (p_id q) s)"
    "store_ok nm s \<Longrightarrow> ranked s \<Longrightarrow>
       ranked (if p_isPod q then sweepPodLocked now (p_uid q) s else sweepContainerLocked now (p_id q) s)" for s
    using sweepPodLocked_ok [of nm s now "p_uid q"] by (simp_all add: c)
  { case 1 show ?case using Cons.IH(1) [OF step(1) [OF 1]] 1 by (simp del: if_split) }
  { case 2 show ?case using Cons.IH(2) [OF step(1) [OF 2(1)] step(2) [OF 2]] 2 by (simp del: if_split) }
qed simp_all

lemma sweep_eq:
  "sweep now s = (let (n, t) = sweep_loop now (pending s) 0 s in
     if n = 0 then t else bumpLocked [] (t\<lparr>pending := drop n (pending t)\<rparr>))"
  by (simp add: sweep_def case_prod_beta)

lemma sweep_ok:
  assumes "store_ok nm s"
  shows "store_ok nm (sweep now s)" "ranked s \<Longrightarrow> ranked (sweep now s)"
proof -
  let ?t = "snd (sweep_loop now (pending s) 0 s)"
  have "store_ok nm (bumpLocked [] (?t\<lparr>pending := v\<rparr>)) = store_ok nm ?t"
    "ranked (bumpLocked [] (?t\<lparr>pending := v\<rparr>)) = ranked ?t" for v
    by (rule store_ok_cong ranked_cong; simp)+
  then show "store_ok nm (sweep now s)" "ranked s \<Longrightarrow> ranked (sweep now s)"
    using sweep_loop_ok [OF assms, of now "pending s" 0] by (simp_all add: sweep_eq Let_def case_prod_beta)
qed

end
