(* ===== verification/StoreExpiry.thy ===== *)
theory StoreExpiry
  imports StoreInv
begin

section \<open>Container entries, tombstones and the sweep\<close>

text \<open>
  The container index and the pending list. The invariant says which entries are live and which
  are stamped, that a stamped entry lapses no later than its pod, and that every stamp is on the
  pending list, which is in expiry order. From it follows that the sweep, which only walks the
  list, removes exactly what a scan of the whole store would.
\<close>

declare FromPod_fields(9) [simp del]

subsection \<open>What the loops over container IDs do\<close>

definition own_live :: "uid \<Rightarrow> containerEntry \<Rightarrow> bool" where
  "own_live u e \<longleftrightarrow> e_podUID e = u \<and> e_expireAt e = 0"

lemma stamp_containers_get:
  "w \<noteq> 0 \<Longrightarrow> get (byContainer (fold (stamp_container u w) ids s)) i =
     (case get (byContainer s) i of
        Some e \<Rightarrow> Some (if i \<in> set ids \<and> own_live u e then e\<lparr>e_expireAt := w\<rparr> else e)
      | None \<Rightarrow> None)"
proof (induction ids arbitrary: s)
  case (Cons j ids)
  have "get (byContainer (stamp_container u w j s)) i =
     (case get (byContainer s) i of
        Some e \<Rightarrow> Some (if i = j \<and> own_live u e then e\<lparr>e_expireAt := w\<rparr> else e)
      | None \<Rightarrow> None)"
    by (auto simp: stamp_container_def stampLocked_def own_live_def split: option.splits)
  with Cons show ?case by (auto simp: own_live_def split: option.splits)
qed (simp split: option.splits)

lemma stamp_containers_pending:
  "w \<noteq> 0 \<Longrightarrow> \<exists>qs. pending (fold (stamp_container u w) ids s) = pending s @ qs \<and>
     (\<forall>q \<in> set qs. p_when q = w) \<and>
     (\<forall>i e. get (byContainer s) i = Some e \<and> i \<in> set ids \<and> own_live u e \<longrightarrow>
        (\<exists>q \<in> set qs. \<not> p_isPod q \<and> p_id q = i))"
proof (induction ids arbitrary: s)
  case (Cons j ids)
  let ?t = "stamp_container u w j s"
  from Cons obtain qs where qs: "pending (fold (stamp_container u w) ids ?t) = pending ?t @ qs"
    "\<forall>q \<in> set qs. p_when q = w"
    "\<And>i e. get (byContainer ?t) i = Some e \<Longrightarrow> i \<in> set ids \<Longrightarrow> own_live u e \<Longrightarrow> \<exists>q \<in> set qs. \<not> p_isPod q \<and> p_id q = i"
    by blast
  show ?case
  proof (cases "\<exists>e. get (byContainer s) j = Some e \<and> own_live u e")
    case True
    let ?q = "\<lparr>p_when = w, p_uid = [], p_id = j, p_isPod = False\<rparr>"
    from True have t: "pending ?t = pending s @ [?q]" "\<And>i. i \<noteq> j \<Longrightarrow> get (byContainer ?t) i = get (byContainer s) i"
      by (auto simp: stamp_container_def stampLocked_def own_live_def)
    show ?thesis
    proof (intro exI [of _ "?q # qs"] conjI allI impI)
      show "pending (fold (stamp_container u w) (j # ids) s) = pending s @ ?q # qs" using qs(1) t(1) by simp
      show "\<forall>q \<in> set (?q # qs). p_when q = w" using qs(2) by simp
      fix i e
      assume "get (byContainer s) i = Some e \<and> i \<in> set (j # ids) \<and> own_live u e"
      then show "\<exists>q \<in> set (?q # qs). \<not> p_isPod q \<and> p_id q = i"
        using qs(3) [of i e] t(2) [of i] by (cases "i = j") auto
    qed
  next
    case False
    then have "?t = s" by (auto simp: stamp_container_def own_live_def split: option.splits)
    with qs False show ?thesis by (intro exI [of _ qs]) auto
  qed
qed simp

lemma drop_own_containers_get:
  "get (byContainer (fold (drop_own_container u) ids s)) i =
     (case get (byContainer s) i of
        Some e \<Rightarrow> if i \<in> set ids \<and> e_podUID e = u then None else Some e
      | None \<Rightarrow> None)"
proof (induction ids arbitrary: s)
  case (Cons j ids)
  have "get (byContainer (drop_own_container u j s)) i =
     (case get (byContainer s) i of
        Some e \<Rightarrow> if i = j \<and> e_podUID e = u then None else Some e
      | None \<Rightarrow> None)"
    by (auto simp: drop_own_container_def split: option.splits)
  with Cons show ?case by (auto split: option.splits)
qed (simp split: option.splits)

lemma index_all_get:
  "get (byContainer (fold (index_one u) cs s)) i =
     (case map_of (rev cs) i of
        Some c \<Rightarrow> Some \<lparr>e_podUID = u, e_container = c, e_expireAt = 0\<rparr>
      | None \<Rightarrow> get (byContainer s) i)"
proof (induction cs arbitrary: s)
  case (Cons ic cs)
  have "get (byContainer (index_one u ic s)) i =
     (if i = fst ic then Some \<lparr>e_podUID = u, e_container = snd ic, e_expireAt = 0\<rparr> else get (byContainer s) i)"
    by (cases ic) (simp add: index_one_def)
  with Cons show ?case by (cases ic) (auto simp: map_add_def split: option.splits)
qed simp

lemma index_one_pending: "pending (fold (index_one u) cs s) = pending s"
  by simp

lemma retire_one_eq:
  "retire_one now u ids i s =
     (if i \<in> set ids then s
      else if ttl s \<le> 0 then
        (case get (byContainer s) i of
           Some e \<Rightarrow> if own_live u e then s\<lparr>byContainer := del i (byContainer s)\<rparr> else s
         | None \<Rightarrow> s)
      else stamp_container u (now + ttl s) i s)"
  by (simp add: retire_one_def stamp_container_def expireEntryLocked_def own_live_def Let_def split: option.splits)

text \<open>With a tombstone cache, retiring is stamping; without one, it is removing.\<close>
lemma retire_all_stamps:
  "0 < ttl s \<Longrightarrow> fold (retire_one now u ids) old s =
     fold (stamp_container u (now + ttl s)) (filter (\<lambda>i. i \<notin> set ids) old) s"
  by (induction old arbitrary: s) (auto simp: retire_one_eq)

lemma retire_all_removes:
  "ttl s \<le> 0 \<Longrightarrow> get (byContainer (fold (retire_one now u ids) old s)) i =
     (case get (byContainer s) i of
        Some e \<Rightarrow> if i \<in> set old \<and> i \<notin> set ids \<and> own_live u e then None else Some e
      | None \<Rightarrow> None)"
proof (induction old arbitrary: s)
  case (Cons j old)
  let ?t = "retire_one now u ids j s"
  have "get (byContainer ?t) i =
     (case get (byContainer s) i of
        Some e \<Rightarrow> if i = j \<and> i \<notin> set ids \<and> own_live u e then None else Some e
      | None \<Rightarrow> None)"
    using Cons.prems by (auto simp: retire_one_eq split: option.splits)
  with Cons show ?case by (auto split: option.splits)
qed (simp split: option.splits)

lemma retire_all_no_stamp: "ttl s \<le> 0 \<Longrightarrow> pending (fold (retire_one now u ids) old s) = pending s"
  by (induction old arbitrary: s) (auto simp: retire_one_eq split: option.splits)

lemma byID_wf: "wf_map (snd (FromPod p))"
proof -
  have "wf_map (snd (fold (add_container sts ty) acs acc))" if "wf_map (snd acc)" for sts ty acs acc
    using that by (induction acs arbitrary: acc)
      (auto simp: add_container_def Let_def case_prod_beta split: option.splits)
  then show ?thesis by (simp add: FromPod_fields(9) convert_all_def Let_def)
qed

text \<open>The container index after an upsert.\<close>
definition reported :: "APIPod \<Rightarrow> string set" where
  "reported p = fst ` set (snd (FromPod p))"

lemma indexed_unfold:
  obtains t where "indexed now p s = fold (retire_one now (ap_UID p) (map fst (snd (FromPod p)))) (oldIDs p s) t"
    "byContainer t = byContainer (fold (index_one (ap_UID p)) (snd (FromPod p)) (fill_record p (rec_of p s) (snd (alloc (ap_UID p) s))))"
    "ttl t = ttl s" "pending t = pending s"
  by (simp add: indexed_def indexContainersLocked_def Let_def)

lemma indexed_entry:
  assumes "stamps now s"
  shows "get (byContainer (indexed now p s)) i =
     (case get (snd (FromPod p)) i of
        Some c \<Rightarrow> Some \<lparr>e_podUID = ap_UID p, e_container = c, e_expireAt = 0\<rparr>
      | None \<Rightarrow>
          (case get (byContainer s) i of
             None \<Rightarrow> None
           | Some e \<Rightarrow>
               if i \<in> set (oldIDs p s) \<and> own_live (ap_UID p) e
               then (if ttl s \<le> 0 then None else Some (e\<lparr>e_expireAt := now + ttl s\<rparr>))
               else Some e))"
proof -
  let ?cs = "snd (FromPod p)"
  obtain t where t: "indexed now p s = fold (retire_one now (ap_UID p) (map fst ?cs)) (oldIDs p s) t"
    "byContainer t = byContainer (fold (index_one (ap_UID p)) ?cs (fill_record p (rec_of p s) (snd (alloc (ap_UID p) s))))"
    "ttl t = ttl s"
    by (rule indexed_unfold)
  have rv: "map_of (rev ?cs) = map_of ?cs"
    by (metis byID_wf distinct_rev map_of_inject_set rev_map set_rev)
  have mem: "i \<in> set (map fst ?cs) \<longleftrightarrow> get ?cs i \<noteq> None" by (simp add: map_of_eq_None_iff)
  show ?thesis
  proof (cases "ttl s \<le> 0")
    case True
    then show ?thesis
      using mem unfolding t(1) retire_all_removes [OF eq_refl [OF t(3), THEN order_trans, OF True]]
      by (auto simp: t(2) index_all_get rv split: option.splits)
  next
    case False
    then have w: "0 < ttl t" "now + ttl t \<noteq> 0" using assms t(3) by (auto simp: stamps_def)
    show ?thesis
      using mem False unfolding t(1) retire_all_stamps [OF w(1)] stamp_containers_get [OF w(2)]
      by (auto simp: t(2,3) index_all_get rv own_live_def split: option.splits)
  qed
qed

lemma indexed_pending:
  assumes "stamps now s"
  shows "\<exists>qs. pending (indexed now p s) = pending s @ qs \<and> (\<forall>q \<in> set qs. p_when q = now + ttl s) \<and>
    (ttl s \<le> 0 \<longrightarrow> qs = []) \<and>
    (0 < ttl s \<longrightarrow> (\<forall>i e. get (byContainer s) i = Some e \<and> i \<notin> reported p \<and> i \<in> set (oldIDs p s) \<and> own_live (ap_UID p) e \<longrightarrow>
        (\<exists>q \<in> set qs. \<not> p_isPod q \<and> p_id q = i)))"
proof -
  let ?cs = "snd (FromPod p)"
  obtain t where t: "indexed now p s = fold (retire_one now (ap_UID p) (map fst ?cs)) (oldIDs p s) t"
    "byContainer t = byContainer (fold (index_one (ap_UID p)) ?cs (fill_record p (rec_of p s) (snd (alloc (ap_UID p) s))))"
    "ttl t = ttl s" "pending t = pending s"
    by (rule indexed_unfold)
  show ?thesis
  proof (cases "ttl s \<le> 0")
    case True
    then show ?thesis by (simp add: t retire_all_no_stamp)
  next
    case False
    then have w: "0 < ttl t" "now + ttl t \<noteq> 0" using assms t(3) by (auto simp: stamps_def)
    have "get (byContainer t) i = get (byContainer s) i" if "i \<notin> reported p" for i
      using that by (auto simp: t(2) index_all_get reported_def map_of_eq_None_iff split: option.splits dest: map_of_SomeD)
        (metis fst_conv image_eqI map_of_SomeD set_rev)
    then show ?thesis
      using stamp_containers_pending [OF w(2), of "ap_UID p" "filter (\<lambda>i. i \<notin> set (map fst ?cs)) (oldIDs p s)" t] False
      unfolding t(1) retire_all_stamps [OF w(1)] t(3,4) by (fastforce simp: reported_def)
  qed
qed

subsection \<open>The invariant\<close>

text \<open>
  \<open>own\<close> gives the pod of a container ID: runtime IDs are unique in the cluster. \<open>t\<close> is the last
  clock reading.
\<close>
abbreviation ids :: "store \<Rightarrow> ref \<Rightarrow> string list" where
  "ids s r \<equiv> r_containerIDs (at s r)"

definition entries_ok :: "(string \<Rightarrow> uid) \<Rightarrow> store \<Rightarrow> bool" where
  "entries_ok own s \<longleftrightarrow>
     (\<forall>i e. get (byContainer s) i = Some e \<longrightarrow> e_podUID e = own i) \<and>
     (\<forall>i e. get (byContainer s) i = Some e \<and> e_expireAt e = 0 \<longrightarrow>
        (\<exists>r. get (pods s) (own i) = Some r \<and> live s r \<and> i \<in> set (ids s r))) \<and>
     (\<forall>u r i. get (pods s) u = Some r \<and> i \<in> set (ids s r) \<longrightarrow>
        own i = u \<and> (live s r \<longrightarrow> (\<exists>e. get (byContainer s) i = Some e \<and> e_expireAt e = 0))) \<and>
     (\<forall>i e r. get (byContainer s) i = Some e \<and> get (pods s) (own i) = Some r \<and> \<not> live s r \<longrightarrow>
        e_expireAt e \<le> r_expireAt (at s r))"

definition pending_ok :: "instant \<Rightarrow> store \<Rightarrow> bool" where
  "pending_ok t s \<longleftrightarrow>
     sorted (map p_when (pending s)) \<and>
     (\<forall>q \<in> set (pending s). 0 < p_when q \<and> p_when q \<le> t + ttl s) \<and>
     (ttl s \<le> 0 \<longrightarrow> pending s = []) \<and>
     (\<forall>i e. get (byContainer s) i = Some e \<and> e_expireAt e \<noteq> 0 \<longrightarrow>
        (\<exists>q \<in> set (pending s). \<not> p_isPod q \<and> p_id q = i \<and> p_when q = e_expireAt e)) \<and>
     (\<forall>u r. get (pods s) u = Some r \<and> \<not> live s r \<longrightarrow>
        (\<exists>q \<in> set (pending s). p_isPod q \<and> p_uid q = u \<and> p_when q = r_expireAt (at s r)))"

lemma entries_okD:
  assumes "entries_ok own s"
  shows "get (byContainer s) i = Some e \<Longrightarrow> e_podUID e = own i"
    "get (byContainer s) i = Some e \<Longrightarrow> e_expireAt e = 0 \<Longrightarrow>
       \<exists>r. get (pods s) (own i) = Some r \<and> live s r \<and> i \<in> set (ids s r)"
    "get (pods s) u = Some r \<Longrightarrow> i \<in> set (ids s r) \<Longrightarrow> own i = u"
    "get (pods s) u = Some r \<Longrightarrow> i \<in> set (ids s r) \<Longrightarrow> live s r \<Longrightarrow>
       \<exists>e. get (byContainer s) i = Some e \<and> e_expireAt e = 0"
    "get (byContainer s) i = Some e \<Longrightarrow> get (pods s) (own i) = Some r \<Longrightarrow> \<not> live s r \<Longrightarrow>
       e_expireAt e \<le> r_expireAt (at s r)"
  using assms unfolding entries_ok_def by blast+

lemma entries_okI:
  assumes "\<And>i e. get (byContainer s) i = Some e \<Longrightarrow> e_podUID e = own i"
    "\<And>i e. get (byContainer s) i = Some e \<Longrightarrow> e_expireAt e = 0 \<Longrightarrow>
       \<exists>r. get (pods s) (own i) = Some r \<and> live s r \<and> i \<in> set (ids s r)"
    "\<And>u r i. get (pods s) u = Some r \<Longrightarrow> i \<in> set (ids s r) \<Longrightarrow> own i = u"
    "\<And>u r i. get (pods s) u = Some r \<Longrightarrow> i \<in> set (ids s r) \<Longrightarrow> live s r \<Longrightarrow>
       \<exists>e. get (byContainer s) i = Some e \<and> e_expireAt e = 0"
    "\<And>i e r. get (byContainer s) i = Some e \<Longrightarrow> get (pods s) (own i) = Some r \<Longrightarrow> \<not> live s r \<Longrightarrow>
       e_expireAt e \<le> r_expireAt (at s r)"
  shows "entries_ok own s"
  unfolding entries_ok_def using assms by blast

lemma pending_okD:
  assumes "pending_ok t s"
  shows "sorted (map p_when (pending s))"
    "q \<in> set (pending s) \<Longrightarrow> 0 < p_when q \<and> p_when q \<le> t + ttl s"
    "ttl s \<le> 0 \<Longrightarrow> pending s = []"
    "get (byContainer s) i = Some e \<Longrightarrow> e_expireAt e \<noteq> 0 \<Longrightarrow>
       \<exists>q \<in> set (pending s). \<not> p_isPod q \<and> p_id q = i \<and> p_when q = e_expireAt e"
    "get (pods s) u = Some r \<Longrightarrow> \<not> live s r \<Longrightarrow>
       \<exists>q \<in> set (pending s). p_isPod q \<and> p_uid q = u \<and> p_when q = r_expireAt (at s r)"
  using assms unfolding pending_ok_def by blast+

lemma pending_okI:
  assumes "sorted (map p_when (pending s))"
    "\<And>q. q \<in> set (pending s) \<Longrightarrow> 0 < p_when q \<and> p_when q \<le> t + ttl s"
    "ttl s \<le> 0 \<Longrightarrow> pending s = []"
    "\<And>i e. get (byContainer s) i = Some e \<Longrightarrow> e_expireAt e \<noteq> 0 \<Longrightarrow>
       \<exists>q \<in> set (pending s). \<not> p_isPod q \<and> p_id q = i \<and> p_when q = e_expireAt e"
    "\<And>u r. get (pods s) u = Some r \<Longrightarrow> \<not> live s r \<Longrightarrow>
       \<exists>q \<in> set (pending s). p_isPod q \<and> p_uid q = u \<and> p_when q = r_expireAt (at s r)"
  shows "pending_ok t s"
  unfolding pending_ok_def using assms by blast

text \<open>Appending stamps of the present keeps the list in order.\<close>
lemma pending_append:
  assumes "pending_ok t s" "t \<le> now" "0 < now" "0 < ttl s" "\<forall>q \<in> set qs. p_when q = now + ttl s"
  shows "sorted (map p_when (pending s @ qs))"
    "q \<in> set (pending s @ qs) \<Longrightarrow> 0 < p_when q \<and> p_when q \<le> now + ttl s"
proof -
  have le: "0 < p_when q \<and> p_when q \<le> now + ttl s" if "q \<in> set (pending s)" for q
    using pending_okD(2) [OF assms(1) that] assms(2) by linarith
  have "map p_when qs = replicate (length qs) (now + ttl s)"
    using assms(5) by (auto simp: list_eq_iff_nth_eq)
  then show "sorted (map p_when (pending s @ qs))"
    using pending_okD(1) [OF assms(1)] le by (auto simp: sorted_append)
  show "q \<in> set (pending s @ qs) \<Longrightarrow> 0 < p_when q \<and> p_when q \<le> now + ttl s"
    using le [of q] assms(3,4,5) by auto
qed

lemma entries_ok_cong:
  assumes "byContainer s' = byContainer s" "pods s' = pods s" "\<And>r. r_expireAt (at s' r) = r_expireAt (at s r)"
    "\<And>r. ids s' r = ids s r"
  shows "entries_ok own s' = entries_ok own s"
  by (simp add: entries_ok_def assms)

lemma pending_ok_cong:
  assumes "byContainer s' = byContainer s" "pods s' = pods s" "\<And>r. r_expireAt (at s' r) = r_expireAt (at s r)"
    "pending s' = pending s" "ttl s' = ttl s"
  shows "pending_ok t s' = pending_ok t s"
  by (simp add: pending_ok_def assms)

lemma pending_ok_mono: "pending_ok t s \<Longrightarrow> t \<le> now \<Longrightarrow> pending_ok now s"
  by (intro pending_okI) (use pending_okD [of t s] in \<open>fastforce+\<close>)

subsection \<open>Delete\<close>

lemma delete_record_entry:
  assumes "stamps now s"
  shows "get (byContainer (delete_record now u r s)) i =
     (case get (byContainer s) i of
        None \<Rightarrow> None
      | Some e \<Rightarrow>
          if ttl s \<le> 0 then (if i \<in> set (ids s r) \<and> e_podUID e = u then None else Some e)
          else Some (if i \<in> set (ids s r) \<and> own_live u e then e\<lparr>e_expireAt := now + ttl s\<rparr> else e))"
proof (cases "ttl s \<le> 0")
  case True
  then show ?thesis
    by (simp add: delete_record_def Let_def removeRecordLocked_def drop_own_containers_get split: option.splits)
next
  case False
  with assms have "now + ttl s \<noteq> 0" by (simp add: stamps_def)
  with False show ?thesis
    by (simp add: delete_record_def Let_def stamp_containers_get stampLocked_def split: option.splits)
qed

lemma delete_record_pending:
  assumes "stamps now s"
  shows "\<exists>qs. pending (delete_record now u r s) = pending s @ qs \<and> (ttl s \<le> 0 \<longrightarrow> qs = []) \<and>
    (\<forall>q \<in> set qs. p_when q = now + ttl s) \<and>
    (0 < ttl s \<longrightarrow> (\<exists>q \<in> set qs. p_isPod q \<and> p_uid q = u) \<and>
       (\<forall>i e. get (byContainer s) i = Some e \<and> i \<in> set (ids s r) \<and> own_live u e \<longrightarrow>
          (\<exists>q \<in> set qs. \<not> p_isPod q \<and> p_id q = i)))"
proof (cases "ttl s \<le> 0")
  case True
  then show ?thesis by (simp add: delete_record_def Let_def)
next
  case False
  with assms have w: "now + ttl s \<noteq> 0" by (simp add: stamps_def)
  let ?q = "\<lparr>p_when = now + ttl s, p_uid = u, p_id = [], p_isPod = True\<rparr>"
  let ?t1 = "fold (releaseIPLocked r) (recordAddresses (at s r)) (removeFromNodeLocked (node s r) u s)"
  let ?t = "stampLocked ?q (set_rec r (tombstone now s r) ?t1)"
  obtain qs where qs: "pending (fold (stamp_container u (now + ttl s)) (ids s r) ?t) = pending ?t @ qs"
    "\<forall>q \<in> set qs. p_when q = now + ttl s"
    "\<And>i e. get (byContainer ?t) i = Some e \<Longrightarrow> i \<in> set (ids s r) \<Longrightarrow> own_live u e \<Longrightarrow>
        \<exists>q \<in> set qs. \<not> p_isPod q \<and> p_id q = i"
    using stamp_containers_pending [OF w, of u "ids s r" ?t] by blast
  have "delete_record now u r s = fold (stamp_container u (now + ttl s)) (ids s r) ?t"
    using False by (simp add: delete_record_def Let_def tombstone_def)
  with False qs show ?thesis
    by (intro exI [of _ "?q # qs"]) (auto simp: stampLocked_def)
qed

lemma delete_record_entries_ok:
  assumes "entries_ok own s" "pending_ok t s" "t \<le> now" "stamps now s" "pods_ok s" "get (pods s) u = Some r"
  shows "entries_ok own (delete_record now u r s)"
proof -
  let ?s = "delete_record now u r s"
  note E = entries_okD [OF assms(1)] and get = delete_record_entry [OF assms(4), of u r]
  have inj: "x \<noteq> r \<longleftrightarrow> u' \<noteq> u" if "get (pods s) u' = Some x" for u' x
    using that assms(6) pods_inj [OF assms(5,6), of u'] by (cases "x = r") auto
  have mine: "e_podUID e = u \<and> i \<in> set (ids s r)"
    if "get (byContainer s) i = Some e" "e_expireAt e = 0" "own i = u" for i e
    using E(1) [OF that(1)] E(2) [OF that(1,2)] that(3) assms(6) by auto
  have idr: "ids ?s x = ids s x" for x by (simp add: delete_record_effect tombstone_def)
  have others: "get (byContainer ?s) i = get (byContainer s) i" if "own i \<noteq> u" for i
    using that E(1) by (auto simp: get own_live_def split: option.splits)
  show ?thesis
  proof (rule entries_okI)
    fix i e
    assume e: "get (byContainer ?s) i = Some e"
    then obtain e0 where e0: "get (byContainer s) i = Some e0" "e_podUID e = e_podUID e0"
      by (auto simp: get split: option.splits if_splits)
    show "e_podUID e = own i" using e0 E(1) by simp
    show "\<exists>x. get (pods ?s) (own i) = Some x \<and> live ?s x \<and> i \<in> set (ids ?s x)" if "e_expireAt e = 0"
    proof -
      have z: "e_expireAt e0 = 0" "own i \<noteq> u" using that e e0 mine [OF e0(1)] assms(4) E(1) [OF e0(1)]
        by (auto simp: get own_live_def stamps_def split: if_splits)
      then obtain x where "get (pods s) (own i) = Some x" "live s x" "i \<in> set (ids s x)"
        using E(2) [OF e0(1)] by blast
      with inj [of "own i" x] z(2) show ?thesis by (auto simp: delete_record_effect)
    qed
    fix x
    assume x: "get (pods ?s) (own i) = Some x" "\<not> live ?s x"
    then have x0: "get (pods s) (own i) = Some x" by (auto simp: delete_record_effect split: if_splits)
    show "e_expireAt e \<le> r_expireAt (at ?s x)"
    proof (cases "own i = u")
      case True
      then have xr: "x = r" using inj [OF x0] by simp
      then have ttl: "\<not> ttl s \<le> 0" using x(1) True by (auto simp: delete_record_effect)
      have "e_expireAt e0 \<noteq> 0 \<Longrightarrow> e_expireAt e0 \<le> now + ttl s"
        using pending_okD(4) [OF assms(2) e0(1)] pending_okD(2) [OF assms(2)] assms(3) by force
      moreover have "e_expireAt e = now + ttl s" if "e_expireAt e0 = 0"
        using mine [OF e0(1) that True] e that ttl by (simp add: get e0(1) own_live_def) auto
      moreover have "e_expireAt e0 \<noteq> 0 \<Longrightarrow> e = e0" using e ttl by (simp add: get e0(1) own_live_def)
      ultimately show ?thesis using xr ttl by (cases "e_expireAt e0 = 0") (auto simp: delete_record_effect tombstone_def)
    next
      case False
      then have "x \<noteq> r" using inj [OF x0] by simp
      with False x x0 E(5) [of i e x] e others show ?thesis by (auto simp: delete_record_effect split: if_splits)
    qed
  next
    fix u' x i
    assume x: "get (pods ?s) u' = Some x" "i \<in> set (ids ?s x)"
    then have x0: "get (pods s) u' = Some x" "i \<in> set (ids s x)"
      by (auto simp: delete_record_effect idr split: if_splits) (simp_all add: tombstone_def)
    show o: "own i = u'" by (rule E(3) [OF x0])
    assume "live ?s x"
    with x(1) assms(4,6) inj [OF x0(1)] have "u' \<noteq> u" "live s x"
      by (auto simp: delete_record_effect tombstone_def stamps_def split: if_splits)
    with E(4) [OF x0] others o show "\<exists>e. get (byContainer ?s) i = Some e \<and> e_expireAt e = 0" by simp
  qed
qed

lemma delete_record_pending_ok:
  assumes "pending_ok t s" "t \<le> now" "0 < now" "entries_ok own s" "pods_ok s" "get (pods s) u = Some r"
  shows "pending_ok now (delete_record now u r s)"
proof -
  let ?s = "delete_record now u r s"
  have st: "stamps now s" using assms(3) by (auto simp: stamps_def)
  note get = delete_record_entry [OF st, of u r] and P = pending_okD [OF assms(1)]
  obtain qs where qs: "pending ?s = pending s @ qs" "ttl s \<le> 0 \<Longrightarrow> qs = []" "\<forall>q \<in> set qs. p_when q = now + ttl s"
    "0 < ttl s \<Longrightarrow> \<exists>q \<in> set qs. p_isPod q \<and> p_uid q = u"
    "\<And>i e. 0 < ttl s \<Longrightarrow> get (byContainer s) i = Some e \<Longrightarrow> i \<in> set (ids s r) \<Longrightarrow> own_live u e \<Longrightarrow>
        \<exists>q \<in> set qs. \<not> p_isPod q \<and> p_id q = i"
    using delete_record_pending [OF st, of u r] by blast
  show ?thesis
  proof (cases "ttl s \<le> 0")
    case True
    have none: "pending s = []" by (rule P(3) [OF True])
    show ?thesis
      by (rule pending_okI)
        (use True none qs(1,2) P(4,5) in \<open>auto simp: get delete_record_effect split: option.splits if_splits\<close>)
  next
    case False
    then have ttl: "0 < ttl s" by simp
    note app = pending_append [OF assms(1-3) ttl qs(3)]
    show ?thesis
    proof (rule pending_okI)
      show "sorted (map p_when (pending ?s))" using app(1) by (simp add: qs(1))
      show "0 < p_when q \<and> p_when q \<le> now + ttl ?s" if "q \<in> set (pending ?s)" for q
        using app(2) that by (simp add: qs(1))
      show "ttl ?s \<le> 0 \<Longrightarrow> pending ?s = []" using ttl by simp
      fix i e
      assume e: "get (byContainer ?s) i = Some e" "e_expireAt e \<noteq> 0"
      then obtain e0 where e0: "get (byContainer s) i = Some e0"
        "e = (if i \<in> set (ids s r) \<and> own_live u e0 then e0\<lparr>e_expireAt := now + ttl s\<rparr> else e0)"
        using False by (auto simp: get split: option.splits)
      show "\<exists>q \<in> set (pending ?s). \<not> p_isPod q \<and> p_id q = i \<and> p_when q = e_expireAt e"
      proof (cases "i \<in> set (ids s r) \<and> own_live u e0")
        case True
        with qs(5) [OF ttl e0(1)] obtain q where "q \<in> set qs" "\<not> p_isPod q" "p_id q = i" by blast
        with qs(1,3) e0(2) True show ?thesis by auto
      next
        case False
        then have "e = e0" using e0(2) by argo
        with P(4) [OF e0(1)] e(2) show ?thesis by (auto simp: qs(1))
      qed
    next
      fix u' x
      assume x: "get (pods ?s) u' = Some x" "\<not> live ?s x"
      then have x0: "get (pods s) u' = Some x" using False by (simp add: delete_record_effect)
      show "\<exists>q \<in> set (pending ?s). p_isPod q \<and> p_uid q = u' \<and> p_when q = r_expireAt (at ?s x)"
      proof (cases "x = r")
        case True
        then have "u' = u" using x0 pods_inj [OF assms(5,6)] by blast
        with True False qs(1,3) qs(4) [OF ttl] show ?thesis
          by (auto simp: delete_record_effect tombstone_def)
      next
        case xr: False
        with False x P(5) [OF x0] show ?thesis by (auto simp: qs(1) delete_record_effect)
      qed
    qed
  qed
qed

subsection \<open>Upsert\<close>

text \<open>The container IDs a delivery reports belong to its pod.\<close>
definition owns :: "(string \<Rightarrow> uid) \<Rightarrow> APIPod \<Rightarrow> bool" where
  "owns own p \<longleftrightarrow> (\<forall>i \<in> reported p. own i = ap_UID p)"

lemma reported_iff: "i \<in> reported p \<longleftrightarrow> (\<exists>c. get (snd (FromPod p)) i = Some c)"
  unfolding reported_def by (metis domIff dom_map_of_conv_image_fst not_None_eq)

text \<open>What an upsert makes of an entry of another ID.\<close>
lemma indexed_other:
  assumes "stamps now s" "i \<notin> reported p"
  shows "get (byContainer (indexed now p s)) i =
    (case get (byContainer s) i of
       None \<Rightarrow> None
     | Some e \<Rightarrow>
         if i \<in> set (oldIDs p s) \<and> own_live (ap_UID p) e
         then (if ttl s \<le> 0 then None else Some (e\<lparr>e_expireAt := now + ttl s\<rparr>))
         else Some e)"
  using assms by (simp add: indexed_entry reported_iff split: option.splits)

lemma placed_entries_ok:
  assumes "entries_ok own s" "stamps now s" "pods_ok s" "owns own p"
  shows "entries_ok own (placed now p s)"
proof -
  let ?s = "placed now p s" and ?u = "ap_UID p" and ?r = "rec_of p s"
  note E = entries_okD [OF assms(1)] and pods = placed_pods and heap = placed_heap
  have own: "own i = ?u" if "i \<in> reported p" for i using assms(4) that by (simp add: owns_def)
  have rep: "get (byContainer ?s) i = Some \<lparr>e_podUID = ?u, e_container = the (get (snd (FromPod p)) i), e_expireAt = 0\<rparr>"
    if "i \<in> reported p" for i
    using that by (auto simp: placed_fields indexed_entry [OF assms(2)] reported_iff)
  have others: "get (byContainer ?s) i = get (byContainer s) i" if "own i \<noteq> ?u" for i
  proof -
    have "i \<notin> reported p" using that own by blast
    from indexed_other [OF assms(2) this] that E(1) [of i] show ?thesis
      by (cases "get (byContainer s) i") (auto simp: placed_fields own_live_def)
  qed
  have other_rec: "x \<noteq> ?r" if "get (pods s) u = Some x" "u \<noteq> ?u" for u x
    using rec_of_other [OF assms(3) that(1), of p] that(2) by simp
  have old: "get (pods s) ?u = Some x \<Longrightarrow> oldIDs p s = ids s x" for x by (simp add: oldIDs_def known_def)
  show ?thesis
  proof (rule entries_okI)
    fix i e
    assume e: "get (byContainer ?s) i = Some e"
    show "e_podUID e = own i"
    proof (cases "i \<in> reported p")
      case True
      with rep e own show ?thesis by auto
    next
      case False
      with e E(1) [of i] show ?thesis
        by (auto simp: placed_fields indexed_other [OF assms(2)] split: option.splits if_splits)
    qed
    show "\<exists>x. get (pods ?s) (own i) = Some x \<and> live ?s x \<and> i \<in> set (ids ?s x)" if z: "e_expireAt e = 0"
    proof (cases "i \<in> reported p")
      case True
      with own show ?thesis by (auto simp: pods heap reported_def)
    next
      case False
      then have e0: "get (byContainer s) i = Some e" "\<not> (i \<in> set (oldIDs p s) \<and> own_live ?u e)"
        using e z assms(2)
        by (auto simp: placed_fields indexed_other [OF assms(2)] stamps_def split: option.splits if_splits)
      obtain x where x: "get (pods s) (own i) = Some x" "live s x" "i \<in> set (ids s x)" using E(2) [OF e0(1) z] by blast
      have "own i \<noteq> ?u" using x e0 E(1) [OF e0(1)] z old [of x] by (auto simp: own_live_def)
      with x other_rec [OF x(1)] show ?thesis by (auto simp: pods heap)
    qed
    fix x
    assume x: "get (pods ?s) (own i) = Some x" "\<not> live ?s x"
    then have "own i \<noteq> ?u" by (auto simp: pods heap)
    with x e others E(5) [of i e x] show "e_expireAt e \<le> r_expireAt (at ?s x)" by (auto simp: pods heap split: if_splits)
  next
    fix u x i
    assume x: "get (pods ?s) u = Some x" "i \<in> set (ids ?s x)"
    consider (self) "u = ?u" "x = ?r" "i \<in> reported p"
      | (other) "u \<noteq> ?u" "get (pods s) u = Some x" "i \<in> set (ids s x)" "at ?s x = at s x"
      using x other_rec by (force simp: pods heap reported_def split: if_splits)
    note cs = this
    show o: "own i = u" by (cases rule: cs) (use own E(3) in auto)
    assume "live ?s x"
    then show "\<exists>e. get (byContainer ?s) i = Some e \<and> e_expireAt e = 0"
      by (cases rule: cs) (use rep E(4) others o in auto)
  qed
qed

lemma placed_pending_ok:
  assumes "pending_ok t s" "t \<le> now" "0 < now" "entries_ok own s" "pods_ok s" "owns own p"
  shows "pending_ok now (placed now p s)"
proof -
  let ?s = "placed now p s"
  have st: "stamps now s" using assms(3) by (auto simp: stamps_def)
  note P = pending_okD [OF assms(1)]
  obtain qs where qs: "pending (indexed now p s) = pending s @ qs" "\<forall>q \<in> set qs. p_when q = now + ttl s"
    "ttl s \<le> 0 \<Longrightarrow> qs = []"
    "\<And>i e. 0 < ttl s \<Longrightarrow> get (byContainer s) i = Some e \<Longrightarrow> i \<notin> reported p \<Longrightarrow> i \<in> set (oldIDs p s) \<Longrightarrow>
       own_live (ap_UID p) e \<Longrightarrow> \<exists>q \<in> set qs. \<not> p_isPod q \<and> p_id q = i"
    using indexed_pending [OF st, of p] by blast
  have pend: "pending ?s = pending s @ qs" "ttl ?s = ttl s" by (simp_all add: placed_fields qs(1))
  have ent: "\<exists>q \<in> set (pending s @ qs). \<not> p_isPod q \<and> p_id q = i \<and> p_when q = e_expireAt e"
    if e: "get (byContainer ?s) i = Some e" "e_expireAt e \<noteq> 0" for i e
  proof -
    have rep: "i \<notin> reported p" using e by (auto simp: placed_fields indexed_entry [OF st] reported_iff split: option.splits)
    then obtain e0 where e0: "get (byContainer s) i = Some e0"
      "e = e0 \<or> 0 < ttl s \<and> i \<in> set (oldIDs p s) \<and> own_live (ap_UID p) e0 \<and> e_expireAt e = now + ttl s"
      using e(1) by (auto simp: placed_fields indexed_other [OF st] split: option.splits if_splits)
    then show ?thesis
      using P(4) [OF e0(1)] qs(2) qs(4) [OF _ e0(1) rep] e(2) by fastforce
  qed
  have tomb: "\<exists>q \<in> set (pending s @ qs). p_isPod q \<and> p_uid q = u \<and> p_when q = r_expireAt (at ?s x)"
    if "get (pods ?s) u = Some x" "\<not> live ?s x" for u x
  proof -
    have "get (pods s) u = Some x" "at ?s x = at s x" using that by (auto simp: placed_pods placed_heap split: if_splits)
    with P(5) [of u x] that(2) show ?thesis by auto
  qed
  show ?thesis
  proof (cases "ttl s \<le> 0")
    case True
    with P(3) qs(3) ent tomb show ?thesis by (intro pending_okI) (auto simp: pend)
  next
    case False
    then have "0 < ttl s" by simp
    from pending_append [OF assms(1-3) this qs(2)] ent tomb False show ?thesis
      by (intro pending_okI) (simp_all only: pend)
  qed
qed

definition expiry_ok :: "(string \<Rightarrow> uid) \<Rightarrow> instant \<Rightarrow> store \<Rightarrow> bool" where
  "expiry_ok own t s \<longleftrightarrow> entries_ok own s \<and> pending_ok t s"

lemma expiry_ok_cong:
  assumes "byContainer s' = byContainer s" "pods s' = pods s" "\<And>r. r_expireAt (at s' r) = r_expireAt (at s r)"
    "\<And>r. ids s' r = ids s r" "pending s' = pending s" "ttl s' = ttl s"
  shows "expiry_ok own t s' = expiry_ok own t s"
  unfolding expiry_ok_def using entries_ok_cong [of s' s] pending_ok_cong [of s' s] assms by presburger

lemma expiry_ok_mono: "expiry_ok own t s \<Longrightarrow> t \<le> now \<Longrightarrow> expiry_ok own now s"
  by (auto simp: expiry_ok_def intro: pending_ok_mono)

lemma stamps_pos: "0 < now \<Longrightarrow> stamps now s"
  by (auto simp: stamps_def)

lemma delete_record_expiry_ok:
  assumes "expiry_ok own t s" "t \<le> now" "0 < now" "pods_ok s" "get (pods s) u = Some r"
  shows "expiry_ok own now (delete_record now u r s)"
  using assms delete_record_entries_ok [of own s t now u r] delete_record_pending_ok [of t s now own u r] stamps_pos
  by (simp add: expiry_ok_def)

lemma deletePodLocked_expiry_ok:
  assumes "expiry_ok own t s" "t \<le> now" "0 < now" "pods_ok s"
  shows "expiry_ok own now (deletePodLocked now u s)"
proof (cases "get (pods s) u")
  case None
  with assms show ?thesis by (simp add: deletePodLocked_unknown expiry_ok_mono)
next
  case (Some r)
  have "expiry_ok own now (bumpLocked ns x) = expiry_ok own now x" for ns x by (rule expiry_ok_cong) simp_all
  with delete_record_expiry_ok [OF assms Some] Some show ?thesis by (simp add: deletePodLocked_known)
qed

lemma upsert_locked_expiry_ok:
  assumes ok: "store_ok nm s" "same_name nm p" and e: "expiry_ok own t s" "t \<le> now" "0 < now" "owns own p"
  shows "expiry_ok own now (upsert_locked now p s)"
proof (cases "resyncNoOp s p")
  case True
  have "expiry_ok own now (s\<lparr>gen := gen s + 1\<rparr>) = expiry_ok own now s" by (rule expiry_ok_cong) simp_all
  with True expiry_ok_mono [OF e(1,2)] show ?thesis by (simp add: upsert_locked_noop)
next
  case False
  note p = store_okD(1) [OF ok(1)] and st = stamps_pos [OF e(3)]
  have "expiry_ok own now (placed now p s)"
    using placed_entries_ok [OF _ st p e(4)] placed_pending_ok [OF _ e(2,3) _ p e(4)] e(1) by (simp add: expiry_ok_def)
  moreover have "expiry_ok own now (x\<lparr>nameReused := v\<rparr>) = expiry_ok own now x" for x v by (rule expiry_ok_cong) simp_all
  moreover have "pods_ok (placed now p s)" by (rule placed_pods_ok [OF p])
  ultimately have u: "expiry_ok own now (unseated now p s)"
    using e(3) by (auto simp: unseated_def intro!: deletePodLocked_expiry_ok split: option.splits)
  have "expiry_ok own now (upsert_locked now p s) = expiry_ok own now (unseated now p s)"
    by (rule expiry_ok_cong) (simp_all add: upsert_locked_eq [OF False] named_eq)
  with u show ?thesis by simp
qed

subsection \<open>The sweep removes exactly what has lapsed\<close>

text \<open>One stamp of the pending list acted upon.\<close>
definition process :: "instant \<Rightarrow> pendingExpiry \<Rightarrow> store \<Rightarrow> store" where
  "process now q s = (if p_isPod q then sweepPodLocked now (p_uid q) s else sweepContainerLocked now (p_id q) s)"

lemma sweep_loop_eq:
  "sweep_loop now ps n s =
     (let due = takeWhile (\<lambda>q. expired (p_when q) now) ps in (n + length due, fold (process now) due s))"
  by (induction ps arbitrary: n s) (auto simp: process_def Let_def)

lemma process_frame:
  "heap (process now q s) = heap s" "pending (process now q s) = pending s" "ttl (process now q s) = ttl s"
  by (simp_all add: process_def)

lemma sweepContainerLocked_get:
  "get (byContainer (sweepContainerLocked now j s)) i =
     (if i = j \<and> (\<exists>e. get (byContainer s) i = Some e \<and> expired (e_expireAt e) now) then None
      else get (byContainer s) i)"
  by (auto simp: sweepContainerLocked_def split: option.splits)

lemma sweepPodLocked_pods:
  "get (pods (sweepPodLocked now u s)) u' =
     (if u' = u \<and> (\<exists>r. get (pods s) u = Some r \<and> expired (r_expireAt (at s r)) now) then None
      else get (pods s) u')"
  by (auto simp: sweepPodLocked_effect split: option.splits)

lemma sweepPodLocked_get:
  "get (byContainer (sweepPodLocked now u s)) i =
     (case get (byContainer s) i of
        None \<Rightarrow> None
      | Some e \<Rightarrow>
          if e_podUID e = u \<and> (\<exists>r. get (pods s) u = Some r \<and> expired (r_expireAt (at s r)) now \<and> i \<in> set (ids s r))
          then None else Some e)"
  by (auto simp: sweepPodLocked_def removeRecordLocked_def Let_def drop_own_containers_get split: option.splits)

text \<open>A map that has lost some entries with a property, and nothing else.\<close>
definition thinned :: "('v \<Rightarrow> bool) \<Rightarrow> ('k, 'v) gomap \<Rightarrow> ('k, 'v) gomap \<Rightarrow> bool" where
  "thinned P m m' \<longleftrightarrow>
     (\<forall>k. get m' k = get m k \<or> get m' k = None \<and> (\<exists>v. get m k = Some v \<and> P v))"

lemma thinned_refl: "thinned P m m"
  by (simp add: thinned_def)

lemma thinned_trans: "thinned P m m' \<Longrightarrow> thinned P m' m'' \<Longrightarrow> thinned P m m''"
  unfolding thinned_def by (metis option.distinct(1))

lemma thinnedD: "thinned P m m' \<Longrightarrow> get m' k = Some v \<Longrightarrow> get m k = Some v"
  unfolding thinned_def by (metis option.distinct(1))

lemma thinned_exact:
  assumes "thinned P m m'" "\<And>v. get m' k = Some v \<Longrightarrow> \<not> P v"
  shows "get m' k = (case get m k of Some v \<Rightarrow> if P v then None else Some v | None \<Rightarrow> None)"
proof (cases "get m' k")
  case None
  with assms(1) [unfolded thinned_def, rule_format, of k] show ?thesis by (auto split: option.splits)
next
  case (Some v)
  with assms(2) thinnedD [OF assms(1) Some] show ?thesis by simp
qed

text \<open>
  A store in the middle of a sweep: some lapsed pods and entries are gone, nothing else.
\<close>
definition sweeping :: "instant \<Rightarrow> store \<Rightarrow> store \<Rightarrow> bool" where
  "sweeping now s t \<longleftrightarrow>
     heap t = heap s \<and> pending t = pending s \<and> ttl t = ttl s \<and>
     thinned (\<lambda>r. expired (r_expireAt (at s r)) now) (pods s) (pods t) \<and>
     thinned (\<lambda>e. expired (e_expireAt e) now) (byContainer s) (byContainer t)"

lemma sweepingD:
  assumes "sweeping now s t"
  shows "heap t = heap s" "pending t = pending s" "get (pods t) u = Some r \<Longrightarrow> get (pods s) u = Some r"
    "get (byContainer t) i = Some e \<Longrightarrow> get (byContainer s) i = Some e"
  using assms unfolding sweeping_def by (blast dest: thinnedD)+

text \<open>An entry of a lapsed pod has lapsed too: an entry expires no later than its pod.\<close>
lemma entry_lapsed:
  assumes "entries_ok own s" "pending_ok t s" "get (byContainer s) i = Some e" "get (pods s) (own i) = Some r"
    "expired (r_expireAt (at s r)) now"
  shows "expired (e_expireAt e) now"
proof -
  have dead: "\<not> live s r" using assms(5) by (simp add: expired_def)
  have "e_expireAt e \<noteq> 0" using entries_okD(2) [OF assms(1,3)] assms(4) dead by auto
  moreover have "e_expireAt e \<le> r_expireAt (at s r)" by (rule entries_okD(5) [OF assms(1,3,4) dead])
  ultimately show ?thesis using assms(5) by (simp add: expired_def)
qed

lemma process_sweeping:
  assumes "sweeping now s t" "entries_ok own s" "pending_ok c s"
  shows "sweeping now s (process now q t)"
proof -
  note S = assms(1) [unfolded sweeping_def] and D = sweepingD [OF assms(1)]
  have "thinned (\<lambda>r. expired (r_expireAt (at s r)) now) (pods t) (pods (process now q t))"
    by (auto simp: thinned_def process_def sweepPodLocked_pods D(1))
  moreover have "thinned (\<lambda>e. expired (e_expireAt e) now) (byContainer t) (byContainer (process now q t))"
  proof (cases "p_isPod q")
    case False
    then show ?thesis by (auto simp: thinned_def process_def sweepContainerLocked_get)
  next
    case True
    have "expired (e_expireAt e) now"
      if "get (byContainer t) i = Some e" "get (pods t) (e_podUID e) = Some r" "expired (r_expireAt (at t r)) now" for i e r
      using entry_lapsed [OF assms(2,3) D(4) [OF that(1)], of r now] that(3)
        D(3) [OF that(2)] entries_okD(1) [OF assms(2) D(4) [OF that(1)]] D(1) by simp
    with True show ?thesis by (auto simp: thinned_def process_def sweepPodLocked_get split: option.splits)
  qed
  ultimately show ?thesis
    using S by (auto simp: sweeping_def process_frame intro: thinned_trans)
qed

lemma process_all_sweeping:
  "sweeping now s t \<Longrightarrow> entries_ok own s \<Longrightarrow> pending_ok c s \<Longrightarrow> sweeping now s (fold (process now) qs t)"
  by (induction qs arbitrary: t) (auto intro: process_sweeping)

lemma process_shrinks:
  "get (pods (process now q t)) u = Some r \<Longrightarrow> get (pods t) u = Some r"
  "get (byContainer (process now q t)) i = Some e \<Longrightarrow> get (byContainer t) i = Some e"
  by (auto simp: process_def sweepPodLocked_pods sweepPodLocked_get sweepContainerLocked_get
      split: option.splits if_splits)

lemma process_all_shrinks:
  "get (pods (fold (process now) qs t)) u = Some r \<Longrightarrow> get (pods t) u = Some r"
  "get (byContainer (fold (process now) qs t)) i = Some e \<Longrightarrow> get (byContainer t) i = Some e"
  by (induction qs arbitrary: t) (auto dest: process_shrinks)

text \<open>What a processed stamp points at is not lapsed afterwards.\<close>
lemma process_all_done:
  assumes "sweeping now s t" "entries_ok own s" "pending_ok c s" "q \<in> set qs"
  shows "p_isPod q \<Longrightarrow> get (pods (fold (process now) qs t)) (p_uid q) = Some r \<Longrightarrow> \<not> expired (r_expireAt (at s r)) now"
    and "\<not> p_isPod q \<Longrightarrow> get (byContainer (fold (process now) qs t)) (p_id q) = Some e \<Longrightarrow> \<not> expired (e_expireAt e) now"
proof -
  from assms(4) obtain as bs where qs: "qs = as @ q # bs" by (auto simp: in_set_conv_decomp)
  let ?a = "fold (process now) as t" and ?z = "fold (process now) qs t"
  have a: "sweeping now s ?a" by (rule process_all_sweeping [OF assms(1-3)])
  have z: "?z = fold (process now) bs (process now q ?a)" by (simp add: qs)
  show "\<not> expired (r_expireAt (at s r)) now" if "p_isPod q" "get (pods ?z) (p_uid q) = Some r"
    using process_all_shrinks(1) [OF that(2) [unfolded z]] that(1) sweepingD(1) [OF a]
    by (auto simp: process_def sweepPodLocked_pods split: if_splits)
  show "\<not> expired (e_expireAt e) now" if "\<not> p_isPod q" "get (byContainer ?z) (p_id q) = Some e"
    using process_all_shrinks(2) [OF that(2) [unfolded z]] that(1)
    by (auto simp: process_def sweepContainerLocked_get split: if_splits)
qed

lemma sorted_due:
  assumes "sorted (map p_when ps)" "\<forall>q \<in> set ps. 0 < p_when q" "q \<in> set ps" "expired (p_when q) now"
  shows "q \<in> set (takeWhile (\<lambda>q. expired (p_when q) now) ps)"
  using assms by (induction ps) (auto simp: expired_def)

lemma sweep_core:
  "\<exists>due rest. pending s = due @ rest \<and> due = takeWhile (\<lambda>q. expired (p_when q) now) (pending s) \<and>
     pending (sweep now s) = (if due = [] then pending s else drop (length due) (pending (fold (process now) due s))) \<and>
     pods (sweep now s) = pods (fold (process now) due s) \<and>
     byContainer (sweep now s) = byContainer (fold (process now) due s) \<and>
     heap (sweep now s) = heap (fold (process now) due s) \<and> ttl (sweep now s) = ttl (fold (process now) due s)"
  by (intro exI [of _ "takeWhile (\<lambda>q. expired (p_when q) now) (pending s)"]
      exI [of _ "dropWhile (\<lambda>q. expired (p_when q) now) (pending s)"])
    (auto simp: sweep_eq sweep_loop_eq Let_def)

lemma sweep_frame:
  assumes "entries_ok own s" "pending_ok t s"
  shows "heap (sweep now s) = heap s" "ttl (sweep now s) = ttl s"
    "pending (sweep now s) = dropWhile (\<lambda>q. expired (p_when q) now) (pending s)"
proof -
  let ?due = "takeWhile (\<lambda>q. expired (p_when q) now) (pending s)"
  have "sweeping now s (fold (process now) ?due s)"
    by (rule process_all_sweeping [OF _ assms]) (simp add: sweeping_def thinned_refl)
  then have *: "heap (fold (process now) ?due s) = heap s" "pending (fold (process now) ?due s) = pending s"
    "ttl (fold (process now) ?due s) = ttl s"
    by (simp_all add: sweeping_def)
  show "heap (sweep now s) = heap s" "ttl (sweep now s) = ttl s"
    using sweep_core [of s now] * by auto
  have "drop (length ?due) (pending s) = dropWhile (\<lambda>q. expired (p_when q) now) (pending s)"
    by (rule dropWhile_eq_drop [symmetric])
  moreover have "?due = [] \<Longrightarrow> dropWhile (\<lambda>q. expired (p_when q) now) (pending s) = pending s"
    by (metis append_Nil takeWhile_dropWhile_id)
  ultimately show "pending (sweep now s) = dropWhile (\<lambda>q. expired (p_when q) now) (pending s)"
    using sweep_core [of s now] *(2) by (auto split: if_splits)
qed

lemma sweep_exact:
  assumes "entries_ok own s" "pending_ok t s"
  shows "get (pods (sweep now s)) u =
      (case get (pods s) u of
         Some r \<Rightarrow> if expired (r_expireAt (at s r)) now then None else Some r
       | None \<Rightarrow> None)"
    and "get (byContainer (sweep now s)) i =
      (case get (byContainer s) i of
         Some e \<Rightarrow> if expired (e_expireAt e) now then None else Some e
       | None \<Rightarrow> None)"
proof -
  let ?due = "takeWhile (\<lambda>q. expired (p_when q) now) (pending s)"
  let ?z = "fold (process now) ?due s"
  note P = pending_okD [OF assms(2)]
  have s: "sweeping now s s" by (simp add: sweeping_def thinned_refl)
  have z: "sweeping now s ?z" by (rule process_all_sweeping [OF s assms])
  have eq: "pods (sweep now s) = pods ?z" "byContainer (sweep now s) = byContainer ?z"
    using sweep_core [of s now] by auto
  have due: "q \<in> set ?due" if "q \<in> set (pending s)" "expired (p_when q) now" for q
    using that P(1,2) by (intro sorted_due) auto
  have "\<not> expired (r_expireAt (at s r)) now" if "get (pods ?z) u = Some r" for r
  proof
    assume x: "expired (r_expireAt (at s r)) now"
    then have "\<not> live s r" by (simp add: expired_def)
    from P(5) [OF sweepingD(3) [OF z that] this] obtain q
      where "q \<in> set (pending s)" "p_isPod q" "p_uid q = u" "p_when q = r_expireAt (at s r)" by blast
    with due [of q] x process_all_done(1) [OF s assms, of q ?due r] that show False by simp
  qed
  then show "get (pods (sweep now s)) u =
      (case get (pods s) u of
         Some r \<Rightarrow> if expired (r_expireAt (at s r)) now then None else Some r
       | None \<Rightarrow> None)"
    using z unfolding eq sweeping_def by (intro thinned_exact) auto
  have "\<not> expired (e_expireAt e) now" if "get (byContainer ?z) i = Some e" for e
  proof
    assume x: "expired (e_expireAt e) now"
    then have "e_expireAt e \<noteq> 0" by (simp add: expired_def)
    from P(4) [OF sweepingD(4) [OF z that] this] obtain q
      where "q \<in> set (pending s)" "\<not> p_isPod q" "p_id q = i" "p_when q = e_expireAt e" by blast
    with due [of q] x process_all_done(2) [OF s assms, of q ?due e] that show False by simp
  qed
  then show "get (byContainer (sweep now s)) i =
      (case get (byContainer s) i of
         Some e \<Rightarrow> if expired (e_expireAt e) now then None else Some e
       | None \<Rightarrow> None)"
    using z unfolding eq sweeping_def by (intro thinned_exact) auto
qed

lemma sweep_expiry_ok:
  assumes "expiry_ok own t s" "t \<le> now"
  shows "expiry_ok own now (sweep now s)"
proof -
  note E = assms(1) [unfolded expiry_ok_def, THEN conjunct1] and P = assms(1) [unfolded expiry_ok_def, THEN conjunct2]
  note ex = sweep_exact [OF E P] and fr = sweep_frame [OF E P]
  have keep: "get (byContainer (sweep now s)) i = Some e \<longleftrightarrow> get (byContainer s) i = Some e \<and> \<not> expired (e_expireAt e) now"
    "get (pods (sweep now s)) u = Some r \<longleftrightarrow> get (pods s) u = Some r \<and> \<not> expired (r_expireAt (at s r)) now" for i e u r
    by (auto simp: ex split: option.splits)
  have zero: "\<not> expired 0 now" by (simp add: expired_def)
  have "entries_ok own (sweep now s)"
  proof (rule entries_okI, goal_cases)
    case (2 i e)
    then obtain r where "get (pods s) (own i) = Some r" "live s r" "i \<in> set (ids s r)"
      using entries_okD(2) [OF E, of i e] by (auto simp: keep)
    then show ?case by (auto simp: keep fr zero)
  next
    case (4 u r i)
    then obtain e where "get (byContainer s) i = Some e" "e_expireAt e = 0"
      using entries_okD(4) [OF E, of u r i] by (auto simp: keep fr)
    then show ?case by (auto simp: keep zero)
  qed (use entries_okD [OF E] in \<open>auto simp: keep fr\<close>)
  moreover have "pending_ok now (sweep now s)"
  proof -
    have in_rest: "q \<in> set (pending (sweep now s))" if "q \<in> set (pending s)" "\<not> expired (p_when q) now" for q
      unfolding fr using that by (metis Un_iff set_append set_takeWhileD takeWhile_dropWhile_id)
    have sub: "q \<in> set (pending (sweep now s)) \<Longrightarrow> q \<in> set (pending s)" for q
      unfolding fr by (rule set_dropWhileD)
    have "sorted (map p_when (pending (sweep now s)))"
      unfolding fr dropWhile_eq_drop using pending_okD(1) [OF P] by (simp add: drop_map [symmetric] sorted_wrt_drop)
    moreover have "0 < p_when q \<and> p_when q \<le> now + ttl (sweep now s)" if "q \<in> set (pending (sweep now s))" for q
      using pending_okD(2) [OF P sub [OF that]] assms(2) by (simp add: fr)
    ultimately show ?thesis
      using pending_okD(3,4,5) [OF P] in_rest by (intro pending_okI) (fastforce simp: keep fr)+
  qed
  ultimately show ?thesis by (simp add: expiry_ok_def)
qed

end
