(* ===== verification/StoreWaiters.thy ===== *)
theory StoreWaiters
  imports StoreExpiry
begin

section \<open>Blocked lookups\<close>

text \<open>
  The parking slots of \<^verbatim>\<open>waiters.go\<close>: every channel is registered at most once and closed at most
  once, the counters are exact and within the cap, and a lookup is only ever parked on an ID that
  the container index does not know.
\<close>

subsection \<open>Registered channels\<close>

definition chans :: "store \<Rightarrow> chan list" where
  "chans s = concat (map snd (waiters s))"

lemma mset_concat_del:
  "wf_map m \<Longrightarrow> get m i = Some ws \<Longrightarrow> mset (concat (map snd m)) = mset ws + mset (concat (map snd (del i m)))"
proof (induction m)
  case (Cons kv m)
  show ?case
  proof (cases "fst kv = i")
    case True
    with Cons.prems have "del i m = m" "snd kv = ws"
      by (auto simp: delete_idem split: if_splits)
    with True show ?thesis by (cases kv) auto
  next
    case False
    with Cons show ?thesis by (cases kv) auto
  qed
qed simp

lemma del_put: "del i (put i ws m) = del i m"
  by (induction m) auto

lemma mset_concat_put:
  "wf_map m \<Longrightarrow> mset (concat (map snd (put i ws m))) = mset ws + mset (concat (map snd (del i m)))"
  using mset_concat_del [of "put i ws m" i ws] by (simp add: del_put)

lemma mset_concat_del_none: "get m i = None \<Longrightarrow> del i m = m"
  by (simp add: delete_idem map_of_eq_None_iff)

definition waiters_ok :: "store \<Rightarrow> bool" where
  "waiters_ok s \<longleftrightarrow>
     wf_map (waiters s) \<and> (\<forall>i. get (waiters s) i \<noteq> Some []) \<and>
     nWaiters s = int (length (chans s)) \<and>
     distinct (chans s @ closed s) \<and> (\<forall>c \<in> set (chans s @ closed s). c < next_chan s) \<and>
     (\<forall>i. get (waiters s) i \<noteq> None \<longrightarrow> get (byContainer s) i = None) \<and>
     (draining s \<longrightarrow> waiters s = []) \<and>
     0 \<le> nExternal s \<and> nWaiters s + nExternal s \<le> max 0 (maxWaiters s)"

lemma waiters_okD:
  assumes "waiters_ok s"
  shows "wf_map (waiters s)" "get (waiters s) i \<noteq> Some []" "nWaiters s = int (length (chans s))"
    "distinct (chans s @ closed s)" "c \<in> set (chans s) \<Longrightarrow> c < next_chan s" "c \<in> set (closed s) \<Longrightarrow> c < next_chan s"
    "get (waiters s) i \<noteq> None \<Longrightarrow> get (byContainer s) i = None"
    "draining s \<Longrightarrow> waiters s = []" "0 \<le> nExternal s" "nWaiters s + nExternal s \<le> max 0 (maxWaiters s)"
  using assms by (auto simp: waiters_ok_def)

text \<open>Operations that neither park nor wake, and index no new ID.\<close>
lemma waiters_ok_cong:
  assumes "waiters_ok s" "waiters s' = waiters s" "nWaiters s' = nWaiters s" "closed s' = closed s"
    "next_chan s' = next_chan s" "draining s' = draining s" "nExternal s' = nExternal s" "maxWaiters s' = maxWaiters s"
    "\<And>i. get (byContainer s) i = None \<Longrightarrow> get (byContainer s') i = None"
  shows "waiters_ok s'"
  using assms(1,9) by (auto simp: waiters_ok_def chans_def assms(2-8))

lemma chans_mem: "wf_map (waiters s) \<Longrightarrow> c \<in> set (chans s) \<longleftrightarrow> (\<exists>i ws. get (waiters s) i = Some ws \<and> c \<in> set ws)"
  by (force simp: chans_def)

text \<open>Waking an ID: its channels move from the table to the closed ones.\<close>
lemma wakeLocked_eq:
  "fst (wakeLocked i s) =
     (case get (waiters s) i of
        Some (c # cs) \<Rightarrow> s\<lparr>closed := closed s @ c # cs, nWaiters := nWaiters s - int (length (c # cs)),
                         waiters := del i (waiters s)\<rparr>
      | _ \<Rightarrow> s)"
  by (simp add: wakeLocked_def split: option.splits list.splits)

lemma wakeLocked_waiters: "get (waiters s) i \<noteq> Some [] \<Longrightarrow> get (waiters (fst (wakeLocked i s))) j = (if j = i then None else get (waiters s) j)"
  by (auto simp: wakeLocked_eq split: option.splits list.splits)

lemma wakeLocked_closed:
  "set (closed (fst (wakeLocked i s))) = set (closed s) \<union> (case get (waiters s) i of Some ws \<Rightarrow> set ws | None \<Rightarrow> {})"
  by (auto simp: wakeLocked_eq split: option.splits list.splits)

definition waiters_core :: "store \<Rightarrow> bool" where
  "waiters_core s \<longleftrightarrow>
     wf_map (waiters s) \<and> (\<forall>i. get (waiters s) i \<noteq> Some []) \<and>
     nWaiters s = int (length (chans s)) \<and>
     distinct (chans s @ closed s) \<and> (\<forall>c \<in> set (chans s @ closed s). c < next_chan s)"

lemma wakeLocked_core:
  assumes "waiters_core s"
  shows "waiters_core (fst (wakeLocked i s))"
proof (cases "get (waiters s) i")
  case None
  then show ?thesis using assms by (simp add: wakeLocked_eq)
next
  case (Some ws)
  let ?t = "fst (wakeLocked i s)"
  have wf: "wf_map (waiters s)" and ne: "ws \<noteq> []" using assms Some by (auto simp: waiters_core_def)
  have t: "?t = s\<lparr>closed := closed s @ ws, nWaiters := nWaiters s - int (length ws), waiters := del i (waiters s)\<rparr>"
    using Some ne by (cases ws) (simp_all add: wakeLocked_eq)
  have m: "mset (chans s) = mset ws + mset (chans ?t)"
    using mset_concat_del [OF wf Some] by (simp add: chans_def t)
  then have all: "mset (chans ?t @ closed ?t) = mset (chans s @ closed s)" by (simp add: t)
  have "length (chans s) = length ws + length (chans ?t)"
    using arg_cong [OF m, of size] by simp
  moreover have "distinct (chans ?t @ closed ?t)" "set (chans ?t @ closed ?t) = set (chans s @ closed s)"
    using assms mset_eq_imp_distinct_iff [OF all] mset_eq_setD [OF all] by (simp_all only: waiters_core_def)
  ultimately show ?thesis
    using assms wf by (auto simp: waiters_core_def t)
qed

lemma waiters_ok_core: "waiters_ok s \<Longrightarrow> waiters_core s"
  by (simp add: waiters_ok_def waiters_core_def)

lemma wakeLocked_less: "waiters_core s \<Longrightarrow> nWaiters (fst (wakeLocked i s)) \<le> nWaiters s"
  by (auto simp: wakeLocked_eq split: option.splits list.splits)

text \<open>Indexing an ID wakes exactly the lookups parked on it.\<close>
lemma index_one_waiters_ok:
  assumes "waiters_ok s"
  shows "waiters_ok (index_one u ic s)"
proof (cases ic)
  case (Pair i c)
  let ?s = "s\<lparr>byContainer := put i \<lparr>e_podUID = u, e_container = c, e_expireAt = 0\<rparr> (byContainer s)\<rparr>"
  have core: "waiters_core ?s" using waiters_ok_core [OF assms] by (simp add: waiters_core_def chans_def)
  note D = waiters_okD [OF assms]
  have "waiters_core (fst (wakeLocked i ?s))" by (rule wakeLocked_core [OF core])
  moreover have "get (waiters (fst (wakeLocked i ?s))) j = (if j = i then None else get (waiters s) j)" for j
    using D(2) by (subst wakeLocked_waiters) auto
  moreover have "waiters s = [] \<Longrightarrow> fst (wakeLocked i ?s) = ?s" by (simp add: wakeLocked_eq)
  ultimately show ?thesis
    using D wakeLocked_less [OF core, of i] unfolding waiters_ok_def waiters_core_def Pair index_one_def
    by (auto split: if_splits)
qed

lemma index_all_waiters_ok: "waiters_ok s \<Longrightarrow> waiters_ok (fold (index_one u) ics s)"
  by (induction ics arbitrary: s) (auto intro: index_one_waiters_ok)

subsection \<open>The store operations\<close>

lemma stamp_container_dom: "get (byContainer s) i = None \<Longrightarrow> get (byContainer (stamp_container u w j s)) i = None"
  by (auto simp: stamp_container_def stampLocked_def split: option.splits)

lemma retire_one_dom: "get (byContainer s) i = None \<Longrightarrow> get (byContainer (retire_one now u js j s)) i = None"
  by (auto simp: retire_one_eq stamp_container_dom split: option.splits)

lemma retire_all_dom: "get (byContainer s) i = None \<Longrightarrow> get (byContainer (fold (retire_one now u js) ks s)) i = None"
  by (induction ks arbitrary: s) (auto simp: retire_one_dom)

lemma stamp_all_dom: "get (byContainer s) i = None \<Longrightarrow> get (byContainer (fold (stamp_container u w) ks s)) i = None"
  by (induction ks arbitrary: s) (auto simp: stamp_container_dom)

lemma delete_record_dom: "get (byContainer s) i = None \<Longrightarrow> get (byContainer (delete_record now u r s)) i = None"
  by (auto simp: delete_record_def Let_def removeRecordLocked_def drop_own_containers_get stampLocked_def intro: stamp_all_dom)

lemma deletePodLocked_waiters_ok: "waiters_ok s \<Longrightarrow> waiters_ok (deletePodLocked now u s)"
  by (erule waiters_ok_cong) (auto simp: deletePodLocked_def delete_record_dom split: option.splits)

lemma placed_waiters_ok:
  assumes "waiters_ok s"
  shows "waiters_ok (placed now p s)"
proof -
  let ?a = "fold (index_one (ap_UID p)) (snd (FromPod p)) (fill_record p (rec_of p s) (snd (alloc (ap_UID p) s)))"
  have "waiters_ok (fill_record p (rec_of p s) (snd (alloc (ap_UID p) s)))"
    by (rule waiters_ok_cong [OF assms]) simp_all
  from index_all_waiters_ok [OF this] have "waiters_ok ?a" .
  then show ?thesis
    by (rule waiters_ok_cong)
      (simp_all add: placed_fields, simp_all add: indexed_def indexContainersLocked_def Let_def retire_all_dom)
qed

lemma unseated_waiters_ok:
  assumes "waiters_ok s"
  shows "waiters_ok (unseated now p s)"
proof -
  have "waiters_ok ((placed now p s)\<lparr>nameReused := v\<rparr>)" for v
    by (rule waiters_ok_cong [OF placed_waiters_ok [OF assms]]) simp_all
  with placed_waiters_ok [OF assms] show ?thesis
    by (auto simp: unseated_def deletePodLocked_waiters_ok split: option.splits)
qed

lemma upsert_locked_waiters_ok:
  assumes "waiters_ok s"
  shows "waiters_ok (upsert_locked now p s)"
proof (cases "resyncNoOp s p")
  case True
  show ?thesis by (rule waiters_ok_cong [OF assms]) (simp_all add: upsert_locked_noop [OF True])
next
  case False
  show ?thesis
    by (rule waiters_ok_cong [OF unseated_waiters_ok [OF assms]]) (simp_all add: upsert_locked_eq [OF False] named_eq)
qed

lemma process_waiters_ok: "waiters_ok s \<Longrightarrow> waiters_ok (process now q s)"
  by (erule waiters_ok_cong)
    (auto simp: process_def sweepContainerLocked_get sweepPodLocked_get)

lemma sweep_waiters_ok: 
  assumes "waiters_ok s"
  shows "waiters_ok (sweep now s)"
proof -
  have "waiters_ok (fold (process now) qs s)" for qs
    using assms by (induction qs arbitrary: s) (auto intro: process_waiters_ok)
  then have f: "waiters_ok (snd (sweep_loop now (pending s) 0 s))" by (simp add: sweep_loop_eq Let_def)
  show ?thesis
    by (rule waiters_ok_cong [OF f]) (simp_all add: sweep_eq Let_def case_prod_beta)
qed

subsection \<open>Parking and leaving\<close>

abbreviation waiting :: "store \<Rightarrow> string \<Rightarrow> chan list" where
  "waiting s i \<equiv> (case get (waiters s) i of Some ws \<Rightarrow> ws | None \<Rightarrow> [])"

lemma drain_loop_props:
  assumes "waiters_core s"
  shows "waiters_core (fst (drain_loop js s n)) \<and>
    (\<forall>j. get (waiters (fst (drain_loop js s n))) j = (if j \<in> set js then None else get (waiters s) j)) \<and>
    set (closed (fst (drain_loop js s n))) = set (closed s) \<union> (\<Union>i \<in> set js. set (waiting s i)) \<and>
    nWaiters (fst (drain_loop js s n)) \<le> nWaiters s \<and>
    snd (drain_loop js s n) = n + nWaiters s - nWaiters (fst (drain_loop js s n))"
  using assms
proof (induction js arbitrary: s n)
  case (Cons i js)
  let ?t = "fst (wakeLocked i s)" and ?k = "snd (wakeLocked i s)"
  have loop: "drain_loop (i # js) s n = drain_loop js ?t (n + ?k)" by (simp add: case_prod_beta)
  have c: "waiters_core ?t" by (rule wakeLocked_core [OF Cons.prems])
  have ne: "get (waiters s) i \<noteq> Some []" using Cons.prems by (simp add: waiters_core_def)
  note w = wakeLocked_waiters [OF ne] and less = wakeLocked_less [OF Cons.prems, of i]
  have k: "?k = nWaiters s - nWaiters ?t"
    by (auto simp: wakeLocked_def split: option.splits)
  have cl: "set (closed ?t) = set (closed s) \<union> set (waiting s i)"
    using wakeLocked_closed [of i s] by (simp split: option.splits)
  have un: "(\<Union>j \<in> set js. set (waiting ?t j)) \<union> set (waiting s i) = (\<Union>j \<in> set (i # js). set (waiting s j))"
  proof -
    have "set (waiting ?t j) = (if j = i then {} else set (waiting s j))" for j using w [of j] by simp
    moreover have "(\<Union>j \<in> set js. if j = i then {} else f j) \<union> f i = (\<Union>j \<in> set (i # js). f j)" for f :: "string \<Rightarrow> chan set"
      by (auto split: if_splits)
    ultimately show ?thesis by (simp only:)
  qed
  note IH = Cons.IH [OF c, of "n + ?k"]
  have glue: "X = C \<union> R" if "X = T \<union> A" "T = C \<union> B" "A \<union> B = R" for X T A B C R :: "chan set"
    using that by blast
  have "set (closed (fst (drain_loop (i # js) s n))) = set (closed s) \<union> (\<Union>i \<in> set (i # js). set (waiting s i))"
    unfolding loop by (rule glue [OF IH [THEN conjunct2, THEN conjunct2, THEN conjunct1] cl un])
  moreover have "get (waiters (fst (drain_loop (i # js) s n))) j = (if j \<in> set (i # js) then None else get (waiters s) j)" for j
    unfolding loop using IH w [of j] by (cases "j = i") auto
  ultimately show ?case using IH less k unfolding loop by simp
qed simp

lemma drain_loop_frame:
  "byContainer (fst (drain_loop js s n)) = byContainer s" "next_chan (fst (drain_loop js s n)) = next_chan s"
  "draining (fst (drain_loop js s n)) = draining s" "nExternal (fst (drain_loop js s n)) = nExternal s"
  "maxWaiters (fst (drain_loop js s n)) = maxWaiters s" "pods (fst (drain_loop js s n)) = pods s"
  "heap (fst (drain_loop js s n)) = heap s" "byNode (fst (drain_loop js s n)) = byNode s"
  "byPodName (fst (drain_loop js s n)) = byPodName s" "byPodIP (fst (drain_loop js s n)) = byPodIP s"
  "ipClaimants (fst (drain_loop js s n)) = ipClaimants s" "next_ref (fst (drain_loop js s n)) = next_ref s"
  "pending (fst (drain_loop js s n)) = pending s" "ttl (fst (drain_loop js s n)) = ttl s"
  "ipSeq (fst (drain_loop js s n)) = ipSeq s" "gen (fst (drain_loop js s n)) = gen s"
  "nodeGen (fst (drain_loop js s n)) = nodeGen s"
  by (induction js arbitrary: s n) (auto simp: case_prod_beta)

lemma Drain_effect:
  assumes "waiters_ok s" "\<not> draining s"
  shows "waiters (fst (Drain s)) = []" "set (closed (fst (Drain s))) = set (closed s) \<union> set (chans s)"
    "draining (fst (Drain s))" "snd (Drain s) = nWaiters s" "waiters_core (fst (Drain s))"
proof -
  let ?s = "s\<lparr>draining := True\<rparr>" and ?js = "map fst (waiters s)"
  have c: "waiters_core ?s" using waiters_ok_core [OF assms(1)] by (simp add: waiters_core_def chans_def)
  have d: "Drain s = drain_loop ?js ?s 0" using assms(2) by (simp add: Drain_def)
  note D = drain_loop_props [OF c, of ?js 0]
  have "get (waiters (fst (Drain s))) j = None" for j
    using D unfolding d by (simp add: map_of_eq_None_iff)
  then show w: "waiters (fst (Drain s)) = []" using get_Nil_iff by blast
  show "draining (fst (Drain s))" by (simp add: d drain_loop_frame)
  show core: "waiters_core (fst (Drain s))" using D by (simp add: d)
  then have "nWaiters (fst (Drain s)) = 0" using w by (simp add: waiters_core_def chans_def)
  then show "snd (Drain s) = nWaiters s" using D by (simp add: d)
  have "(\<Union>i \<in> set ?js. set (waiting s i)) = set (chans s)"
    using waiters_okD(1) [OF assms(1)] by (force simp: chans_def split: option.splits)
  then show "set (closed (fst (Drain s))) = set (closed s) \<union> set (chans s)" using D by (simp add: d)
qed

lemma Drain_waiters_ok:
  assumes "waiters_ok s"
  shows "waiters_ok (fst (Drain s))"
proof (cases "draining s")
  case True
  with assms show ?thesis by (simp add: Drain_def)
next
  case False
  note D = Drain_effect [OF assms False] and W = waiters_okD [OF assms]
  have "nExternal (fst (Drain s)) = nExternal s" "maxWaiters (fst (Drain s)) = maxWaiters s"
    using False by (simp_all add: Drain_def drain_loop_frame)
  then show ?thesis
    using D(1,3,5) W(3,9,10) by (auto simp: waiters_ok_def waiters_core_def chans_def)
qed

lemma TryPark_waiters_ok: "waiters_ok s \<Longrightarrow> waiters_ok (fst (TryPark s))"
  by (auto simp: TryPark_def waiters_ok_def chans_def)

lemma Unpark_waiters_ok: "waiters_ok s \<Longrightarrow> waiters_ok (Unpark s)"
  by (auto simp: Unpark_def waiters_ok_def chans_def)

lemma removeWaiter_get:
  assumes "\<And>i. get (waiters s) i \<noteq> Some []"
  shows "get (waiters (removeWaiter i ch s)) j =
    (if j = i \<and> ch \<in> set (waiting s i) then (if remove1 ch (waiting s i) = [] then None else Some (remove1 ch (waiting s i)))
     else get (waiters s) j)"
  using assms [of i] by (auto simp: removeWaiter_def Let_def split: option.splits)

lemma removeWaiter_waiters_ok:
  assumes "waiters_ok s"
  shows "waiters_ok (removeWaiter i ch s)"
proof (cases "ch \<in> set (waiting s i)")
  case False
  then have "removeWaiter i ch s = s"
    using waiters_okD(2) [OF assms, of i]
    by (cases "get (waiters s) i") (simp_all add: removeWaiter_def Let_def mset_concat_del_none)
  with assms show ?thesis by simp
next
  case True
  note W = waiters_okD [OF assms]
  then obtain ws where ws: "get (waiters s) i = Some ws" "ch \<in> set ws" using True by (auto split: option.splits)
  let ?t = "removeWaiter i ch s"
  have t: "waiters ?t = (if remove1 ch ws = [] then del i (waiters s) else put i (remove1 ch ws) (waiters s))"
    "nWaiters ?t = nWaiters s - 1" "closed ?t = closed s" "next_chan ?t = next_chan s" "byContainer ?t = byContainer s"
    "draining ?t = draining s" "nExternal ?t = nExternal s" "maxWaiters ?t = maxWaiters s"
    using ws by (auto simp: removeWaiter_def Let_def del_put)
  have "mset (chans ?t) = mset (remove1 ch ws) + mset (concat (map snd (del i (waiters s))))"
    using mset_concat_put [OF W(1), of i "remove1 ch ws"]
    by (cases "remove1 ch ws = []") (simp_all add: chans_def t(1) del: mset_remove1)
  also have "\<dots> = mset (chans s) - {#ch#}"
    using mset_concat_del [OF W(1) ws(1)] ws(2) by (simp add: chans_def)
  finally have m: "mset (chans ?t) = mset (remove1 ch (chans s))" by simp
  have ch: "ch \<in> set (chans s)" using ws chans_mem [OF W(1)] by blast
  have "length (chans ?t) = length (chans s) - 1"
    using mset_eq_length [OF m] ch by (simp add: length_remove1)
  then have "int (length (chans ?t)) = int (length (chans s)) - 1"
    using length_pos_if_in_set [OF ch] by arith
  moreover have "distinct (chans ?t @ closed s)"
    using W(4) mset_eq_imp_distinct_iff [OF m] mset_eq_setD [OF m] set_remove1_subset [of ch "chans s"] by auto
  moreover have "set (chans ?t) \<subseteq> set (chans s)" using mset_eq_setD [OF m] set_remove1_subset by metis
  moreover have "wf_map (waiters ?t)" using W(1) by (simp add: t)
  moreover have "get (waiters ?t) j \<noteq> Some []" "get (waiters ?t) j \<noteq> None \<Longrightarrow> get (waiters s) j \<noteq> None" for j
    using W(2) ws by (auto simp: t(1) split: if_splits)
  ultimately show ?thesis
    using W(3,5-) unfolding waiters_ok_def t by auto
qed

lemma gc_register_cases:
  obtains (parks) "lookupLocked now i s = Missing" "\<not> draining s" "nWaiters s + nExternal s < maxWaiters s"
      "gc_register now i s = (Parked (next_chan s),
         s\<lparr>next_chan := next_chan s + 1, waiters := put i (waiting s i @ [next_chan s]) (waiters s), nWaiters := nWaiters s + 1\<rparr>)"
  | (answers) a where "gc_register now i s = (Answered a, s)" 
  | (drains) "gc_register now i s = (Answered (Refused ErrShuttingDown), s\<lparr>drained := drained s + 1\<rparr>)"
  | (sheds) "gc_register now i s = (Answered (Refused ErrTooManyWaiters), s\<lparr>shed := shed s + 1\<rparr>)"
proof (cases "lookupLocked now i s")
  case (Found x)
  show thesis by (rule answers) (simp add: gc_register_def Found)
next
  case Gone
  show thesis by (rule answers) (simp add: gc_register_def Gone)
next
  case Missing
  show thesis
  proof (cases "draining s \<or> nWaiters s + nExternal s \<ge> maxWaiters s")
    case True
    show thesis
    proof (cases "draining s")
      case True
      with Missing show thesis by (intro drains) (simp add: gc_register_def)
    next
      case False
      with True Missing show thesis by (intro sheds) (simp add: gc_register_def)
    qed
  next
    case False
    with Missing show thesis by (intro parks) (auto simp: gc_register_def Let_def)
  qed
qed

lemma lookup_missing: "lookupLocked now i s = Missing \<longleftrightarrow> get (byContainer s) i = None"
  by (auto simp: lookupLocked_def split: option.splits)

lemma gc_register_waiters_ok:
  assumes "waiters_ok s"
  shows "waiters_ok (snd (gc_register now i s))"
proof (cases rule: gc_register_cases [of now i s])
  case parks
  note W = waiters_okD [OF assms]
  let ?t = "snd (gc_register now i s)" and ?c = "next_chan s"
  have t: "waiters ?t = put i (waiting s i @ [?c]) (waiters s)" "nWaiters ?t = nWaiters s + 1" "closed ?t = closed s"
    "next_chan ?t = ?c + 1" "byContainer ?t = byContainer s" "draining ?t = draining s" "nExternal ?t = nExternal s"
    "maxWaiters ?t = maxWaiters s"
    by (simp_all add: parks(4))
  have "mset (waiting s i) + mset (concat (map snd (del i (waiters s)))) = mset (chans s)"
    using mset_concat_del [OF W(1), of i] mset_concat_del_none [of "waiters s" i] by (auto simp: chans_def split: option.splits)
  then have m: "mset (chans ?t) = mset (?c # chans s)"
    using mset_concat_put [OF W(1), of i "waiting s i @ [?c]"] by (simp add: chans_def t(1))
  have "length (chans ?t) = length (chans s) + 1" using arg_cong [OF m, of size] by simp
  moreover have "distinct (chans ?t @ closed s)"
    using W(4) W(5,6) [of ?c] mset_eq_imp_distinct_iff [OF m] mset_eq_setD [OF m] by auto
  moreover have "set (chans ?t) = insert ?c (set (chans s))" using mset_eq_setD [OF m] by simp
  moreover have "get (byContainer s) i = None" using parks(1) by (simp add: lookup_missing)
  ultimately show ?thesis
    using W parks(2,3) unfolding waiters_ok_def t by (auto simp: less_Suc_eq)
qed (use assms in \<open>auto simp: waiters_ok_def chans_def\<close>)

end
