(* ===== verification/ChangeToken.thy ===== *)
theory ChangeToken
  imports Prelude
begin

section \<open>The contract of a change token\<close>

text \<open>
  Several components hand out a change token: a caller remembers the token it read before it
  derived an answer, and takes the answer for current as long as the token is the same. The
  locale states what a component has to guarantee for that to be sound, with \<open>counter\<close> the counter the
  tokens are minted from: a step that changes the view mints a token above everything handed out
  so far. The counters are 64-bit and the laws are about steps that do not wrap them.
\<close>

locale change_token =
  fixes valid :: "'s \<Rightarrow> bool"
    and step :: "'s \<Rightarrow> 's \<Rightarrow> bool"
    and view :: "'s \<Rightarrow> 'v"
    and token :: "'s \<Rightarrow> u64"
    and counter :: "'s \<Rightarrow> u64"
  assumes valid_step: "valid s \<Longrightarrow> step s s' \<Longrightarrow> valid s'"
    and token_le: "valid s \<Longrightarrow> token s \<le> counter s"
    and token_mono: "valid s \<Longrightarrow> step s s' \<Longrightarrow> token s \<le> token s'"
    and change_mints: "valid s \<Longrightarrow> step s s' \<Longrightarrow> view s' \<noteq> view s \<Longrightarrow> counter s < token s'"
begin

lemma valid_steps: "step\<^sup>*\<^sup>* s s' \<Longrightarrow> valid s \<Longrightarrow> valid s'"
  by (induction rule: rtranclp_induct) (auto intro: valid_step)

lemma token_mono_steps: "step\<^sup>*\<^sup>* s s' \<Longrightarrow> valid s \<Longrightarrow> token s \<le> token s'"
proof (induction rule: rtranclp_induct)
  case (step t u)
  then show ?case using token_mono [OF valid_steps [OF step.hyps(1)]] by force
qed simp

text \<open>The token is the same, so the view is.\<close>
lemma same_token_same_view:
  "step\<^sup>*\<^sup>* s s' \<Longrightarrow> valid s \<Longrightarrow> token s' = token s \<Longrightarrow> view s' = view s"
proof (induction rule: rtranclp_induct)
  case (step t u)
  have t: "valid t" by (rule valid_steps [OF step.hyps(1) step.prems(1)])
  have le: "token s \<le> token t" "token t \<le> token u"
    using token_mono_steps [OF step.hyps(1) step.prems(1)] token_mono [OF t step.hyps(2)] by simp_all
  then have "token t = token s" using step.prems(2) by simp
  then have "view t = view s" using step.IH step.prems(1) by simp
  moreover have "view u = view t"
  proof (rule ccontr)
    assume "view u \<noteq> view t"
    from change_mints [OF t step.hyps(2) this] token_le [OF t] le step.prems(2) show False by simp
  qed
  ultimately show ?case by simp
qed simp

text \<open>
  An answer derived from a view read after the token is still the answer of a later state with
  that token, even if the view changed between the two reads.
\<close>
lemma memo_sound:
  assumes "step\<^sup>*\<^sup>* s m" "step\<^sup>*\<^sup>* m s'" "valid s" "token s' = token s"
  shows "view s' = view m"
proof -
  have m: "valid m" by (rule valid_steps [OF assms(1,3)])
  have "token s \<le> token m" "token m \<le> token s'"
    using token_mono_steps [OF assms(1,3)] token_mono_steps [OF assms(2) m] by simp_all
  with assms(4) have "token s' = token m" by simp
  with same_token_same_view [OF assms(2) m] show ?thesis by simp
qed

end

section \<open>The contract of a stamped memo\<close>

text \<open>
  A snapshot that is expensive to build is kept under the tokens its builder sampled before it started. A
  caller that sampled tokens of its own takes the snapshot if its stamp is at or past them, and builds
  anew otherwise. The locale states what the component has to guarantee, with \<open>le\<close> the order of the tokens,
  which may be a pair of them: the tokens only advance, a step that changes what would be built advances
  them, and a stamp is never ahead of the tokens at the moment of its build.
\<close>

text \<open>A history of \<open>n\<close> steps, state by state.\<close>
definition run_of :: "('s \<Rightarrow> 's \<Rightarrow> bool) \<Rightarrow> (nat \<Rightarrow> 's) \<Rightarrow> nat \<Rightarrow> bool" where
  "run_of step tr n \<longleftrightarrow> (\<forall>i < n. step (tr i) (tr (Suc i)))"

locale ordered_memo =
  fixes valid :: "'s \<Rightarrow> bool"
    and step :: "'s \<Rightarrow> 's \<Rightarrow> bool"
    and tokens :: "'s \<Rightarrow> 't"
    and le :: "'t \<Rightarrow> 't \<Rightarrow> bool"
    and memo :: "'s \<Rightarrow> ('t \<times> 'r) option"
    and build :: "'s \<Rightarrow> 'r"
  assumes le_trans: "le a b \<Longrightarrow> le b c \<Longrightarrow> le a c"
    and valid_step: "valid s \<Longrightarrow> step s s' \<Longrightarrow> valid s'"
    and tokens_advance: "step s s' \<Longrightarrow> le (tokens s) (tokens s')"
    and change_advances: "step s s' \<Longrightarrow> le (tokens s') (tokens s) \<Longrightarrow> build s' = build s"
    and memo_step: "valid s \<Longrightarrow> step s s' \<Longrightarrow> memo s' = memo s \<or> (\<exists>t. memo s' = Some (t, build s') \<and> le t (tokens s'))"
begin

lemma valid_history: "run_of step tr n \<Longrightarrow> valid (tr 0) \<Longrightarrow> i \<le> n \<Longrightarrow> valid (tr i)"
  by (induction i) (auto simp: run_of_def intro: valid_step)

lemma tokens_history: "run_of step tr n \<Longrightarrow> i < j \<Longrightarrow> j \<le> n \<Longrightarrow> le (tokens (tr i)) (tokens (tr j))"
proof (induction j)
  case (Suc j)
  have s: "le (tokens (tr j)) (tokens (tr (Suc j)))" using Suc.prems tokens_advance by (simp add: run_of_def)
  show ?case
  proof (cases "i = j")
    case False
    then show ?thesis using le_trans [OF Suc.IH s] Suc.prems by simp
  qed (use s in simp)
qed simp

lemma build_history:
  "run_of step tr n \<Longrightarrow> i \<le> j \<Longrightarrow> j \<le> n \<Longrightarrow> i < j \<longrightarrow> le (tokens (tr j)) (tokens (tr i)) \<Longrightarrow> build (tr j) = build (tr i)"
proof (induction j)
  case (Suc j)
  show ?case
  proof (cases "i = Suc j")
    case False
    then have ij: "i \<le> j" "j < n" using Suc.prems by simp_all
    have st: "step (tr j) (tr (Suc j))" using Suc.prems(1) ij by (simp add: run_of_def)
    have ret: "le (tokens (tr (Suc j))) (tokens (tr i))" using Suc.prems False by simp
    have "i < j \<longrightarrow> le (tokens (tr j)) (tokens (tr i))" using le_trans [OF tokens_advance [OF st] ret] by simp
    then have "build (tr j) = build (tr i)" using Suc.IH [OF Suc.prems(1)] ij by simp
    moreover have "le (tokens (tr (Suc j))) (tokens (tr j))"
      using le_trans [OF ret] tokens_history [OF Suc.prems(1), of i j] ij ret by (cases "i = j") auto
    ultimately show ?thesis using change_advances [OF st] by simp
  qed simp
qed simp

lemma memo_origin:
  "run_of step tr n \<Longrightarrow> valid (tr 0) \<Longrightarrow> memo (tr 0) = None \<Longrightarrow> i \<le> n \<Longrightarrow> memo (tr i) = Some (t, r) \<Longrightarrow> \<exists>k \<le> i. r = build (tr k) \<and> le t (tokens (tr k))"
proof (induction i arbitrary: t r)
  case (Suc i)
  have st: "step (tr i) (tr (Suc i))" using Suc.prems by (simp add: run_of_def)
  have "valid (tr i)" using valid_history [OF Suc.prems(1,2)] Suc.prems(4) by simp
  from memo_step [OF this st] consider "memo (tr (Suc i)) = memo (tr i)"
    | "r = build (tr (Suc i))" "le t (tokens (tr (Suc i)))" using Suc.prems(5) by auto
  then show ?case
  proof cases
    case 1
    then show ?thesis using Suc.IH [OF Suc.prems(1-3), of t r] Suc.prems(4,5) by (auto intro: le_SucI)
  qed auto
qed simp

text \<open>
  A caller whose sample is not below the tokens of moment \<open>j\<close>, and that finds a memo stamped at or past its
  sample, gets what a build at some moment since \<open>j\<close> gives.
\<close>
lemma memo_fresh:
  assumes h: "run_of step tr n" and ok: "valid (tr 0)" "memo (tr 0) = None" and "j \<le> i" "i \<le> n" and q: "le (tokens (tr j)) q" "le q t" and m: "memo (tr i) = Some (t, r)"
  shows "\<exists>k. j \<le> k \<and> k \<le> i \<and> r = build (tr k)"
proof -
  obtain k where k: "k \<le> i" "r = build (tr k)" "le t (tokens (tr k))" using memo_origin [OF h ok assms(5) m] by blast
  show ?thesis
  proof (cases "j \<le> k")
    case False
    have "le (tokens (tr j)) (tokens (tr k))" using le_trans [OF q(1) le_trans [OF q(2) k(3)]] .
    then have "build (tr j) = build (tr k)" using build_history [OF h, of k j] False assms(4,5) by simp
    then show ?thesis using k assms(4) by auto
  qed (use k in blast)
qed

end

end
