(* ===== verification/StoreToken.thy ===== *)
theory StoreToken
  imports StoreWaiters ChangeToken
begin

section \<open>The change tokens of the nodes\<close>

text \<open>
  \<^verbatim>\<open>NodeGeneration\<close> fulfils the contract of a change token for \<^verbatim>\<open>PodsOnNode\<close>: what the mutations
  stamp, and that a node they do not stamp keeps its pods.
\<close>

subsection \<open>The stamps of the nodes\<close>

definition tokens_ok :: "store \<Rightarrow> bool" where
  "tokens_ok s \<longleftrightarrow>
     (\<forall>n. get (nodeGen s) n \<noteq> None \<longleftrightarrow> get (byNode s) n \<noteq> None) \<and>
     (\<forall>n g. get (nodeGen s) n = Some g \<longrightarrow> g \<le> gen s)"

lemma stamp_nodes_get:
  "get (nodeGen (fold (stamp_node g) ns s)) n =
     (if n \<in> set ns \<and> n \<noteq> [] then (if get (byNode s) n \<noteq> None then Some g else None)
      else get (nodeGen s) n)"
proof (induction ns arbitrary: s)
  case (Cons m ns)
  have "get (nodeGen (stamp_node g m s)) n =
     (if n = m \<and> n \<noteq> [] then (if get (byNode s) n \<noteq> None then Some g else None) else get (nodeGen s) n)"
    by (auto simp: stamp_node_def)
  with Cons show ?case by auto
qed simp

lemma bumpLocked_get:
  "get (nodeGen (bumpLocked ns s)) n =
     (if n \<in> set ns \<and> n \<noteq> [] then (if get (byNode s) n \<noteq> None then Some (gen s + 1) else None)
      else get (nodeGen s) n)"
  by (simp add: bumpLocked_def Let_def stamp_nodes_get)

lemma bumpLocked_gen: "gen (bumpLocked ns s) = gen s + 1"
  by (simp add: bumpLocked_def Let_def)

lemma succ_le: "unat (w :: u64) + 1 < 2 ^ 64 \<Longrightarrow> v \<le> w \<Longrightarrow> v \<le> w + 1"
  using word_less_succ by (simp add: order_less_imp_le)

text \<open>
  The effect of a mutation on one node, as the token contract sees it. The bumps of the mutation
  lie between the two states; the mutation \<open>touches\<close> the nodes whose pod set it may change.
\<close>
definition minted_for :: "string set \<Rightarrow> store \<Rightarrow> store \<Rightarrow> bool" where
  "minted_for touched s s' \<longleftrightarrow>
     gen s \<le> gen s' \<and>
     (\<forall>n \<in> touched. n \<noteq> [] \<longrightarrow> gen s < gen s' \<and>
        (case get (nodeGen s') n of Some g \<Rightarrow> gen s < g \<and> g \<le> gen s' | None \<Rightarrow> True)) \<and>
     (\<forall>n. n \<notin> touched \<or> n = [] \<longrightarrow> get (nodeGen s') n = get (nodeGen s) n)"

lemma bumpLocked_minted:
  assumes "unat (gen s) + 1 < 2 ^ 64"
  shows "minted_for (set ns) s (bumpLocked ns s)"
  using word_less_succ [OF assms, of "gen s"] succ_le [OF assms, of "gen s"]
  by (auto simp: minted_for_def bumpLocked_get bumpLocked_gen split: option.splits)

lemma minted_for_trans:
  assumes "minted_for A s t" "minted_for B t u"
  shows "minted_for (A \<union> B) s u"
  unfolding minted_for_def
proof (intro conjI ballI allI impI)
  have le: "gen s \<le> gen t" "gen t \<le> gen u" using assms by (simp_all add: minted_for_def)
  then show "gen s \<le> gen u" by simp
  fix n assume n: "n \<in> A \<union> B" "n \<noteq> []"
  show "gen s < gen u"
    using n assms le unfolding minted_for_def by (meson UnE order_le_less_trans order_less_le_trans)
  show "case get (nodeGen u) n of None \<Rightarrow> True | Some g \<Rightarrow> gen s < g \<and> g \<le> gen u"
  proof (cases "n \<in> B")
    case True
    with n assms(2) le show ?thesis unfolding minted_for_def by (force split: option.splits)
  next
    case False
    with assms(2) have "get (nodeGen u) n = get (nodeGen t) n" by (simp add: minted_for_def)
    with False n assms(1) le show ?thesis unfolding minted_for_def by (force split: option.splits)
  qed
next
  fix n assume "n \<notin> A \<union> B \<or> n = []"
  with assms show "get (nodeGen u) n = get (nodeGen s) n" by (auto simp: minted_for_def)
qed

lemma minted_for_same: "gen s' = gen s \<Longrightarrow> nodeGen s' = nodeGen s \<Longrightarrow> minted_for {} s s'"
  by (simp add: minted_for_def)

text \<open>Where the tokens are right: a touched node reads above the old counter, another one does not go back.\<close>
lemma minted_for_token:
  assumes "minted_for A s s'" "tokens_ok s"
  shows "n \<in> A \<Longrightarrow> n \<noteq> [] \<Longrightarrow> gen s < NodeGeneration s' n"
    and "NodeGeneration s n \<le> NodeGeneration s' n"
proof -
  have le: "gen s \<le> gen s'" using assms(1) by (simp add: minted_for_def)
  have old: "NodeGeneration s n \<le> gen s" using assms(2) by (auto simp: NodeGeneration_def tokens_ok_def split: option.splits)
  show 1: "gen s < NodeGeneration s' n" if "n \<in> A" "n \<noteq> []"
    using assms(1) that by (auto simp: minted_for_def NodeGeneration_def split: option.splits)
  show "NodeGeneration s n \<le> NodeGeneration s' n"
  proof (cases "n \<in> A \<and> n \<noteq> []")
    case True
    with 1 old show ?thesis by (simp add: order_less_imp_le order_le_less_trans)
  next
    case False
    then have "get (nodeGen s') n = get (nodeGen s) n" using assms(1) by (auto simp: minted_for_def)
    with le show ?thesis by (simp add: NodeGeneration_def split: option.splits)
  qed
qed

subsection \<open>The view of a node\<close>

lemma PodsOnNode_cong:
  assumes "nodes_ok s" "on_node s' n = on_node s n"
    and "\<And>u x. get (on_node s n) u = Some x \<Longrightarrow> r_pod (at s' x) = r_pod (at s x) \<and> r_ownerRefs (at s' x) = r_ownerRefs (at s x)"
  shows "PodsOnNode n s' = PodsOnNode n s"
  unfolding PodsOnNode_def assms(2)
proof (rule map_cong [OF refl])
  fix ux assume "ux \<in> set (on_node s n)"
  then have "get (on_node s n) (fst ux) = Some (snd ux)" using nodes_okD(1) [OF assms(1), of n]
    by (metis map_of_is_SomeI prod.collapse)
  from assms(3) [OF this] show "(\<lambda>(uid, r). node_pod (at s' r)) ux = (\<lambda>(uid, r). node_pod (at s r)) ux"
    by (cases ux) (simp add: node_pod_def)
qed

lemma no_nameless_node: "nodes_ok s \<Longrightarrow> get (byNode s) [] = None"
proof -
  assume ok: "nodes_ok s"
  have "get (on_node s []) u = None" for u using nodes_okD(3) [OF ok, of "[]" u] by (cases "get (on_node s []) u") auto
  then have "on_node s [] = []" using get_Nil_iff by blast
  then show ?thesis using nodes_okD(2) [OF ok, of "[]"] by (cases "get (byNode s) []") (auto simp: get_map_def)
qed

lemma removeFromNodeLocked_other: "n \<noteq> m \<Longrightarrow> get (byNode (removeFromNodeLocked m u s)) n = get (byNode s) n"
  by (auto simp: removeFromNodeLocked_def Let_def split: option.splits)

lemma on_node_eq: "get (byNode s') n = get (byNode s) n \<Longrightarrow> on_node s' n = on_node s n"
  by (simp add: get_map_def)

text \<open>What a mutation leaves alone outside the nodes it touches.\<close>
definition views_kept :: "string set \<Rightarrow> store \<Rightarrow> store \<Rightarrow> bool" where
  "views_kept A s s' \<longleftrightarrow>
     (\<forall>n. n \<notin> A \<longrightarrow> get (byNode s') n = get (byNode s) n \<and> PodsOnNode n s' = PodsOnNode n s)"

lemma views_kept_trans: "views_kept A s t \<Longrightarrow> views_kept B t u \<Longrightarrow> views_kept (A \<union> B) s u"
  by (simp add: views_kept_def)

lemma views_kept_same:
  "byNode s' = byNode s \<Longrightarrow> (\<And>x. r_pod (at s' x) = r_pod (at s x) \<and> r_ownerRefs (at s' x) = r_ownerRefs (at s x)) \<Longrightarrow>
     views_kept {} s s'"
  by (simp add: views_kept_def PodsOnNode_def node_pod_def)

lemma delete_record_views:
  assumes "nodes_ok s" "get (pods s) u = Some r" "pods_ok s"
  shows "views_kept {node s r} s (delete_record now u r s)"
  unfolding views_kept_def
proof (intro allI impI conjI)
  fix n assume n: "n \<notin> {node s r}"
  show *: "get (byNode (delete_record now u r s)) n = get (byNode s) n"
    using n by (simp add: delete_record_effect removeFromNodeLocked_other)
  show "PodsOnNode n (delete_record now u r s) = PodsOnNode n s"
  proof (rule PodsOnNode_cong [OF assms(1) on_node_eq [OF *]])
    fix v x assume "get (on_node s n) v = Some x"
    with n nodes_okD(3) [OF assms(1), of n v x] have "x \<noteq> r" by auto
    then show "r_pod (at (delete_record now u r s) x) = r_pod (at s x) \<and>
        r_ownerRefs (at (delete_record now u r s) x) = r_ownerRefs (at s x)"
      by (simp add: delete_record_effect)
  qed
qed

lemma placed_views:
  assumes "nodes_ok s" "pods_ok s"
  shows "views_kept {oldNode p s, ap_NodeName p} s (placed now p s)"
  unfolding views_kept_def
proof (intro allI impI conjI)
  fix n assume n: "n \<notin> {oldNode p s, ap_NodeName p}"
  show *: "get (byNode (placed now p s)) n = get (byNode s) n"
    using n by (auto simp: placed_def add_to_node_def removeFromNodeLocked_other indexed_def)
  show "PodsOnNode n (placed now p s) = PodsOnNode n s"
  proof (rule PodsOnNode_cong [OF assms(1) on_node_eq [OF *]])
    fix v x assume "get (on_node s n) v = Some x"
    then have x: "get (pods s) v = Some x" "node s x = n" using nodes_okD(3) [OF assms(1), of n v x] by auto
    then have "x \<noteq> rec_of p s"
      using n rec_of_other [OF assms(2) x(1), of p] by (auto simp: oldNode_def known_def)
    then show "r_pod (at (placed now p s) x) = r_pod (at s x) \<and> r_ownerRefs (at (placed now p s) x) = r_ownerRefs (at s x)"
      by (simp add: placed_heap)
  qed
qed

lemma tokens_ok_step:
  assumes "tokens_ok s" "minted_for A s s'" "views_kept A s s'" "nodes_ok s" "nodes_ok s'"
    and "\<And>n. n \<in> A \<Longrightarrow> n \<noteq> [] \<Longrightarrow> get (nodeGen s') n \<noteq> None \<longleftrightarrow> get (byNode s') n \<noteq> None"
  shows "tokens_ok s'"
  unfolding tokens_ok_def
proof (intro conjI allI impI)
  fix n
  have le: "gen s \<le> gen s'" using assms(2) by (simp add: minted_for_def)
  have nodeGen: "get (nodeGen s') n = get (nodeGen s) n" if "n \<notin> A \<or> n = []" using assms(2) that by (auto simp: minted_for_def)
  show "get (nodeGen s') n \<noteq> None \<longleftrightarrow> get (byNode s') n \<noteq> None"
  proof (cases "n \<in> A \<and> n \<noteq> []")
    case True
    with assms(6) show ?thesis by blast
  next
    case False
    then show ?thesis
      using nodeGen assms(1,3) no_nameless_node [OF assms(4)] no_nameless_node [OF assms(5)] by (cases "n \<in> A") (auto simp: tokens_ok_def views_kept_def)
  qed
  fix g assume g: "get (nodeGen s') n = Some g"
  show "g \<le> gen s'"
  proof (cases "n \<in> A \<and> n \<noteq> []")
    case True
    with assms(2) g show ?thesis by (auto simp: minted_for_def)
  next
    case False
    with nodeGen g assms(1) have "g \<le> gen s" by (auto simp: tokens_ok_def)
    with le show ?thesis by simp
  qed
qed

subsection \<open>The mutations\<close>

lemma deletePodLocked_tokens:
  assumes "store_ok nm s" "stamps now s" "tokens_ok s" "unat (gen s) + 1 < 2 ^ 64"
  shows "\<exists>A. minted_for A s (deletePodLocked now u s) \<and> views_kept A s (deletePodLocked now u s) \<and>
    tokens_ok (deletePodLocked now u s)"
proof (cases "get (pods s) u")
  case None
  with assms(3) show ?thesis
    by (intro exI [of _ "{}"]) (simp add: deletePodLocked_unknown minted_for_same views_kept_def)
next
  case (Some r)
  let ?t = "delete_record now u r s" and ?A = "{node s r}"
  note ok = store_okD [OF assms(1)]
  have s': "deletePodLocked now u s = bumpLocked [node s r] ?t" by (rule deletePodLocked_known [OF Some])
  have "minted_for {} s ?t" by (rule minted_for_same) simp_all
  moreover have "minted_for ?A ?t (bumpLocked [node s r] ?t)"
    using bumpLocked_minted [of ?t "[node s r]"] assms(4) by simp
  ultimately have m: "minted_for ?A s (deletePodLocked now u s)" unfolding s' using minted_for_trans by fastforce
  have "views_kept {} ?t (bumpLocked [node s r] ?t)" by (rule views_kept_same) simp_all
  then have v: "views_kept ?A s (deletePodLocked now u s)"
    unfolding s' using views_kept_trans [OF delete_record_views [OF ok(2) Some ok(1), of now]] by fastforce
  have "nodes_ok (deletePodLocked now u s)" using deletePodLocked_ok(1) [OF assms(1,2)] store_okD(2) by blast
  with m v have "tokens_ok (deletePodLocked now u s)"
    by (intro tokens_ok_step [OF assms(3) m v ok(2)]) (auto simp: s' bumpLocked_get)
  with m v show ?thesis by blast
qed

lemma upsert_locked_tokens:
  assumes "store_ok nm s" "same_name nm p" "stamps now s" "tokens_ok s" "unat (gen s) + 2 < 2 ^ 64"
  shows "\<exists>A. minted_for A s (upsert_locked now p s) \<and> views_kept A s (upsert_locked now p s) \<and>
    tokens_ok (upsert_locked now p s)"
proof (cases "resyncNoOp s p")
  case True
  have "upsert_locked now p s = bumpLocked [] s" by (simp add: upsert_locked_noop [OF True] bumpLocked_def)
  moreover have "minted_for {} s (bumpLocked [] s)" using bumpLocked_minted [of s "[]"] assms(5) by simp
  moreover have "views_kept {} s (bumpLocked [] s)" by (rule views_kept_same) simp_all
  moreover have "nodes_ok (bumpLocked [] s)" using store_okD(2) [OF assms(1)] by (simp add: nodes_ok_bump)
  ultimately show ?thesis
    using tokens_ok_step [OF assms(4) _ _ store_okD(2) [OF assms(1)], of "{}"] by auto
next
  case False
  note ok = store_okD [OF assms(1)]
  let ?p = "placed now p s" and ?u = "unseated now p s" and ?s = "upsert_locked now p s"
  let ?N = "[oldNode p s, ap_NodeName p]"
  note pn = placed_nodes_ok [OF ok(2,1), of now p] and pp = placed_pods_ok [OF ok(1), of now p]
  note k = placed_names_ok [OF ok(3,1) assms(2), of now]
  have mp: "minted_for {} s ?p" by (rule minted_for_same) (simp_all add: placed_fields)
  have "\<exists>D. minted_for D ?p ?u \<and> views_kept D ?p ?u \<and> unat (gen ?u) + 1 < 2 ^ 64 \<and>
      (\<forall>n \<in> D. n \<noteq> [] \<longrightarrow> (get (nodeGen ?u) n \<noteq> None \<longleftrightarrow> get (byNode ?u) n \<noteq> None))"
    using k
  proof (cases rule: unseated_cases)
    case stay
    with assms(5) show ?thesis
      by (intro exI [of _ "{}"]) (simp add: minted_for_same views_kept_def placed_fields)
  next
    case (leave d ns t)
    let ?t = "delete_record now (U ?p d) d t"
    have td: "get (pods t) (U ?p d) = Some d" using displacedD(3) [OF leave(1) k] by (simp add: leave(2))
    have "nodes_ok t" "pods_ok t" using pn pp by (simp_all add: leave(2))
    from delete_record_views [OF this(1) td this(2), of now] have vt: "views_kept (set ns) t ?t" by (simp add: leave(2,4))
    have v1: "views_kept {} ?p t" and v2: "views_kept {} ?t (bumpLocked ns ?t)"
      by (rule views_kept_same; simp add: leave(2))+
    have g: "gen ?t = gen s" by (simp add: leave(2) placed_fields)
    have ub: "unat (gen ?t) + 1 < 2 ^ 64" using assms(5) unfolding g by simp
    have "minted_for {} ?p ?t" by (rule minted_for_same) (simp_all add: leave(2))
    from minted_for_trans [OF this bumpLocked_minted [OF ub, of ns]] have "minted_for (set ns) ?p ?u"
      by (simp add: leave(3))
    moreover have "views_kept (set ns) ?p ?u"
      using views_kept_trans [OF views_kept_trans [OF v1 vt] v2] by (simp add: leave(3))
    moreover have "unat (gen ?u) + 1 < 2 ^ 64"
      using assms(5) unat_succ [OF ub] unfolding leave(3) bumpLocked_gen g by simp
    moreover have "get (nodeGen ?u) n \<noteq> None \<longleftrightarrow> get (byNode ?u) n \<noteq> None" if "n \<in> set ns" "n \<noteq> []" for n
      using that by (auto simp: leave(3) bumpLocked_get)
    ultimately show ?thesis by blast
  qed
  then obtain D where D: "minted_for D ?p ?u" "views_kept D ?p ?u" "unat (gen ?u) + 1 < 2 ^ 64"
    "\<And>n. n \<in> D \<Longrightarrow> n \<noteq> [] \<Longrightarrow> get (nodeGen ?u) n \<noteq> None \<longleftrightarrow> get (byNode ?u) n \<noteq> None" by blast
  let ?c = "claimed now p s" and ?A = "D \<union> set ?N"
  have s': "?s = bumpLocked ?N ?c" by (rule upsert_locked_eq [OF False])
  have c: "gen ?c = gen ?u" "nodeGen ?c = nodeGen ?u" "byNode ?c = byNode ?u" by (simp_all add: named_eq)
  have mc: "minted_for {} ?u ?c" by (rule minted_for_same) (simp_all only: c)
  have "unat (gen ?c) + 1 < 2 ^ 64" using D(3) by (simp only: c)
  from minted_for_trans [OF minted_for_trans [OF minted_for_trans [OF mp D(1)] mc] bumpLocked_minted [OF this, of ?N]]
  have m: "minted_for ?A s ?s" unfolding s' by simp
  have "views_kept {} ?u ?c" "views_kept {} ?c ?s"
    by (rule views_kept_same; simp add: c s' named_eq)+
  with views_kept_trans [OF placed_views [OF ok(2,1), of p now] D(2)] have v: "views_kept ?A s ?s"
    using views_kept_trans [of ?A s ?u "{}" ?c] views_kept_trans [of ?A s ?c "{}" ?s] by (simp add: Un_commute)
  have "nodes_ok ?s" using upsert_locked_ok [OF assms(1-3)] store_okD(2) by blast
  then have "tokens_ok ?s"
  proof (rule tokens_ok_step [OF assms(4) m v ok(2)])
    fix n assume "n \<in> ?A" "n \<noteq> []"
    then show "get (nodeGen ?s) n \<noteq> None \<longleftrightarrow> get (byNode ?s) n \<noteq> None"
      using D(4) [of n] unfolding s' bumpLocked_get bumpLocked_frame c by auto
  qed
  with m v show ?thesis by blast
qed

end
