(* ===== verification/StoreReach.thy ===== *)
theory StoreReach
  imports StoreToken
begin

section \<open>The store at work\<close>

text \<open>
  The store together with the lookups that are blocked on it, as a transition system: the
  informer's events, the sweeps, the shutdown, and one step of one lookup are its transitions,
  in any order. The invariants of the previous theories hold in every reachable state.
\<close>

datatype event =
    Upsert APIPod       \<comment> \<open>the informer delivers a pod\<close>
  | UpsertLate APIPod   \<comment> \<open>the write-locked half, after a probe of an earlier state\<close>
  | Delete uid
  | Sweep
  | Shutdown
  | Park
  | Leave

fun apply_event :: "instant \<Rightarrow> event \<Rightarrow> store \<Rightarrow> store" where
  "apply_event now (Upsert p) s = UpsertPod now p s"
| "apply_event now (UpsertLate p) s = upsert_locked now p (count_omitted (fst (FromPod p)) s)"
| "apply_event now (Delete u) s = DeletePod now u s"
| "apply_event now Sweep s = sweep now s"
| "apply_event now Shutdown s = fst (Drain s)"
| "apply_event now Park s = fst (TryPark s)"
| "apply_event now Leave s = Unpark s"

type_synonym lookup = "string \<times> phase"

text \<open>
  What the cluster guarantees of a delivery: the name belongs to the UID, and the container IDs
  to the pod.
\<close>
fun faithful :: "(uid \<Rightarrow> string) \<Rightarrow> (string \<Rightarrow> uid) \<Rightarrow> event \<Rightarrow> bool" where
  "faithful nm own (Upsert p) \<longleftrightarrow> same_name nm p \<and> owns own p"
| "faithful nm own (UpsertLate p) \<longleftrightarrow> same_name nm p \<and> owns own p"
| "faithful nm own _ \<longleftrightarrow> True"

definition options :: "int option \<Rightarrow> (store \<Rightarrow> store) list" where
  "options cap = (case cap of None \<Rightarrow> [] | Some n \<Rightarrow> [WithMaxWaiters n])"

text \<open>
  \<open>Ok\<close> restricts the events of a run further; it holds of every event where nothing else is said.
  The instant is the last clock reading, and clocks do not run backwards.
\<close>
inductive reach ::
  "(uid \<Rightarrow> string) \<Rightarrow> (string \<Rightarrow> uid) \<Rightarrow> (store \<Rightarrow> event \<Rightarrow> bool) \<Rightarrow> instant \<Rightarrow> store \<Rightarrow> lookup list \<Rightarrow> bool"
  for nm own Ok where
  start: "0 < t \<Longrightarrow> reach nm own Ok t (New d (options cap)) []"
| event: "reach nm own Ok t s cl \<Longrightarrow> t \<le> now \<Longrightarrow> faithful nm own e \<Longrightarrow> Ok s e \<Longrightarrow>
    reach nm own Ok now (apply_event now e s) cl"
| arrive: "reach nm own Ok t s cl \<Longrightarrow> reach nm own Ok t s (cl @ [(NormalizeContainerID raw, Start)])"
| look: "reach nm own Ok t s cl \<Longrightarrow> t \<le> now \<Longrightarrow> k < length cl \<Longrightarrow> cl ! k = (i, ph) \<Longrightarrow>
    gc_step now d i ph s = (ph', s') \<Longrightarrow> reach nm own Ok now s' (cl[k := (i, ph')])"

subsection \<open>Every operation keeps the invariants\<close>

text \<open>A record is live exactly while its pod has no deletion time.\<close>
definition dates_ok :: "store \<Rightarrow> bool" where
  "dates_ok s \<longleftrightarrow> (\<forall>u r. get (pods s) u = Some r \<longrightarrow> (live s r \<longleftrightarrow> pod_DeletedAt (r_pod (at s r)) = None))"

lemma dates_ok_cong:
  assumes "pods s' = pods s" "\<And>r. r_expireAt (at s' r) = r_expireAt (at s r)"
    "\<And>r. pod_DeletedAt (r_pod (at s' r)) = pod_DeletedAt (r_pod (at s r))"
  shows "dates_ok s' = dates_ok s"
  by (simp add: dates_ok_def assms)

definition inv :: "(uid \<Rightarrow> string) \<Rightarrow> (string \<Rightarrow> uid) \<Rightarrow> instant \<Rightarrow> store \<Rightarrow> bool" where
  "inv nm own t s \<longleftrightarrow> 0 < t \<and> store_ok nm s \<and> expiry_ok own t s \<and> waiters_ok s \<and> dates_ok s"

lemma delete_record_dates_ok:
  assumes "dates_ok s" "stamps now s"
  shows "dates_ok (delete_record now u r s)"
  using assms by (auto simp: dates_ok_def delete_record_effect tombstone_def stamps_def split: if_splits)

lemma deletePodLocked_dates_ok:
  assumes "dates_ok s" "stamps now s"
  shows "dates_ok (deletePodLocked now u s)"
proof (cases "get (pods s) u")
  case None
  with assms show ?thesis by (simp add: deletePodLocked_unknown)
next
  case (Some r)
  have "dates_ok (bumpLocked ns x) = dates_ok x" for ns x by (rule dates_ok_cong) simp_all
  with delete_record_dates_ok [OF assms, of u r] Some show ?thesis by (simp add: deletePodLocked_known)
qed

lemma upsert_locked_dates_ok:
  assumes "dates_ok s" "stamps now s"
  shows "dates_ok (upsert_locked now p s)"
proof (cases "resyncNoOp s p")
  case True
  have "dates_ok (s\<lparr>gen := v\<rparr>) = dates_ok s" for v by (rule dates_ok_cong) simp_all
  with assms show ?thesis by (simp add: upsert_locked_noop [OF True])
next
  case False
  have "dates_ok (placed now p s)"
    using assms(1) by (auto simp: dates_ok_def placed_pods placed_heap)
  moreover have "dates_ok (x\<lparr>nameReused := v\<rparr>) = dates_ok x" for x v by (rule dates_ok_cong) simp_all
  moreover have "stamps now ((placed now p s)\<lparr>nameReused := v\<rparr>)" for v
    using assms(2) by (simp add: stamps_def placed_fields)
  ultimately have "dates_ok (unseated now p s)"
    by (auto simp: unseated_def intro!: deletePodLocked_dates_ok split: option.splits)
  moreover have "dates_ok (upsert_locked now p s) = dates_ok (unseated now p s)"
    by (rule dates_ok_cong) (simp_all add: upsert_locked_eq [OF False] named_eq)
  ultimately show ?thesis by simp
qed

lemma sweep_dates_ok:
  assumes "dates_ok s" "expiry_ok own t s"
  shows "dates_ok (sweep now s)"
  using assms(1) sweep_frame(1) [of own s t now] sweep_exact(1) [of own s t now] assms(2)
  by (auto simp: dates_ok_def expiry_ok_def split: option.splits if_splits)

text \<open>An operation that touches none of the indexes.\<close>
lemma inv_cong:
  assumes "inv nm own t s" "pods s' = pods s" "next_ref s' = next_ref s" "heap s' = heap s" "byNode s' = byNode s"
    "byPodName s' = byPodName s" "byPodIP s' = byPodIP s" "ipClaimants s' = ipClaimants s"
    "byContainer s' = byContainer s" "pending s' = pending s" "ttl s' = ttl s" "waiters_ok s'"
  shows "inv nm own t s'"
  using assms(1,12) store_ok_cong [OF assms(2-8)] expiry_ok_cong [of s' s own t] dates_ok_cong [of s' s]
  by (simp add: inv_def assms)

lemma inv_mono: "inv nm own t s \<Longrightarrow> t \<le> now \<Longrightarrow> inv nm own now s"
  by (auto simp: inv_def intro: expiry_ok_mono)

lemma upsert_locked_inv:
  assumes "inv nm own t s" "t \<le> now" "same_name nm p" "owns own p"
  shows "inv nm own now (upsert_locked now p s)"
proof -
  have now: "0 < now" using assms by (simp add: inv_def)
  note I = assms(1) [unfolded inv_def]
  show ?thesis
    unfolding inv_def
    using now upsert_locked_ok [of nm s p now] upsert_locked_expiry_ok [of nm s p own t now]
      upsert_locked_waiters_ok [of s now p] upsert_locked_dates_ok [of s now p] I assms(2-) stamps_pos [OF now]
    by simp
qed

lemma count_omitted_inv: "inv nm own t s \<Longrightarrow> inv nm own t (count_omitted pod s)"
proof (rule inv_cong)
  assume "inv nm own t s"
  then have "waiters_ok s" by (simp add: inv_def)
  then show "waiters_ok (count_omitted pod s)" by (rule waiters_ok_cong) simp_all
qed simp_all

lemma Drain_frame:
  "pods (fst (Drain s)) = pods s" "next_ref (fst (Drain s)) = next_ref s" "heap (fst (Drain s)) = heap s"
  "byNode (fst (Drain s)) = byNode s" "byPodName (fst (Drain s)) = byPodName s" "byPodIP (fst (Drain s)) = byPodIP s"
  "ipClaimants (fst (Drain s)) = ipClaimants s" "byContainer (fst (Drain s)) = byContainer s"
  "pending (fst (Drain s)) = pending s" "ttl (fst (Drain s)) = ttl s" "ipSeq (fst (Drain s)) = ipSeq s"
  "gen (fst (Drain s)) = gen s" "nodeGen (fst (Drain s)) = nodeGen s"
  by (simp_all add: Drain_def drain_loop_frame)

lemma apply_event_inv:
  assumes "inv nm own t s" "t \<le> now" "faithful nm own e"
  shows "inv nm own now (apply_event now e s)"
proof (cases e)
  case (Upsert p)
  with assms show ?thesis
    by (auto simp: UpsertPod_def intro: inv_mono upsert_locked_inv [OF count_omitted_inv])
next
  case (UpsertLate p)
  with assms show ?thesis by (auto intro: upsert_locked_inv [OF count_omitted_inv])
next
  case (Delete u)
  have now: "0 < now" using assms by (simp add: inv_def)
  note I = assms(1) [unfolded inv_def]
  have "inv nm own now (deletePodLocked now u s)"
    unfolding inv_def
    using now deletePodLocked_ok(1) [of nm s now u] deletePodLocked_expiry_ok [of own t s now u] deletePodLocked_waiters_ok [of s]
      deletePodLocked_dates_ok [of s now u] I assms(2) stamps_pos [OF now] store_okD(1) [of nm s] by simp
  with Delete show ?thesis by (simp add: DeletePod_def)
next
  case Sweep
  with assms show ?thesis
    using sweep_ok(1) [of nm s now] sweep_expiry_ok [of own t s now] sweep_waiters_ok [of s now] sweep_dates_ok [of s own t now]
    by (simp add: inv_def)
next
  case Shutdown
  have "inv nm own now (fst (Drain s))"
    using inv_mono [OF assms(1,2)]
    by (rule inv_cong) (use assms(1) Drain_waiters_ok in \<open>simp_all add: Drain_frame inv_def\<close>)
  with Shutdown show ?thesis by simp
next
  case Park
  have "inv nm own now (fst (TryPark s))"
    using inv_mono [OF assms(1,2)]
    by (rule inv_cong) (use assms(1) TryPark_waiters_ok in \<open>simp_all add: TryPark_def inv_def\<close>)
  with Park show ?thesis by simp
next
  case Leave
  have "inv nm own now (Unpark s)"
    using inv_mono [OF assms(1,2)]
    by (rule inv_cong) (use assms(1) Unpark_waiters_ok in \<open>simp_all add: Unpark_def inv_def\<close>)
  with Leave show ?thesis by simp
qed

lemma gc_step_inv:
  assumes "inv nm own t s" "t \<le> now"
  shows "inv nm own now (snd (gc_step now d i ph s))"
proof -
  have w: "waiters_ok s" and I: "inv nm own now s" using assms inv_mono by (auto simp: inv_def)
  have "inv nm own now (snd (gc_register now i s))"
    by (rule inv_cong [OF I _ _ _ _ _ _ _ _ _ _ gc_register_waiters_ok [OF w]])
      (auto simp: gc_register_def Let_def split: found.splits)
  moreover have "inv nm own now (removeWaiter i ch s)" for ch
    by (rule inv_cong [OF I _ _ _ _ _ _ _ _ _ _ removeWaiter_waiters_ok [OF w]])
      (auto simp: removeWaiter_def Let_def)
  ultimately show ?thesis using I by (auto simp: gc_step_def gc_timeout_def Let_def split: phase.splits)
qed

lemma New_inv: "0 < t \<Longrightarrow> inv nm own t (New d (options cap))"
  by (auto simp: inv_def New_def options_def WithMaxWaiters_def store_ok_def pods_ok_def nodes_ok_def names_ok_def claims_def
      due_claims_def expiry_ok_def entries_ok_def pending_ok_def waiters_ok_def chans_def dates_ok_def get_map_def
      DefaultMaxWaiters_def WaiterBudgetBytes_def WaiterCostBytes_def split: option.splits)

theorem reach_inv: "reach nm own Ok t s cl \<Longrightarrow> inv nm own t s"
proof (induction rule: reach.induct)
  case (look t s cl now k i ph d ph' s')
  from gc_step_inv [OF look.IH look.hyps(2), of d i ph] look.hyps(5) show ?case by simp
qed (auto intro: New_inv apply_event_inv)

subsection \<open>Blocked lookups and their channels\<close>

text \<open>
  What an event may do to the channels: those parked on an ID stay parked or are closed, no
  channel is parked anew, and a closed one stays closed.
\<close>
definition wakes :: "store \<Rightarrow> store \<Rightarrow> bool" where
  "wakes s s' \<longleftrightarrow>
     set (closed s) \<subseteq> set (closed s') \<and>
     (\<forall>i. set (waiting s' i) \<subseteq> set (waiting s i) \<and> set (waiting s i) \<subseteq> set (waiting s' i) \<union> set (closed s'))"

lemma wakes_same: "waiters s' = waiters s \<Longrightarrow> closed s' = closed s \<Longrightarrow> wakes s s'"
  by (simp add: wakes_def)

lemma wakes_trans: "wakes s t \<Longrightarrow> wakes t u \<Longrightarrow> wakes s u"
  unfolding wakes_def by (meson Un_iff in_mono subset_iff)

lemma wakeLocked_wakes: "wakes s (fst (wakeLocked i s))"
  by (auto simp: wakes_def wakeLocked_eq split: option.splits list.splits)

lemma index_one_wakes: "wakes s (index_one u ic s)"
proof (cases ic)
  case (Pair i c)
  have "wakes s (s\<lparr>byContainer := v\<rparr>)" for v by (rule wakes_same) simp_all
  with Pair show ?thesis unfolding index_one_def by (auto intro: wakes_trans wakeLocked_wakes)
qed

lemma index_all_wakes: "wakes s (fold (index_one u) ics s)"
proof (induction ics arbitrary: s)
  case (Cons ic ics)
  show ?case using wakes_trans [OF index_one_wakes Cons.IH] by simp
qed (simp add: wakes_same)

lemma upsert_locked_wakes: "wakes s (upsert_locked now p s)"
proof (cases "resyncNoOp s p")
  case True
  then show ?thesis by (intro wakes_same) (simp_all add: upsert_locked_noop)
next
  case False
  let ?a = "fill_record p (rec_of p s) (snd (alloc (ap_UID p) s))"
  let ?b = "fold (index_one (ap_UID p)) (snd (FromPod p)) ?a"
  have 1: "wakes s ?a" by (rule wakes_same) simp_all
  have 3: "wakes ?b (placed now p s)"
    by (rule wakes_same) (simp_all add: placed_fields, simp_all add: indexed_def indexContainersLocked_def Let_def)
  have 4: "wakes (placed now p s) (upsert_locked now p s)"
    by (rule wakes_same) (simp_all add: upsert_locked_eq [OF False] named_eq unseated_def split: option.splits)
  show ?thesis using wakes_trans [OF wakes_trans [OF wakes_trans [OF 1 index_all_wakes] 3] 4] .
qed

lemma sweep_loop_wakes: "waiters (snd (sweep_loop now ps n s)) = waiters s" "closed (snd (sweep_loop now ps n s)) = closed s"
  by (induction ps arbitrary: n s) auto

lemma Drain_wakes:
  assumes "waiters_ok s"
  shows "wakes s (fst (Drain s))"
proof (cases "draining s")
  case True
  then show ?thesis by (simp add: Drain_def wakes_same)
next
  case False
  note D = Drain_effect [OF assms False]
  have "set (waiting s i) \<subseteq> set (chans s)" for i
    using chans_mem [OF waiters_okD(1) [OF assms]] by (force split: option.splits)
  then show ?thesis unfolding wakes_def D(1,2) by auto
qed

lemma apply_event_wakes: "waiters_ok s \<Longrightarrow> wakes s (apply_event now e s)"
proof (cases e)
  case (Upsert p)
  have "wakes s (count_omitted x s)" for x by (rule wakes_same) simp_all
  from wakes_trans [OF this upsert_locked_wakes] Upsert show ?thesis by (simp add: UpsertPod_def wakes_same)
next
  case (UpsertLate p)
  have "wakes s (count_omitted x s)" for x by (rule wakes_same) simp_all
  from wakes_trans [OF this upsert_locked_wakes] UpsertLate show ?thesis by simp
next
  case (Delete u)
  then show ?thesis by (intro wakes_same) (simp_all add: DeletePod_def)
next
  case Sweep
  then show ?thesis by (intro wakes_same) (simp_all add: sweep_eq Let_def case_prod_beta sweep_loop_wakes)
qed (auto simp: Drain_wakes TryPark_def Unpark_def intro!: wakes_same)

text \<open>
  Every parked lookup waits on a channel of its own, which is registered under its ID or closed;
  and every registered channel has a lookup waiting on it.
\<close>
definition lookups_ok :: "store \<Rightarrow> lookup list \<Rightarrow> bool" where
  "lookups_ok s cl \<longleftrightarrow>
     (\<forall>k i c. k < length cl \<and> cl ! k = (i, Parked c) \<longrightarrow> c \<in> set (waiting s i) \<or> c \<in> set (closed s)) \<and>
     (\<forall>k l i j c. k < length cl \<and> l < length cl \<and> cl ! k = (i, Parked c) \<and> cl ! l = (j, Parked c) \<longrightarrow> k = l) \<and>
     (\<forall>i c. c \<in> set (waiting s i) \<longrightarrow> (\<exists>k < length cl. cl ! k = (i, Parked c)))"

lemma lookups_okD:
  assumes "lookups_ok s cl"
  shows "k < length cl \<Longrightarrow> cl ! k = (i, Parked c) \<Longrightarrow> c \<in> set (waiting s i) \<or> c \<in> set (closed s)"
    "k < length cl \<Longrightarrow> l < length cl \<Longrightarrow> cl ! k = (i, Parked c) \<Longrightarrow> cl ! l = (j, Parked c) \<Longrightarrow> k = l"
    "c \<in> set (waiting s i) \<Longrightarrow> \<exists>k < length cl. cl ! k = (i, Parked c)"
  using assms unfolding lookups_ok_def by blast+

lemma lookups_okI:
  assumes "\<And>k i c. k < length cl \<Longrightarrow> cl ! k = (i, Parked c) \<Longrightarrow> c \<in> set (waiting s i) \<or> c \<in> set (closed s)"
    "\<And>k l i j c. k < length cl \<Longrightarrow> l < length cl \<Longrightarrow> cl ! k = (i, Parked c) \<Longrightarrow> cl ! l = (j, Parked c) \<Longrightarrow> k = l"
    "\<And>i c. c \<in> set (waiting s i) \<Longrightarrow> \<exists>k < length cl. cl ! k = (i, Parked c)"
  shows "lookups_ok s cl"
  unfolding lookups_ok_def using assms by blast

lemma wakesD:
  assumes "wakes s s'"
  shows "c \<in> set (closed s) \<Longrightarrow> c \<in> set (closed s')" "c \<in> set (waiting s' i) \<Longrightarrow> c \<in> set (waiting s i)"
    "c \<in> set (waiting s i) \<Longrightarrow> c \<in> set (waiting s' i) \<or> c \<in> set (closed s')"
  using assms unfolding wakes_def by blast+

lemma wakes_lookups_ok:
  assumes "lookups_ok s cl" "wakes s s'"
  shows "lookups_ok s' cl"
proof (rule lookups_okI)
  note L = lookups_okD [OF assms(1)] and W = wakesD [OF assms(2)]
  show "c \<in> set (waiting s' i) \<or> c \<in> set (closed s')" if "k < length cl" "cl ! k = (i, Parked c)" for k i c
    using L(1) [OF that] W(1,3) by blast
  show "k = l" if "k < length cl" "l < length cl" "cl ! k = (i, Parked c)" "cl ! l = (j, Parked c)" for k l i j c
    by (rule L(2) [OF that])
  show "\<exists>k < length cl. cl ! k = (i, Parked c)" if "c \<in> set (waiting s' i)" for i c
    by (rule L(3) [OF W(2) [OF that]])
qed

lemma waiting_chans: "waiters_ok s \<Longrightarrow> c \<in> set (waiting s i) \<Longrightarrow> c \<in> set (chans s)"
  using chans_mem [OF waiters_okD(1)] by (force split: option.splits)

lemma lookups_fresh:
  assumes "lookups_ok s cl" "waiters_ok s" "k < length cl" "cl ! k = (i, Parked c)"
  shows "c < next_chan s"
  using lookups_okD(1) [OF assms(1,3,4)] waiters_okD(5,6) [OF assms(2)] waiting_chans [OF assms(2)] by blast

text \<open>A step of a lookup that leaves the store's table alone.\<close>
lemma lookups_ok_phase:
  assumes "lookups_ok s cl" "k < length cl" "cl ! k = (i, ph)" "\<And>c. ph' \<noteq> Parked c"
    "\<And>c. ph = Parked c \<Longrightarrow> c \<notin> set (waiting s i)"
    "waiters s' = waiters s" "closed s' = closed s"
  shows "lookups_ok s' (cl[k := (i, ph')])"
proof (rule lookups_okI)
  note L = lookups_okD [OF assms(1)]
  have old: "l \<noteq> k \<and> cl ! l = (j, Parked c)" if "l < length (cl[k := (i, ph')])" "cl[k := (i, ph')] ! l = (j, Parked c)" for l j c
    using that assms(2,4) by (cases "l = k") auto
  show "c \<in> set (waiting s' j) \<or> c \<in> set (closed s')" if "l < length (cl[k := (i, ph')])" "cl[k := (i, ph')] ! l = (j, Parked c)" for l j c
    using L(1) [of l j c] old [OF that] that(1) by (simp add: assms)
  show "l = l'" if "l < length (cl[k := (i, ph')])" "l' < length (cl[k := (i, ph')])"
    "cl[k := (i, ph')] ! l = (j, Parked c)" "cl[k := (i, ph')] ! l' = (j', Parked c)" for l l' j j' c
    using L(2) [of l l' j c j'] old [OF that(1,3)] old [OF that(2,4)] that(1,2) by simp
  show "\<exists>l < length (cl[k := (i, ph')]). cl[k := (i, ph')] ! l = (j, Parked c)" if "c \<in> set (waiting s' j)" for j c
  proof -
    from that have c: "c \<in> set (waiting s j)" by (simp add: assms)
    from L(3) [OF c] obtain l where l: "l < length cl" "cl ! l = (j, Parked c)" by blast
    then have "l \<noteq> k" using assms(3,5) c by auto
    with l show ?thesis by auto
  qed
qed

lemma lookups_ok_park:
  assumes "lookups_ok s cl" "waiters_ok s" "k < length cl" "cl ! k = (i, Register)"
    "s' = s\<lparr>next_chan := next_chan s + 1, waiters := put i (waiting s i @ [next_chan s]) (waiters s), nWaiters := nWaiters s + 1\<rparr>"
  shows "lookups_ok s' (cl[k := (i, Parked (next_chan s))])"
proof (rule lookups_okI)
  let ?c = "next_chan s" and ?cl = "cl[k := (i, Parked (next_chan s))]"
  note L = lookups_okD [OF assms(1)]
  have wt: "set (waiting s' j) = set (waiting s j) \<union> (if j = i then {?c} else {})" for j
    by (cases "get (waiters s) i") (auto simp: assms(5))
  have old: "l = k \<and> j = i \<and> c = ?c \<or> l \<noteq> k \<and> cl ! l = (j, Parked c)" if "l < length ?cl" "?cl ! l = (j, Parked c)" for l j c
    using that assms(3) by (cases "l = k") auto
  have fresh: "c \<noteq> ?c" if "l < length cl" "cl ! l = (j, Parked c)" for l j c
    using lookups_fresh [OF assms(1,2) that] by simp
  show "c \<in> set (waiting s' j) \<or> c \<in> set (closed s')" if "l < length ?cl" "?cl ! l = (j, Parked c)" for l j c
    using old [OF that] L(1) [of l j c] that(1) unfolding wt by (auto simp: assms(5))
  show "l = l'" if "l < length ?cl" "l' < length ?cl" "?cl ! l = (j, Parked c)" "?cl ! l' = (j', Parked c)" for l l' j j' c
    using old [OF that(1,3)] old [OF that(2,4)] L(2) [of l l' j c j'] fresh [of l j c] fresh [of l' j' c] that(1,2) by auto
  show "\<exists>l < length ?cl. ?cl ! l = (j, Parked c)" if "c \<in> set (waiting s' j)" for j c
  proof (cases "c \<in> set (waiting s j)")
    case True
    from L(3) [OF this] obtain l where l: "l < length cl" "cl ! l = (j, Parked c)" by blast
    with assms(4) have "l \<noteq> k" by auto
    with l show ?thesis by auto
  next
    case False
    with that have "j = i" "c = ?c" unfolding wt by (auto split: if_splits)
    with assms(3) show ?thesis by auto
  qed
qed

lemma removeWaiter_waiting:
  assumes "waiters_ok s"
  shows "set (waiting (removeWaiter i ch s) j) = (if j = i then set (waiting s i) - {ch} else set (waiting s j))"
proof -
  have "distinct (waiting s i)"
  proof (cases "get (waiters s) i")
    case (Some ws)
    have "mset (chans s) = mset (ws @ concat (map snd (del i (waiters s))))"
      using mset_concat_del [OF waiters_okD(1) [OF assms] Some] by (simp add: chans_def)
    from mset_eq_imp_distinct_iff [OF this] waiters_okD(4) [OF assms] Some show ?thesis by simp
  qed simp
  then have "set (remove1 ch (waiting s i)) = set (waiting s i) - {ch}" by (rule set_remove1_eq)
  then show ?thesis
    using removeWaiter_get [OF waiters_okD(2) [OF assms], of i ch j]
    by (auto split: if_splits)
qed

lemma lookups_ok_timeout:
  assumes "lookups_ok s cl" "waiters_ok s" "k < length cl" "cl ! k = (i, Parked ch)"
  shows "lookups_ok (removeWaiter i ch s) (cl[k := (i, Answered a)])"
proof (rule lookups_okI)
  let ?cl = "cl[k := (i, Answered a)]" and ?s = "removeWaiter i ch s"
  note L = lookups_okD [OF assms(1)] and W = removeWaiter_waiting [OF assms(2), of i ch]
  have closed: "closed ?s = closed s" by (simp add: removeWaiter_def Let_def)
  have old: "l \<noteq> k \<and> cl ! l = (j, Parked c)" if "l < length ?cl" "?cl ! l = (j, Parked c)" for l j c
    using that assms(3) by (cases "l = k") auto
  show "c \<in> set (waiting ?s j) \<or> c \<in> set (closed ?s)" if "l < length ?cl" "?cl ! l = (j, Parked c)" for l j c
  proof -
    have l: "l \<noteq> k" "cl ! l = (j, Parked c)" "l < length cl" using old [OF that] that(1) by simp_all
    then have "c \<noteq> ch" using L(2) [OF l(3) assms(3) l(2)] assms(4) by auto
    with L(1) [OF l(3,2)] show ?thesis unfolding W closed by auto
  qed
  show "l = l'" if "l < length ?cl" "l' < length ?cl" "?cl ! l = (j, Parked c)" "?cl ! l' = (j', Parked c)" for l l' j j' c
    using L(2) [of l l' j c j'] old [OF that(1,3)] old [OF that(2,4)] that(1,2) by simp
  show "\<exists>l < length ?cl. ?cl ! l = (j, Parked c)" if "c \<in> set (waiting ?s j)" for j c
  proof -
    have c: "c \<in> set (waiting s j)" "\<not> (j = i \<and> c = ch)" using that unfolding W by (auto split: if_splits)
    from L(3) [OF c(1)] obtain l where l: "l < length cl" "cl ! l = (j, Parked c)" by blast
    then have "l \<noteq> k" using assms(4) c(2) by auto
    with l show ?thesis by auto
  qed
qed

lemma gc_step_lookups_ok:
  assumes "lookups_ok s cl" "waiters_ok s" "k < length cl" "cl ! k = (i, ph)" "gc_step now d i ph s = (ph', s')"
  shows "lookups_ok s' (cl[k := (i, ph')])"
proof (cases ph)
  case Start
  then have "s' = s" "ph' \<noteq> Parked c" for c
    using assms(5) by (auto simp: gc_step_def gc_start_def split: found.splits if_splits)
  with Start show ?thesis by (intro lookups_ok_phase [OF assms(1,3,4)]) auto
next
  case Probe
  then have "s' = s" "ph' \<noteq> Parked c" for c
    using assms(5) by (auto simp: gc_step_def gc_probe_def split: found.splits if_splits)
  with Probe show ?thesis by (intro lookups_ok_phase [OF assms(1,3,4)]) auto
next
  case Register
  then have r: "gc_register now i s = (ph', s')" using assms(5) by (simp add: gc_step_def)
  show ?thesis
  proof (cases rule: gc_register_cases [of now i s])
    case parks
    with r lookups_ok_park [OF assms(1-3) assms(4) [unfolded Register] refl] show ?thesis by simp
  next
    case (answers a)
    with r Register show ?thesis by (intro lookups_ok_phase [OF assms(1,3,4)]) auto
  next
    case drains
    with r Register show ?thesis by (intro lookups_ok_phase [OF assms(1,3,4)]) auto
  next
    case sheds
    with r Register show ?thesis by (intro lookups_ok_phase [OF assms(1,3,4)]) auto
  qed
next
  case (Parked ch)
  consider "d" | "\<not> d" "ch \<in> set (closed s)" | "\<not> d" "ch \<notin> set (closed s)" by blast
  then show ?thesis
  proof cases
    case 1
    with assms(5) Parked have "s' = removeWaiter i ch s" "\<exists>a. ph' = Answered a"
      by (auto simp: gc_step_def gc_timeout_def Let_def)
    with lookups_ok_timeout [OF assms(1-3)] assms(4) Parked show ?thesis by auto
  next
    case 2
    with assms(5) Parked have e: "s' = s" "ph' = Probe" by (auto simp: gc_step_def)
    have "ch \<notin> set (waiting s i)" using 2 waiting_chans [OF assms(2)] waiters_okD(4) [OF assms(2)] by auto
    with e Parked show ?thesis by (intro lookups_ok_phase [OF assms(1,3,4)]) auto
  next
    case 3
    with assms(5) Parked have "s' = s" "ph' = ph" by (auto simp: gc_step_def)
    then show ?thesis using assms(1,3,4) by (metis list_update_id)
  qed
next
  case (Answered a)
  then have "s' = s" "ph' = ph" using assms(5) by (simp_all add: gc_step_def)
  then show ?thesis using assms(1,3,4) by (metis list_update_id)
qed

lemma reach_lookups_ok: "reach nm own Ok t s cl \<Longrightarrow> lookups_ok s cl"
proof (induction rule: reach.induct)
  case (start t d cap)
  show ?case by (auto simp: lookups_ok_def New_def options_def WithMaxWaiters_def split: option.splits)
next
  case (event t s cl now e)
  then show ?case using wakes_lookups_ok apply_event_wakes reach_inv unfolding inv_def by blast
next
  case (arrive t s cl raw)
  show ?case
  proof (rule lookups_okI, goal_cases)
    case (1 k i c)
    then show ?case using lookups_okD(1) [OF arrive.IH, of k i c] by (auto simp: nth_append split: if_splits)
  next
    case (2 k l i j c)
    then show ?case using lookups_okD(2) [OF arrive.IH, of k l i c j] by (auto simp: nth_append split: if_splits)
  next
    case (3 i c)
    then obtain k where "k < length cl" "cl ! k = (i, Parked c)" using lookups_okD(3) [OF arrive.IH] by blast
    then show ?case by (intro exI [of _ k]) (simp add: nth_append)
  qed
next
  case (look t s cl now k i ph d ph' s')
  then show ?case using gc_step_lookups_ok reach_inv unfolding inv_def by blast
qed

end
