(* ===== verification/StoreProps.thy ===== *)
theory StoreProps
  imports StoreReach
begin

section \<open>What the store promises\<close>

text \<open>
  The properties of the store as its callers see them: what each lookup returns in a reachable
  state, what an upsert, a delete and a sweep do to it, and how blocked lookups end.
\<close>

abbreviation live_pod :: "store \<Rightarrow> uid \<Rightarrow> ref \<Rightarrow> bool" where
  "live_pod s u r \<equiv> get (pods s) u = Some r \<and> live s r"

lemma reachD:
  assumes "reach nm own Ok t s cl"
  shows "0 < t" "store_ok nm s" "entries_ok own s" "pending_ok t s" "waiters_ok s" "dates_ok s"
  using reach_inv [OF assms] by (simp_all add: inv_def expiry_ok_def)

subsection \<open>Lookups\<close>

text \<open>
  C5. \<^verbatim>\<open>PodsOnNode\<close> returns exactly the live pods scheduled on the node, each of them once: a
  deleted pod, a finished move to another node or a displaced namesake is never among the scrape
  targets of a node.
\<close>
theorem PodsOnNode_exact:
  assumes "reach nm own Ok t s cl"
  shows "set (PodsOnNode n s) = {node_pod (at s r) | u r. live_pod s u r \<and> node s r = n \<and> n \<noteq> []} \<and>
    distinct (map (\<lambda>q. pod_UID (np_Pod q)) (PodsOnNode n s))"
proof -
  note ok = store_okD [OF reachD(2) [OF assms]]
  note n = nodes_okD [OF ok(2)]
  have mem: "(u, r) \<in> set (on_node s n) \<longleftrightarrow> live_pod s u r \<and> node s r = n \<and> n \<noteq> []" for u r
    using n(3) [of n u r] n(1) [of n] by auto
  have "map (\<lambda>q. pod_UID (np_Pod q)) (PodsOnNode n s) = map fst (on_node s n)"
    unfolding PodsOnNode_def map_map
    by (rule map_cong [OF refl]) (auto simp: node_pod_def mem dest: pods_okD [OF ok(1)])
  moreover have "set (PodsOnNode n s) = {node_pod (at s r) | u r. live_pod s u r \<and> node s r = n \<and> n \<noteq> []}"
    unfolding PodsOnNode_def using mem by force
  ultimately show ?thesis using n(1) [of n] by simp
qed

text \<open>
  C1. A peer address resolves to a pod exactly when a live pod reports it: \<^verbatim>\<open>GetPodByIP\<close> finds no
  pod when none does, and what it finds is a live pod that may be reached at the address. Deleted,
  finished and host-network pods never resolve by address.
\<close>
theorem GetPodByIP_exact:
  assumes "reach nm own Ok t s cl"
  shows "(GetPodByIP ip s = None \<longleftrightarrow>
      \<not> (\<exists>u r. live_pod s u r \<and> Canonical ip \<in> set (podAddresses (r_pod (at s r))))) \<and>
    (\<forall>q. GetPodByIP ip s = Some q \<longrightarrow>
      (\<exists>u r. live_pod s u r \<and> Canonical ip \<in> set (podAddresses (r_pod (at s r))) \<and> q = node_pod (at s r)))"
proof -
  note ok = store_okD [OF reachD(2) [OF assms]]
  have elig: "elig s (Canonical ip) r" if "Canonical ip \<in> due_claims s r" for r
    using that by (auto simp: due_claims_def elig_def split: if_splits)
  have holder: "live_pod s (U s r) r \<and> Canonical ip \<in> set (podAddresses (r_pod (at s r))) \<and> GetPodByIP ip s = Some (node_pod (at s r))"
    if "get (byPodIP s) (Canonical ip) = Some r" for r
  proof -
    have r: "Canonical ip \<in> due_claims s r" by (rule claimsD(4) [OF ok(4) that])
    then have l: "live_pod s (U s r) r" "Canonical ip \<in> set (podAddresses (r_pod (at s r)))"
      by (auto simp: due_claims_def split: if_splits)
    then have "pod_DeletedAt (r_pod (at s r)) = None" "\<not> FinishedPhase (pod_Phase (r_pod (at s r)))"
      using reachD(6) [OF assms] by (auto simp: dates_ok_def podAddresses_def split: if_splits)
    with l that show ?thesis by (simp add: GetPodByIP_def)
  qed
  have some: "get (byPodIP s) (Canonical ip) \<noteq> None" if "live_pod s u r" "Canonical ip \<in> set (podAddresses (r_pod (at s r)))" for u r
  proof -
    have "Canonical ip \<in> due_claims s r" using that pods_okD [OF ok(1), of u r] by (auto simp: due_claims_def)
    from claimsD(5) [OF ok(4) this elig [OF this]] show ?thesis .
  qed
  show ?thesis
  proof (cases "get (byPodIP s) (Canonical ip)")
    case None
    then have "GetPodByIP ip s = None" by (simp add: GetPodByIP_def)
    with None some show ?thesis by auto
  next
    case (Some r)
    from holder [OF Some] show ?thesis by auto
  qed
qed

text \<open>The deliveries of a run in which addresses are never gained while others are retained.\<close>
fun gentle :: "store \<Rightarrow> event \<Rightarrow> bool" where
  "gentle s (Upsert p) \<longleftrightarrow> whole_update (oldIPs p s) (podAddresses (fst (FromPod p))) \<and>
     unat (ipSeq s) + length (podAddresses (fst (FromPod p))) < 2 ^ 64"
| "gentle s (UpsertLate p) \<longleftrightarrow> whole_update (oldIPs p s) (podAddresses (fst (FromPod p))) \<and>
     unat (ipSeq s) + length (podAddresses (fst (FromPod p))) < 2 ^ 64"
| "gentle s _ \<longleftrightarrow> True"

lemma count_omitted_ranked: "ranked (count_omitted x s) = ranked s"
  by (rule ranked_cong) simp_all

lemma oldIPs_count: "oldIPs p (count_omitted x s) = oldIPs p s"
  by (simp add: oldIPs_def known_def split: option.splits)

lemma upsert_event_ranked:
  assumes "inv nm own t s" "t \<le> now" "same_name nm p" "ranked s"
    "whole_update (oldIPs p s) (podAddresses (fst (FromPod p)))"
    "unat (ipSeq s) + length (podAddresses (fst (FromPod p))) < 2 ^ 64"
  shows "ranked (upsert_locked now p (count_omitted x s))"
proof -
  let ?s = "count_omitted x s"
  have "inv nm own t ?s" by (rule count_omitted_inv [OF assms(1)])
  then have "store_ok nm ?s" "stamps now ?s" using assms(2) by (auto simp: inv_def stamps_def)
  then show ?thesis
    using assms(3-) by (intro upsert_locked_ranked) (simp_all add: count_omitted_ranked oldIPs_count)
qed

lemma reach_ranked:
  assumes "reach nm own Ok t s cl" and "\<And>s e. Ok s e \<Longrightarrow> gentle s e"
  shows "ranked s"
  using assms(1)
proof (induction rule: reach.induct)
  case (start t d cap)
  show ?case
    by (auto simp: ranked_def precedence_def minted_def New_def options_def WithMaxWaiters_def zero_record_def split: option.splits)
next
  case (event t s cl now e)
  have I: "inv nm own t s" by (rule reach_inv [OF event.hyps(1)])
  have st: "stamps now s" using I event.hyps(2) by (auto simp: inv_def stamps_def)
  have ok: "store_ok nm s" using I by (simp add: inv_def)
  have g: "gentle s e" using assms(2) event.hyps(4) by blast
  show ?case
  proof (cases e)
    case (Upsert p)
    with event.hyps(3) g upsert_event_ranked [OF I event.hyps(2) _ event.IH] event.IH show ?thesis
      by (simp add: UpsertPod_def)
  next
    case (UpsertLate p)
    with event.hyps(3) g upsert_event_ranked [OF I event.hyps(2) _ event.IH] show ?thesis by simp
  next
    case (Delete u)
    with deletePodLocked_ok(2) [OF ok st event.IH] show ?thesis by (simp add: DeletePod_def)
  next
    case Sweep
    with sweep_ok(2) [OF ok event.IH] show ?thesis by simp
  next
    case Shutdown
    have "ranked (fst (Drain s)) = ranked s" by (rule ranked_cong) (simp_all add: Drain_frame)
    with Shutdown event.IH show ?thesis by simp
  next
    case Park
    have "ranked (fst (TryPark s)) = ranked s" by (rule ranked_cong) (simp_all add: TryPark_def)
    with Park event.IH show ?thesis by simp
  next
    case Leave
    have "ranked (Unpark s) = ranked s" by (rule ranked_cong) (simp_all add: Unpark_def)
    with Leave event.IH show ?thesis by simp
  qed
next
  case (look t s cl now k i ph d ph' s')
  have "ranked s' = ranked s"
  proof (rule ranked_cong)
    have "s' = snd (gc_step now d i ph s)" using look.hyps(5) by simp
    moreover have "pods (snd (gc_step now d i ph s)) = pods s \<and> heap (snd (gc_step now d i ph s)) = heap s \<and>
        byPodIP (snd (gc_step now d i ph s)) = byPodIP s \<and> ipSeq (snd (gc_step now d i ph s)) = ipSeq s"
      by (auto simp: gc_step_def gc_register_def gc_timeout_def removeWaiter_def Let_def split: phase.splits found.splits)
    ultimately show "pods s' = pods s" "heap s' = heap s" "byPodIP s' = byPodIP s" "ipSeq s' = ipSeq s" by simp_all
  qed
  with look.IH show ?case by simp
qed

text \<open>
  Of the live pods that report an address, one whose acquisition number is the highest is served, in every
  run in which no update gains an address while it retains another.
\<close>
lemma GetPodByIP_latest:
  assumes "reach nm own Ok t s cl" and "\<And>s e. Ok s e \<Longrightarrow> gentle s e"
    and "live_pod s u x" and "Canonical ip \<in> set (podAddresses (r_pod (at s x)))"
  shows "\<exists>r. GetPodByIP ip s = Some (node_pod (at s r)) \<and> live_pod s (U s r) r \<and> seq s x \<le> seq s r"
proof -
  note ok = store_okD [OF reachD(2) [OF assms(1)]]
  have x: "Canonical ip \<in> due_claims s x" "elig s (Canonical ip) x"
    using assms(3,4) pods_okD [OF ok(1), of u x] by (auto simp: due_claims_def elig_def)
  from claimsD(5) [OF ok(4) x] obtain r where r: "get (byPodIP s) (Canonical ip) = Some r" by blast
  have c: "Canonical ip \<in> due_claims s r" by (rule claimsD(4) [OF ok(4) r])
  then have l: "live_pod s (U s r) r" "Canonical ip \<in> set (podAddresses (r_pod (at s r)))"
    by (auto simp: due_claims_def split: if_splits)
  then have "pod_DeletedAt (r_pod (at s r)) = None" "\<not> FinishedPhase (pod_Phase (r_pod (at s r)))"
    using reachD(6) [OF assms(1)] by (auto simp: dates_ok_def podAddresses_def split: if_splits)
  then have "GetPodByIP ip s = Some (node_pod (at s r))" using r by (simp add: GetPodByIP_def)
  moreover have "seq s x \<le> seq s r"
    using reach_ranked [OF assms(1,2)] r x by (auto simp: ranked_def precedence_def)
  ultimately show ?thesis using l by blast
qed

text \<open>
  Two live pods never have the same namespace and name, and a live pod is found under its
  name.
\<close>
theorem GetPodByName_live:
  assumes "reach nm own Ok t s cl" and "live_pod s u r"
  shows "GetPodByName now (pod_Namespace (r_pod (at s r))) (pod_Name (r_pod (at s r))) s = Some (node_pod (at s r)) \<and>
    (\<forall>v x. live_pod s v x \<and> name_key (r_pod (at s x)) = name_key (r_pod (at s r)) \<longrightarrow> v = u \<and> x = r)"
proof -
  note ok = store_okD [OF reachD(2) [OF assms(1)]]
  have at: "get (byPodName s) (name_key (r_pod (at s x))) = Some x" if "live_pod s v x" for v x
    using names_okD(2,3) [OF ok(3), of v x] that by auto
  have "v = u \<and> x = r" if "live_pod s v x" "name_key (r_pod (at s x)) = name_key (r_pod (at s r))" for v x
  proof -
    have "Some x = Some r" using at [OF that(1), unfolded that(2)] at [OF assms(2)] by (rule trans [OF sym])
    then have "x = r" by simp
    moreover from this have "v = u" using pods_inj [OF ok(1), of v r u] that(1) assms(2) by blast
    ultimately show ?thesis by blast
  qed
  moreover have "GetPodByName now (pod_Namespace (r_pod (at s r))) (pod_Name (r_pod (at s r))) s = Some (node_pod (at s r))"
    using at [OF assms(2)] assms(2) by (simp add: GetPodByName_def name_key_def expired_def)
  ultimately show ?thesis by blast
qed

text \<open>
  C6. Every container ID that a live pod reports resolves, to the container the pod reports under
  that ID and to the pod's current document; nothing can delay or evict it.
\<close>
theorem lookupLocked_live:
  assumes "reach nm own Ok t s cl" and "live_pod s u r" and "i \<in> set (ids s r)"
  shows "\<exists>c. lookupLocked now i s = Found \<lparr>cr_Container = c, cr_Pod = r_pod (at s r), cr_OwnerRefs = r_ownerRefs (at s r)\<rparr>"
proof -
  note E = entries_okD [OF reachD(3) [OF assms(1)]]
  obtain e where e: "get (byContainer s) i = Some e" "e_expireAt e = 0"
    using E(4) [of u r i] assms(2,3) by blast
  have "e_podUID e = u" using E(1) [OF e(1)] E(3) [of u r i] assms(2,3) by simp
  with e assms(2) show ?thesis by (simp add: lookupLocked_def expired_def)
qed

subsection \<open>Upsert\<close>

lemma cloneOwnerRefs_id [simp]: "cloneOwnerRefs refs = refs"
proof -
  have "r\<lparr>or_Controller := (case or_Controller r of None \<Rightarrow> None | Some c \<Rightarrow> Some c),
      or_BlockOwnerDeletion := (case or_BlockOwnerDeletion r of None \<Rightarrow> None | Some b \<Rightarrow> Some b)\<rparr> = r" for r :: OwnerReference
    by (simp split: option.splits)
  then show ?thesis by (simp add: cloneOwnerRefs_def)
qed

text \<open>A container the delivery reports keeps its fresh entry through the rest of the upsert.\<close>
lemma upsert_entry:
  assumes ok: "store_ok nm s" "same_name nm p" and st: "stamps now s" and c: "get (snd (FromPod p)) i = Some c"
  shows "get (byContainer (unseated now p s)) i = Some \<lparr>e_podUID = ap_UID p, e_container = c, e_expireAt = 0\<rparr>"
proof -
  let ?s = "placed now p s"
  have e: "get (byContainer ?s) i = Some \<lparr>e_podUID = ap_UID p, e_container = c, e_expireAt = 0\<rparr>"
    using c by (simp add: placed_fields indexed_entry [OF st])
  note k = placed_names_ok [OF store_okD(3,1) [OF ok(1)] ok(2), of now]
  from k show ?thesis
  proof (cases rule: unseated_cases)
    case stay
    with e show ?thesis by simp
  next
    case (leave d ns t)
    have "U ?s d \<noteq> ap_UID p" using displacedD(1,3) [OF leave(1) k] by (auto simp: placed_pods)
    moreover have "stamps now t" using st by (simp add: leave(2) stamps_def placed_fields)
    ultimately show ?thesis
      using e by (simp add: leave(3) delete_record_entry own_live_def) (simp add: leave(2) own_live_def)
  qed
qed

lemma upsert_result:
  assumes ok: "store_ok nm s" "same_name nm p" and st: "stamps now s" and n: "\<not> resyncNoOp s p"
  shows "get (pods (upsert_locked now p s)) (ap_UID p) = Some (rec_of p s)"
    "r_pod (at (upsert_locked now p s) (rec_of p s)) = fst (FromPod p)"
    "r_ownerRefs (at (upsert_locked now p s) (rec_of p s)) = ap_OwnerReferences p"
    "live (upsert_locked now p s) (rec_of p s)"
    "r_resourceVersion (at (upsert_locked now p s) (rec_of p s)) = ap_ResourceVersion p"
    "get (snd (FromPod p)) i = Some c \<Longrightarrow>
      get (byContainer (upsert_locked now p s)) i = Some \<lparr>e_podUID = ap_UID p, e_container = c, e_expireAt = 0\<rparr>"
  using named_ok(8,9) [OF ok st] upsert_entry [OF ok st, of i c]
  by (simp_all add: upsert_locked_eq [OF n]) (simp_all add: new_rec_def named_eq)

lemma resyncNoOp_count: "resyncNoOp (count_omitted x s) p = resyncNoOp s p"
  by (simp add: resyncNoOp_def unchangedLocked_def split: option.splits)

lemma UpsertPod_eq: "\<not> resyncNoOp s p \<Longrightarrow> UpsertPod now p s = upsert_locked now p (count_omitted (fst (FromPod p)) s)"
  by (simp add: UpsertPod_def)

lemma reach_count:
  assumes "reach nm own Ok t s cl" "t \<le> now"
  shows "store_ok nm (count_omitted x s)" "stamps now (count_omitted x s)" "waiters_ok (count_omitted x s)"
  using count_omitted_inv [OF reach_inv [OF assms(1)], of x] assms(2) by (auto simp: inv_def stamps_def)

text \<open>
  What a delivery says is served from the moment it is applied: the pod is found by its UID and
  by its name, with the document and the owner references of the delivery, and every container
  ID the delivery reports resolves to its container and to that document.
\<close>
theorem UpsertPod_served:
  assumes "reach nm own Ok t s cl" and "t \<le> now" and "same_name nm p" and "\<not> resyncNoOp s p"
  shows "let s' = UpsertPod now p s; q = \<lparr>np_Pod = fst (FromPod p), np_OwnerRefs = ap_OwnerReferences p\<rparr> in
    GetPodByUID later (ap_UID p) s' = Some q \<and>
    GetPodByName later (ap_Namespace p) (ap_Name p) s' = Some q \<and>
    (\<forall>i c. get (snd (FromPod p)) i = Some c \<longrightarrow>
       lookupLocked later i s' = Found \<lparr>cr_Container = c, cr_Pod = np_Pod q, cr_OwnerRefs = np_OwnerRefs q\<rparr>)"
proof -
  let ?c = "count_omitted (fst (FromPod p)) s"
  let ?s = "upsert_locked now p ?c" and ?r = "rec_of p ?c"
  note c = reach_count [OF assms(1,2), of "fst (FromPod p)"]
  have n: "\<not> resyncNoOp ?c p" using assms(4) by (simp add: resyncNoOp_count)
  note U = upsert_result [OF c(1) assms(3) c(2) n]
  have "names_ok nm {} ?s" using upsert_locked_ok [OF c(1) assms(3) c(2)] store_okD(3) by blast
  from names_okD(3) [OF this U(1,4)] have "get (byPodName ?s) (nm (ap_UID p)) = Some ?r" by simp
  then have name: "get (byPodName ?s) (ap_Namespace p @ ''/'' @ ap_Name p) = Some ?r"
    using assms(3) by (simp add: same_name_def)
  show ?thesis
    unfolding UpsertPod_eq [OF assms(4)] Let_def
    using U name by (simp add: GetPodByUID_def GetPodByName_def lookupLocked_def node_pod_def expired_def)
qed

text \<open>
  Delivering a pod again changes nothing: the resync of an unchanged pod leaves the whole
  store as it is, the change tokens included.
\<close>
theorem UpsertPod_redelivered:
  assumes "reach nm own Ok t s cl" and "t \<le> now" and "same_name nm p" and "ap_ResourceVersion p \<noteq> []"
  shows "UpsertPod later p (UpsertPod now p s) = UpsertPod now p s"
proof (cases "resyncNoOp s p")
  case True
  then show ?thesis by (simp add: UpsertPod_def)
next
  case False
  let ?c = "count_omitted (fst (FromPod p)) s"
  note c = reach_count [OF assms(1,2), of "fst (FromPod p)"]
  have n: "\<not> resyncNoOp ?c p" using False by (simp add: resyncNoOp_count)
  note U = upsert_result [OF c(1) assms(3) c(2) n]
  have "resyncNoOp (UpsertPod now p s) p"
    unfolding UpsertPod_eq [OF False] using U assms(4) by (simp add: resyncNoOp_def unchangedLocked_def)
  then show ?thesis by (simp add: UpsertPod_def [of later])
qed

subsection \<open>Delete\<close>

lemma on_node_live: "nodes_ok s \<Longrightarrow> pods_ok s \<Longrightarrow> q \<in> set (PodsOnNode n s) \<Longrightarrow>
    \<exists>u x. live_pod s u x \<and> q = node_pod (at s x) \<and> pod_UID (np_Pod q) = u"
proof -
  assume ok: "nodes_ok s" "pods_ok s" and "q \<in> set (PodsOnNode n s)"
  then obtain u x where ux: "(u, x) \<in> set (on_node s n)" "q = node_pod (at s x)" by (auto simp: PodsOnNode_def)
  then have "get (on_node s n) u = Some x" using nodes_okD(1) [OF ok(1), of n] by simp
  then have "live_pod s u x" using nodes_okD(3) [OF ok(1), of n u x] by blast
  with ux(2) pods_okD [OF ok(2), of u x] show ?thesis by (auto simp: node_pod_def)
qed

lemma by_ip_live: "claims (due_claims s) s \<Longrightarrow> GetPodByIP ip s = Some q \<Longrightarrow>
    \<exists>x. live_pod s (U s x) x \<and> q = node_pod (at s x)"
proof -
  assume c: "claims (due_claims s) s" and q: "GetPodByIP ip s = Some q"
  then obtain x where x: "get (byPodIP s) (Canonical ip) = Some x" "q = node_pod (at s x)"
    by (auto simp: GetPodByIP_def split: option.splits if_splits)
  from claimsD(4) [OF c x(1)] have "live_pod s (U s x) x" by (auto simp: due_claims_def split: if_splits)
  with x(2) show ?thesis by blast
qed

text \<open>
  C36. A deleted pod leaves the node and the address index at once, and stays resolvable by UID and by
  container ID, with its deletion time, exactly until the TTL has passed.
\<close>
theorem DeletePod_tombstone:
  assumes "reach nm own Ok t s cl" and "t \<le> now" and "0 < ttl s" and "live_pod s u r"
  shows "let s' = DeletePod now u s; pod = (r_pod (at s r))\<lparr>pod_DeletedAt := Some now\<rparr>; refs = r_ownerRefs (at s r) in
    (\<forall>n. \<forall>q \<in> set (PodsOnNode n s'). pod_UID (np_Pod q) \<noteq> u) \<and>
    (\<forall>ip q. GetPodByIP ip s' = Some q \<longrightarrow> pod_UID (np_Pod q) \<noteq> u) \<and>
    GetPodByUID later u s' = (if later \<le> now + ttl s then Some \<lparr>np_Pod = pod, np_OwnerRefs = refs\<rparr> else None) \<and>
    (\<forall>i \<in> set (ids s r). \<exists>c. lookupLocked later i s' =
       (if later \<le> now + ttl s then Found \<lparr>cr_Container = c, cr_Pod = pod, cr_OwnerRefs = refs\<rparr> else Gone))"
proof -
  let ?s = "DeletePod now u s"
  note I = reachD [OF assms(1)]
  have now: "0 < now" using I(1) assms(2) by simp
  then have st: "stamps now s" by (rule stamps_pos)
  have get: "get (pods s) u = Some r" using assms(4) by simp
  have s': "?s = bumpLocked [node s r] (delete_record now u r s)"
    by (simp add: DeletePod_def deletePodLocked_known [OF get])
  have ok: "store_ok nm ?s" using deletePodLocked_ok(1) [OF I(2) st] by (simp add: DeletePod_def)
  have eff: "pods ?s = pods s" "at ?s r = tombstone now s r"
    using assms(3) by (simp_all add: s' delete_record_effect)
  have "\<not> live ?s r" using now assms(3) by (simp only: eff tombstone_def) simp
  then have dead: "\<not> live_pod ?s u x" for x using get by (cases "x = r") (simp_all only: eff(1), simp_all)
  have node: "pod_UID (np_Pod q) \<noteq> u" if "q \<in> set (PodsOnNode n ?s)" for n q
    using on_node_live [OF store_okD(2,1) [OF ok] that] dead by blast
  have ip: "pod_UID (np_Pod q) \<noteq> u" if "GetPodByIP ip ?s = Some q" for ip q
    using by_ip_live [OF store_okD(4) [OF ok] that] dead by (auto simp: node_pod_def)
  have ent: "\<exists>c. get (byContainer ?s) i = Some \<lparr>e_podUID = u, e_container = c, e_expireAt = now + ttl s\<rparr>"
    if i: "i \<in> set (ids s r)" for i
  proof -
    obtain e where e: "get (byContainer s) i = Some e" "e_expireAt e = 0"
      using entries_okD(4) [OF I(3) get i] assms(4) by blast
    have "e_podUID e = u" using entries_okD(1) [OF I(3) e(1)] entries_okD(3) [OF I(3) get i] by simp
    with e i assms(3) show ?thesis
      by (intro exI [of _ "e_container e"]) (simp add: s' delete_record_entry [OF st] own_live_def)
  qed
  have "GetPodByUID later u ?s = (if later \<le> now + ttl s
      then Some \<lparr>np_Pod = (r_pod (at s r))\<lparr>pod_DeletedAt := Some now\<rparr>, np_OwnerRefs = r_ownerRefs (at s r)\<rparr> else None)"
    using get now assms(3) by (simp add: GetPodByUID_def eff tombstone_def node_pod_def expired_def)
  moreover have "\<exists>c. lookupLocked later i ?s = (if later \<le> now + ttl s
      then Found \<lparr>cr_Container = c, cr_Pod = (r_pod (at s r))\<lparr>pod_DeletedAt := Some now\<rparr>, cr_OwnerRefs = r_ownerRefs (at s r)\<rparr>
      else Gone)" if "i \<in> set (ids s r)" for i
    using ent [OF that] get now assms(3) by (auto simp: lookupLocked_def eff tombstone_def expired_def)
  ultimately show ?thesis using node ip by (simp add: Let_def)
qed

subsection \<open>Sweep\<close>

lemma expired_later: "expired w now \<Longrightarrow> now \<le> later \<Longrightarrow> expired w later"
  by (auto simp: expired_def)

lemma sweepPodLocked_name:
  "get (byPodName (sweepPodLocked now u s)) k = get (byPodName s) k \<or>
     (\<exists>r. get (byPodName s) k = Some r \<and> expired (r_expireAt (at s r)) now \<and> get (byPodName (sweepPodLocked now u s)) k = None)"
  by (auto simp: sweepPodLocked_def removeRecordLocked_def dropNameIndexLocked_def Let_def split: option.splits)

text \<open>A sweep removes names of lapsed records only, and leaves the node and address indexes alone.\<close>
lemma sweep_loop_name:
  "get (byPodName (snd (sweep_loop now ps n s))) k = get (byPodName s) k \<or>
     (\<exists>r. get (byPodName s) k = Some r \<and> expired (r_expireAt (at s r)) now \<and>
        get (byPodName (snd (sweep_loop now ps n s))) k = None)"
proof (induction ps arbitrary: n s)
  case (Cons q ps)
  let ?t = "if p_isPod q then sweepPodLocked now (p_uid q) s else sweepContainerLocked now (p_id q) s"
  have t: "get (byPodName ?t) k = get (byPodName s) k \<or>
      (\<exists>r. get (byPodName s) k = Some r \<and> expired (r_expireAt (at s r)) now \<and> get (byPodName ?t) k = None)"
    using sweepPodLocked_name [of now "p_uid q" s k] by simp
  have h: "heap ?t = heap s" by simp
  from Cons.IH [of "Suc n" ?t] t show ?case unfolding h by (auto simp del: if_split)
qed simp

lemma sweep_loop_indexes:
  "byNode (snd (sweep_loop now ps n s)) = byNode s" "byPodIP (snd (sweep_loop now ps n s)) = byPodIP s"
  by (induction ps arbitrary: n s) auto

lemma sweep_indexes:
  "byNode (sweep now s) = byNode s" "byPodIP (sweep now s) = byPodIP s"
  "get (byPodName (sweep now s)) k = get (byPodName s) k \<or>
     (\<exists>r. get (byPodName s) k = Some r \<and> expired (r_expireAt (at s r)) now \<and> get (byPodName (sweep now s)) k = None)"
  using sweep_loop_name [of now "pending s" 0 s k]
  by (auto simp: sweep_eq Let_def case_prod_beta sweep_loop_indexes)

text \<open>
  C4. A sweep removes exactly what has lapsed, although it looks only at the front of the pending
  list: of the pods and the container entries those without a lapsed stamp remain, as a scan of
  both maps would leave them.
\<close>
theorem sweep_is_full_scan:
  assumes "reach nm own Ok t s cl"
  shows "(\<forall>u. get (pods (sweep now s)) u =
      (case get (pods s) u of Some r \<Rightarrow> if expired (r_expireAt (at s r)) now then None else Some r | None \<Rightarrow> None)) \<and>
    (\<forall>i. get (byContainer (sweep now s)) i =
      (case get (byContainer s) i of Some e \<Rightarrow> if expired (e_expireAt e) now then None else Some e | None \<Rightarrow> None)) \<and>
    heap (sweep now s) = heap s"
  using sweep_exact [OF reachD(3,4) [OF assms], of now] sweep_frame(1) [OF reachD(3,4) [OF assms], of now] by simp

text \<open>
  No lookup can tell that a sweep has run: whatever it removes, a lookup at the same or a later
  time did not find any more, under the container ID, the UID, the name, the address or the node.
\<close>
theorem sweep_invisible:
  assumes "reach nm own Ok t s cl" and "now \<le> later"
  shows "answer (lookupLocked later i (sweep now s)) = answer (lookupLocked later i s) \<and>
    GetPodByUID later u (sweep now s) = GetPodByUID later u s \<and>
    GetPodByName later ns name (sweep now s) = GetPodByName later ns name s \<and>
    GetPodByIP ip (sweep now s) = GetPodByIP ip s \<and>
    PodsOnNode n (sweep now s) = PodsOnNode n s"
proof -
  note S = sweep_exact [OF reachD(3,4) [OF assms(1)], of now] sweep_frame(1) [OF reachD(3,4) [OF assms(1)], of now]
  note late = expired_later [OF _ assms(2)]
  have "answer (lookupLocked later i (sweep now s)) = answer (lookupLocked later i s)"
    using late by (auto simp: lookupLocked_def S answer_def split: option.splits)
  moreover have "GetPodByUID later u (sweep now s) = GetPodByUID later u s"
    using late by (auto simp: GetPodByUID_def S split: option.splits)
  moreover have "GetPodByName later ns name (sweep now s) = GetPodByName later ns name s"
    using late sweep_indexes(3) [of now s "ns @ ''/'' @ name"]
    by (cases "get (byPodName s) (ns @ ''/'' @ name)") (auto simp: GetPodByName_def S(3))
  ultimately show ?thesis by (simp add: GetPodByIP_def PodsOnNode_def S(3) sweep_indexes split: option.splits)
qed

text \<open>
  The pending list's array does not outgrow the list: after the compaction of a sweep it has at most 1024
  slots, or at most four times the pending stamps (rounded), and the stamps themselves are kept.
\<close>
theorem shrinkPending_bound:
  assumes "length p \<le> c"
  shows "fst (shrinkPending p c) = p \<and> length p \<le> snd (shrinkPending p c) \<and> snd (shrinkPending p c) \<le> c \<and>
    snd (shrinkPending p c) \<le> max maxIdlePendingStamps (4 * length p + 3)"
  using assms by (auto simp: shrinkPending_def maxIdlePendingStamps_def)

theorem shrinkPending_bound_witness:
  "length ([] :: pendingExpiry list) \<le> 5000 \<and> snd (shrinkPending [] 5000) \<le> 1024"
  using shrinkPending_bound [of "[]" 5000] by (simp add: maxIdlePendingStamps_def)

subsection \<open>Who an address belongs to\<close>













end
