(* ===== verification/StoreNodeToken.thy ===== *)
theory StoreNodeToken
  imports StoreProps
begin

section \<open>The change tokens of the store honour their contract\<close>

text \<open>
  The store's per-node change token (\<^verbatim>\<open>NodeGeneration\<close>) is interpreted as a \<open>change_token\<close>, over
  every transition the store has.
\<close>

subsection \<open>The change token of a node\<close>

text \<open>A step of the store as the token contract sees it: the counter is not about to wrap.\<close>
inductive node_step :: "(uid \<Rightarrow> string) \<Rightarrow> (string \<Rightarrow> uid) \<Rightarrow> store \<Rightarrow> store \<Rightarrow> bool" for nm own where
  on_event: "0 < now \<Longrightarrow> faithful nm own e \<Longrightarrow> unat (gen s) + 2 < 2 ^ 64 \<Longrightarrow> node_step nm own s (apply_event now e s)"
| on_lookup: "node_step nm own s (snd (gc_step now d i ph s))"

text \<open>What a step that never touches the pods of a node leaves behind.\<close>
lemma idle_step:
  assumes "store_ok nm s" "tokens_ok s" "store_ok nm s'" "minted_for {} s s'" "byNode s' = byNode s"
    "\<And>x. r_pod (at s' x) = r_pod (at s x) \<and> r_ownerRefs (at s' x) = r_ownerRefs (at s x)"
  shows "\<exists>A. minted_for A s s' \<and> views_kept A s s' \<and> tokens_ok s'"
proof -
  have v: "views_kept {} s s'" by (rule views_kept_same [OF assms(5,6)])
  have "tokens_ok s'"
    by (rule tokens_ok_step [OF assms(2,4) v store_okD(2) [OF assms(1)] store_okD(2) [OF assms(3)]]) simp
  with v assms(4) show ?thesis by blast
qed

lemma sweep_token_frame: "minted_for {} s (sweep now s)" if "unat (gen s) + 1 < 2 ^ 64"
proof -
  let ?t = "snd (sweep_loop now (pending s) 0 s)"
  have f: "gen (snd (sweep_loop now ps n s)) = gen s" "nodeGen (snd (sweep_loop now ps n s)) = nodeGen s" for ps n
    by (induction ps arbitrary: n s) auto
  then have t: "minted_for {} s (?t\<lparr>pending := v\<rparr>)" for v by (intro minted_for_same) simp_all
  have b: "minted_for {} (?t\<lparr>pending := v\<rparr>) (bumpLocked [] (?t\<lparr>pending := v\<rparr>))" for v
    using bumpLocked_minted [of "?t\<lparr>pending := v\<rparr>" "[]"] that by (simp add: f)
  have "minted_for {} s (bumpLocked [] (?t\<lparr>pending := v\<rparr>))" for v using minted_for_trans [OF t b] by simp
  moreover have "minted_for {} s ?t" using f by (intro minted_for_same) simp_all
  ultimately show ?thesis by (simp add: sweep_eq Let_def case_prod_beta)
qed

lemma sweep_loop_heap: "heap (snd (sweep_loop now ps n s)) = heap s"
  by (induction ps arbitrary: n s) auto

lemma gc_step_frame:
  "pods (snd (gc_step now d i ph s)) = pods s" "heap (snd (gc_step now d i ph s)) = heap s"
  "next_ref (snd (gc_step now d i ph s)) = next_ref s" "byNode (snd (gc_step now d i ph s)) = byNode s"
  "byPodName (snd (gc_step now d i ph s)) = byPodName s" "byPodIP (snd (gc_step now d i ph s)) = byPodIP s"
  "ipClaimants (snd (gc_step now d i ph s)) = ipClaimants s" "gen (snd (gc_step now d i ph s)) = gen s"
  "nodeGen (snd (gc_step now d i ph s)) = nodeGen s" "byContainer (snd (gc_step now d i ph s)) = byContainer s"
  by (auto simp: gc_step_def gc_register_def gc_timeout_def removeWaiter_def Let_def split: phase.splits found.splits)

lemma apply_event_tokens:
  assumes "store_ok nm s" "tokens_ok s" "0 < now" "faithful nm own e" "unat (gen s) + 2 < 2 ^ 64"
  shows "store_ok nm (apply_event now e s) \<and>
    (\<exists>A. minted_for A s (apply_event now e s) \<and> views_kept A s (apply_event now e s) \<and> tokens_ok (apply_event now e s))"
proof -
  have st: "stamps now x" for x by (rule stamps_pos [OF assms(3)])
  have idle: "store_ok nm t \<and> (\<exists>A. minted_for A s t \<and> views_kept A s t \<and> tokens_ok t)"
    if "store_ok nm t = store_ok nm s" "gen t = gen s" "nodeGen t = nodeGen s" "byNode t = byNode s" "heap t = heap s" for t
    using that assms(1,2) idle_step [OF assms(1,2), of t] minted_for_same [of t s] by simp
  have up: "store_ok nm (upsert_locked now p (count_omitted x s)) \<and>
      (\<exists>A. minted_for A s (upsert_locked now p (count_omitted x s)) \<and> views_kept A s (upsert_locked now p (count_omitted x s)) \<and>
        tokens_ok (upsert_locked now p (count_omitted x s)))" if p: "same_name nm p" for p x
  proof -
    let ?c = "count_omitted x s"
    have c: "store_ok nm ?c = store_ok nm s" by (rule store_ok_cong) simp_all
    have ok: "store_ok nm ?c" using c assms(1) by simp
    have "minted_for {} s ?c" by (rule minted_for_same) simp_all
    moreover have v: "views_kept {} s ?c" by (rule views_kept_same) simp_all
    moreover have "tokens_ok ?c" using assms(2) by (simp add: tokens_ok_def)
    moreover note upsert_locked_tokens [OF ok p st this]
    ultimately show ?thesis
      using assms(5) upsert_locked_ok [OF ok p st] minted_for_trans views_kept_trans by fastforce
  qed
  show ?thesis
  proof (cases e)
    case (Upsert p)
    then show ?thesis using up [of p] idle [of s] assms(4) by (simp add: UpsertPod_def)
  next
    case (UpsertLate p)
    then show ?thesis using up [of p] assms(4) by simp
  next
    case (Delete u)
    then show ?thesis
      using deletePodLocked_ok(1) [OF assms(1) st] deletePodLocked_tokens [OF assms(1) st assms(2)] assms(5)
      by (simp add: DeletePod_def)
  next
    case Sweep
    have "heap (sweep now s) = heap s" by (simp add: sweep_eq Let_def case_prod_beta sweep_loop_heap)
    then show ?thesis
      using Sweep idle_step [OF assms(1,2) sweep_ok(1) [OF assms(1)] sweep_token_frame sweep_indexes(1)] assms(5)
        sweep_ok(1) [OF assms(1)] by simp
  next
    case Shutdown
    have "store_ok nm (fst (Drain s)) = store_ok nm s" by (rule store_ok_cong) (simp_all add: Drain_frame)
    from idle [OF this] Shutdown show ?thesis by (simp add: Drain_frame)
  next
    case Park
    have "store_ok nm (fst (TryPark s)) = store_ok nm s" by (rule store_ok_cong) (simp_all add: TryPark_def)
    from idle [OF this] Park show ?thesis by (simp add: TryPark_def)
  next
    case Leave
    have "store_ok nm (Unpark s) = store_ok nm s" by (rule store_ok_cong) (simp_all add: Unpark_def)
    from idle [OF this] Leave show ?thesis by (simp add: Unpark_def)
  qed
qed

lemma node_step_tokens:
  assumes "node_step nm own s s'" "store_ok nm s" "tokens_ok s"
  shows "store_ok nm s' \<and> (\<exists>A. minted_for A s s' \<and> views_kept A s s' \<and> tokens_ok s')"
  using assms(1)
proof cases
  case (on_event now e)
  then show ?thesis using apply_event_tokens [OF assms(2,3)] by simp
next
  case (on_lookup now d i ph)
  have "store_ok nm s' = store_ok nm s" by (rule store_ok_cong) (simp_all add: on_lookup gc_step_frame)
  then show ?thesis
    using idle_step [OF assms(2,3), of s'] minted_for_same [of s' s] assms(2) by (simp add: on_lookup gc_step_frame)
qed

interpretation node_token: change_token
  "\<lambda>s. store_ok nm s \<and> tokens_ok s" "node_step nm own" "PodsOnNode n" "\<lambda>s. NodeGeneration s n" gen
  for nm own n
proof
  fix s s'
  show "NodeGeneration s n \<le> gen s" if "store_ok nm s \<and> tokens_ok s"
    using that by (auto simp: NodeGeneration_def tokens_ok_def split: option.splits)
  assume "store_ok nm s \<and> tokens_ok s" "node_step nm own s s'"
  then obtain A where A: "store_ok nm s" "tokens_ok s" "store_ok nm s'" "minted_for A s s'" "views_kept A s s'" "tokens_ok s'"
    using node_step_tokens by blast
  then show "store_ok nm s' \<and> tokens_ok s'" "NodeGeneration s n \<le> NodeGeneration s' n"
    using minted_for_token(2) by blast+
  assume "PodsOnNode n s' \<noteq> PodsOnNode n s"
  moreover have "PodsOnNode [] t = []" if "store_ok nm t" for t
    using no_nameless_node [OF store_okD(2) [OF that]] by (simp add: PodsOnNode_def get_map_def)
  ultimately have "n \<in> A" "n \<noteq> []" using A(1,3,5) by (auto simp: views_kept_def)
  then show "gen s < NodeGeneration s' n" using minted_for_token(1) [OF A(4,2)] by blast
qed

lemma New_tokens: "store_ok nm (New d (options cap)) \<and> tokens_ok (New d (options cap))"
  using New_inv [of 1 nm "\<lambda>_. []" d cap]
  by (auto simp: inv_def tokens_ok_def New_def options_def WithMaxWaiters_def split: option.splits)

text \<open>
  C2. An answer derived from a node's pod set and remembered under the node's change token is
  current for as long as the token is the same: nothing an informer event, a sweep, a shutdown or a
  lookup does in between can change the pod set of the node and leave its token where it was, and
  reading the token before the pods is the safe order.
\<close>
theorem NodeGeneration_sound:
  assumes "(node_step nm own)\<^sup>*\<^sup>* (New d (options cap)) s" and "(node_step nm own)\<^sup>*\<^sup>* s m" and "(node_step nm own)\<^sup>*\<^sup>* m s'"
    and "NodeGeneration s' n = NodeGeneration s n"
  shows "PodsOnNode n s' = PodsOnNode n m"
  using node_token.memo_sound [OF assms(2,3) node_token.valid_steps [OF assms(1) New_tokens] assms(4)] .

end
