(* ===== verification/StoreBlocked.thy ===== *)
theory StoreBlocked
  imports StoreProps
begin

section \<open>Blocked lookups: the budget, wake-ups and shutdown\<close>

text \<open>
  What holds of the lookups that wait for a container ID, in every reachable state: how many there may be,
  that none of them sleeps past the arrival of its ID, and that a shutdown ends all of them.
\<close>

text \<open>The lookups that hold a slot: those parked on a channel nobody has closed.\<close>
definition blocked :: "store \<Rightarrow> lookup list \<Rightarrow> nat set" where
  "blocked s cl = {k. k < length cl \<and> (\<exists>i c. cl ! k = (i, Parked c) \<and> c \<notin> set (closed s))}"

lemma waiting_iff: "c \<in> set (waiting s i) \<longleftrightarrow> (\<exists>ws. get (waiters s) i = Some ws \<and> c \<in> set ws)"
  by (cases "get (waiters s) i") simp_all

lemma chans_waiting: "waiters_ok s \<Longrightarrow> c \<in> set (chans s) \<longleftrightarrow> (\<exists>i. c \<in> set (waiting s i))"
  unfolding waiting_iff by (rule chans_mem [OF waiters_okD(1)])

lemma blocked_card:
  assumes "lookups_ok s cl" "waiters_ok s"
  shows "card (blocked s cl) = length (chans s)"
proof -
  define f where "f k = (case snd (cl ! k) of Parked c \<Rightarrow> c | _ \<Rightarrow> 0)" for k
  note L = lookups_okD [OF assms(1)]
  have disj: "c \<notin> set (closed s)" if "c \<in> set (chans s)" for c using that waiters_okD(4) [OF assms(2)] by auto
  have "inj_on f (blocked s cl)" using L(2) by (intro inj_onI) (auto simp: blocked_def f_def)
  moreover have "f ` blocked s cl = set (chans s)"
  proof (intro equalityI subsetI)
    fix c assume "c \<in> f ` blocked s cl"
    then obtain k i where "k < length cl" "cl ! k = (i, Parked c)" "c \<notin> set (closed s)" by (auto simp: blocked_def f_def)
    with L(1) show "c \<in> set (chans s)" using chans_waiting [OF assms(2)] by blast
  next
    fix c assume c: "c \<in> set (chans s)"
    then obtain i k where "k < length cl" "cl ! k = (i, Parked c)" using chans_waiting [OF assms(2)] L(3) by blast
    with disj [OF c] have "k \<in> blocked s cl" "f k = c" by (auto simp: blocked_def f_def)
    then show "c \<in> f ` blocked s cl" by blast
  qed
  ultimately have "card (blocked s cl) = card (set (chans s))" by (metis card_image)
  then show ?thesis using waiters_okD(4) [OF assms(2)] distinct_card by auto
qed

text \<open>
  C34. The waiter count is exact and within the budget: it is the number of lookups that are
  parked on a channel nobody has closed, no slot leaks whichever way a lookup ends, and together
  with the slots other handlers hold it never exceeds the configured bound.
\<close>
theorem waiter_budget:
  assumes "reach nm own Ok t s cl"
  shows "nWaiters s = int (card (blocked s cl)) \<and> 0 \<le> nExternal s \<and>
    nWaiters s + nExternal s \<le> max 0 (maxWaiters s) \<and> BlockedLookups s = nWaiters s + nExternal s"
  using blocked_card [OF reach_lookups_ok [OF assms] reachD(5) [OF assms]] waiters_okD(3,9,10) [OF reachD(5) [OF assms]]
  by (simp add: BlockedLookups_def)

text \<open>
  C3. No wake-up is lost: a lookup that is parked while its container ID is indexed has had its
  channel closed, and its next two steps answer it with what the index holds.
\<close>
theorem no_lost_wakeup:
  assumes "reach nm own Ok t s cl" and "k < length cl" and "cl ! k = (i, Parked c)" and "get (byContainer s) i \<noteq> None"
  shows "gc_step now False i (Parked c) s = (Probe, s) \<and>
    gc_step now d i Probe s = (Answered (answer (lookupLocked now i s)), s)"
proof -
  have "get (waiters s) i = None" using waiters_okD(7) [OF reachD(5) [OF assms(1)], of i] assms(4) by blast
  then have "c \<in> set (closed s)" using lookups_okD(1) [OF reach_lookups_ok [OF assms(1)] assms(2,3)] by simp
  moreover have "lookupLocked now i s \<noteq> Missing" using assms(4) by (simp add: lookup_missing)
  ultimately show ?thesis by (auto simp: gc_step_def gc_probe_def split: found.splits)
qed

lemma draining_register:
  "draining s \<Longrightarrow> \<exists>a. fst (gc_register now i s) = Answered a"
  by (auto simp: gc_register_def split: found.splits)

lemma Answered_steps: "fst (fold (\<lambda>(now, d) (p, t). gc_step now d i p t) ts (Answered a, s)) = Answered a"
  by (induction ts) (auto simp: gc_step_def)

lemma draining_probe:
  "draining s \<Longrightarrow> length ts = 2 \<Longrightarrow>
     \<exists>a. fst (fold (\<lambda>(now, d) (p, t). gc_step now d i p t) ts (Probe, s)) = Answered a"
proof -
  assume s: "draining s" and ts: "length ts = 2"
  then obtain n1 d1 n2 d2 where ts: "ts = [(n1, d1), (n2, d2)]"
    by (auto simp: length_Suc_conv numeral_2_eq_2)
  have "gc_probe n1 d1 i s = Register \<or> (\<exists>a. gc_probe n1 d1 i s = Answered a)"
    by (auto simp: gc_probe_def split: found.splits)
  then show ?thesis using draining_register [OF s, of n2 i] by (auto simp: ts gc_step_def)
qed

text \<open>
  C35. A shutdown ends every lookup: once the store drains, no lookup is parked on an open channel,
  none parks any more, and each lookup is answered within three of its own steps, whatever the clock and
  its context do.
\<close>
theorem Drain_ends_lookups:
  assumes "reach nm own Ok t s cl" and "draining s" and "k < length cl" and "cl ! k = (i, ph)" and "length ts = 3"
  shows "blocked s cl = {} \<and> (\<forall>now j c. fst (gc_register now j s) \<noteq> Parked c) \<and>
    (\<exists>a. fst (fold (\<lambda>(now, d) (p, t). gc_step now d i p t) ts (ph, s)) = Answered a)"
proof -
  note W = waiters_okD [OF reachD(5) [OF assms(1)]]
  have none: "waiters s = []" by (rule W(8) [OF assms(2)])
  have closed: "c \<in> set (closed s)" if "l < length cl" "cl ! l = (j, Parked c)" for l j c
    using lookups_okD(1) [OF reach_lookups_ok [OF assms(1)] that] none by simp
  obtain n d ts' where ts: "ts = (n, d) # ts'" "length ts' = 2" using assms(5) by (cases ts) (auto simp: numeral_3_eq_3 numeral_2_eq_2)
  note probe = draining_probe [OF assms(2) ts(2), of i]
  have "\<exists>a. fst (fold (\<lambda>(now, d) (p, t). gc_step now d i p t) ts (ph, s)) = Answered a"
  proof (cases ph)
    case Start
    then have "gc_start n i s = Probe \<or> (\<exists>a. gc_start n i s = Answered a)"
      by (auto simp: gc_start_def split: found.splits)
    with Start probe Answered_steps show ?thesis by (auto simp: ts(1) gc_step_def)
  next
    case Probe
    have "gc_probe n d i s = Register \<or> (\<exists>a. gc_probe n d i s = Answered a)"
      by (auto simp: gc_probe_def split: found.splits)
    moreover obtain n2 d2 n3 d3 where "ts' = [(n2, d2), (n3, d3)]" using ts(2) by (auto simp: length_Suc_conv numeral_2_eq_2)
    moreover obtain a t where "gc_register n2 i s = (Answered a, t)" using draining_register [OF assms(2), of n2 i] by (metis prod.collapse)
    ultimately show ?thesis using Probe by (auto simp: ts(1) gc_step_def)
  next
    case Register
    obtain a t where "gc_register n i s = (Answered a, t)" using draining_register [OF assms(2), of n i] by (metis prod.collapse)
    with Register Answered_steps show ?thesis by (auto simp: ts(1) gc_step_def)
  next
    case (Parked c)
    with closed assms(3,4) have "c \<in> set (closed s)" by blast
    with Parked probe Answered_steps show ?thesis by (auto simp: ts(1) gc_step_def gc_timeout_def Let_def)
  next
    case (Answered a)
    with Answered_steps show ?thesis by blast
  qed
  moreover have "blocked s cl = {}" using closed by (auto simp: blocked_def)
  moreover have "fst (gc_register now j s) \<noteq> Parked c" for now j c using draining_register [OF assms(2), of now j] by auto
  ultimately show ?thesis by blast
qed

text \<open>
  \<^verbatim>\<open>Drain\<close> wakes every blocked lookup, reports how many there were, and is idempotent.
\<close>
theorem Drain_count:
  assumes "reach nm own Ok t s cl"
  shows "draining (fst (Drain s)) \<and> blocked (fst (Drain s)) cl = {} \<and>
    snd (Drain s) = (if draining s then 0 else int (card (blocked s cl))) \<and> Drain (fst (Drain s)) = (fst (Drain s), 0)"
proof -
  note W = reachD(5) [OF assms] and L = reach_lookups_ok [OF assms]
  have c: "nWaiters s = int (card (blocked s cl))" using blocked_card [OF L W] waiters_okD(3) [OF W] by simp
  show ?thesis
  proof (cases "draining s")
    case True
    then have "blocked s cl = {}" using lookups_okD(1) [OF L] waiters_okD(8) [OF W] by (force simp: blocked_def)
    with True show ?thesis by (simp add: Drain_def)
  next
    case False
    note D = Drain_effect [OF W False]
    have "blocked (fst (Drain s)) cl = {}"
      using lookups_okD(1) [OF L] chans_waiting [OF W] D(2) unfolding blocked_def by blast
    with D c False show ?thesis by (simp add: Drain_def [of "fst (Drain s)"])
  qed
qed

end
