(* ===== verification/StoreExamples.thy ===== *)
theory StoreExamples
  imports StoreNodeToken StoreBlocked
begin

section \<open>The store on concrete runs\<close>

text \<open>
  Small reachable states, at which the hypotheses of the store's properties hold: a pod is delivered to a
  new store, with and without a lookup blocked on one of its containers, and deleted again.
\<close>

definition quiet_pod :: APIPod where
  "quiet_pod = restarted_pod\<lparr>ap_PodIP := [], ap_PodIPs := [], ap_HostIP := []\<rparr>"

definition empty_store :: store where
  "empty_store = New 100 (options None)"

definition quiet_store :: store where
  "quiet_store = UpsertPod 10 quiet_pod empty_store"

abbreviation any_event :: "store \<Rightarrow> event \<Rightarrow> bool" where "any_event \<equiv> \<lambda>_ _. True"
abbreviation one_name :: "uid \<Rightarrow> string" where "one_name \<equiv> \<lambda>_. ''ns/web-0''"
abbreviation one_owner :: "string \<Rightarrow> uid" where "one_owner \<equiv> \<lambda>_. ''u1''"

lemma quiet_fields: "ap_UID quiet_pod = ''u1''" "ap_Namespace quiet_pod = ''ns''" "ap_Name quiet_pod = ''web-0''"
  "ap_ResourceVersion quiet_pod = ''7''"
  by (simp_all add: quiet_pod_def restarted_pod_def)

lemma quiet_faithful: "faithful one_name one_owner (Upsert quiet_pod)" "same_name one_name quiet_pod"
  by (simp_all add: same_name_def owns_def quiet_fields)

lemma empty_reach: "reach one_name one_owner any_event 1 empty_store []"
  unfolding empty_store_def by (rule reach.start) simp

lemma quiet_reach: "reach one_name one_owner any_event 10 quiet_store []"
  using reach.event [OF empty_reach, of 10 "Upsert quiet_pod"] quiet_faithful by (simp add: quiet_store_def)

lemma quiet_state: "live_pod quiet_store ''u1'' 0" "ids quiet_store 0 = [''new'', ''old'']" "ttl quiet_store = 100"
  "PodsOnNode ''node-a'' quiet_store = [node_pod (at quiet_store 0)]"
  by code_simp+

lemma quiet_new: "\<not> resyncNoOp empty_store quiet_pod"
  by code_simp

theorem PodsOnNode_exact_witness:
  "reach one_name one_owner any_event 10 quiet_store [] \<and>
   {node_pod (at quiet_store r) | u r. live_pod quiet_store u r \<and> node quiet_store r = ''node-a'' \<and> ''node-a'' \<noteq> []} =
     {node_pod (at quiet_store 0)}"
  using PodsOnNode_exact [OF quiet_reach, of "''node-a''"] quiet_reach by (simp add: quiet_state(4))

text \<open>The pod with its address.\<close>
definition web_store :: store where
  "web_store = UpsertPod 10 restarted_pod empty_store"

lemma Canonical_ip: "Canonical ''10.0.0.1'' = ''10.0.0.1''" "Canonical ''192.168.0.1'' = ''192.168.0.1''"
proof -
  have r: "render (V4 [10, 0, 0, 1]) = ''10.0.0.1''" "render (V4 [192, 168, 0, 1]) = ''192.168.0.1''" by code_simp+
  have "Canonical (render (V4 [a, b, c, d])) = render (V4 [a, b, c, d])" if "\<forall>x \<in> {a, b, c, d}. x \<le> 255" for a b c d
    using canonical_render [of "V4 [a, b, c, d]"] that by (simp add: Canonical_def wf_addr_def del: render.simps)
  from this [of 10 0 0 1] this [of 192 168 0 1]
  show "Canonical ''10.0.0.1'' = ''10.0.0.1''" "Canonical ''192.168.0.1'' = ''192.168.0.1''" by (simp_all add: r del: render.simps One_nat_def)
qed

lemma FromPod_addresses: "pod_HostIP (fst (FromPod p)) = ap_HostIP p" "pod_HostNetwork (fst (FromPod p)) = ap_HostNetwork p"
  "pod_Phase (fst (FromPod p)) = ap_Phase p"
  by (simp_all add: FromPod_def Let_def split: prod.splits)

lemma web_pod: "podAddresses (fst (FromPod restarted_pod)) = [''10.0.0.1'']" "\<not> resyncNoOp empty_store restarted_pod"
  by (simp_all add: podAddresses_def rawIPs_def podIPs_def FromPod_addresses restarted_pod_def Canonical_ip FinishedPhase_def
      resyncNoOp_def unchangedLocked_def empty_store_def New_def options_def)

lemma web_faithful: "faithful one_name one_owner (Upsert restarted_pod)" "same_name one_name restarted_pod"
  by (simp_all add: same_name_def owns_def restarted_pod_def)

lemma web_reach:
  assumes "\<And>s e. (s, e) = (empty_store, Upsert restarted_pod) \<Longrightarrow> Ok s e"
  shows "reach one_name one_owner Ok 10 web_store []"
proof -
  have "reach one_name one_owner Ok 1 empty_store []" unfolding empty_store_def by (rule reach.start) simp
  from reach.event [OF this, of 10 "Upsert restarted_pod"] assms web_faithful show ?thesis by (simp add: web_store_def)
qed

lemma web_live: "\<exists>r. live_pod web_store ''u1'' r \<and> r_pod (at web_store r) = fst (FromPod restarted_pod)"
proof -
  let ?c = "count_omitted (fst (FromPod restarted_pod)) empty_store"
  note c = reach_count [OF empty_reach, of 10 "fst (FromPod restarted_pod)"]
  have "\<not> resyncNoOp ?c restarted_pod" using web_pod(2) by (simp add: resyncNoOp_count)
  from upsert_result(1,2,4) [OF c(1) web_faithful(2) c(2) this] have
    "live_pod web_store (ap_UID restarted_pod) (rec_of restarted_pod ?c) \<and> r_pod (at web_store (rec_of restarted_pod ?c)) = fst (FromPod restarted_pod)"
    by (simp add: web_store_def UpsertPod_eq [OF web_pod(2)])
  then show ?thesis by (auto simp: restarted_pod_def)
qed


theorem GetPodByIP_exact_witness:
  "reach one_name one_owner any_event 10 web_store [] \<and> GetPodByIP ''10.0.0.1'' web_store \<noteq> None"
proof -
  obtain r where r: "live_pod web_store ''u1'' r" "r_pod (at web_store r) = fst (FromPod restarted_pod)" using web_live by blast
  then have "Canonical ''10.0.0.1'' \<in> set (podAddresses (r_pod (at web_store r)))" by (simp add: web_pod Canonical_ip)
  with GetPodByIP_exact [OF web_reach, of any_event "''10.0.0.1''"] r web_reach [of any_event] show ?thesis by blast
qed


theorem GetPodByName_live_witness:
  "live_pod quiet_store ''u1'' 0 \<and> GetPodByName 50 ''ns'' ''web-0'' quiet_store = Some (node_pod (at quiet_store 0))"
proof -
  have "pod_Namespace (r_pod (at quiet_store 0)) = ''ns''" "pod_Name (r_pod (at quiet_store 0)) = ''web-0''" by code_simp+
  with GetPodByName_live [OF quiet_reach quiet_state(1), of 50] quiet_state(1) show ?thesis by simp
qed

theorem lookupLocked_live_witness:
  "\<exists>c. lookupLocked 50 ''old'' quiet_store =
     Found \<lparr>cr_Container = c, cr_Pod = r_pod (at quiet_store 0), cr_OwnerRefs = r_ownerRefs (at quiet_store 0)\<rparr>"
  using lookupLocked_live [OF quiet_reach quiet_state(1), of "''old''" 50] by (simp add: quiet_state(2))

theorem UpsertPod_served_witness:
  "\<not> resyncNoOp empty_store quiet_pod \<and>
   GetPodByUID 20 ''u1'' quiet_store = Some \<lparr>np_Pod = fst (FromPod quiet_pod), np_OwnerRefs = []\<rparr>"
proof -
  have "ap_OwnerReferences quiet_pod = []" by (simp add: quiet_pod_def restarted_pod_def)
  with UpsertPod_served [OF empty_reach, of 10 quiet_pod 20] quiet_new quiet_faithful(2) show ?thesis
    by (simp add: Let_def quiet_store_def quiet_fields)
qed

theorem UpsertPod_redelivered_witness: "UpsertPod 12 quiet_pod quiet_store = quiet_store"
  using UpsertPod_redelivered [OF empty_reach, of 10 quiet_pod 12] quiet_faithful(2) by (simp add: quiet_store_def quiet_fields)

theorem DeletePod_tombstone_witness:
  "live_pod quiet_store ''u1'' 0 \<and> (\<exists>q. GetPodByUID 110 ''u1'' (DeletePod 11 ''u1'' quiet_store) = Some q) \<and>
   GetPodByUID 112 ''u1'' (DeletePod 11 ''u1'' quiet_store) = None"
  using DeletePod_tombstone [OF quiet_reach _ _ quiet_state(1), of 11 110]
    DeletePod_tombstone [OF quiet_reach _ _ quiet_state(1), of 11 112] quiet_state(1,3)
  by (simp add: Let_def)

theorem sweep_is_full_scan_witness: "get (pods (sweep 11 quiet_store)) ''u1'' = Some 0"
proof -
  have "\<not> expired (r_expireAt (at quiet_store 0)) 11" using quiet_state(1) by (simp add: expired_def)
  with sweep_is_full_scan [OF quiet_reach, of 11] quiet_state(1) show ?thesis by simp
qed

theorem sweep_invisible_witness:
  "GetPodByUID 11 ''u1'' (sweep 11 quiet_store) = GetPodByUID 11 ''u1'' quiet_store \<and>
   PodsOnNode ''node-a'' (sweep 11 quiet_store) = [node_pod (at quiet_store 0)]"
  using sweep_invisible [OF quiet_reach, of 11 11 "''new''" "''u1''" "''ns''" "''web-0''" "[]" "''node-a''"] quiet_state(4) by simp

theorem NodeGeneration_sound_witness:
  "(node_step one_name one_owner)\<^sup>*\<^sup>* empty_store quiet_store \<and> PodsOnNode ''node-a'' (sweep 11 quiet_store) = [node_pod (at quiet_store 0)]"
proof -
  have g: "gen empty_store = 0" "gen quiet_store = 1" "NodeGeneration (sweep 11 quiet_store) ''node-a'' = NodeGeneration quiet_store ''node-a''" by code_simp+
  have 1: "(node_step one_name one_owner)\<^sup>*\<^sup>* empty_store quiet_store"
    using on_event [of 10 one_name one_owner "Upsert quiet_pod" empty_store] quiet_faithful by (auto simp: g quiet_store_def)
  have 2: "(node_step one_name one_owner)\<^sup>*\<^sup>* quiet_store (sweep 11 quiet_store)"
    using on_event [of 11 one_name one_owner Sweep quiet_store] by (auto simp: g)
  show ?thesis
    using NodeGeneration_sound [OF 1 [unfolded empty_store_def] _ 2 g(3)] 1 quiet_state(4) by simp
qed

subsection \<open>A lookup that waits for the pod\<close>

definition waiting_store :: store where
  "waiting_store = snd (gc_step 2 False ''new'' Register empty_store)"

lemma waiting_reach: "reach one_name one_owner any_event 2 waiting_store [(''new'', Parked 0)]"
proof -
  have s: "gc_step 2 False ''new'' Start empty_store = (Probe, empty_store)"
    "gc_step 2 False ''new'' Probe empty_store = (Register, empty_store)"
    by (simp_all add: gc_step_def gc_start_def gc_probe_def lookupLocked_def empty_store_def New_def options_def maxWaiterIDLen_def MaxContainerIDLen_def)
  have "fst (gc_step 2 False ''new'' Register empty_store) = Parked 0" by code_simp
  then have r: "gc_step 2 False ''new'' Register empty_store = (Parked 0, waiting_store)" by (simp add: prod_eq_iff waiting_store_def)
  have "reach one_name one_owner any_event 1 empty_store [(''new'', Start)]"
    using reach.arrive [OF empty_reach, of "''cri://new''"] by (simp add: restarted_ids)
  from reach.look [OF this _ _ _ s(1), of 0] have "reach one_name one_owner any_event 2 empty_store [(''new'', Probe)]" by simp
  from reach.look [OF this _ _ _ s(2), of 0] have "reach one_name one_owner any_event 2 empty_store [(''new'', Register)]" by simp
  from reach.look [OF this _ _ _ r, of 0] show ?thesis by simp
qed

lemma woken_reach: "reach one_name one_owner any_event 10 (UpsertPod 10 quiet_pod waiting_store) [(''new'', Parked 0)]"
  using reach.event [OF waiting_reach, of 10 "Upsert quiet_pod"] quiet_faithful by simp

lemma drained_reach: "reach one_name one_owner any_event 10 (fst (Drain waiting_store)) [(''new'', Parked 0)]"
  using reach.event [OF waiting_reach, of 10 Shutdown] by simp

theorem waiter_budget_witness:
  "blocked waiting_store [(''new'', Parked 0)] = {0} \<and> nWaiters waiting_store = 1 \<and> nWaiters waiting_store \<le> max 0 (maxWaiters waiting_store)"
proof -
  have "closed waiting_store = []" "nExternal waiting_store = 0" by code_simp+
  then have "blocked waiting_store [(''new'', Parked 0)] = {0}" "nExternal waiting_store = 0" by (auto simp: blocked_def)
  with waiter_budget [OF waiting_reach] show ?thesis by simp
qed

theorem no_lost_wakeup_witness:
  "gc_step 11 False ''new'' (Parked 0) (UpsertPod 10 quiet_pod waiting_store) = (Probe, UpsertPod 10 quiet_pod waiting_store)"
proof -
  have "get (byContainer (UpsertPod 10 quiet_pod waiting_store)) ''new'' \<noteq> None" by code_simp
  with no_lost_wakeup [OF woken_reach, of 0 "''new''" 0 11] show ?thesis by simp
qed

theorem Drain_ends_lookups_witness:
  "draining (fst (Drain waiting_store)) \<and>
   (\<exists>a. fst (fold (\<lambda>(now, d) (p, t). gc_step now d ''new'' p t) [(11, False), (12, False), (13, False)]
     (Parked 0, fst (Drain waiting_store))) = Answered a)"
proof -
  have "draining (fst (Drain waiting_store))" by code_simp
  with Drain_ends_lookups [OF drained_reach this, of 0 "''new''" "Parked 0" "[(11, False), (12, False), (13, False)]"] show ?thesis by simp
qed

theorem Drain_count_witness:
  "draining (fst (Drain waiting_store)) \<and> snd (Drain waiting_store) = 1"
proof -
  have "closed waiting_store = []" "\<not> draining waiting_store" by code_simp+
  then have "card (blocked waiting_store [(''new'', Parked 0)]) = 1" "\<not> draining waiting_store" by (auto simp: blocked_def card_1_singleton_iff)
  with Drain_count [OF waiting_reach] show ?thesis by simp
qed

end
