(* ===== verification/Services.thy ===== *)
theory Services
  imports Annotations ChangeToken
begin

section \<open>The index of Services (internal/services)\<close>

text \<open>
  The in-memory index of Services by namespace and UID, with the name index that detects a name
  taken over by a recreated Service, its change token, and the memo of sorted per-namespace lists.
  A published \<^verbatim>\<open>*Service\<close> is never written again, so a pointer is its record. The operations that
  take the lock in several pieces are split there: \<open>InNamespaces\<close> into the sections between its lock
  acquisitions, and a write at the point where the token is bumped and the data is not yet changed,
  because the token is read without the lock.
\<close>

subsection \<open>Data\<close>

datatype IntOrString = IntVal i32 | StrVal string

text \<open>The fields of \<^verbatim>\<open>corev1.ServicePort\<close> and \<^verbatim>\<open>corev1.Service\<close> that are read.\<close>
record APIServicePort =
  asp_Name :: string
  asp_Port :: i32
  asp_TargetPort :: IntOrString

record APIService =
  as_Name :: string
  as_Namespace :: string
  as_UID :: uid
  as_ResourceVersion :: string
  as_Labels :: strmap
  as_Annotations :: strmap
  as_Selector :: strmap
  as_Ports :: "APIServicePort list"

record Port =
  port_Name :: string
  port_Port :: i32
  port_TargetPortName :: string
  port_TargetPortNum :: i32

record Service =
  svc_Name :: string
  svc_Namespace :: string
  svc_UID :: uid
  svc_Labels :: strmap
  svc_Annotations :: strmap
  svc_Selector :: strmap
  svc_Ports :: "Port list"
  svc_resourceVersion :: string

text \<open>
  A nil entry of \<^verbatim>\<open>sorted\<close> is the empty list: a list that is stored is nil or has an element. The
  last field is this kind's series of \<^verbatim>\<open>obs.MetadataAnnotationsOmitted\<close>.
\<close>
record Index =
  byNamespace :: "(string, (uid, Service) gomap) gomap"
  byName :: "(string, uid) gomap"
  gen :: u64
  nameReused :: u64
  reads :: u64
  sorted_lists :: "(string, Service list) gomap"
  sortedGen :: u64
  servicesOmitted :: nat

definition Generation :: "Index \<Rightarrow> u64" where "Generation ix = gen ix"
definition Index_NameReuses :: "Index \<Rightarrow> u64" where "Index_NameReuses ix = nameReused ix"
definition Reads :: "Index \<Rightarrow> u64" where "Reads ix = reads ix"

definition NewIndex :: Index where
  "NewIndex = \<lparr>byNamespace = [], byName = [], gen = 0, nameReused = 0, reads = 0, sorted_lists = [], sortedGen = 0,
     servicesOmitted = 0\<rparr>"

subsection \<open>Writing\<close>

definition svc_unchangedLocked :: "Service option \<Rightarrow> APIService \<Rightarrow> bool" where
  "svc_unchangedLocked cur svc =
     (case cur of None \<Rightarrow> False | Some c \<Rightarrow> as_ResourceVersion svc \<noteq> [] \<and> svc_resourceVersion c = as_ResourceVersion svc)"

definition Index_resyncNoOp :: "APIService \<Rightarrow> Index \<Rightarrow> bool" where
  "Index_resyncNoOp svc ix = svc_unchangedLocked (get (get_map (byNamespace ix) (as_Namespace svc)) (as_UID svc)) svc"

definition convert_service_port :: "APIServicePort \<Rightarrow> Port" where
  "convert_service_port p =
     (case asp_TargetPort p of
        StrVal s \<Rightarrow> \<lparr>port_Name = asp_Name p, port_Port = asp_Port p, port_TargetPortName = s, port_TargetPortNum = 0\<rparr>
      | IntVal n \<Rightarrow> \<lparr>port_Name = asp_Name p, port_Port = asp_Port p, port_TargetPortName = [], port_TargetPortNum = n\<rparr>)"

definition convert_service :: "APIService \<Rightarrow> Service" where
  "convert_service svc =
     (case CopyMeta (as_Labels svc) (as_Annotations svc) of
        (labels, annotations) \<Rightarrow>
          \<lparr>svc_Name = as_Name svc, svc_Namespace = as_Namespace svc, svc_UID = as_UID svc,
           svc_Labels = labels, svc_Annotations = annotations, svc_Selector = as_Selector svc,
           svc_Ports = map convert_service_port (as_Ports svc), svc_resourceVersion = as_ResourceVersion svc\<rparr>)"

definition service_key :: "string \<Rightarrow> string \<Rightarrow> string" where
  "service_key namespace name = namespace @ ''/'' @ name"

text \<open>What \<^verbatim>\<open>Upsert\<close> does under the write lock after \<^verbatim>\<open>gen.Add(1)\<close>.\<close>
definition upsert_write :: "APIService \<Rightarrow> Index \<Rightarrow> Index" where
  "upsert_write svc ix =
     (let m = get_map (byNamespace ix) (as_Namespace svc);
          nameKey = service_key (as_Namespace svc) (as_Name svc);
          (m, ix) = (case get (byName ix) nameKey of
             None \<Rightarrow> (m, ix)
           | Some prev \<Rightarrow>
               if prev \<noteq> as_UID svc then (del prev m, ix\<lparr>nameReused := nameReused ix + 1\<rparr>) else (m, ix))
      in ix\<lparr>byName := put nameKey (as_UID svc) (byName ix),
            byNamespace := put (as_Namespace svc) (put (as_UID svc) (convert_service svc) m) (byNamespace ix)\<rparr>)"

definition upsert_service_locked :: "APIService \<Rightarrow> Index \<Rightarrow> Index" where
  "upsert_service_locked svc ix =
     (if svc_unchangedLocked (get (get_map (byNamespace ix) (as_Namespace svc)) (as_UID svc)) svc then ix
      else upsert_write svc (ix\<lparr>gen := gen ix + 1\<rparr>))"

definition count_service_omitted :: "APIService \<Rightarrow> Index \<Rightarrow> Index" where
  "count_service_omitted svc ix =
     (if AnnotationsOmitted (svc_Annotations (convert_service svc)) then ix\<lparr>servicesOmitted := servicesOmitted ix + 1\<rparr> else ix)"

definition Index_Upsert :: "APIService \<Rightarrow> Index \<Rightarrow> Index" where
  "Index_Upsert svc ix =
     (if Index_resyncNoOp svc ix then ix else upsert_service_locked svc (count_service_omitted svc ix))"

text \<open>What \<^verbatim>\<open>Delete\<close> does after \<^verbatim>\<open>gen.Add(1)\<close>, to a UID that is held.\<close>
definition delete_write :: "string \<Rightarrow> uid \<Rightarrow> Service \<Rightarrow> Index \<Rightarrow> Index" where
  "delete_write namespace u svc ix =
     (let m = get_map (byNamespace ix) namespace;
          nameKey = service_key namespace (svc_Name svc);
          ix = (if get (byName ix) nameKey = Some u then ix\<lparr>byName := del nameKey (byName ix)\<rparr> else ix);
          m = del u m
      in ix\<lparr>byNamespace := (if m = [] then del namespace (byNamespace ix) else put namespace m (byNamespace ix))\<rparr>)"

definition Index_Delete :: "string \<Rightarrow> uid \<Rightarrow> Index \<Rightarrow> Index" where
  "Index_Delete namespace u ix =
     (case get (byNamespace ix) namespace of
        None \<Rightarrow> ix
      | Some m \<Rightarrow>
          (case get m u of None \<Rightarrow> ix | Some svc \<Rightarrow> delete_write namespace u svc (ix\<lparr>gen := gen ix + 1\<rparr>)))"

subsection \<open>Reading\<close>

definition services_in :: "Index \<Rightarrow> string \<Rightarrow> Service list" where
  "services_in ix ns = map snd (get_map (byNamespace ix) ns)"

definition Index_All :: "string list option \<Rightarrow> Index \<Rightarrow> Service list \<times> Index" where
  "Index_All namespaces ix =
     ((case namespaces of
         None \<Rightarrow> concat (map (services_in ix) (map fst (byNamespace ix)))
       | Some nss \<Rightarrow>
           (case nss of
              [ns] \<Rightarrow> services_in ix ns
            | _ \<Rightarrow> fst (fold (\<lambda>ns (acc, seen_ns). if ns \<in> set seen_ns then (acc, seen_ns)
                                              else (acc @ services_in ix ns, ns # seen_ns)) nss ([], [])))),
      ix\<lparr>reads := reads ix + 1\<rparr>)"

text \<open>The list of one namespace as \<^verbatim>\<open>InNamespaces\<close> builds it; nil for a namespace without Services.\<close>
definition sorted_services :: "(string, (uid, Service) gomap) gomap \<Rightarrow> string \<Rightarrow> Service list" where
  "sorted_services data ns = sort_key svc_Name (map snd (get_map data ns))"

text \<open>One namespace of the first section: found in the memo, known to be empty, or missing.\<close>
fun memo_one :: "(string, Service list) gomap \<Rightarrow> string \<Rightarrow> (string, Service list) gomap \<times> string list \<Rightarrow>
    (string, Service list) gomap \<times> string list" where
  "memo_one memo ns (found, missing) =
     (case get memo ns of
        None \<Rightarrow> (found, missing @ [ns])
      | Some list \<Rightarrow> (if list \<noteq> [] then put ns list found else found, missing))"

text \<open>The first section under \<^verbatim>\<open>sortMu\<close>: what is known, what is missing, and whether the memo is usable.\<close>
definition memo_section :: "string list \<Rightarrow> u64 \<Rightarrow> Index \<Rightarrow> ((string, Service list) gomap \<times> string list \<times> bool) \<times> Index" where
  "memo_section namespaces g ix =
     (let ix = (if g > sortedGen ix then ix\<lparr>sorted_lists := [], sortedGen := g\<rparr> else ix);
          usable = (\<not> g < sortedGen ix)
      in (if usable
          then (case fold (memo_one (sorted_lists ix)) namespaces ([], []) of (found, missing) \<Rightarrow> (found, missing, True))
          else ([], namespaces, False), ix))"

text \<open>The section under the read lock: the lists of the missing namespaces.\<close>
fun build_lists :: "(string, (uid, Service) gomap) gomap \<Rightarrow> string list \<Rightarrow> (string, Service list) gomap \<Rightarrow>
    (string, Service list) gomap \<times> Service list list" where
  "build_lists data [] found = (found, [])"
| "build_lists data (ns # nss) found =
     (case get found ns of
        Some list \<Rightarrow> (case build_lists data nss found of (found', built) \<Rightarrow> (found', list # built))
      | None \<Rightarrow>
          (let list = sorted_services data ns in
           if list = [] then (case build_lists data nss found of (found', built) \<Rightarrow> (found', [] # built))
           else (case build_lists data nss (put ns list found) of (found', built) \<Rightarrow> (found', list # built))))"

definition build_section :: "string list \<Rightarrow> (string, Service list) gomap \<Rightarrow> Index \<Rightarrow>
    ((string, Service list) gomap \<times> Service list list) \<times> Index" where
  "build_section missing found ix = (build_lists (byNamespace ix) missing found, ix\<lparr>reads := reads ix + 1\<rparr>)"

text \<open>The second section under \<^verbatim>\<open>sortMu\<close>.\<close>
definition store_section :: "u64 \<Rightarrow> string list \<Rightarrow> Service list list \<Rightarrow> Index \<Rightarrow> Index" where
  "store_section g missing built ix =
     (if sortedGen ix = g
      then ix\<lparr>sorted_lists := fold (\<lambda>(ns, list) m. put ns list m) (zip missing built) (sorted_lists ix)\<rparr> else ix)"

definition InNamespaces :: "string list \<Rightarrow> Index \<Rightarrow> (string, Service list) gomap \<times> Index" where
  "InNamespaces namespaces ix =
     (let g = gen ix in
      case memo_section namespaces g ix of
        ((found, missing, usable), ix) \<Rightarrow>
          if missing = [] then (found, ix)
          else (case build_section missing found ix of
                  ((found, built), ix) \<Rightarrow> (found, if usable then store_section g missing built ix else ix)))"

subsection \<open>Selecting\<close>

fun selects :: "strmap \<Rightarrow> strmap \<Rightarrow> bool" where
  "selects [] labels = True"
| "selects ((k, v) # rest) labels =
     (case get labels k of None \<Rightarrow> False | Some got \<Rightarrow> if got \<noteq> v then False else selects rest labels)"

definition Selects :: "Service \<Rightarrow> strmap \<Rightarrow> bool" where
  "Selects s podLabels = (if svc_Selector s = [] then False else selects (svc_Selector s) podLabels)"

subsection \<open>What the index is to hold\<close>

datatype ix_op = Ix_Upsert APIService | Ix_Delete string uid | Ix_InNamespaces "string list" | Ix_All "string list option"

fun ix_run :: "ix_op \<Rightarrow> Index \<Rightarrow> Index" where
  "ix_run (Ix_Upsert svc) ix = Index_Upsert svc ix"
| "ix_run (Ix_Delete ns u) ix = Index_Delete ns u ix"
| "ix_run (Ix_InNamespaces nss) ix = snd (InNamespaces nss ix)"
| "ix_run (Ix_All nss) ix = snd (Index_All nss ix)"

text \<open>
  The specification: a map from namespace and name to the Service last delivered under it. A
  delivery of the version that is held is ignored, and a deletion takes effect only on its own UID.
\<close>
type_synonym directory = "string \<times> string \<Rightarrow> Service option"

fun directory_step :: "ix_op \<Rightarrow> directory \<Rightarrow> directory" where
  "directory_step (Ix_Upsert svc) M =
     (case M (as_Namespace svc, as_Name svc) of
        Some c \<Rightarrow> if svc_UID c = as_UID svc \<and> svc_unchangedLocked (Some c) svc then M
                  else M((as_Namespace svc, as_Name svc) \<mapsto> convert_service svc)
      | None \<Rightarrow> M((as_Namespace svc, as_Name svc) \<mapsto> convert_service svc))"
| "directory_step (Ix_Delete ns u) M =
     (\<lambda>k. case M k of Some c \<Rightarrow> if fst k = ns \<and> svc_UID c = u then None else Some c | None \<Rightarrow> None)"
| "directory_step _ M = M"

definition directory :: "ix_op list \<Rightarrow> directory" where
  "directory ops = fold directory_step ops Map.empty"

text \<open>
  What the API server guarantees of the objects it delivers: the namespace and the name of a UID
  never change, and a namespace is a DNS label, which has no slash.
\<close>
fun coherent :: "(uid \<Rightarrow> string \<times> string) \<Rightarrow> ix_op \<Rightarrow> bool" where
  "coherent ident (Ix_Upsert svc) \<longleftrightarrow> ident (as_UID svc) = (as_Namespace svc, as_Name svc) \<and> CHR ''/'' \<notin> set (as_Namespace svc)"
| "coherent ident _ \<longleftrightarrow> True"

definition held :: "Index \<Rightarrow> string \<Rightarrow> uid \<Rightarrow> Service option" where
  "held ix ns u = get (get_map (byNamespace ix) ns) u"

text \<open>The invariant: the shape of the maps, the identity of what they hold, and the name index.\<close>
definition maps_ok :: "Index \<Rightarrow> bool" where
  "maps_ok ix \<longleftrightarrow> wf_map (byNamespace ix) \<and> (\<forall>ns. wf_map (get_map (byNamespace ix) ns))"

definition ident_ok :: "(uid \<Rightarrow> string \<times> string) \<Rightarrow> Index \<Rightarrow> bool" where
  "ident_ok ident ix \<longleftrightarrow> (\<forall>ns u s. held ix ns u = Some s \<longrightarrow>
     svc_UID s = u \<and> svc_Namespace s = ns \<and> ident u = (ns, svc_Name s) \<and> CHR ''/'' \<notin> set ns)"

definition name_index_ok :: "Index \<Rightarrow> bool" where
  "name_index_ok ix \<longleftrightarrow> (\<forall>ns name u. CHR ''/'' \<notin> set ns \<longrightarrow>
     (get (byName ix) (service_key ns name) = Some u \<longleftrightarrow> (\<exists>s. held ix ns u = Some s \<and> svc_Name s = name)))"

definition index_ok :: "(uid \<Rightarrow> string \<times> string) \<Rightarrow> Index \<Rightarrow> bool" where
  "index_ok ident ix \<longleftrightarrow> maps_ok ix \<and> ident_ok ident ix \<and> name_index_ok ix"

text \<open>The directory an index stands for.\<close>
definition abs_index :: "Index \<Rightarrow> directory" where
  "abs_index ix k = (case get (byName ix) (service_key (fst k) (snd k)) of
     None \<Rightarrow> None | Some u \<Rightarrow> if CHR ''/'' \<in> set (fst k) then None else held ix (fst k) u)"

subsubsection \<open>The writes\<close>

lemma service_key_inj:
  "CHR ''/'' \<notin> set ns \<Longrightarrow> CHR ''/'' \<notin> set ns' \<Longrightarrow> service_key ns n = service_key ns' n' \<longleftrightarrow> ns = ns' \<and> n = n'"
proof -
  have "Cut ''/'' (service_key m k) = Some (m, k)" if "CHR ''/'' \<notin> set m" for m k
    using Cut_hit [of "''/''" m k] that by (simp add: service_key_def)
  then show "CHR ''/'' \<notin> set ns \<Longrightarrow> CHR ''/'' \<notin> set ns' \<Longrightarrow> service_key ns n = service_key ns' n' \<longleftrightarrow> ns = ns' \<and> n = n'"
    by (metis option.inject prod.inject)
qed

lemma convert_service_simps [simp]:
  "svc_Name (convert_service svc) = as_Name svc" "svc_Namespace (convert_service svc) = as_Namespace svc"
  "svc_UID (convert_service svc) = as_UID svc" "svc_resourceVersion (convert_service svc) = as_ResourceVersion svc"
  by (simp_all add: convert_service_def split: prod.splits)

definition evicted :: "APIService \<Rightarrow> Index \<Rightarrow> uid \<Rightarrow> bool" where
  "evicted svc ix u \<longleftrightarrow> get (byName ix) (service_key (as_Namespace svc) (as_Name svc)) = Some u \<and> u \<noteq> as_UID svc"

lemma upsert_write_byNamespace:
  "byNamespace (upsert_write svc ix) = put (as_Namespace svc) (put (as_UID svc) (convert_service svc)
     (case get (byName ix) (service_key (as_Namespace svc) (as_Name svc)) of
        None \<Rightarrow> get_map (byNamespace ix) (as_Namespace svc)
      | Some prev \<Rightarrow> if prev \<noteq> as_UID svc then del prev (get_map (byNamespace ix) (as_Namespace svc))
                      else get_map (byNamespace ix) (as_Namespace svc))) (byNamespace ix)"
  by (simp add: upsert_write_def Let_def split: option.split)

lemma upsert_write_held:
  "held (upsert_write svc ix) ns u =
     (if ns = as_Namespace svc \<and> u = as_UID svc then Some (convert_service svc)
      else if ns = as_Namespace svc \<and> evicted svc ix u then None else held ix ns u)"
proof (cases "get (byName ix) (service_key (as_Namespace svc) (as_Name svc))")
  case None
  then show ?thesis unfolding held_def upsert_write_byNamespace evicted_def by simp
next
  case (Some prev)
  then show ?thesis unfolding held_def upsert_write_byNamespace evicted_def
    by (cases "prev = as_UID svc"; cases "u = prev") simp_all
qed

lemma upsert_write_byName: "byName (upsert_write svc ix) = put (service_key (as_Namespace svc) (as_Name svc)) (as_UID svc) (byName ix)"
  by (simp add: upsert_write_def Let_def split: option.splits)

lemma upsert_write_maps: "maps_ok ix \<Longrightarrow> maps_ok (upsert_write svc ix)"
  unfolding maps_ok_def upsert_write_byNamespace by (simp split: option.split)

lemma delete_write_held: "held (delete_write ns u s ix) ns' u' = (if ns' = ns \<and> u' = u then None else held ix ns' u')"
proof -
  have "get (get_map (byNamespace ix) ns) u' = None" if "del u (get_map (byNamespace ix) ns) = []" "u' \<noteq> u"
    using that get_del [of u "get_map (byNamespace ix) ns" u'] by simp
  then show ?thesis by (auto simp: delete_write_def held_def Let_def)
qed

lemma delete_write_byName: "byName (delete_write ns u s ix) =
    (if get (byName ix) (service_key ns (svc_Name s)) = Some u then del (service_key ns (svc_Name s)) (byName ix) else byName ix)"
  by (simp add: delete_write_def Let_def)

lemma delete_write_maps: "maps_ok ix \<Longrightarrow> maps_ok (delete_write ns u s ix)"
  by (auto simp: delete_write_def maps_ok_def Let_def)

lemma upsert_write_ok:
  assumes ok: "index_ok ident ix" and c: "coherent ident (Ix_Upsert svc)"
  shows "index_ok ident (upsert_write svc ix)"
    and "abs_index (upsert_write svc ix) = (abs_index ix)((as_Namespace svc, as_Name svc) \<mapsto> convert_service svc)"
proof -
  let ?ns = "as_Namespace svc" and ?n = "as_Name svc" and ?u = "as_UID svc" and ?ix = "upsert_write svc ix"
  have i: "ident ?u = (?ns, ?n)" "CHR ''/'' \<notin> set ?ns" using c by simp_all
  have id: "svc_UID s = u \<and> svc_Namespace s = ns \<and> ident u = (ns, svc_Name s) \<and> CHR ''/'' \<notin> set ns" if "held ix ns u = Some s" for ns u s
    using ok that by (auto simp: index_ok_def ident_ok_def)
  have nm: "get (byName ix) (service_key ns name) = Some u \<longleftrightarrow> (\<exists>s. held ix ns u = Some s \<and> svc_Name s = name)"
    if "CHR ''/'' \<notin> set ns" for ns name u using ok that by (simp add: index_ok_def name_index_ok_def)
  have ev: "evicted svc ix u \<longleftrightarrow> u \<noteq> ?u \<and> (\<exists>s. held ix ?ns u = Some s \<and> svc_Name s = ?n)" for u
    by (auto simp: evicted_def nm [OF i(2)])
  have "ident_ok ident ?ix"
    unfolding ident_ok_def upsert_write_held using id i by (auto split: if_splits)
  moreover have "name_index_ok ?ix"
    unfolding name_index_ok_def upsert_write_held upsert_write_byName
  proof (intro allI impI)
    fix ns name u assume ns: "CHR ''/'' \<notin> set ns"
    show "get (put (service_key ?ns ?n) ?u (byName ix)) (service_key ns name) = Some u \<longleftrightarrow>
      (\<exists>s. (if ns = ?ns \<and> u = ?u then Some (convert_service svc)
            else if ns = ?ns \<and> evicted svc ix u then None else held ix ns u) = Some s \<and> svc_Name s = name)"
      using id i nm [OF ns, of name u]
      by (auto simp: service_key_inj ns i(2) ev)
  qed
  moreover have "maps_ok ?ix" using ok by (simp add: index_ok_def upsert_write_maps)
  ultimately show "index_ok ident ?ix" by (simp add: index_ok_def)
  show "abs_index ?ix = (abs_index ix)((?ns, ?n) \<mapsto> convert_service svc)"
  proof
    fix k :: "string \<times> string"
    obtain ns name where k: "k = (ns, name)" by fastforce
    show "abs_index ?ix k = ((abs_index ix)((?ns, ?n) \<mapsto> convert_service svc)) k"
    proof (cases "CHR ''/'' \<in> set ns")
      case True
      then show ?thesis using i(2) by (auto simp: k abs_index_def split: option.splits)
    next
      case False
      have e: "held ?ix ns u = held ix ns u" if at: "get (byName ix) (service_key ns name) = Some u" and other: "(ns, name) \<noteq> (?ns, ?n)" for u
      proof -
        obtain s where s: "held ix ns u = Some s" "svc_Name s = name" using at nm [OF False] by blast
        have "ident u = (ns, name)" using id [OF s(1)] s(2) by simp
        then have "u \<noteq> ?u" using other i(1) by metis
        moreover have "\<not> (ns = ?ns \<and> evicted svc ix u)" using s other unfolding ev by (metis option.inject)
        ultimately show ?thesis unfolding upsert_write_held by (simp only: if_False simp_thms)
      qed
      show ?thesis
        using False i e unfolding k abs_index_def upsert_write_byName
        by (auto simp: service_key_inj upsert_write_held split: option.splits)
    qed
  qed
qed

lemma delete_write_ok:
  assumes ok: "index_ok ident ix" and h: "held ix ns u = Some s"
  shows "index_ok ident (delete_write ns u s ix)"
    and "abs_index (delete_write ns u s ix) = directory_step (Ix_Delete ns u) (abs_index ix)"
proof -
  let ?ix = "delete_write ns u s ix"
  have id: "svc_UID s = u \<and> svc_Namespace s = ns \<and> ident u = (ns, svc_Name s) \<and> CHR ''/'' \<notin> set ns" if "held ix ns u = Some s" for ns u s
    using ok that by (auto simp: index_ok_def ident_ok_def)
  have nm: "get (byName ix) (service_key ns name) = Some u \<longleftrightarrow> (\<exists>s. held ix ns u = Some s \<and> svc_Name s = name)"
    if "CHR ''/'' \<notin> set ns" for ns name u using ok that by (simp add: index_ok_def name_index_ok_def)
  have slash: "CHR ''/'' \<notin> set ns" using id [OF h] by simp
  have own: "get (byName ix) (service_key ns (svc_Name s)) = Some u" using nm [OF slash] h by blast
  have bn: "byName ?ix = del (service_key ns (svc_Name s)) (byName ix)" by (simp add: delete_write_byName own)
  have "ident_ok ident ?ix"
    unfolding ident_ok_def delete_write_held using id by (auto split: if_splits)
  moreover have "name_index_ok ?ix"
    unfolding name_index_ok_def delete_write_held bn
    using nm h id [OF h] by (auto simp: service_key_inj slash) (metis option.inject)+
  moreover have "maps_ok ?ix" using ok by (simp add: index_ok_def delete_write_maps)
  ultimately show "index_ok ident ?ix" by (simp add: index_ok_def)
  show "abs_index ?ix = directory_step (Ix_Delete ns u) (abs_index ix)"
  proof
    fix k :: "string \<times> string"
    obtain ns' name where k: "k = (ns', name)" by fastforce
    show "abs_index ?ix k = directory_step (Ix_Delete ns u) (abs_index ix) k"
    proof (cases "CHR ''/'' \<in> set ns'")
      case True
      then show ?thesis using slash by (auto simp: k abs_index_def split: option.splits)
    next
      case False
      show ?thesis
      proof (cases "ns' = ns \<and> name = svc_Name s")
        case True
        then show ?thesis using own h id [OF h] slash by (simp add: k abs_index_def bn)
      next
        case other: False
        then have look: "get (byName ?ix) (service_key ns' name) = get (byName ix) (service_key ns' name)"
          by (auto simp: bn service_key_inj slash False)
        show ?thesis
        proof (cases "get (byName ix) (service_key ns' name)")
          case None
          then show ?thesis by (simp add: k abs_index_def look)
        next
          case (Some u')
          then obtain s' where s': "held ix ns' u' = Some s'" "svc_Name s' = name" using nm [OF False] by blast
          then have "\<not> (ns' = ns \<and> u' = u)" using h other by auto
          then show ?thesis using Some s' False id [OF s'(1)] by (auto simp: k abs_index_def look delete_write_held)
        qed
      qed
    qed
  qed
qed

subsubsection \<open>The operations keep the invariant and implement the directory\<close>

lemma index_frame:
  assumes "byNamespace ix' = byNamespace ix" "byName ix' = byName ix"
  shows "index_ok ident ix' = index_ok ident ix" "abs_index ix' = abs_index ix" "services_in ix' = services_in ix"
proof -
  have h: "held ix' = held ix" by (simp add: held_def fun_eq_iff assms)
  show "index_ok ident ix' = index_ok ident ix" by (simp add: index_ok_def maps_ok_def ident_ok_def name_index_ok_def h assms)
  show "abs_index ix' = abs_index ix" by (rule ext) (simp only: abs_index_def h assms)
  show "services_in ix' = services_in ix" by (simp add: services_in_def fun_eq_iff assms)
qed

lemma Index_Upsert_eq: "Index_Upsert svc ix =
    (if Index_resyncNoOp svc ix then ix else upsert_write svc ((count_service_omitted svc ix)\<lparr>gen := gen ix + 1\<rparr>))"
  by (simp add: Index_Upsert_def upsert_service_locked_def Index_resyncNoOp_def count_service_omitted_def)

lemma Index_Delete_eq: "Index_Delete ns u ix =
    (case held ix ns u of None \<Rightarrow> ix | Some svc \<Rightarrow> delete_write ns u svc (ix\<lparr>gen := gen ix + 1\<rparr>))"
  by (simp add: Index_Delete_def held_def get_map_def split: option.splits)

lemma abs_index_iff:
  assumes "index_ok ident ix"
  shows "abs_index ix (ns, name) = Some s \<longleftrightarrow> held ix ns (svc_UID s) = Some s \<and> svc_Name s = name"
proof -
  have id: "svc_UID s = u \<and> CHR ''/'' \<notin> set ns" if "held ix ns u = Some s" for u s
    using assms that by (auto simp: index_ok_def ident_ok_def)
  have nm: "get (byName ix) (service_key ns name) = Some u \<longleftrightarrow> (\<exists>s. held ix ns u = Some s \<and> svc_Name s = name)"
    if "CHR ''/'' \<notin> set ns" for u using assms that by (simp add: index_ok_def name_index_ok_def)
  show ?thesis
  proof
    assume "abs_index ix (ns, name) = Some s"
    then obtain u where u: "get (byName ix) (service_key ns name) = Some u" "CHR ''/'' \<notin> set ns" "held ix ns u = Some s"
      by (auto simp: abs_index_def split: option.splits if_splits)
    moreover have "svc_UID s = u" using id [OF u(3)] by simp
    moreover have "svc_Name s = name" using iffD1 [OF nm [OF u(2)] u(1)] u(3) by auto
    ultimately show "held ix ns (svc_UID s) = Some s \<and> svc_Name s = name" by simp
  next
    assume h: "held ix ns (svc_UID s) = Some s \<and> svc_Name s = name"
    then have slash: "CHR ''/'' \<notin> set ns" using id by blast
    with h nm have "get (byName ix) (service_key ns name) = Some (svc_UID s)" by blast
    then show "abs_index ix (ns, name) = Some s" using slash h by (simp add: abs_index_def)
  qed
qed

lemma Index_Upsert_ok:
  assumes ok: "index_ok ident ix" and c: "coherent ident (Ix_Upsert svc)"
  shows "index_ok ident (Index_Upsert svc ix) \<and> abs_index (Index_Upsert svc ix) = directory_step (Ix_Upsert svc) (abs_index ix)"
proof (cases "Index_resyncNoOp svc ix")
  case True
  then obtain s where s: "held ix (as_Namespace svc) (as_UID svc) = Some s" "svc_unchangedLocked (Some s) svc"
    by (auto simp: Index_resyncNoOp_def held_def svc_unchangedLocked_def split: option.splits)
  then have "svc_UID s = as_UID svc" "svc_Name s = as_Name svc"
    using ok c by (auto simp: index_ok_def ident_ok_def)
  then have "abs_index ix (as_Namespace svc, as_Name svc) = Some s"
    using abs_index_iff [OF ok] s(1) by simp
  then show ?thesis using True ok s \<open>svc_UID s = as_UID svc\<close> by (simp add: Index_Upsert_eq)
next
  case False
  let ?ix = "(count_service_omitted svc ix)\<lparr>gen := gen ix + 1\<rparr>"
  have f: "byNamespace ?ix = byNamespace ix" "byName ?ix = byName ix" by (simp_all add: count_service_omitted_def)
  have "\<not> (svc_UID s = as_UID svc \<and> svc_unchangedLocked (Some s) svc)"
    if "abs_index ix (as_Namespace svc, as_Name svc) = Some s" for s
    using that False unfolding abs_index_iff [OF ok] by (auto simp: Index_resyncNoOp_def held_def)
  then have "directory_step (Ix_Upsert svc) (abs_index ix) = (abs_index ix)((as_Namespace svc, as_Name svc) \<mapsto> convert_service svc)"
    by (auto split: option.split)
  then show ?thesis
    using upsert_write_ok [OF _ c, of ?ix] ok False index_frame [OF f] by (simp add: Index_Upsert_eq)
qed

lemma Index_Delete_ok:
  assumes ok: "index_ok ident ix"
  shows "index_ok ident (Index_Delete ns u ix) \<and> abs_index (Index_Delete ns u ix) = directory_step (Ix_Delete ns u) (abs_index ix)"
proof (cases "held ix ns u")
  case None
  have "directory_step (Ix_Delete ns u) (abs_index ix) k = abs_index ix k" for k
  proof (cases "abs_index ix k")
    case (Some s)
    then have "held ix (fst k) (svc_UID s) = Some s" using abs_index_iff [OF ok, of "fst k" "snd k" s] by simp
    then show ?thesis using Some None by auto
  qed simp
  then show ?thesis using ok None by (auto simp: Index_Delete_eq)
next
  case (Some s)
  let ?ix = "ix\<lparr>gen := gen ix + 1\<rparr>"
  have f: "byNamespace ?ix = byNamespace ix" "byName ?ix = byName ix" by simp_all
  have "held ?ix ns u = Some s" using Some by (simp add: held_def)
  then show ?thesis
    using delete_write_ok [of ident ?ix ns u s] ok Some index_frame [OF f] by (simp add: Index_Delete_eq)
qed

lemma memo_section_snd: "snd (memo_section nss g ix) = (if g > sortedGen ix then ix\<lparr>sorted_lists := [], sortedGen := g\<rparr> else ix)"
  by (simp add: memo_section_def Let_def)

lemma memo_section_frame: "memo_section nss g ix = (x, ix') \<Longrightarrow>
    byNamespace ix' = byNamespace ix \<and> byName ix' = byName ix \<and> gen ix' = gen ix"
  using memo_section_snd [of nss g ix] by (auto split: if_splits)

lemma InNamespaces_frame:
  "byNamespace (snd (InNamespaces nss ix)) = byNamespace ix \<and> byName (snd (InNamespaces nss ix)) = byName ix \<and>
    gen (snd (InNamespaces nss ix)) = gen ix"
proof -
  obtain found missing usable ix' where m: "memo_section nss (gen ix) ix = ((found, missing, usable), ix')" by (metis prod.exhaust)
  obtain found' built where "build_lists (byNamespace ix') missing found = (found', built)" by fastforce
  then show ?thesis using memo_section_frame [OF m]
    by (simp add: InNamespaces_def m build_section_def store_section_def)
qed

lemma ix_run_ok: "index_ok ident ix \<Longrightarrow> coherent ident op \<Longrightarrow>
    index_ok ident (ix_run op ix) \<and> abs_index (ix_run op ix) = directory_step op (abs_index ix)"
proof (cases op)
  case (Ix_InNamespaces nss)
  assume "index_ok ident ix"
  moreover have "byNamespace (snd (InNamespaces nss ix)) = byNamespace ix" "byName (snd (InNamespaces nss ix)) = byName ix"
    using InNamespaces_frame by simp_all
  note index_frame [OF this]
  ultimately show ?thesis by (simp add: Ix_InNamespaces)
next
  case (Ix_All nss)
  assume "index_ok ident ix"
  moreover have "byNamespace (snd (Index_All nss ix)) = byNamespace ix" "byName (snd (Index_All nss ix)) = byName ix"
    by (simp_all add: Index_All_def)
  note index_frame [OF this]
  ultimately show ?thesis by (simp add: Ix_All)
qed (use Index_Upsert_ok Index_Delete_ok in auto)

lemma run_ok: "index_ok ident ix \<Longrightarrow> list_all (coherent ident) ops \<Longrightarrow>
    index_ok ident (fold ix_run ops ix) \<and> abs_index (fold ix_run ops ix) = fold directory_step ops (abs_index ix)"
  by (induction ops arbitrary: ix) (use ix_run_ok in auto)

lemma NewIndex_ok: "index_ok ident NewIndex" "abs_index NewIndex = Map.empty"
  by (auto simp: NewIndex_def index_ok_def maps_ok_def ident_ok_def name_index_ok_def held_def get_map_def abs_index_def)

lemma index_run:
  assumes "list_all (coherent ident) ops"
  shows "index_ok ident (fold ix_run ops NewIndex)" "abs_index (fold ix_run ops NewIndex) = directory ops"
  using run_ok [OF NewIndex_ok(1) assms] by (simp_all add: NewIndex_ok(2) directory_def)

lemma services_in_iff:
  assumes ok: "index_ok ident ix"
  shows "s \<in> set (services_in ix ns) \<longleftrightarrow> (\<exists>name. abs_index ix (ns, name) = Some s)"
proof -
  have wf: "wf_map (get_map (byNamespace ix) ns)" using ok by (simp add: index_ok_def maps_ok_def)
  have "s \<in> set (services_in ix ns) \<longleftrightarrow> (\<exists>u. held ix ns u = Some s)"
    using wf by (force simp: services_in_def held_def)
  also have "\<dots> \<longleftrightarrow> held ix ns (svc_UID s) = Some s"
    using ok by (auto simp: index_ok_def ident_ok_def)
  finally show ?thesis unfolding abs_index_iff [OF ok] by blast
qed

text \<open>Within a namespace the names are distinct.\<close>
lemma services_names_distinct:
  assumes ok: "index_ok ident ix"
  shows "distinct (map svc_Name (services_in ix ns))"
proof -
  let ?m = "get_map (byNamespace ix) ns"
  have wf: "wf_map ?m" using ok by (simp add: index_ok_def maps_ok_def)
  have "p = q" if p: "p \<in> set ?m" and q: "q \<in> set ?m" and n: "svc_Name (snd p) = svc_Name (snd q)" for p q
  proof -
    have hp: "held ix ns (fst p) = Some (snd p)" and hq: "held ix ns (fst q) = Some (snd q)"
      using p q wf by (simp_all add: held_def)
    then have "CHR ''/'' \<notin> set ns" using ok by (auto simp: index_ok_def ident_ok_def)
    then have "get (byName ix) (service_key ns (svc_Name (snd p))) = Some (fst p)"
      "get (byName ix) (service_key ns (svc_Name (snd q))) = Some (fst q)"
      using ok hp hq by (auto simp: index_ok_def name_index_ok_def)
    then have "fst p = fst q" using n by simp
    then show "p = q" using hp hq by (simp add: prod_eq_iff)
  qed
  then have "inj_on (svc_Name \<circ> snd) (set ?m)" by (auto intro: inj_onI)
  moreover have "distinct ?m" using wf distinct_map by blast
  ultimately show ?thesis by (simp add: services_in_def distinct_map)
qed

lemma sorted_services_spec:
  assumes ok: "index_ok ident ix"
  shows "sorted_wrt (<) (map svc_Name (sorted_services (byNamespace ix) ns))"
    "set (sorted_services (byNamespace ix) ns) = {s. \<exists>name. abs_index ix (ns, name) = Some s}"
proof -
  have "mset (map svc_Name (sorted_services (byNamespace ix) ns)) = mset (map svc_Name (services_in ix ns))"
    by (simp add: sorted_services_def services_in_def multiset.map_comp)
  then have "distinct (map svc_Name (sorted_services (byNamespace ix) ns))"
    using services_names_distinct [OF ok] mset_eq_imp_distinct_iff by blast
  then show "sorted_wrt (<) (map svc_Name (sorted_services (byNamespace ix) ns))"
    by (simp add: sorted_services_def strict_sorted_iff)
  show "set (sorted_services (byNamespace ix) ns) = {s. \<exists>name. abs_index ix (ns, name) = Some s}"
    using services_in_iff [OF ok] by (auto simp: sorted_services_def services_in_def)
qed

subsubsection \<open>The sections of a read\<close>

lemma memo_one_fst: "fst (memo_one S ns p) = (case get S ns of None \<Rightarrow> fst p | Some l \<Rightarrow> if l \<noteq> [] then put ns l (fst p) else fst p)"
  by (cases p) (simp split: option.split)

lemma memo_one_snd: "snd (memo_one S ns p) = (case get S ns of None \<Rightarrow> snd p @ [ns] | Some l \<Rightarrow> snd p)"
  by (cases p) (simp split: option.split)

lemma memo_found:
  "get (fst (fold (memo_one S) nss p)) ns =
     (if ns \<in> set nss \<and> get S ns \<noteq> None \<and> get S ns \<noteq> Some [] then get S ns else get (fst p) ns)"
proof (induction nss arbitrary: p)
  case (Cons n nss)
  have one: "get (fst (memo_one S n p)) ns = (if ns = n \<and> get S ns \<noteq> None \<and> get S ns \<noteq> Some [] then get S ns else get (fst p) ns)"
    unfolding memo_one_fst by (cases "get S n") auto
  show ?case unfolding fold_Cons o_apply Cons.IH one by auto
qed simp

lemma memo_missing: "set (snd (fold (memo_one S) nss p)) = set (snd p) \<union> {ns \<in> set nss. get S ns = None}"
proof (induction nss arbitrary: p)
  case (Cons n nss)
  show ?case unfolding fold_Cons o_apply Cons.IH memo_one_snd by (cases "get S n") auto
qed simp

lemma memo_section_spec:
  assumes "memo_section nss g ix = ((found, missing, usable), ix')"
  shows "usable \<longleftrightarrow> g \<ge> sortedGen ix"
    "usable \<Longrightarrow> sortedGen ix' = g"
    "usable \<Longrightarrow> get found ns = (if ns \<in> set nss \<and> get (sorted_lists ix') ns \<noteq> Some [] then get (sorted_lists ix') ns else None)"
    "usable \<Longrightarrow> set missing = {ns \<in> set nss. get (sorted_lists ix') ns = None}"
    "\<not> usable \<Longrightarrow> found = [] \<and> missing = nss \<and> ix' = ix"
    "sorted_lists ix' = [] \<or> sorted_lists ix' = sorted_lists ix \<and> sortedGen ix' = sortedGen ix"
proof -
  let ?ix = "if g > sortedGen ix then ix\<lparr>sorted_lists := [], sortedGen := g\<rparr> else ix"
  have ix': "ix' = ?ix" using memo_section_snd [of nss g ix] assms by simp
  let ?f = "fold (memo_one (sorted_lists ix')) nss ([], [])"
  have d: "(found, missing, usable) = (if \<not> g < sortedGen ix' then (fst ?f, snd ?f, True) else ([], nss, False))"
  proof -
    have "(found, missing, usable) = fst (memo_section nss g ix)" by (simp add: assms)
    then show ?thesis unfolding ix' memo_section_def Let_def fst_conv by (simp only: case_prod_beta)
  qed
  have sg: "sortedGen ix' = (if g > sortedGen ix then g else sortedGen ix)" by (simp add: ix')
  have u': "usable \<longleftrightarrow> \<not> g < sortedGen ix'" using d by (metis prod.inject)
  then show u: "usable \<longleftrightarrow> g \<ge> sortedGen ix" unfolding sg by (auto simp: not_less)
  show "usable \<Longrightarrow> sortedGen ix' = g" using u unfolding sg by simp
  have f: "?f = (found, missing)" if usable using d u' that by (metis prod.collapse prod.inject)
  show "usable \<Longrightarrow> get found ns = (if ns \<in> set nss \<and> get (sorted_lists ix') ns \<noteq> Some [] then get (sorted_lists ix') ns else None)"
    using memo_found [of "sorted_lists ix'" nss "([], [])" ns] f by simp
  show "usable \<Longrightarrow> set missing = {ns \<in> set nss. get (sorted_lists ix') ns = None}"
    using memo_missing [of "sorted_lists ix'" nss "([], [])"] f by simp
  show "found = [] \<and> missing = nss \<and> ix' = ix" if no: "\<not> usable"
  proof -
    have "found = [] \<and> missing = nss" using d u' no by (metis prod.inject)
    moreover have "ix' = ix" using no u by (simp add: ix')
    ultimately show ?thesis by simp
  qed
  show "sorted_lists ix' = [] \<or> sorted_lists ix' = sorted_lists ix \<and> sortedGen ix' = sortedGen ix" by (simp add: ix')
qed

lemma build_lists_spec:
  "(\<And>ns. ns \<in> set missing \<Longrightarrow> get found ns = None \<or> get found ns = Some (sorted_services data ns)) \<Longrightarrow>
   build_lists data missing found = (found', built) \<Longrightarrow>
   built = map (sorted_services data) missing \<and>
   get found' ns = (if ns \<in> set missing \<and> sorted_services data ns \<noteq> [] then Some (sorted_services data ns) else get found ns)"
proof (induction missing arbitrary: found built)
  case (Cons n nss)
  let ?l = "sorted_services data n"
  have pre: "get found k = None \<or> get found k = Some (sorted_services data k)" if "k \<in> set nss" for k
    using Cons.prems(1) that by simp
  consider "get found n = Some ?l" | "get found n = None" "?l = []" | "get found n = None" "?l \<noteq> []"
    using Cons.prems(1) [of n] by auto
  then show ?case
  proof cases
    case 1
    then obtain b where "build_lists data nss found = (found', b)" "built = ?l # b"
      using Cons.prems(2) by (auto split: prod.splits)
    with Cons.IH [OF pre this(1)] 1 show ?thesis by auto
  next
    case 2
    then obtain b where "build_lists data nss found = (found', b)" "built = [] # b"
      using Cons.prems(2) by (auto split: prod.splits)
    with Cons.IH [OF pre this(1)] 2 show ?thesis by auto
  next
    case 3
    then obtain b where b: "build_lists data nss (put n ?l found) = (found', b)" "built = ?l # b"
      using Cons.prems(2) by (auto simp: Let_def split: prod.splits)
    have "get (put n ?l found) k = None \<or> get (put n ?l found) k = Some (sorted_services data k)" if "k \<in> set nss" for k
      using pre [OF that] by simp
    from Cons.IH [OF this b(1)] b(2) 3 show ?thesis by auto
  qed
qed simp

lemma store_section_spec:
  assumes "length built = length missing"
  shows "get (sorted_lists (store_section g missing built ix)) ns = Some l \<Longrightarrow>
    get (sorted_lists ix) ns = Some l \<or> sortedGen ix = g \<and> (ns, l) \<in> set (zip missing built)"
  by (auto simp: store_section_def alist.look_fold_ins split: if_splits option.splits dest: map_of_SomeD)

subsection \<open>Reading one after another\<close>

text \<open>Whatever the memo holds for the current token is what would be built now.\<close>
definition memo_ok :: "Index \<Rightarrow> bool" where
  "memo_ok ix \<longleftrightarrow> sortedGen ix \<le> gen ix \<and>
     (sortedGen ix = gen ix \<longrightarrow> (\<forall>ns l. get (sorted_lists ix) ns = Some l \<longrightarrow> l = sorted_services (byNamespace ix) ns))"

lemma InNamespaces_memo:
  assumes ok: "memo_ok ix"
  shows "get (fst (InNamespaces nss ix)) ns =
      (if ns \<in> set nss \<and> sorted_services (byNamespace ix) ns \<noteq> [] then Some (sorted_services (byNamespace ix) ns) else None)"
    and "memo_ok (snd (InNamespaces nss ix))"
proof -
  let ?S = "sorted_services (byNamespace ix)"
  obtain found missing usable ix' where m: "memo_section nss (gen ix) ix = ((found, missing, usable), ix')" by (metis prod.exhaust)
  note spec = memo_section_spec [OF m] and frame = memo_section_frame [OF m]
  have u: usable using spec(1) ok by (simp add: memo_ok_def)
  have memo: "l = ?S n" if "get (sorted_lists ix') n = Some l" for n l
    using spec(6)
  proof
    assume "sorted_lists ix' = []"
    then show ?thesis using that by simp
  next
    assume "sorted_lists ix' = sorted_lists ix \<and> sortedGen ix' = sortedGen ix"
    then show ?thesis using ok that spec(2) [OF u] by (simp add: memo_ok_def)
  qed
  have f: "get found n = (if n \<in> set nss \<and> n \<notin> set missing \<and> ?S n \<noteq> [] then Some (?S n) else None)" for n
    unfolding spec(3) [OF u] spec(4) [OF u] using memo [of n] by (cases "get (sorted_lists ix') n") auto
  obtain found' built where b: "build_lists (byNamespace ix) missing found = (found', built)" by fastforce
  have bs: "built = map ?S missing \<and> get found' n = (if n \<in> set missing \<and> ?S n \<noteq> [] then Some (?S n) else get found n)" for n
    by (rule build_lists_spec [OF _ b]) (use f in auto)
  have sub: "set missing \<subseteq> set nss" using spec(4) [OF u] by auto
  have e: "InNamespaces nss ix = (if missing = [] then (found, ix') else (found', store_section (gen ix) missing built (ix'\<lparr>reads := reads ix' + 1\<rparr>)))"
    using frame b u by (simp add: InNamespaces_def Let_def m build_section_def)
  show "get (fst (InNamespaces nss ix)) ns = (if ns \<in> set nss \<and> ?S ns \<noteq> [] then Some (?S ns) else None)"
    using f [of ns] bs [of ns] sub by (auto simp: e)
  let ?ix = "store_section (gen ix) missing built (ix'\<lparr>reads := reads ix' + 1\<rparr>)"
  have "memo_ok ix'" using memo frame spec(2) [OF u] by (simp add: memo_ok_def)
  moreover have "memo_ok ?ix"
  proof -
    have fr: "sortedGen ?ix = sortedGen ix'" "gen ?ix = gen ix" "byNamespace ?ix = byNamespace ix"
      using frame by (simp_all add: store_section_def)
    have "l = ?S n" if "get (sorted_lists ?ix) n = Some l" for n l
      using store_section_spec [OF _ that] bs memo [of n l] by (auto simp: zip_map2 set_zip)
    then show ?thesis using spec(2) [OF u] by (simp add: memo_ok_def fr)
  qed
  ultimately show "memo_ok (snd (InNamespaces nss ix))" by (simp add: e)
qed

lemma write_frame:
  "sorted_lists (upsert_write svc ix) = sorted_lists ix" "sortedGen (upsert_write svc ix) = sortedGen ix" "gen (upsert_write svc ix) = gen ix"
  "sorted_lists (delete_write ns u s ix) = sorted_lists ix" "sortedGen (delete_write ns u s ix) = sortedGen ix" "gen (delete_write ns u s ix) = gen ix"
  by (simp_all add: upsert_write_def delete_write_def Let_def split: option.split)

text \<open>An operation leaves the token alone, or writes and moves it by one.\<close>
lemma ix_run_token:
  "gen (ix_run op ix) = gen ix \<and> byNamespace (ix_run op ix) = byNamespace ix \<or>
   gen (ix_run op ix) = gen ix + 1 \<and> sortedGen (ix_run op ix) = sortedGen ix"
proof (cases op)
  case (Ix_Upsert svc)
  then show ?thesis by (simp add: Index_Upsert_eq write_frame count_service_omitted_def)
next
  case (Ix_Delete ns u)
  then show ?thesis by (simp add: Index_Delete_eq write_frame split: option.split)
next
  case (Ix_InNamespaces nss)
  then show ?thesis using InNamespaces_frame by simp
next
  case (Ix_All nss)
  then show ?thesis by (simp add: Index_All_def)
qed

lemma ix_run_memo:
  assumes ok: "memo_ok ix" and g: "unat (gen ix) + 1 < 2 ^ 64"
  shows "memo_ok (ix_run op ix) \<and> unat (gen (ix_run op ix)) \<le> unat (gen ix) + 1"
proof -
  have "gen ix < gen ix + 1" using g by (simp add: word_less_nat_alt unat_word_ariths)
  then have minted: "sortedGen ix < gen ix + 1" using ok le_less_trans unfolding memo_ok_def by blast
  have bound: "unat (gen (ix_run op ix)) \<le> unat (gen ix) + 1"
    using ix_run_token [of op ix] g by (auto simp: unat_word_ariths)
  have "memo_ok (ix_run op ix)"
  proof (cases op)
    case (Ix_Upsert svc)
    then show ?thesis using ok minted by (auto simp: Index_Upsert_eq write_frame count_service_omitted_def memo_ok_def)
  next
    case (Ix_Delete ns u)
    then show ?thesis using ok minted by (auto simp: Index_Delete_eq write_frame memo_ok_def split: option.split)
  next
    case (Ix_InNamespaces nss)
    then show ?thesis using InNamespaces_memo(2) [OF ok] by simp
  next
    case (Ix_All nss)
    then show ?thesis using ok by (simp add: Index_All_def memo_ok_def)
  qed
  with bound show ?thesis by simp
qed

lemma run_memo: "memo_ok ix \<Longrightarrow> unat (gen ix) + length ops < 2 ^ 64 \<Longrightarrow> memo_ok (fold ix_run ops ix)"
proof (induction ops arbitrary: ix)
  case (Cons op ops)
  have "memo_ok (ix_run op ix) \<and> unat (gen (ix_run op ix)) \<le> unat (gen ix) + 1"
    by (rule ix_run_memo) (use Cons.prems in simp_all)
  with Cons show ?case by simp
qed simp

lemma NewIndex_memo: "memo_ok NewIndex"
  by (simp add: memo_ok_def NewIndex_def)

text \<open>
  C16. A read returns, for each namespace asked for, exactly the Services the deliveries have left there:
  those last delivered under a name and not deleted, each once, in the order of their names. The memo
  is invisible, and a Service whose name a recreated one took over is gone. A namespace that has none
  is absent from the answer.
\<close>
theorem InNamespaces_exact:
  assumes "list_all (coherent ident) ops" "length ops < 2 ^ 64" "ns \<in> set nss"
  shows "case get (fst (InNamespaces nss (fold ix_run ops NewIndex))) ns of
      None \<Rightarrow> \<forall>name. directory ops (ns, name) = None
    | Some list \<Rightarrow> list \<noteq> [] \<and> sorted_wrt (<) (map svc_Name list) \<and> set list = {s. \<exists>name. directory ops (ns, name) = Some s}"
proof -
  let ?ix = "fold ix_run ops NewIndex"
  note ok = index_run [OF assms(1)]
  have "memo_ok ?ix" using run_memo [OF NewIndex_memo] assms(2) by (simp add: NewIndex_def)
  note get = InNamespaces_memo(1) [OF this, of nss ns] and spec = sorted_services_spec [OF ok(1), of ns, unfolded ok(2)]
  show ?thesis
  proof (cases "sorted_services (byNamespace ?ix) ns = []")
    case True
    then have "\<forall>name. directory ops (ns, name) = None" using spec(2) by (auto simp: not_Some_eq [symmetric])
    then show ?thesis using get True by simp
  next
    case False
    then show ?thesis using get assms(3) spec by simp
  qed
qed

subsection \<open>All\<close>

lemma All_fold:
  "\<exists>ds. distinct ds \<and> set ds = set nss - set seen_ns \<and>
     fst (fold (\<lambda>ns (acc, seen_ns). if ns \<in> set seen_ns then (acc, seen_ns) else (acc @ services_in ix ns, ns # seen_ns)) nss (acc, seen_ns)) =
     acc @ concat (map (services_in ix) ds)"
proof (induction nss arbitrary: acc seen_ns)
  case (Cons n nss)
  show ?case
  proof (cases "n \<in> set seen_ns")
    case True
    then show ?thesis using Cons.IH [of seen_ns acc] by (auto simp: insert_Diff_if)
  next
    case False
    from Cons.IH [of "n # seen_ns" "acc @ services_in ix n"] obtain ds where ds: "distinct ds" "set ds = set nss - set (n # seen_ns)"
      "fst (fold (\<lambda>ns (acc, seen_ns). if ns \<in> set seen_ns then (acc, seen_ns) else (acc @ services_in ix ns, ns # seen_ns)) nss
         (acc @ services_in ix n, n # seen_ns)) = (acc @ services_in ix n) @ concat (map (services_in ix) ds)" by blast
    show ?thesis by (rule exI [of _ "n # ds"]) (use ds False in auto)
  qed
qed simp

lemma All_lists:
  "wf_map (byNamespace ix) \<Longrightarrow> \<exists>ds. distinct ds \<and>
     (case nss of None \<Rightarrow> set ds = fst ` set (byNamespace ix) | Some l \<Rightarrow> set ds = set l) \<and>
     fst (Index_All nss ix) = concat (map (services_in ix) ds)"
proof (cases nss)
  case None
  assume "wf_map (byNamespace ix)"
  then show ?thesis using None by (intro exI [of _ "map fst (byNamespace ix)"]) (simp add: Index_All_def)
next
  case (Some l)
  have gen: "\<exists>ds. distinct ds \<and> set ds = set l \<and> fst (Index_All nss ix) = concat (map (services_in ix) ds)" if "length l \<noteq> 1"
    using that All_fold [of l "[]" ix "[]"] Some by (auto simp: Index_All_def split: list.split)
  show ?thesis
  proof (cases "length l = 1")
    case True
    then obtain n where "l = [n]" by (auto simp: length_Suc_conv)
    then show ?thesis using Some by (intro exI [of _ "[n]"]) (simp add: Index_All_def)
  next
    case False
    then show ?thesis using gen Some by simp
  qed
qed

lemma services_distinct:
  assumes ok: "index_ok ident ix"
  shows "distinct ds \<Longrightarrow> distinct (concat (map (services_in ix) ds))"
proof (induction ds)
  case (Cons d ds)
  have ns: "svc_Namespace s = n" if "s \<in> set (services_in ix n)" for s n
    using that ok unfolding services_in_iff [OF ok] abs_index_iff [OF ok] by (auto simp: index_ok_def ident_ok_def)
  have "distinct (services_in ix d)" using services_names_distinct [OF ok, of d] distinct_map by blast
  moreover have "set (services_in ix d) \<inter> set (concat (map (services_in ix) ds)) = {}"
    using Cons.prems by (auto dest: ns)
  ultimately show ?case using Cons by simp
qed simp

text \<open>
  \<^verbatim>\<open>All\<close> returns the Services of the namespaces it is given, or of every namespace, each once
  however often its namespace is named.
\<close>
theorem All_exact:
  assumes "list_all (coherent ident) ops"
  shows "distinct (fst (Index_All nss (fold ix_run ops NewIndex))) \<and>
    set (fst (Index_All nss (fold ix_run ops NewIndex))) =
      {s. \<exists>ns name. (case nss of None \<Rightarrow> True | Some l \<Rightarrow> ns \<in> set l) \<and> directory ops (ns, name) = Some s}"
proof -
  let ?ix = "fold ix_run ops NewIndex"
  note ok = index_run [OF assms]
  have "wf_map (byNamespace ?ix)" using ok(1) by (simp add: index_ok_def maps_ok_def)
  from All_lists [OF this, of nss] obtain ds where ds: "distinct ds"
    "case nss of None \<Rightarrow> set ds = fst ` set (byNamespace ?ix) | Some l \<Rightarrow> set ds = set l"
    "fst (Index_All nss ?ix) = concat (map (services_in ?ix) ds)" by blast
  have empty: "services_in ?ix ns = []" if "ns \<notin> fst ` set (byNamespace ?ix)" for ns
    using that by (simp add: services_in_def get_map_def dom_map_of_conv_image_fst [symmetric] domIff)
  have "set (fst (Index_All nss ?ix)) = (\<Union>ns \<in> set ds. set (services_in ?ix ns))" using ds(3) by simp
  also have "\<dots> = {s. \<exists>ns. (case nss of None \<Rightarrow> True | Some l \<Rightarrow> ns \<in> set l) \<and> s \<in> set (services_in ?ix ns)}"
  proof (cases nss)
    case None
    then have "set ds = fst ` set (byNamespace ?ix)" using ds(2) by simp
    moreover have "ns \<in> fst ` set (byNamespace ?ix)" if "s \<in> set (services_in ?ix ns)" for s ns using empty that by fastforce
    ultimately show ?thesis using None by simp blast
  qed (use ds(2) in auto)
  also have "\<dots> = {s. \<exists>ns name. (case nss of None \<Rightarrow> True | Some l \<Rightarrow> ns \<in> set l) \<and> directory ops (ns, name) = Some s}"
    unfolding services_in_iff [OF ok(1)] ok(2) by blast
  finally show ?thesis using services_distinct [OF ok(1) ds(1)] ds(3) by simp
qed

subsection \<open>The token\<close>

definition ix_step :: "Index \<Rightarrow> Index \<Rightarrow> bool" where
  "ix_step ix ix' \<longleftrightarrow> (\<exists>op. ix' = ix_run op ix) \<and> unat (gen ix) + 1 < 2 ^ 64"

interpretation index_token: change_token "\<lambda>_. True" ix_step byNamespace Generation Generation
proof (unfold_locales, goal_cases)
  case (3 ix ix')
  then obtain op where op: "ix' = ix_run op ix" "unat (gen ix) + 1 < 2 ^ 64" by (auto simp: ix_step_def)
  then have "gen ix \<le> gen ix + 1" by (simp add: word_le_nat_alt unat_word_ariths)
  then show ?case using ix_run_token [of op ix] by (auto simp: Generation_def op(1))
next
  case (4 ix ix')
  then obtain op where op: "ix' = ix_run op ix" "unat (gen ix) + 1 < 2 ^ 64" by (auto simp: ix_step_def)
  then have "gen ix < gen ix + 1" by (simp add: word_less_nat_alt unat_word_ariths)
  then show ?case using ix_run_token [of op ix] 4(3) by (auto simp: Generation_def op(1))
qed simp_all

text \<open>
  A derived answer may be kept as long as the token is the same: if the token was read first, the
  index read later and the token is still the same later on, then the index holds what was read.
\<close>
theorem Generation_sound:
  assumes "ix_step\<^sup>*\<^sup>* ix middle" "ix_step\<^sup>*\<^sup>* middle ix'" "Generation ix' = Generation ix"
  shows "byNamespace ix' = byNamespace middle"
  using index_token.memo_sound [OF assms(1,2) TrueI assms(3)] .

subsection \<open>Selecting\<close>

lemma selects_iff: "selects sel labels \<longleftrightarrow> (\<forall>(k, v) \<in> set sel. get labels k = Some v)"
  by (induction sel labels rule: selects.induct) (auto split: option.splits)

text \<open>
  The selector of Kubernetes: a Service selects a pod exactly when it has a selector and every key
  of it is a label of the pod with that value. A key the pod lacks does not match an empty value.
\<close>
theorem Selects_iff: "Selects s labels \<longleftrightarrow> svc_Selector s \<noteq> [] \<and> (\<forall>p \<in> set (svc_Selector s). get labels (fst p) = Some (snd p))"
  by (auto simp: Selects_def selects_iff)

subsection \<open>Concurrent reads and writes\<close>

text \<open>
  Any number of readers in \<^verbatim>\<open>InNamespaces\<close> and one writer at a time, interleaved at the points where the
  code takes and drops its locks. The writer holds \<^verbatim>\<open>mu\<close> from the bump of the token to the end of its
  write, so that no reader builds in between, but the token is loaded and the memo is used meanwhile.
  Two things are remembered that the program does not keep: the contents after each completed write
  (\<open>versions\<close>, the newest last), and with each reader how many writes were complete when it was called.
\<close>
datatype ix_write = Write_Upsert APIService | Write_Delete string uid Service

fun apply_write :: "ix_write \<Rightarrow> Index \<Rightarrow> Index" where
  "apply_write (Write_Upsert svc) ix = upsert_write svc ix"
| "apply_write (Write_Delete ns u s) ix = delete_write ns u s ix"

datatype reader =
    Loaded nat "string list" u64
  | Building nat "string list" u64 "(string, Service list) gomap" "string list" bool
  | Storing nat "string list" u64 "(string, Service list) gomap" "string list" "Service list list"
  | Returned nat "string list" "(string, Service list) gomap"

record ix_system =
  index :: Index
  writer :: "ix_write option"
  readers :: "reader list"
  versions :: "(string, (uid, Service) gomap) gomap list"

definition new_system :: ix_system where
  "new_system = \<lparr>index = NewIndex, writer = None, readers = [], versions = [[]]\<rparr>"

inductive sys_step :: "ix_system \<Rightarrow> ix_system \<Rightarrow> bool" where
  load: "sys_step s (s\<lparr>readers := readers s @ [Loaded (length (versions s) - 1) nss (gen (index s))]\<rparr>)"
| memo: "i < length (readers s) \<Longrightarrow> readers s ! i = Loaded n nss g \<Longrightarrow>
    memo_section nss g (index s) = ((found, missing, usable), ix') \<Longrightarrow>
    sys_step s (s\<lparr>index := ix', readers := (readers s)[i :=
      if missing = [] then Returned n nss found else Building n nss g found missing usable]\<rparr>)"
| build: "i < length (readers s) \<Longrightarrow> readers s ! i = Building n nss g found missing usable \<Longrightarrow> writer s = None \<Longrightarrow>
    build_section missing found (index s) = ((found', built), ix') \<Longrightarrow>
    sys_step s (s\<lparr>index := ix', readers := (readers s)[i :=
      if usable then Storing n nss g found' missing built else Returned n nss found']\<rparr>)"
| store: "i < length (readers s) \<Longrightarrow> readers s ! i = Storing n nss g found missing built \<Longrightarrow>
    sys_step s (s\<lparr>index := store_section g missing built (index s), readers := (readers s)[i := Returned n nss found]\<rparr>)"
| upsert: "writer s = None \<Longrightarrow> \<not> svc_unchangedLocked (held (index s) (as_Namespace svc) (as_UID svc)) svc \<Longrightarrow>
    sys_step s (s\<lparr>index := (index s)\<lparr>gen := gen (index s) + 1\<rparr>, writer := Some (Write_Upsert svc)\<rparr>)"
| delete: "writer s = None \<Longrightarrow> held (index s) ns u = Some svc \<Longrightarrow>
    sys_step s (s\<lparr>index := (index s)\<lparr>gen := gen (index s) + 1\<rparr>, writer := Some (Write_Delete ns u svc)\<rparr>)"
| written: "writer s = Some wr \<Longrightarrow>
    sys_step s (s\<lparr>index := apply_write wr (index s), writer := None, versions := versions s @ [byNamespace (apply_write wr (index s))]\<rparr>)"

text \<open>A list that some version from \<open>n\<close> on has for the namespace.\<close>
definition of_version :: "(string, (uid, Service) gomap) gomap list \<Rightarrow> nat \<Rightarrow> string \<Rightarrow> Service list \<Rightarrow> bool" where
  "of_version vs n ns l \<longleftrightarrow> (\<exists>j. n \<le> j \<and> j < length vs \<and> l = sorted_services (vs ! j) ns)"

definition list_of :: "(string, Service list) gomap \<Rightarrow> string \<Rightarrow> Service list" where
  "list_of found ns = (case get found ns of None \<Rightarrow> [] | Some l \<Rightarrow> l)"

fun reader_ok :: "(string, (uid, Service) gomap) gomap list \<Rightarrow> u64 \<Rightarrow> reader \<Rightarrow> bool" where
  "reader_ok vs now (Loaded n nss g) \<longleftrightarrow> n \<le> unat g \<and> g \<le> now"
| "reader_ok vs now (Building n nss g found missing usable) \<longleftrightarrow> n \<le> unat g \<and> g \<le> now \<and>
     (\<forall>ns \<in> set nss. ns \<in> set missing \<and> get found ns = None \<or> ns \<notin> set missing \<and> of_version vs (unat g) ns (list_of found ns)) \<and>
     set missing \<subseteq> set nss"
| "reader_ok vs now (Storing n nss g found missing built) \<longleftrightarrow> n \<le> unat g \<and> g \<le> now \<and> length built = length missing \<and>
     (\<forall>ns \<in> set nss. of_version vs (unat g) ns (list_of found ns)) \<and>
     (\<forall>(ns, l) \<in> set (zip missing built). of_version vs (unat g) ns l)"
| "reader_ok vs now (Returned n nss found) \<longleftrightarrow> (\<forall>ns \<in> set nss. of_version vs n ns (list_of found ns))"

definition sys_ok :: "ix_system \<Rightarrow> bool" where
  "sys_ok s \<longleftrightarrow> versions s \<noteq> [] \<and> last (versions s) = byNamespace (index s) \<and>
     unat (gen (index s)) + 1 = length (versions s) + (if writer s = None then 0 else 1) \<and>
     sortedGen (index s) \<le> gen (index s) \<and>
     (\<forall>ns l. get (sorted_lists (index s)) ns = Some l \<longrightarrow> of_version (versions s) (unat (sortedGen (index s))) ns l) \<and>
     (\<forall>r \<in> set (readers s). reader_ok (versions s) (gen (index s)) r)"

lemma of_version_mono: "of_version vs n ns l \<Longrightarrow> m \<le> n \<Longrightarrow> of_version (vs @ ws) m ns l"
  by (auto simp: of_version_def nth_append intro: order_trans)

lemma of_version_weaken: "of_version vs n ns l \<Longrightarrow> m \<le> n \<Longrightarrow> of_version vs m ns l"
  using of_version_mono [of vs n ns l m "[]"] by simp

lemma reader_ok_mono: "reader_ok vs now r \<Longrightarrow> now \<le> now' \<Longrightarrow> reader_ok (vs @ ws) now' r"
  by (cases r) (auto intro: of_version_mono order_trans)

lemma reader_ok_later: "reader_ok vs now r \<Longrightarrow> now \<le> now' \<Longrightarrow> reader_ok vs now' r"
  using reader_ok_mono [of vs now r now' "[]"] by simp

lemma readers_update:
  "\<forall>r \<in> set rs. P r \<Longrightarrow> P x \<Longrightarrow> \<forall>r \<in> set (rs[i := x]). P r"
  using set_update_subset_insert by fastforce

lemma memo_keeps:
  assumes ok: "sys_ok s" and r: "reader_ok (versions s) (gen (index s)) (Loaded n nss g)"
    and m: "memo_section nss g (index s) = ((found, missing, usable), ix')"
  shows "sys_ok (s\<lparr>index := ix'\<rparr>)"
    and "reader_ok (versions s) (gen (index s)) (if missing = [] then Returned n nss found else Building n nss g found missing usable)"
proof -
  note spec = memo_section_spec [OF m] and frame = memo_section_frame [OF m]
  have memo: "of_version (versions s) (unat (sortedGen ix')) ns l" if "get (sorted_lists ix') ns = Some l" for ns l
    using spec(6) that ok by (auto simp: sys_ok_def)
  have "sortedGen ix' \<le> gen ix'"
  proof (cases usable)
    case True
    then show ?thesis using spec(2) r frame by simp
  next
    case False
    then show ?thesis using spec(5) ok by (simp add: sys_ok_def)
  qed
  then show "sys_ok (s\<lparr>index := ix'\<rparr>)" using ok frame memo by (simp add: sys_ok_def)
  have bld: "reader_ok (versions s) (gen (index s)) (Building n nss g found missing usable)"
  proof (cases usable)
    case False
    then show ?thesis using spec(5) r by simp
  next
    case True
    have "ns \<in> set missing \<and> get found ns = None \<or> ns \<notin> set missing \<and> of_version (versions s) (unat g) ns (list_of found ns)"
      if ns: "ns \<in> set nss" for ns
    proof (cases "get (sorted_lists ix') ns")
      case None
      then show ?thesis using spec(3,4) [OF True] ns by simp
    next
      case (Some l)
      then have "list_of found ns = l" "ns \<notin> set missing" using spec(3,4) [OF True] ns by (auto simp: list_of_def)
      then show ?thesis using memo [OF Some] spec(2) [OF True] by simp
    qed
    then show ?thesis using r spec(4) [OF True] by auto
  qed
  show "reader_ok (versions s) (gen (index s)) (if missing = [] then Returned n nss found else Building n nss g found missing usable)"
  proof (cases "missing = []")
    case True
    then show ?thesis using bld r by (auto intro: of_version_weaken)
  qed (use bld in simp)
qed

lemma build_keeps:
  assumes ok: "sys_ok s" and r: "reader_ok (versions s) (gen (index s)) (Building n nss g found missing usable)"
    and w: "writer s = None" and b: "build_section missing found (index s) = ((found', built), ix')"
  shows "sys_ok (s\<lparr>index := ix'\<rparr>)"
    and "reader_ok (versions s) (gen (index s)) (if usable then Storing n nss g found' missing built else Returned n nss found')"
proof -
  have ix': "ix' = (index s)\<lparr>reads := reads (index s) + 1\<rparr>"
    and bl: "build_lists (byNamespace (index s)) missing found = (found', built)"
    using b by (simp_all add: build_section_def)
  show "sys_ok (s\<lparr>index := ix'\<rparr>)" using ok by (simp add: sys_ok_def ix')
  let ?S = "sorted_services (byNamespace (index s))"
  have now: "of_version (versions s) (unat g) ns (?S ns)" for ns
    unfolding of_version_def
    by (rule exI [of _ "length (versions s) - 1"])
      (use ok w r in \<open>auto simp: sys_ok_def last_conv_nth word_le_nat_alt\<close>)
  have none: "get found ns = None" if "ns \<in> set missing" for ns using r that by auto
  have spec: "built = map ?S missing \<and> get found' ns = (if ns \<in> set missing \<and> ?S ns \<noteq> [] then Some (?S ns) else get found ns)" for ns
    by (rule build_lists_spec [OF _ bl]) (use none in simp)
  have ans: "of_version (versions s) (unat g) ns (list_of found' ns)" if "ns \<in> set nss" for ns
  proof (cases "ns \<in> set missing")
    case True
    then have "list_of found' ns = ?S ns" using spec [of ns] none by (auto simp: list_of_def)
    then show ?thesis using now by simp
  next
    case False
    then have "list_of found' ns = list_of found ns" using spec [of ns] by (simp add: list_of_def)
    then show ?thesis using r that False by auto
  qed
  have "\<forall>(ns, l) \<in> set (zip missing built). of_version (versions s) (unat g) ns l"
    using spec now by (auto simp: zip_map2 set_zip)
  then show "reader_ok (versions s) (gen (index s)) (if usable then Storing n nss g found' missing built else Returned n nss found')"
    using ans r spec by (auto intro: of_version_weaken)
qed

lemma store_keeps:
  assumes ok: "sys_ok s" and r: "reader_ok (versions s) (gen (index s)) (Storing n nss g found missing built)"
  shows "sys_ok (s\<lparr>index := store_section g missing built (index s)\<rparr>)"
    and "reader_ok (versions s) (gen (index s)) (Returned n nss found)"
proof -
  let ?ix = "store_section g missing built (index s)"
  have fr: "sortedGen ?ix = sortedGen (index s)" "gen ?ix = gen (index s)" "byNamespace ?ix = byNamespace (index s)"
    by (simp_all add: store_section_def)
  have "of_version (versions s) (unat (sortedGen (index s))) ns l" if "get (sorted_lists ?ix) ns = Some l" for ns l
    using store_section_spec [OF _ that] r ok by (auto simp: sys_ok_def)
  then show "sys_ok (s\<lparr>index := ?ix\<rparr>)" using ok by (simp add: sys_ok_def fr)
  show "reader_ok (versions s) (gen (index s)) (Returned n nss found)"
    using r by (auto intro: of_version_weaken)
qed

lemma sys_ok_readers: "sys_ok s \<Longrightarrow> \<forall>r \<in> set rs. reader_ok (versions s) (gen (index s)) r \<Longrightarrow> sys_ok (s\<lparr>readers := rs\<rparr>)"
  by (simp add: sys_ok_def)

lemma sys_ok_update:
  assumes "sys_ok (s\<lparr>index := ix\<rparr>)" "sys_ok s" "reader_ok (versions s) (gen (index s)) r" "gen ix = gen (index s)"
  shows "sys_ok (s\<lparr>index := ix, readers := (readers s)[i := r]\<rparr>)"
proof -
  have "\<forall>r \<in> set ((readers s)[i := r]). reader_ok (versions s) (gen (index s)) r"
    by (rule readers_update) (use assms in \<open>simp_all add: sys_ok_def\<close>)
  then show ?thesis using sys_ok_readers [OF assms(1)] assms(4) by simp
qed

lemma begin_keeps:
  assumes ok: "sys_ok s" and w: "writer s = None" and small: "length (versions s) < 2 ^ 64"
  shows "sys_ok (s\<lparr>index := (index s)\<lparr>gen := gen (index s) + 1\<rparr>, writer := Some wr\<rparr>)"
proof -
  have n: "unat (gen (index s)) + 1 = length (versions s)" using ok w by (simp add: sys_ok_def)
  then have u: "unat (gen (index s) + 1) = unat (gen (index s)) + 1" using small by (simp add: unat_word_ariths)
  then have le: "gen (index s) \<le> gen (index s) + 1" by (simp add: word_le_nat_alt)
  have "\<forall>r \<in> set (readers s). reader_ok (versions s) (gen (index s) + 1) r"
    using ok reader_ok_later [OF _ le] by (simp add: sys_ok_def)
  moreover have "sortedGen (index s) \<le> gen (index s) + 1" using ok le order_trans unfolding sys_ok_def by blast
  ultimately show ?thesis using ok n u by (simp add: sys_ok_def)
qed

lemma apply_write_frame: "sorted_lists (apply_write wr ix) = sorted_lists ix" "sortedGen (apply_write wr ix) = sortedGen ix"
    "gen (apply_write wr ix) = gen ix"
  by (cases wr; simp add: write_frame)+

lemma written_keeps:
  assumes ok: "sys_ok s" and w: "writer s = Some wr"
  shows "sys_ok (s\<lparr>index := apply_write wr (index s), writer := None, versions := versions s @ [byNamespace (apply_write wr (index s))]\<rparr>)"
  using ok w by (auto simp: sys_ok_def apply_write_frame intro: of_version_mono reader_ok_mono)

lemma sys_step_ok: "sys_step s s' \<Longrightarrow> sys_ok s \<Longrightarrow> length (versions s') < 2 ^ 64 \<Longrightarrow> sys_ok s'"
proof (induction rule: sys_step.induct)
  case (load s nss)
  have "length (versions s) - 1 \<le> unat (gen (index s))" using load(1) unfolding sys_ok_def by linarith
  then show ?case using load(1) by (intro sys_ok_readers) (auto simp: sys_ok_def)
next
  case (memo i s n nss g found missing usable ix')
  then have "reader_ok (versions s) (gen (index s)) (Loaded n nss g)" unfolding sys_ok_def by (metis nth_mem)
  note keeps = memo_keeps [OF memo.prems(1) this memo.hyps(3)]
  show ?case by (rule sys_ok_update [OF keeps(1) memo.prems(1) keeps(2)]) (use memo_section_frame [OF memo.hyps(3)] in simp)
next
  case (build i s n nss g found missing usable found' built ix')
  then have "reader_ok (versions s) (gen (index s)) (Building n nss g found missing usable)" unfolding sys_ok_def by (metis nth_mem)
  note keeps = build_keeps [OF build.prems(1) this build.hyps(3,4)]
  have "gen ix' = gen (index s)" using build.hyps(4) by (auto simp: build_section_def)
  then show ?case by (rule sys_ok_update [OF keeps(1) build.prems(1) keeps(2)])
next
  case (store i s n nss g found missing built)
  then have "reader_ok (versions s) (gen (index s)) (Storing n nss g found missing built)" unfolding sys_ok_def by (metis nth_mem)
  note keeps = store_keeps [OF store.prems(1) this]
  show ?case by (rule sys_ok_update [OF keeps(1) store.prems(1) keeps(2)]) (simp add: store_section_def)
next
  case (upsert s svc)
  then show ?case using begin_keeps by simp
next
  case (delete s ns u svc)
  then show ?case using begin_keeps by simp
next
  case (written s wr)
  then show ?case using written_keeps by blast
qed

lemma versions_grow: "sys_step s s' \<Longrightarrow> length (versions s) \<le> length (versions s')"
  by (induction rule: sys_step.induct) simp_all

lemma new_system_ok: "sys_ok new_system"
  by (simp add: sys_ok_def new_system_def NewIndex_def)

lemma system_ok: "sys_step\<^sup>*\<^sup>* new_system s \<Longrightarrow> length (versions s) < 2 ^ 64 \<Longrightarrow> sys_ok s"
proof (induction rule: rtranclp_induct)
  case (step t u)
  then show ?case using sys_step_ok versions_grow by (meson le_less_trans)
qed (rule new_system_ok)

text \<open>
  C15. A read that runs among other reads and writes returns, for each namespace, the sorted list of a
  version between its call and its return: never older than the writes that were complete when it was
  called, in spite of the memo and of the token being read without the lock.
\<close>
theorem InNamespaces_concurrent:
  assumes "sys_step\<^sup>*\<^sup>* new_system s" "length (versions s) < 2 ^ 64" "Returned n nss found \<in> set (readers s)" "ns \<in> set nss"
  shows "\<exists>j. n \<le> j \<and> j < length (versions s) \<and> list_of found ns = sorted_services (versions s ! j) ns"
  using system_ok [OF assms(1,2)] assms(3,4) by (auto simp: sys_ok_def of_version_def dest!: bspec)

subsection \<open>A recreated Service\<close>

definition web_service :: "uid \<Rightarrow> string \<Rightarrow> APIService" where
  "web_service u rv = \<lparr>as_Name = ''web'', as_Namespace = ''shop'', as_UID = u, as_ResourceVersion = rv, as_Labels = [],
     as_Annotations = [], as_Selector = [(''app'', ''web'')], as_Ports = []\<rparr>"

definition recreated :: "ix_op list" where
  "recreated = [Ix_Upsert (web_service ''a'' ''1''), Ix_InNamespaces [''shop''], Ix_Upsert (web_service ''b'' ''2''), Ix_Delete ''shop'' ''a'']"

lemma recreated_coherent: "list_all (coherent (\<lambda>_. (''shop'', ''web''))) recreated"
  by (simp add: recreated_def web_service_def)

lemma recreated_directory: "directory recreated (''shop'', name) = (if name = ''web'' then Some (convert_service (web_service ''b'' ''2'')) else None)"
  by (simp add: recreated_def directory_def web_service_def svc_unchangedLocked_def)

theorem InNamespaces_exact_witness:
  "\<exists>list. get (fst (InNamespaces [''shop''] (fold ix_run recreated NewIndex))) ''shop'' = Some list \<and>
     set list = {convert_service (web_service ''b'' ''2'')}"
proof -
  have "length recreated < 2 ^ 64" by (simp add: recreated_def)
  from InNamespaces_exact [OF recreated_coherent this, of "''shop''" "[''shop'']"] show ?thesis
    by (auto simp: recreated_directory split: option.splits if_splits)
qed

theorem All_exact_witness:
  "set (fst (Index_All (Some [''shop'', ''shop'']) (fold ix_run recreated NewIndex))) = {convert_service (web_service ''b'' ''2'')} \<and>
   distinct (fst (Index_All (Some [''shop'', ''shop'']) (fold ix_run recreated NewIndex)))"
  using All_exact [OF recreated_coherent, of "Some [''shop'', ''shop'']"] by (auto simp: recreated_directory)

theorem Generation_sound_witness:
  "byNamespace (ix_run (Ix_All None) (Index_Upsert (web_service ''a'' ''1'') NewIndex)) =
   byNamespace (Index_Upsert (web_service ''a'' ''1'') NewIndex)"
proof -
  let ?ix = "Index_Upsert (web_service ''a'' ''1'') NewIndex"
  have g: "gen ?ix = 1" by code_simp
  have "ix_step ?ix (ix_run (Ix_All None) ?ix)" unfolding ix_step_def g by (intro conjI exI [of _ "Ix_All None"]) simp_all
  then show ?thesis
    using Generation_sound [of ?ix ?ix "ix_run (Ix_All None) ?ix"] by (simp add: Generation_def Index_All_def)
qed

theorem InNamespaces_concurrent_witness:
  "\<exists>s found. sys_step\<^sup>*\<^sup>* new_system s \<and> Returned 0 [''shop''] found \<in> set (readers s) \<and>
     (\<exists>j. j < length (versions s) \<and> list_of found ''shop'' = sorted_services (versions s ! j) ''shop'')"
proof -
  define s1 where "s1 = new_system\<lparr>readers := [Loaded 0 [''shop''] 0]\<rparr>"
  define s2 where "s2 = s1\<lparr>readers := [Building 0 [''shop''] 0 [] [''shop''] True]\<rparr>"
  define s3 where "s3 = s2\<lparr>index := (index s2)\<lparr>gen := 1\<rparr>, writer := Some (Write_Upsert (web_service ''a'' ''1''))\<rparr>"
  define s4 where "s4 = s3\<lparr>index := apply_write (Write_Upsert (web_service ''a'' ''1'')) (index s3), writer := None,
    versions := versions s3 @ [byNamespace (apply_write (Write_Upsert (web_service ''a'' ''1'')) (index s3))]\<rparr>"
  have 1: "sys_step new_system s1" using sys_step.load [of new_system "[''shop'']"] by (simp add: s1_def new_system_def NewIndex_def)
  have 2: "sys_step s1 s2"
    using sys_step.memo [of 0 s1 0 "[''shop'']" 0 "[]" "[''shop'']" True "index s1"]
    by (simp add: s1_def s2_def new_system_def NewIndex_def memo_section_def)
  have 3: "sys_step s2 s3"
    using sys_step.upsert [of s2 "web_service ''a'' ''1''"]
    by (simp add: s1_def s2_def s3_def new_system_def NewIndex_def held_def get_map_def svc_unchangedLocked_def)
  have 4: "sys_step s3 s4" using sys_step.written [of s3] by (simp add: s3_def s4_def)
  let ?S = "sorted_services (byNamespace (index s4)) ''shop''"
  obtain found built where b: "build_lists (byNamespace (index s4)) [''shop''] [] = (found, built)" by fastforce
  define s5 where "s5 = s4\<lparr>index := (index s4)\<lparr>reads := reads (index s4) + 1\<rparr>, readers := [Storing 0 [''shop''] 0 found [''shop''] built]\<rparr>"
  define s6 where "s6 = s5\<lparr>index := store_section 0 [''shop''] built (index s5), readers := [Returned 0 [''shop''] found]\<rparr>"
  have r4: "readers s4 = [Building 0 [''shop''] 0 [] [''shop''] True]" "writer s4 = None" by (simp_all add: s4_def s3_def s2_def)
  have 5: "sys_step s4 s5"
    using sys_step.build [of 0 s4 0 "[''shop'']" 0 "[]" "[''shop'']" True found built] b by (simp add: r4 s5_def build_section_def)
  have 6: "sys_step s5 s6"
    using sys_step.store [of 0 s5 0 "[''shop'']" 0 found "[''shop'']" built] by (simp add: s5_def s6_def)
  have run: "sys_step\<^sup>*\<^sup>* new_system s6" using 1 2 3 4 5 6 by (meson rtranclp.rtrancl_into_rtrancl rtranclp.rtrancl_refl)
  have len: "length (versions s6) < 2 ^ 64" by (simp add: s6_def s5_def s4_def s3_def s2_def s1_def new_system_def)
  have mem: "Returned 0 [''shop''] found \<in> set (readers s6)" by (simp add: s6_def)
  from InNamespaces_concurrent [OF run len mem, of "''shop''"] run mem show ?thesis by auto
qed

end
