(* ===== verification/ScrapeTargets.thy ===== *)
theory ScrapeTargets
  imports Services "HOL-Library.While_Combinator"
begin

section \<open>Scrape targets (internal/scrape/targets.go)\<close>

text \<open>
  The derivation of scrape targets from a pod, from a Service that selects it and from the endpoint of
  a monitor: which ports are meant, what URL names a target, and the ceilings on how many there are.
  The code is pure, and a target is built by value. An \<^verbatim>\<open>int32\<close> is a 32-bit word read as signed.
\<close>

subsection \<open>Data\<close>

record RelabelRule =
  rr_Action :: string
  rr_SourceLabels :: "string list"
  rr_Regex :: string

record ScrapeAuth =
  sa_InsecureSkipVerify :: bool
  sa_AuthSecret :: string
  sa_BasicAuthUser :: string
  sa_BasicAuthPass :: string
  sa_AuthType :: string
  sa_AuthCredentials :: string
  sa_TLSCA :: string
  sa_TLSCert :: string
  sa_TLSKey :: string
  sa_TLSServerName :: string

definition zero_ScrapeAuth :: ScrapeAuth where
  "zero_ScrapeAuth = \<lparr>sa_InsecureSkipVerify = False, sa_AuthSecret = [], sa_BasicAuthUser = [], sa_BasicAuthPass = [],
     sa_AuthType = [], sa_AuthCredentials = [], sa_TLSCA = [], sa_TLSCert = [], sa_TLSKey = [], sa_TLSServerName = []\<rparr>"

text \<open>\<^verbatim>\<open>kubemeta.Service\<close>, the view of a Service that a target carries.\<close>
record ServiceView =
  sv_Name :: string
  sv_Namespace :: string
  sv_UID :: uid
  sv_Labels :: strmap
  sv_Annotations :: strmap

record ScrapeTarget =
  t_URL :: string
  t_Scheme :: string
  t_Address :: string
  t_Port :: i32
  t_Path :: string
  t_Source :: string
  t_Service :: "ServiceView option"
  t_Monitor :: string
  t_Monitors :: "string list"
  t_ScrapeAuth :: ScrapeAuth
  t_Interval :: string
  t_ScrapeTimeout :: string
  t_MetricRelabelings :: "RelabelRule list"
  t_Pod :: Pod

text \<open>\<^verbatim>\<open>servicemonitors.Endpoint\<close>.\<close>
record Endpoint =
  ep_Port :: string
  ep_TargetPort :: "IntOrString option"
  ep_Path :: string
  ep_Scheme :: string
  ep_ScrapeAuth :: ScrapeAuth
  ep_MetricRelabelings :: "RelabelRule list"
  ep_Interval :: string
  ep_ScrapeTimeout :: string
  ep_Ignored :: "string list"
  ep_Refused :: string

subsection \<open>Annotations\<close>

definition AnnotationScrape :: string where "AnnotationScrape = ''prometheus.io/scrape''"
definition AnnotationPath :: string where "AnnotationPath = ''prometheus.io/path''"
definition AnnotationPort :: string where "AnnotationPort = ''prometheus.io/port''"
definition AnnotationScheme :: string where "AnnotationScheme = ''prometheus.io/scheme''"

text \<open>A read of an absent key of a string map is the empty string.\<close>
definition string_at :: "strmap \<Rightarrow> string \<Rightarrow> string" where
  "string_at m k = (case get m k of None \<Rightarrow> [] | Some v \<Rightarrow> v)"

definition OptedIn :: "strmap \<Rightarrow> bool" where
  "OptedIn annotations \<longleftrightarrow> string_at annotations AnnotationScrape = ''true''"

definition portAnnotation :: "strmap \<Rightarrow> string \<times> bool" where
  "portAnnotation annotations =
     (case get annotations AnnotationPort of None \<Rightarrow> ([], False) | Some raw \<Rightarrow> (raw, TrimSpace raw \<noteq> []))"

definition MaxPortsPerPod :: nat where "MaxPortsPerPod = 16"
definition MaxTargetPathBytes :: nat where "MaxTargetPathBytes = 2048"

definition listEntries :: "string \<Rightarrow> string list" where
  "listEntries s = filter (\<lambda>part. part \<noteq> []) (map TrimSpace (Split '','' s))"

definition defaultSchemePath :: "string \<Rightarrow> string \<Rightarrow> (string \<times> string) option" where
  "defaultSchemePath scheme path =
     (if length path > MaxTargetPathBytes then None
      else (let scheme = (if scheme \<noteq> ''https'' then ''http'' else scheme);
                path = (if path = [] then ''/metrics'' else path);
                path = (if \<not> prefix ''/'' path then CHR ''/'' # path else path)
            in Some (scheme, path)))"

definition schemeAndPath :: "strmap \<Rightarrow> (string \<times> string) option" where
  "schemeAndPath annotations = defaultSchemePath (string_at annotations AnnotationScheme) (string_at annotations AnnotationPath)"

text \<open>
  \<^verbatim>\<open>strings.EqualFold\<close> against an ASCII word of the same byte length is a comparison up to ASCII case: a rune
  outside ASCII takes more than one byte, so that fewer runes than letters would be left.
\<close>
definition lower_ascii :: "char \<Rightarrow> char" where
  "lower_ascii c = (if of_char c \<in> {65..90::nat} then char_of (of_char c + 32 :: nat) else c)"

definition monitorScheme :: "string \<Rightarrow> string" where
  "monitorScheme scheme =
     (if length scheme = length ''https'' \<and> map lower_ascii scheme = ''https'' then ''https'' else scheme)"

subsection \<open>Which pods\<close>

type_synonym unscrapeable = "8 word"

definition unscrapeableNoIP :: unscrapeable where "unscrapeableNoIP = push_bit 0 1"
definition unscrapeableDeleted :: unscrapeable where "unscrapeableDeleted = push_bit 1 1"
definition unscrapeableTerminating :: unscrapeable where "unscrapeableTerminating = push_bit 2 1"
definition unscrapeableFinished :: unscrapeable where "unscrapeableFinished = push_bit 3 1"

unbundle bit_operations_syntax

definition unscrapeableReasons :: "Pod \<Rightarrow> unscrapeable" where
  "unscrapeableReasons pod =
     (let u = 0;
          u = (if pod_PodIP pod = [] then u OR unscrapeableNoIP else u);
          u = (if pod_DeletedAt pod \<noteq> None then u OR unscrapeableDeleted else u);
          u = (if pod_DeletionTimestamp pod \<noteq> None then u OR unscrapeableTerminating else u)
      in if FinishedPhase (pod_Phase pod) then u OR unscrapeableFinished else u)"

definition Scrapeable :: "Pod \<Rightarrow> bool" where
  "Scrapeable pod \<longleftrightarrow> unscrapeableReasons pod = 0"

subsection \<open>Ports\<close>

fun parse_digits :: "string \<Rightarrow> i32 \<Rightarrow> i32 option" where
  "parse_digits [] n = (if n <s 1 then None else Some n)"
| "parse_digits (c # s) n =
     (if of_char c < (48 :: nat) \<or> of_char c > (57 :: nat) then None
      else (let n = n * 10 + of_nat (of_char c - 48) in
            if 65535 <s n then None else parse_digits s n))"

definition parsePort :: "string \<Rightarrow> i32 option" where
  "parsePort entry =
     (if entry \<noteq> [] \<and> hd entry = CHR ''-'' then None
      else (let s = (if entry \<noteq> [] \<and> hd entry = CHR ''+'' then tl entry else entry) in
            if s = [] then None else parse_digits s 0))"

definition regularContainer :: "Container \<Rightarrow> bool" where
  "regularContainer c \<longleftrightarrow> ctr_Type c \<noteq> ''init'' \<and> ctr_Type c \<noteq> ''ephemeral''"

fun first_port :: "string \<Rightarrow> ContainerPort list \<Rightarrow> i32 option" where
  "first_port name [] = None"
| "first_port name (p # ps) = (if cp_Name p = name then Some (cp_Port p) else first_port name ps)"

fun port_in :: "Container list \<Rightarrow> string \<Rightarrow> bool \<Rightarrow> i32 option" where
  "port_in [] name regular = None"
| "port_in (c # cs) name regular =
     (if regularContainer c \<noteq> regular then port_in cs name regular
      else (case first_port name (ctr_Ports c) of Some p \<Rightarrow> Some p | None \<Rightarrow> port_in cs name regular))"

definition portByName :: "Pod \<Rightarrow> string \<Rightarrow> bool \<Rightarrow> i32 option" where
  "portByName pod name regular = port_in (pod_Containers pod) name regular"

definition containerPortByName :: "Pod \<Rightarrow> string \<Rightarrow> i32 option" where
  "containerPortByName pod name =
     (if name = [] then None
      else (case portByName pod name True of Some p \<Rightarrow> Some p | None \<Rightarrow> portByName pod name False))"

definition containerPortDeclarations :: "Pod \<Rightarrow> string \<Rightarrow> nat" where
  "containerPortDeclarations pod name =
     (if name = [] then 0
      else sum_list (map (\<lambda>c. length (filter (\<lambda>p. cp_Name p = name) (ctr_Ports c))) (pod_Containers pod)))"

definition monitorPortNumber :: "IntOrString \<Rightarrow> i32 option" where
  "monitorPortNumber tp =
     (case tp of StrVal s \<Rightarrow> parsePort s | IntVal n \<Rightarrow> if 1 \<le>s n \<and> n \<le>s 65535 then Some n else None)"

definition targetPortOnPod :: "Pod \<Rightarrow> IntOrString \<Rightarrow> i32 option" where
  "targetPortOnPod pod tp =
     (case monitorPortNumber tp of
        Some n \<Rightarrow> Some n
      | None \<Rightarrow> (case tp of IntVal _ \<Rightarrow> None | StrVal s \<Rightarrow> containerPortByName pod s))"

definition targetPodPort :: "Pod \<Rightarrow> Port \<Rightarrow> i32 option" where
  "targetPodPort pod sp =
     (if port_TargetPortName sp \<noteq> [] then containerPortByName pod (port_TargetPortName sp)
      else if port_TargetPortNum sp \<noteq> 0 then Some (port_TargetPortNum sp)
      else Some (port_Port sp))"

definition podMonitorPodPort :: "Pod \<Rightarrow> Endpoint \<Rightarrow> i32 option" where
  "podMonitorPodPort pod ep =
     (if ep_Port ep \<noteq> [] then containerPortByName pod (ep_Port ep)
      else (case ep_TargetPort ep of None \<Rightarrow> None | Some tp \<Rightarrow> targetPortOnPod pod tp))"

definition monitorPodPort :: "Pod \<Rightarrow> Service \<Rightarrow> Endpoint \<Rightarrow> i32 option" where
  "monitorPodPort pod svc ep =
     (if ep_Port ep = [] \<and> ep_TargetPort ep = None then None
      else if ep_Port ep \<noteq> []
      then (case find (\<lambda>sp. port_Name sp = ep_Port ep) (svc_Ports svc) of None \<Rightarrow> None | Some sp \<Rightarrow> targetPodPort pod sp)
      else targetPortOnPod pod (the (ep_TargetPort ep)))"

text \<open>The closure \<^verbatim>\<open>add\<close> of \<^verbatim>\<open>podPorts\<close>; its set \<^verbatim>\<open>seen\<close> is that of the ports added.\<close>
definition add_port :: "i32 list \<Rightarrow> i32 \<Rightarrow> i32 list" where
  "add_port ports p =
     (if p \<in> set ports \<or> p <s 1 \<or> 65535 <s p \<or> length ports \<ge> MaxPortsPerPod then ports else ports @ [p])"

fun port_entries :: "Pod \<Rightarrow> string list \<Rightarrow> i32 list \<Rightarrow> i32 list" where
  "port_entries pod [] ports = ports"
| "port_entries pod (entry # entries) ports =
     (if length ports \<ge> MaxPortsPerPod then ports
      else (case parsePort entry of
              Some n \<Rightarrow> port_entries pod entries (add_port ports n)
            | None \<Rightarrow>
                (case containerPortByName pod entry of
                   Some p \<Rightarrow> port_entries pod entries (add_port ports p)
                 | None \<Rightarrow> port_entries pod entries ports)))"

definition podPorts :: "Pod \<Rightarrow> i32 list" where
  "podPorts pod =
     (case portAnnotation (pod_Annotations pod) of
        (ann, explicit) \<Rightarrow>
          if \<not> explicit then foldl (\<lambda>ports c. foldl (\<lambda>ports p. add_port ports (cp_Port p)) ports (ctr_Ports c)) [] (pod_Containers pod)
          else port_entries pod (listEntries ann) [])"

subsubsection \<open>The ports of a Service\<close>

text \<open>An absent index is -1 in the chains; the maps are nil for a list that is scanned.\<close>
record servicePortIndex =
  ix_ports :: "Port list"
  ix_byName :: "(string, int) gomap option"
  ix_byNum :: "(i32, int) gomap"
  ix_nextName :: "int list"
  ix_nextNum :: "int list"

definition indexServicePortsOver :: nat where "indexServicePortsOver = 16"

text \<open>One iteration of the loop that builds the maps back to front.\<close>
fun index_port :: "Port list \<Rightarrow> nat \<Rightarrow> (string, int) gomap \<times> (i32, int) gomap \<times> int list \<times> int list \<Rightarrow>
    (string, int) gomap \<times> (i32, int) gomap \<times> int list \<times> int list" where
  "index_port ports i (names, nums, nextName, nextNum) =
     (let sp = ports ! i in
      (put (port_Name sp) (int i) names,
       put (port_Port sp) (int i) nums,
       nextName[i := (case get names (port_Name sp) of Some j \<Rightarrow> j | None \<Rightarrow> -1)],
       nextNum[i := (case get nums (port_Port sp) of Some j \<Rightarrow> j | None \<Rightarrow> -1)]))"

definition newServicePortIndex :: "Port list \<Rightarrow> servicePortIndex" where
  "newServicePortIndex ports =
     (if length ports \<le> indexServicePortsOver
      then \<lparr>ix_ports = ports, ix_byName = None, ix_byNum = [], ix_nextName = [], ix_nextNum = []\<rparr>
      else (case fold (index_port ports) (rev [0..<length ports])
                   ([], [], replicate (length ports) 0, replicate (length ports) 0) of
              (names, nums, nextName, nextNum) \<Rightarrow>
                \<lparr>ix_ports = ports, ix_byName = Some names, ix_byNum = nums, ix_nextName = nextName, ix_nextNum = nextNum\<rparr>))"

text \<open>The body of the loop that merges the two chains.\<close>
fun merge_body :: "int list \<Rightarrow> int list \<Rightarrow> int \<times> int \<times> int list \<Rightarrow> int \<times> int \<times> int list" where
  "merge_body nextName nextNum (a, b, dst) =
     (if b < 0 \<or> (a \<ge> 0 \<and> a < b) then (nextName ! nat a, b, dst @ [a])
      else if a < 0 \<or> b < a then (a, nextNum ! nat b, dst @ [b])
      else (nextName ! nat a, nextNum ! nat b, dst @ [a]))"

definition appendMatches :: "servicePortIndex \<Rightarrow> string \<Rightarrow> int list" where
  "appendMatches ix entry =
     (let numeric = parsePort entry in
      case ix_byName ix of
        None \<Rightarrow> map int (filter (\<lambda>i. port_Name (ix_ports ix ! i) = entry \<or> numeric = Some (port_Port (ix_ports ix ! i)))
                   [0..<length (ix_ports ix)])
      | Some names \<Rightarrow>
          (let a = (case get names entry of Some j \<Rightarrow> j | None \<Rightarrow> -1);
               b = (case numeric of None \<Rightarrow> -1 | Some n \<Rightarrow> (case get (ix_byNum ix) n of Some j \<Rightarrow> j | None \<Rightarrow> -1))
           in snd (snd (while (\<lambda>(a, b, dst). a \<ge> 0 \<or> b \<ge> 0) (merge_body (ix_nextName ix) (ix_nextNum ix)) (a, b, [])))))"

text \<open>The inner loop of \<^verbatim>\<open>selectServicePorts\<close>: the matches that are not picked yet.\<close>
fun pick :: "Port list \<Rightarrow> int list \<Rightarrow> bool list \<times> Port list \<Rightarrow> bool list \<times> Port list" where
  "pick ports [] st = st"
| "pick ports (i # is) (picked, out_ports) =
     (if \<not> picked ! nat i then pick ports is (picked[nat i := True], out_ports @ [ports ! nat i])
      else pick ports is (picked, out_ports))"

fun select_loop :: "servicePortIndex \<Rightarrow> Port list \<Rightarrow> string list \<Rightarrow> bool list \<times> Port list \<Rightarrow> Port list" where
  "select_loop ix ports [] st = snd st"
| "select_loop ix ports (entry # entries) st =
     (let st = pick ports (appendMatches ix entry) st in
      if length (snd st) = length ports then snd st else select_loop ix ports entries st)"

definition selectServicePorts :: "Service \<Rightarrow> Port list" where
  "selectServicePorts svc =
     (case portAnnotation (svc_Annotations svc) of
        (ann, explicit) \<Rightarrow>
          if \<not> explicit then svc_Ports svc
          else select_loop (newServicePortIndex (svc_Ports svc)) (svc_Ports svc) (listEntries ann)
                 (replicate (length (svc_Ports svc)) False, []))"

subsection \<open>Targets\<close>

text \<open>\<^verbatim>\<open>strconv.AppendInt\<close> in base ten.\<close>
definition FormatInt :: "i32 \<Rightarrow> string" where
  "FormatInt n = (if sint n < 0 then CHR ''-'' # Itoa (nat (- sint n)) else Itoa (nat (sint n)))"

definition appendTargetURL :: "string \<Rightarrow> string \<Rightarrow> i32 \<Rightarrow> string \<Rightarrow> string \<times> nat \<times> nat" where
  "appendTargetURL scheme ip port path =
     (let dst = scheme @ ''://'';
          from = length dst;
          dst = dst @ (if CHR '':'' \<in> set ip then ''['' @ ip @ '']'' else ip);
          dst = dst @ '':'' @ FormatInt port;
          to = length dst
      in (dst @ path, from, to))"

definition targetURL :: "Pod \<Rightarrow> string \<Rightarrow> string \<Rightarrow> i32 \<Rightarrow> string" where
  "targetURL pod scheme path port = fst (appendTargetURL scheme (pod_PodIP pod) port path)"

definition serviceInfo :: "Service \<Rightarrow> ServiceView" where
  "serviceInfo svc =
     \<lparr>sv_Name = svc_Name svc, sv_Namespace = svc_Namespace svc, sv_UID = svc_UID svc, sv_Labels = svc_Labels svc,
      sv_Annotations = svc_Annotations svc\<rparr>"

definition makeTarget :: "Pod \<Rightarrow> string \<Rightarrow> string \<Rightarrow> i32 \<Rightarrow> ScrapeTarget" where
  "makeTarget pod scheme path port =
     (case appendTargetURL scheme (pod_PodIP pod) port path of
        (url, from, to) \<Rightarrow>
          \<lparr>t_URL = url, t_Scheme = scheme, t_Address = take (to - from) (drop from url), t_Port = port, t_Path = path,
           t_Source = [], t_Service = None, t_Monitor = [], t_Monitors = [], t_ScrapeAuth = zero_ScrapeAuth,
           t_Interval = [], t_ScrapeTimeout = [], t_MetricRelabelings = [], t_Pod = pod\<rparr>)"

definition PodTargets :: "Pod \<Rightarrow> ScrapeTarget list" where
  "PodTargets pod =
     (if \<not> OptedIn (pod_Annotations pod) \<or> \<not> Scrapeable pod then []
      else (case schemeAndPath (pod_Annotations pod) of
              None \<Rightarrow> []
            | Some (scheme, path) \<Rightarrow> map (\<lambda>port. (makeTarget pod scheme path port)\<lparr>t_Source := ''pod''\<rparr>) (podPorts pod)))"

text \<open>The zero door is closed.\<close>
record ServiceDoor =
  door_open :: bool
  door_scheme :: string
  door_path :: string
  door_ports :: "Port list"
  door_info :: "ServiceView option"

definition closed_door :: ServiceDoor where
  "closed_door = \<lparr>door_open = False, door_scheme = [], door_path = [], door_ports = [], door_info = None\<rparr>"

definition NewServiceDoor :: "Service option \<Rightarrow> ServiceDoor" where
  "NewServiceDoor svc =
     (case svc of
        None \<Rightarrow> closed_door
      | Some s \<Rightarrow>
          if \<not> OptedIn (svc_Annotations s) then closed_door
          else (case schemeAndPath (svc_Annotations s) of
                  None \<Rightarrow> closed_door
                | Some (scheme, path) \<Rightarrow>
                    \<lparr>door_open = True, door_scheme = scheme, door_path = path, door_ports = selectServicePorts s,
                     door_info = Some (serviceInfo s)\<rparr>))"

fun door_loop :: "ServiceDoor \<Rightarrow> Pod \<Rightarrow> Port list \<Rightarrow> i32 list \<Rightarrow> ScrapeTarget list \<Rightarrow> ScrapeTarget list" where
  "door_loop d pod [] seen_ports targets = targets"
| "door_loop d pod (sp # sps) seen_ports targets =
     (if length targets \<ge> MaxPortsPerPod then targets
      else (case targetPodPort pod sp of
              None \<Rightarrow> door_loop d pod sps seen_ports targets
            | Some port \<Rightarrow>
                if port \<in> set seen_ports then door_loop d pod sps seen_ports targets
                else door_loop d pod sps (port # seen_ports)
                       (targets @ [(makeTarget pod (door_scheme d) (door_path d) port)\<lparr>t_Source := ''service'', t_Service := door_info d\<rparr>])))"

definition Door_Targets :: "ServiceDoor \<Rightarrow> Pod \<Rightarrow> ScrapeTarget list" where
  "Door_Targets d pod = (if \<not> door_open d \<or> \<not> Scrapeable pod then [] else door_loop d pod (door_ports d) [] [])"

definition ServiceTargets :: "Pod \<Rightarrow> Service option \<Rightarrow> ScrapeTarget list" where
  "ServiceTargets pod svc =
     (if svc = None \<or> \<not> Scrapeable pod then [] else Door_Targets (NewServiceDoor svc) pod)"

definition stampEndpoint :: "Endpoint \<Rightarrow> ScrapeTarget \<Rightarrow> ScrapeTarget" where
  "stampEndpoint ep t =
     t\<lparr>t_ScrapeAuth := ep_ScrapeAuth ep, t_Interval := ep_Interval ep, t_ScrapeTimeout := ep_ScrapeTimeout ep,
       t_MetricRelabelings := t_MetricRelabelings t @ ep_MetricRelabelings ep\<rparr>"

definition monitorEndpoint :: "Pod \<Rightarrow> Service option \<Rightarrow> Endpoint \<Rightarrow> (string \<times> string \<times> i32) option" where
  "monitorEndpoint pod svc ep =
     (case svc of
        None \<Rightarrow> None
      | Some s \<Rightarrow>
          if ep_Refused ep \<noteq> [] \<or> \<not> Scrapeable pod then None
          else (case monitorPodPort pod s ep of
                  None \<Rightarrow> None
                | Some port \<Rightarrow>
                    (case defaultSchemePath (monitorScheme (ep_Scheme ep)) (ep_Path ep) of
                       None \<Rightarrow> None
                     | Some (scheme, path) \<Rightarrow> Some (scheme, path, port))))"

definition MonitorTargets :: "Pod \<Rightarrow> Service option \<Rightarrow> string \<Rightarrow> Endpoint \<Rightarrow> ScrapeTarget list" where
  "MonitorTargets pod svc monitor ep =
     (case monitorEndpoint pod svc ep of
        None \<Rightarrow> []
      | Some (scheme, path, port) \<Rightarrow>
          [stampEndpoint ep ((makeTarget pod scheme path port)
             \<lparr>t_Source := ''servicemonitor'', t_Service := map_option serviceInfo svc, t_Monitor := monitor\<rparr>)])"

definition MonitorTargetURL :: "Pod \<Rightarrow> Service option \<Rightarrow> Endpoint \<Rightarrow> string option" where
  "MonitorTargetURL pod svc ep =
     (case monitorEndpoint pod svc ep of None \<Rightarrow> None | Some (scheme, path, port) \<Rightarrow> Some (targetURL pod scheme path port))"

definition podMonitorEndpoint :: "Pod \<Rightarrow> Endpoint \<Rightarrow> (string \<times> string \<times> i32) option" where
  "podMonitorEndpoint pod ep =
     (if ep_Refused ep \<noteq> [] \<or> \<not> Scrapeable pod then None
      else (case podMonitorPodPort pod ep of
              None \<Rightarrow> None
            | Some port \<Rightarrow>
                (case defaultSchemePath (monitorScheme (ep_Scheme ep)) (ep_Path ep) of
                   None \<Rightarrow> None
                 | Some (scheme, path) \<Rightarrow> Some (scheme, path, port))))"

definition PodMonitorTargets :: "Pod \<Rightarrow> string \<Rightarrow> Endpoint \<Rightarrow> ScrapeTarget list" where
  "PodMonitorTargets pod monitor ep =
     (case podMonitorEndpoint pod ep of
        None \<Rightarrow> []
      | Some (scheme, path, port) \<Rightarrow>
          [stampEndpoint ep ((makeTarget pod scheme path port)\<lparr>t_Source := ''podmonitor'', t_Monitor := monitor\<rparr>)])"

definition PodMonitorTargetURL :: "Pod \<Rightarrow> Endpoint \<Rightarrow> string option" where
  "PodMonitorTargetURL pod ep =
     (case podMonitorEndpoint pod ep of None \<Rightarrow> None | Some (scheme, path, port) \<Rightarrow> Some (targetURL pod scheme path port))"

subsection \<open>Reading a port number\<close>

fun dec_value :: "nat \<Rightarrow> string \<Rightarrow> nat" where
  "dec_value n [] = n"
| "dec_value n (c # s) = dec_value (n * 10 + (of_char c - 48)) s"

definition all_digits :: "string \<Rightarrow> bool" where
  "all_digits s \<longleftrightarrow> (\<forall>c \<in> set s. of_char c \<in> {48..57::nat})"

text \<open>\<^verbatim>\<open>strconv.ParseInt(s, 10, 32)\<close>: an optional sign, at least one digit, a value in the range of \<^verbatim>\<open>int32\<close>.\<close>
definition ParseInt32 :: "string \<Rightarrow> int option" where
  "ParseInt32 s =
     (let neg = (s \<noteq> [] \<and> hd s = CHR ''-'');
          digits = (if s \<noteq> [] \<and> (hd s = CHR ''+'' \<or> hd s = CHR ''-'') then tl s else s);
          v = (if neg then - int (dec_value 0 digits) else int (dec_value 0 digits))
      in if digits \<noteq> [] \<and> all_digits digits \<and> - (2 ^ 31) \<le> v \<and> v < 2 ^ 31 then Some v else None)"

lemma dec_value_mono: "n \<le> dec_value n s"
proof (induction s arbitrary: n)
  case (Cons c s)
  show ?case using Cons.IH [of "n * 10 + (of_char c - 48)"] by simp
qed simp

lemma sint_small: "unat (n :: i32) < 2 ^ 31 \<Longrightarrow> sint n = int (unat n)"
proof -
  assume "unat n < 2 ^ 31"
  then have "int (unat n) < 2 ^ 31" by (metis of_nat_less_iff of_nat_numeral of_nat_power)
  then have "signed_take_bit 31 (uint n) = uint n" using uint_ge_0 [of n] by (intro signed_take_bit_int_eq_self) (simp_all only: uint_nat)
  then show ?thesis by (simp add: sint_uint)
qed

lemma of_nat_unat_small: "v < 2 ^ 32 \<Longrightarrow> unat (of_nat v :: i32) = v"
  by (simp add: unat_of_nat)

lemma parse_digits_value:
  assumes "unat n \<le> 65535"
  shows "parse_digits s n =
    (if all_digits s \<and> 1 \<le> dec_value (unat n) s \<and> dec_value (unat n) s \<le> 65535 then Some (of_nat (dec_value (unat n) s)) else None)"
  using assms
proof (induction s arbitrary: n)
  case Nil
  have "sint n = int (unat n)" using Nil by (intro sint_small) simp
  moreover have "sint (1 :: i32) = 1" by simp
  ultimately have "n <s 1 \<longleftrightarrow> \<not> 1 \<le> unat n" unfolding word_sless_alt by linarith
  then show ?case using Nil by (simp add: all_digits_def)
next
  case (Cons c s)
  show ?case
  proof (cases "of_char c \<in> {48..57::nat}")
    case False
    then show ?thesis by (auto simp: all_digits_def)
  next
    case True
    let ?m = "n * 10 + of_nat (of_char c - 48)" and ?v = "unat n * 10 + (of_char c - 48 :: nat)"
    have "of_char c - 48 \<le> (9 :: nat)" using True unfolding atLeastAtMost_iff by linarith
    then have "?v \<le> 655359" using Cons.prems by linarith
    then have small: "?v < 2 ^ 31" by simp
    have m: "?m = of_nat ?v" by simp
    have "unat (of_nat ?v :: i32) = ?v" using small by (intro of_nat_unat_small) simp
    then have u: "unat ?m = ?v" unfolding m .
    then have s: "sint ?m = int ?v" using small sint_small [of ?m] by simp
    have k: "sint (65535 :: i32) = 65535" by simp
    have cmp: "65535 <s ?m \<longleftrightarrow> 65535 < ?v" unfolding word_sless_alt s k by linarith
    have d: "all_digits (c # s) = all_digits s" using True by (simp add: all_digits_def)
    show ?thesis
    proof (cases "?v \<le> 65535")
      case small: True
      then have "\<not> 65535 <s ?m" unfolding cmp by simp
      then have "parse_digits (c # s) n = parse_digits s ?m" using True by (simp add: Let_def not_less)
      then show ?thesis using Cons.IH [of ?m] u small d by simp
    next
      case False
      then have "65535 <s ?m" unfolding cmp by simp
      then have "parse_digits (c # s) n = None" using True by (simp add: Let_def)
      moreover have "dec_value (unat n) (c # s) > 65535" using False dec_value_mono [of ?v s] by simp
      ultimately show ?thesis by simp
    qed
  qed
qed

text \<open>
  The hand-written port parser accepts exactly what \<^verbatim>\<open>strconv.ParseInt\<close> to 32 bits and the range
  check 1 to 65535 accept, with the same value: no overflowing text is truncated to another port.
\<close>
theorem parsePort_ParseInt:
  "parsePort entry = (case ParseInt32 entry of Some v \<Rightarrow> if 1 \<le> v \<and> v \<le> 65535 then Some (word_of_int v) else None | None \<Rightarrow> None)"
proof -
  have pd: "parse_digits s 0 = (if all_digits s \<and> 1 \<le> dec_value 0 s \<and> dec_value 0 s \<le> 65535 then Some (of_nat (dec_value 0 s)) else None)" for s
    using parse_digits_value [of 0 s] by simp
  consider "entry = []" | "entry \<noteq> []" "hd entry = CHR ''-''" | "entry \<noteq> []" "hd entry = CHR ''+''"
    | "entry \<noteq> []" "hd entry \<noteq> CHR ''-''" "hd entry \<noteq> CHR ''+''" by blast
  then show ?thesis by cases (auto simp: parsePort_def ParseInt32_def Let_def pd of_nat_eq_iff)
qed

lemma dec_value_append: "dec_value n (s @ [c]) = dec_value n s * 10 + (of_char c - 48)"
  by (induction s arbitrary: n) simp_all

lemma dec_value_Itoa: "dec_value 0 (Itoa n) = n"
proof (induction n rule: less_induct)
  case (less n)
  show ?case
  proof (cases "n < 10")
    case True
    then show ?thesis by (simp add: Itoa.simps [of n])
  next
    case False
    then have "dec_value 0 (Itoa (n div 10)) = n div 10" by (intro less) simp
    then show ?thesis using False by (simp add: Itoa.simps [of n] dec_value_append)
  qed
qed

lemma Itoa_inj: "Itoa m = Itoa n \<longleftrightarrow> m = n"
  using dec_value_Itoa by metis

lemma FormatInt_inj: "FormatInt a = FormatInt b \<longleftrightarrow> a = b"
proof -
  have no: "CHR ''-'' \<notin> set (Itoa n)" for n using Itoa_digits [of "CHR ''-''" n] by auto
  have ne: "CHR ''-'' # s \<noteq> Itoa n" for s n using no [of n] by (metis list.set_intros(1))
  have "sint a = sint b" if "FormatInt a = FormatInt b"
    using that ne ne [symmetric] by (auto simp: FormatInt_def Itoa_inj split: if_splits)
  then show ?thesis using signed_word_eqI by blast
qed

lemma FormatInt_chars: "CHR ''/'' \<notin> set (FormatInt a)"
proof -
  have "CHR ''/'' \<notin> set (Itoa n)" for n using Itoa_digits [of "CHR ''/''" n] by auto
  then show ?thesis by (simp add: FormatInt_def)
qed

subsection \<open>The index of a Service's ports\<close>

text \<open>The next index from \<open>k\<close> on that satisfies \<open>P\<close>, or -1.\<close>
definition nxt :: "(nat \<Rightarrow> bool) \<Rightarrow> nat \<Rightarrow> nat \<Rightarrow> int" where
  "nxt P k n = (case find P [k..<n] of Some j \<Rightarrow> int j | None \<Rightarrow> -1)"

lemma find_upt_Some: "find P [k..<n] = Some j \<longleftrightarrow> k \<le> j \<and> j < n \<and> P j \<and> (\<forall>i. k \<le> i \<and> i < j \<longrightarrow> \<not> P i)"
proof (induction "n - k" arbitrary: k)
  case (Suc d)
  then have kn: "[k..<n] = k # [Suc k..<n]" "d = n - Suc k" "k < n" by (simp_all add: upt_conv_Cons)
  show ?case unfolding kn(1) using Suc.hyps(1) [OF kn(2)] kn(3)
    by (auto simp: less_Suc_eq_le not_less_eq_eq) (metis Suc_leI le_neq_implies_less)+
qed (auto simp: le_less_trans)

lemma find_upt_None: "find P [k..<n] = None \<longleftrightarrow> (\<forall>i. k \<le> i \<and> i < n \<longrightarrow> \<not> P i)"
  by (auto simp: find_None_iff)

lemma nxt_neg: "nxt P k n < 0 \<longleftrightarrow> (\<forall>i. k \<le> i \<and> i < n \<longrightarrow> \<not> P i)"
  by (auto simp: nxt_def find_upt_None [symmetric] split: option.split)

lemma nxt_int: "nxt P k n = int j \<longleftrightarrow> k \<le> j \<and> j < n \<and> P j \<and> (\<forall>i. k \<le> i \<and> i < j \<longrightarrow> \<not> P i)"
  unfolding find_upt_Some [symmetric] by (auto simp: nxt_def split: option.split)

lemma nxt_cases:
  obtains (none) "nxt P k n < 0" "\<And>i. k \<le> i \<Longrightarrow> i < n \<Longrightarrow> \<not> P i"
  | (some) j where "nxt P k n = int j" "k \<le> j" "j < n" "P j" "\<And>i. k \<le> i \<Longrightarrow> i < j \<Longrightarrow> \<not> P i"
proof (cases "nxt P k n < 0")
  case True
  then show thesis using none nxt_neg [of P k n] by blast
next
  case False
  then obtain j where "nxt P k n = int j" using nonneg_int_cases by (metis not_less)
  then show thesis using some nxt_int [of P k n j] by blast
qed

lemma nxt_skip:
  assumes "k \<le> k'" "\<And>i. k \<le> i \<Longrightarrow> i < k' \<Longrightarrow> i < n \<Longrightarrow> \<not> P i"
  shows "nxt P k n = nxt P k' n"
proof (cases rule: nxt_cases [of P k n])
  case none
  then have "nxt P k' n < 0" using assms(1) nxt_neg by (meson order_trans)
  with none(1) show ?thesis by (auto simp: nxt_def split: option.splits)
next
  case (some j)
  then have "nxt P k' n = int j" using assms unfolding nxt_int by (meson not_less order_trans)
  with some(1) show ?thesis by simp
qed

text \<open>What the maps and the chains say once the ports from \<open>k\<close> on are in.\<close>
lemma index_ports:
  assumes "k \<le> length ports"
  shows "\<exists>names nums nn nm. fold (index_port ports) (rev [k..<length ports]) ([], [], replicate (length ports) 0, replicate (length ports) 0) = (names, nums, nn, nm) \<and>
    (\<forall>x. get names x = map_option int (find (\<lambda>i. port_Name (ports ! i) = x) [k..<length ports])) \<and>
    (\<forall>x. get nums x = map_option int (find (\<lambda>i. port_Port (ports ! i) = x) [k..<length ports])) \<and>
    length nn = length ports \<and> length nm = length ports \<and>
    (\<forall>i. k \<le> i \<and> i < length ports \<longrightarrow> nn ! i = nxt (\<lambda>j. port_Name (ports ! j) = port_Name (ports ! i)) (Suc i) (length ports)) \<and>
    (\<forall>i. k \<le> i \<and> i < length ports \<longrightarrow> nm ! i = nxt (\<lambda>j. port_Port (ports ! j) = port_Port (ports ! i)) (Suc i) (length ports))"
  using assms
proof (induction rule: inc_induct)
  case base
  show ?case by simp
next
  case (step k)
  let ?n = "length ports" and ?sp = "ports ! k"
  obtain names nums nn nm where f: "fold (index_port ports) (rev [Suc k..<?n]) ([], [], replicate ?n 0, replicate ?n 0) = (names, nums, nn, nm)"
    and names: "\<And>x. get names x = map_option int (find (\<lambda>i. port_Name (ports ! i) = x) [Suc k..<?n])"
    and nums: "\<And>x. get nums x = map_option int (find (\<lambda>i. port_Port (ports ! i) = x) [Suc k..<?n])"
    and len: "length nn = ?n" "length nm = ?n"
    and nn: "\<And>i. Suc k \<le> i \<Longrightarrow> i < ?n \<Longrightarrow> nn ! i = nxt (\<lambda>j. port_Name (ports ! j) = port_Name (ports ! i)) (Suc i) ?n"
    and nm: "\<And>i. Suc k \<le> i \<Longrightarrow> i < ?n \<Longrightarrow> nm ! i = nxt (\<lambda>j. port_Port (ports ! j) = port_Port (ports ! i)) (Suc i) ?n"
    using step.IH by blast
  have upt: "[k..<?n] = k # [Suc k..<?n]" using step.hyps by (simp add: upt_conv_Cons)
  have a: "(case get names (port_Name ?sp) of Some j \<Rightarrow> j | None \<Rightarrow> -1) = nxt (\<lambda>j. port_Name (ports ! j) = port_Name ?sp) (Suc k) ?n"
    by (simp add: names nxt_def split: option.split)
  have b: "(case get nums (port_Port ?sp) of Some j \<Rightarrow> j | None \<Rightarrow> -1) = nxt (\<lambda>j. port_Port (ports ! j) = port_Port ?sp) (Suc k) ?n"
    by (simp add: nums nxt_def split: option.split)
  let ?nn = "nn[k := nxt (\<lambda>j. port_Name (ports ! j) = port_Name ?sp) (Suc k) ?n]"
  let ?nm = "nm[k := nxt (\<lambda>j. port_Port (ports ! j) = port_Port ?sp) (Suc k) ?n]"
  have g: "fold (index_port ports) (rev [k..<?n]) ([], [], replicate ?n 0, replicate ?n 0) =
      (put (port_Name ?sp) (int k) names, put (port_Port ?sp) (int k) nums, ?nn, ?nm)"
    by (simp add: upt f a b Let_def del: upt_Suc)
  have "\<forall>x. get (put (port_Name ?sp) (int k) names) x = map_option int (find (\<lambda>i. port_Name (ports ! i) = x) [k..<?n])"
    by (simp add: upt names)
  moreover have "\<forall>x. get (put (port_Port ?sp) (int k) nums) x = map_option int (find (\<lambda>i. port_Port (ports ! i) = x) [k..<?n])"
    by (simp add: upt nums)
  moreover have "\<forall>i. k \<le> i \<and> i < ?n \<longrightarrow> ?nn ! i = nxt (\<lambda>j. port_Name (ports ! j) = port_Name (ports ! i)) (Suc i) ?n"
    using nn len by (simp add: nth_list_update)
  moreover have "\<forall>i. k \<le> i \<and> i < ?n \<longrightarrow> ?nm ! i = nxt (\<lambda>j. port_Port (ports ! j) = port_Port (ports ! i)) (Suc i) ?n"
    using nm len by (simp add: nth_list_update)
  moreover have "length ?nn = ?n" "length ?nm = ?n" using len by simp_all
  ultimately show ?case using g by blast
qed

lemma upt_split: "k \<le> n \<Longrightarrow> [0..<n] = [0..<k] @ [k..<n]"
  by (metis le_add_diff_inverse upt_add_eq_append zero_le)

lemma filter_upt_skip:
  assumes "k \<le> j" "\<And>i. k \<le> i \<Longrightarrow> i < j \<Longrightarrow> \<not> R i" "R j"
  shows "filter R [0..<Suc j] = filter R [0..<k] @ [j]"
proof -
  have "[0..<Suc j] = [0..<k] @ [k..<j] @ [j]" using assms(1) upt_split [of k j] by simp
  moreover have "filter R [k..<j] = []" using assms(2) by (simp add: filter_empty_conv)
  ultimately show ?thesis using assms(3) by simp
qed

text \<open>One step of the merge takes the next port that satisfies one or the other predicate.\<close>
lemma merge_step:
  assumes nn: "\<And>i. i < n \<Longrightarrow> P i \<Longrightarrow> nn ! i = nxt P (Suc i) n" and nm: "\<And>i. i < n \<Longrightarrow> Q i \<Longrightarrow> nm ! i = nxt Q (Suc i) n"
    and more: "nxt P p n \<ge> 0 \<or> nxt Q p n \<ge> 0"
  obtains j where "p \<le> j" "j < n" "P j \<or> Q j" "\<And>i. p \<le> i \<Longrightarrow> i < j \<Longrightarrow> \<not> (P i \<or> Q i)"
    "merge_body nn nm (nxt P p n, nxt Q p n, dst) = (nxt P (Suc j) n, nxt Q (Suc j) n, dst @ [int j])"
proof (cases rule: nxt_cases [of P p n])
  case P: none
  then obtain j where j: "nxt Q p n = int j" "p \<le> j" "j < n" "Q j" "\<And>i. p \<le> i \<Longrightarrow> i < j \<Longrightarrow> \<not> Q i"
    using more by (cases rule: nxt_cases [of Q p n]) auto
  have "nxt P p n = nxt P (Suc j) n" by (rule nxt_skip) (use P j in auto)
  then show thesis using that [of j] P j nm [OF j(3,4)] by auto
next
  case P: (some i)
  show thesis
  proof (cases rule: nxt_cases [of Q p n])
    case Q: none
    have "nxt Q p n = nxt Q (Suc i) n" by (rule nxt_skip) (use P Q in auto)
    then show thesis using that [of i] P Q nn [OF P(3,4)] by auto
  next
    case Q: (some j)
    consider "i < j" | "j < i" | "i = j" by linarith
    then show thesis
    proof cases
      case 1
      have "nxt Q p n = nxt Q (Suc i) n" by (rule nxt_skip) (use P Q 1 in auto)
      then show thesis using that [of i] P Q 1 nn [OF P(3,4)] by auto
    next
      case 2
      have "nxt P p n = nxt P (Suc j) n" by (rule nxt_skip) (use P Q 2 in auto)
      then show thesis using that [of j] P Q 2 nm [OF Q(3,4)] by auto
    next
      case 3
      then show thesis using that [of i] P Q nn [OF P(3,4)] nm [OF Q(3,4)] by auto
    qed
  qed
qed

text \<open>The merge visits the ports that satisfy one or the other predicate, in order.\<close>
lemma merge_chains:
  assumes nn: "\<And>i. i < n \<Longrightarrow> P i \<Longrightarrow> nn ! i = nxt P (Suc i) n" and nm: "\<And>i. i < n \<Longrightarrow> Q i \<Longrightarrow> nm ! i = nxt Q (Suc i) n"
  shows "snd (snd (while (\<lambda>(a, b, dst). a \<ge> 0 \<or> b \<ge> 0) (merge_body nn nm) (nxt P 0 n, nxt Q 0 n, []))) = map int (filter (\<lambda>i. P i \<or> Q i) [0..<n])"
proof -
  let ?R = "\<lambda>i. P i \<or> Q i"
  define I where "I st \<longleftrightarrow> (\<exists>p. p \<le> n \<and> st = (nxt P p n, nxt Q p n, map int (filter ?R [0..<p])))" for st
  have step: "I (merge_body nn nm st) \<and> (merge_body nn nm st, st) \<in> measure (\<lambda>st. n - length (snd (snd st)))"
    if st: "I st" and more: "(\<lambda>(a, b, dst). a \<ge> 0 \<or> b \<ge> 0) st" for st
  proof -
    obtain p where p: "p \<le> n" "st = (nxt P p n, nxt Q p n, map int (filter ?R [0..<p]))" using st I_def by auto
    then have "nxt P p n \<ge> 0 \<or> nxt Q p n \<ge> 0" using more by simp
    from merge_step [OF nn nm this, of "map int (filter ?R [0..<p])"] obtain j where j: "p \<le> j" "j < n" "?R j"
      "\<And>i. p \<le> i \<Longrightarrow> i < j \<Longrightarrow> \<not> ?R i"
      "merge_body nn nm st = (nxt P (Suc j) n, nxt Q (Suc j) n, map int (filter ?R [0..<p]) @ [int j])"
      unfolding p(2) by blast
    have dst: "map int (filter ?R [0..<p]) @ [int j] = map int (filter ?R [0..<Suc j])"
      using filter_upt_skip [of p j ?R] j(1,3,4) by (simp del: upt_Suc)
    have "I (merge_body nn nm st)" unfolding I_def by (rule exI [of _ "Suc j"]) (use j(2,5) dst in \<open>simp del: upt_Suc\<close>)
    moreover have "length (filter ?R [0..<p]) < n" using length_filter_le [of ?R "[0..<p]"] j(1,2) by simp
    moreover have "length (snd (snd (merge_body nn nm st))) = Suc (length (filter ?R [0..<p]))" "length (snd (snd st)) = length (filter ?R [0..<p])"
      by (simp only: j(5) snd_conv length_append_singleton length_map) (simp add: p(2))
    ultimately show ?thesis by simp
  qed
  show ?thesis
  proof (rule while_rule [where P = I and r = "measure (\<lambda>st. n - length (snd (snd st)))"])
    show "I (nxt P 0 n, nxt Q 0 n, [])" unfolding I_def by auto
  next
    fix st assume st: "I st" "\<not> (\<lambda>(a, b, dst). a \<ge> 0 \<or> b \<ge> 0) st"
    then obtain p where p: "p \<le> n" "st = (nxt P p n, nxt Q p n, map int (filter ?R [0..<p]))" using I_def by auto
    then have "nxt P p n < 0" "nxt Q p n < 0" using st(2) by simp_all
    then have "filter ?R [p..<n] = []" by (auto simp: nxt_neg filter_empty_conv)
    then show "snd (snd st) = map int (filter ?R [0..<n])" using p upt_split [OF p(1)] by simp
  qed (use step in auto)
qed

text \<open>The ports an entry of the annotation names, by scanning the list.\<close>
definition names_port :: "string \<Rightarrow> Port \<Rightarrow> bool" where
  "names_port entry sp \<longleftrightarrow> port_Name sp = entry \<or> parsePort entry = Some (port_Port sp)"

definition scan :: "Port list \<Rightarrow> string \<Rightarrow> nat list" where
  "scan ports entry = filter (\<lambda>i. names_port entry (ports ! i)) [0..<length ports]"

lemma appendMatches_scan: "appendMatches (newServicePortIndex ports) entry = map int (scan ports entry)"
proof (cases "length ports \<le> indexServicePortsOver")
  case True
  then show ?thesis by (simp add: newServicePortIndex_def appendMatches_def scan_def names_port_def)
next
  case False
  let ?n = "length ports"
  let ?P = "\<lambda>i. port_Name (ports ! i) = entry" and ?Q = "\<lambda>i. parsePort entry = Some (port_Port (ports ! i))"
  obtain names nums nn nm where f: "fold (index_port ports) (rev [0..<?n]) ([], [], replicate ?n 0, replicate ?n 0) = (names, nums, nn, nm)"
    and names: "\<And>x. get names x = map_option int (find (\<lambda>i. port_Name (ports ! i) = x) [0..<?n])"
    and nums: "\<And>x. get nums x = map_option int (find (\<lambda>i. port_Port (ports ! i) = x) [0..<?n])"
    and nn: "\<And>i. i < ?n \<Longrightarrow> nn ! i = nxt (\<lambda>j. port_Name (ports ! j) = port_Name (ports ! i)) (Suc i) ?n"
    and nm: "\<And>i. i < ?n \<Longrightarrow> nm ! i = nxt (\<lambda>j. port_Port (ports ! j) = port_Port (ports ! i)) (Suc i) ?n"
    using index_ports [of 0 ports] by auto
  have ix: "newServicePortIndex ports = \<lparr>ix_ports = ports, ix_byName = Some names, ix_byNum = nums, ix_nextName = nn, ix_nextNum = nm\<rparr>"
    using False f by (simp add: newServicePortIndex_def)
  have a: "(case get names entry of Some j \<Rightarrow> j | None \<Rightarrow> -1) = nxt ?P 0 ?n"
    by (simp add: names nxt_def split: option.split)
  have b: "(case parsePort entry of None \<Rightarrow> -1 | Some x \<Rightarrow> (case get nums x of Some j \<Rightarrow> j | None \<Rightarrow> -1)) = nxt ?Q 0 ?n"
  proof (cases "parsePort entry")
    case None
    then have "find ?Q [0..<?n] = None" by (simp add: find_None_iff)
    with None show ?thesis by (simp add: nxt_def)
  next
    case (Some x)
    have "?Q = (\<lambda>i. port_Port (ports ! i) = x)" using Some by auto
    then show ?thesis using Some by (simp add: nums nxt_def split: option.split)
  qed
  have "snd (snd (while (\<lambda>(a, b, dst). a \<ge> 0 \<or> b \<ge> 0) (merge_body nn nm) (nxt ?P 0 ?n, nxt ?Q 0 ?n, []))) =
      map int (filter (\<lambda>i. ?P i \<or> ?Q i) [0..<?n])"
  proof (rule merge_chains)
    fix i assume i: "i < ?n"
    show "nn ! i = nxt ?P (Suc i) ?n" if "?P i" using nn [OF i] that by simp
    show "nm ! i = nxt ?Q (Suc i) ?n" if "?Q i"
    proof -
      have "(\<lambda>j. port_Port (ports ! j) = port_Port (ports ! i)) = ?Q" using that by auto
      then show ?thesis using nm [OF i] by simp
    qed
  qed
  then show ?thesis
    unfolding appendMatches_def ix Let_def servicePortIndex.simps option.simps a b scan_def names_port_def by simp
qed

subsubsection \<open>Each port once\<close>

definition add_new :: "'a list \<Rightarrow> 'a \<Rightarrow> 'a list" where
  "add_new xs x = (if x \<in> set xs then xs else xs @ [x])"

text \<open>The elements of a list, each where it first occurs.\<close>
definition first_seen :: "'a list \<Rightarrow> 'a list" where
  "first_seen xs = foldl add_new [] xs"

lemma foldl_add_new_set: "set (foldl add_new acc xs) = set acc \<union> set xs"
  by (induction xs arbitrary: acc) (auto simp: add_new_def)

lemma foldl_add_new_distinct: "distinct acc \<Longrightarrow> distinct (foldl add_new acc xs)"
  by (induction xs arbitrary: acc) (auto simp: add_new_def)

lemma foldl_add_new_idle: "set xs \<subseteq> set acc \<Longrightarrow> foldl add_new acc xs = acc"
  by (induction xs) (auto simp: add_new_def)

lemma first_seen_facts: "distinct (first_seen xs)" "set (first_seen xs) = set xs"
  by (simp_all add: first_seen_def foldl_add_new_set foldl_add_new_distinct)

lemma foldl_add_new_prefix: "\<exists>ys. foldl add_new acc xs = acc @ ys"
proof (induction xs arbitrary: acc)
  case (Cons x xs)
  obtain ys where "foldl add_new (add_new acc x) xs = add_new acc x @ ys" using Cons.IH by blast
  then show ?case by (auto simp: add_new_def [of acc x] split: if_splits)
qed simp

text \<open>Mapping and dropping elements before or after taking first occurrences makes no difference.\<close>
lemma first_seen_map:
  "foldl add_new acc (List.map_filter f (foldl add_new is xs)) = foldl add_new (foldl add_new acc (List.map_filter f is)) (List.map_filter f xs)"
proof (induction xs arbitrary: "is")
  case (Cons x xs)
  have one: "foldl add_new (foldl add_new acc (List.map_filter f is)) (List.map_filter f (x # xs)) =
      foldl add_new (foldl add_new acc (List.map_filter f (add_new is x))) (List.map_filter f xs)"
  proof (cases "f x")
    case None
    then have "List.map_filter f (add_new is x) = List.map_filter f is" by (simp add: add_new_def List.map_filter_def)
    then show ?thesis using None by (simp add: List.map_filter_def)
  next
    case (Some y)
    show ?thesis
    proof (cases "x \<in> set is")
      case True
      then have "y \<in> set (foldl add_new acc (List.map_filter f is))"
        using Some by (force simp: foldl_add_new_set List.map_filter_def)
      then show ?thesis using True Some by (simp add: add_new_def [of _ y] add_new_def [of "is"] List.map_filter_def)
    next
      case False
      then show ?thesis using Some by (simp add: add_new_def [of "is"] List.map_filter_def)
    qed
  qed
  show ?case unfolding one using Cons.IH [of "add_new is x"] by simp
qed simp

lemma pick_seen:
  assumes "\<forall>i \<in> set is. i < length ports"
  shows "pick ports (map int is) (map (\<lambda>i. i \<in> set L) [0..<length ports], map ((!) ports) L) =
    (map (\<lambda>i. i \<in> set (foldl add_new L is)) [0..<length ports], map ((!) ports) (foldl add_new L is))"
  using assms
proof (induction "is" arbitrary: L)
  case (Cons i "is")
  have upd: "(map (\<lambda>i. i \<in> set L) [0..<length ports])[i := True] = map (\<lambda>j. j \<in> set (L @ [i])) [0..<length ports]"
    using Cons.prems by (intro nth_equalityI) (auto simp: nth_list_update)
  show ?case using Cons.IH [of L] Cons.IH [of "L @ [i]"] Cons.prems upd
    by (cases "i \<in> set L") (simp_all add: add_new_def)
qed simp

lemma select_loop_seen:
  assumes "\<forall>i \<in> set L. i < length ports" "distinct L"
  shows "select_loop (newServicePortIndex ports) ports entries (map (\<lambda>i. i \<in> set L) [0..<length ports], map ((!) ports) L) =
    map ((!) ports) (foldl add_new L (concat (map (scan ports) entries)))"
  using assms
proof (induction entries arbitrary: L)
  case (Cons e es)
  let ?L = "foldl add_new L (scan ports e)"
  have in_range: "\<forall>i \<in> set (scan ports e). i < length ports" for e by (auto simp: scan_def)
  note p = pick_seen [OF in_range [of e], of L]
  have L: "\<forall>i \<in> set ?L. i < length ports" "distinct ?L"
    using Cons.prems in_range by (auto simp: foldl_add_new_set foldl_add_new_distinct)
  show ?case
  proof (cases "length ?L = length ports")
    case True
    have "set ?L = {..<length ports}"
      using L True by (intro card_subset_eq) (auto simp: distinct_card)
    then have "foldl add_new ?L (concat (map (scan ports) es)) = ?L"
      using in_range by (intro foldl_add_new_idle) auto
    then show ?thesis using True by (simp add: Let_def appendMatches_scan p)
  next
    case False
    then show ?thesis using Cons.IH [OF L] by (simp add: Let_def appendMatches_scan p)
  qed
qed simp

lemma selectServicePorts_seen:
  assumes "portAnnotation (svc_Annotations svc) = (ann, True)"
  shows "selectServicePorts svc = map ((!) (svc_Ports svc)) (first_seen (concat (map (scan (svc_Ports svc)) (listEntries ann))))"
proof -
  have r: "replicate (length (svc_Ports svc)) False = map (\<lambda>i. i \<in> set []) [0..<length (svc_Ports svc)]"
    by (simp add: map_replicate_const)
  show ?thesis unfolding selectServicePorts_def assms first_seen_def r
    using select_loop_seen [of "[]" "svc_Ports svc" "listEntries ann"] by simp
qed

subsection \<open>What the doors derive\<close>

subsubsection \<open>The pod's own annotations\<close>

definition valid_port :: "i32 \<Rightarrow> bool" where
  "valid_port p \<longleftrightarrow> \<not> (p <s 1 \<or> 65535 <s p)"

text \<open>The ports a pod asks for, in order and with repetitions.\<close>
definition resolve_entry :: "Pod \<Rightarrow> string \<Rightarrow> i32 option" where
  "resolve_entry pod entry = (case parsePort entry of Some n \<Rightarrow> Some n | None \<Rightarrow> containerPortByName pod entry)"

definition wanted_ports :: "Pod \<Rightarrow> i32 list" where
  "wanted_ports pod =
     (case portAnnotation (pod_Annotations pod) of
        (ann, explicit) \<Rightarrow> if explicit then List.map_filter (resolve_entry pod) (listEntries ann)
                           else concat (map (\<lambda>c. map cp_Port (ctr_Ports c)) (pod_Containers pod)))"

lemma take_full: "length ps = n \<Longrightarrow> take n (foldl add_new ps xs) = ps"
  using foldl_add_new_prefix [of ps xs] by auto

lemma foldl_add_port:
  "length ps \<le> MaxPortsPerPod \<Longrightarrow> foldl add_port ps xs = take MaxPortsPerPod (foldl add_new ps (filter valid_port xs))"
proof (induction xs arbitrary: ps)
  case (Cons x xs)
  consider "length ps = MaxPortsPerPod" | "length ps < MaxPortsPerPod" using Cons.prems by linarith
  then show ?case
  proof cases
    case 1
    then have "add_port ps x = ps" by (simp add: add_port_def)
    then show ?thesis using Cons.IH [OF Cons.prems] 1 by (simp add: take_full)
  next
    case 2
    then have one: "add_port ps x = (if valid_port x then add_new ps x else ps)"
      by (auto simp: add_port_def add_new_def valid_port_def)
    then have "length (add_port ps x) \<le> MaxPortsPerPod" using 2 by (simp add: add_new_def)
    from Cons.IH [OF this] one show ?thesis by simp
  qed
qed simp

lemma port_entries_foldl:
  "length ps \<le> MaxPortsPerPod \<Longrightarrow> port_entries pod es ps = foldl add_port ps (List.map_filter (resolve_entry pod) es)"
proof (induction es arbitrary: ps)
  case (Cons e es)
  have len: "length (add_port ps p) \<le> MaxPortsPerPod" for p using Cons.prems by (simp add: add_port_def)
  have full: "foldl add_port ps xs = ps" if "length ps \<ge> MaxPortsPerPod" for xs
    using that by (induction xs) (simp_all add: add_port_def)
  show ?case
  proof (cases "length ps \<ge> MaxPortsPerPod")
    case True
    then show ?thesis using full by simp
  next
    case False
    then show ?thesis using Cons.IH [OF Cons.prems] Cons.IH [OF len]
      by (simp add: resolve_entry_def List.map_filter_def split: option.split)
  qed
qed (simp add: List.map_filter_def)

lemma podPorts_reference: "podPorts pod = take MaxPortsPerPod (first_seen (filter valid_port (wanted_ports pod)))"
proof -
  obtain ann explicit where pa: "portAnnotation (pod_Annotations pod) = (ann, explicit)" by fastforce
  have nest: "foldl (\<lambda>ports c. foldl (\<lambda>ports p. add_port ports (cp_Port p)) ports (ctr_Ports c)) ps cs =
      foldl add_port ps (concat (map (\<lambda>c. map cp_Port (ctr_Ports c)) cs))" for ps and cs :: "Container list"
    by (induction cs arbitrary: ps) (simp_all add: foldl_map)
  have "podPorts pod = foldl add_port [] (wanted_ports pod)"
    by (simp add: podPorts_def wanted_ports_def pa nest port_entries_foldl)
  then show ?thesis by (simp add: foldl_add_port first_seen_def)
qed

lemma PodTargets_eq:
  "PodTargets pod =
     (if OptedIn (pod_Annotations pod) \<and> Scrapeable pod
      then (case schemeAndPath (pod_Annotations pod) of None \<Rightarrow> []
            | Some (scheme, path) \<Rightarrow> map (\<lambda>port. (makeTarget pod scheme path port)\<lparr>t_Source := ''pod''\<rparr>)
                (take MaxPortsPerPod (first_seen (filter valid_port (wanted_ports pod)))))
      else [])"
  by (simp add: PodTargets_def podPorts_reference split: option.split)

text \<open>
  C18. The targets of an annotated pod: the ports its annotation asks for, or all it declares, in that
  order, each valid port once and at most sixteen; none for a pod that does not opt in, cannot be
  scraped or asks for an overlong path.
\<close>
theorem PodTargets_reference:
  "PodTargets pod =
     (if OptedIn (pod_Annotations pod) \<and> Scrapeable pod
      then (case schemeAndPath (pod_Annotations pod) of None \<Rightarrow> []
            | Some (scheme, path) \<Rightarrow> map (\<lambda>port. (makeTarget pod scheme path port)\<lparr>t_Source := ''pod''\<rparr>)
                (take MaxPortsPerPod (first_seen (filter valid_port (wanted_ports pod)))))
      else [])"
  by (rule PodTargets_eq)

subsubsection \<open>The annotations of a Service\<close>

text \<open>The service ports an annotation asks for, by the nested loop over entries and ports.\<close>
definition wanted_service_ports :: "Service \<Rightarrow> Port list" where
  "wanted_service_ports svc =
     (case portAnnotation (svc_Annotations svc) of
        (ann, explicit) \<Rightarrow> if explicit then concat (map (\<lambda>e. filter (names_port e) (svc_Ports svc)) (listEntries ann))
                           else svc_Ports svc)"

lemma scan_nth: "map ((!) ports) (scan ports e) = filter (names_port e) ports"
  unfolding scan_def using filter_map [of "names_port e" "(!) ports" "[0..<length ports]"]
  by (simp add: map_nth comp_def)

lemma map_filter_map: "List.map_filter f (map g xs) = List.map_filter (f \<circ> g) xs"
  by (induction xs) (simp_all add: List.map_filter_def)

lemma select_resolved:
  "first_seen (List.map_filter f (selectServicePorts svc)) = first_seen (List.map_filter f (wanted_service_ports svc))"
proof -
  obtain ann explicit where pa: "portAnnotation (svc_Annotations svc) = (ann, explicit)" by fastforce
  show ?thesis
  proof (cases explicit)
    case False
    then show ?thesis by (simp add: selectServicePorts_def wanted_service_ports_def pa)
  next
    case True
    let ?ports = "svc_Ports svc" and ?xs = "concat (map (scan (svc_Ports svc)) (listEntries ann))"
    have "first_seen (List.map_filter f (selectServicePorts svc)) = foldl add_new [] (List.map_filter (f \<circ> (!) ?ports) (foldl add_new [] ?xs))"
      using selectServicePorts_seen [of svc ann] pa True by (simp add: map_filter_map first_seen_def)
    also have "\<dots> = foldl add_new [] (List.map_filter (f \<circ> (!) ?ports) ?xs)"
      using first_seen_map [of "[]" "f \<circ> (!) ?ports" "[]" ?xs] by (simp add: List.map_filter_def)
    also have "List.map_filter (f \<circ> (!) ?ports) ?xs = List.map_filter f (wanted_service_ports svc)"
    proof -
      have "map ((!) ?ports) ?xs = wanted_service_ports svc"
        using True by (simp add: wanted_service_ports_def pa map_concat comp_def scan_nth)
      then show ?thesis using map_filter_map [of f "(!) ?ports" ?xs] by simp
    qed
    finally show ?thesis by (simp add: first_seen_def)
  qed
qed

lemma door_loop_seen:
  assumes "set sn = set ps" "length ps \<le> MaxPortsPerPod"
  shows "door_loop d pod sps sn (map (\<lambda>port. (makeTarget pod (door_scheme d) (door_path d) port)\<lparr>t_Source := ''service'', t_Service := door_info d\<rparr>) ps) =
    map (\<lambda>port. (makeTarget pod (door_scheme d) (door_path d) port)\<lparr>t_Source := ''service'', t_Service := door_info d\<rparr>)
      (take MaxPortsPerPod (foldl add_new ps (List.map_filter (targetPodPort pod) sps)))"
  using assms
proof (induction sps arbitrary: sn ps)
  case (Cons sp sps)
  show ?case
  proof (cases "length ps = MaxPortsPerPod")
    case True
    then show ?thesis by (simp add: take_full)
  next
    case False
    show ?thesis
    proof (cases "targetPodPort pod sp")
      case None
      then show ?thesis using Cons False by (simp add: List.map_filter_def)
    next
      case (Some p)
      show ?thesis
      proof (cases "p \<in> set ps")
        case True
        then show ?thesis using Cons False Some by (simp add: List.map_filter_def add_new_def [of ps])
      next
        case new: False
        then show ?thesis using Cons.IH [of "p # sn" "ps @ [p]"] Cons.prems False Some
          by (simp add: List.map_filter_def add_new_def [of ps])
      qed
    qed
  qed
qed (simp add: List.map_filter_def)

lemma ServiceTargets_eq:
  "ServiceTargets pod (Some svc) =
     (if OptedIn (svc_Annotations svc) \<and> Scrapeable pod
      then (case schemeAndPath (svc_Annotations svc) of None \<Rightarrow> []
            | Some (scheme, path) \<Rightarrow>
                map (\<lambda>port. (makeTarget pod scheme path port)\<lparr>t_Source := ''service'', t_Service := Some (serviceInfo svc)\<rparr>)
                  (take MaxPortsPerPod (first_seen (List.map_filter (targetPodPort pod) (wanted_service_ports svc)))))
      else [])"
proof (cases "OptedIn (svc_Annotations svc) \<and> Scrapeable pod \<and> schemeAndPath (svc_Annotations svc) \<noteq> None")
  case True
  then obtain scheme path where sp: "schemeAndPath (svc_Annotations svc) = Some (scheme, path)" by fastforce
  let ?d = "NewServiceDoor (Some svc)"
  have d: "?d = \<lparr>door_open = True, door_scheme = scheme, door_path = path, door_ports = selectServicePorts svc, door_info = Some (serviceInfo svc)\<rparr>"
    using True sp by (simp add: NewServiceDoor_def)
  show ?thesis
    using True sp door_loop_seen [of "[]" "[]" ?d pod "selectServicePorts svc"] select_resolved [of "targetPodPort pod" svc]
    by (simp add: ServiceTargets_def Door_Targets_def d first_seen_def)
qed (auto simp: ServiceTargets_def Door_Targets_def NewServiceDoor_def closed_door_def split: option.split)

text \<open>
  C17. The selection of a Service's ports through its index, with each port picked once and the walk
  cut short, changes no answer: the targets are those of the plain nested loop over the entries of the
  annotation and the ports of the Service, each pod port once, where it first occurs, and at most
  sixteen.
\<close>
theorem ServiceTargets_reference:
  "ServiceTargets pod (Some svc) =
     (if OptedIn (svc_Annotations svc) \<and> Scrapeable pod
      then (case schemeAndPath (svc_Annotations svc) of None \<Rightarrow> []
            | Some (scheme, path) \<Rightarrow>
                map (\<lambda>port. (makeTarget pod scheme path port)\<lparr>t_Source := ''service'', t_Service := Some (serviceInfo svc)\<rparr>)
                  (take MaxPortsPerPod (first_seen (List.map_filter (targetPodPort pod) (wanted_service_ports svc)))))
      else [])"
  by (rule ServiceTargets_eq)

subsubsection \<open>Names of ports\<close>

lemma first_port_find: "first_port name ps = map_option cp_Port (find (\<lambda>p. cp_Name p = name) ps)"
  by (induction ps) simp_all

lemma find_append: "find P (xs @ ys) = (case find P xs of Some x \<Rightarrow> Some x | None \<Rightarrow> find P ys)"
  by (induction xs) simp_all

lemma port_in_find:
  "port_in cs name regular = map_option cp_Port (find (\<lambda>p. cp_Name p = name) (concat (map ctr_Ports (filter (\<lambda>c. regularContainer c = regular) cs))))"
  by (induction cs) (auto simp: first_port_find find_append split: option.split)

text \<open>
  A port name resolves to one declaration: the first among the regular containers, as Kubernetes
  resolves it, and only a name that none of them declares to the first among the others. The empty name
  resolves to nothing, so that it cannot match an unnamed port.
\<close>
theorem containerPortByName_first:
  "containerPortByName pod name =
     (if name = [] then None
      else map_option cp_Port (find (\<lambda>p. cp_Name p = name)
             (concat (map ctr_Ports (filter regularContainer (pod_Containers pod))) @
              concat (map ctr_Ports (filter (\<lambda>c. \<not> regularContainer c) (pod_Containers pod))))))"
  by (simp add: containerPortByName_def portByName_def port_in_find find_append split: option.split)

subsubsection \<open>Names of targets\<close>

lemma defaultSchemePath_shape:
  "defaultSchemePath s p = Some (scheme, path) \<Longrightarrow>
     (scheme = ''http'' \<or> scheme = ''https'') \<and> (\<exists>rest. path = CHR ''/'' # rest) \<and> length path \<le> MaxTargetPathBytes + 1"
  by (auto simp: defaultSchemePath_def Let_def prefix_def MaxTargetPathBytes_def split: if_splits)

lemma split_slash: "CHR ''/'' \<notin> set a \<Longrightarrow> CHR ''/'' \<notin> set b \<Longrightarrow> a @ CHR ''/'' # r = b @ CHR ''/'' # q \<longleftrightarrow> a = b \<and> r = q"
  by (auto simp: append_eq_append_conv2 append_eq_Cons_conv Cons_eq_append_conv)

lemma targetURL_inj:
  assumes "scheme = ''http'' \<or> scheme = ''https''" "scheme' = ''http'' \<or> scheme' = ''https''"
    "path = CHR ''/'' # rest" "path' = CHR ''/'' # rest'"
  shows "targetURL pod scheme path port = targetURL pod scheme' path' port' \<longleftrightarrow> scheme = scheme' \<and> path = path' \<and> port = port'"
  using assms split_slash [of "FormatInt port" "FormatInt port'" rest rest'] FormatInt_chars
  by (auto simp: targetURL_def appendTargetURL_def Let_def FormatInt_inj)

text \<open>
  The URL is the identity of a target: two monitor endpoints, of whichever kind, name the same URL on
  a pod exactly when they resolve to the same scheme, path and port.
\<close>
theorem MonitorTargetURL_identity:
  assumes "monitorEndpoint pod svc ep = Some x" "podMonitorEndpoint pod ep' = Some y"
  shows "MonitorTargetURL pod svc ep = PodMonitorTargetURL pod ep' \<longleftrightarrow> x = y"
proof -
  obtain s p port where x: "x = (s, p, port)" by (cases x)
  obtain s' p' port' where y: "y = (s', p', port')" by (cases y)
  have "defaultSchemePath (monitorScheme (ep_Scheme ep)) (ep_Path ep) = Some (s, p)"
    using assms(1) by (auto simp: x monitorEndpoint_def split: option.splits if_splits)
  moreover have "defaultSchemePath (monitorScheme (ep_Scheme ep')) (ep_Path ep') = Some (s', p')"
    using assms(2) by (auto simp: y podMonitorEndpoint_def split: option.splits if_splits)
  ultimately obtain r r' where "s = ''http'' \<or> s = ''https''" "s' = ''http'' \<or> s' = ''https''" "p = CHR ''/'' # r" "p' = CHR ''/'' # r'"
    using defaultSchemePath_shape by metis
  from targetURL_inj [OF this, of pod port port'] show ?thesis
    using assms by (simp add: MonitorTargetURL_def PodMonitorTargetURL_def x y)
qed

lemma makeTarget_URL: "t_URL (makeTarget pod scheme path port) = targetURL pod scheme path port"
  by (simp add: makeTarget_def targetURL_def split: prod.split)

text \<open>
  The cheap and the full derivation of a monitor target agree: there is a target exactly when
  there is a URL, and it has that URL; and a URL is the scheme, the address and the path of its target.
\<close>
theorem MonitorTargets_URL:
  "map t_URL (MonitorTargets pod svc monitor ep) = (case MonitorTargetURL pod svc ep of None \<Rightarrow> [] | Some u \<Rightarrow> [u]) \<and>
   map t_URL (PodMonitorTargets pod monitor ep) = (case PodMonitorTargetURL pod ep of None \<Rightarrow> [] | Some u \<Rightarrow> [u]) \<and>
   map t_URL (MonitorTargets pod svc monitor ep) =
     map (\<lambda>t. t_Scheme t @ ''://'' @ t_Address t @ t_Path t) (MonitorTargets pod svc monitor ep)"
proof -
  have parts: "t_URL (makeTarget pod s p port) = s @ ''://'' @ t_Address (makeTarget pod s p port) @ p" for s p port
    by (simp add: makeTarget_def appendTargetURL_def Let_def)
  have fields: "t_Scheme (makeTarget pod s p port) = s" "t_Path (makeTarget pod s p port) = p" for s p port
    by (simp_all add: makeTarget_def split: prod.split)
  show ?thesis
    by (auto simp: MonitorTargets_def MonitorTargetURL_def PodMonitorTargets_def PodMonitorTargetURL_def stampEndpoint_def
        makeTarget_URL parts [unfolded makeTarget_URL] fields split: option.split)
qed

text \<open>
  However long the annotations of a pod and of a Service are, each yields at most sixteen targets on
  a pod, no two with the same URL.
\<close>
theorem targets_bounded:
  "length (PodTargets pod) \<le> MaxPortsPerPod \<and> distinct (map t_URL (PodTargets pod)) \<and>
   length (ServiceTargets pod (Some svc)) \<le> MaxPortsPerPod \<and> distinct (map t_URL (ServiceTargets pod (Some svc)))"
proof -
  have urls: "distinct (map (\<lambda>port. targetURL pod s p port) (take MaxPortsPerPod (first_seen xs)))"
    if sp: "schemeAndPath ann = Some (s, p)" for ann s p xs
  proof -
    obtain rest where "s = ''http'' \<or> s = ''https''" "p = CHR ''/'' # rest"
      using defaultSchemePath_shape [OF sp [unfolded schemeAndPath_def]] by blast
    then have "inj (targetURL pod s p)" using targetURL_inj [of s s p rest p rest pod] by (auto intro: injI)
    moreover have "distinct (take MaxPortsPerPod (first_seen xs))" by (simp add: first_seen_facts)
    ultimately show ?thesis using distinct_map inj_on_subset by blast
  qed
  have "length (PodTargets pod) \<le> MaxPortsPerPod \<and> distinct (map t_URL (PodTargets pod))"
    using urls by (auto simp: PodTargets_eq makeTarget_URL comp_def split: option.split)
  moreover have "length (ServiceTargets pod (Some svc)) \<le> MaxPortsPerPod \<and> distinct (map t_URL (ServiceTargets pod (Some svc)))"
    using urls by (auto simp: ServiceTargets_eq makeTarget_URL comp_def split: option.split)
  ultimately show ?thesis by blast
qed

definition metrics_pod :: Pod where
  "metrics_pod = zero_Pod\<lparr>pod_PodIP := ''10.0.0.7'', pod_Phase := ''Running''\<rparr>"

definition metrics_endpoint :: "string \<Rightarrow> Endpoint" where
  "metrics_endpoint path = \<lparr>ep_Port = [], ep_TargetPort = Some (IntVal 9090), ep_Path = path, ep_Scheme = ''HTTPS'',
     ep_ScrapeAuth = zero_ScrapeAuth, ep_MetricRelabelings = [], ep_Interval = [], ep_ScrapeTimeout = [], ep_Ignored = [], ep_Refused = []\<rparr>"

theorem MonitorTargetURL_identity_witness:
  "MonitorTargetURL metrics_pod (Some (convert_service (web_service ''a'' ''1''))) (metrics_endpoint []) =
   PodMonitorTargetURL metrics_pod (metrics_endpoint ''metrics'')"
proof -
  have "monitorEndpoint metrics_pod (Some (convert_service (web_service ''a'' ''1''))) (metrics_endpoint []) = Some (''https'', ''/metrics'', 9090)"
    by code_simp
  moreover have "podMonitorEndpoint metrics_pod (metrics_endpoint ''metrics'') = Some (''https'', ''/metrics'', 9090)"
    by code_simp
  ultimately show ?thesis using MonitorTargetURL_identity by blast
qed

end
