(* ===== verification/TargetMerge.thy ===== *)
theory TargetMerge
  imports ScrapeTargets
begin

section \<open>The size and the merge of targets (internal/scrape/docsize.go, merge.go)\<close>

text \<open>
  How large a target is in the served document, and how the endpoint of a second monitor is folded
  into the target that holds its URL. The parser of intervals (\<^verbatim>\<open>promdur.Interval\<close>) is an argument of the
  merge, which compares two of its answers and relies on nothing else about it.
\<close>

subsection \<open>Sizes\<close>

definition MaxTargetBytesPerPod :: int where "MaxTargetBytesPerPod = 262144"

definition jsonMemberOverhead :: nat where "jsonMemberOverhead = 6"
definition podFixedBytes :: nat where "podFixedBytes = 512"
definition containerFixedBytes :: nat where "containerFixedBytes = 288"
definition ownerFixedBytes :: nat where "ownerFixedBytes = 128"
definition portFixedBytes :: nat where "portFixedBytes = 64"
definition targetFixedBytes :: nat where "targetFixedBytes = 448"
definition serviceFixedBytes :: nat where "serviceFixedBytes = 96"
definition relabelFixedBytes :: nat where "relabelFixedBytes = 64"

definition stringMapBytes :: "strmap \<Rightarrow> nat" where
  "stringMapBytes m =
     (if length m = 0 then 0
      else jsonMemberOverhead + length ''annotations'' + 2 +
           sum_list (map (\<lambda>(k, v). length k + length v + jsonMemberOverhead) m))"

definition objectMetaBytes :: "ObjectMeta \<Rightarrow> nat" where
  "objectMetaBytes m =
     jsonMemberOverhead + length ''namespaceMetadata'' + 10 + length (om_UID m) +
     stringMapBytes (om_Labels m) + stringMapBytes (om_Annotations m)"

definition PodDocBytes :: "Pod \<Rightarrow> nat" where
  "PodDocBytes p =
     podFixedBytes + length (pod_Name p) + length (pod_Namespace p) + length (pod_UID p) + length (pod_NodeName p) +
     length (pod_PodIP p) + length (pod_HostIP p) + length (pod_Phase p) +
     sum_list (map (\<lambda>ip. length ip + 3) (pod_PodIPs p)) +
     stringMapBytes (pod_Labels p) + stringMapBytes (pod_Annotations p) +
     (case pod_NamespaceMetadata p of None \<Rightarrow> 0 | Some m \<Rightarrow> objectMetaBytes m) +
     sum_list (map (\<lambda>o'. ownerFixedBytes + length (own_APIVersion o') + length (own_Kind o') + length (own_Name o') +
       length (own_UID o') + stringMapBytes (own_Labels o') + stringMapBytes (own_Annotations o')) (pod_Owners p)) +
     sum_list (map (\<lambda>c. containerFixedBytes + length (ctr_Name c) + length (ctr_Type c) + length (ctr_ID c) +
       length (ctr_RuntimeID c) + length (ctr_Image c) + length (ctr_ImageID c) + length (ctr_State c) +
       length (ctr_WaitingReason c) +
       sum_list (map (\<lambda>p. portFixedBytes + length (cp_Name p) + length (cp_Protocol p)) (ctr_Ports c))) (pod_Containers p))"

definition ServiceViewBytes :: "ServiceView option \<Rightarrow> nat" where
  "ServiceViewBytes s =
     (case s of
        None \<Rightarrow> 0
      | Some v \<Rightarrow> serviceFixedBytes + length (sv_Name v) + length (sv_Namespace v) + length (sv_UID v) +
                  stringMapBytes (sv_Labels v) + stringMapBytes (sv_Annotations v))"

definition ServiceIdentityView :: "ServiceView option \<Rightarrow> ServiceView option" where
  "ServiceIdentityView s =
     (case s of
        None \<Rightarrow> None
      | Some v \<Rightarrow> Some \<lparr>sv_Name = sv_Name v, sv_Namespace = sv_Namespace v, sv_UID = sv_UID v, sv_Labels = [], sv_Annotations = []\<rparr>)"

definition TargetOwnBytes :: "ScrapeTarget \<Rightarrow> nat" where
  "TargetOwnBytes t =
     (let a = t_ScrapeAuth t in
      targetFixedBytes + length (t_URL t) + length (t_Scheme t) + length (t_Address t) + length (t_Path t) +
      length (t_Source t) + length (t_Monitor t) + length (sa_AuthSecret a) + length (sa_BasicAuthUser a) +
      length (sa_BasicAuthPass a) + length (sa_AuthType a) + length (sa_AuthCredentials a) + length (sa_TLSCA a) +
      length (sa_TLSCert a) + length (sa_TLSKey a) + length (sa_TLSServerName a) + length (t_Interval t) +
      length (t_ScrapeTimeout t) +
      sum_list (map (\<lambda>m. length m + 3) (t_Monitors t)) +
      sum_list (map (\<lambda>r. relabelFixedBytes + length (rr_Action r) + length (rr_Regex r) +
        sum_list (map (\<lambda>l. length l + 3) (rr_SourceLabels r))) (t_MetricRelabelings t)) +
      ServiceViewBytes (t_Service t))"

definition TargetDocBytes :: "ScrapeTarget \<Rightarrow> int \<Rightarrow> int" where
  "TargetDocBytes t podBytes = podBytes + int (TargetOwnBytes t)"

subsection \<open>The merge\<close>

record MergeReport =
  rep_AuthAdopted :: bool
  rep_AuthConflict :: bool
  rep_RelabelCapped :: bool
  rep_ContributorsCapped :: bool
  rep_Bytes :: int

definition zero_MergeReport :: MergeReport where
  "zero_MergeReport = \<lparr>rep_AuthAdopted = False, rep_AuthConflict = False, rep_RelabelCapped = False,
     rep_ContributorsCapped = False, rep_Bytes = 0\<rparr>"

definition MaxRelabelChainRules :: nat where "MaxRelabelChainRules = 128"
definition MaxRelabelChainBytes :: nat where "MaxRelabelChainBytes = 16384"
definition MaxContributorsPerTarget :: nat where "MaxContributorsPerTarget = 32"

definition relabelLabelBytes :: nat where "relabelLabelBytes = 3"

definition RelabelRuleBytes :: "string \<Rightarrow> string list \<Rightarrow> nat" where
  "RelabelRuleBytes regex sourceLabels = length regex + sum_list (map (\<lambda>l. length l + relabelLabelBytes) sourceLabels)"

definition rule_bytes :: "RelabelRule \<Rightarrow> nat" where
  "rule_bytes r = RelabelRuleBytes (rr_Regex r) (rr_SourceLabels r)"

text \<open>The loop of \<^verbatim>\<open>appendRelabelChain\<close>: the chain, what it weighs, whether a rule was added, and whether one was refused.\<close>
fun chain_loop :: "RelabelRule list \<Rightarrow> RelabelRule list \<Rightarrow> nat \<Rightarrow> bool \<Rightarrow> RelabelRule list \<times> bool \<times> bool" where
  "chain_loop [] chain held_bytes added = (chain, added, False)"
| "chain_loop (r # rs) chain held_bytes added =
     (if length chain \<ge> MaxRelabelChainRules then (chain, added, True)
      else (let n = rule_bytes r in
            if held_bytes + n > MaxRelabelChainBytes then (chain, added, True)
            else chain_loop rs (chain @ [r]) (held_bytes + n) True))"

definition appendRelabelChain :: "RelabelRule list \<Rightarrow> ScrapeTarget \<Rightarrow> (bool \<times> bool) \<times> ScrapeTarget" where
  "appendRelabelChain add t =
     (case chain_loop add (t_MetricRelabelings t) (sum_list (map rule_bytes (t_MetricRelabelings t))) False of
        (chain, added, over) \<Rightarrow> ((added, over), t\<lparr>t_MetricRelabelings := chain\<rparr>))"

definition mergeCadence :: "(string \<Rightarrow> duration option) \<Rightarrow> Endpoint \<Rightarrow> ScrapeTarget \<Rightarrow> bool \<times> ScrapeTarget" where
  "mergeCadence promDuration ep t =
     (if ep_Interval ep = [] \<and> t_Interval t = []
      then (if t_ScrapeTimeout t = [] \<and> ep_ScrapeTimeout ep \<noteq> []
            then (True, t\<lparr>t_ScrapeTimeout := ep_ScrapeTimeout ep\<rparr>) else (False, t))
      else if ep_Interval ep = [] then (False, t)
      else if t_Interval t = [] then (True, t\<lparr>t_Interval := ep_Interval ep, t_ScrapeTimeout := ep_ScrapeTimeout ep\<rparr>)
      else if t_Interval t = ep_Interval ep then (False, t)
      else (case (promDuration (t_Interval t), promDuration (ep_Interval ep)) of
              (Some holder, Some asked) \<Rightarrow>
                if asked \<ge> holder then (False, t)
                else (True, t\<lparr>t_Interval := ep_Interval ep, t_ScrapeTimeout := ep_ScrapeTimeout ep\<rparr>)
            | _ \<Rightarrow> (False, t)))"

definition addContributor :: "string \<Rightarrow> ScrapeTarget \<Rightarrow> bool \<times> ScrapeTarget" where
  "addContributor monitor t =
     (if t_Monitors t = [] \<and> monitor = t_Monitor t then (False, t)
      else (let t = (if t_Monitors t = [] then t\<lparr>t_Monitors := [t_Monitor t]\<rparr> else t) in
            if monitor \<in> set (t_Monitors t) then (False, t)
            else if length (t_Monitors t) \<ge> MaxContributorsPerTarget then (True, t)
            else (False, t\<lparr>t_Monitors := t_Monitors t @ [monitor]\<rparr>)))"

definition relabelChainsEqual :: "RelabelRule list \<Rightarrow> RelabelRule list \<Rightarrow> bool" where
  "relabelChainsEqual a b \<longleftrightarrow>
     list_all2 (\<lambda>x y. rr_Action x = rr_Action y \<and> rr_Regex x = rr_Regex y \<and> rr_SourceLabels x = rr_SourceLabels y) a b"

text \<open>The three arms of the merge, each with what it contributes.\<close>
definition merge_chain :: "Endpoint \<Rightarrow> ScrapeTarget \<Rightarrow> (bool \<times> bool) \<times> ScrapeTarget" where
  "merge_chain ep t =
     (if ep_MetricRelabelings ep \<noteq> [] \<and> \<not> relabelChainsEqual (t_MetricRelabelings t) (ep_MetricRelabelings ep)
      then appendRelabelChain (ep_MetricRelabelings ep) t else ((False, False), t))"

definition merge_auth :: "Endpoint \<Rightarrow> ScrapeTarget \<Rightarrow> (bool \<times> bool) \<times> ScrapeTarget" where
  "merge_auth ep t =
     (if ep_ScrapeAuth ep = zero_ScrapeAuth then ((False, False), t)
      else if t_ScrapeAuth t = zero_ScrapeAuth then ((True, False), t\<lparr>t_ScrapeAuth := ep_ScrapeAuth ep\<rparr>)
      else if t_ScrapeAuth t = ep_ScrapeAuth ep then ((False, False), t)
      else ((False, True), t))"

definition bare_endpoint :: "Endpoint \<Rightarrow> bool" where
  "bare_endpoint ep \<longleftrightarrow> ep_MetricRelabelings ep = [] \<and> ep_Interval ep = [] \<and> ep_ScrapeTimeout ep = [] \<and> ep_ScrapeAuth ep = zero_ScrapeAuth"

definition MergeMonitorEndpoint :: "(string \<Rightarrow> duration option) \<Rightarrow> string \<Rightarrow> Endpoint \<Rightarrow> ScrapeTarget \<Rightarrow> MergeReport \<times> ScrapeTarget" where
  "MergeMonitorEndpoint promDuration monitor ep t =
     (if bare_endpoint ep then (zero_MergeReport, t)
      else (case merge_chain ep t of
        ((added, over), t1) \<Rightarrow>
          (case mergeCadence promDuration ep t1 of
            (cadence, t2) \<Rightarrow>
              (case merge_auth ep t2 of
                ((adopted, conflict), t3) \<Rightarrow>
                  (case (if added \<or> cadence \<or> adopted then addContributor monitor t3 else (False, t3)) of
                    (full, t4) \<Rightarrow>
                      (\<lparr>rep_AuthAdopted = adopted, rep_AuthConflict = conflict, rep_RelabelCapped = over,
                        rep_ContributorsCapped = full, rep_Bytes = int (TargetOwnBytes t4) - int (TargetOwnBytes t)\<rparr>, t4))))))"

subsection \<open>What a merge keeps and what it bounds\<close>

definition chain_bytes :: "RelabelRule list \<Rightarrow> nat" where
  "chain_bytes rs = sum_list (map rule_bytes rs)"

lemma chain_loop_spec:
  assumes "chain_loop rs chain n added = (chain', added', over)"
  shows "\<exists>pre. prefix pre rs \<and> chain' = chain @ pre \<and> (over \<longleftrightarrow> pre \<noteq> rs) \<and> added' = (added \<or> pre \<noteq> []) \<and>
    (length chain \<le> MaxRelabelChainRules \<longrightarrow> length chain' \<le> MaxRelabelChainRules) \<and>
    (n = chain_bytes chain \<longrightarrow> chain_bytes chain \<le> MaxRelabelChainBytes \<longrightarrow> chain_bytes chain' \<le> MaxRelabelChainBytes)"
  using assms
proof (induction rs arbitrary: chain n added)
  case (Cons r rs)
  show ?case
  proof (cases "length chain \<ge> MaxRelabelChainRules \<or> n + rule_bytes r > MaxRelabelChainBytes")
    case True
    then have "chain' = chain" "added' = added" over using Cons.prems by (auto simp: Let_def split: if_splits)
    then show ?thesis by (intro exI [of _ "[]"]) simp
  next
    case False
    then have "chain_loop rs (chain @ [r]) (n + rule_bytes r) True = (chain', added', over)" using Cons.prems by (simp add: Let_def)
    from Cons.IH [OF this] obtain pre where pre: "prefix pre rs" "chain' = (chain @ [r]) @ pre" "over \<longleftrightarrow> pre \<noteq> rs" "added'"
      "length (chain @ [r]) \<le> MaxRelabelChainRules \<longrightarrow> length chain' \<le> MaxRelabelChainRules"
      "n + rule_bytes r = chain_bytes (chain @ [r]) \<longrightarrow> chain_bytes (chain @ [r]) \<le> MaxRelabelChainBytes \<longrightarrow> chain_bytes chain' \<le> MaxRelabelChainBytes"
      by auto
    show ?thesis by (rule exI [of _ "r # pre"]) (use pre False in \<open>auto simp: chain_bytes_def\<close>)
  qed
qed auto

lemma relabelChainsEqual_iff: "relabelChainsEqual a b \<longleftrightarrow> a = b"
proof
  assume "relabelChainsEqual a b"
  then show "a = b" unfolding relabelChainsEqual_def by (induction rule: list_all2_induct) simp_all
qed (simp add: relabelChainsEqual_def list_all2_refl)

text \<open>A target within the ceilings.\<close>
definition within_bounds :: "ScrapeTarget \<Rightarrow> bool" where
  "within_bounds t \<longleftrightarrow> length (t_MetricRelabelings t) \<le> MaxRelabelChainRules \<and> chain_bytes (t_MetricRelabelings t) \<le> MaxRelabelChainBytes \<and>
     length (t_Monitors t) \<le> MaxContributorsPerTarget \<and> distinct (t_Monitors t)"

text \<open>The fields of a target that no merge touches.\<close>
definition same_target :: "ScrapeTarget \<Rightarrow> ScrapeTarget \<Rightarrow> bool" where
  "same_target t t' \<longleftrightarrow> t_URL t' = t_URL t \<and> t_Scheme t' = t_Scheme t \<and> t_Address t' = t_Address t \<and> t_Port t' = t_Port t \<and>
     t_Path t' = t_Path t \<and> t_Source t' = t_Source t \<and> t_Service t' = t_Service t \<and> t_Monitor t' = t_Monitor t \<and> t_Pod t' = t_Pod t"

lemma merge_chain_spec:
  assumes "merge_chain ep t = ((added, over), t')"
  shows "\<exists>chain. t' = t\<lparr>t_MetricRelabelings := chain\<rparr> \<and> prefix (t_MetricRelabelings t) chain \<and>
    (\<not> over \<longrightarrow> set (ep_MetricRelabelings ep) \<subseteq> set chain) \<and>
    (within_bounds t \<longrightarrow> within_bounds t')"
proof (cases "ep_MetricRelabelings ep \<noteq> [] \<and> \<not> relabelChainsEqual (t_MetricRelabelings t) (ep_MetricRelabelings ep)")
  case True
  let ?c = "chain_loop (ep_MetricRelabelings ep) (t_MetricRelabelings t) (sum_list (map rule_bytes (t_MetricRelabelings t))) False"
  obtain chain where c: "?c = (chain, added, over)" "t' = t\<lparr>t_MetricRelabelings := chain\<rparr>"
    using assms True by (auto simp: merge_chain_def appendRelabelChain_def split: prod.splits)
  from chain_loop_spec [OF c(1)] obtain pre where pre: "prefix pre (ep_MetricRelabelings ep)" "chain = t_MetricRelabelings t @ pre"
    "over \<longleftrightarrow> pre \<noteq> ep_MetricRelabelings ep"
    "length (t_MetricRelabelings t) \<le> MaxRelabelChainRules \<longrightarrow> length chain \<le> MaxRelabelChainRules"
    "chain_bytes (t_MetricRelabelings t) \<le> MaxRelabelChainBytes \<longrightarrow> chain_bytes chain \<le> MaxRelabelChainBytes"
    by (auto simp: chain_bytes_def)
  then show ?thesis using c(2) by (intro exI [of _ chain]) (auto simp: within_bounds_def)
next
  case False
  then have "t' = t" using assms by (auto simp: merge_chain_def)
  then show ?thesis using False by (intro exI [of _ "t_MetricRelabelings t"]) (auto simp: relabelChainsEqual_iff)
qed

lemma mergeCadence_spec:
  assumes "mergeCadence pd ep t = (b, t')"
  shows "\<exists>i s. t' = t\<lparr>t_Interval := i, t_ScrapeTimeout := s\<rparr>"
    and "ep_Interval ep \<noteq> [] \<Longrightarrow> pd (ep_Interval ep) = Some asked \<Longrightarrow> pd (t_Interval t') = Some served \<Longrightarrow> served \<le> asked"
proof -
  have "t' = t\<lparr>t_Interval := t_Interval t', t_ScrapeTimeout := t_ScrapeTimeout t'\<rparr>"
    using assms by (auto simp: mergeCadence_def split: if_splits option.splits)
  then show "\<exists>i s. t' = t\<lparr>t_Interval := i, t_ScrapeTimeout := s\<rparr>" by blast
  show "served \<le> asked" if "ep_Interval ep \<noteq> []" "pd (ep_Interval ep) = Some asked" "pd (t_Interval t') = Some served"
    using assms that by (auto simp: mergeCadence_def split: if_splits option.splits)
qed

lemma merge_auth_spec:
  assumes "merge_auth ep t = ((adopted, conflict), t')"
  shows "\<exists>a. t' = t\<lparr>t_ScrapeAuth := a\<rparr> \<and> (t_ScrapeAuth t \<noteq> zero_ScrapeAuth \<longrightarrow> a = t_ScrapeAuth t) \<and>
    (ep_ScrapeAuth ep \<noteq> zero_ScrapeAuth \<and> \<not> conflict \<longrightarrow> a = ep_ScrapeAuth ep)"
    and "conflict \<longleftrightarrow> ep_ScrapeAuth ep \<noteq> zero_ScrapeAuth \<and> t_ScrapeAuth t \<noteq> zero_ScrapeAuth \<and> t_ScrapeAuth t \<noteq> ep_ScrapeAuth ep"
proof -
  have "t' = t\<lparr>t_ScrapeAuth := t_ScrapeAuth t'\<rparr>" using assms by (auto simp: merge_auth_def split: if_splits)
  moreover have "t_ScrapeAuth t \<noteq> zero_ScrapeAuth \<longrightarrow> t_ScrapeAuth t' = t_ScrapeAuth t"
    "ep_ScrapeAuth ep \<noteq> zero_ScrapeAuth \<and> \<not> conflict \<longrightarrow> t_ScrapeAuth t' = ep_ScrapeAuth ep"
    using assms by (auto simp: merge_auth_def split: if_splits)
  ultimately show "\<exists>a. t' = t\<lparr>t_ScrapeAuth := a\<rparr> \<and> (t_ScrapeAuth t \<noteq> zero_ScrapeAuth \<longrightarrow> a = t_ScrapeAuth t) \<and>
    (ep_ScrapeAuth ep \<noteq> zero_ScrapeAuth \<and> \<not> conflict \<longrightarrow> a = ep_ScrapeAuth ep)" by blast
  show "conflict \<longleftrightarrow> ep_ScrapeAuth ep \<noteq> zero_ScrapeAuth \<and> t_ScrapeAuth t \<noteq> zero_ScrapeAuth \<and> t_ScrapeAuth t \<noteq> ep_ScrapeAuth ep"
    using assms by (auto simp: merge_auth_def split: if_splits)
qed

lemma addContributor_spec:
  assumes "addContributor monitor t = (full, t')"
  shows "\<exists>ms. t' = t\<lparr>t_Monitors := ms\<rparr> \<and> prefix (t_Monitors t) ms" "within_bounds t \<Longrightarrow> within_bounds t'"
proof -
  have "t' = t\<lparr>t_Monitors := t_Monitors t'\<rparr> \<and> prefix (t_Monitors t) (t_Monitors t')"
    using assms by (auto simp: addContributor_def Let_def split: if_splits)
  then show "\<exists>ms. t' = t\<lparr>t_Monitors := ms\<rparr> \<and> prefix (t_Monitors t) ms" by blast
  show "within_bounds t'" if "within_bounds t"
    using assms that by (auto simp: addContributor_def Let_def within_bounds_def MaxContributorsPerTarget_def split: if_splits)
qed

text \<open>All that a merge does, in one place.\<close>
definition merge_result :: "(string \<Rightarrow> duration option) \<Rightarrow> Endpoint \<Rightarrow> ScrapeTarget \<Rightarrow> MergeReport \<Rightarrow> ScrapeTarget \<Rightarrow> bool" where
  "merge_result pd ep t rep t' \<longleftrightarrow> same_target t t' \<and> rep_Bytes rep = int (TargetOwnBytes t') - int (TargetOwnBytes t) \<and>
    prefix (t_MetricRelabelings t) (t_MetricRelabelings t') \<and> prefix (t_Monitors t) (t_Monitors t') \<and>
    (t_ScrapeAuth t \<noteq> zero_ScrapeAuth \<longrightarrow> t_ScrapeAuth t' = t_ScrapeAuth t) \<and>
    (\<not> rep_RelabelCapped rep \<longrightarrow> set (ep_MetricRelabelings ep) \<subseteq> set (t_MetricRelabelings t')) \<and>
    (rep_AuthConflict rep \<longleftrightarrow> ep_ScrapeAuth ep \<noteq> zero_ScrapeAuth \<and> t_ScrapeAuth t \<noteq> zero_ScrapeAuth \<and> t_ScrapeAuth t \<noteq> ep_ScrapeAuth ep) \<and>
    (ep_ScrapeAuth ep \<noteq> zero_ScrapeAuth \<longrightarrow> \<not> rep_AuthConflict rep \<longrightarrow> t_ScrapeAuth t' = ep_ScrapeAuth ep) \<and>
    (\<forall>asked served. ep_Interval ep \<noteq> [] \<longrightarrow> pd (ep_Interval ep) = Some asked \<longrightarrow> pd (t_Interval t') = Some served \<longrightarrow> served \<le> asked) \<and>
    (within_bounds t \<longrightarrow> within_bounds t')"

lemma merge_result:
  assumes "MergeMonitorEndpoint pd monitor ep t = (rep, t')"
  shows "merge_result pd ep t rep t'"
proof (cases "bare_endpoint ep")
  case True
  then show ?thesis using assms
    by (auto simp: MergeMonitorEndpoint_def merge_result_def zero_MergeReport_def bare_endpoint_def same_target_def)
next
  case False
  obtain added over t1 where 1: "merge_chain ep t = ((added, over), t1)" by (metis prod.exhaust)
  obtain cad t2 where 2: "mergeCadence pd ep t1 = (cad, t2)" by fastforce
  obtain adopted conflict t3 where 3: "merge_auth ep t2 = ((adopted, conflict), t3)" by (metis prod.exhaust)
  obtain full t4 where 4: "(if added \<or> cad \<or> adopted then addContributor monitor t3 else (False, t3)) = (full, t4)" by fastforce
  have e: "rep = \<lparr>rep_AuthAdopted = adopted, rep_AuthConflict = conflict, rep_RelabelCapped = over, rep_ContributorsCapped = full,
      rep_Bytes = int (TargetOwnBytes t4) - int (TargetOwnBytes t)\<rparr>" "t' = t4"
    using assms False by (auto simp: MergeMonitorEndpoint_def 1 2 3 4)
  from merge_chain_spec [OF 1] obtain chain where c: "t1 = t\<lparr>t_MetricRelabelings := chain\<rparr>" "prefix (t_MetricRelabelings t) chain"
    "\<not> over \<longrightarrow> set (ep_MetricRelabelings ep) \<subseteq> set chain" "within_bounds t \<longrightarrow> within_bounds t1" by blast
  from mergeCadence_spec(1) [OF 2] obtain i s where cd: "t2 = t1\<lparr>t_Interval := i, t_ScrapeTimeout := s\<rparr>" by blast
  from merge_auth_spec(1) [OF 3] obtain a where a: "t3 = t2\<lparr>t_ScrapeAuth := a\<rparr>" "t_ScrapeAuth t2 \<noteq> zero_ScrapeAuth \<longrightarrow> a = t_ScrapeAuth t2"
    "ep_ScrapeAuth ep \<noteq> zero_ScrapeAuth \<and> \<not> conflict \<longrightarrow> a = ep_ScrapeAuth ep" by blast
  have mon: "(\<exists>ms. t4 = t3\<lparr>t_Monitors := ms\<rparr> \<and> prefix (t_Monitors t3) ms) \<and> (within_bounds t3 \<longrightarrow> within_bounds t4)"
  proof (cases "added \<or> cad \<or> adopted")
    case True
    then have "addContributor monitor t3 = (full, t4)" using 4 by simp
    from addContributor_spec [OF this] show ?thesis by blast
  next
    case False
    then have "t4 = t3" using 4 by simp
    then show ?thesis by (intro conjI exI [of _ "t_Monitors t3"]) simp_all
  qed
  from mon obtain ms where ms: "t4 = t3\<lparr>t_Monitors := ms\<rparr>" "prefix (t_Monitors t3) ms" by blast
  have "within_bounds t1 \<longrightarrow> within_bounds t3" by (simp add: a(1) cd within_bounds_def)
  then have wb: "within_bounds t \<longrightarrow> within_bounds t4" using c(4) mon by blast
  have cmp: "\<forall>asked served. ep_Interval ep \<noteq> [] \<longrightarrow> pd (ep_Interval ep) = Some asked \<longrightarrow> pd (t_Interval t4) = Some served \<longrightarrow> served \<le> asked"
    using mergeCadence_spec(2) [OF 2] by (simp add: ms(1) a(1))
  have conf: "conflict \<longleftrightarrow> ep_ScrapeAuth ep \<noteq> zero_ScrapeAuth \<and> t_ScrapeAuth t \<noteq> zero_ScrapeAuth \<and> t_ScrapeAuth t \<noteq> ep_ScrapeAuth ep"
    using merge_auth_spec(2) [OF 3] by (simp add: cd c(1))
  have "same_target t t4" "t_MetricRelabelings t4 = chain" "t_Monitors t4 = ms" "t_ScrapeAuth t4 = a" "t_Monitors t3 = t_Monitors t" "t_ScrapeAuth t2 = t_ScrapeAuth t"
    by (simp_all add: same_target_def ms(1) a(1) cd c(1))
  then show ?thesis unfolding merge_result_def using c(2,3) a(2,3) ms(2) wb cmp conf e by simp
qed

text \<open>
  C24. Folding a second monitor's endpoint into the target that holds its URL loses nothing silently: the
  target keeps its identity, its relabel rules and its credentials; every rule of the endpoint is in the
  served chain unless the report says it was capped; the endpoint's credentials are the ones served
  unless the report says they conflict, which is when both sides declare different ones; and the
  served interval is no coarser than the one asked for. The chain and the list of contributors stay
  within their ceilings, and the growth the report states is exactly the difference of the target's own
  bytes after and before the merge.
\<close>
theorem MergeMonitorEndpoint_keeps:
  assumes "MergeMonitorEndpoint pd monitor ep t = (rep, t')"
  shows "t_URL t' = t_URL t \<and> t_Monitor t' = t_Monitor t \<and>
    prefix (t_MetricRelabelings t) (t_MetricRelabelings t') \<and>
    (t_ScrapeAuth t \<noteq> zero_ScrapeAuth \<longrightarrow> t_ScrapeAuth t' = t_ScrapeAuth t) \<and>
    (\<not> rep_RelabelCapped rep \<longrightarrow> set (ep_MetricRelabelings ep) \<subseteq> set (t_MetricRelabelings t')) \<and>
    (ep_ScrapeAuth ep \<noteq> zero_ScrapeAuth \<longrightarrow> \<not> rep_AuthConflict rep \<longrightarrow> t_ScrapeAuth t' = ep_ScrapeAuth ep) \<and>
    (rep_AuthConflict rep \<longleftrightarrow> ep_ScrapeAuth ep \<noteq> zero_ScrapeAuth \<and> t_ScrapeAuth t \<noteq> zero_ScrapeAuth \<and> t_ScrapeAuth t \<noteq> ep_ScrapeAuth ep) \<and>
    (ep_Interval ep \<noteq> [] \<longrightarrow> pd (ep_Interval ep) = Some asked \<longrightarrow> pd (t_Interval t') = Some served \<longrightarrow> served \<le> asked) \<and>
    (within_bounds t \<longrightarrow> within_bounds t') \<and>
    rep_Bytes rep = int (TargetOwnBytes t') - int (TargetOwnBytes t)"
  using merge_result [OF assms] unfolding merge_result_def same_target_def by blast

text \<open>Two monitors on one URL: the second asks for a shorter interval and has a credential.\<close>
definition first_target :: ScrapeTarget where
  "first_target = (makeTarget metrics_pod ''https'' ''/metrics'' 9090)\<lparr>t_Monitor := ''shop/a'', t_Interval := ''60s''\<rparr>"

definition second_endpoint :: Endpoint where
  "second_endpoint = (metrics_endpoint ''metrics'')\<lparr>ep_Interval := ''30s'', ep_ScrapeAuth := zero_ScrapeAuth\<lparr>sa_AuthSecret := ''shop/s/k''\<rparr>,
     ep_MetricRelabelings := [\<lparr>rr_Action = ''drop'', rr_SourceLabels = [''__name__''], rr_Regex = ''go_.*''\<rparr>]\<rparr>"

definition read_seconds :: "string \<Rightarrow> duration option" where
  "read_seconds s = (if s = ''60s'' then Some 60000000000 else if s = ''30s'' then Some 30000000000 else None)"

lemmas merge_example_defs = MergeMonitorEndpoint_def merge_chain_def appendRelabelChain_def relabelChainsEqual_def mergeCadence_def merge_auth_def
  addContributor_def bare_endpoint_def first_target_def second_endpoint_def makeTarget_def metrics_endpoint_def read_seconds_def
  zero_ScrapeAuth_def rule_bytes_def RelabelRuleBytes_def MaxRelabelChainRules_def MaxRelabelChainBytes_def relabelLabelBytes_def MaxContributorsPerTarget_def Let_def

theorem MergeMonitorEndpoint_keeps_witness:
  "\<exists>rep t'. MergeMonitorEndpoint read_seconds ''shop/b'' second_endpoint first_target = (rep, t') \<and>
     t_ScrapeAuth t' = ep_ScrapeAuth second_endpoint \<and> t_Interval t' = ''30s'' \<and>
     set (ep_MetricRelabelings second_endpoint) \<subseteq> set (t_MetricRelabelings t')"
proof -
  obtain rep t' where m: "MergeMonitorEndpoint read_seconds ''shop/b'' second_endpoint first_target = (rep, t')" by fastforce
  have "\<not> rep_RelabelCapped rep" "\<not> rep_AuthConflict rep" "t_Interval t' = ''30s''"
    using m by (auto simp: merge_example_defs split: prod.splits)
  moreover have "ep_ScrapeAuth second_endpoint \<noteq> zero_ScrapeAuth" by (simp add: second_endpoint_def zero_ScrapeAuth_def)
  ultimately show ?thesis using MergeMonitorEndpoint_keeps [OF m] m by blast
qed

end
