(* ===== verification/TargetDedup.thy ===== *)
theory TargetDedup
  imports TargetMerge
begin

section \<open>The targets of one pod (internal/server/targetdedup.go, monitoroffers.go)\<close>

text \<open>
  The accumulator of a pod's targets: one target per URL, the ceilings on their number and on their
  size, and how an offered target or monitor endpoint meets the target that holds its URL.

  The destination slice is part of the state and a pointer into it is an index. Two pointers to a
  Service view are compared in one place; there they are the same exactly when the view was carried
  over from the held target, because a monitor target that has a view has one of its own. An endpoint
  declaration is identified by its address.
\<close>

subsection \<open>State\<close>

datatype targetVerdict = targetAccepted | targetRefusedCount | targetRefusedBytes

record viewTrim =
  vt_url :: string
  vt_svc :: "ServiceView option"

text \<open>The last field is the counter \<^verbatim>\<open>obs.ScrapeTargetsCapped\<close>.\<close>
record targetDedup =
  d_out :: "ScrapeTarget list"
  urlOwner :: "(string, nat) gomap"
  authOwner :: "(string, string) gomap"
  d_base :: nat
  d_capped :: nat
  cappedBySize :: nat
  podBytes :: int
  d_bytes :: int
  diagnostic :: bool
  contribCapReported :: "(string \<times> string) list"
  trimmed :: "viewTrim list"
  ScrapeTargetsCapped :: nat

definition zero_targetDedup :: targetDedup where
  "zero_targetDedup = \<lparr>d_out = [], urlOwner = [], authOwner = [], d_base = 0, d_capped = 0, cappedBySize = 0, podBytes = 0,
     d_bytes = 0, diagnostic = False, contribCapReported = [], trimmed = [], ScrapeTargetsCapped = 0\<rparr>"

definition Dedup_reset :: "ScrapeTarget list \<Rightarrow> targetDedup \<Rightarrow> targetDedup" where
  "Dedup_reset out_targets d =
     d\<lparr>d_out := out_targets, d_base := length out_targets, d_capped := 0, cappedBySize := 0, podBytes := 0, d_bytes := 0,
       trimmed := [], urlOwner := [], authOwner := [], contribCapReported := []\<rparr>"

definition firstContribCap :: "string \<Rightarrow> string \<Rightarrow> targetDedup \<Rightarrow> bool \<times> targetDedup" where
  "firstContribCap kind url d =
     (if (kind, url) \<in> set (contribCapReported d) then (False, d)
      else (True, d\<lparr>contribCapReported := (kind, url) # contribCapReported d\<rparr>))"

definition adoptedAuth :: "string \<Rightarrow> string \<Rightarrow> targetDedup \<Rightarrow> targetDedup" where
  "adoptedAuth url monitor d = d\<lparr>authOwner := put url monitor (authOwner d)\<rparr>"

definition servingAuth :: "string \<Rightarrow> string \<Rightarrow> targetDedup \<Rightarrow> string" where
  "servingAuth url holder d = (case get (authOwner d) url of Some m \<Rightarrow> m | None \<Rightarrow> holder)"

definition configuredTarget :: "ScrapeTarget \<Rightarrow> bool" where
  "configuredTarget t \<longleftrightarrow> t_Monitor t \<noteq> []"

definition charge :: "int \<Rightarrow> targetDedup \<Rightarrow> targetDedup" where
  "charge n d = d\<lparr>d_bytes := d_bytes d + n\<rparr>"

definition chargeSwap :: "int \<Rightarrow> targetDedup \<Rightarrow> targetDedup" where
  "chargeSwap grown d = (if grown > 0 then d\<lparr>d_bytes := d_bytes d + grown\<rparr> else d)"

definition refuse :: "targetVerdict \<Rightarrow> targetDedup \<Rightarrow> targetVerdict \<times> targetDedup" where
  "refuse v d =
     (let d = d\<lparr>d_capped := d_capped d + 1\<rparr>;
          d = (if v = targetRefusedBytes then d\<lparr>cappedBySize := cappedBySize d + 1\<rparr> else d)
      in (v, if \<not> diagnostic d then d\<lparr>ScrapeTargetsCapped := ScrapeTargetsCapped d + 1\<rparr> else d))"

definition carryForward :: "ScrapeTarget \<Rightarrow> ScrapeTarget \<Rightarrow> ScrapeTarget" where
  "carryForward winner loser = (if t_Service winner = None then winner\<lparr>t_Service := t_Service loser\<rparr> else winner)"

fun trimmed_index :: "viewTrim list \<Rightarrow> string \<Rightarrow> nat option" where
  "trimmed_index [] url = None"
| "trimmed_index (v # vs) url = (if vt_url v = url then Some 0 else map_option Suc (trimmed_index vs url))"

definition trimmedAt :: "string \<Rightarrow> targetDedup \<Rightarrow> int" where
  "trimmedAt url d = (case trimmed_index (trimmed d) url of Some i \<Rightarrow> int i | None \<Rightarrow> -1)"

definition untrimView :: "string \<Rightarrow> targetDedup \<Rightarrow> targetDedup" where
  "untrimView url d =
     (let i = trimmedAt url d in
      if i \<ge> 0 then d\<lparr>trimmed := take (nat i) (trimmed d) @ drop (nat i + 1) (trimmed d)\<rparr> else d)"

text \<open>The first argument is whether the candidate's view is the one the target had.\<close>
definition boundSwapView :: "bool \<Rightarrow> nat \<Rightarrow> ScrapeTarget \<Rightarrow> ServiceView option \<Rightarrow> int \<Rightarrow> targetDedup \<Rightarrow> int \<times> ScrapeTarget \<times> targetDedup" where
  "boundSwapView same i cand svcBefore grown d =
     (if same then (grown, cand, d)
      else (let d = untrimView (t_URL cand) d in
            if i = d_base d \<or> t_Service cand = None \<or> d_bytes d + grown \<le> MaxTargetBytesPerPod then (grown, cand, d)
            else (let view = ServiceViewBytes (t_Service cand) in
                  if view \<le> ServiceViewBytes svcBefore then (grown, cand, d)
                  else (let cand = cand\<lparr>t_Service := ServiceIdentityView (t_Service cand)\<rparr>;
                            d = d\<lparr>trimmed := trimmed d @ [\<lparr>vt_url = t_URL cand, vt_svc = t_Service cand\<rparr>]\<rparr>
                        in (grown - int view + int (ServiceViewBytes (t_Service cand)), cand, d)))))"

subsection \<open>Offering a target\<close>

text \<open>The arm of a URL that is not held.\<close>
definition add_url :: "ScrapeTarget \<Rightarrow> targetDedup \<Rightarrow> targetVerdict \<times> targetDedup" where
  "add_url t d =
     (if length (d_out d) - d_base d \<ge> MaxPortsPerPod then refuse targetRefusedCount d
      else (let d = (if podBytes d = 0 then d\<lparr>podBytes := int (PodDocBytes (t_Pod t))\<rparr> else d);
                first = (length (d_out d) = d_base d) in
            if \<not> first \<and> d_bytes d + podBytes d > MaxTargetBytesPerPod then refuse targetRefusedBytes d
            else (let cost = TargetDocBytes t (podBytes d) in
                  if \<not> first \<and> d_bytes d + cost > MaxTargetBytesPerPod then refuse targetRefusedBytes d
                  else (targetAccepted,
                        d\<lparr>d_bytes := d_bytes d + cost, urlOwner := put (t_URL t) (length (d_out d)) (urlOwner d),
                          d_out := d_out d @ [t]\<rparr>))))"

text \<open>A monitor target displaces the annotation target at index \<open>i\<close>.\<close>
definition upgrade :: "nat \<Rightarrow> ScrapeTarget \<Rightarrow> targetDedup \<Rightarrow> targetDedup" where
  "upgrade i t d =
     (let holder = d_out d ! i;
          before = TargetOwnBytes holder;
          svcBefore = t_Service holder;
          same = (t_Service t = None);
          t = carryForward t holder
      in case boundSwapView same i t svcBefore (int (TargetOwnBytes t) - int before) d of
           (grown, t, d) \<Rightarrow> chargeSwap grown (d\<lparr>d_out := (d_out d)[i := t]\<rparr>))"

text \<open>The target at index \<open>i\<close> keeps the URL and takes over a Service view it has not got.\<close>
definition keep_held :: "nat \<Rightarrow> ScrapeTarget \<Rightarrow> targetDedup \<Rightarrow> targetDedup" where
  "keep_held i t d =
     (let holder = d_out d ! i in
      if t_Service holder \<noteq> None \<or> t_Service t = None then d
      else (let holder = carryForward holder t in
            case boundSwapView False i holder None (int (ServiceViewBytes (t_Service holder))) d of
              (grown, holder, d) \<Rightarrow> chargeSwap grown (d\<lparr>d_out := (d_out d)[i := holder]\<rparr>)))"

definition Dedup_add :: "ScrapeTarget \<Rightarrow> targetDedup \<Rightarrow> targetVerdict \<times> targetDedup" where
  "Dedup_add t d =
     (case get (urlOwner d) (t_URL t) of
        None \<Rightarrow> add_url t d
      | Some i \<Rightarrow>
          if configuredTarget t \<and> \<not> configuredTarget (d_out d ! i) then (targetAccepted, upgrade i t d)
          else (targetAccepted, keep_held i t d))"

subsection \<open>Offering a monitor endpoint\<close>

definition monitorHolder :: "string \<Rightarrow> targetDedup \<Rightarrow> nat option" where
  "monitorHolder url d =
     (case get (urlOwner d) url of
        None \<Rightarrow> None
      | Some i \<Rightarrow> if \<not> configuredTarget (d_out d ! i) then None else Some i)"

definition mergeInto :: "(string \<Rightarrow> duration option) \<Rightarrow> nat \<Rightarrow> string \<Rightarrow> string \<Rightarrow> Endpoint \<Rightarrow> targetDedup \<Rightarrow> MergeReport \<times> targetDedup" where
  "mergeInto promDuration i url monitor ep d =
     (case MergeMonitorEndpoint promDuration monitor ep (d_out d ! i) of
        (rep, holder) \<Rightarrow>
          (let d = charge (rep_Bytes rep) (d\<lparr>d_out := (d_out d)[i := holder]\<rparr>)
           in (rep, if rep_AuthAdopted rep then adoptedAuth url monitor d else d)))"

record endpointOffer =
  eo_url :: string
  eo_resolved :: bool
  eo_repeat :: bool
  eo_merged :: bool
  eo_held :: "nat option"
  eo_rep :: MergeReport
  eo_refused :: targetVerdict

definition zero_offer :: endpointOffer where
  "zero_offer = \<lparr>eo_url = [], eo_resolved = False, eo_repeat = False, eo_merged = False, eo_held = None, eo_rep = zero_MergeReport,
     eo_refused = targetAccepted\<rparr>"

text \<open>The loop over the targets an endpoint materialises: the last refusal is kept.\<close>
fun add_all :: "ScrapeTarget list \<Rightarrow> endpointOffer \<Rightarrow> targetDedup \<Rightarrow> endpointOffer \<times> targetDedup" where
  "add_all [] o' d = (o', d)"
| "add_all (t # ts) o' d =
     (case Dedup_add t d of (v, d) \<Rightarrow> add_all ts (if v \<noteq> targetAccepted then o'\<lparr>eo_refused := v\<rparr> else o') d)"

text \<open>
  A \<^verbatim>\<open>*Endpoint\<close> points into the endpoints of an indexed monitor: the address of the monitor and the position
  in its list. The declarations offered so far, by URL and by the address of the endpoint.
\<close>
type_synonym endpoint_ptr = "nat \<times> nat"

type_synonym monitorOffers = "(string \<times> endpoint_ptr) list"

definition offers_first :: "string \<Rightarrow> endpoint_ptr \<Rightarrow> monitorOffers \<Rightarrow> bool \<times> monitorOffers" where
  "offers_first url ptr offered = (if (url, ptr) \<in> set offered then (False, offered) else (True, (url, ptr) # offered))"

record monitorEndpoint_ref =
  me_monitor :: string
  me_ptr :: endpoint_ptr
  me_endpoint :: Endpoint

definition offerServiceMonitor :: "(string \<Rightarrow> duration option) \<Rightarrow> Pod \<Rightarrow> Service option \<Rightarrow> monitorEndpoint_ref \<Rightarrow>
    monitorOffers \<times> targetDedup \<Rightarrow> endpointOffer \<times> monitorOffers \<times> targetDedup" where
  "offerServiceMonitor promDuration pod svc sme st =
     (case st of (offered, d) \<Rightarrow>
       (case MonitorTargetURL pod svc (me_endpoint sme) of
          None \<Rightarrow> (zero_offer, offered, d)
        | Some url \<Rightarrow>
            (case offers_first url (me_ptr sme) offered of
               (first, offered) \<Rightarrow>
                 if \<not> first then (zero_offer\<lparr>eo_url := url, eo_resolved := True, eo_repeat := True\<rparr>, offered, d)
                 else (case monitorHolder url d of
                         Some i \<Rightarrow>
                           (case mergeInto promDuration i url (me_monitor sme) (me_endpoint sme) d of
                              (rep, d) \<Rightarrow> (zero_offer\<lparr>eo_url := url, eo_resolved := True, eo_merged := True, eo_held := Some i, eo_rep := rep\<rparr>, offered, d))
                       | None \<Rightarrow>
                           (case add_all (MonitorTargets pod svc (me_monitor sme) (me_endpoint sme))
                                  (zero_offer\<lparr>eo_url := url, eo_resolved := True\<rparr>) d of
                              (o', d) \<Rightarrow> (o', offered, d))))))"

definition offerPodMonitor :: "(string \<Rightarrow> duration option) \<Rightarrow> Pod \<Rightarrow> string \<Rightarrow> Endpoint \<Rightarrow> targetDedup \<Rightarrow> endpointOffer \<times> targetDedup" where
  "offerPodMonitor promDuration pod name ep d =
     (case PodMonitorTargetURL pod ep of
        None \<Rightarrow> (zero_offer, d)
      | Some url \<Rightarrow>
          (case monitorHolder url d of
             Some i \<Rightarrow>
               (case mergeInto promDuration i url name ep d of
                  (rep, d) \<Rightarrow> (zero_offer\<lparr>eo_url := url, eo_resolved := True, eo_merged := True, eo_held := Some i, eo_rep := rep\<rparr>, d))
           | None \<Rightarrow> add_all (PodMonitorTargets pod name ep) (zero_offer\<lparr>eo_url := url, eo_resolved := True\<rparr>) d))"

subsection \<open>The invariant of the accumulator\<close>

text \<open>The targets of the current pod, and what they weigh in the served document.\<close>
definition pod_window :: "targetDedup \<Rightarrow> ScrapeTarget list" where
  "pod_window d = drop (d_base d) (d_out d)"

definition doc_bytes :: "ScrapeTarget \<Rightarrow> int" where
  "doc_bytes t = TargetDocBytes t (int (PodDocBytes (t_Pod t)))"

definition served_bytes :: "targetDedup \<Rightarrow> int" where
  "served_bytes d = sum_list (map doc_bytes (pod_window d))"

definition dedup_ok :: "Pod \<Rightarrow> targetDedup \<Rightarrow> bool" where
  "dedup_ok pod d \<longleftrightarrow>
     d_base d \<le> length (d_out d) \<and>
     (\<forall>u i. get (urlOwner d) u = Some i \<longleftrightarrow> d_base d \<le> i \<and> i < length (d_out d) \<and> t_URL (d_out d ! i) = u) \<and>
     length (pod_window d) \<le> MaxPortsPerPod \<and> (\<forall>t \<in> set (pod_window d). t_Pod t = pod) \<and>
     podBytes d \<in> {0, int (PodDocBytes pod)} \<and> (pod_window d \<noteq> [] \<longrightarrow> podBytes d = int (PodDocBytes pod)) \<and>
     served_bytes d \<le> d_bytes d"

text \<open>What a later offer keeps of a target that is served: a monitor's target keeps its name and its configuration.\<close>
definition keeps :: "ScrapeTarget \<Rightarrow> ScrapeTarget \<Rightarrow> bool" where
  "keeps t t' \<longleftrightarrow> t_URL t' = t_URL t \<and> t_Pod t' = t_Pod t \<and>
     (configuredTarget t \<longrightarrow> t_Monitor t' = t_Monitor t \<and> prefix (t_MetricRelabelings t) (t_MetricRelabelings t') \<and>
        prefix (t_Monitors t) (t_Monitors t') \<and> (t_ScrapeAuth t \<noteq> zero_ScrapeAuth \<longrightarrow> t_ScrapeAuth t' = t_ScrapeAuth t))"

definition grows :: "targetDedup \<Rightarrow> targetDedup \<Rightarrow> bool" where
  "grows d d' \<longleftrightarrow> d_base d' = d_base d \<and> take (d_base d) (d_out d') = take (d_base d) (d_out d) \<and>
     length (d_out d) \<le> length (d_out d') \<and>
     (\<forall>i. d_base d \<le> i \<and> i < length (d_out d) \<longrightarrow> keeps (d_out d ! i) (d_out d' ! i))"

lemma keeps_refl [simp]: "keeps t t"
  by (simp add: keeps_def)

lemma keeps_trans: "keeps t u \<Longrightarrow> keeps u v \<Longrightarrow> keeps t v"
  unfolding keeps_def configuredTarget_def by (auto intro: prefix_order.trans)

lemma grows_refl [simp]: "grows d d"
  by (simp add: grows_def)

lemma grows_trans: "grows d e \<Longrightarrow> grows e f \<Longrightarrow> grows d f"
  unfolding grows_def by (auto intro: keeps_trans)

lemma grows_frame: "d_out d' = d_out d \<Longrightarrow> d_base d' = d_base d \<Longrightarrow> grows d d'"
  by (simp add: grows_def)

lemma sum_list_replace:
  fixes f :: "'a \<Rightarrow> int"
  shows "k < length xs \<Longrightarrow> sum_list (map f (xs[k := x])) = sum_list (map f xs) + f x - f (xs ! k)"
  by (induction xs arbitrary: k) (auto split: nat.split)

text \<open>Every arm that changes a held target replaces it in place.\<close>
lemma replace_ok:
  assumes ok: "dedup_ok pod d" and i: "d_base d \<le> i" "i < length (d_out d)"
    and t: "t_URL t = t_URL (d_out d ! i)" "t_Pod t = pod"
    and d': "d_out d' = (d_out d)[i := t]" "d_base d' = d_base d" "urlOwner d' = urlOwner d" "podBytes d' = podBytes d"
    and paid: "d_bytes d + int (TargetOwnBytes t) - int (TargetOwnBytes (d_out d ! i)) \<le> d_bytes d'"
  shows "dedup_ok pod d'"
proof -
  have w: "pod_window d' = (pod_window d)[i - d_base d := t]" using i by (simp add: pod_window_def d' drop_update_swap)
  have at: "pod_window d ! (i - d_base d) = d_out d ! i" "i - d_base d < length (pod_window d)" using i by (simp_all add: pod_window_def)
  have p: "t_Pod (d_out d ! i) = pod" using ok at unfolding dedup_ok_def by (metis nth_mem)
  have "served_bytes d' = served_bytes d + doc_bytes t - doc_bytes (d_out d ! i)"
    unfolding served_bytes_def w by (simp add: sum_list_replace at)
  also have "\<dots> \<le> d_bytes d'" using ok paid t p by (simp add: dedup_ok_def doc_bytes_def TargetDocBytes_def)
  finally have "served_bytes d' \<le> d_bytes d'" .
  moreover have "set (pod_window d') \<subseteq> insert t (set (pod_window d))" unfolding w by (rule set_update_subset_insert)
  moreover have "t_URL ((d_out d)[i := t] ! j) = t_URL (d_out d ! j)" for j by (cases "i = j") (use i t in auto)
  ultimately show ?thesis using ok t unfolding dedup_ok_def by (auto simp: d' w)
qed

lemma replace_grows:
  assumes "d_base d \<le> i" "i < length (d_out d)" "keeps (d_out d ! i) t" "d_out d' = (d_out d)[i := t]" "d_base d' = d_base d"
  shows "grows d d'"
  using assms by (auto simp: grows_def nth_list_update)

lemma held_index:
  assumes "dedup_ok pod d" "get (urlOwner d) u = Some i"
  shows "d_base d \<le> i" "i < length (d_out d)" "t_URL (d_out d ! i) = u" "t_Pod (d_out d ! i) = pod"
proof -
  show i: "d_base d \<le> i" "i < length (d_out d)" "t_URL (d_out d ! i) = u" using assms by (simp_all add: dedup_ok_def)
  have "d_out d ! i = pod_window d ! (i - d_base d)" "i - d_base d < length (pod_window d)" using i by (simp_all add: pod_window_def)
  then have "d_out d ! i \<in> set (pod_window d)" by simp
  then show "t_Pod (d_out d ! i) = pod" using assms(1) by (simp add: dedup_ok_def)
qed

lemma reset_ok: "dedup_ok pod (Dedup_reset ts d)"
  by (simp add: dedup_ok_def Dedup_reset_def pod_window_def served_bytes_def)

subsection \<open>Every operation keeps it\<close>

lemma refuse_fields:
  "d_out (snd (refuse v d)) = d_out d" "d_base (snd (refuse v d)) = d_base d" "urlOwner (snd (refuse v d)) = urlOwner d"
  "podBytes (snd (refuse v d)) = podBytes d" "d_bytes (snd (refuse v d)) = d_bytes d" "fst (refuse v d) = v"
  by (simp_all add: refuse_def Let_def)

lemma dedup_ok_cong:
  assumes "d_out d' = d_out d" "d_base d' = d_base d" "urlOwner d' = urlOwner d" "podBytes d' = podBytes d" "d_bytes d' = d_bytes d"
  shows "dedup_ok pod d' \<longleftrightarrow> dedup_ok pod d"
  by (simp add: dedup_ok_def pod_window_def served_bytes_def assms)

lemma refuse_ok: "refuse v d = (r, d') \<Longrightarrow> dedup_ok pod d' = dedup_ok pod d \<and> grows d d' \<and> r = v"
  using dedup_ok_cong [of "snd (refuse v d)" d pod] refuse_fields [of v d] by (auto intro: grows_frame)

lemma PodDocBytes_pos: "0 < PodDocBytes p"
  by (simp add: PodDocBytes_def podFixedBytes_def)

lemma ServiceView_own:
  "TargetOwnBytes (t\<lparr>t_Service := s\<rparr>) + ServiceViewBytes (t_Service t) = TargetOwnBytes t + ServiceViewBytes s"
  by (simp add: TargetOwnBytes_def Let_def)

lemma untrimView_fields [simp]:
  "d_out (untrimView u d) = d_out d" "d_base (untrimView u d) = d_base d" "urlOwner (untrimView u d) = urlOwner d"
  "podBytes (untrimView u d) = podBytes d" "d_bytes (untrimView u d) = d_bytes d"
  by (simp_all add: untrimView_def Let_def)

text \<open>What the bound on a Service view changes: at most the view, and the growth it reports is the truth.\<close>
lemma boundSwapView_spec:
  assumes "boundSwapView same i cand svc grown d = (g, cand', d')" "grown = int (TargetOwnBytes cand) - b"
  shows "\<exists>s. cand' = cand\<lparr>t_Service := s\<rparr>" "g = int (TargetOwnBytes cand') - b"
    "d_out d' = d_out d" "d_base d' = d_base d" "urlOwner d' = urlOwner d" "podBytes d' = podBytes d" "d_bytes d' = d_bytes d"
proof -
  have "cand' = cand\<lparr>t_Service := t_Service cand'\<rparr>"
    using assms(1) by (auto simp: boundSwapView_def Let_def split: if_splits)
  then show "\<exists>s. cand' = cand\<lparr>t_Service := s\<rparr>" by blast
  show "g = int (TargetOwnBytes cand') - b"
    using assms ServiceView_own [where t = cand and s = "ServiceIdentityView (t_Service cand)"]
    by (auto simp: boundSwapView_def Let_def split: if_splits)
  show "d_out d' = d_out d" "d_base d' = d_base d" "urlOwner d' = urlOwner d" "podBytes d' = podBytes d" "d_bytes d' = d_bytes d"
    using assms(1) by (auto simp: boundSwapView_def Let_def split: if_splits)
qed


lemma chargeSwap_fields [simp]:
  "d_out (chargeSwap n d) = d_out d" "d_base (chargeSwap n d) = d_base d" "urlOwner (chargeSwap n d) = urlOwner d"
  "podBytes (chargeSwap n d) = podBytes d" "d_bytes (chargeSwap n d) = d_bytes d + max 0 n"
  by (simp_all add: chargeSwap_def)

text \<open>One step of the accumulator: the invariant holds after it and what was served is kept.\<close>
definition good_step :: "Pod \<Rightarrow> targetDedup \<Rightarrow> targetDedup \<Rightarrow> bool" where
  "good_step pod d d' \<longleftrightarrow> dedup_ok pod d' \<and> grows d d'"

lemma good_trans: "good_step pod d e \<Longrightarrow> good_step pod e f \<Longrightarrow> good_step pod d f"
  unfolding good_step_def by (blast intro: grows_trans)

lemma swap_ok:
  assumes ok: "dedup_ok pod d" and i: "d_base d \<le> i" "i < length (d_out d)"
    and b: "boundSwapView same i cand svc (int (TargetOwnBytes cand) - int (TargetOwnBytes (d_out d ! i))) d = (g, cand', d')"
    and c: "t_URL cand = t_URL (d_out d ! i)" "t_Pod cand = pod" "\<And>s. keeps (d_out d ! i) (cand\<lparr>t_Service := s\<rparr>)"
  shows "good_step pod d (chargeSwap g (d'\<lparr>d_out := (d_out d')[i := cand']\<rparr>))"
proof -
  note b' = boundSwapView_spec [OF b refl]
  obtain s where s: "cand' = cand\<lparr>t_Service := s\<rparr>" using b'(1) by blast
  show ?thesis unfolding good_step_def
  proof
    show "dedup_ok pod (chargeSwap g (d'\<lparr>d_out := (d_out d')[i := cand']\<rparr>))"
      by (rule replace_ok [OF ok i, of cand']) (use b' c s in simp_all)
    show "grows d (chargeSwap g (d'\<lparr>d_out := (d_out d')[i := cand']\<rparr>))"
      by (rule replace_grows [OF i, of cand']) (use b' c s in simp_all)
  qed
qed

lemma upgrade_ok:
  assumes ok: "dedup_ok pod d" and i: "get (urlOwner d) (t_URL t) = Some i"
    and t: "t_Pod t = pod" "\<not> configuredTarget (d_out d ! i)"
  shows "good_step pod d (upgrade i t d)"
proof -
  note h = held_index [OF ok i]
  let ?c = "carryForward t (d_out d ! i)"
  obtain g c d' where b: "boundSwapView (t_Service t = None) i ?c (t_Service (d_out d ! i))
      (int (TargetOwnBytes ?c) - int (TargetOwnBytes (d_out d ! i))) d = (g, c, d')" by (metis prod.exhaust)
  have c: "t_URL ?c = t_URL (d_out d ! i)" "t_Pod ?c = pod" using h t by (simp_all add: carryForward_def)
  have "keeps (d_out d ! i) (?c\<lparr>t_Service := s\<rparr>)" for s using h t by (simp add: keeps_def c [unfolded h(3)])
  from swap_ok [OF ok h(1,2) b c this] show ?thesis by (simp add: upgrade_def Let_def b)
qed

lemma keep_held_ok:
  assumes ok: "dedup_ok pod d" and i: "get (urlOwner d) (t_URL t) = Some i"
  shows "good_step pod d (keep_held i t d)"
proof (cases "t_Service (d_out d ! i) \<noteq> None \<or> t_Service t = None")
  case True
  then show ?thesis using ok by (simp add: keep_held_def Let_def good_step_def)
next
  case False
  note h = held_index [OF ok i]
  let ?c = "carryForward (d_out d ! i) t"
  have c: "?c = (d_out d ! i)\<lparr>t_Service := t_Service t\<rparr>" using False by (simp add: carryForward_def)
  have own: "int (ServiceViewBytes (t_Service ?c)) = int (TargetOwnBytes ?c) - int (TargetOwnBytes (d_out d ! i))"
    using ServiceView_own [where t = "d_out d ! i" and s = "t_Service t"] False by (simp add: c ServiceViewBytes_def)
  obtain g c' d' where b: "boundSwapView False i ?c None (int (TargetOwnBytes ?c) - int (TargetOwnBytes (d_out d ! i))) d = (g, c', d')"
    by (metis prod.exhaust)
  have "good_step pod d (chargeSwap g (d'\<lparr>d_out := (d_out d')[i := c']\<rparr>))"
    by (rule swap_ok [OF ok h(1,2) b]) (use h in \<open>simp_all add: c keeps_def\<close>)
  then show ?thesis using False b by (auto simp: keep_held_def Let_def own)
qed

text \<open>The arm that appends: below both ceilings, or the first of its pod.\<close>
lemma append_ok:
  assumes ok: "dedup_ok pod d" and new: "get (urlOwner d) (t_URL t) = None" "t_Pod t = pod" "length (pod_window d) < MaxPortsPerPod"
  shows "good_step pod d (d\<lparr>podBytes := int (PodDocBytes pod), d_bytes := d_bytes d + doc_bytes t,
    urlOwner := put (t_URL t) (length (d_out d)) (urlOwner d), d_out := d_out d @ [t]\<rparr>)" (is "good_step pod d ?d")
proof -
  have base: "d_base d \<le> length (d_out d)" using ok by (simp add: dedup_ok_def)
  then have w: "pod_window ?d = pod_window d @ [t]" by (simp add: pod_window_def)
  have s: "served_bytes ?d \<le> d_bytes ?d" using ok by (simp add: served_bytes_def [of ?d] w dedup_ok_def served_bytes_def [symmetric])
  have idx: "get (urlOwner ?d) u = Some i \<longleftrightarrow> d_base d \<le> i \<and> i < length (d_out d @ [t]) \<and> t_URL ((d_out d @ [t]) ! i) = u" for u i
  proof (cases "i = length (d_out d)")
    case True
    then show ?thesis using ok base by (auto simp: dedup_ok_def)
  next
    case False
    have old: "get (urlOwner d) v = Some i \<longleftrightarrow> d_base d \<le> i \<and> i < length (d_out d) \<and> t_URL (d_out d ! i) = v" for v
      using ok by (simp add: dedup_ok_def)
    show ?thesis using old [of u] old [of "t_URL t"] new(1) base False by (auto simp: nth_append)
  qed
  have "dedup_ok pod ?d"
    unfolding dedup_ok_def w using s idx new base ok by (auto simp: dedup_ok_def)
  moreover have "grows d ?d" using base by (simp add: grows_def nth_append)
  ultimately show ?thesis by (simp add: good_step_def)
qed


lemma add_url_ok:
  assumes ok: "dedup_ok pod d" and new: "get (urlOwner d) (t_URL t) = None" "t_Pod t = pod" and a: "add_url t d = (v, d')"
  shows "good_step pod d d'"
    and "v = targetAccepted \<Longrightarrow> d_out d' = d_out d @ [t] \<and> (pod_window d \<noteq> [] \<longrightarrow> d_bytes d' \<le> MaxTargetBytesPerPod)"
    and "v \<noteq> targetAccepted \<Longrightarrow> d_out d' = d_out d"
proof -
  have w: "pod_window d = [] \<longleftrightarrow> length (d_out d) = d_base d" "length (pod_window d) = length (d_out d) - d_base d"
    using ok by (auto simp: pod_window_def dedup_ok_def)
  define e where "e = d\<lparr>podBytes := int (PodDocBytes pod)\<rparr>"
  have e: "(if podBytes d = 0 then d\<lparr>podBytes := int (PodDocBytes (t_Pod t))\<rparr> else d) = e"
    using ok new PodDocBytes_pos [of pod] by (auto simp: dedup_ok_def e_def)
  have eok: "dedup_ok pod e" using ok by (simp add: e_def dedup_ok_def pod_window_def served_bytes_def)
  have ge: "grows d e" by (rule grows_frame) (simp_all add: e_def)
  have cost: "TargetDocBytes t (int (PodDocBytes pod)) = doc_bytes t" by (simp add: doc_bytes_def new)
  let ?r = "d\<lparr>podBytes := int (PodDocBytes pod), d_bytes := d_bytes d + doc_bytes t,
    urlOwner := put (t_URL t) (length (d_out d)) (urlOwner d), d_out := d_out d @ [t]\<rparr>"
  consider (count) "refuse targetRefusedCount d = (v, d')" | (bytes) "refuse targetRefusedBytes e = (v, d')"
    | (taken) "v = targetAccepted" "d' = ?r" "length (pod_window d) < MaxPortsPerPod" "pod_window d \<noteq> [] \<longrightarrow> d_bytes d + doc_bytes t \<le> MaxTargetBytesPerPod"
    using a unfolding add_url_def e by (auto simp: Let_def cost w e_def split: if_splits)
  then have "good_step pod d d' \<and> (v = targetAccepted \<longrightarrow> d_out d' = d_out d @ [t] \<and> (pod_window d \<noteq> [] \<longrightarrow> d_bytes d' \<le> MaxTargetBytesPerPod)) \<and>
      (v \<noteq> targetAccepted \<longrightarrow> d_out d' = d_out d)"
  proof cases
    case count
    then show ?thesis using refuse_ok [OF count, of pod] refuse_fields(1) [of targetRefusedCount d] ok by (auto simp: good_step_def)
  next
    case bytes
    then show ?thesis using refuse_ok [OF bytes, of pod] refuse_fields(1) [of targetRefusedBytes e] eok grows_trans [OF ge]
      by (auto simp: good_step_def e_def)
  next
    case taken
    then show ?thesis using append_ok [OF ok new taken(3)] by simp
  qed
  then show "good_step pod d d'" "v = targetAccepted \<Longrightarrow> d_out d' = d_out d @ [t] \<and> (pod_window d \<noteq> [] \<longrightarrow> d_bytes d' \<le> MaxTargetBytesPerPod)"
    "v \<noteq> targetAccepted \<Longrightarrow> d_out d' = d_out d" by blast+
qed

lemma Dedup_add_ok:
  assumes ok: "dedup_ok pod d" and t: "t_Pod t = pod"
  shows "good_step pod d (snd (Dedup_add t d))"
proof (cases "get (urlOwner d) (t_URL t)")
  case None
  obtain v d' where a: "add_url t d = (v, d')" by fastforce
  show ?thesis using add_url_ok(1) [OF ok None t a] by (simp add: Dedup_add_def None a)
next
  case (Some i)
  then show ?thesis using upgrade_ok [OF ok Some t] keep_held_ok [OF ok Some] by (simp add: Dedup_add_def)
qed

lemma add_all_ok:
  assumes "dedup_ok pod d" "\<forall>t \<in> set ts. t_Pod t = pod"
  shows "good_step pod d (snd (add_all ts o' d))"
  using assms
proof (induction ts arbitrary: d o')
  case Nil
  then show ?case by (simp add: good_step_def)
next
  case (Cons t ts)
  obtain v e where a: "Dedup_add t d = (v, e)" by fastforce
  have e: "good_step pod d e" using Dedup_add_ok [OF Cons.prems(1), of t] Cons.prems(2) by (simp add: a)
  then have "dedup_ok pod e" by (simp add: good_step_def)
  from good_trans [OF e Cons.IH [OF this]] show ?case using Cons.prems(2) by (simp add: a)
qed

lemma mergeInto_ok:
  assumes ok: "dedup_ok pod d" and i: "get (urlOwner d) url = Some i"
  shows "good_step pod d (snd (mergeInto pd i url monitor ep d))"
proof -
  note h = held_index [OF ok i]
  obtain rep t where m: "MergeMonitorEndpoint pd monitor ep (d_out d ! i) = (rep, t)" by fastforce
  note r = merge_result [OF m, unfolded merge_result_def same_target_def]
  define e where "e = charge (rep_Bytes rep) (d\<lparr>d_out := (d_out d)[i := t]\<rparr>)"
  have e: "d_out e = (d_out d)[i := t]" "d_base e = d_base d" "urlOwner e = urlOwner d" "podBytes e = podBytes d" "d_bytes e = d_bytes d + rep_Bytes rep"
    by (simp_all add: e_def charge_def)
  have k: "keeps (d_out d ! i) t" using r by (simp add: keeps_def)
  have "dedup_ok pod e" by (rule replace_ok [OF ok h(1,2), of t]) (use r h e in simp_all)
  moreover have "grows d e" by (rule replace_grows [OF h(1,2) k]) (simp_all add: e)
  ultimately have "good_step pod d e" by (simp add: good_step_def)
  moreover have "snd (mergeInto pd i url monitor ep d) = (if rep_AuthAdopted rep then adoptedAuth url monitor e else e)"
    by (simp add: mergeInto_def m Let_def e_def)
  moreover have "good_step pod d (adoptedAuth url monitor e) = good_step pod d e"
    by (simp add: good_step_def adoptedAuth_def dedup_ok_def pod_window_def served_bytes_def grows_def)
  ultimately show ?thesis by simp
qed

lemma makeTarget_Pod [simp]: "t_Pod (makeTarget pod s p port) = pod"
  by (simp add: makeTarget_def split: prod.split)

lemma targets_pod:
  "t \<in> set (MonitorTargets pod svc m ep) \<Longrightarrow> t_Pod t = pod"
  "t \<in> set (PodMonitorTargets pod m ep) \<Longrightarrow> t_Pod t = pod"
  "t \<in> set (PodTargets pod) \<Longrightarrow> t_Pod t = pod"
  by (auto simp: MonitorTargets_def PodMonitorTargets_def PodTargets_def stampEndpoint_def split: option.splits if_splits)

lemma holder_index: "monitorHolder url d = Some i \<Longrightarrow> get (urlOwner d) url = Some i"
  by (auto simp: monitorHolder_def split: option.splits if_splits)

lemma offerServiceMonitor_ok:
  assumes ok: "dedup_ok pod d" and o: "offerServiceMonitor pd pod svc sme (offered, d) = (r, offered', d')"
  shows "good_step pod d d'"
proof -
  have same: "good_step pod d d" using ok by (simp add: good_step_def)
  have m: "good_step pod d (snd (mergeInto pd i url mon ep d))" if "monitorHolder url d = Some i" for i url mon ep
    by (rule mergeInto_ok [OF ok holder_index [OF that]])
  have a: "good_step pod d (snd (add_all (MonitorTargets pod svc mon ep) o' d))" for mon ep o'
    by (rule add_all_ok [OF ok]) (auto dest: targets_pod)
  show ?thesis using o same m a
    by (auto simp: offerServiceMonitor_def offers_first_def split: option.splits prod.splits if_splits) (metis snd_conv)+
qed

lemma offerPodMonitor_ok:
  assumes ok: "dedup_ok pod d" and o: "offerPodMonitor pd pod name ep d = (r, d')"
  shows "good_step pod d d'"
proof -
  have same: "good_step pod d d" using ok by (simp add: good_step_def)
  have m: "good_step pod d (snd (mergeInto pd i url name ep d))" if "monitorHolder url d = Some i" for i url
    by (rule mergeInto_ok [OF ok holder_index [OF that]])
  have a: "good_step pod d (snd (add_all (PodMonitorTargets pod name ep) o' d))" for o'
    by (rule add_all_ok [OF ok]) (auto dest: targets_pod)
  show ?thesis using o same m a
    by (auto simp: offerPodMonitor_def split: option.splits prod.splits if_splits) (metis snd_conv)+
qed

subsection \<open>What an offer achieves\<close>

text \<open>The URLs the pod is scraped on, and the number of refusals so far.\<close>
definition served_urls :: "targetDedup \<Rightarrow> string set" where
  "served_urls d = t_URL ` set (pod_window d)"

lemma served_iff:
  assumes "dedup_ok pod d"
  shows "u \<in> served_urls d \<longleftrightarrow> (\<exists>i. get (urlOwner d) u = Some i)"
proof
  assume "u \<in> served_urls d"
  then obtain j where "j < length (pod_window d)" "t_URL (pod_window d ! j) = u" by (auto simp: served_urls_def in_set_conv_nth)
  then show "\<exists>i. get (urlOwner d) u = Some i"
    using assms by (auto simp: dedup_ok_def pod_window_def intro!: exI [of _ "d_base d + j"])
next
  assume "\<exists>i. get (urlOwner d) u = Some i"
  then obtain i where "get (urlOwner d) u = Some i" ..
  note h = held_index [OF assms this]
  then have "i - d_base d < length (pod_window d)" "t_URL (pod_window d ! (i - d_base d)) = u" by (simp_all add: pod_window_def)
  then show "u \<in> served_urls d" unfolding served_urls_def by (metis image_eqI nth_mem)
qed

lemma grows_served:
  assumes "dedup_ok pod d" "dedup_ok pod d'" "grows d d'"
  shows "served_urls d \<subseteq> served_urls d'"
proof
  fix u
  assume "u \<in> served_urls d"
  then obtain i where "get (urlOwner d) u = Some i" using served_iff [OF assms(1)] by blast
  note h = held_index [OF assms(1) this]
  then have "get (urlOwner d') u = Some i" using assms(2,3) by (auto simp: dedup_ok_def grows_def keeps_def)
  then show "u \<in> served_urls d'" using served_iff [OF assms(2)] by blast
qed

text \<open>An offered URL is served afterwards, or its refusal has been counted.\<close>
definition settled :: "string \<Rightarrow> targetDedup \<Rightarrow> targetDedup \<Rightarrow> bool" where
  "settled u d d' \<longleftrightarrow> d_capped d \<le> d_capped d' \<and> (d_capped d' = d_capped d \<longrightarrow> u \<in> served_urls d')"

lemma capped_simps [simp]:
  "d_capped (untrimView u d) = d_capped d" "d_capped (chargeSwap n d) = d_capped d" "d_capped (charge n d) = d_capped d"
  "d_capped (adoptedAuth u m d) = d_capped d" "d_capped (snd (refuse v d)) = Suc (d_capped d)"
  by (simp_all add: untrimView_def chargeSwap_def charge_def adoptedAuth_def refuse_def Let_def)

lemma swap_capped:
  "boundSwapView same i c s g d = (g', c', d') \<Longrightarrow> d_capped d' = d_capped d"
  by (auto simp: boundSwapView_def Let_def split: if_splits)

lemma held_capped: "d_capped (upgrade i t d) = d_capped d" "d_capped (keep_held i t d) = d_capped d"
  by (auto simp: upgrade_def keep_held_def Let_def split: prod.splits dest: swap_capped)

lemma add_url_capped:
  assumes "add_url t d = (v, d')"
  shows "d_capped d' = (if v = targetAccepted then d_capped d else Suc (d_capped d))"
  using assms by (auto simp: add_url_def refuse_def Let_def split: if_splits)


lemma Dedup_add_settles:
  assumes ok: "dedup_ok pod d" and t: "t_Pod t = pod" and a: "Dedup_add t d = (v, d')"
  shows "settled (t_URL t) d d'" "v \<noteq> targetAccepted \<Longrightarrow> d_capped d < d_capped d'"
proof -
  have ok': "dedup_ok pod d'" and g: "grows d d'" using Dedup_add_ok [OF ok t] by (simp_all add: a good_step_def)
  have "settled (t_URL t) d d' \<and> (v \<noteq> targetAccepted \<longrightarrow> d_capped d < d_capped d')"
  proof (cases "get (urlOwner d) (t_URL t)")
    case None
    then have u: "add_url t d = (v, d')" using a by (simp add: Dedup_add_def)
    have "t_URL t \<in> served_urls d'" if "v = targetAccepted"
      using add_url_ok(2) [OF ok None t u that] ok g by (auto simp: served_urls_def pod_window_def grows_def dedup_ok_def)
    then show ?thesis using add_url_capped [OF u] by (auto simp: settled_def)
  next
    case (Some i)
    then have "d_capped d' = d_capped d" "v = targetAccepted" using a by (auto simp: Dedup_add_def held_capped split: if_splits)
    moreover have "t_URL t \<in> served_urls d'" using grows_served [OF ok ok' g] Some served_iff [OF ok] by blast
    ultimately show ?thesis by (simp add: settled_def)
  qed
  then show "settled (t_URL t) d d'" "v \<noteq> targetAccepted \<Longrightarrow> d_capped d < d_capped d'" by blast+
qed

lemma settled_later:
  assumes "settled u d e" "good_step pod e f" "d_capped e \<le> d_capped f" "dedup_ok pod e"
  shows "settled u d f"
  using assms grows_served [of pod e f] by (auto simp: settled_def good_step_def)

lemma add_all_settles:
  assumes "dedup_ok pod d" "\<forall>t \<in> set ts. t_Pod t = pod"
  shows "d_capped d \<le> d_capped (snd (add_all ts o' d)) \<and> (\<forall>t \<in> set ts. settled (t_URL t) d (snd (add_all ts o' d)))"
  using assms
proof (induction ts arbitrary: d o')
  case (Cons t ts)
  obtain v e where a: "Dedup_add t d = (v, e)" by fastforce
  have t: "t_Pod t = pod" using Cons.prems(2) by simp
  have e: "dedup_ok pod e" using Dedup_add_ok [OF Cons.prems(1) t] by (simp add: a good_step_def)
  note s = Dedup_add_settles [OF Cons.prems(1) t a]
  let ?o = "if v \<noteq> targetAccepted then o'\<lparr>eo_refused := v\<rparr> else o'"
  have later: "d_capped e \<le> d_capped (snd (add_all ts ?o e))" "\<forall>t \<in> set ts. settled (t_URL t) e (snd (add_all ts ?o e))"
    using Cons.IH [OF e] Cons.prems(2) by auto
  have g: "good_step pod e (snd (add_all ts ?o e))" using add_all_ok [OF e] Cons.prems(2) by simp
  have "settled (t_URL t) d (snd (add_all ts ?o e))" by (rule settled_later [OF s(1) g later(1) e])
  moreover have "settled (t_URL u) d (snd (add_all ts ?o e))" if "u \<in> set ts" for u
    using later that s(1) by (auto simp: settled_def)
  ultimately show ?case using s(1) later(1) by (auto simp: a settled_def)
qed simp

lemma mergeInto_capped: "d_capped (snd (mergeInto pd i url m ep d)) = d_capped d"
  by (simp add: mergeInto_def Let_def split: prod.split)

lemma merge_settles:
  assumes "dedup_ok pod d" "monitorHolder url d = Some i"
  shows "settled url d (snd (mergeInto pd i url m ep d))"
proof -
  have "good_step pod d (snd (mergeInto pd i url m ep d))" by (rule mergeInto_ok [OF assms(1) holder_index [OF assms(2)]])
  then show ?thesis
    using grows_served [OF assms(1)] served_iff [OF assms(1)] holder_index [OF assms(2)]
    unfolding settled_def good_step_def mergeInto_capped by blast
qed

text \<open>A monitor's endpoint that resolves on the pod is served, unless it is a repetition or the refusal is counted.\<close>
lemma offerPodMonitor_settles:
  assumes ok: "dedup_ok pod d" and o: "offerPodMonitor pd pod name ep d = (r, d')"
  shows "d_capped d \<le> d_capped d' \<and> (\<forall>u. PodMonitorTargetURL pod ep = Some u \<longrightarrow> settled u d d')"
proof (cases "PodMonitorTargetURL pod ep")
  case None
  then show ?thesis using o by (simp add: offerPodMonitor_def)
next
  case (Some u)
  have ts: "map t_URL (PodMonitorTargets pod name ep) = [u]"
    using Some by (auto simp: PodMonitorTargets_def PodMonitorTargetURL_def stampEndpoint_def makeTarget_URL split: option.splits)
  have a: "settled u d (snd (add_all (PodMonitorTargets pod name ep) o' d))" for o'
  proof -
    have "\<forall>t \<in> set (PodMonitorTargets pod name ep). t_Pod t = pod" by (simp add: targets_pod)
    from add_all_settles [OF ok this, of o'] ts show ?thesis by (metis list.set_intros(1) map_eq_Cons_conv)
  qed
  have "settled u d d'"
    using o Some a merge_settles [OF ok, of u]
    by (auto simp: offerPodMonitor_def split: option.splits prod.splits) (metis snd_conv)+
  then show ?thesis using Some by (simp add: settled_def)
qed

lemma offerServiceMonitor_settles:
  assumes ok: "dedup_ok pod d" and o: "offerServiceMonitor pd pod svc sme (offered, d) = (r, offered', d')"
  shows "d_capped d \<le> d_capped d' \<and>
    set offered' = set offered \<union> (case MonitorTargetURL pod svc (me_endpoint sme) of None \<Rightarrow> {} | Some u \<Rightarrow> {(u, me_ptr sme)}) \<and>
    (\<forall>u. MonitorTargetURL pod svc (me_endpoint sme) = Some u \<longrightarrow>
       ((u, me_ptr sme) \<notin> set offered \<longrightarrow> settled u d d') \<and> ((u, me_ptr sme) \<in> set offered \<longrightarrow> d' = d))"
proof (cases "MonitorTargetURL pod svc (me_endpoint sme)")
  case None
  then show ?thesis using o by (simp add: offerServiceMonitor_def)
next
  case (Some u)
  let ?ts = "MonitorTargets pod svc (me_monitor sme) (me_endpoint sme)"
  have ts: "map t_URL ?ts = [u]"
    using Some by (auto simp: MonitorTargets_def MonitorTargetURL_def stampEndpoint_def makeTarget_URL split: option.splits)
  have a: "settled u d (snd (add_all ?ts o' d))" for o'
  proof -
    have "\<forall>t \<in> set ?ts. t_Pod t = pod" using targets_pod(1) by blast
    from add_all_settles [OF ok this, of o'] ts show ?thesis by (metis list.set_intros(1) map_eq_Cons_conv)
  qed
  show ?thesis
  proof (cases "(u, me_ptr sme) \<in> set offered")
    case True
    then show ?thesis using o Some by (auto simp: offerServiceMonitor_def offers_first_def)
  next
    case False
    have "offered' = (u, me_ptr sme) # offered"
      using o Some False by (auto simp: offerServiceMonitor_def offers_first_def split: option.splits prod.splits)
    moreover have "settled u d d'"
      using o Some False a merge_settles [OF ok, of u]
      by (auto simp: offerServiceMonitor_def offers_first_def split: option.splits prod.splits) (metis snd_conv)+
    ultimately show ?thesis using Some False by (auto simp: settled_def)
  qed
qed

end
