(* ===== verification/MonitorRelabel.thy ===== *)
theory MonitorRelabel
  imports TargetMerge PeerIP
begin

section \<open>The relabel chain of a monitor (internal/servicemonitors/relabel.go)\<close>

text \<open>
  Which rules of an endpoint's \<^verbatim>\<open>metricRelabelings\<close> are applied: the keep and drop rules, within three
  budgets, provided that no rule that is left out would have changed a label they read. The walk is one
  pass that also writes the report of what is left out.

  What a regular expression costs and whether a compiled one matches are read through
  \<open>regex_engine\<close>: the cost of \<^verbatim>\<open>kubemeta.RelabelRegexCost\<close>, with the two errors it tells apart, whether
  \<^verbatim>\<open>CompileRelabelRegex\<close> succeeds, and \<^verbatim>\<open>MatchString\<close> of the anchored expression.
\<close>

subsection \<open>Strings\<close>

text \<open>
  \<^verbatim>\<open>strings.ToLower\<close> as far as a comparison with an ASCII word can tell: besides the ASCII letters, the Kelvin
  sign (E2 84 AA) and the dotted capital I (C4 B0) have an ASCII letter as their lower case, and every
  other rune is mapped outside ASCII.
\<close>
fun ToLower :: "string \<Rightarrow> string" where
  "ToLower [] = []"
| "ToLower (a # s) =
     (if prefix [CHR 0x84, CHR 0xAA] s \<and> a = CHR 0xE2 then CHR ''k'' # ToLower (drop 2 s)
      else if prefix [CHR 0xB0] s \<and> a = CHR 0xC4 then CHR ''i'' # ToLower (drop 1 s)
      else lower_ascii a # ToLower s)"

subsection \<open>Data\<close>

datatype regex_cost = Cost nat | TooLarge | Invalid

record regex_engine =
  RelabelRegexCost :: "string \<Rightarrow> regex_cost"
  compiles :: "string \<Rightarrow> bool"
  MatchString :: "string \<Rightarrow> string \<Rightarrow> bool"

text \<open>One entry of the CRD's \<^verbatim>\<open>metricRelabelings\<close>.\<close>
record relabelSpec =
  rs_Action :: string
  rs_SourceLabels :: "string list"
  rs_Regex :: string
  rs_Separator :: string
  rs_TargetLabel :: string

record namePredicate =
  np_re :: string
  np_removes :: bool

record relabelWrites =
  w_all :: bool
  w_names :: "string list"
  w_preds :: "namePredicate list"
  w_cost :: nat

definition zero_writes :: relabelWrites where
  "zero_writes = \<lparr>w_all = False, w_names = [], w_preds = [], w_cost = 0\<rparr>"

definition MaxRelabelRegexCost :: nat where "MaxRelabelRegexCost = 16384"
definition maxRelabelRules :: nat where "maxRelabelRules = 64"
definition maxRelabelChainBytes :: nat where "maxRelabelChainBytes = 8192"
definition maxRelabelRuleBytes :: nat where "maxRelabelRuleBytes = maxRelabelChainBytes"
definition maxRelabelChainCost :: nat where "maxRelabelChainCost = MaxRelabelRegexCost"
definition maxRelabelIgnored :: nat where "maxRelabelIgnored = 8"
definition maxIgnoredValueBytes :: int where "maxIgnoredValueBytes = 48"
definition maxTrackedWrites :: nat where "maxTrackedWrites = maxRelabelRules"

definition cappedSuffix :: string where "cappedSuffix = ''(capped)''"
definition oversizeSuffix :: string where "oversizeSuffix = ''(oversize)''"
definition invalidSuffix :: string where "invalidSuffix = ''(invalid)''"
definition dependentSuffix :: string where "dependentSuffix = ''(dependent)''"

definition relabelCappedIgnored :: string where "relabelCappedIgnored = ''metricRelabelings'' @ cappedSuffix"
definition relabelRefusedField :: string where "relabelRefusedField = ''metricRelabelings.regex''"
definition relabelOversizeIgnored :: string where "relabelOversizeIgnored = relabelRefusedField @ oversizeSuffix"
definition relabelInvalidIgnored :: string where "relabelInvalidIgnored = relabelRefusedField @ invalidSuffix"
definition relabelDependentField :: string where "relabelDependentField = ''metricRelabelings.action''"
definition relabelDependentIgnored :: string where "relabelDependentIgnored = relabelDependentField @ dependentSuffix"
definition relabelDefaultActionIgnored :: string where
  "relabelDefaultActionIgnored = ''metricRelabelings.action=replace(default)''"
definition relabelReportCappedIgnored :: string where
  "relabelReportCappedIgnored = ''metricRelabelings(unsupported-capped)''"

definition clipValue :: "string \<Rightarrow> string" where
  "clipValue s = Marked s maxIgnoredValueBytes ''...''"

definition isKeepDrop :: "string \<Rightarrow> bool" where
  "isKeepDrop action \<longleftrightarrow> ToLower action \<in> {''keep'', ''drop''}"

subsection \<open>The rules that are not applied\<close>

definition writes_note :: "regex_engine \<Rightarrow> string \<Rightarrow> string \<Rightarrow> string \<Rightarrow> relabelWrites \<Rightarrow> relabelWrites" where
  "writes_note rx action targetLabel regex w =
     (if w_all w then w
      else if action \<in> {''replace'', ''hashmod'', ''lowercase'', ''uppercase''} then
        (if targetLabel = [] then w
         else if CHR ''$'' \<in> set targetLabel \<or> length (w_names w) \<ge> maxTrackedWrites then w\<lparr>w_all := True\<rparr>
         else if targetLabel \<notin> set (w_names w) then w\<lparr>w_names := w_names w @ [targetLabel]\<rparr>
         else w)
      else if action \<in> {''labeldrop'', ''labelkeep''} then
        (if length (w_preds w) \<ge> maxTrackedWrites \<or> length regex > maxRelabelRuleBytes then w\<lparr>w_all := True\<rparr>
         else (case RelabelRegexCost rx regex of
                 Cost c \<Rightarrow>
                   if w_cost w + c > maxRelabelChainCost then w\<lparr>w_all := True\<rparr>
                   else if \<not> compiles rx regex then w\<lparr>w_all := True\<rparr>
                   else w\<lparr>w_cost := w_cost w + c,
                          w_preds := w_preds w @ [\<lparr>np_re = regex, np_removes = (action = ''labeldrop'')\<rparr>]\<rparr>
               | _ \<Rightarrow> w\<lparr>w_all := True\<rparr>))
      else if action = ''labelmap'' then w\<lparr>w_all := True\<rparr>
      else w)"

definition writes_touches :: "regex_engine \<Rightarrow> relabelWrites \<Rightarrow> string \<Rightarrow> bool" where
  "writes_touches rx w label \<longleftrightarrow>
     w_all w \<or> label \<in> set (w_names w) \<or> list_ex (\<lambda>p. MatchString rx (np_re p) label = np_removes p) (w_preds w)"

subsection \<open>The walk\<close>

record chain_state =
  cs_rules :: "RelabelRule list"
  cs_ignored :: "string list"
  cs_chainBytes :: nat
  cs_chainCost :: nat
  cs_echoes :: nat
  cs_reportCapped :: bool
  cs_capped :: bool
  cs_writes :: relabelWrites

definition chain_start :: chain_state where
  "chain_start = \<lparr>cs_rules = [], cs_ignored = [], cs_chainBytes = 0, cs_chainCost = 0, cs_echoes = 0, cs_reportCapped = False,
     cs_capped = False, cs_writes = zero_writes\<rparr>"

definition chain_report :: "string \<Rightarrow> chain_state \<Rightarrow> chain_state" where
  "chain_report entry st =
     (if entry \<in> set (cs_ignored st) then st
      else if cs_echoes st < maxRelabelIgnored then st\<lparr>cs_echoes := cs_echoes st + 1, cs_ignored := cs_ignored st @ [entry]\<rparr>
      else if \<not> cs_reportCapped st
        then st\<lparr>cs_reportCapped := True, cs_ignored := cs_ignored st @ [relabelReportCappedIgnored]\<rparr>
      else st)"

definition chain_cap :: "chain_state \<Rightarrow> chain_state" where
  "chain_cap st = st\<lparr>cs_ignored := cs_ignored st @ [relabelCappedIgnored], cs_capped := True\<rparr>"

text \<open>A rule that is neither keep nor drop.\<close>
definition chain_skip :: "regex_engine \<Rightarrow> relabelSpec \<Rightarrow> chain_state \<Rightarrow> chain_state" where
  "chain_skip rx r st =
     (if cs_capped st then st
      else (let action = ToLower (rs_Action r);
                entry = ''metricRelabelings.action='' @ clipValue (rs_Action r);
                (action, entry) = (if action = [] then (''replace'', relabelDefaultActionIgnored) else (action, entry));
                st = chain_report entry st
            in st\<lparr>cs_writes := writes_note rx action (rs_TargetLabel r) (rs_Regex r) (cs_writes st)\<rparr>))"

text \<open>One rule of the list: the next state, or the entry and the field of a refusal.\<close>
definition chain_rule :: "regex_engine \<Rightarrow> relabelSpec \<Rightarrow> chain_state \<Rightarrow> (string \<times> string) + chain_state" where
  "chain_rule rx r st =
     (if \<not> isKeepDrop (rs_Action r) then Inr (chain_skip rx r st)
      else if rs_Separator r \<noteq> [] \<and> rs_Separator r \<noteq> '';'' \<and> length (rs_SourceLabels r) > 1
        then Inr (if cs_capped st then st else chain_report (''metricRelabelings.separator='' @ clipValue (rs_Separator r)) st)
      else (let n = RelabelRuleBytes (rs_Regex r) (rs_SourceLabels r) in
        if n > maxRelabelRuleBytes then Inl (relabelOversizeIgnored, relabelRefusedField)
        else if cs_capped st then Inr st
        else if length (cs_rules st) \<ge> maxRelabelRules \<or> cs_chainBytes st + n > maxRelabelChainBytes then Inr (chain_cap st)
        else if list_ex (writes_touches rx (cs_writes st)) (rs_SourceLabels r) then Inl (relabelDependentIgnored, relabelDependentField)
        else (case RelabelRegexCost rx (rs_Regex r) of
                TooLarge \<Rightarrow> Inl (relabelOversizeIgnored, relabelRefusedField)
              | Invalid \<Rightarrow> Inl (relabelInvalidIgnored, relabelRefusedField)
              | Cost c \<Rightarrow>
                  if cs_chainCost st + c > maxRelabelChainCost then Inr (chain_cap st)
                  else Inr (st\<lparr>cs_chainCost := cs_chainCost st + c, cs_chainBytes := cs_chainBytes st + n,
                    cs_rules := cs_rules st @ [\<lparr>rr_Action = ToLower (rs_Action r), rr_SourceLabels = rs_SourceLabels r,
                                                rr_Regex = rs_Regex r\<rparr>]\<rparr>))))"

fun chain_walk :: "regex_engine \<Rightarrow> relabelSpec list \<Rightarrow> chain_state \<Rightarrow> RelabelRule list \<times> string list \<times> string" where
  "chain_walk rx [] st = (cs_rules st, cs_ignored st, [])"
| "chain_walk rx (r # rs) st =
     (case chain_rule rx r st of
        Inl (entry, field) \<Rightarrow> ([], cs_ignored st @ [entry], field)
      | Inr st \<Rightarrow> chain_walk rx rs st)"

definition relabelChain :: "regex_engine \<Rightarrow> relabelSpec list \<Rightarrow> RelabelRule list \<times> string list \<times> string" where
  "relabelChain rx specs = chain_walk rx specs chain_start"

subsection \<open>What an accepted chain guarantees\<close>

text \<open>A rule the service applies: keep or drop, and no separator other than the agent's would be written.\<close>
definition applicable :: "relabelSpec \<Rightarrow> bool" where
  "applicable r \<longleftrightarrow> isKeepDrop (rs_Action r) \<and> (rs_Separator r \<in> {[], '';''} \<or> length (rs_SourceLabels r) \<le> 1)"

definition rule_of :: "relabelSpec \<Rightarrow> RelabelRule" where
  "rule_of r = \<lparr>rr_Action = ToLower (rs_Action r), rr_SourceLabels = rs_SourceLabels r, rr_Regex = rs_Regex r\<rparr>"

text \<open>
  Prometheus' reading of a rule that is not applied: whether it can change the label \<open>l\<close>. An absent action is
  \<^verbatim>\<open>replace\<close>, a target with \<open>$\<close> can name any label, and so can a \<^verbatim>\<open>labelmap\<close>.
\<close>
definition rewrites_label :: "regex_engine \<Rightarrow> relabelSpec \<Rightarrow> string \<Rightarrow> bool" where
  "rewrites_label rx r l \<longleftrightarrow> \<not> isKeepDrop (rs_Action r) \<and>
     (let action = (if ToLower (rs_Action r) = [] then ''replace'' else ToLower (rs_Action r)) in
      action \<in> {''replace'', ''hashmod'', ''lowercase'', ''uppercase''} \<and> rs_TargetLabel r \<noteq> [] \<and>
        (rs_TargetLabel r = l \<or> CHR ''$'' \<in> set (rs_TargetLabel r)) \<or>
      action = ''labeldrop'' \<and> MatchString rx (rs_Regex r) l \<or>
      action = ''labelkeep'' \<and> \<not> MatchString rx (rs_Regex r) l \<or>
      action = ''labelmap'')"

text \<open>Every applied rule of the prefix reads labels that no rule before it rewrites_label, and has a regex within its budget.\<close>
definition faithful :: "regex_engine \<Rightarrow> relabelSpec list \<Rightarrow> bool" where
  "faithful rx pre \<longleftrightarrow> (\<forall>as r bs. pre = as @ r # bs \<longrightarrow> applicable r \<longrightarrow>
     (\<forall>l \<in> set (rs_SourceLabels r). \<forall>a \<in> set as. \<not> rewrites_label rx a l) \<and> (\<exists>c. RelabelRegexCost rx (rs_Regex r) = Cost c))"

lemma faithful_Nil [simp]: "faithful rx []"
  by (simp add: faithful_def)

lemma faithful_snoc:
  "faithful rx (pre @ [r]) \<longleftrightarrow> faithful rx pre \<and> (applicable r \<longrightarrow>
     (\<forall>l \<in> set (rs_SourceLabels r). \<forall>a \<in> set pre. \<not> rewrites_label rx a l) \<and> (\<exists>c. RelabelRegexCost rx (rs_Regex r) = Cost c))"
proof -
  have "(pre @ [r] = as @ r' # bs) \<longleftrightarrow> (as = pre \<and> r' = r \<and> bs = []) \<or> (\<exists>cs. bs = cs @ [r] \<and> pre = as @ r' # cs)" for as r' bs
    by (cases bs rule: rev_cases) auto
  then show ?thesis unfolding faithful_def by (simp, blast)
qed

definition cost_of :: "regex_engine \<Rightarrow> string \<Rightarrow> nat" where
  "cost_of rx re = (case RelabelRegexCost rx re of Cost c \<Rightarrow> c | _ \<Rightarrow> 0)"

definition chain_cost :: "regex_engine \<Rightarrow> RelabelRule list \<Rightarrow> nat" where
  "chain_cost rx rs = sum_list (map (\<lambda>r. cost_of rx (rr_Regex r)) rs)"

lemma chain_cost_append [simp]: "chain_cost rx (xs @ ys) = chain_cost rx xs + chain_cost rx ys"
  by (simp add: chain_cost_def)

lemma chain_bytes_append [simp]: "chain_bytes (xs @ ys) = chain_bytes xs + chain_bytes ys"
  by (simp add: chain_bytes_def)

text \<open>The budgets of the applied rules.\<close>
definition rules_ok :: "regex_engine \<Rightarrow> chain_state \<Rightarrow> bool" where
  "rules_ok rx st \<longleftrightarrow> length (cs_rules st) \<le> maxRelabelRules \<and> cs_chainBytes st = chain_bytes (cs_rules st) \<and>
     cs_chainBytes st \<le> maxRelabelChainBytes \<and> cs_chainCost st = chain_cost rx (cs_rules st) \<and> cs_chainCost st \<le> maxRelabelChainCost"

definition report_ok :: "chain_state \<Rightarrow> bool" where
  "report_ok st \<longleftrightarrow> cs_echoes st \<le> maxRelabelIgnored \<and>
     length (cs_ignored st) \<le> cs_echoes st + (if cs_reportCapped st then 1 else 0) + (if cs_capped st then 1 else 0)"

text \<open>The walk after the rules \<open>pre\<close>; once a budget is full, a part of them is applied and the report says so.\<close>
definition walk_ok :: "regex_engine \<Rightarrow> relabelSpec list \<Rightarrow> chain_state \<Rightarrow> bool" where
  "walk_ok rx pre st \<longleftrightarrow> rules_ok rx st \<and> report_ok st \<and>
     (\<forall>r \<in> set pre. applicable r \<longrightarrow> RelabelRuleBytes (rs_Regex r) (rs_SourceLabels r) \<le> maxRelabelRuleBytes) \<and>
     (if cs_capped st
      then relabelCappedIgnored \<in> set (cs_ignored st) \<and>
        (\<exists>k \<le> length pre. faithful rx (take k pre) \<and> cs_rules st = map rule_of (filter applicable (take k pre)))
      else faithful rx pre \<and> cs_rules st = map rule_of (filter applicable pre) \<and>
        (\<forall>r \<in> set pre. \<forall>l. rewrites_label rx r l \<longrightarrow> writes_touches rx (cs_writes st) l))"

lemma note_covers:
  assumes "action = (if ToLower (rs_Action r) = [] then ''replace'' else ToLower (rs_Action r))" "rewrites_label rx r l"
  shows "writes_touches rx (writes_note rx action (rs_TargetLabel r) (rs_Regex r) w) l"
  using assms unfolding rewrites_label_def writes_note_def writes_touches_def Let_def
  by (elim conjE disjE) (auto split: regex_cost.split)

lemma note_mono:
  "writes_touches rx w l \<Longrightarrow> writes_touches rx (writes_note rx action target re w) l"
  by (auto simp: writes_note_def writes_touches_def split: regex_cost.split)

lemma report_fields [simp]:
  "cs_rules (chain_report e st) = cs_rules st" "cs_chainBytes (chain_report e st) = cs_chainBytes st"
  "cs_chainCost (chain_report e st) = cs_chainCost st" "cs_capped (chain_report e st) = cs_capped st"
  "cs_writes (chain_report e st) = cs_writes st"
  by (simp_all add: chain_report_def)

lemma report_report: "report_ok st \<Longrightarrow> report_ok (chain_report e st)"
  by (auto simp: report_ok_def chain_report_def)


lemma take_snoc_le: "k \<le> length pre \<Longrightarrow> take k (pre @ [r]) = take k pre"
  by simp

lemma walk_capped:
  assumes "walk_ok rx pre st" "cs_capped st" "applicable r \<longrightarrow> RelabelRuleBytes (rs_Regex r) (rs_SourceLabels r) \<le> maxRelabelRuleBytes"
  shows "walk_ok rx (pre @ [r]) st"
proof -
  obtain k where "k \<le> length pre" "faithful rx (take k pre)" "cs_rules st = map rule_of (filter applicable (take k pre))"
    using assms by (auto simp: walk_ok_def)
  then have "\<exists>k \<le> length (pre @ [r]). faithful rx (take k (pre @ [r])) \<and> cs_rules st = map rule_of (filter applicable (take k (pre @ [r])))"
    by (intro exI [of _ k]) simp
  then show ?thesis using assms by (auto simp: walk_ok_def)
qed

lemma walk_cap:
  assumes w: "walk_ok rx pre st" and "\<not> cs_capped st" "applicable r \<longrightarrow> RelabelRuleBytes (rs_Regex r) (rs_SourceLabels r) \<le> maxRelabelRuleBytes"
  shows "walk_ok rx (pre @ [r]) (chain_cap st)"
proof -
  have "walk_ok rx pre (chain_cap st)"
    using assms by (auto simp: walk_ok_def chain_cap_def rules_ok_def report_ok_def intro!: exI [of _ "length pre"])
  then show ?thesis by (rule walk_capped) (use assms in \<open>simp_all add: chain_cap_def\<close>)
qed

lemma walk_skip:
  assumes w: "walk_ok rx pre st" and r: "\<not> isKeepDrop (rs_Action r)"
  shows "walk_ok rx (pre @ [r]) (chain_skip rx r st)"
proof (cases "cs_capped st")
  case True
  then show ?thesis using walk_capped [OF w True, of r] r by (simp add: chain_skip_def applicable_def)
next
  case False
  have na: "\<not> applicable r" using r by (simp add: applicable_def)
  define action where "action = (if ToLower (rs_Action r) = [] then ''replace'' else ToLower (rs_Action r))"
  obtain e where s: "chain_skip rx r st = (chain_report e st)\<lparr>cs_writes := writes_note rx action (rs_TargetLabel r) (rs_Regex r) (cs_writes st)\<rparr>"
    using False by (cases "ToLower (rs_Action r) = []") (simp_all add: chain_skip_def action_def Let_def)
  have cov: "writes_touches rx (cs_writes (chain_skip rx r st)) l" if "a \<in> set (pre @ [r])" "rewrites_label rx a l" for a l
    using that w False note_covers [OF action_def] note_mono by (auto simp: s walk_ok_def)
  have f: "faithful rx (pre @ [r])" "cs_rules st = map rule_of (filter applicable (pre @ [r]))"
    "\<forall>a \<in> set (pre @ [r]). applicable a \<longrightarrow> RelabelRuleBytes (rs_Regex a) (rs_SourceLabels a) \<le> maxRelabelRuleBytes"
    using w False na by (auto simp: walk_ok_def faithful_snoc)
  have "rules_ok rx (chain_skip rx r st)" "report_ok (chain_skip rx r st)" "\<not> cs_capped (chain_skip rx r st)"
    using w False report_report [of st e] by (auto simp: s walk_ok_def rules_ok_def report_ok_def)
  then show ?thesis unfolding walk_ok_def using cov f by (simp add: s)
qed

lemma walk_separator:
  assumes w: "walk_ok rx pre st" and r: "isKeepDrop (rs_Action r)" "\<not> applicable r"
  shows "walk_ok rx (pre @ [r]) (if cs_capped st then st else chain_report e st)"
proof (cases "cs_capped st")
  case True
  then show ?thesis using walk_capped [OF w True, of r] r by simp
next
  case False
  have "\<not> rewrites_label rx r l" for l using r by (simp add: rewrites_label_def)
  then show ?thesis using w False r report_report [of st e] by (auto simp: walk_ok_def faithful_snoc rules_ok_def)
qed

lemma walk_apply:
  assumes w: "walk_ok rx pre st" and r: "applicable r" and n: "RelabelRuleBytes (rs_Regex r) (rs_SourceLabels r) \<le> maxRelabelRuleBytes"
    and u: "\<not> cs_capped st" "\<not> list_ex (writes_touches rx (cs_writes st)) (rs_SourceLabels r)" "RelabelRegexCost rx (rs_Regex r) = Cost c"
    and b: "length (cs_rules st) < maxRelabelRules" "cs_chainBytes st + RelabelRuleBytes (rs_Regex r) (rs_SourceLabels r) \<le> maxRelabelChainBytes"
      "cs_chainCost st + c \<le> maxRelabelChainCost"
  shows "walk_ok rx (pre @ [r]) (st\<lparr>cs_chainCost := cs_chainCost st + c,
    cs_chainBytes := cs_chainBytes st + RelabelRuleBytes (rs_Regex r) (rs_SourceLabels r), cs_rules := cs_rules st @ [rule_of r]\<rparr>)" (is "walk_ok rx _ ?st")
proof -
  have "rules_ok rx ?st"
    using w b u(3) by (simp add: walk_ok_def rules_ok_def chain_bytes_def chain_cost_def cost_of_def rule_of_def rule_bytes_def)
  moreover have "\<forall>l \<in> set (rs_SourceLabels r). \<forall>a \<in> set pre. \<not> rewrites_label rx a l"
    using w u(1,2) by (auto simp: walk_ok_def list_ex_iff)
  moreover have "\<not> rewrites_label rx r l" for l using r by (simp add: rewrites_label_def applicable_def)
  ultimately show ?thesis using w r n u by (auto simp: walk_ok_def faithful_snoc report_ok_def)
qed

lemma chain_rule_ok:
  assumes w: "walk_ok rx pre st" and c: "chain_rule rx r st = Inr st'"
  shows "walk_ok rx (pre @ [r]) st'"
proof -
  let ?n = "RelabelRuleBytes (rs_Regex r) (rs_SourceLabels r)"
  consider (skip) "\<not> isKeepDrop (rs_Action r)" | (sep) "isKeepDrop (rs_Action r)" "\<not> applicable r" | (app) "applicable r" by blast
  then show ?thesis
  proof cases
    case skip
    then show ?thesis using walk_skip [OF w skip] c by (simp add: chain_rule_def)
  next
    case sep
    then show ?thesis using walk_separator [OF w sep] c by (auto simp: chain_rule_def applicable_def split: if_splits)
  next
    case app
    then have n: "?n \<le> maxRelabelRuleBytes" using c by (auto simp: chain_rule_def applicable_def Let_def split: if_splits)
    consider (over) "cs_capped st" "st' = st" | (cap) "\<not> cs_capped st" "st' = chain_cap st"
      | (take) k where "\<not> cs_capped st" "RelabelRegexCost rx (rs_Regex r) = Cost k" "length (cs_rules st) < maxRelabelRules"
          "cs_chainBytes st + ?n \<le> maxRelabelChainBytes" "cs_chainCost st + k \<le> maxRelabelChainCost"
          "\<not> list_ex (writes_touches rx (cs_writes st)) (rs_SourceLabels r)"
          "st' = st\<lparr>cs_chainCost := cs_chainCost st + k, cs_chainBytes := cs_chainBytes st + ?n, cs_rules := cs_rules st @ [rule_of r]\<rparr>"
      using c app by (auto simp: chain_rule_def applicable_def rule_of_def Let_def not_less not_le split: if_splits regex_cost.splits)
    then show ?thesis
    proof cases
      case over
      then show ?thesis using walk_capped [OF w over(1)] n by simp
    next
      case cap
      then show ?thesis using walk_cap [OF w cap(1)] n by simp
    next
      case take
      then show ?thesis using walk_apply [OF w app n take(1,6,2,3,4,5)] by simp
    qed
  qed
qed

lemma chain_start_ok: "walk_ok rx [] chain_start"
  by (simp add: walk_ok_def rules_ok_def report_ok_def chain_start_def chain_bytes_def chain_cost_def)

lemma report_length: "report_ok st \<Longrightarrow> length (cs_ignored st) \<le> maxRelabelIgnored + 2"
  by (auto simp: report_ok_def split: if_splits)

lemma chain_walk_result:
  assumes "walk_ok rx pre st" "chain_walk rx rs st = (rules, ign, field)"
  shows "(field = [] \<longrightarrow> (\<exists>st'. walk_ok rx (pre @ rs) st' \<and> rules = cs_rules st' \<and> ign = cs_ignored st')) \<and>
    (field \<noteq> [] \<longrightarrow> rules = []) \<and> length ign \<le> maxRelabelIgnored + 3"
  using assms
proof (induction rs arbitrary: pre st)
  case Nil
  then have "length ign \<le> maxRelabelIgnored + 2" using report_length [of st] by (auto simp: walk_ok_def)
  then show ?case using Nil by auto
next
  case (Cons r rs)
  show ?case
  proof (cases "chain_rule rx r st")
    case (Inl e)
    then have "snd e \<noteq> []" by (auto simp: chain_rule_def Let_def relabelRefusedField_def relabelDependentField_def split: if_splits regex_cost.splits)
    moreover have "length (cs_ignored st) \<le> maxRelabelIgnored + 2" using Cons.prems(1) report_length by (simp add: walk_ok_def)
    ultimately show ?thesis using Cons.prems(2) Inl by (auto split: prod.splits)
  next
    case (Inr st')
    from Cons.IH [OF chain_rule_ok [OF Cons.prems(1) Inr]] Cons.prems(2) Inr show ?thesis by simp
  qed
qed


text \<open>
  The shape of the chain that is served for a monitor's endpoint. The applied rules are
  the keep and drop rules of a prefix of the list, in order and unchanged, and of the whole list unless
  the report says it was capped; no applied rule reads a label that a rule before it, which is not
  applied, would have rewritten; each has a regular expression that parses, and together they are within
  the budgets of number, bytes and cost. A rule too large for any chain refuses the endpoint wherever
  it stands, a refused endpoint has no rules, and the report is bounded.
\<close>
lemma relabelChain_shape:
  assumes "relabelChain rx specs = (rules, ign, field)"
  shows "(field = [] \<longrightarrow>
      (\<exists>k \<le> length specs. rules = map rule_of (filter applicable (take k specs)) \<and> faithful rx (take k specs) \<and>
         (relabelCappedIgnored \<in> set ign \<or> k = length specs)) \<and>
      length rules \<le> maxRelabelRules \<and> chain_bytes rules \<le> maxRelabelChainBytes \<and> chain_cost rx rules \<le> maxRelabelChainCost \<and>
      (\<forall>r \<in> set specs. applicable r \<longrightarrow> RelabelRuleBytes (rs_Regex r) (rs_SourceLabels r) \<le> maxRelabelRuleBytes)) \<and>
    (field \<noteq> [] \<longrightarrow> rules = []) \<and> length ign \<le> maxRelabelIgnored + 3"
proof -
  note r = chain_walk_result [OF chain_start_ok assms [unfolded relabelChain_def]]
  show ?thesis
  proof (intro conjI impI)
    assume "field = []"
    then obtain st where st: "walk_ok rx specs st" "rules = cs_rules st" "ign = cs_ignored st" using r by auto
    show "\<exists>k \<le> length specs. rules = map rule_of (filter applicable (take k specs)) \<and> faithful rx (take k specs) \<and>
         (relabelCappedIgnored \<in> set ign \<or> k = length specs)"
      using st by (cases "cs_capped st") (auto simp: walk_ok_def)
    show "length rules \<le> maxRelabelRules" "chain_bytes rules \<le> maxRelabelChainBytes" "chain_cost rx rules \<le> maxRelabelChainCost"
      "\<forall>r \<in> set specs. applicable r \<longrightarrow> RelabelRuleBytes (rs_Regex r) (rs_SourceLabels r) \<le> maxRelabelRuleBytes"
      using st by (auto simp: walk_ok_def rules_ok_def)
  qed (use r in auto)
qed

text \<open>A chain that drops one label and then keeps by metric name, and one that keeps by a label it has replaced.\<close>
definition literal_engine :: regex_engine where
  "literal_engine = \<lparr>RelabelRegexCost = (\<lambda>s. Cost (length s)), compiles = (\<lambda>_. True), MatchString = (\<lambda>re s. re = s)\<rparr>"

definition keep_by_name :: "relabelSpec list" where
  "keep_by_name = [\<lparr>rs_Action = ''labeldrop'', rs_SourceLabels = [], rs_Regex = ''pod'', rs_Separator = [], rs_TargetLabel = []\<rparr>,
     \<lparr>rs_Action = ''Keep'', rs_SourceLabels = [''__name__''], rs_Regex = ''up'', rs_Separator = [], rs_TargetLabel = []\<rparr>]"

end
