(* ===== verification/MonitorSpec.thy ===== *)
theory MonitorSpec
  imports MonitorRelabel
begin

section \<open>Parsing a monitor (internal/servicemonitors: endpoint.go, bounds.go, parse.go, report.go)\<close>

text \<open>
  From the object of a ServiceMonitor or PodMonitor to the record that is indexed: the conversion of an
  endpoint with its secret references, the ceilings on its strings, the ceilings on the monitor, and the
  report of what is not interpreted.

  Decoding the untyped object (\<^verbatim>\<open>FromUnstructured\<close>) and building a label selector
  (\<^verbatim>\<open>LabelSelectorAsSelector\<close>) are apimachinery's: they are the fields of \<open>apimachinery\<close>, over any type of raw
  values and of selectors. Optional JSON values that are only tested for presence keep their JSON text or
  are options.
\<close>

subsection \<open>The shape of an endpoint in the CRD\<close>

record secretRef =
  sr_Name :: string
  sr_Key :: string

record secretOrCM =
  sc_Secret :: "secretRef option"
  sc_ConfigMap :: "secretRef option"

record TLSConfigSpec =
  tls_InsecureSkipVerify :: bool
  tls_CA :: "secretOrCM option"
  tls_Cert :: "secretOrCM option"
  tls_KeySecret :: "secretRef option"
  tls_ServerName :: string
  tls_MinVersion :: string
  tls_MaxVersion :: string
  tls_CAFile :: string
  tls_CertFile :: string
  tls_KeyFile :: string

record BasicAuthSpec =
  ba_Username :: "secretRef option"
  ba_Password :: "secretRef option"

record AuthorizationSpec =
  az_Type :: string
  az_Credentials :: "secretRef option"

record endpointSpec =
  es_Port :: string
  es_TargetPort :: "IntOrString option"
  es_PortNumber :: "i32 option"
  es_Path :: string
  es_Scheme :: string
  es_Interval :: string
  es_ScrapeTimeout :: string
  es_TLSConfig :: "TLSConfigSpec option"
  es_BasicAuth :: "BasicAuthSpec option"
  es_Authorization :: "AuthorizationSpec option"
  es_OAuth2 :: string
  es_ProxyURL :: string
  es_NoProxy :: string
  es_ProxyFromEnvironment :: "bool option"
  es_ProxyConnectHeader :: string
  es_BearerTokenFile :: string
  es_FilterRunning :: "bool option"
  es_FollowRedirects :: "bool option"
  es_EnableHTTP2 :: "bool option"
  es_HonorTimestamps :: "bool option"
  es_TrackTimestampsStaleness :: "bool option"
  es_Params :: string
  es_HonorLabels :: "bool option"
  es_Relabelings :: string
  es_BearerTokenSecret :: "secretRef option"
  es_MetricRelabelings :: "relabelSpec list"

definition secretRef_ref :: "secretRef option \<Rightarrow> string" where
  "secretRef_ref r =
     (case r of
        None \<Rightarrow> []
      | Some r \<Rightarrow>
          if sr_Name r = [] \<or> sr_Key r = [] then []
          else if CHR ''/'' \<in> set (sr_Name r) \<or> CHR ''/'' \<in> set (sr_Key r) then []
          else sr_Name r @ ''/'' @ sr_Key r)"

definition secretOrCM_ref :: "secretOrCM option \<Rightarrow> string" where
  "secretOrCM_ref s = (case s of None \<Rightarrow> [] | Some s \<Rightarrow> secretRef_ref (sc_Secret s))"

definition usesConfigMap :: "secretOrCM option \<Rightarrow> bool" where
  "usesConfigMap s \<longleftrightarrow>
     (case s of None \<Rightarrow> False | Some s \<Rightarrow> (case sc_ConfigMap s of None \<Rightarrow> False | Some c \<Rightarrow> sr_Name c \<noteq> []))"

definition noPortIgnored :: string where "noPortIgnored = ''port(unset)''"

text \<open>The calls of the closure \<^verbatim>\<open>add\<close>, in order.\<close>
definition added :: "(string \<times> bool) list \<Rightarrow> string list" where
  "added entries = map fst (filter snd entries)"

definition ignoredFields :: "endpointSpec \<Rightarrow> string list \<Rightarrow> string list" where
  "ignoredFields ep relabelIgnored =
     added [(''oauth2'', es_OAuth2 ep \<noteq> []), (''bearerTokenFile'', es_BearerTokenFile ep \<noteq> []),
       (''followRedirects'', es_FollowRedirects ep \<noteq> None), (''enableHttp2'', es_EnableHTTP2 ep \<noteq> None),
       (''honorTimestamps'', es_HonorTimestamps ep \<noteq> None), (''trackTimestampsStaleness'', es_TrackTimestampsStaleness ep \<noteq> None),
       (''proxyUrl'', es_ProxyURL ep \<noteq> []), (''noProxy'', es_NoProxy ep \<noteq> []),
       (''proxyFromEnvironment'', es_ProxyFromEnvironment ep \<noteq> None), (''proxyConnectHeader'', es_ProxyConnectHeader ep \<noteq> []),
       (''params'', es_Params ep \<noteq> []), (''honorLabels'', es_HonorLabels ep = Some True),
       (''relabelings'', es_Relabelings ep \<noteq> []), (''filterRunning'', es_FilterRunning ep = Some False),
       (''portNumber'', es_PortNumber ep \<noteq> None),
       (noPortIgnored, es_Port ep = [] \<and> es_TargetPort ep = None \<and> es_PortNumber ep = None)] @
     (case es_TLSConfig ep of
        None \<Rightarrow> []
      | Some tls \<Rightarrow>
          added [(''tlsConfig.ca.configMap'', usesConfigMap (tls_CA tls)), (''tlsConfig.cert.configMap'', usesConfigMap (tls_Cert tls)),
            (''tlsConfig.caFile'', tls_CAFile tls \<noteq> []), (''tlsConfig.certFile'', tls_CertFile tls \<noteq> []),
            (''tlsConfig.keyFile'', tls_KeyFile tls \<noteq> []), (''tlsConfig.minVersion'', tls_MinVersion tls \<noteq> []),
            (''tlsConfig.maxVersion'', tls_MaxVersion tls \<noteq> [])]) @
     relabelIgnored"

definition canonicalScheme :: "string \<Rightarrow> string" where
  "canonicalScheme scheme =
     (if length scheme = length ''https'' \<and> map lower_ascii scheme = ''https'' then ''https''
      else if length scheme = length ''http'' \<and> map lower_ascii scheme = ''http'' then ''http''
      else scheme)"

subsection \<open>The ceilings on an endpoint's strings\<close>

definition maxEndpointPathBytes :: nat where "maxEndpointPathBytes = 2048"
definition maxEndpointServerNameBytes :: nat where "maxEndpointServerNameBytes = 256"
definition maxEndpointAuthTypeBytes :: nat where "maxEndpointAuthTypeBytes = 64"
definition maxEndpointDurationBytes :: nat where "maxEndpointDurationBytes = 64"
definition maxEndpointSecretRefBytes :: nat where "maxEndpointSecretRefBytes = 768"

text \<open>The name, the value and the ceiling of each; writing through the pointers is \<open>clear_fields\<close>.\<close>
definition boundedFields :: "Endpoint \<Rightarrow> (string \<times> string \<times> nat) list" where
  "boundedFields e = (let a = ep_ScrapeAuth e in
     [(''path'', ep_Path e, maxEndpointPathBytes), (''interval'', ep_Interval e, maxEndpointDurationBytes),
      (''scrapeTimeout'', ep_ScrapeTimeout e, maxEndpointDurationBytes),
      (''tlsConfig.serverName'', sa_TLSServerName a, maxEndpointServerNameBytes),
      (''authorization.type'', sa_AuthType a, maxEndpointAuthTypeBytes),
      (''authorization.credentials'', sa_AuthCredentials a, maxEndpointSecretRefBytes),
      (''basicAuth.username'', sa_BasicAuthUser a, maxEndpointSecretRefBytes),
      (''basicAuth.password'', sa_BasicAuthPass a, maxEndpointSecretRefBytes),
      (''bearerTokenSecret'', sa_AuthSecret a, maxEndpointSecretRefBytes),
      (''tlsConfig.ca'', sa_TLSCA a, maxEndpointSecretRefBytes), (''tlsConfig.cert'', sa_TLSCert a, maxEndpointSecretRefBytes),
      (''tlsConfig.keySecret'', sa_TLSKey a, maxEndpointSecretRefBytes)])"

definition clear_fields :: "Endpoint \<Rightarrow> Endpoint" where
  "clear_fields e =
     e\<lparr>ep_Path := [], ep_Interval := [], ep_ScrapeTimeout := [],
       ep_ScrapeAuth := (ep_ScrapeAuth e)\<lparr>sa_TLSServerName := [], sa_AuthType := [], sa_AuthCredentials := [], sa_BasicAuthUser := [],
         sa_BasicAuthPass := [], sa_AuthSecret := [], sa_TLSCA := [], sa_TLSCert := [], sa_TLSKey := []\<rparr>\<rparr>"

definition enforceFieldBounds :: "string list \<Rightarrow> Endpoint \<Rightarrow> Endpoint" where
  "enforceFieldBounds preRefused e =
     (let over = map fst (filter (\<lambda>(name, value, max). length value > max) (boundedFields e));
          refused = preRefused @ over;
          e = e\<lparr>ep_Ignored := ep_Ignored e @ map (\<lambda>name. name @ oversizeSuffix) over\<rparr>
      in if refused = [] then e
         else (clear_fields (e\<lparr>ep_Refused := join '','' refused\<rparr>))\<lparr>ep_MetricRelabelings := [], ep_Port := [], ep_TargetPort := None\<rparr>)"

definition RefusalReasons :: "Endpoint \<Rightarrow> string list" where
  "RefusalReasons e =
     (if ep_Refused e = [] then []
      else filter (\<lambda>f. suffix oversizeSuffix f \<or> suffix invalidSuffix f \<or> suffix dependentSuffix f) (ep_Ignored e))"

subsection \<open>The conversion of an endpoint\<close>

definition spec_auth :: "endpointSpec \<Rightarrow> ScrapeAuth" where
  "spec_auth ep =
     (let a = zero_ScrapeAuth;
          a = (case es_TLSConfig ep of
                 None \<Rightarrow> a
               | Some tls \<Rightarrow> a\<lparr>sa_InsecureSkipVerify := tls_InsecureSkipVerify tls, sa_TLSServerName := tls_ServerName tls,
                   sa_TLSCA := secretOrCM_ref (tls_CA tls), sa_TLSCert := secretOrCM_ref (tls_Cert tls),
                   sa_TLSKey := secretRef_ref (tls_KeySecret tls)\<rparr>);
          a = (case es_BasicAuth ep of
                 None \<Rightarrow> a
               | Some ba \<Rightarrow> a\<lparr>sa_BasicAuthUser := secretRef_ref (ba_Username ba), sa_BasicAuthPass := secretRef_ref (ba_Password ba)\<rparr>);
          a = (case es_Authorization ep of
                 None \<Rightarrow> a
               | Some az \<Rightarrow> a\<lparr>sa_AuthType := az_Type az, sa_AuthCredentials := secretRef_ref (az_Credentials az)\<rparr>)
      in a\<lparr>sa_AuthSecret := secretRef_ref (es_BearerTokenSecret ep)\<rparr>)"

definition toEndpoint :: "regex_engine \<Rightarrow> endpointSpec \<Rightarrow> Endpoint" where
  "toEndpoint rx ep =
     (case relabelChain rx (es_MetricRelabelings ep) of
        (rules, relabelIgnored, refusedByChain) \<Rightarrow>
          enforceFieldBounds (if refusedByChain \<noteq> [] then [refusedByChain] else [])
            \<lparr>ep_Port = es_Port ep, ep_TargetPort = es_TargetPort ep, ep_Path = es_Path ep, ep_Scheme = canonicalScheme (es_Scheme ep),
             ep_ScrapeAuth = spec_auth ep, ep_MetricRelabelings = rules, ep_Interval = es_Interval ep,
             ep_ScrapeTimeout = es_ScrapeTimeout ep, ep_Ignored = ignoredFields ep relabelIgnored, ep_Refused = []\<rparr>)"

text \<open>The values of the secret-bearing fields, in the order of the list of pointers.\<close>
definition secretRefs :: "Endpoint \<Rightarrow> string list" where
  "secretRefs e = (let a = ep_ScrapeAuth e in
     [sa_AuthSecret a, sa_BasicAuthUser a, sa_BasicAuthPass a, sa_AuthCredentials a, sa_TLSCA a, sa_TLSCert a, sa_TLSKey a])"

definition prefixed :: "string \<Rightarrow> string \<Rightarrow> string" where
  "prefixed ns p = (if p \<noteq> [] then ns @ ''/'' @ p else p)"

definition namespaceSecretRefs :: "string \<Rightarrow> Endpoint \<Rightarrow> Endpoint" where
  "namespaceSecretRefs ns e = (let a = ep_ScrapeAuth e in
     e\<lparr>ep_ScrapeAuth := a\<lparr>sa_AuthSecret := prefixed ns (sa_AuthSecret a), sa_BasicAuthUser := prefixed ns (sa_BasicAuthUser a),
        sa_BasicAuthPass := prefixed ns (sa_BasicAuthPass a), sa_AuthCredentials := prefixed ns (sa_AuthCredentials a),
        sa_TLSCA := prefixed ns (sa_TLSCA a), sa_TLSCert := prefixed ns (sa_TLSCert a), sa_TLSKey := prefixed ns (sa_TLSKey a)\<rparr>\<rparr>)"

subsection \<open>The monitor\<close>

record namespaceSelector =
  ns_Any :: bool
  ns_MatchNames :: "string list"

text \<open>\<^verbatim>\<open>None\<close> is the nil slice, which means all namespaces.\<close>
definition resolve :: "namespaceSelector \<Rightarrow> string \<Rightarrow> string list option" where
  "resolve s ownNS =
     (if ns_Any s then None else if ns_MatchNames s \<noteq> [] then Some (ns_MatchNames s) else Some [ownNS])"

record specLimits =
  sl_SampleLimit :: "u64 option"
  sl_TargetLimit :: "u64 option"
  sl_LabelLimit :: "u64 option"
  sl_LabelNameLengthLimit :: "u64 option"
  sl_LabelValueLengthLimit :: "u64 option"
  sl_KeepDroppedTargets :: "u64 option"
  sl_JobLabel :: string
  sl_TargetLabels :: "string list"
  sl_PodTargetLabels :: "string list"
  sl_BodySizeLimit :: string
  sl_AttachMetadata :: "string option"
  sl_ScrapeClass :: string
  sl_ScrapeProtocols :: "string list"
  sl_FallbackScrapeProtocol :: string
  sl_SelectorMechanism :: string
  sl_NativeHistogramBucketLimit :: "u64 option"
  sl_NativeHistogramMinBucketFactor :: string
  sl_ConvertClassicHistogramsToNHCB :: "bool option"
  sl_ScrapeClassicHistograms :: "bool option"

definition limits_ignored :: "specLimits \<Rightarrow> string list" where
  "limits_ignored s =
     added [(''sampleLimit'', sl_SampleLimit s \<noteq> None), (''targetLimit'', sl_TargetLimit s \<noteq> None), (''labelLimit'', sl_LabelLimit s \<noteq> None),
       (''labelNameLengthLimit'', sl_LabelNameLengthLimit s \<noteq> None), (''labelValueLengthLimit'', sl_LabelValueLengthLimit s \<noteq> None),
       (''keepDroppedTargets'', sl_KeepDroppedTargets s \<noteq> None), (''jobLabel'', sl_JobLabel s \<noteq> []),
       (''targetLabels'', sl_TargetLabels s \<noteq> []), (''podTargetLabels'', sl_PodTargetLabels s \<noteq> []),
       (''bodySizeLimit'', sl_BodySizeLimit s \<noteq> []), (''attachMetadata'', sl_AttachMetadata s \<noteq> None), (''scrapeClass'', sl_ScrapeClass s \<noteq> []),
       (''scrapeProtocols'', sl_ScrapeProtocols s \<noteq> []), (''fallbackScrapeProtocol'', sl_FallbackScrapeProtocol s \<noteq> []),
       (''selectorMechanism'', sl_SelectorMechanism s \<noteq> []), (''nativeHistogramBucketLimit'', sl_NativeHistogramBucketLimit s \<noteq> None),
       (''nativeHistogramMinBucketFactor'', sl_NativeHistogramMinBucketFactor s \<noteq> []),
       (''convertClassicHistogramsToNHCB'', sl_ConvertClassicHistogramsToNHCB s \<noteq> None),
       (''scrapeClassicHistograms'', sl_ScrapeClassicHistograms s \<noteq> None)]"

text \<open>The fields of \<^verbatim>\<open>metav1.LabelSelector\<close>.\<close>
record LabelSelectorRequirement =
  lr_Key :: string
  lr_Operator :: string
  lr_Values :: "string list"

record LabelSelector =
  ls_MatchLabels :: strmap
  ls_MatchExpressions :: "LabelSelectorRequirement list"

datatype monitor_kind = ServiceMonitor | PodMonitor

text \<open>\<^verbatim>\<open>smSpec\<close> and \<^verbatim>\<open>pmSpec\<close>, which differ in the JSON name of the endpoint list.\<close>
record monitorSpec =
  ms_Selector :: LabelSelector
  ms_NamespaceSelector :: namespaceSelector
  ms_Endpoints :: "endpointSpec list"
  ms_limits :: specLimits

definition endpointsField :: "monitor_kind \<Rightarrow> string" where
  "endpointsField kind = (case kind of ServiceMonitor \<Rightarrow> ''endpoints'' | PodMonitor \<Rightarrow> ''podMetricsEndpoints'')"

record 'sel monitorBase =
  mb_Namespace :: string
  mb_Name :: string
  mb_Selector :: 'sel
  mb_Endpoints :: "Endpoint list"
  mb_nsSel :: namespaceSelector
  mb_resourceVersion :: string

definition monitor_namespaces :: "'sel monitorBase \<Rightarrow> string list option" where
  "monitor_namespaces b = resolve (mb_nsSel b) (mb_Namespace b)"

definition maxEndpointsPerMonitor :: nat where "maxEndpointsPerMonitor = 128"
definition maxSelectorTerms :: nat where "maxSelectorTerms = 64"
definition maxSelectorValues :: nat where "maxSelectorValues = 1024"
definition maxSelectorNamespaces :: nat where "maxSelectorNamespaces = 1024"
definition maxSelectorNameBytes :: nat where "maxSelectorNameBytes = 63"

datatype monitor_error =
    NoSpec
  | DecodeError string
  | SelectorTerms nat
  | SelectorValues nat
  | SelectorNamespaces nat
  | NamespaceLength nat
  | SelectorError string

definition checkSelectorBounds :: "LabelSelector \<Rightarrow> namespaceSelector \<Rightarrow> monitor_error option" where
  "checkSelectorBounds sel nss =
     (let n = length (ls_MatchLabels sel) + length (ls_MatchExpressions sel) in
      if n > maxSelectorTerms then Some (SelectorTerms n)
      else (let values = sum_list (map (\<lambda>e. length (lr_Values e)) (ls_MatchExpressions sel)) in
        if values > maxSelectorValues then Some (SelectorValues values)
        else if length (ns_MatchNames nss) > maxSelectorNamespaces then Some (SelectorNamespaces (length (ns_MatchNames nss)))
        else (case filter (\<lambda>ns. length ns > maxSelectorNameBytes) (ns_MatchNames nss) of
                ns # _ \<Rightarrow> Some (NamespaceLength (length ns))
              | [] \<Rightarrow> None)))"

text \<open>A value of the untyped object: a list, or something else.\<close>
datatype 'raw raw_value = RawList "'raw list" | RawOther 'raw

record 'raw unstructured =
  u_Namespace :: string
  u_Name :: string
  u_ResourceVersion :: string
  u_spec :: "(string, 'raw raw_value) gomap option"

record ('raw, 'sel) apimachinery =
  FromUnstructured :: "monitor_kind \<Rightarrow> (string, 'raw raw_value) gomap \<Rightarrow> string + monitorSpec"
  LabelSelectorAsSelector :: "LabelSelector \<Rightarrow> string + 'sel"

text \<open>The list of endpoints is cut before it is decoded.\<close>
definition cut_endpoints :: "monitor_kind \<Rightarrow> (string, 'raw raw_value) gomap \<Rightarrow> (string, 'raw raw_value) gomap \<times> bool" where
  "cut_endpoints kind specRaw =
     (case get specRaw (endpointsField kind) of
        Some (RawList raw) \<Rightarrow>
          if length raw > maxEndpointsPerMonitor
          then (put (endpointsField kind) (RawList (take maxEndpointsPerMonitor raw)) specRaw, True) else (specRaw, False)
      | _ \<Rightarrow> (specRaw, False))"

definition monitor_endpoint :: "regex_engine \<Rightarrow> string list \<Rightarrow> string \<Rightarrow> endpointSpec \<Rightarrow> Endpoint" where
  "monitor_endpoint rx specIgnored ns ep =
     (let e = toEndpoint rx ep in namespaceSecretRefs ns (e\<lparr>ep_Ignored := ep_Ignored e @ specIgnored\<rparr>))"

definition parseMonitorSpec :: "('raw, 'sel) apimachinery \<Rightarrow> regex_engine \<Rightarrow> monitor_kind \<Rightarrow> 'raw unstructured \<Rightarrow> monitor_error + 'sel monitorBase" where
  "parseMonitorSpec api rx kind u =
     (case u_spec u of
        None \<Rightarrow> Inl NoSpec
      | Some specRaw \<Rightarrow>
          (case cut_endpoints kind specRaw of
            (specRaw, capped) \<Rightarrow>
              (case FromUnstructured api kind specRaw of
                 Inl err \<Rightarrow> Inl (DecodeError err)
               | Inr spec \<Rightarrow>
                   (case checkSelectorBounds (ms_Selector spec) (ms_NamespaceSelector spec) of
                      Some err \<Rightarrow> Inl err
                    | None \<Rightarrow>
                        (case LabelSelectorAsSelector api (ms_Selector spec) of
                           Inl err \<Rightarrow> Inl (SelectorError err)
                         | Inr sel \<Rightarrow>
                             (let capped = (capped \<or> length (ms_Endpoints spec) > maxEndpointsPerMonitor);
                                  eps = take maxEndpointsPerMonitor (ms_Endpoints spec);
                                  specIgnored = limits_ignored (ms_limits spec) @
                                    (if capped then [endpointsField kind @ cappedSuffix] else [])
                              in Inr \<lparr>mb_Namespace = u_Namespace u, mb_Name = u_Name u, mb_Selector = sel,
                                   mb_Endpoints = map (monitor_endpoint rx specIgnored (u_Namespace u)) eps,
                                   mb_nsSel = ms_NamespaceSelector spec, mb_resourceVersion = u_ResourceVersion u\<rparr>))))))"

subsection \<open>The report of a monitor\<close>

definition maxIgnoredFields :: nat where "maxIgnoredFields = 64"
definition ignoredFieldsCapped :: string where "ignoredFieldsCapped = ''~(more fields omitted)''"

definition isValueEcho :: "string \<Rightarrow> bool" where
  "isValueEcho entry \<longleftrightarrow> CHR ''='' \<in> set entry"

text \<open>The entries of the endpoints, each once.\<close>
definition distinct_entries :: "string list \<Rightarrow> string list" where
  "distinct_entries fs = fold (\<lambda>f out'. if f \<in> set out' then out' else out' @ [f]) fs []"

text \<open>The cut: kept entries and how many echoes there were.\<close>
fun cut_echoes :: "string list \<Rightarrow> nat \<Rightarrow> string list \<times> nat" where
  "cut_echoes [] echoes = ([], echoes)"
| "cut_echoes (f # fs) echoes =
     (if isValueEcho f
      then (let echoes = echoes + 1 in
            if echoes > maxIgnoredFields then cut_echoes fs echoes
            else (case cut_echoes fs echoes of (kept, n) \<Rightarrow> (f # kept, n)))
      else (case cut_echoes fs echoes of (kept, n) \<Rightarrow> (f # kept, n)))"

definition IgnoredFields :: "Endpoint list \<Rightarrow> string list" where
  "IgnoredFields eps =
     (case cut_echoes (sort (distinct_entries (concat (map ep_Ignored eps)))) 0 of
        (kept, echoes) \<Rightarrow> if echoes > maxIgnoredFields then kept @ [ignoredFieldsCapped] else kept)"

subsection \<open>Secret references\<close>

text \<open>The secret selectors an endpoint declares.\<close>
definition declared :: "endpointSpec \<Rightarrow> secretRef option list" where
  "declared ep = es_BearerTokenSecret ep #
     (case es_BasicAuth ep of None \<Rightarrow> [] | Some ba \<Rightarrow> [ba_Username ba, ba_Password ba]) @
     (case es_Authorization ep of None \<Rightarrow> [] | Some az \<Rightarrow> [az_Credentials az]) @
     (case es_TLSConfig ep of None \<Rightarrow> []
      | Some tls \<Rightarrow> [Option.bind (tls_CA tls) sc_Secret, Option.bind (tls_Cert tls) sc_Secret, tls_KeySecret tls])"

definition declared_secrets :: "endpointSpec \<Rightarrow> secretRef set" where
  "declared_secrets ep = {r. Some r \<in> set (declared ep)}"

lemma secretOrCM_ref_bind: "secretOrCM_ref s = secretRef_ref (Option.bind s sc_Secret)"
  by (cases s) (simp_all add: secretOrCM_ref_def secretRef_ref_def)

definition slash_free :: "string \<Rightarrow> bool" where
  "slash_free s \<longleftrightarrow> CHR ''/'' \<notin> set s"

lemma secretRef_ref_cases:
  "secretRef_ref r \<noteq> [] \<Longrightarrow> \<exists>s. r = Some s \<and> secretRef_ref r = sr_Name s @ ''/'' @ sr_Key s \<and>
     slash_free (sr_Name s) \<and> slash_free (sr_Key s) \<and> sr_Name s \<noteq> [] \<and> sr_Key s \<noteq> []"
  by (auto simp: secretRef_ref_def slash_free_def split: option.splits if_splits)

lemma spec_auth_refs:
  assumes "v \<in> set (secretRefs \<lparr>ep_Port = p, ep_TargetPort = tp, ep_Path = pa, ep_Scheme = sc, ep_ScrapeAuth = spec_auth ep,
    ep_MetricRelabelings = mr, ep_Interval = i, ep_ScrapeTimeout = s, ep_Ignored = ig, ep_Refused = rf\<rparr>)" "v \<noteq> []"
  shows "\<exists>r \<in> declared_secrets ep. v = sr_Name r @ ''/'' @ sr_Key r \<and> slash_free (sr_Name r) \<and> slash_free (sr_Key r)"
proof -
  have "v \<in> secretRef_ref ` set (declared ep)"
    using assms
    by (auto simp: secretRefs_def spec_auth_def declared_def zero_ScrapeAuth_def secretOrCM_ref_bind Let_def split: option.splits)
  then obtain o' where "o' \<in> set (declared ep)" "v = secretRef_ref o'" by blast
  then show ?thesis using secretRef_ref_cases [of o'] assms(2) by (auto simp: declared_secrets_def)
qed

lemma bounds_refs:
  assumes "v \<in> set (secretRefs (enforceFieldBounds pre e))" "v \<noteq> []"
  shows "v \<in> set (secretRefs e)"
  using assms by (auto simp: enforceFieldBounds_def clear_fields_def secretRefs_def Let_def split: if_splits)

lemma toEndpoint_refs:
  assumes "v \<in> set (secretRefs (toEndpoint rx ep))" "v \<noteq> []"
  shows "\<exists>r \<in> declared_secrets ep. v = sr_Name r @ ''/'' @ sr_Key r \<and> slash_free (sr_Name r) \<and> slash_free (sr_Key r)"
proof -
  obtain rules ign f where c: "relabelChain rx (es_MetricRelabelings ep) = (rules, ign, f)" by (metis prod.exhaust)
  from assms show ?thesis unfolding toEndpoint_def c prod.case by (intro spec_auth_refs [OF bounds_refs])
qed

lemma secretRefs_namespace: "secretRefs (namespaceSecretRefs ns e) = map (prefixed ns) (secretRefs e)"
  by (simp add: secretRefs_def namespaceSecretRefs_def Let_def)

lemma secretRefs_Ignored [simp]: "secretRefs (e\<lparr>ep_Ignored := ig\<rparr>) = secretRefs e"
  by (simp add: secretRefs_def)

lemma monitor_endpoint_refs:
  assumes "v \<in> set (secretRefs (monitor_endpoint rx ig ns ep))" "v \<noteq> []"
  shows "\<exists>r \<in> declared_secrets ep. v = ns @ ''/'' @ sr_Name r @ ''/'' @ sr_Key r \<and> slash_free (sr_Name r) \<and> slash_free (sr_Key r)"
proof -
  from assms obtain u where u: "u \<in> set (secretRefs (toEndpoint rx ep))" "v = prefixed ns u"
    by (auto simp: monitor_endpoint_def secretRefs_namespace Let_def)
  then have "u \<noteq> []" "v = ns @ ''/'' @ u" using assms(2) by (auto simp: prefixed_def split: if_splits)
  with toEndpoint_refs [OF u(1)] show ?thesis by auto
qed

subsection \<open>Ceilings\<close>










subsection \<open>The monitor\<close>

text \<open>The two selectors are within their ceilings.\<close>
definition selectors_bounded :: "monitorSpec \<Rightarrow> bool" where
  "selectors_bounded spec \<longleftrightarrow> length (ls_MatchLabels (ms_Selector spec)) + length (ls_MatchExpressions (ms_Selector spec)) \<le> maxSelectorTerms \<and>
     sum_list (map (\<lambda>e. length (lr_Values e)) (ls_MatchExpressions (ms_Selector spec))) \<le> maxSelectorValues \<and>
     length (ns_MatchNames (ms_NamespaceSelector spec)) \<le> maxSelectorNamespaces \<and>
     (\<forall>ns \<in> set (ns_MatchNames (ms_NamespaceSelector spec)). length ns \<le> maxSelectorNameBytes)"

lemma checkSelectorBounds_None: "checkSelectorBounds (ms_Selector spec) (ms_NamespaceSelector spec) = None \<longleftrightarrow> selectors_bounded spec"
proof -
  have "(case xs of ns # _ \<Rightarrow> Some (NamespaceLength (length ns)) | [] \<Rightarrow> None) = None \<longleftrightarrow> xs = []" for xs :: "string list" by (cases xs) auto
  then show ?thesis by (simp add: checkSelectorBounds_def selectors_bounded_def Let_def filter_empty_conv) (auto simp: not_less)
qed

lemma parse_Inr:
  assumes "parseMonitorSpec api rx kind u = Inr b"
  obtains specRaw spec sel where "u_spec u = Some specRaw" "FromUnstructured api kind (fst (cut_endpoints kind specRaw)) = Inr spec"
    "selectors_bounded spec" "LabelSelectorAsSelector api (ms_Selector spec) = Inr sel" "mb_Selector b = sel" "mb_Namespace b = u_Namespace u"
    "mb_Name b = u_Name u" "mb_resourceVersion b = u_ResourceVersion u" "mb_nsSel b = ms_NamespaceSelector spec"
    "\<exists>ig. mb_Endpoints b = map (monitor_endpoint rx ig (u_Namespace u)) (take maxEndpointsPerMonitor (ms_Endpoints spec))"
proof -
  obtain specRaw where s: "u_spec u = Some specRaw" using assms by (cases "u_spec u") (auto simp: parseMonitorSpec_def)
  obtain raw c where r: "cut_endpoints kind specRaw = (raw, c)" by fastforce
  obtain spec where d: "FromUnstructured api kind raw = Inr spec" using assms by (auto simp: parseMonitorSpec_def s r split: sum.splits)
  have n: "checkSelectorBounds (ms_Selector spec) (ms_NamespaceSelector spec) = None"
    using assms by (auto simp: parseMonitorSpec_def s r d split: option.splits)
  obtain sel where l: "LabelSelectorAsSelector api (ms_Selector spec) = Inr sel"
    using assms by (auto simp: parseMonitorSpec_def s r d n split: sum.splits)
  show ?thesis
    by (rule that [OF s _ n [unfolded checkSelectorBounds_None] l]) (use assms in \<open>auto simp: parseMonitorSpec_def s r d n l Let_def\<close>)
qed

text \<open>
  C20. A monitor can name only secrets of its own namespace, and each of its references can be read in one way.
  Every reference an indexed monitor carries is its own namespace, a declared name and a declared key, in
  which name and key have no slash; and a monitor has at most 128 endpoints.
\<close>
theorem parse_confines_secrets:
  assumes "parseMonitorSpec api rx kind u = Inr b" "e \<in> set (mb_Endpoints b)" "v \<in> set (secretRefs e)" "v \<noteq> []"
  shows "length (mb_Endpoints b) \<le> maxEndpointsPerMonitor \<and>
    (\<exists>specRaw spec ep. u_spec u = Some specRaw \<and> FromUnstructured api kind (fst (cut_endpoints kind specRaw)) = Inr spec \<and>
       ep \<in> set (ms_Endpoints spec) \<and>
       (\<exists>r \<in> declared_secrets ep. v = u_Namespace u @ ''/'' @ sr_Name r @ ''/'' @ sr_Key r \<and> slash_free (sr_Name r) \<and> slash_free (sr_Key r)))"
proof -
  obtain specRaw spec ig where p: "u_spec u = Some specRaw" "FromUnstructured api kind (fst (cut_endpoints kind specRaw)) = Inr spec"
    "mb_Endpoints b = map (monitor_endpoint rx ig (u_Namespace u)) (take maxEndpointsPerMonitor (ms_Endpoints spec))"
    by (rule parse_Inr [OF assms(1)]) blast
  then obtain ep where "e = monitor_endpoint rx ig (u_Namespace u) ep" "ep \<in> set (ms_Endpoints spec)"
    using assms(2) in_set_takeD by fastforce
  with monitor_endpoint_refs [of v rx ig "u_Namespace u" ep] assms(3,4)
  have "\<exists>r \<in> declared_secrets ep. v = u_Namespace u @ ''/'' @ sr_Name r @ ''/'' @ sr_Key r \<and> slash_free (sr_Name r) \<and> slash_free (sr_Key r)" by blast
  then show ?thesis using p \<open>ep \<in> set (ms_Endpoints spec)\<close> by (intro conjI exI [of _ specRaw] exI [of _ spec] exI [of _ ep]) simp_all
qed

text \<open>
  C26. Which objects are refused, and as what: an object without a spec, one that does not decode, one with a
  selector over a ceiling, and one whose selector is malformed. All others are parsed, so that a
  long list of endpoints or an endpoint over its ceilings never refuses the monitor.
\<close>
theorem parseMonitorSpec_errors:
  "(parseMonitorSpec api rx kind u = Inl NoSpec \<longleftrightarrow> u_spec u = None) \<and>
   (\<forall>raw. u_spec u = Some raw \<longrightarrow>
     (case FromUnstructured api kind (fst (cut_endpoints kind raw)) of
        Inl err \<Rightarrow> parseMonitorSpec api rx kind u = Inl (DecodeError err)
      | Inr spec \<Rightarrow>
          (if \<not> selectors_bounded spec then \<exists>err. parseMonitorSpec api rx kind u = Inl err \<and> err \<notin> {NoSpec} \<union> range DecodeError \<union> range SelectorError
           else (case LabelSelectorAsSelector api (ms_Selector spec) of
                   Inl err \<Rightarrow> parseMonitorSpec api rx kind u = Inl (SelectorError err)
                 | Inr sel \<Rightarrow> \<exists>b. parseMonitorSpec api rx kind u = Inr b))))"
proof (cases "u_spec u")
  case None
  then show ?thesis by (simp add: parseMonitorSpec_def)
next
  case (Some raw)
  obtain cut c where r: "cut_endpoints kind raw = (cut, c)" by fastforce
  have bounds: "checkSelectorBounds s n = Some err \<Longrightarrow> err \<notin> {NoSpec} \<union> range DecodeError \<union> range SelectorError" for s n err
    by (auto simp: checkSelectorBounds_def Let_def split: if_splits list.splits)
  show ?thesis
  proof (cases "FromUnstructured api kind cut")
    case (Inl err)
    then show ?thesis using Some by (simp add: parseMonitorSpec_def r)
  next
    case (Inr spec)
    show ?thesis
    proof (cases "checkSelectorBounds (ms_Selector spec) (ms_NamespaceSelector spec)")
      case None
      then show ?thesis using Some Inr checkSelectorBounds_None [of spec] by (auto simp: parseMonitorSpec_def r Let_def split: sum.splits)
    next
      case (Some err)
      then have "\<not> selectors_bounded spec" using checkSelectorBounds_None [of spec] by simp
      then show ?thesis using Some bounds [OF Some] Inr \<open>u_spec u = Some raw\<close> by (auto simp: parseMonitorSpec_def r)
    qed
  qed
qed


subsection \<open>The report\<close>

lemma distinct_entries_facts: "distinct (distinct_entries fs) \<and> set (distinct_entries fs) = set fs"
proof -
  have "distinct acc \<Longrightarrow> distinct (fold (\<lambda>f out'. if f \<in> set out' then out' else out' @ [f]) fs acc) \<and>
      set (fold (\<lambda>f out'. if f \<in> set out' then out' else out' @ [f]) fs acc) = set acc \<union> set fs" for acc
    by (induction fs arbitrary: acc) auto
  from this [of "[]"] show ?thesis by (simp add: distinct_entries_def)
qed

text \<open>The cut keeps every entry that is no echo, and the first echoes up to the ceiling.\<close>
lemma cut_echoes_spec:
  "cut_echoes fs n = (kept, m) \<Longrightarrow> m = n + length (filter isValueEcho fs) \<and> subseq kept fs \<and>
    filter (\<lambda>f. \<not> isValueEcho f) kept = filter (\<lambda>f. \<not> isValueEcho f) fs \<and>
    filter isValueEcho kept = take (maxIgnoredFields - n) (filter isValueEcho fs)"
proof (induction fs arbitrary: n kept m)
  case (Cons f fs)
  obtain k m' where r: "cut_echoes fs (if isValueEcho f then Suc n else n) = (k, m')" by fastforce
  note IH = Cons.IH [OF r]
  show ?case
  proof (cases "isValueEcho f \<and> maxIgnoredFields \<le> n")
    case True
    then have "kept = k" "m = m'" using Cons.prems r by (simp_all add: Let_def)
    then show ?thesis using IH True by auto
  next
    case False
    then have "kept = f # k" "m = m'" using Cons.prems r by (auto simp: Let_def split: if_splits)
    moreover have "isValueEcho f \<Longrightarrow> maxIgnoredFields - n = Suc (maxIgnoredFields - Suc n)" using False by simp
    ultimately show ?thesis using IH by auto
  qed
qed simp

text \<open>
  The report of a monitor is sorted, has each entry once, and never loses an entry that is not an echo
  of a value: in particular every verdict that an endpoint is refused or a list was cut. The echoes, whose
  number a monitor chooses, are bounded, and a last entry says when some are missing.
\<close>
theorem IgnoredFields_report:
  "(let entries = concat (map ep_Ignored eps); report = IgnoredFields eps; more = (maxIgnoredFields < card (set (filter isValueEcho entries))) in
     (\<exists>kept. report = kept @ (if more then [ignoredFieldsCapped] else []) \<and> sorted kept \<and> distinct kept \<and> set kept \<subseteq> set entries \<and>
        {f \<in> set entries. \<not> isValueEcho f} \<subseteq> set kept \<and>
        card {f \<in> set kept. isValueEcho f} = min maxIgnoredFields (card (set (filter isValueEcho entries)))))"
proof -
  define fs where "fs = sort (distinct_entries (concat (map ep_Ignored eps)))"
  have fs: "sorted fs" "distinct fs" "set fs = set (concat (map ep_Ignored eps))"
    using distinct_entries_facts [of "concat (map ep_Ignored eps)"] by (simp_all add: fs_def)
  obtain kept m where c: "cut_echoes fs 0 = (kept, m)" by fastforce
  have k: "m = length (filter isValueEcho fs)" "subseq kept fs" "filter (\<lambda>f. \<not> isValueEcho f) kept = filter (\<lambda>f. \<not> isValueEcho f) fs"
    "filter isValueEcho kept = take maxIgnoredFields (filter isValueEcho fs)" using cut_echoes_spec [OF c] by simp_all
  have card: "card (set (filter isValueEcho (concat (map ep_Ignored eps)))) = length (filter isValueEcho fs)"
    using fs by (metis distinct_card distinct_filter set_filter)
  obtain N where N: "kept = nths fs N" using k(2) by (auto simp: subseq_conv_nths)
  have d: "distinct kept" unfolding N by (rule distinct_nthsI [OF fs(2)])
  have "sorted kept" unfolding N by (rule sorted_nths [OF fs(1)])
  moreover have "set kept \<subseteq> set fs" unfolding N by (rule set_nths_subset)
  moreover have "{f \<in> set fs. \<not> isValueEcho f} \<subseteq> set kept" using arg_cong [OF k(3), of set] by auto
  moreover have "card {f \<in> set kept. isValueEcho f} = min maxIgnoredFields (length (filter isValueEcho fs))"
  proof -
    have "card {f \<in> set kept. isValueEcho f} = length (filter isValueEcho kept)"
      using distinct_card [OF distinct_filter [OF d, of isValueEcho]] by simp
    then show ?thesis by (simp add: k(4) min.commute)
  qed
  moreover have "IgnoredFields eps = kept @ (if maxIgnoredFields < length (filter isValueEcho fs) then [ignoredFieldsCapped] else [])"
    using k(1) by (simp add: IgnoredFields_def c fs_def [symmetric])
  ultimately show ?thesis unfolding Let_def card by (intro exI [of _ kept] conjI) (simp_all only: d fs(3))
qed


subsection \<open>A monitor with a bearer token\<close>

definition zero_endpointSpec :: endpointSpec where
  "zero_endpointSpec = \<lparr>es_Port = [], es_TargetPort = None, es_PortNumber = None, es_Path = [], es_Scheme = [], es_Interval = [], es_ScrapeTimeout = [],
     es_TLSConfig = None, es_BasicAuth = None, es_Authorization = None, es_OAuth2 = [], es_ProxyURL = [], es_NoProxy = [],
     es_ProxyFromEnvironment = None, es_ProxyConnectHeader = [], es_BearerTokenFile = [], es_FilterRunning = None, es_FollowRedirects = None,
     es_EnableHTTP2 = None, es_HonorTimestamps = None, es_TrackTimestampsStaleness = None, es_Params = [], es_HonorLabels = None,
     es_Relabelings = [], es_BearerTokenSecret = None, es_MetricRelabelings = []\<rparr>"

definition zero_limits :: specLimits where
  "zero_limits = \<lparr>sl_SampleLimit = None, sl_TargetLimit = None, sl_LabelLimit = None, sl_LabelNameLengthLimit = None, sl_LabelValueLengthLimit = None,
     sl_KeepDroppedTargets = None, sl_JobLabel = [], sl_TargetLabels = [], sl_PodTargetLabels = [], sl_BodySizeLimit = [], sl_AttachMetadata = None,
     sl_ScrapeClass = [], sl_ScrapeProtocols = [], sl_FallbackScrapeProtocol = [], sl_SelectorMechanism = [], sl_NativeHistogramBucketLimit = None,
     sl_NativeHistogramMinBucketFactor = [], sl_ConvertClassicHistogramsToNHCB = None, sl_ScrapeClassicHistograms = None\<rparr>"

text \<open>A decoder of objects whose endpoint list is already typed, and selectors by equality of labels.\<close>
definition typed_api :: "(endpointSpec, strmap) apimachinery" where
  "typed_api = \<lparr>FromUnstructured = (\<lambda>kind m. case get m (endpointsField kind) of
        Some (RawList eps) \<Rightarrow> Inr \<lparr>ms_Selector = \<lparr>ls_MatchLabels = [(''app'', ''web'')], ls_MatchExpressions = []\<rparr>,
          ms_NamespaceSelector = \<lparr>ns_Any = False, ns_MatchNames = []\<rparr>, ms_Endpoints = eps, ms_limits = zero_limits\<rparr>
      | _ \<Rightarrow> Inl ''endpoints''),
     LabelSelectorAsSelector = (\<lambda>s. Inr (ls_MatchLabels s))\<rparr>"

definition token_endpoint :: endpointSpec where
  "token_endpoint = zero_endpointSpec\<lparr>es_Port := ''web'', es_BearerTokenSecret := Some \<lparr>sr_Name = ''scrape'', sr_Key = ''token''\<rparr>\<rparr>"

definition token_monitor :: "endpointSpec unstructured" where
  "token_monitor = \<lparr>u_Namespace = ''shop'', u_Name = ''web'', u_ResourceVersion = ''7'', u_spec = Some [(''endpoints'', RawList [token_endpoint])]\<rparr>"

lemma token_parse:
  "\<exists>b e. parseMonitorSpec typed_api literal_engine ServiceMonitor token_monitor = Inr b \<and> mb_Namespace b = ''shop'' \<and>
     mb_Endpoints b = [e] \<and> ''shop/scrape/token'' \<in> set (secretRefs e)"
proof -
  have "case parseMonitorSpec typed_api literal_engine ServiceMonitor token_monitor of
      Inl _ \<Rightarrow> False
    | Inr b \<Rightarrow> mb_Namespace b = ''shop'' \<and> length (mb_Endpoints b) = 1 \<and> ''shop/scrape/token'' \<in> set (secretRefs (hd (mb_Endpoints b)))"
    by code_simp
  then show ?thesis by (auto simp: length_Suc_conv split: sum.splits)
qed

theorem parse_confines_secrets_witness:
  "\<exists>r :: secretRef. ''shop/scrape/token'' = ''shop'' @ ''/'' @ sr_Name r @ ''/'' @ sr_Key r \<and> slash_free (sr_Name r) \<and> slash_free (sr_Key r)"
proof -
  obtain b e where b: "parseMonitorSpec typed_api literal_engine ServiceMonitor token_monitor = Inr b"
    "mb_Endpoints b = [e]" "''shop/scrape/token'' \<in> set (secretRefs e)" using token_parse by blast
  have "e \<in> set (mb_Endpoints b)" "''shop/scrape/token'' \<noteq> []" "u_Namespace token_monitor = ''shop''" by (simp_all add: b token_monitor_def)
  note r = this
  obtain ep r where "r \<in> declared_secrets ep" "''shop/scrape/token'' = u_Namespace token_monitor @ ''/'' @ sr_Name r @ ''/'' @ sr_Key r"
    "slash_free (sr_Name r)" "slash_free (sr_Key r)"
    using parse_confines_secrets [OF b(1) r(1) b(3) r(2)] by blast
  then show ?thesis unfolding r(3) by blast
qed

theorem parseMonitorSpec_errors_witness:
  "parseMonitorSpec typed_api literal_engine PodMonitor token_monitor = Inl (DecodeError ''endpoints'') \<and>
   (\<exists>b. parseMonitorSpec typed_api literal_engine ServiceMonitor token_monitor = Inr b)"
proof
  have "FromUnstructured typed_api PodMonitor (fst (cut_endpoints PodMonitor [(''endpoints'', RawList [token_endpoint])])) = Inl ''endpoints''"
    by (simp add: typed_api_def cut_endpoints_def endpointsField_def)
  then show "parseMonitorSpec typed_api literal_engine PodMonitor token_monitor = Inl (DecodeError ''endpoints'')"
    using parseMonitorSpec_errors [of typed_api literal_engine PodMonitor token_monitor] by (simp add: token_monitor_def)
  show "\<exists>b. parseMonitorSpec typed_api literal_engine ServiceMonitor token_monitor = Inr b" using token_parse by blast
qed

end
