(* ===== verification/MonitorIndex.thy ===== *)
theory MonitorIndex
  imports MonitorSpec
begin

section \<open>The index of monitors (internal/servicemonitors: index.go, podmonitors.go, authrefs.go)\<close>

text \<open>
  The store of parsed monitors that the informers feed, its change token, the table that tells news from a
  re-delivery, and the allowlist of secret references with its memo. A stored \<^verbatim>\<open>*Monitor\<close> is an address and
  the record at it, because the address of an endpoint is what identifies a declaration downstream; a
  record is never written again. The two kinds are held apart by \<open>monitor_kind\<close>.
\<close>

subsection \<open>State\<close>

type_synonym 'sel stored = "nat \<times> 'sel monitorBase"

text \<open>The last field is the next free address.\<close>
record 'sel MIndex =
  mi_monitors :: "(string, 'sel stored) gomap"
  mi_podMonitors :: "(string, 'sel stored) gomap"
  mi_rejectedMonitors :: strmap
  mi_rejectedPodMonitors :: strmap
  mi_gen :: u64
  mi_authRefs :: "string set"
  mi_authGen :: u64
  mi_authValid :: bool
  mi_authBuilds :: nat
  mi_next :: nat

definition New_MIndex :: "'sel MIndex" where
  "New_MIndex = \<lparr>mi_monitors = [], mi_podMonitors = [], mi_rejectedMonitors = [], mi_rejectedPodMonitors = [], mi_gen = 0,
     mi_authRefs = {}, mi_authGen = 0, mi_authValid = False, mi_authBuilds = 0, mi_next = 0\<rparr>"

definition MIndex_Generation :: "'sel MIndex \<Rightarrow> u64" where
  "MIndex_Generation ix = mi_gen ix"

definition kind_monitors :: "monitor_kind \<Rightarrow> 'sel MIndex \<Rightarrow> (string, 'sel stored) gomap" where
  "kind_monitors kind ix = (case kind of ServiceMonitor \<Rightarrow> mi_monitors ix | PodMonitor \<Rightarrow> mi_podMonitors ix)"

definition kind_rejected :: "monitor_kind \<Rightarrow> 'sel MIndex \<Rightarrow> strmap" where
  "kind_rejected kind ix = (case kind of ServiceMonitor \<Rightarrow> mi_rejectedMonitors ix | PodMonitor \<Rightarrow> mi_rejectedPodMonitors ix)"

definition set_kind :: "monitor_kind \<Rightarrow> (string, 'sel stored) gomap \<Rightarrow> strmap \<Rightarrow> 'sel MIndex \<Rightarrow> 'sel MIndex" where
  "set_kind kind m r ix =
     (case kind of
        ServiceMonitor \<Rightarrow> ix\<lparr>mi_monitors := m, mi_rejectedMonitors := r\<rparr>
      | PodMonitor \<Rightarrow> ix\<lparr>mi_podMonitors := m, mi_rejectedPodMonitors := r\<rparr>)"

definition bump :: "'sel MIndex \<Rightarrow> 'sel MIndex" where
  "bump ix = ix\<lparr>mi_gen := mi_gen ix + 1\<rparr>"

definition monitor_key :: "string \<Rightarrow> string \<Rightarrow> string" where
  "monitor_key namespace name = namespace @ ''/'' @ name"

subsection \<open>Deliveries\<close>

text \<open>The first result is whether the delivery is news.\<close>
definition upsertMonitor :: "monitor_kind \<Rightarrow> string \<Rightarrow> string \<Rightarrow> monitor_error + 'sel stored \<Rightarrow> 'sel MIndex \<Rightarrow> bool \<times> 'sel MIndex" where
  "upsertMonitor kind key resourceVersion parsed ix =
     (let monitors = kind_monitors kind ix; rejected = kind_rejected kind ix in
      case parsed of
        Inl err \<Rightarrow>
          (let had = (get monitors key \<noteq> None);
               ix = (if had then bump (set_kind kind (del key monitors) rejected ix) else ix);
               previous = get rejected key
           in (had \<or> previous = None \<or> resourceVersion = [] \<or> previous \<noteq> Some resourceVersion,
               set_kind kind (kind_monitors kind ix) (put key resourceVersion rejected) ix))
      | Inr m \<Rightarrow>
          (let rejected = del key rejected in
           case get monitors key of
             Some cur \<Rightarrow>
               if mb_resourceVersion (snd m) \<noteq> [] \<and> mb_resourceVersion (snd cur) = mb_resourceVersion (snd m)
               then (False, set_kind kind monitors rejected ix)
               else (True, bump (set_kind kind (put key m monitors) rejected ix))
           | None \<Rightarrow> (True, bump (set_kind kind (put key m monitors) rejected ix))))"

text \<open>\<^verbatim>\<open>UpsertChanged\<close> and \<^verbatim>\<open>UpsertPodMonitorChanged\<close>: the endpoints, whether it is news, and the error.\<close>
definition UpsertChanged :: "('raw, 'sel) apimachinery \<Rightarrow> regex_engine \<Rightarrow> monitor_kind \<Rightarrow> 'raw unstructured \<Rightarrow> 'sel MIndex \<Rightarrow>
    (Endpoint list \<times> bool \<times> monitor_error option) \<times> 'sel MIndex" where
  "UpsertChanged api rx kind u ix =
     (case parseMonitorSpec api rx kind u of
        Inl err \<Rightarrow>
          (case upsertMonitor kind (monitor_key (u_Namespace u) (u_Name u)) (u_ResourceVersion u) (Inl err) ix of
             (news, ix) \<Rightarrow> (([], news, Some err), ix))
      | Inr b \<Rightarrow>
          (case upsertMonitor kind (monitor_key (u_Namespace u) (u_Name u)) (u_ResourceVersion u) (Inr (mi_next ix, b))
                  (ix\<lparr>mi_next := Suc (mi_next ix)\<rparr>) of
             (news, ix) \<Rightarrow> ((mb_Endpoints b, news, None), ix)))"

definition deleteMonitor :: "monitor_kind \<Rightarrow> string \<Rightarrow> 'sel MIndex \<Rightarrow> 'sel MIndex" where
  "deleteMonitor kind key ix =
     (let rejected = del key (kind_rejected kind ix); monitors = kind_monitors kind ix in
      if get monitors key = None then set_kind kind monitors rejected ix
      else bump (set_kind kind (del key monitors) rejected ix))"

definition MIndex_Delete :: "monitor_kind \<Rightarrow> string \<Rightarrow> string \<Rightarrow> 'sel MIndex \<Rightarrow> 'sel MIndex" where
  "MIndex_Delete kind namespace name ix = deleteMonitor kind (monitor_key namespace name) ix"

subsection \<open>Reading\<close>

text \<open>
  \<^verbatim>\<open>slices.SortFunc\<close> by (namespace, name). The sort is not stable, and need not be: no two monitors share a
  pair.
\<close>
definition sortedMonitors :: "(string, 'sel stored) gomap \<Rightarrow> 'sel stored list" where
  "sortedMonitors monitors = sort_key (\<lambda>m. [mb_Namespace (snd m), mb_Name (snd m)]) (map snd monitors)"

definition MIndex_All :: "'sel MIndex \<Rightarrow> 'sel stored list" where
  "MIndex_All ix = sortedMonitors (mi_monitors ix)"

definition PodMonitors :: "'sel MIndex \<Rightarrow> 'sel stored list" where
  "PodMonitors ix = sortedMonitors (mi_podMonitors ix)"

definition Rejected :: "'sel MIndex \<Rightarrow> nat \<times> nat" where
  "Rejected ix = (length (mi_rejectedMonitors ix), length (mi_rejectedPodMonitors ix))"

definition Endpoints :: "string \<Rightarrow> string \<Rightarrow> 'sel MIndex \<Rightarrow> Endpoint list" where
  "Endpoints namespace name ix =
     (case get (mi_monitors ix) (monitor_key namespace name) of Some m \<Rightarrow> mb_Endpoints (snd m) | None \<Rightarrow> [])"

subsection \<open>The allowlist of secret references\<close>

definition refs_of :: "Endpoint list \<Rightarrow> string set" where
  "refs_of eps = set (filter (\<lambda>ref. ref \<noteq> []) (concat (map secretRefs eps)))"

definition collect_refs :: "'sel MIndex \<Rightarrow> string set" where
  "collect_refs ix = refs_of (concat (map (mb_Endpoints \<circ> snd \<circ> snd) (mi_monitors ix @ mi_podMonitors ix)))"

definition buildAuthSecretRefs :: "'sel MIndex \<Rightarrow> string set \<times> 'sel MIndex" where
  "buildAuthSecretRefs ix = (collect_refs ix, ix\<lparr>mi_authBuilds := mi_authBuilds ix + 1\<rparr>)"

text \<open>
  \<^verbatim>\<open>AuthSecretRefs\<close> samples the token (\<open>MIndex_Generation\<close>) before it takes the lock of the memo; this is what it
  does under that lock.
\<close>
definition auth_section :: "u64 \<Rightarrow> 'sel MIndex \<Rightarrow> string set \<times> 'sel MIndex" where
  "auth_section g ix =
     (if \<not> mi_authValid ix \<or> mi_authGen ix \<noteq> g
      then (case buildAuthSecretRefs ix of (refs, ix) \<Rightarrow> (refs, ix\<lparr>mi_authRefs := refs, mi_authGen := g, mi_authValid := True\<rparr>))
      else (mi_authRefs ix, ix))"

definition AuthSecretRefs :: "'sel MIndex \<Rightarrow> string set \<times> 'sel MIndex" where
  "AuthSecretRefs ix = auth_section (MIndex_Generation ix) ix"

definition Has :: "string set \<Rightarrow> string \<Rightarrow> bool" where
  "Has refs ref \<longleftrightarrow> ref \<in> refs"

definition Refs_Len :: "string set \<Rightarrow> nat" where
  "Refs_Len refs = card refs"

subsection \<open>Deliveries against a directory of the last object\<close>

datatype 'raw mi_op = MUpsert monitor_kind "'raw unstructured" | MDelete monitor_kind string string

definition mi_run :: "('raw, 'sel) apimachinery \<Rightarrow> regex_engine \<Rightarrow> 'raw mi_op \<Rightarrow> 'sel MIndex \<Rightarrow> 'sel MIndex" where
  "mi_run api rx op ix =
     (case op of MUpsert kind u \<Rightarrow> snd (UpsertChanged api rx kind u ix) | MDelete kind ns name \<Rightarrow> MIndex_Delete kind ns name ix)"

text \<open>Per kind and key, the object that was delivered last and is not deleted.\<close>
type_synonym 'raw deliveries = "monitor_kind \<Rightarrow> string \<Rightarrow> 'raw unstructured option"

definition deliver :: "'raw mi_op \<Rightarrow> 'raw deliveries \<Rightarrow> 'raw deliveries" where
  "deliver op D =
     (case op of
        MUpsert kind u \<Rightarrow> D(kind := (D kind)(monitor_key (u_Namespace u) (u_Name u) \<mapsto> u))
      | MDelete kind ns name \<Rightarrow> D(kind := (D kind)(monitor_key ns name := None)))"

definition delivered :: "'raw mi_op list \<Rightarrow> 'raw deliveries" where
  "delivered ops = fold deliver ops (\<lambda>_ _. None)"

text \<open>A resource version identifies the content of an object, as the API server guarantees.\<close>
definition versioned :: "'raw mi_op list \<Rightarrow> bool" where
  "versioned ops \<longleftrightarrow> (\<forall>kind u u'. MUpsert kind u \<in> set ops \<longrightarrow> MUpsert kind u' \<in> set ops \<longrightarrow>
     monitor_key (u_Namespace u) (u_Name u) = monitor_key (u_Namespace u') (u_Name u') \<longrightarrow>
     u_ResourceVersion u = u_ResourceVersion u' \<longrightarrow> u_ResourceVersion u \<noteq> [] \<longrightarrow> u = u')"

lemma kind_simps [simp]:
  "kind_monitors k (set_kind k' m r ix) = (if k = k' then m else kind_monitors k ix)"
  "kind_rejected k (set_kind k' m r ix) = (if k = k' then r else kind_rejected k ix)"
  "kind_monitors k (bump ix) = kind_monitors k ix" "kind_rejected k (bump ix) = kind_rejected k ix"
  "mi_gen (set_kind k m r ix) = mi_gen ix" "mi_gen (bump ix) = mi_gen ix + 1"
  "kind_monitors k (ix\<lparr>mi_next := n\<rparr>) = kind_monitors k ix" "kind_rejected k (ix\<lparr>mi_next := n\<rparr>) = kind_rejected k ix"
  "mi_next (set_kind k m r ix) = mi_next ix" "mi_next (bump ix) = mi_next ix"
  by (cases k; cases k'; simp add: kind_monitors_def kind_rejected_def set_kind_def bump_def;
      cases k; simp add: set_kind_def bump_def kind_monitors_def kind_rejected_def)+

text \<open>What the index holds of one object: its record, or the version that does not parse.\<close>
definition holds :: "('raw, 'sel) apimachinery \<Rightarrow> regex_engine \<Rightarrow> monitor_kind \<Rightarrow> 'raw unstructured option \<Rightarrow> 'sel monitorBase option \<times> string option" where
  "holds api rx kind o' =
     (case o' of
        None \<Rightarrow> (None, None)
      | Some u \<Rightarrow> (case parseMonitorSpec api rx kind u of Inl err \<Rightarrow> (None, Some (u_ResourceVersion u)) | Inr b \<Rightarrow> (Some b, None)))"

definition held_in :: "'sel MIndex \<Rightarrow> monitor_kind \<Rightarrow> string \<Rightarrow> 'sel monitorBase option \<times> string option" where
  "held_in ix kind key = (map_option snd (get (kind_monitors kind ix) key), get (kind_rejected kind ix) key)"

lemma parse_version: "parseMonitorSpec api rx kind u = Inr b \<Longrightarrow> mb_resourceVersion b = u_ResourceVersion u \<and> mb_Namespace b = u_Namespace u \<and> mb_Name b = u_Name u"
  by (erule parse_Inr) simp

lemma upsert_holds:
  assumes "\<And>u'. D kind (monitor_key (u_Namespace u) (u_Name u)) = Some u' \<Longrightarrow>
      u_ResourceVersion u' = u_ResourceVersion u \<Longrightarrow> u_ResourceVersion u \<noteq> [] \<Longrightarrow> u' = u"
    and inv: "\<And>k key. held_in ix k key = holds api rx k (D k key)"
  shows "held_in (snd (UpsertChanged api rx kind u ix)) k key = holds api rx k (deliver (MUpsert kind u) D k key)"
proof (cases "k = kind \<and> key = monitor_key (u_Namespace u) (u_Name u)")
  case False
  then have "held_in (snd (UpsertChanged api rx kind u ix)) k key = held_in ix k key"
    by (auto simp: UpsertChanged_def upsertMonitor_def held_in_def Let_def split: sum.split option.split)
  then show ?thesis using False inv [of k key] by (auto simp: deliver_def)
next
  case True
  let ?key = "monitor_key (u_Namespace u) (u_Name u)"
  have d: "deliver (MUpsert kind u) D k key = Some u" using True by (simp add: deliver_def)
  show ?thesis
  proof (cases "parseMonitorSpec api rx kind u")
    case (Inl err)
    then show ?thesis unfolding d using True
      by (cases "get (kind_monitors kind ix) ?key") (auto simp: UpsertChanged_def upsertMonitor_def held_in_def holds_def Let_def)
  next
    case (Inr b)
    note v = parse_version [OF Inr]
    have same: "snd cur = b" if "get (kind_monitors kind ix) ?key = Some cur" "mb_resourceVersion b \<noteq> []"
      "mb_resourceVersion (snd cur) = mb_resourceVersion b" for cur
    proof -
      from that(1) inv [of kind ?key] obtain u' where u': "D kind ?key = Some u'" "parseMonitorSpec api rx kind u' = Inr (snd cur)"
        by (auto simp: held_in_def holds_def split: option.splits sum.splits)
      then have "u' = u" using assms(1) parse_version [OF u'(2)] that v by simp
      then show ?thesis using u'(2) Inr by simp
    qed
    then show ?thesis unfolding d using True Inr
      by (auto simp: UpsertChanged_def upsertMonitor_def held_in_def holds_def Let_def split: option.split)
  qed
qed

lemma delete_holds:
  assumes inv: "\<And>k key. held_in ix k key = holds api rx k (D k key)"
  shows "held_in (MIndex_Delete kind ns name ix) k key = holds api rx k (deliver (MDelete kind ns name) D k key)"
  using inv [of k key]
  by (auto simp: MIndex_Delete_def deleteMonitor_def held_in_def holds_def deliver_def Let_def split: if_splits)

lemma delivered_from:
  "fold deliver ops D kind key = Some u \<Longrightarrow> D kind key = Some u \<or> (MUpsert kind u \<in> set ops \<and> key = monitor_key (u_Namespace u) (u_Name u))"
  by (induction ops arbitrary: D) (fastforce simp: deliver_def split: mi_op.splits if_splits)+

lemma run_holds: "versioned ops \<Longrightarrow> held_in (fold (mi_run api rx) ops New_MIndex) k key = holds api rx k (delivered ops k key)"
proof (induction ops arbitrary: k key rule: rev_induct)
  case Nil
  then show ?case by (simp add: held_in_def holds_def delivered_def New_MIndex_def kind_monitors_def kind_rejected_def split: monitor_kind.split)
next
  case (snoc op ops)
  have "versioned ops" using snoc.prems by (simp add: versioned_def)
  note IH = snoc.IH [OF this]
  show ?case
  proof (cases op)
    case (MUpsert kind u)
    have same: "u' = u" if "delivered ops kind (monitor_key (u_Namespace u) (u_Name u)) = Some u'"
      "u_ResourceVersion u' = u_ResourceVersion u" "u_ResourceVersion u \<noteq> []" for u'
      using snoc.prems delivered_from [OF that(1) [unfolded delivered_def]] that(2,3) MUpsert by (auto simp: versioned_def)
    have "held_in (snd (UpsertChanged api rx kind u (fold (mi_run api rx) ops New_MIndex))) k key =
        holds api rx k (deliver (MUpsert kind u) (delivered ops) k key)"
      by (rule upsert_holds [OF same IH])
    moreover have "mi_run api rx op x = snd (UpsertChanged api rx kind u x)" for x by (simp add: mi_run_def MUpsert)
    ultimately show ?thesis by (simp add: delivered_def MUpsert)
  next
    case (MDelete kind ns name)
    have "held_in (MIndex_Delete kind ns name (fold (mi_run api rx) ops New_MIndex)) k key =
        holds api rx k (deliver (MDelete kind ns name) (delivered ops) k key)"
      by (rule delete_holds [OF IH])
    moreover have "mi_run api rx op x = MIndex_Delete kind ns name x" for x by (simp add: mi_run_def MDelete)
    ultimately show ?thesis by (simp add: delivered_def MDelete)
  qed
qed

text \<open>
  C25. The index of monitors implements the deliveries. Per kind and name it holds the record of the object
  that was delivered last, or nothing when that object does not parse or was deleted; and the table of
  rejections has exactly the objects that do not parse, with their versions. A monitor that is updated to
  something unparseable is gone.
\<close>
theorem MIndex_exact:
  assumes "versioned ops"
  shows "(map_option snd (get (kind_monitors kind (fold (mi_run api rx) ops New_MIndex)) key), get (kind_rejected kind (fold (mi_run api rx) ops New_MIndex)) key) =
    (case delivered ops kind key of
       None \<Rightarrow> (None, None)
     | Some u \<Rightarrow> (case parseMonitorSpec api rx kind u of Inl err \<Rightarrow> (None, Some (u_ResourceVersion u)) | Inr b \<Rightarrow> (Some b, None)))"
  using run_holds [OF assms] by (simp add: held_in_def holds_def)


subsection \<open>The records of the index\<close>

text \<open>Every stored record is one that a parse produced, under the key of its object.\<close>
definition records_ok :: "('raw, 'sel) apimachinery \<Rightarrow> regex_engine \<Rightarrow> 'sel MIndex \<Rightarrow> bool" where
  "records_ok api rx ix \<longleftrightarrow> (\<forall>kind key m. get (kind_monitors kind ix) key = Some m \<longrightarrow>
     (\<exists>u. parseMonitorSpec api rx kind u = Inr (snd m) \<and> key = monitor_key (u_Namespace u) (u_Name u)) \<and> fst m < mi_next ix) \<and>
     (\<forall>kind. wf_map (kind_monitors kind ix)) \<and>
     (\<forall>k k' key key' m m'. get (kind_monitors k ix) key = Some m \<longrightarrow> get (kind_monitors k' ix) key' = Some m' \<longrightarrow>
        fst m = fst m' \<longrightarrow> k = k' \<and> key = key')"

lemma upsert_shape:
  obtains (same) "\<And>k. kind_monitors k (snd (UpsertChanged api rx kind u ix)) = kind_monitors k ix" "mi_gen (snd (UpsertChanged api rx kind u ix)) = mi_gen ix"
      "mi_next ix \<le> mi_next (snd (UpsertChanged api rx kind u ix))"
  | (gone) "\<And>k. kind_monitors k (snd (UpsertChanged api rx kind u ix)) =
        (if k = kind then del (monitor_key (u_Namespace u) (u_Name u)) (kind_monitors k ix) else kind_monitors k ix)"
      "mi_gen (snd (UpsertChanged api rx kind u ix)) = mi_gen ix + 1" "mi_next (snd (UpsertChanged api rx kind u ix)) = mi_next ix"
  | (stored) b where "parseMonitorSpec api rx kind u = Inr b"
      "\<And>k. kind_monitors k (snd (UpsertChanged api rx kind u ix)) =
        (if k = kind then put (monitor_key (u_Namespace u) (u_Name u)) (mi_next ix, b) (kind_monitors k ix) else kind_monitors k ix)"
      "mi_gen (snd (UpsertChanged api rx kind u ix)) = mi_gen ix + 1" "mi_next (snd (UpsertChanged api rx kind u ix)) = Suc (mi_next ix)"
proof (cases "parseMonitorSpec api rx kind u")
  case (Inl err)
  show ?thesis
  proof (cases "get (kind_monitors kind ix) (monitor_key (u_Namespace u) (u_Name u))")
    case None
    show ?thesis by (rule same) (simp_all add: UpsertChanged_def upsertMonitor_def Inl None Let_def)
  next
    case (Some m)
    show ?thesis by (rule gone) (simp_all add: UpsertChanged_def upsertMonitor_def Inl Some Let_def)
  qed
next
  case (Inr b)
  let ?cur = "get (kind_monitors kind ix) (monitor_key (u_Namespace u) (u_Name u))"
  show ?thesis
  proof (cases "\<exists>cur. ?cur = Some cur \<and> mb_resourceVersion b \<noteq> [] \<and> mb_resourceVersion (snd cur) = mb_resourceVersion b")
    case True
    then obtain cur where c: "?cur = Some cur" "mb_resourceVersion b \<noteq> []" "mb_resourceVersion (snd cur) = mb_resourceVersion b" by blast
    show ?thesis by (rule same) (simp_all add: UpsertChanged_def upsertMonitor_def Inr c Let_def)
  next
    case False
    then show ?thesis
      by (intro stored [OF Inr]) (auto simp: UpsertChanged_def upsertMonitor_def Inr Let_def split: option.split)
  qed
qed

lemma delete_shape:
  obtains (same) "\<And>k. kind_monitors k (MIndex_Delete kind ns name ix) = kind_monitors k ix" "mi_gen (MIndex_Delete kind ns name ix) = mi_gen ix"
      "mi_next (MIndex_Delete kind ns name ix) = mi_next ix"
  | (gone) "\<And>k. kind_monitors k (MIndex_Delete kind ns name ix) = (if k = kind then del (monitor_key ns name) (kind_monitors k ix) else kind_monitors k ix)"
      "mi_gen (MIndex_Delete kind ns name ix) = mi_gen ix + 1" "mi_next (MIndex_Delete kind ns name ix) = mi_next ix"
proof (cases "get (kind_monitors kind ix) (monitor_key ns name)")
  case None
  show ?thesis by (rule same) (simp_all add: MIndex_Delete_def deleteMonitor_def None Let_def)
next
  case (Some m)
  show ?thesis by (rule gone) (simp_all add: MIndex_Delete_def deleteMonitor_def Some Let_def)
qed

lemma records_sub:
  assumes ok: "records_ok api rx ix" and sub: "\<And>k key m. get (kind_monitors k ix') key = Some m \<Longrightarrow> get (kind_monitors k ix) key = Some m"
    and "\<And>k. wf_map (kind_monitors k ix')" "mi_next ix \<le> mi_next ix'"
  shows "records_ok api rx ix'"
  unfolding records_ok_def
proof (intro conjI allI impI)
  fix k key m
  assume "get (kind_monitors k ix') key = Some m"
  from sub [OF this] show "\<exists>u. parseMonitorSpec api rx k u = Inr (snd m) \<and> key = monitor_key (u_Namespace u) (u_Name u)"
    using ok unfolding records_ok_def by blast
  show "fst m < mi_next ix'" using ok sub [OF \<open>get (kind_monitors k ix') key = Some m\<close>] assms(4) unfolding records_ok_def by (meson less_le_trans)
next
  fix k k' key key' m m'
  assume "get (kind_monitors k ix') key = Some m" "get (kind_monitors k' ix') key' = Some m'" "fst m = fst m'"
  with sub show "k = k'" "key = key'" using ok unfolding records_ok_def by blast+
qed (use assms(3) in simp)

lemma records_del:
  assumes "records_ok api rx ix" "\<And>k. kind_monitors k ix' = (if k = kind then del key (kind_monitors k ix) else kind_monitors k ix)" "mi_next ix' = mi_next ix"
  shows "records_ok api rx ix'"
proof (rule records_sub [OF assms(1)])
  show "wf_map (kind_monitors k ix')" for k using assms(1,2) by (simp add: records_ok_def wf_del)
qed (use assms(2,3) in \<open>auto simp del: map_of_eq_Some_iff split: if_splits\<close>)

lemma records_run:
  assumes ok: "records_ok api rx ix"
  shows "records_ok api rx (mi_run api rx op ix)"
proof (cases op)
  case (MUpsert kind u)
  have "records_ok api rx (snd (UpsertChanged api rx kind u ix))"
  proof (cases rule: upsert_shape [of api rx kind u ix])
    case same
    have "wf_map (kind_monitors k ix)" for k using ok by (simp add: records_ok_def)
    then show ?thesis by (intro records_sub [OF ok]) (simp_all add: same)
  next
    case gone
    show ?thesis by (rule records_del [OF ok gone(1,3)])
  next
    case (stored b)
    let ?key = "monitor_key (u_Namespace u) (u_Name u)" and ?ix = "snd (UpsertChanged api rx kind u ix)"
    have entry: "k = kind \<and> key = ?key \<and> m = (mi_next ix, b) \<or> get (kind_monitors k ix) key = Some m" if "get (kind_monitors k ?ix) key = Some m" for k key m
      using that by (auto simp: stored(2) simp del: map_of_eq_Some_iff split: if_splits)
    have old: "fst m < mi_next ix" if "get (kind_monitors k ix) key = Some m" for k key m using ok that unfolding records_ok_def by blast
    show ?thesis unfolding records_ok_def
    proof (intro conjI allI impI)
      fix k key m
      assume "get (kind_monitors k ?ix) key = Some m"
      note e = entry [OF this]
      show "\<exists>u. parseMonitorSpec api rx k u = Inr (snd m) \<and> key = monitor_key (u_Namespace u) (u_Name u)"
        using e stored(1) ok unfolding records_ok_def by (metis snd_conv)
      show "fst m < mi_next ?ix" using e old [of k key m] by (auto simp: stored(4))
    next
      fix k
      show "wf_map (kind_monitors k ?ix)" using ok by (simp add: stored(2) records_ok_def)
    next
      fix k k' key key' m m'
      assume m: "get (kind_monitors k ?ix) key = Some m" "get (kind_monitors k' ?ix) key' = Some m'" "fst m = fst m'"
      have "get (kind_monitors k ix) key = Some m \<Longrightarrow> get (kind_monitors k' ix) key' = Some m' \<Longrightarrow> k = k' \<and> key = key'"
        using ok m(3) unfolding records_ok_def by blast
      then have "k = k' \<and> key = key'" using entry [OF m(1)] entry [OF m(2)] old [of k key m] old [of k' key' m'] m(3) by (auto simp del: map_of_eq_Some_iff)
      then show "k = k'" "key = key'" by blast+
    qed
  qed
  then show ?thesis by (simp add: mi_run_def MUpsert)
next
  case (MDelete kind ns name)
  have "records_ok api rx (MIndex_Delete kind ns name ix)"
  proof (cases rule: delete_shape [of kind ns name ix])
    case same
    then show ?thesis using ok by (simp add: records_ok_def)
  next
    case gone
    show ?thesis by (rule records_del [OF ok gone(1,3)])
  qed
  then show ?thesis by (simp add: mi_run_def MDelete)
qed

lemma records_new: "records_ok api rx New_MIndex"
  by (auto simp: records_ok_def New_MIndex_def kind_monitors_def split: monitor_kind.splits)


subsection \<open>The change token\<close>

text \<open>What the token covers: the stored monitors of both kinds.\<close>
definition mi_view :: "'sel MIndex \<Rightarrow> (string, 'sel stored) gomap \<times> (string, 'sel stored) gomap" where
  "mi_view ix = (mi_monitors ix, mi_podMonitors ix)"

lemma mi_view_eq: "mi_view ix' = mi_view ix \<longleftrightarrow> (\<forall>k. kind_monitors k ix' = kind_monitors k ix)"
proof
  assume "\<forall>k. kind_monitors k ix' = kind_monitors k ix"
  from this [rule_format, of ServiceMonitor] this [rule_format, of PodMonitor] show "mi_view ix' = mi_view ix"
    by (simp add: mi_view_def kind_monitors_def)
qed (simp add: mi_view_def kind_monitors_def split: monitor_kind.split)

text \<open>A step: a delivery or a deletion that does not wrap the counter, or a use of the allowlist's memo.\<close>
definition mi_step :: "('raw, 'sel) apimachinery \<Rightarrow> regex_engine \<Rightarrow> 'sel MIndex \<Rightarrow> 'sel MIndex \<Rightarrow> bool" where
  "mi_step api rx ix ix' \<longleftrightarrow> (\<exists>op. ix' = mi_run api rx op ix \<and> unat (mi_gen ix) + 1 < 2 ^ 64) \<or> (\<exists>g. ix' = snd (auth_section g ix))"

lemma auth_section_fields [simp]:
  "mi_view (snd (auth_section g ix)) = mi_view ix" "mi_gen (snd (auth_section g ix)) = mi_gen ix"
  by (simp_all add: auth_section_def buildAuthSecretRefs_def mi_view_def)

lemma mi_run_token:
  "(mi_view (mi_run api rx op ix) = mi_view ix \<and> mi_gen (mi_run api rx op ix) = mi_gen ix) \<or> mi_gen (mi_run api rx op ix) = mi_gen ix + 1"
proof (cases op)
  case (MUpsert kind u)
  show ?thesis by (cases rule: upsert_shape [of api rx kind u ix]) (simp_all add: mi_run_def MUpsert mi_view_eq)
next
  case (MDelete kind ns name)
  show ?thesis by (cases rule: delete_shape [of kind ns name ix]) (simp_all add: mi_run_def MDelete mi_view_eq)
qed

lemma mi_step_token:
  assumes "mi_step api rx ix ix'"
  shows "(mi_view ix' = mi_view ix \<and> mi_gen ix' = mi_gen ix) \<or> mi_gen ix < mi_gen ix'"
  using assms unfolding mi_step_def
proof
  assume "\<exists>op. ix' = mi_run api rx op ix \<and> unat (mi_gen ix) + 1 < 2 ^ 64"
  then obtain op where op: "ix' = mi_run api rx op ix" "unat (mi_gen ix) + 1 < 2 ^ 64" by blast
  then have "mi_gen ix < mi_gen ix + 1" by (simp add: word_less_nat_alt unat_word_ariths)
  then show ?thesis using mi_run_token [of api rx op ix] op(1) by auto
qed auto

interpretation monitor_token: change_token "\<lambda>_. True" "mi_step api rx" mi_view MIndex_Generation MIndex_Generation
proof (unfold_locales, goal_cases)
  case (3 ix ix')
  then show ?case using mi_step_token by (fastforce simp: MIndex_Generation_def)
next
  case (4 ix ix')
  then show ?case using mi_step_token by (fastforce simp: MIndex_Generation_def)
qed simp_all

text \<open>
  A token of the monitor index that has not moved means the indexed monitors have not changed, whatever
  was delivered in between.
\<close>
theorem MIndex_Generation_sound:
  assumes "(mi_step api rx)\<^sup>*\<^sup>* ix ix'" "MIndex_Generation ix' = MIndex_Generation ix"
  shows "MIndex_All ix' = MIndex_All ix \<and> PodMonitors ix' = PodMonitors ix"
  using monitor_token.same_token_same_view [OF assms(1) TrueI assms(2)] by (simp add: mi_view_def MIndex_All_def PodMonitors_def)


subsection \<open>The allowlist under concurrency\<close>

text \<open>
  A history of the index: deliveries, and uses of the memo by callers that sampled the token earlier.
\<close>
definition auth_trace :: "('raw, 'sel) apimachinery \<Rightarrow> regex_engine \<Rightarrow> (nat \<Rightarrow> 'sel MIndex) \<Rightarrow> nat \<Rightarrow> bool" where
  "auth_trace api rx tr n \<longleftrightarrow> tr 0 = New_MIndex \<and> n + 1 < 2 ^ 64 \<and>
     (\<forall>i < n. (\<exists>op. tr (Suc i) = mi_run api rx op (tr i)) \<or> (\<exists>j \<le> i. tr (Suc i) = snd (auth_section (MIndex_Generation (tr j)) (tr i))))"

lemma trace_gen: "auth_trace api rx tr n \<Longrightarrow> i \<le> n \<Longrightarrow> unat (mi_gen (tr i)) \<le> i"
proof (induction i)
  case 0
  then show ?case by (simp add: auth_trace_def New_MIndex_def)
next
  case (Suc i)
  then have le: "unat (mi_gen (tr i)) \<le> i" by simp
  then have "unat (mi_gen (tr i) + 1) \<le> Suc i" using Suc.prems by (simp add: auth_trace_def unat_word_ariths)
  moreover have "mi_gen (tr (Suc i)) \<in> {mi_gen (tr i), mi_gen (tr i) + 1}"
  proof -
    have "i < n" using Suc.prems(2) by simp
    then consider op where "tr (Suc i) = mi_run api rx op (tr i)" | j where "tr (Suc i) = snd (auth_section (MIndex_Generation (tr j)) (tr i))"
      using Suc.prems(1) unfolding auth_trace_def by blast
    then show ?thesis by cases (use mi_run_token [of api rx _ "tr i"] in auto)
  qed
  ultimately show ?case using le by auto
qed

lemma trace_steps:
  assumes "auth_trace api rx tr n" "i \<le> j" "j \<le> n"
  shows "(mi_step api rx)\<^sup>*\<^sup>* (tr i) (tr j)"
  using assms(2,3)
proof (induction j rule: dec_induct)
  case (step m)
  have "unat (mi_gen (tr m)) + 1 < 2 ^ 64" using trace_gen [OF assms(1), of m] step assms(1) by (simp add: auth_trace_def)
  then have "mi_step api rx (tr m) (tr (Suc m))" using assms(1) step unfolding auth_trace_def mi_step_def by (meson Suc_le_lessD)
  with step show ?case by (auto intro: rtranclp.rtrancl_into_rtrancl)
qed simp

lemma collect_refs_view: "mi_view ix' = mi_view ix \<Longrightarrow> collect_refs ix' = collect_refs ix"
  by (simp add: mi_view_def collect_refs_def)

lemma auth_fields_run: "mi_authValid (mi_run api rx op ix) = mi_authValid ix \<and> mi_authGen (mi_run api rx op ix) = mi_authGen ix \<and>
    mi_authRefs (mi_run api rx op ix) = mi_authRefs ix"
  by (auto simp: mi_run_def UpsertChanged_def upsertMonitor_def MIndex_Delete_def deleteMonitor_def set_kind_def bump_def Let_def
      split: mi_op.split sum.split option.split monitor_kind.split)

text \<open>The memo was built at a moment after its stamp was sampled.\<close>
lemma trace_memo:
  assumes tr: "auth_trace api rx tr n" and "i \<le> n" "mi_authValid (tr i)"
  shows "\<exists>j k. j \<le> k \<and> k \<le> i \<and> mi_authGen (tr i) = MIndex_Generation (tr j) \<and> mi_authRefs (tr i) = collect_refs (tr k)"
  using assms(2,3)
proof (induction i)
  case 0
  then show ?case using tr by (simp add: auth_trace_def New_MIndex_def)
next
  case (Suc i)
  then consider (op) op where "tr (Suc i) = mi_run api rx op (tr i)" | (auth) j where "j \<le> i" "tr (Suc i) = snd (auth_section (MIndex_Generation (tr j)) (tr i))"
    using tr unfolding auth_trace_def by (meson Suc_le_lessD)
  then show ?case
  proof cases
    case op
    then have "mi_authValid (tr i)" using Suc.prems auth_fields_run by metis
    then show ?thesis using Suc.IH Suc.prems op auth_fields_run by (metis Suc_leD le_Suc_eq)
  next
    case auth
    show ?thesis
    proof (cases "\<not> mi_authValid (tr i) \<or> mi_authGen (tr i) \<noteq> MIndex_Generation (tr j)")
      case True
      then show ?thesis using auth
        by (intro exI [of _ j] exI [of _ i]) (auto simp: auth_section_def buildAuthSecretRefs_def)
    next
      case False
      then have "tr (Suc i) = tr i" using auth by (simp add: auth_section_def)
      then show ?thesis using Suc False by (metis Suc_leD le_Suc_eq)
    qed
  qed
qed

lemma auth_fresh:
  assumes tr: "auth_trace api rx tr n" and "j \<le> i" "i \<le> n"
  shows "\<exists>k. j \<le> k \<and> k \<le> i \<and> fst (auth_section (MIndex_Generation (tr j)) (tr i)) = collect_refs (tr k)"
proof (cases "\<not> mi_authValid (tr i) \<or> mi_authGen (tr i) \<noteq> MIndex_Generation (tr j)")
  case True
  then show ?thesis using assms(2) by (intro exI [of _ i]) (simp add: auth_section_def buildAuthSecretRefs_def)
next
  case False
  from trace_memo [OF tr assms(3)] False obtain j0 k0 where m: "j0 \<le> k0" "k0 \<le> i" "MIndex_Generation (tr j0) = MIndex_Generation (tr j)"
    "fst (auth_section (MIndex_Generation (tr j)) (tr i)) = collect_refs (tr k0)" by (auto simp: auth_section_def)
  show ?thesis
  proof (cases "j \<le> k0")
    case True
    then show ?thesis using m by blast
  next
    case False
    then have "mi_view (tr j) = mi_view (tr k0)"
      using monitor_token.memo_sound [OF trace_steps [OF tr m(1)] trace_steps [OF tr, of k0 j] TrueI m(3) [symmetric]] assms m by simp
    then show ?thesis using m assms(2) collect_refs_view by (intro exI [of _ j]) auto
  qed
qed

lemma kinds_ex: "(\<exists>kind. P kind) \<longleftrightarrow> P ServiceMonitor \<or> P PodMonitor"
  by (metis monitor_kind.exhaust)

text \<open>The references the indexed monitors name.\<close>
definition named_refs :: "'sel MIndex \<Rightarrow> string set" where
  "named_refs ix = {ref. ref \<noteq> [] \<and> (\<exists>kind key m e. (key, m) \<in> set (kind_monitors kind ix) \<and> e \<in> set (mb_Endpoints (snd m)) \<and> ref \<in> set (secretRefs e))}"

lemma collect_refs_named: "collect_refs ix = named_refs ix"
proof -
  have "(\<exists>kind key m e. (key, m) \<in> set (kind_monitors kind ix) \<and> e \<in> set (mb_Endpoints (snd m)) \<and> ref \<in> set (secretRefs e)) \<longleftrightarrow>
      (\<exists>p \<in> set (mi_monitors ix) \<union> set (mi_podMonitors ix). \<exists>e \<in> set (mb_Endpoints (snd (snd p))). ref \<in> set (secretRefs e))" for ref
    unfolding kinds_ex by (simp add: kind_monitors_def Bex_def) blast
  then show ?thesis unfolding named_refs_def by (simp add: collect_refs_def refs_of_def Bex_def set_eq_iff) blast
qed

text \<open>
  C19. The allowlist of secrets is never stale. In any history of the index, a request that samples the
  change token at one moment and reads the memo at a later one is answered with the references of the
  monitors that were indexed at a moment in between: a secret that no monitor names any more is not
  in the answer to a request that starts afterwards.
\<close>
theorem AuthSecretRefs_fresh:
  assumes "auth_trace api rx tr n" "j \<le> i" "i \<le> n"
  shows "\<exists>k. j \<le> k \<and> k \<le> i \<and> fst (auth_section (MIndex_Generation (tr j)) (tr i)) = named_refs (tr k)"
  using auth_fresh [OF assms] by (simp add: collect_refs_named)

text \<open>
  A re-delivery is not news. An object with a resource version that is delivered twice in a row is
  reported at most once, whether it parses or not, and the second delivery leaves the indexed
  monitors, the rejections and the change token as they are.
\<close>
theorem UpsertChanged_redelivery:
  assumes "u_ResourceVersion u \<noteq> []" "UpsertChanged api rx kind u ix = (first, ix1)" "UpsertChanged api rx kind u ix1 = ((eps, news, err), ix2)"
  shows "\<not> news \<and> (\<forall>k key. get (kind_monitors k ix2) key = get (kind_monitors k ix1) key \<and> get (kind_rejected k ix2) key = get (kind_rejected k ix1) key) \<and>
    MIndex_Generation ix2 = MIndex_Generation ix1"
proof (cases "parseMonitorSpec api rx kind u")
  case (Inl e)
  have "get (kind_monitors kind ix1) (monitor_key (u_Namespace u) (u_Name u)) = None"
    "get (kind_rejected kind ix1) (monitor_key (u_Namespace u) (u_Name u)) = Some (u_ResourceVersion u)"
    using assms(2) by (cases "get (kind_monitors kind ix) (monitor_key (u_Namespace u) (u_Name u))",
      auto simp: UpsertChanged_def upsertMonitor_def Inl Let_def split: if_splits)+
  then show ?thesis using assms(1,3) by (auto simp: UpsertChanged_def upsertMonitor_def Inl Let_def MIndex_Generation_def)
next
  case (Inr b)
  note v = parse_version [OF Inr]
  have "\<exists>cur. get (kind_monitors kind ix1) (monitor_key (u_Namespace u) (u_Name u)) = Some cur \<and> mb_resourceVersion (snd cur) = mb_resourceVersion b"
    "get (kind_rejected kind ix1) (monitor_key (u_Namespace u) (u_Name u)) = None"
    using assms(2) by (auto simp: UpsertChanged_def upsertMonitor_def Inr Let_def split: option.splits if_splits)
  then show ?thesis using assms(1,3) v by (auto simp: UpsertChanged_def upsertMonitor_def Inr Let_def MIndex_Generation_def)
qed

subsection \<open>A monitor that comes and goes\<close>

definition broken_monitor :: "endpointSpec unstructured" where
  "broken_monitor = token_monitor\<lparr>u_ResourceVersion := ''8'', u_spec := None\<rparr>"

definition token_ops :: "endpointSpec mi_op list" where
  "token_ops = [MUpsert ServiceMonitor token_monitor, MUpsert ServiceMonitor broken_monitor]"

theorem MIndex_exact_witness:
  "versioned token_ops \<and> get (kind_monitors ServiceMonitor (fold (mi_run typed_api literal_engine) token_ops New_MIndex)) ''shop/web'' = None \<and>
   get (kind_rejected ServiceMonitor (fold (mi_run typed_api literal_engine) token_ops New_MIndex)) ''shop/web'' = Some ''8''"
proof -
  have v: "versioned token_ops" by (auto simp: versioned_def token_ops_def token_monitor_def broken_monitor_def)
  have "delivered token_ops ServiceMonitor ''shop/web'' = Some broken_monitor"
    by (simp add: delivered_def token_ops_def deliver_def token_monitor_def broken_monitor_def monitor_key_def)
  moreover have "parseMonitorSpec typed_api literal_engine ServiceMonitor broken_monitor = Inl NoSpec"
    by (simp add: parseMonitorSpec_def broken_monitor_def)
  ultimately show ?thesis
    using MIndex_exact [OF v, of ServiceMonitor typed_api literal_engine "''shop/web''"] v by (simp add: broken_monitor_def)
qed

theorem UpsertChanged_redelivery_witness:
  "\<not> fst (snd (fst (UpsertChanged typed_api literal_engine ServiceMonitor broken_monitor
     (snd (UpsertChanged typed_api literal_engine ServiceMonitor broken_monitor New_MIndex)))))"
proof -
  have "u_ResourceVersion broken_monitor \<noteq> []" by (simp add: broken_monitor_def)
  from UpsertChanged_redelivery [OF this, of typed_api literal_engine ServiceMonitor New_MIndex] show ?thesis by (metis prod.collapse)
qed

theorem MIndex_Generation_sound_witness:
  "(mi_step typed_api literal_engine)\<^sup>*\<^sup>* (New_MIndex :: strmap MIndex) (MIndex_Delete ServiceMonitor ''shop'' ''web'' New_MIndex) \<and>
   MIndex_All (MIndex_Delete ServiceMonitor ''shop'' ''web'' (New_MIndex :: strmap MIndex)) = MIndex_All New_MIndex"
proof -
  let ?ix = "MIndex_Delete ServiceMonitor ''shop'' ''web'' (New_MIndex :: strmap MIndex)"
  have "mi_step typed_api literal_engine New_MIndex ?ix"
    unfolding mi_step_def by (intro disjI1 exI [of _ "MDelete ServiceMonitor ''shop'' ''web''"]) (simp add: mi_run_def New_MIndex_def)
  then have s: "(mi_step typed_api literal_engine)\<^sup>*\<^sup>* New_MIndex ?ix" by blast
  have "MIndex_Generation ?ix = MIndex_Generation (New_MIndex :: strmap MIndex)"
    by (simp add: MIndex_Generation_def MIndex_Delete_def deleteMonitor_def New_MIndex_def kind_monitors_def kind_rejected_def set_kind_def)
  from MIndex_Generation_sound [OF s this] s show ?thesis by blast
qed

definition token_trace :: "nat \<Rightarrow> strmap MIndex" where
  "token_trace i = (if i = 0 then New_MIndex else mi_run typed_api literal_engine (MUpsert ServiceMonitor token_monitor) New_MIndex)"

theorem AuthSecretRefs_fresh_witness:
  "auth_trace typed_api literal_engine token_trace 1 \<and>
   (\<exists>k. 1 \<le> k \<and> k \<le> 1 \<and> fst (auth_section (MIndex_Generation (token_trace 1)) (token_trace 1)) = named_refs (token_trace k))"
proof -
  have t: "auth_trace typed_api literal_engine token_trace 1"
    unfolding auth_trace_def by (auto simp: token_trace_def intro!: exI [of _ "MUpsert ServiceMonitor token_monitor"])
  show ?thesis using AuthSecretRefs_fresh [OF t, of 1 1] t by simp
qed

end
