(* ===== verification/MonitoredServices.thy ===== *)
theory MonitoredServices
  imports TargetDedup MonitorIndex
begin

section \<open>What the monitors select (internal/server/nodetargets.go)\<close>

text \<open>
  The two snapshots the derivation of targets reads: the monitor endpoints of each Service, and the list of
  PodMonitors, each kept under the change tokens that were read before it was built. A label selector is an
  argument (\<^verbatim>\<open>labels.Selector.Matches\<close>). The functions here are the calls that no delivery interleaves with: they build
  a snapshot from one state of the indexes. \<^verbatim>\<open>MonitoredBuild\<close> takes the build of the Service snapshot
  apart into its separately locked reads, with deliveries between them.
\<close>

subsection \<open>State\<close>

record 'sel podMonitorRef =
  pr_monitor :: "'sel stored"
  pr_name :: string
  pr_namespaces :: "string list option"

text \<open>The fields of \<^verbatim>\<open>Server\<close> that the two memos consist of, with the two indexes. \<^verbatim>\<open>None\<close> is a nil monitor index.\<close>
record 'sel monitor_memos =
  mm_services :: Index
  mm_monitors :: "'sel MIndex option"
  monCache :: "(uid, monitorEndpoint_ref list) gomap"
  monGen :: u64
  svcGen :: u64
  monValid :: bool
  monBuilds :: nat
  pmCache :: "'sel podMonitorRef list"
  pmGen :: u64
  pmValid :: bool
  pmBuilds :: nat

text \<open>The monitor index; the memos are not used without one.\<close>
definition held_index :: "'sel monitor_memos \<Rightarrow> 'sel MIndex" where
  "held_index s = (case mm_monitors s of Some mons \<Rightarrow> mons | None \<Rightarrow> New_MIndex)"

subsection \<open>The endpoints of each Service\<close>

definition appendNamespaceSetKey :: "string list option \<Rightarrow> string" where
  "appendNamespaceSetKey namespaces =
     (case namespaces of None \<Rightarrow> [CHR 0x01] | Some nss \<Rightarrow> CHR 0x02 # concat (map (\<lambda>ns. ns @ [CHR 0x00]) nss))"

text \<open>\<^verbatim>\<open>&m.Endpoints[i]\<close> with the rendered name of the monitor.\<close>
definition monitor_refs :: "'sel stored \<Rightarrow> monitorEndpoint_ref list" where
  "monitor_refs m =
     map (\<lambda>i. \<lparr>me_monitor = mb_Namespace (snd m) @ ''/'' @ mb_Name (snd m), me_ptr = (fst m, i), me_endpoint = mb_Endpoints (snd m) ! i\<rparr>)
       [0..<length (mb_Endpoints (snd m))]"

definition list_at :: "('k, 'v list) gomap \<Rightarrow> 'k \<Rightarrow> 'v list" where
  "list_at m k = (case get m k of Some l \<Rightarrow> l | None \<Rightarrow> [])"

definition append_at :: "'k \<Rightarrow> 'v \<Rightarrow> ('k, 'v list) gomap \<Rightarrow> ('k, 'v list) gomap" where
  "append_at k v m = put k (list_at m k @ [v]) m"

text \<open>The snapshot of Services of the current run of monitors, with the key it was taken for.\<close>
record run_snapshot =
  runKey :: string
  runSvcs :: "Service list"
  runValid :: bool

definition run_section :: "string list option \<Rightarrow> run_snapshot \<times> Index \<Rightarrow> run_snapshot \<times> Index" where
  "run_section namespaces st =
     (case st of (run, ix) \<Rightarrow>
        (let key = appendNamespaceSetKey namespaces in
         if \<not> runValid run \<or> key \<noteq> runKey run
         then (case Index_All namespaces ix of (svcs, ix) \<Rightarrow> (\<lparr>runKey = key, runSvcs = svcs, runValid = True\<rparr>, ix))
         else (run, ix)))"

definition select_service :: "('sel \<Rightarrow> strmap \<Rightarrow> bool) \<Rightarrow> 'sel stored \<Rightarrow> Service \<Rightarrow>
    (uid, monitorEndpoint_ref list) gomap \<Rightarrow> (uid, monitorEndpoint_ref list) gomap" where
  "select_service matches m svc cache =
     (if \<not> matches (mb_Selector (snd m)) (svc_Labels svc) then cache else fold (append_at (svc_UID svc)) (monitor_refs m) cache)"

definition build_monitor :: "('sel \<Rightarrow> strmap \<Rightarrow> bool) \<Rightarrow> 'sel stored \<Rightarrow>
    (uid, monitorEndpoint_ref list) gomap \<times> run_snapshot \<times> Index \<Rightarrow> (uid, monitorEndpoint_ref list) gomap \<times> run_snapshot \<times> Index" where
  "build_monitor matches m st =
     (case st of (cache, run, ix) \<Rightarrow>
        (case run_section (monitor_namespaces (snd m)) (run, ix) of
           (run, ix) \<Rightarrow> (fold (select_service matches m) (runSvcs run) cache, run, ix)))"

definition buildMonitoredServices :: "('sel \<Rightarrow> strmap \<Rightarrow> bool) \<Rightarrow> 'sel MIndex \<Rightarrow> Index \<Rightarrow> (uid, monitorEndpoint_ref list) gomap \<times> Index" where
  "buildMonitoredServices matches mons ix =
     (case fold (build_monitor matches) (MIndex_All mons) ([], \<lparr>runKey = [], runSvcs = [], runValid = False\<rparr>, ix) of
        (cache, run, ix) \<Rightarrow> (cache, ix))"

text \<open>The body under \<^verbatim>\<open>monMu\<close>, for a caller that sampled the two tokens before.\<close>
definition monitoredServicesAt :: "('sel \<Rightarrow> strmap \<Rightarrow> bool) \<Rightarrow> u64 \<Rightarrow> u64 \<Rightarrow> 'sel monitor_memos \<Rightarrow>
    (uid, monitorEndpoint_ref list) gomap \<times> 'sel monitor_memos" where
  "monitoredServicesAt matches mg sg s =
     (let s = (if \<not> monValid s \<or> monGen s < mg \<or> svcGen s < sg
               then (case buildMonitoredServices matches (held_index s) (mm_services s) of
                       (cache, ix) \<Rightarrow>
                         s\<lparr>mm_services := ix, monBuilds := monBuilds s + 1, monCache := cache, monGen := max (monGen s) mg,
                           svcGen := max (svcGen s) sg, monValid := True\<rparr>)
               else s)
      in (monCache s, s))"

definition monitoredServices :: "('sel \<Rightarrow> strmap \<Rightarrow> bool) \<Rightarrow> 'sel monitor_memos \<Rightarrow> (uid, monitorEndpoint_ref list) gomap \<times> 'sel monitor_memos" where
  "monitoredServices matches s =
     (case mm_monitors s of
        None \<Rightarrow> ([], s)
      | Some mons \<Rightarrow> monitoredServicesAt matches (MIndex_Generation mons) (Generation (mm_services s)) s)"

subsection \<open>The PodMonitors\<close>

definition pod_monitor_ref :: "'sel stored \<Rightarrow> 'sel podMonitorRef" where
  "pod_monitor_ref m =
     \<lparr>pr_monitor = m, pr_name = mb_Namespace (snd m) @ ''/'' @ mb_Name (snd m), pr_namespaces = monitor_namespaces (snd m)\<rparr>"

definition allPodMonitorsAt :: "u64 \<Rightarrow> 'sel monitor_memos \<Rightarrow> 'sel podMonitorRef list \<times> 'sel monitor_memos" where
  "allPodMonitorsAt g s =
     (if pmValid s \<and> pmGen s \<ge> g then (pmCache s, s)
      else (let refs = map pod_monitor_ref (PodMonitors (held_index s)) in
            (refs, s\<lparr>pmBuilds := pmBuilds s + 1, pmCache := refs, pmGen := max (pmGen s) g, pmValid := True\<rparr>)))"

definition allPodMonitors :: "'sel monitor_memos \<Rightarrow> 'sel podMonitorRef list \<times> 'sel monitor_memos" where
  "allPodMonitors s =
     (case mm_monitors s of None \<Rightarrow> ([], s) | Some mons \<Rightarrow> allPodMonitorsAt (MIndex_Generation mons) s)"

definition podMonitorsFor :: "('sel \<Rightarrow> strmap \<Rightarrow> bool) \<Rightarrow> Pod \<Rightarrow> 'sel podMonitorRef list \<Rightarrow> 'sel podMonitorRef list" where
  "podMonitorsFor matches pod refs =
     filter (\<lambda>ref. (case pr_namespaces ref of None \<Rightarrow> True | Some nss \<Rightarrow> pod_Namespace pod \<in> set nss) \<and>
                   matches (mb_Selector (snd (pr_monitor ref))) (pod_Labels pod)) refs"

subsection \<open>The Services of a pod\<close>

definition serviceOptsIn :: "Service \<Rightarrow> (uid, monitorEndpoint_ref list) gomap \<Rightarrow> bool" where
  "serviceOptsIn svc monitored \<longleftrightarrow> OptedIn (svc_Annotations svc) \<or> list_at monitored (svc_UID svc) \<noteq> []"

definition optInServices :: "(string, Service list) gomap \<Rightarrow> (uid, monitorEndpoint_ref list) gomap \<Rightarrow> (string, Service list) gomap" where
  "optInServices byNS monitored =
     filter (\<lambda>(ns, kept). kept \<noteq> []) (map (\<lambda>(ns, l). (ns, filter (\<lambda>svc. serviceOptsIn svc monitored) l)) byNS)"

definition matchingServices :: "Service list \<Rightarrow> strmap \<Rightarrow> Service list" where
  "matchingServices inNamespace podLabels = filter (\<lambda>svc. Selects svc podLabels) inNamespace"

subsection \<open>The run of one snapshot\<close>

text \<open>The endpoints that select a Service, each monitor reading the Services of its namespaces for itself.\<close>
definition selected_refs :: "('sel \<Rightarrow> strmap \<Rightarrow> bool) \<Rightarrow> 'sel stored list \<Rightarrow> Index \<Rightarrow> uid \<Rightarrow> monitorEndpoint_ref list" where
  "selected_refs matches mons ix uid =
     concat (map (\<lambda>m. concat (map (\<lambda>svc. if matches (mb_Selector (snd m)) (svc_Labels svc) \<and> svc_UID svc = uid then monitor_refs m else [])
                                (fst (Index_All (monitor_namespaces (snd m)) ix)))) mons)"

definition plain_namespaces :: "string list option \<Rightarrow> bool" where
  "plain_namespaces namespaces \<longleftrightarrow> (case namespaces of None \<Rightarrow> True | Some nss \<Rightarrow> \<forall>ns \<in> set nss. CHR 0x00 \<notin> set ns)"

lemma list_at_append_at [simp]: "list_at (append_at k v m) k' = (if k' = k then list_at m k @ [v] else list_at m k')"
  by (simp add: list_at_def append_at_def)

lemma list_at_appends: "list_at (fold (append_at k) vs m) k' = (if k' = k then list_at m k @ vs else list_at m k')"
  by (induction vs arbitrary: m) auto

lemma list_at_select:
  "list_at (fold (select_service matches m) svcs cache) uid =
     list_at cache uid @ concat (map (\<lambda>svc. if matches (mb_Selector (snd m)) (svc_Labels svc) \<and> svc_UID svc = uid then monitor_refs m else []) svcs)"
  by (induction svcs arbitrary: cache) (auto simp: select_service_def list_at_appends)

lemma end_mark:
  assumes "x \<notin> set a" "x \<notin> set b" "a @ x # r = b @ x # r'"
  shows "a = b \<and> r = r'"
proof -
  have "takeWhile (\<lambda>c. c \<noteq> x) (a @ x # r) = a" "takeWhile (\<lambda>c. c \<noteq> x) (b @ x # r') = b"
    using assms(1,2) by (metis (mono_tags, lifting) append_Nil2 takeWhile.simps(2) takeWhile_append2)+
  then show ?thesis using assms(3) by auto
qed

lemma joined_inj:
  assumes "\<forall>n \<in> set ns. x \<notin> set n" "\<forall>n \<in> set ms. x \<notin> set n" "concat (map (\<lambda>n. n @ [x]) ns) = concat (map (\<lambda>n. n @ [x]) ms)"
  shows "ns = ms"
  using assms
proof (induction ns arbitrary: ms)
  case Nil
  then show ?case by (cases ms) auto
next
  case (Cons n ns)
  then obtain m ms' where ms: "ms = m # ms'" by (cases ms) auto
  have e: "n @ x # concat (map (\<lambda>n. n @ [x]) ns) = m @ x # concat (map (\<lambda>n. n @ [x]) ms')" using Cons.prems(3) unfolding ms by simp
  have "x \<notin> set n" "x \<notin> set m" using Cons.prems(1,2) unfolding ms by simp_all
  from end_mark [OF this e] have nm: "n = m" "concat (map (\<lambda>n. n @ [x]) ns) = concat (map (\<lambda>n. n @ [x]) ms')" by simp_all
  have "ns = ms'" by (rule Cons.IH [OF _ _ nm(2)]) (use Cons.prems(1,2) ms in simp_all)
  then show ?case using nm(1) ms by simp
qed

lemma key_inj:
  assumes "plain_namespaces a" "plain_namespaces b" "appendNamespaceSetKey a = appendNamespaceSetKey b"
  shows "a = b"
proof (cases a; cases b)
  fix ns ms
  assume s: "a = Some ns" "b = Some ms"
  then have "ns = ms" using assms by (intro joined_inj [of ns "CHR 0x00"]) (simp_all add: plain_namespaces_def appendNamespaceSetKey_def)
  then show ?thesis using s by simp
qed (use assms(3) in \<open>auto simp: appendNamespaceSetKey_def\<close>)

lemma All_fst: "byNamespace ix = byNamespace ix' \<Longrightarrow> fst (Index_All namespaces ix) = fst (Index_All namespaces ix')"
proof -
  assume e: "byNamespace ix = byNamespace ix'"
  then have "services_in ix = services_in ix'" by (simp add: services_in_def fun_eq_iff)
  with e show ?thesis unfolding Index_All_def by (simp only: fst_conv)
qed

lemma All_snd [simp]: "byNamespace (snd (Index_All namespaces ix)) = byNamespace ix" "gen (snd (Index_All namespaces ix)) = gen ix"
  by (simp_all add: Index_All_def)

text \<open>The snapshot at hand is that of the namespaces its key was made of.\<close>
definition run_ok :: "Index \<Rightarrow> run_snapshot \<Rightarrow> bool" where
  "run_ok ix run \<longleftrightarrow> (runValid run \<longrightarrow>
     (\<exists>namespaces. plain_namespaces namespaces \<and> runKey run = appendNamespaceSetKey namespaces \<and> runSvcs run = fst (Index_All namespaces ix)))"

lemma run_section_frame: "run_section namespaces (run, ix) = (run', ix') \<Longrightarrow> byNamespace ix' = byNamespace ix \<and> gen ix' = gen ix"
  using All_snd [of namespaces ix] by (cases "Index_All namespaces ix") (auto simp: run_section_def Let_def split: if_splits)

lemma run_section_exact:
  assumes "run_ok ix run" "plain_namespaces namespaces" "run_section namespaces (run, ix) = (run', ix')"
  shows "run_ok ix' run' \<and> runSvcs run' = fst (Index_All namespaces ix)"
proof -
  note f = All_fst [OF conjunct1 [OF run_section_frame [OF assms(3)]]]
  show ?thesis
  proof (cases "\<not> runValid run \<or> appendNamespaceSetKey namespaces \<noteq> runKey run")
    case True
    then show ?thesis using assms(2,3) f by (cases "Index_All namespaces ix") (auto simp: run_section_def run_ok_def)
  next
    case False
    then obtain nss where nss: "plain_namespaces nss" "runKey run = appendNamespaceSetKey nss" "runSvcs run = fst (Index_All nss ix)"
      using assms(1) by (auto simp: run_ok_def)
    then have "nss = namespaces" using key_inj [OF nss(1) assms(2)] False by simp
    then show ?thesis using assms False nss by (simp add: run_section_def)
  qed
qed

lemma build_monitors:
  assumes "\<forall>m \<in> set mons. plain_namespaces (monitor_namespaces (snd m))" "run_ok ix run"
    "fold (build_monitor matches) mons (cache, run, ix) = (cache', run', ix')"
  shows "list_at cache' uid = list_at cache uid @ selected_refs matches mons ix uid"
  using assms
proof (induction mons arbitrary: cache run ix)
  case Nil
  then show ?case by (simp add: selected_refs_def)
next
  case (Cons m mons)
  obtain run1 ix1 where r: "run_section (monitor_namespaces (snd m)) (run, ix) = (run1, ix1)" by fastforce
  have ok: "run_ok ix1 run1" "runSvcs run1 = fst (Index_All (monitor_namespaces (snd m)) ix)"
    using run_section_exact [OF Cons.prems(2) _ r] Cons.prems(1) by simp_all
  have same: "selected_refs matches mons ix1 uid = selected_refs matches mons ix uid"
    using All_fst [of ix1 ix] run_section_frame [OF r] by (simp add: selected_refs_def)
  let ?cache = "fold (select_service matches m) (runSvcs run1) cache"
  have "fold (build_monitor matches) mons (?cache, run1, ix1) = (cache', run', ix')"
    using Cons.prems(3) by (simp add: build_monitor_def [of _ m] r)
  from Cons.IH [OF _ ok(1) this] Cons.prems(1) same ok(2) show ?case
    by (simp add: list_at_select) (simp add: selected_refs_def)
qed

text \<open>
  Reading the Services once per run of monitors is the same as reading them for each monitor: as long
  as no namespace a monitor names contains a NUL byte, every Service is given the endpoints of exactly the
  monitors that select it, in the order of the monitors.
\<close>
theorem buildMonitoredServices_plain:
  assumes "\<forall>m \<in> set (MIndex_All mons). plain_namespaces (monitor_namespaces (snd m))"
  shows "list_at (fst (buildMonitoredServices matches mons ix)) uid = selected_refs matches (MIndex_All mons) ix uid"
proof -
  let ?run = "\<lparr>runKey = [], runSvcs = [], runValid = False\<rparr>"
  obtain cache run' ix' where f: "fold (build_monitor matches) (MIndex_All mons) ([], ?run, ix) = (cache, run', ix')"
    by (metis prod_cases3)
  have "run_ok ix ?run" by (simp add: run_ok_def)
  from build_monitors [OF assms this f] show ?thesis by (simp add: buildMonitoredServices_def f list_at_def)
qed

subsection \<open>The memos under concurrency\<close>

text \<open>
  A step of the server: a delivery to one of the indexes that does not wrap its counter, or the use of one of
  the two memos by a caller whose samples were read at some earlier time, so that they are at most the tokens now.
  A use is one step here; \<^verbatim>\<open>MonitoredBuild\<close> splits it.
\<close>
definition mm_step :: "('raw, 'sel) apimachinery \<Rightarrow> regex_engine \<Rightarrow> ('sel \<Rightarrow> strmap \<Rightarrow> bool) \<Rightarrow> 'sel monitor_memos \<Rightarrow> 'sel monitor_memos \<Rightarrow> bool" where
  "mm_step api rx matches s s' \<longleftrightarrow> mm_monitors s \<noteq> None \<and>
     ((\<exists>mons. mi_step api rx (held_index s) mons \<and> s' = s\<lparr>mm_monitors := Some mons\<rparr>) \<or>
      (\<exists>ix. ix_step (mm_services s) ix \<and> s' = s\<lparr>mm_services := ix\<rparr>) \<or>
      (\<exists>mg sg. mg \<le> MIndex_Generation (held_index s) \<and> sg \<le> Generation (mm_services s) \<and> s' = snd (monitoredServicesAt matches mg sg s)) \<or>
      (\<exists>g. g \<le> MIndex_Generation (held_index s) \<and> s' = snd (allPodMonitorsAt g s)))"

definition mm_tokens :: "'sel monitor_memos \<Rightarrow> u64 \<times> u64" where
  "mm_tokens s = (MIndex_Generation (held_index s), Generation (mm_services s))"

definition both_le :: "u64 \<times> u64 \<Rightarrow> u64 \<times> u64 \<Rightarrow> bool" where
  "both_le a b \<longleftrightarrow> fst a \<le> fst b \<and> snd a \<le> snd b"

definition mm_build :: "('sel \<Rightarrow> strmap \<Rightarrow> bool) \<Rightarrow> 'sel monitor_memos \<Rightarrow> (uid, monitorEndpoint_ref list) gomap" where
  "mm_build matches s = fst (buildMonitoredServices matches (held_index s) (mm_services s))"

definition mm_memo :: "'sel monitor_memos \<Rightarrow> ((u64 \<times> u64) \<times> (uid, monitorEndpoint_ref list) gomap) option" where
  "mm_memo s = (if monValid s then Some ((monGen s, svcGen s), monCache s) else None)"

lemma build_monitor_frame:
  "fold (build_monitor matches) mons (cache, run, ix) = (cache', run', ix') \<Longrightarrow> byNamespace ix' = byNamespace ix \<and> gen ix' = gen ix"
proof (induction mons arbitrary: cache run ix)
  case (Cons m mons)
  obtain run1 ix1 where r: "run_section (monitor_namespaces (snd m)) (run, ix) = (run1, ix1)" by fastforce
  have "fold (build_monitor matches) mons (fold (select_service matches m) (runSvcs run1) cache, run1, ix1) = (cache', run', ix')"
    using Cons.prems by (simp add: build_monitor_def [of _ m] r)
  from Cons.IH [OF this] run_section_frame [OF r] show ?case by simp
qed simp

lemma build_frame:
  assumes "buildMonitoredServices matches mons ix = (cache, ix')"
  shows "byNamespace ix' = byNamespace ix \<and> gen ix' = gen ix"
proof -
  obtain c run i where f: "fold (build_monitor matches) (MIndex_All mons) ([], \<lparr>runKey = [], runSvcs = [], runValid = False\<rparr>, ix) = (c, run, i)"
    by (metis prod_cases3)
  then show ?thesis using assms build_monitor_frame [OF f] by (simp add: buildMonitoredServices_def)
qed

lemma run_section_cong:
  assumes "byNamespace ix = byNamespace jx"
  shows "fst (run_section namespaces (run, ix)) = fst (run_section namespaces (run, jx)) \<and>
    byNamespace (snd (run_section namespaces (run, ix))) = byNamespace (snd (run_section namespaces (run, jx)))"
  using assms All_fst [OF assms, of namespaces] by (simp add: run_section_def Let_def split: prod.split) (metis All_snd(1) fst_conv snd_conv)

lemma build_monitors_cong:
  "byNamespace ix = byNamespace jx \<Longrightarrow>
   fst (fold (build_monitor matches) mons (cache, run, ix)) = fst (fold (build_monitor matches) mons (cache, run, jx))"
proof (induction mons arbitrary: cache run ix jx)
  case (Cons m mons)
  obtain run1 ix1 jx1 where r: "run_section (monitor_namespaces (snd m)) (run, ix) = (run1, ix1)"
    "run_section (monitor_namespaces (snd m)) (run, jx) = (run1, jx1)" "byNamespace ix1 = byNamespace jx1"
    using run_section_cong [OF Cons.prems, of "monitor_namespaces (snd m)" run] by (metis prod.collapse)
  show ?case using Cons.IH [OF r(3), of "fold (select_service matches m) (runSvcs run1) cache" run1]
    by (simp add: build_monitor_def [of _ m] r)
qed simp

lemma build_cong:
  assumes "mi_view (held_index s') = mi_view (held_index s)" "byNamespace (mm_services s') = byNamespace (mm_services s)"
  shows "mm_build matches s' = mm_build matches s"
proof -
  have "MIndex_All (held_index s') = MIndex_All (held_index s)" using assms(1) by (simp add: MIndex_All_def mi_view_def)
  then show ?thesis using build_monitors_cong [OF assms(2)] unfolding mm_build_def buildMonitoredServices_def
    by (simp add: case_prod_beta)
qed

lemma memo_use:
  "mm_monitors (snd (monitoredServicesAt matches mg sg s)) = mm_monitors s"
  "byNamespace (mm_services (snd (monitoredServicesAt matches mg sg s))) = byNamespace (mm_services s)"
  "gen (mm_services (snd (monitoredServicesAt matches mg sg s))) = gen (mm_services s)"
  "mm_monitors (snd (allPodMonitorsAt g s)) = mm_monitors s" "mm_services (snd (allPodMonitorsAt g s)) = mm_services s"
proof -
  obtain cache ix where b: "buildMonitoredServices matches (held_index s) (mm_services s) = (cache, ix)" by fastforce
  note build_frame [OF b]
  then show "mm_monitors (snd (monitoredServicesAt matches mg sg s)) = mm_monitors s"
    "byNamespace (mm_services (snd (monitoredServicesAt matches mg sg s))) = byNamespace (mm_services s)"
    "gen (mm_services (snd (monitoredServicesAt matches mg sg s))) = gen (mm_services s)"
    by (simp_all add: monitoredServicesAt_def b Let_def)
  show "mm_monitors (snd (allPodMonitorsAt g s)) = mm_monitors s" "mm_services (snd (allPodMonitorsAt g s)) = mm_services s"
    by (simp_all add: allPodMonitorsAt_def Let_def)
qed

lemma memo_stamps:
  "monGen (snd (monitoredServicesAt matches mg sg s)) \<in> {monGen s, max (monGen s) mg}"
  "svcGen (snd (monitoredServicesAt matches mg sg s)) \<in> {svcGen s, max (svcGen s) sg}"
  "pmGen (snd (monitoredServicesAt matches mg sg s)) = pmGen s" "pmCache (snd (monitoredServicesAt matches mg sg s)) = pmCache s"
  "pmValid (snd (monitoredServicesAt matches mg sg s)) = pmValid s"
  "monGen (snd (allPodMonitorsAt g s)) = monGen s" "svcGen (snd (allPodMonitorsAt g s)) = svcGen s"
  "pmGen (snd (allPodMonitorsAt g s)) \<in> {pmGen s, max (pmGen s) g}"
  by (cases "buildMonitoredServices matches (held_index s) (mm_services s)";
      simp add: monitoredServicesAt_def allPodMonitorsAt_def Let_def)+

lemma ix_step_token:
  assumes "ix_step ix ix'"
  shows "(byNamespace ix' = byNamespace ix \<and> gen ix' = gen ix) \<or> gen ix < gen ix'"
  using index_token.token_mono [OF TrueI assms] index_token.change_mints [OF TrueI assms] by (force simp: Generation_def)

lemma mm_step_tokens:
  assumes "mm_step api rx matches s s'"
  shows "both_le (mm_tokens s) (mm_tokens s') \<and>
    (both_le (mm_tokens s') (mm_tokens s) \<longrightarrow> mi_view (held_index s') = mi_view (held_index s) \<and> byNamespace (mm_services s') = byNamespace (mm_services s))"
  using assms unfolding mm_step_def
proof (elim conjE disjE exE)
  fix mons
  assume "mi_step api rx (held_index s) mons" "s' = s\<lparr>mm_monitors := Some mons\<rparr>"
  then show ?thesis using mi_step_token by (fastforce simp: both_le_def mm_tokens_def held_index_def MIndex_Generation_def)
next
  fix ix
  assume "ix_step (mm_services s) ix" "s' = s\<lparr>mm_services := ix\<rparr>"
  then show ?thesis using ix_step_token by (fastforce simp: both_le_def mm_tokens_def held_index_def Generation_def)
qed (simp_all add: memo_use both_le_def mm_tokens_def held_index_def Generation_def)

text \<open>No stamp is ahead of the tokens.\<close>
definition mm_ok :: "'sel monitor_memos \<Rightarrow> bool" where
  "mm_ok s \<longleftrightarrow> both_le (monGen s, svcGen s) (mm_tokens s) \<and> pmGen s \<le> fst (mm_tokens s)"

lemma mm_step_ok:
  assumes ok: "mm_ok s" and st: "mm_step api rx matches s s'"
  shows "mm_ok s'"
proof -
  note m = conjunct1 [OF mm_step_tokens [OF st]]
  have "monGen s' \<le> fst (mm_tokens s) \<and> svcGen s' \<le> snd (mm_tokens s) \<and> pmGen s' \<le> fst (mm_tokens s)"
    using st ok unfolding mm_step_def
  proof (elim conjE disjE exE)
    fix mg sg
    assume "mg \<le> MIndex_Generation (held_index s)" "sg \<le> Generation (mm_services s)" "s' = snd (monitoredServicesAt matches mg sg s)"
    then show ?thesis using ok memo_stamps(1,2,3) [of matches mg sg s] by (auto simp: mm_ok_def both_le_def mm_tokens_def)
  next
    fix g
    assume "g \<le> MIndex_Generation (held_index s)" "s' = snd (allPodMonitorsAt g s)"
    then show ?thesis using ok memo_stamps(6,7,8) [of g s] by (auto simp: mm_ok_def both_le_def mm_tokens_def)
  qed (simp_all add: mm_ok_def both_le_def)
  then show ?thesis using m unfolding mm_ok_def both_le_def by (auto intro: order_trans)
qed

lemma mm_step_memo:
  assumes ok: "mm_ok s" and st: "mm_step api rx matches s s'"
  shows "mm_memo s' = mm_memo s \<or> (\<exists>t. mm_memo s' = Some (t, mm_build matches s') \<and> both_le t (mm_tokens s'))"
  using st mm_step_ok [OF ok st] unfolding mm_step_def
proof (elim conjE disjE exE)
  fix mg sg
  assume ok': "mm_ok s'" and u: "s' = snd (monitoredServicesAt matches mg sg s)"
  show ?thesis
  proof (cases "\<not> monValid s \<or> monGen s < mg \<or> svcGen s < sg")
    case True
    have "mm_build matches s' = mm_build matches s" by (rule build_cong) (simp_all add: u memo_use held_index_def)
    moreover have "monCache s' = mm_build matches s" "monValid s'"
      using True by (simp_all add: u monitoredServicesAt_def mm_build_def Let_def split: prod.split)
    ultimately have "mm_memo s' = Some ((monGen s', svcGen s'), mm_build matches s')" by (simp add: mm_memo_def)
    then show ?thesis using ok' by (auto simp: mm_ok_def)
  qed (simp add: u monitoredServicesAt_def)
qed (simp_all add: mm_memo_def allPodMonitorsAt_def Let_def)

interpretation monitored_memo: ordered_memo mm_ok "mm_step api rx matches" mm_tokens both_le mm_memo "mm_build matches"
proof (unfold_locales, goal_cases)
  case (1 a b c)
  then show ?case by (auto simp: both_le_def)
next
  case (4 s s')
  then show ?case using mm_step_tokens build_cong by blast
next
  case (5 s s')
  then show ?case by (rule mm_step_memo)
qed (simp_all add: mm_step_ok mm_step_tokens)

text \<open>The list of PodMonitors, under the token of the monitor index alone.\<close>
definition pm_build :: "'sel monitor_memos \<Rightarrow> 'sel podMonitorRef list" where
  "pm_build s = map pod_monitor_ref (PodMonitors (held_index s))"

definition pm_memo :: "'sel monitor_memos \<Rightarrow> (u64 \<times> 'sel podMonitorRef list) option" where
  "pm_memo s = (if pmValid s then Some (pmGen s, pmCache s) else None)"

lemma mm_step_index:
  assumes "mm_step api rx matches s s'"
  shows "(mi_view (held_index s') = mi_view (held_index s) \<and> mi_gen (held_index s') = mi_gen (held_index s)) \<or> mi_gen (held_index s) < mi_gen (held_index s')"
  using assms unfolding mm_step_def
proof (elim conjE disjE exE)
  fix mons
  assume "mi_step api rx (held_index s) mons" "s' = s\<lparr>mm_monitors := Some mons\<rparr>"
  then show ?thesis using mi_step_token [of api rx "held_index s" mons] by (simp add: held_index_def)
qed (simp_all add: memo_use held_index_def)

lemma pm_step_memo:
  assumes ok: "mm_ok s" and st: "mm_step api rx matches s s'"
  shows "pm_memo s' = pm_memo s \<or> (\<exists>t. pm_memo s' = Some (t, pm_build s') \<and> t \<le> MIndex_Generation (held_index s'))"
  using st mm_step_ok [OF ok st] unfolding mm_step_def
proof (elim conjE disjE exE)
  fix g
  assume ok': "mm_ok s'" and u: "s' = snd (allPodMonitorsAt g s)"
  show ?thesis
  proof (cases "pmValid s \<and> pmGen s \<ge> g")
    case False
    have "pm_build s' = pm_build s" by (simp add: pm_build_def held_index_def u memo_use)
    then have "pm_memo s' = Some (pmGen s', pm_build s')" using False by (auto simp: u allPodMonitorsAt_def pm_build_def pm_memo_def Let_def)
    then show ?thesis using ok' by (auto simp: mm_ok_def mm_tokens_def)
  qed (simp add: u allPodMonitorsAt_def)
qed (simp_all add: pm_memo_def memo_stamps)

interpretation pod_monitor_memo:
  ordered_memo mm_ok "mm_step api rx matches" "\<lambda>s. MIndex_Generation (held_index s)" "(\<le>)" pm_memo pm_build
proof (unfold_locales, goal_cases)
  case (4 s s')
  then show ?case using mm_step_index [of api rx matches s s']
    by (auto simp: MIndex_Generation_def pm_build_def PodMonitors_def mi_view_def)
next
  case (5 s s')
  then show ?case by (rule pm_step_memo)
next
  case (3 s s')
  then show ?case using mm_step_index [of api rx matches s s'] by (auto simp: MIndex_Generation_def)
qed (auto intro: mm_step_ok)

text \<open>The state of a new server, with an empty monitor index.\<close>
definition new_memos :: "'sel monitor_memos" where
  "new_memos = \<lparr>mm_services = NewIndex, mm_monitors = Some New_MIndex, monCache = [], monGen = 0, svcGen = 0, monValid = False, monBuilds = 0,
     pmCache = [], pmGen = 0, pmValid = False, pmBuilds = 0\<rparr>"

subsection \<open>Two monitors\<close>

text \<open>A monitor of every Service in the namespaces it names.\<close>
definition names_monitor :: "string \<Rightarrow> string list \<Rightarrow> unit monitorBase" where
  "names_monitor ns names = \<lparr>mb_Namespace = ns, mb_Name = ''all'', mb_Selector = (), mb_Endpoints = [second_endpoint],
     mb_nsSel = \<lparr>ns_Any = False, ns_MatchNames = names\<rparr>, mb_resourceVersion = ''1''\<rparr>"

definition two_monitors :: "string list \<Rightarrow> unit MIndex" where
  "two_monitors names = New_MIndex\<lparr>mi_monitors := [(''a/all'', 0, names_monitor ''a'' names), (''b/all'', 1, names_monitor ''b'' [''shop'', ''web''])]\<rparr>"

definition shop_index :: Index where
  "shop_index = Index_Upsert (web_service ''u'' ''1'') NewIndex"

lemma two_monitors_All: "MIndex_All (two_monitors names) = [(0, names_monitor ''a'' names), (1, names_monitor ''b'' [''shop'', ''web''])]"
  unfolding MIndex_All_def two_monitors_def sortedMonitors_def names_monitor_def by (simp add: less_le)

lemma shop_Services:
  "fst (Index_All (Some [''shop'', ''web'']) shop_index) = [convert_service (web_service ''u'' ''1'')]"
  "fst (Index_All (Some [''shop'' @ [CHR 0x00] @ ''web'']) shop_index) = []"
  by code_simp+

theorem buildMonitoredServices_plain_witness:
  "map me_monitor (list_at (fst (buildMonitoredServices (\<lambda>_ _. True) (two_monitors [''shop'']) shop_index)) ''u'') = [''a/all'', ''b/all'']"
proof -
  have "\<forall>m \<in> set (MIndex_All (two_monitors [''shop''])). plain_namespaces (monitor_namespaces (snd m))"
    by (simp add: two_monitors_All names_monitor_def monitor_namespaces_def resolve_def plain_namespaces_def)
  from buildMonitoredServices_plain [OF this] show ?thesis
    unfolding two_monitors_All selected_refs_def by (simp only:) code_simp
qed

text \<open>
  The key of a set of namespaces ends each of them with a NUL byte, and the parser bounds only the length of a
  name. A monitor that names one namespace with a NUL byte in it therefore shares the snapshot of a
  monitor that names the two parts, and the second one loses its Services.
\<close>
theorem runs_share_a_key:
  "checkSelectorBounds \<lparr>ls_MatchLabels = [], ls_MatchExpressions = []\<rparr> (mb_nsSel (names_monitor ''a'' [''shop'' @ [CHR 0x00] @ ''web''])) = None \<and>
   list_at (fst (buildMonitoredServices (\<lambda>_ _. True) (two_monitors [''shop'' @ [CHR 0x00] @ ''web'']) shop_index)) ''u'' = [] \<and>
   map me_monitor (selected_refs (\<lambda>_ _. True) (MIndex_All (two_monitors [''shop'' @ [CHR 0x00] @ ''web''])) shop_index ''u'') = [''b/all'']"
proof (intro conjI)
  show "checkSelectorBounds \<lparr>ls_MatchLabels = [], ls_MatchExpressions = []\<rparr> (mb_nsSel (names_monitor ''a'' [''shop'' @ [CHR 0x00] @ ''web''])) = None"
    by code_simp
  show "list_at (fst (buildMonitoredServices (\<lambda>_ _. True) (two_monitors [''shop'' @ [CHR 0x00] @ ''web'']) shop_index)) ''u'' = []"
    unfolding buildMonitoredServices_def two_monitors_All by code_simp
  show "map me_monitor (selected_refs (\<lambda>_ _. True) (MIndex_All (two_monitors [''shop'' @ [CHR 0x00] @ ''web''])) shop_index ''u'') = [''b/all'']"
    unfolding two_monitors_All by code_simp
qed

end
