(* ===== verification/TargetOrder.thy ===== *)
theory TargetOrder
  imports ScrapeTargets
begin

section \<open>The served list: order and identities (nodetargets.go, instance.go)\<close>

text \<open>
  How the list of a node's targets is put into its final order without moving targets through a sort, and
  the scan for targets that export one identity. The cycle-following permutation writes into the slices it
  reads; a panic on an index out of range is \<^verbatim>\<open>None\<close>.
\<close>

subsection \<open>Order\<close>

definition target_key :: "ScrapeTarget \<Rightarrow> string list" where
  "target_key t = [t_URL t, t_Monitor t, t_Source t, pod_UID (t_Pod t)]"

lemma marks_less:
  "j < length idx \<Longrightarrow> 0 \<le> idx ! j \<Longrightarrow> length (filter (\<lambda>k. 0 \<le> k) (idx[j := -1])) < length (filter (\<lambda>k. 0 \<le> k) idx)" for idx :: "int list"
  by (induction idx arbitrary: j) (auto split: nat.split)

text \<open>The inner loop of \<^verbatim>\<open>permuteTargets\<close>: one cycle, from slot \<open>i\<close> on, with the element lifted out of it.\<close>
function cycle :: "nat \<Rightarrow> 'a \<Rightarrow> nat \<Rightarrow> 'a list \<Rightarrow> int list \<Rightarrow> ('a list \<times> int list) option" where
  "cycle i tmp j s idx =
     (if j \<ge> length idx \<or> j \<ge> length s then None
      else (let k = idx ! j in
            if k = int i then Some (s[j := tmp], idx[j := -1])
            else if k < 0 \<or> k \<ge> int (length s) then None
            else cycle i tmp (nat k) (s[j := s ! nat k]) (idx[j := -1])))"
  by pat_completeness auto
termination
  by (relation "measure (\<lambda>(i, tmp, j, s, idx). length (filter (\<lambda>k. 0 \<le> k) idx))") (auto intro!: marks_less simp: not_less)

declare cycle.simps [simp del]

definition permute_slot :: "nat \<Rightarrow> ('a list \<times> int list) option \<Rightarrow> ('a list \<times> int list) option" where
  "permute_slot i st =
     (case st of
        None \<Rightarrow> None
      | Some (s, idx) \<Rightarrow> if idx ! i < 0 then Some (s, idx) else if i \<ge> length s then None else cycle i (s ! i) i s idx)"

definition permuteTargets :: "'a list \<Rightarrow> int list \<Rightarrow> ('a list \<times> int list) option" where
  "permuteTargets s idx = fold permute_slot [0..<length idx] (Some (s, idx))"

text \<open>
  \<^verbatim>\<open>slices.SortFunc\<close> is some sorting of the indices by the keys of their targets. The one taken here is
  stable; the targets of a node have distinct keys, so that there is no other.
\<close>
definition sortTargets :: "ScrapeTarget list \<Rightarrow> ScrapeTarget list option" where
  "sortTargets targets =
     map_option fst (permuteTargets targets (map int (sort_key (\<lambda>i. target_key (targets ! i)) [0..<length targets])))"

subsection \<open>Identities\<close>

definition workload_kinds :: "string list" where
  "workload_kinds = [''Deployment'', ''StatefulSet'', ''DaemonSet'', ''Job'', ''CronJob'']"

definition ServiceName :: "Pod \<Rightarrow> string" where
  "ServiceName pod = fold (\<lambda>o' name. if own_Kind o' \<in> set workload_kinds then own_Name o' else name) (pod_Owners pod) (pod_Name pod)"

record CollidingTarget =
  ct_URL :: string
  ct_Source :: string
  ct_Monitor :: string
  ct_Pod :: string

record InstanceCollision =
  ic_Job :: string
  ic_Address :: string
  ic_Targets :: "CollidingTarget list"

record instanceKey =
  ik_namespace :: string
  ik_service :: string
  ik_address :: string

record instanceSlot =
  slot_first :: nat
  slot_group :: int

definition identityOf :: "ScrapeTarget \<Rightarrow> instanceKey" where
  "identityOf t = \<lparr>ik_namespace = pod_Namespace (t_Pod t), ik_service = ServiceName (t_Pod t), ik_address = t_Address t\<rparr>"

definition describeColliding :: "ScrapeTarget \<Rightarrow> CollidingTarget" where
  "describeColliding t = \<lparr>ct_URL = t_URL t, ct_Source = t_Source t, ct_Monitor = t_Monitor t,
     ct_Pod = pod_Namespace (t_Pod t) @ ''/'' @ pod_Name (t_Pod t)\<rparr>"

text \<open>One target of the scan: the map of slots and the collisions so far.\<close>
definition scan_target :: "ScrapeTarget list \<Rightarrow> nat \<Rightarrow> (instanceKey, instanceSlot) gomap \<times> InstanceCollision list \<Rightarrow>
    (instanceKey, instanceSlot) gomap \<times> InstanceCollision list" where
  "scan_target targets i st =
     (case st of (slots, groups) \<Rightarrow>
        (let k = identityOf (targets ! i) in
         case get slots k of
           None \<Rightarrow> (put k \<lparr>slot_first = i, slot_group = -1\<rparr> slots, groups)
         | Some slot \<Rightarrow>
             (let (slot, slots, groups) =
                    (if slot_group slot < 0
                     then (let slot = slot\<lparr>slot_group := int (length groups)\<rparr> in
                           (slot, put k slot slots,
                            groups @ [\<lparr>ic_Job = ik_namespace k @ ''/'' @ ik_service k, ic_Address = ik_address k,
                                       ic_Targets = [describeColliding (targets ! slot_first slot)]\<rparr>]))
                     else (slot, slots, groups));
                  g = nat (slot_group slot)
              in (slots, groups[g := (groups ! g)\<lparr>ic_Targets := ic_Targets (groups ! g) @ [describeColliding (targets ! i)]\<rparr>]))))"

definition Collisions :: "ScrapeTarget list \<Rightarrow> InstanceCollision list" where
  "Collisions targets =
     (if length targets < 2 then [] else snd (fold (scan_target targets) [0..<length targets] ([], [])))"

subsection \<open>The permutation is applied\<close>

text \<open>After the slots in \<open>V\<close>: those are marked and hold their new element, the others are as they were.\<close>
definition perm_state :: "nat list \<Rightarrow> 'a list \<Rightarrow> nat set \<Rightarrow> 'a list \<Rightarrow> int list \<Rightarrow> bool" where
  "perm_state p s0 V s idx \<longleftrightarrow> length s = length p \<and> length idx = length p \<and>
     (\<forall>v < length p. if v \<in> V then idx ! v = -1 \<and> s ! v = s0 ! (p ! v) else idx ! v = int (p ! v) \<and> s ! v = s0 ! v)"

definition closed_under :: "nat list \<Rightarrow> nat set \<Rightarrow> bool" where
  "closed_under p V \<longleftrightarrow> V \<subseteq> {..<length p} \<and> (\<forall>v < length p. v \<in> V \<longleftrightarrow> p ! v \<in> V)"

definition permutation :: "nat list \<Rightarrow> bool" where
  "permutation p \<longleftrightarrow> distinct p \<and> set p = {..<length p}"

lemma permutation_nth: "permutation p \<Longrightarrow> v < length p \<Longrightarrow> p ! v < length p"
  unfolding permutation_def by (metis lessThan_iff nth_mem)

lemma permutation_inj: "permutation p \<Longrightarrow> v < length p \<Longrightarrow> w < length p \<Longrightarrow> p ! v = p ! w \<longleftrightarrow> v = w"
  by (simp add: permutation_def nth_eq_iff_index_eq)

text \<open>The slots \<open>C\<close> of the running cycle: from \<open>i\<close> up to the slot before \<open>j\<close>.\<close>
definition running :: "nat list \<Rightarrow> nat \<Rightarrow> nat \<Rightarrow> nat set \<Rightarrow> bool" where
  "running p i j C \<longleftrightarrow> C \<subseteq> {..<length p} \<and> j < length p \<and> j \<notin> C \<and> (C = {} \<longrightarrow> j = i) \<and> (C \<noteq> {} \<longrightarrow> i \<in> C) \<and>
     (\<forall>v \<in> C. p ! v \<in> insert j C) \<and> (\<forall>v \<in> insert j C. v = i \<or> (\<exists>w \<in> C. p ! w = v))"

lemma mark_slot:
  assumes "perm_state p s0 V s idx" "j < length p" "x = s0 ! (p ! j)"
  shows "perm_state p s0 (insert j V) (s[j := x]) (idx[j := -1])"
  using assms by (auto simp: perm_state_def nth_list_update)

lemma cycle_ok:
  assumes p: "permutation p" and V: "closed_under p V"
  shows "perm_state p s0 (V \<union> C) s idx \<Longrightarrow> running p i j C \<Longrightarrow> C \<inter> V = {} \<Longrightarrow> i \<notin> V \<Longrightarrow> j \<notin> V \<Longrightarrow>
    \<exists>W s' idx'. cycle i (s0 ! i) j s idx = Some (s', idx') \<and> perm_state p s0 W s' idx' \<and> closed_under p W \<and> V \<union> {i} \<subseteq> W"
proof (induction "length p - card C" arbitrary: C j s idx rule: less_induct)
  case less
  have j: "j < length p" "j \<notin> C" using less.prems(2) by (auto simp: running_def)
  have st: "length s = length p" "length idx = length p" "idx ! j = int (p ! j)" "s ! j = s0 ! j"
    using less.prems(1,5) j by (auto simp: perm_state_def)
  have k: "p ! j < length p" by (rule permutation_nth [OF p j(1)])
  have finC: "finite C" "C \<subseteq> {..<length p}" using less.prems(2) by (auto simp: running_def intro: finite_subset)
  show ?case
  proof (cases "p ! j = i")
    case True
    let ?W = "insert j (V \<union> C)"
    have i: "i \<in> ?W" using less.prems(2) by (auto simp: running_def)
    have "closed_under p ?W" unfolding closed_under_def
    proof (intro conjI allI impI)
      show "?W \<subseteq> {..<length p}" using V finC j by (auto simp: closed_under_def)
      fix v
      assume v: "v < length p"
      show "v \<in> ?W \<longleftrightarrow> p ! v \<in> ?W"
      proof
        assume "v \<in> ?W"
        then show "p ! v \<in> ?W" using V v True i less.prems(2) by (auto simp: closed_under_def running_def)
      next
        assume w: "p ! v \<in> ?W"
        consider "p ! v \<in> V" | "p ! v = i" | "p ! v \<in> insert j C" "p ! v \<noteq> i" using w by blast
        then show "v \<in> ?W"
        proof cases
          case 1
          then show ?thesis using V v by (auto simp: closed_under_def)
        next
          case 2
          then show ?thesis using permutation_inj [OF p v j(1)] True by simp
        next
          case 3
          then have "\<exists>w \<in> C. p ! w = p ! v" using less.prems(2) by (auto simp: running_def)
          then obtain w where w: "w \<in> C" "p ! w = p ! v" by blast
          then have "w < length p" using finC(2) by blast
          then have "w = v" using permutation_inj [OF p v] w(2) by metis
          then show ?thesis using w(1) by simp
        qed
      qed
    qed
    moreover have "perm_state p s0 ?W (s[j := s0 ! i]) (idx[j := -1])"
      using mark_slot [OF less.prems(1) j(1), of "s0 ! i"] True by simp
    ultimately show ?thesis using i st j True by (subst cycle.simps) (auto intro!: exI [of _ ?W])
  next
    case False
    let ?C = "insert j C" and ?k = "p ! j"
    have kV: "?k \<notin> V" using V j less.prems(5) by (auto simp: closed_under_def)
    have kC: "?k \<notin> ?C"
    proof
      assume "?k \<in> ?C"
      then have "\<exists>w \<in> C. p ! w = ?k" using False less.prems(2) by (auto simp: running_def)
      then obtain w where "w \<in> C" "p ! w = ?k" by blast
      then have "w = j" using permutation_inj [OF p _ j(1)] finC(2) by blast
      then show False using \<open>w \<in> C\<close> j by simp
    qed
    have run: "running p i ?k ?C" unfolding running_def
      using less.prems(2) j k kC finC(2) by (auto simp: running_def)
    have sk: "s ! ?k = s0 ! ?k" using less.prems(1) k kV kC by (auto simp: perm_state_def)
    have ps: "perm_state p s0 (V \<union> ?C) (s[j := s ! ?k]) (idx[j := -1])"
      using mark_slot [OF less.prems(1) j(1), of "s ! ?k"] sk by simp
    have dec: "length p - card ?C < length p - card C"
    proof -
      have "card ?C \<le> length p" using finC j by (metis card_lessThan card_mono finite_lessThan insert_subset lessThan_iff)
      then show ?thesis using finC(1) j(2) by simp
    qed
    have "cycle i (s0 ! i) j s idx = cycle i (s0 ! i) ?k (s[j := s ! ?k]) (idx[j := -1])"
      using st j k False by (subst cycle.simps) (simp add: Let_def)
    with less.hyps [OF dec ps run] less.prems j kV show ?thesis by auto
  qed
qed

lemma permute_slots:
  assumes p: "permutation p" and "length s0 = length p" "m \<le> length p"
  shows "\<exists>V s idx. fold permute_slot [0..<m] (Some (s0, map int p)) = Some (s, idx) \<and> perm_state p s0 V s idx \<and> closed_under p V \<and> {..<m} \<subseteq> V"
  using assms(3)
proof (induction m)
  case 0
  then show ?case using assms(2) by (intro exI [of _ "{}"]) (simp add: perm_state_def closed_under_def)
next
  case (Suc m)
  then obtain V s idx where V: "fold permute_slot [0..<m] (Some (s0, map int p)) = Some (s, idx)" "perm_state p s0 V s idx" "closed_under p V" "{..<m} \<subseteq> V"
    by auto
  have m: "m < length p" using Suc.prems by simp
  show ?case
  proof (cases "m \<in> V")
    case True
    then have "idx ! m < 0" using V(2) m by (auto simp: perm_state_def)
    then have "fold permute_slot [0..<Suc m] (Some (s0, map int p)) = Some (s, idx)" using V(1) by simp (simp add: permute_slot_def)
    moreover have "{..<Suc m} \<subseteq> V" using V(4) True by (auto simp: less_Suc_eq)
    ultimately show ?thesis using V(2,3) by blast
  next
    case False
    then have st: "\<not> idx ! m < 0" "s ! m = s0 ! m" "m < length s" using V(2) m by (auto simp: perm_state_def)
    have "perm_state p s0 (V \<union> {}) s idx" "running p m m {}" using V(2) m by (simp_all add: running_def)
    from cycle_ok [OF p V(3) this _ False False] obtain W s' idx' where
      "cycle m (s0 ! m) m s idx = Some (s', idx')" "perm_state p s0 W s' idx'" "closed_under p W" "V \<union> {m} \<subseteq> W" by auto
    moreover have "fold permute_slot [0..<Suc m] (Some (s0, map int p)) = cycle m (s0 ! m) m s idx" using V(1) st by simp (simp add: permute_slot_def)
    moreover have "{..<Suc m} \<subseteq> W" using V(4) \<open>V \<union> {m} \<subseteq> W\<close> by (auto simp: less_Suc_eq)
    ultimately show ?thesis by metis
  qed
qed

lemma permuteTargets_applies:
  assumes "permutation p" "length s = length p"
  shows "map_option fst (permuteTargets s (map int p)) = Some (map ((!) s) p)"
proof -
  obtain V s' idx where V: "permuteTargets s (map int p) = Some (s', idx)" "perm_state p s V s' idx" "{..<length p} \<subseteq> V"
    using permute_slots [OF assms order.refl] by (auto simp: permuteTargets_def)
  have "s' = map ((!) s) p" using V(2,3) by (intro nth_equalityI) (auto simp: perm_state_def)
  then show ?thesis using V(1) by simp
qed

lemma sort_key_map: "sort_key f (map g xs) = map g (sort_key (\<lambda>x. f (g x)) xs)"
proof -
  have "insort_key f (g x) (map g ys) = map g (insort_key (\<lambda>x. f (g x)) x ys)" for x ys by (induction ys) auto
  then show ?thesis by (induction xs) simp_all
qed

lemma sortTargets_sorts: "sortTargets ts = Some (sort_key target_key ts)"
proof -
  let ?p = "sort_key (\<lambda>i. target_key (ts ! i)) [0..<length ts]"
  have "permutation ?p" by (simp add: permutation_def lessThan_atLeast0)
  from permuteTargets_applies [OF this, of ts] show ?thesis
    using sort_key_map [of target_key "(!) ts" "[0..<length ts]"] by (simp add: sortTargets_def map_nth)
qed

text \<open>
  C28. The in-place reordering of the target list is a sort: it never indexes out of range, the result is a
  permutation of the targets in the order of their keys, and when no two targets share a key it is the only
  such list, whatever order the list was built in.
\<close>
theorem sortTargets_correct:
  "\<exists>out. sortTargets ts = Some out \<and> mset out = mset ts \<and> sorted (map target_key out) \<and>
     (distinct (map target_key ts) \<longrightarrow> (\<forall>us. mset us = mset ts \<longrightarrow> sortTargets us = Some out))"
proof -
  have uniq: "sort_key target_key us = sort_key target_key ts" if "mset us = mset ts" "distinct (map target_key ts)" for us
  proof (rule sort_key_inj_key_eq)
    show "mset us = mset (sort_key target_key ts)" using that by simp
    have "set us = set ts" using that(1) by (rule mset_eq_setD)
    then show "inj_on target_key (set us)" using that(2) by (simp add: distinct_map)
    show "sorted (map target_key (sort_key target_key ts))" by simp
  qed
  show ?thesis unfolding sortTargets_sorts
  proof (intro exI [of _ "sort_key target_key ts"] conjI impI allI)
    fix us
    assume "distinct (map target_key ts)" "mset us = mset ts"
    then show "Some (sort_key target_key us) = Some (sort_key target_key ts)" using uniq by (intro arg_cong [of _ _ Some])
  qed simp_all
qed

text \<open>Two targets in the wrong order.\<close>
theorem sortTargets_correct_witness:
  "\<exists>out. sortTargets [makeTarget metrics_pod ''http'' ''/b'' 80, makeTarget metrics_pod ''http'' ''/a'' 80] = Some out \<and>
     sortTargets [makeTarget metrics_pod ''http'' ''/a'' 80, makeTarget metrics_pod ''http'' ''/b'' 80] = Some out"
proof -
  let ?a = "makeTarget metrics_pod ''http'' ''/a'' 80" and ?b = "makeTarget metrics_pod ''http'' ''/b'' 80"
  have "t_URL ?a \<noteq> t_URL ?b" unfolding makeTarget_URL by (simp add: targetURL_def appendTargetURL_def Let_def)
  then have "distinct (map target_key [?b, ?a])" "mset [?a, ?b] = mset [?b, ?a]" by (simp_all add: target_key_def add_mset_commute)
  then show ?thesis using sortTargets_correct [of "[?b, ?a]"] by metis
qed

subsection \<open>The collisions are found\<close>

text \<open>The members of an identity, and its report.\<close>
definition members :: "ScrapeTarget list \<Rightarrow> instanceKey \<Rightarrow> ScrapeTarget list" where
  "members ts k = filter (\<lambda>t. identityOf t = k) ts"

definition collision :: "ScrapeTarget list \<Rightarrow> instanceKey \<Rightarrow> InstanceCollision" where
  "collision ts k = \<lparr>ic_Job = ik_namespace k @ ''/'' @ ik_service k, ic_Address = ik_address k, ic_Targets = map describeColliding (members ts k)\<rparr>"

lemma members_snoc: "members (ts @ [t]) k = (if identityOf t = k then members ts k @ [t] else members ts k)"
  by (simp add: members_def)

text \<open>After a prefix of the list: what the slot of an identity says of its members, and a report per identity with two members.\<close>
definition slot_ok :: "ScrapeTarget list \<Rightarrow> ScrapeTarget list \<Rightarrow> instanceKey list \<Rightarrow> instanceSlot option \<Rightarrow> instanceKey \<Rightarrow> bool" where
  "slot_ok targets pre ks slot k \<longleftrightarrow>
     (case slot of
        None \<Rightarrow> members pre k = [] \<and> k \<notin> set ks
      | Some slot \<Rightarrow>
          if slot_group slot < 0 then k \<notin> set ks \<and> members pre k = [targets ! slot_first slot]
          else nat (slot_group slot) < length ks \<and> ks ! nat (slot_group slot) = k \<and> 2 \<le> length (members pre k))"

definition scan_ok :: "ScrapeTarget list \<Rightarrow> ScrapeTarget list \<Rightarrow> instanceKey list \<Rightarrow> (instanceKey, instanceSlot) gomap \<times> InstanceCollision list \<Rightarrow> bool" where
  "scan_ok targets pre ks st \<longleftrightarrow> snd st = map (collision pre) ks \<and> distinct ks \<and> (\<forall>k. slot_ok targets pre ks (get (fst st) k) k)"

lemma collision_other: "identityOf t \<noteq> k \<Longrightarrow> collision (pre @ [t]) k = collision pre k"
  by (simp add: collision_def members_snoc)

lemma collision_same: "identityOf t = k \<Longrightarrow> collision (pre @ [t]) k = (collision pre k)\<lparr>ic_Targets := ic_Targets (collision pre k) @ [describeColliding t]\<rparr>"
  by (simp add: collision_def members_snoc)

lemma map_collision_update:
  assumes "distinct ks" "g < length ks" "ks ! g = identityOf t"
  shows "(map (collision pre) ks)[g := (collision pre (ks ! g))\<lparr>ic_Targets := ic_Targets (collision pre (ks ! g)) @ [describeColliding t]\<rparr>] =
    map (collision (pre @ [t])) ks"
proof (rule nth_equalityI)
  fix i
  assume "i < length ((map (collision pre) ks)[g := (collision pre (ks ! g))\<lparr>ic_Targets := ic_Targets (collision pre (ks ! g)) @ [describeColliding t]\<rparr>])"
  then have i: "i < length ks" by simp
  show "(map (collision pre) ks)[g := (collision pre (ks ! g))\<lparr>ic_Targets := ic_Targets (collision pre (ks ! g)) @ [describeColliding t]\<rparr>] ! i =
      map (collision (pre @ [t])) ks ! i"
  proof (cases "i = g")
    case True
    then show ?thesis using assms i collision_same [of t "ks ! g" pre] by simp
  next
    case False
    then have "identityOf t \<noteq> ks ! i" using assms i by (metis nth_eq_iff_index_eq)
    then show ?thesis using False i collision_other by simp
  qed
qed simp

lemma slot_ok_other: "slot_ok targets pre ks slot k \<Longrightarrow> k \<noteq> identityOf t \<Longrightarrow> slot_ok targets (pre @ [t]) ks slot k"
  by (cases slot) (auto simp: slot_ok_def members_snoc)

lemma slot_ok_more: "slot_ok targets pre ks slot k \<Longrightarrow> k \<noteq> k' \<Longrightarrow> slot_ok targets pre (ks @ [k']) slot k"
  by (cases slot) (auto simp: slot_ok_def nth_append)

lemma map_collision_other: "identityOf t \<notin> set ks \<Longrightarrow> map (collision (pre @ [t])) ks = map (collision pre) ks"
  using collision_other by (metis (no_types, lifting) map_cong)

lemma scan_target_ok:
  assumes ok: "scan_ok targets pre ks (slots, groups)" and t: "t = targets ! i"
  shows "\<exists>ks'. scan_ok targets (pre @ [t]) ks' (scan_target targets i (slots, groups))"
proof -
  let ?k = "identityOf t"
  have g: "groups = map (collision pre) ks" "distinct ks" and slots: "slot_ok targets pre ks (get slots k) k" for k
    using ok unfolding scan_ok_def by auto
  note other = slot_ok_other [OF slots]
  consider (new) "get slots ?k = None" | (second) slot where "get slots ?k = Some slot" "slot_group slot < 0"
    | (more) slot where "get slots ?k = Some slot" "\<not> slot_group slot < 0" by (cases "get slots ?k") auto
  then show ?thesis
  proof cases
    case new
    have k: "members pre ?k = []" "?k \<notin> set ks" using slots [of ?k] new unfolding slot_ok_def by simp_all
    have "slot_ok targets (pre @ [t]) ks (Some \<lparr>slot_first = i, slot_group = -1\<rparr>) ?k"
      using k t unfolding slot_ok_def by (simp add: members_snoc)
    then have "scan_ok targets (pre @ [t]) ks (put ?k \<lparr>slot_first = i, slot_group = -1\<rparr> slots, groups)"
      unfolding scan_ok_def using g k(2) other by (simp add: map_collision_other)
    then show ?thesis using new t by (auto simp: scan_target_def Let_def)
  next
    case second
    let ?slot = "slot\<lparr>slot_group := int (length groups)\<rparr>"
    have k: "?k \<notin> set ks" "members pre ?k = [targets ! slot_first slot]" using slots [of ?k] second unfolding slot_ok_def by simp_all
    have len: "length groups = length ks" using g by simp
    have "slot_ok targets (pre @ [t]) (ks @ [?k]) (Some ?slot) ?k"
      using k len unfolding slot_ok_def by (simp add: members_snoc)
    then have "scan_ok targets (pre @ [t]) (ks @ [?k]) (put ?k ?slot slots, map (collision (pre @ [t])) (ks @ [?k]))"
      unfolding scan_ok_def using g(2) k(1) slot_ok_more [OF other] by simp
    moreover have "scan_target targets i (slots, groups) = (put ?k ?slot slots, map (collision (pre @ [t])) (ks @ [?k]))"
      using second k(2) g(1) t map_collision_other [OF k(1), of pre]
      by (simp add: scan_target_def Let_def collision_def members_snoc)
    ultimately show ?thesis by metis
  next
    case more
    have k: "nat (slot_group slot) < length ks" "ks ! nat (slot_group slot) = ?k" "2 \<le> length (members pre ?k)"
      using slots [of ?k] more unfolding slot_ok_def by simp_all
    have "slot_ok targets (pre @ [t]) ks (get slots ?k) ?k" using k more unfolding slot_ok_def by (simp add: members_snoc)
    then have "scan_ok targets (pre @ [t]) ks (slots, map (collision (pre @ [t])) ks)"
      unfolding scan_ok_def using g(2) other by (simp; metis)
    moreover have "scan_target targets i (slots, groups) = (slots, map (collision (pre @ [t])) ks)"
      using more k(1) g(1) t map_collision_update [OF g(2) k(1,2), of pre] by (simp add: scan_target_def Let_def)
    ultimately show ?thesis by metis
  qed
qed

lemma scan_all_ok: "n \<le> length targets \<Longrightarrow> \<exists>ks. scan_ok targets (take n targets) ks (fold (scan_target targets) [0..<n] ([], []))"
proof (induction n)
  case 0
  show ?case by (rule exI [of _ "[]"]) (simp add: scan_ok_def slot_ok_def members_def)
next
  case (Suc n)
  obtain ks where ks: "scan_ok targets (take n targets) ks (fold (scan_target targets) [0..<n] ([], []))" using Suc by auto
  obtain slots groups where st: "fold (scan_target targets) [0..<n] ([], []) = (slots, groups)" by (cases "fold (scan_target targets) [0..<n] ([], [])")
  show ?case using scan_target_ok [OF ks [unfolded st] refl, of n] Suc.prems st by (simp add: take_Suc_conv_app_nth)
qed

lemma scan_ok_members:
  assumes "scan_ok targets targets ks st" shows "set ks = {k. 2 \<le> length (members targets k)}"
proof (rule set_eqI)
  fix k
  have "slot_ok targets targets ks (get (fst st) k) k" using assms by (simp add: scan_ok_def)
  then show "k \<in> set ks \<longleftrightarrow> k \<in> {k. 2 \<le> length (members targets k)}"
    by (cases "get (fst st) k") (auto simp: slot_ok_def split: if_splits)
qed

text \<open>
  C29. The collision scan is exact. Two targets export one identity when they agree on namespace, service
  name and address; the scan reports every identity shared by two or more targets of the list exactly once,
  with all of its targets in the order of the list, and reports nothing else.
\<close>
theorem Collisions_exact:
  "\<exists>ks. distinct ks \<and> (\<forall>k. k \<in> set ks \<longleftrightarrow> 2 \<le> length (members targets k)) \<and> Collisions targets = map (collision targets) ks"
proof (cases "length targets < 2")
  case True
  have "length (members targets k) \<le> length targets" for k unfolding members_def by (rule length_filter_le)
  then have "\<not> 2 \<le> length (members targets k)" for k using True by (meson leD le_trans)
  then show ?thesis using True by (intro exI [of _ "[]"]) (simp add: Collisions_def)
next
  case False
  obtain ks where ks: "scan_ok targets targets ks (fold (scan_target targets) [0..<length targets] ([], []))"
    using scan_all_ok [of "length targets" targets] by auto
  have "distinct ks" "Collisions targets = map (collision targets) ks" using ks False by (simp_all add: scan_ok_def Collisions_def)
  then show ?thesis using scan_ok_members [OF ks] by blast
qed

end
