(* ===== verification/Logdedupe.thy ===== *)
theory Logdedupe
  imports Prelude
begin

section \<open>Throttled log lines (internal/logdedupe)\<close>

text \<open>
  The three shapes of \<^verbatim>\<open>internal/logdedupe\<close>: a keyless throttle, a bounded table of keys and a
  run of failures. None of them logs; each decides whether its caller may. What the callers rely
  on is stated once, as the locale \<open>log_gate\<close>, and both the throttle and the table are shown to
  provide it. Clock readings are arguments; a table call reads the clock once, under its lock.
\<close>

subsection \<open>What a caller relies on\<close>

text \<open>The answers of a gate to a sequence of questions, each at a clock reading.\<close>
fun answers :: "('q \<Rightarrow> instant \<Rightarrow> 's \<Rightarrow> 'r \<times> 's) \<Rightarrow> ('q \<times> instant) list \<Rightarrow> 's \<Rightarrow> 'r list" where
  "answers ask [] s = []"
| "answers ask ((q, now) # qs) s = fst (ask q now s) # answers ask qs (snd (ask q now s))"

text \<open>
  \<open>held q n s\<close>: the gate remembers that \<open>q\<close> was allowed at \<open>n\<close>. \<open>elapsed n m\<close>: what was allowed
  at \<open>n\<close> may be allowed again at \<open>m\<close>.
\<close>
locale log_gate =
  fixes ask :: "'q \<Rightarrow> instant \<Rightarrow> 's \<Rightarrow> bool \<times> 's"
    and valid :: "instant \<Rightarrow> 's \<Rightarrow> bool"
    and held :: "'q \<Rightarrow> instant \<Rightarrow> 's \<Rightarrow> bool"
    and elapsed :: "instant \<Rightarrow> instant \<Rightarrow> bool"
  assumes ask_valid: "valid t s \<Longrightarrow> t \<le> now \<Longrightarrow> valid now (snd (ask q now s))"
    and ask_holds: "valid t s \<Longrightarrow> t \<le> now \<Longrightarrow> fst (ask q now s) \<Longrightarrow> held q now (snd (ask q now s))"
    and held_keeps: "valid t s \<Longrightarrow> t \<le> now \<Longrightarrow> held q n s \<Longrightarrow> held q n (snd (ask q' now s)) \<or> elapsed n now"
    and held_blocks: "valid t s \<Longrightarrow> t \<le> now \<Longrightarrow> held q n s \<Longrightarrow> fst (ask q now s) \<Longrightarrow> elapsed n now"
    and elapsed_mono: "elapsed n m \<Longrightarrow> m \<le> m' \<Longrightarrow> elapsed n m'"
begin

lemma held_later:
  "valid t s \<Longrightarrow> sorted (t # map snd qs) \<Longrightarrow> held q n s \<or> elapsed n t \<Longrightarrow> j < length qs \<Longrightarrow> fst (qs ! j) = q \<Longrightarrow>
     answers ask qs s ! j \<Longrightarrow> elapsed n (snd (qs ! j))"
proof (induction qs arbitrary: t s j)
  case (Cons qn qs)
  obtain q' now where qn: "qn = (q', now)" by fastforce
  have t: "t \<le> now" "sorted (now # map snd qs)" using Cons.prems(2) qn by auto
  have late: "now \<le> snd ((qn # qs) ! j)"
    using Cons.prems(2,4) qn by (cases j) auto
  show ?case
  proof (cases "elapsed n t")
    case True
    then show ?thesis using elapsed_mono [OF True] t(1) late by force
  next
    case False
    with Cons.prems(3) have h: "held q n s" by blast
    show ?thesis
    proof (cases j)
      case 0
      with Cons.prems(5,6) qn have "fst (ask q now s)" by simp
      from held_blocks [OF Cons.prems(1) t(1) h this] 0 qn show ?thesis by simp
    next
      case (Suc i)
      have "held q n (snd (ask q' now s)) \<or> elapsed n now" by (rule held_keeps [OF Cons.prems(1) t(1) h])
      from Cons.IH [OF ask_valid [OF Cons.prems(1) t(1)] t(2) this, of i] Cons.prems(4-) Suc qn show ?thesis by simp
    qed
  qed
qed simp

text \<open>Two questions of the same kind are both allowed only when the interval has passed in between.\<close>
lemma spaced:
  "valid t s \<Longrightarrow> sorted (t # map snd qs) \<Longrightarrow> i < j \<Longrightarrow> j < length qs \<Longrightarrow> fst (qs ! i) = fst (qs ! j) \<Longrightarrow>
     answers ask qs s ! i \<Longrightarrow> answers ask qs s ! j \<Longrightarrow> elapsed (snd (qs ! i)) (snd (qs ! j))"
proof (induction qs arbitrary: t s i j)
  case (Cons qn qs)
  obtain q now where qn: "qn = (q, now)" by fastforce
  have t: "t \<le> now" "sorted (now # map snd qs)" using Cons.prems(2) qn by auto
  obtain j' where j: "j = Suc j'" using Cons.prems(3) by (cases j) auto
  note v = ask_valid [OF Cons.prems(1) t(1)]
  show ?case
  proof (cases i)
    case 0
    then have "held q now (snd (ask q now s))" using Cons.prems(6) qn by (intro ask_holds [OF Cons.prems(1) t(1)]) simp
    then have h: "held q now (snd (ask q now s)) \<or> elapsed now now" ..
    have "elapsed now (snd (qs ! j'))"
      by (rule held_later [OF v t(2) h]) (use Cons.prems(4,5,7) 0 j qn in auto)
    then show ?thesis using 0 j qn by simp
  next
    case (Suc i')
    have "elapsed (snd (qs ! i')) (snd (qs ! j'))"
      by (rule Cons.IH [OF v t(2)]) (use Cons.prems(3-) Suc j qn in auto)
    then show ?thesis using Suc j by simp
  qed
qed simp

end

subsection \<open>A keyless condition\<close>

record Throttle =
  th_last :: int

definition zero_Throttle :: Throttle where
  "zero_Throttle = \<lparr>th_last = 0\<rparr>"

text \<open>
  \<^verbatim>\<open>claim\<close>: \<open>observed\<close> is the value the caller loaded before. The swap succeeds when the throttle
  still holds it.
\<close>
definition claim :: "int \<Rightarrow> int \<Rightarrow> duration \<Rightarrow> Throttle \<Rightarrow> bool \<times> Throttle" where
  "claim observed now interval t =
     (if observed \<noteq> 0 \<and> now - observed < interval then (False, t)
      else if th_last t = observed then (True, t\<lparr>th_last := now\<rparr>)
      else (False, t))"

text \<open>\<^verbatim>\<open>Allow\<close> with the monotonic reading \<^verbatim>\<open>time.Since(epoch)\<close> as an argument.\<close>
definition Throttle_Allow :: "int \<Rightarrow> duration \<Rightarrow> Throttle \<Rightarrow> bool \<times> Throttle" where
  "Throttle_Allow since_epoch interval t = claim (th_last t) (since_epoch + 1) interval t"

definition AllowAt :: "instant \<Rightarrow> instant \<Rightarrow> duration \<Rightarrow> Throttle \<Rightarrow> bool \<times> Throttle" where
  "AllowAt epoch now interval t = claim (th_last t) (now - epoch + 1) interval t"

definition stampAt :: "instant \<Rightarrow> instant \<Rightarrow> Throttle \<Rightarrow> Throttle" where
  "stampAt epoch now t = t\<lparr>th_last := now - epoch + 1\<rparr>"

interpretation throttle: log_gate "\<lambda>q now. AllowAt epoch now interval"
  "\<lambda>t s. epoch \<le> t \<and> th_last s \<le> t - epoch + 1" "\<lambda>q n s. epoch \<le> n \<and> n - epoch + 1 \<le> th_last s"
  "\<lambda>n m. n + interval \<le> m"
  for epoch :: instant and interval :: duration
  by unfold_locales (auto simp: AllowAt_def claim_def split: if_splits)

text \<open>
  A throttled line is written at most once per interval: of two calls that both may log, the
  later is at least the interval after the earlier, and the first call of a new throttle may log.
\<close>
theorem Throttle_spaced:
  assumes "epoch \<le> t" and "sorted (t # nows)" and "i < j" and "j < length nows"
    and "answers (\<lambda>q now. AllowAt epoch now interval) (map (Pair ()) nows) zero_Throttle ! i"
    and "answers (\<lambda>q now. AllowAt epoch now interval) (map (Pair ()) nows) zero_Throttle ! j"
  shows "nows ! i + interval \<le> nows ! j \<and> fst (AllowAt epoch now interval zero_Throttle)"
  using throttle.spaced [of epoch t zero_Throttle "map (Pair ()) nows" i j interval] assms
  by (simp add: zero_Throttle_def AllowAt_def claim_def o_def)

theorem Throttle_spaced_witness:
  "answers (\<lambda>q now. AllowAt 0 now 5) (map (Pair ()) [1, 3, 7]) zero_Throttle = [True, False, True] \<and> (1 :: int) + 5 \<le> 7"
proof -
  have a: "answers (\<lambda>q now. AllowAt 0 now 5) (map (Pair ()) [1, 3, 7]) zero_Throttle = [True, False, True]"
    by (simp add: AllowAt_def claim_def zero_Throttle_def)
  with Throttle_spaced [of 0 0 "[1, 3, 7]" 0 2 5 0] show ?thesis by simp
qed

text \<open>
  Of the callers that raced for a slot only one logs: once a claim on an observed stamp has
  succeeded, every other claim on the same stamp fails, whenever it is made.
\<close>
theorem claim_race:
  assumes "claim observed now interval t = (True, t')" and "now \<noteq> observed"
  shows "\<not> fst (claim observed now' interval' t') \<and> th_last t' = now"
  using assms by (auto simp: claim_def split: if_splits)

theorem claim_race_witness:
  "claim 0 4 10 zero_Throttle = (True, \<lparr>th_last = 4\<rparr>) \<and> \<not> fst (claim 0 4 10 \<lparr>th_last = 4\<rparr>)"
  using claim_race [of 0 4 10 zero_Throttle "\<lparr>th_last = 4\<rparr>" 4 10] by (simp add: claim_def zero_Throttle_def)

subsection \<open>A run of failures\<close>

record Outage =
  failures :: int
  since :: instant
  warn :: Throttle

definition zero_Outage :: Outage where
  "zero_Outage = \<lparr>failures = 0, since = 0, warn = zero_Throttle\<rparr>"

text \<open>\<^verbatim>\<open>Duration.Round(time.Second)\<close>: half a second is rounded away from zero.\<close>
definition round_second :: "duration \<Rightarrow> duration" where
  "round_second d =
     (let m = 1000000000; r = \<bar>d\<bar> mod m in
      if r + r < m then (if d < 0 then d + r else d - r)
      else if d < 0 then d - m + r else d + m - r)"

definition Lasted :: "instant \<Rightarrow> Outage \<Rightarrow> duration" where
  "Lasted now o' = (if failures o' = 0 then 0 else round_second (now - since o'))"

text \<open>The two results are \<^verbatim>\<open>first\<close> and \<^verbatim>\<open>loud\<close>.\<close>
definition Fail :: "instant \<Rightarrow> instant \<Rightarrow> duration \<Rightarrow> Outage \<Rightarrow> (bool \<times> bool) \<times> Outage" where
  "Fail epoch now every o' =
     (let o' = o'\<lparr>failures := failures o' + 1\<rparr> in
      if failures o' = 1 then ((True, True), o'\<lparr>since := now, warn := stampAt epoch now (warn o')\<rparr>)
      else (case AllowAt epoch now every (warn o') of (loud, w) \<Rightarrow> ((False, loud), o'\<lparr>warn := w\<rparr>)))"

text \<open>Nothing stands for \<^verbatim>\<open>ok\<close> being false.\<close>
definition Recover :: "instant \<Rightarrow> Outage \<Rightarrow> (int \<times> duration) option \<times> Outage" where
  "Recover now o' =
     (if failures o' = 0 then (None, o')
      else (Some (failures o', Lasted now o'), o'\<lparr>failures := 0, since := 0\<rparr>))"

definition Failing :: "Outage \<Rightarrow> bool" where
  "Failing o' \<longleftrightarrow> failures o' > 0"

definition Failures :: "Outage \<Rightarrow> int" where
  "Failures o' = failures o'"

text \<open>A run of failures at the given instants: the \<^verbatim>\<open>(first, loud)\<close> pair of each, and the state behind it.\<close>
fun fails :: "instant \<Rightarrow> duration \<Rightarrow> instant list \<Rightarrow> Outage \<Rightarrow> (bool \<times> bool) list \<times> Outage" where
  "fails epoch every [] o' = ([], o')"
| "fails epoch every (now # nows) o' =
     (case Fail epoch now every o' of (r, o') \<Rightarrow>
        (case fails epoch every nows o' of (rs, o') \<Rightarrow> (r # rs, o')))"

lemma fails_open:
  "0 < failures o' \<Longrightarrow> failures (snd (fails epoch every nows o')) = failures o' + int (length nows) \<and>
     since (snd (fails epoch every nows o')) = since o' \<and>
     map fst (fst (fails epoch every nows o')) = replicate (length nows) False \<and>
     map snd (fst (fails epoch every nows o')) = answers (\<lambda>q now. AllowAt epoch now every) (map (Pair ()) nows) (warn o')"
proof (induction nows arbitrary: o')
  case (Cons now nows)
  let ?o = "snd (Fail epoch now every o')"
  have f: "failures ?o = failures o' + 1" "since ?o = since o'" "warn ?o = snd (AllowAt epoch now every (warn o'))"
    "fst (Fail epoch now every o') = (False, fst (AllowAt epoch now every (warn o')))"
    using Cons.prems by (simp_all add: Fail_def Let_def split: prod.splits)
  with Cons.IH [of ?o] Cons.prems show ?case by (simp add: case_prod_beta)
qed simp

text \<open>
  A run of failures opens loud, says so once, restates itself at most once per interval, and
  is reported as over exactly once, with the number of its failures and its duration: the first failure after a recovery
  is loud whatever the throttle of the run before remembers.
\<close>
theorem Outage_run:
  assumes "failures o' = 0" and "epoch \<le> now" and "sorted (now # nows)" and "now \<le> end"
    and "fails epoch every (now # nows) o' = (rs, o'')" and "Recover end o'' = (r, o''')"
  shows "hd rs = (True, True) \<and> map fst (tl rs) = replicate (length nows) False \<and>
    (\<forall>i j. i < j \<and> j < length rs \<and> snd (rs ! i) \<and> snd (rs ! j) \<longrightarrow> (now # nows) ! i + every \<le> (now # nows) ! j) \<and>
    r = Some (1 + int (length nows), round_second (end - now)) \<and> fst (Recover later o''') = None"
proof -
  let ?o = "snd (Fail epoch now every o')"
  have o: "failures ?o = 1" "since ?o = now" "warn ?o = stampAt epoch now (warn o')" "fst (Fail epoch now every o') = (True, True)"
    using assms(1) by (simp_all add: Fail_def Let_def)
  have rs: "rs = (True, True) # fst (fails epoch every nows ?o)" "o'' = snd (fails epoch every nows ?o)"
    using assms(5) o(4) by (auto simp: case_prod_beta)
  note F = fails_open [of ?o epoch every nows]
  have len: "length (fst (fails epoch every nows ?o)) = length nows" using F o(1) by (metis length_map length_replicate zero_less_one)
  have st: "epoch \<le> now \<and> th_last (stampAt epoch now (warn o')) \<le> now - epoch + 1" using assms(2) by (simp add: stampAt_def)
  have snds: "snd (fst (fails epoch every nows ?o) ! k) =
      answers (\<lambda>q now. AllowAt epoch now every) (map (Pair ()) nows) (stampAt epoch now (warn o')) ! k" if "k < length nows" for k
    using F o(1,3) that len by (metis nth_map zero_less_one)
  have gap: "(now # nows) ! i + every \<le> (now # nows) ! j" if ij: "i < j" "j < length rs" "snd (rs ! i)" "snd (rs ! j)" for i j
  proof -
    obtain j' where j: "j = Suc j'" using ij(1) by (cases j) auto
    have j': "j' < length nows" using ij(2) rs(1) len j by simp
    have fj: "answers (\<lambda>q now. AllowAt epoch now every) (map (Pair ()) nows) (stampAt epoch now (warn o')) ! j'"
      using ij(4) rs(1) j snds [OF j'] by simp
    have s: "sorted (now # map snd (map (Pair ()) nows))" using assms(3) by (simp add: o_def)
    show ?thesis
    proof (cases i)
      case 0
      have "epoch \<le> now \<and> now - epoch + 1 \<le> th_last (stampAt epoch now (warn o'))" using assms(2) by (simp add: stampAt_def)
      then show ?thesis
        using throttle.held_later [OF st s, where n = now and interval = every and j = j'] j' fj j 0 by simp
    next
      case (Suc i')
      then have "answers (\<lambda>q now. AllowAt epoch now every) (map (Pair ()) nows) (stampAt epoch now (warn o')) ! i'"
        using ij(1,3) rs(1) j j' snds [of i'] by simp
      then show ?thesis using throttle.spaced [OF st s, where i = i' and j = j' and interval = every] fj j' j Suc ij(1) by simp
    qed
  qed
  have "failures o'' = 1 + int (length nows)" "since o'' = now" using F o rs(2) by simp_all
  then have "r = Some (1 + int (length nows), round_second (end - now))" "failures o''' = 0"
    using assms(6) by (auto simp: Recover_def Lasted_def)
  then show ?thesis using rs(1) F o(1) gap by (auto simp: Recover_def)
qed

theorem Outage_run_witness:
  "fst (fails 0 10 [5, 7, 20] zero_Outage) = [(True, True), (False, False), (False, True)] \<and>
   fst (Recover 25 (snd (fails 0 10 [5, 7, 20] zero_Outage))) = Some (3, 0)"
proof -
  have f: "fails 0 10 [5, 7, 20] zero_Outage =
      ([(True, True), (False, False), (False, True)], \<lparr>failures = 3, since = 5, warn = \<lparr>th_last = 21\<rparr>\<rparr>)"
    by (simp add: Fail_def zero_Outage_def zero_Throttle_def stampAt_def AllowAt_def claim_def)
  obtain r o3 where r: "Recover 25 \<lparr>failures = 3, since = 5, warn = \<lparr>th_last = 21\<rparr>\<rparr> = (r, o3)" by fastforce
  have "r = Some (3, round_second 20)"
    using Outage_run [OF _ _ _ _ f r, of 30] by (simp add: zero_Outage_def)
  with f r show ?thesis by (simp add: round_second_def)
qed

subsection \<open>Conditions that vary by key\<close>

record Table =
  seen :: "(string, instant) gomap"
  saturated :: bool
  reclaimAt :: instant
  sweeps :: nat
  tbl_max :: int
  window :: duration

definition New_Table :: "int \<Rightarrow> duration \<Rightarrow> Table" where
  "New_Table limit w =
     \<lparr>seen = [], saturated = False, reclaimAt = 0, sweeps = 0,
      tbl_max = (if limit < 1 then 1 else limit), window = w\<rparr>"

text \<open>The walk over the entries: what is left of the map, and the oldest survivor (0 for none).\<close>
fun reclaim_loop :: "instant \<Rightarrow> duration \<Rightarrow> (string \<times> instant) list \<Rightarrow> (string, instant) gomap \<Rightarrow> instant \<Rightarrow> (string, instant) gomap \<times> instant" where
  "reclaim_loop now w [] m oldest = (m, oldest)"
| "reclaim_loop now w ((k, stamp) # es) m oldest =
     (if now - stamp \<ge> w then reclaim_loop now w es (del k m) oldest
      else reclaim_loop now w es m (if oldest = 0 \<or> stamp < oldest then stamp else oldest))"

definition reclaimLocked :: "instant \<Rightarrow> Table \<Rightarrow> Table" where
  "reclaimLocked now t =
     (case reclaim_loop now (window t) (seen t) (seen t) 0 of (m, oldest) \<Rightarrow>
        t\<lparr>sweeps := sweeps t + 1, seen := m, reclaimAt := (if oldest = 0 then 0 else oldest + window t)\<rparr>)"

text \<open>The two results are \<^verbatim>\<open>allow\<close> and \<^verbatim>\<open>saturated\<close>.\<close>
definition Table_Allow :: "string \<Rightarrow> instant \<Rightarrow> Table \<Rightarrow> (bool \<times> bool) \<times> Table" where
  "Table_Allow key now t =
     (case get (seen t) key of
        Some stamp \<Rightarrow>
          if window t \<le> 0 \<or> now - stamp < window t then ((False, False), t)
          else ((True, False), t\<lparr>seen := put key now (seen t)\<rparr>)
      | None \<Rightarrow>
          if int (length (seen t)) \<ge> tbl_max t then
            (let t = (if window t > 0 \<and> \<not> now < reclaimAt t then reclaimLocked now t else t) in
             if int (length (seen t)) \<ge> tbl_max t then ((False, \<not> saturated t), t\<lparr>saturated := True\<rparr>)
             else ((True, False), t\<lparr>seen := put key now (seen t)\<rparr>))
          else ((True, False), t\<lparr>seen := put key now (seen t)\<rparr>))"

definition Table_Len :: "Table \<Rightarrow> nat" where
  "Table_Len t = length (seen t)"

subsubsection \<open>The table without the short cut\<close>

text \<open>
  What the table decides, without the bound that spares it sweeps: a full table drops every entry
  past its window whenever a new key asks.
\<close>
definition prune :: "instant \<Rightarrow> duration \<Rightarrow> (string, instant) gomap \<Rightarrow> (string, instant) gomap" where
  "prune now w m = filter (\<lambda>(k, stamp). now - stamp < w) m"

definition Allow_spec :: "int \<Rightarrow> duration \<Rightarrow> string \<Rightarrow> instant \<Rightarrow> (string, instant) gomap \<times> bool \<Rightarrow>
    (bool \<times> bool) \<times> (string, instant) gomap \<times> bool" where
  "Allow_spec limit w key now s =
     (case s of (m, sat) \<Rightarrow>
        (case get m key of
           Some stamp \<Rightarrow> if w \<le> 0 \<or> now - stamp < w then ((False, False), m, sat) else ((True, False), put key now m, sat)
         | None \<Rightarrow>
             (let m = (if int (length m) \<ge> limit \<and> w > 0 then prune now w m else m) in
              if int (length m) \<ge> limit then ((False, \<not> sat), m, True) else ((True, False), put key now m, sat))))"

definition table_abs :: "Table \<Rightarrow> (string, instant) gomap \<times> bool" where
  "table_abs t = (seen t, saturated t)"

text \<open>The bound on the next useful sweep is never late.\<close>
definition table_ok :: "instant \<Rightarrow> Table \<Rightarrow> bool" where
  "table_ok t tab \<longleftrightarrow> 0 < t \<and> wf_map (seen tab) \<and> 1 \<le> tbl_max tab \<and> int (length (seen tab)) \<le> tbl_max tab \<and>
     (\<forall>(k, stamp) \<in> set (seen tab). 0 < stamp \<and> stamp \<le> t \<and> (0 < window tab \<longrightarrow> reclaimAt tab \<le> stamp + window tab)) \<and>
     (0 < window tab \<longrightarrow> reclaimAt tab \<le> t + window tab)"

lemma length_put: "length (put k v m) = (if get m k = None then Suc (length m) else length m)"
  by (induction m) auto

lemma del_filter: "del k m = filter (\<lambda>p. fst p \<noteq> k) m"
  by (induction m) auto

lemma reclaim_loop_map:
  "fst (reclaim_loop now w es m oldest) = filter (\<lambda>p. \<not> (\<exists>stamp. (fst p, stamp) \<in> set es \<and> w \<le> now - stamp)) m"
proof (induction now w es m oldest rule: reclaim_loop.induct)
  case (2 now w k stamp es m oldest)
  show ?case
  proof (cases "now - stamp \<ge> w")
    case True
    then have "fst (reclaim_loop now w ((k, stamp) # es) m oldest) = fst (reclaim_loop now w es (del k m) oldest)" by simp
    with "2.IH"(1) True show ?thesis by (auto simp: del_filter intro: filter_cong)
  next
    case False
    with "2.IH"(2) show ?thesis by (auto intro: filter_cong)
  qed
qed simp

lemma reclaim_loop_oldest:
  assumes "\<forall>(k, stamp) \<in> set es. 0 < stamp"
  shows "snd (reclaim_loop now w es m oldest) = 0 \<longleftrightarrow> oldest = 0 \<and> (\<forall>(k, stamp) \<in> set es. w \<le> now - stamp)"
    and "(oldest \<noteq> 0 \<longrightarrow> snd (reclaim_loop now w es m oldest) \<le> oldest) \<and>
      (\<forall>(k, stamp) \<in> set es. \<not> w \<le> now - stamp \<longrightarrow> snd (reclaim_loop now w es m oldest) \<le> stamp)"
  using assms by (induction now w es m oldest rule: reclaim_loop.induct) (auto split: if_splits)

lemma reclaim_seen:
  assumes "wf_map (seen t)"
  shows "seen (reclaimLocked now t) = prune now (window t) (seen t)"
proof -
  have "(\<exists>stamp. (fst p, stamp) \<in> set (seen t) \<and> window t \<le> now - stamp) \<longleftrightarrow> window t \<le> now - snd p" if "p \<in> set (seen t)" for p
    using that eq_key_imp_eq_value [OF assms] by (metis prod.collapse)
  then have "fst (reclaim_loop now (window t) (seen t) (seen t) 0) = prune now (window t) (seen t)"
    unfolding reclaim_loop_map prune_def by (intro filter_cong) auto
  then show ?thesis by (simp add: reclaimLocked_def case_prod_beta)
qed

lemma reclaim_frame: "saturated (reclaimLocked now t) = saturated t" "tbl_max (reclaimLocked now t) = tbl_max t"
  "window (reclaimLocked now t) = window t"
  by (simp_all add: reclaimLocked_def split: prod.splits)

lemma reclaim_ok:
  assumes "table_ok t tab" "t \<le> now" "0 < window tab"
  shows "table_ok now (reclaimLocked now tab)"
proof -
  let ?o = "snd (reclaim_loop now (window tab) (seen tab) (seen tab) 0)"
  have wf: "wf_map (seen tab)" and pos: "\<forall>(k, stamp) \<in> set (seen tab). 0 < stamp" and le: "\<forall>(k, stamp) \<in> set (seen tab). stamp \<le> now"
    using assms(1,2) by (auto simp: table_ok_def)
  have at: "reclaimAt (reclaimLocked now tab) = (if ?o = 0 then 0 else ?o + window tab)"
    by (simp add: reclaimLocked_def case_prod_beta)
  have old: "?o \<le> stamp" if "(k, stamp) \<in> set (seen tab)" "\<not> window tab \<le> now - stamp" for k stamp
    using reclaim_loop_oldest(2) [OF pos, where now = now and w = "window tab" and m = "seen tab" and oldest = 0] that by auto
  have "?o \<le> now"
  proof (cases "?o = 0")
    case False
    then obtain k stamp where "(k, stamp) \<in> set (seen tab)" "\<not> window tab \<le> now - stamp"
      using reclaim_loop_oldest(1) [OF pos, where now = now and w = "window tab" and m = "seen tab" and oldest = 0] by auto
    with old le show ?thesis by force
  qed (use assms in \<open>simp add: table_ok_def\<close>)
  moreover have "int (length (filter (\<lambda>(k, stamp). now - stamp < window tab) (seen tab))) \<le> tbl_max tab"
    by (rule order_trans [OF of_nat_mono [OF length_filter_le]]) (use assms(1) in \<open>simp add: table_ok_def\<close>)
  moreover have "wf_map (prune now (window tab) (seen tab))" using wf by (simp add: prune_def distinct_map_filter)
  ultimately show ?thesis
    using assms pos le old unfolding table_ok_def reclaim_seen [OF wf] reclaim_frame at
    by (auto simp: prune_def)
qed

lemma insert_ok:
  assumes "table_ok now tab" "int (length (put key now (seen tab))) \<le> tbl_max tab"
  shows "table_ok now (tab\<lparr>seen := put key now (seen tab)\<rparr>)"
  using assms by (auto simp: table_ok_def set_put)

lemma table_ok_mono: "table_ok t tab \<Longrightarrow> t \<le> now \<Longrightarrow> table_ok now tab"
  by (auto simp: table_ok_def)

lemma prune_idle:
  assumes "table_ok t tab" "now < reclaimAt tab" "0 < window tab"
  shows "prune now (window tab) (seen tab) = seen tab"
  using assms by (auto simp: table_ok_def prune_def filter_id_conv)

lemma Table_Allow_step:
  assumes "table_ok t tab" "t \<le> now"
  shows "table_ok now (snd (Table_Allow key now tab))"
    and "fst (Table_Allow key now tab) = fst (Allow_spec (tbl_max tab) (window tab) key now (table_abs tab))"
    and "table_abs (snd (Table_Allow key now tab)) = snd (Allow_spec (tbl_max tab) (window tab) key now (table_abs tab))"
    and "tbl_max (snd (Table_Allow key now tab)) = tbl_max tab" "window (snd (Table_Allow key now tab)) = window tab"
proof -
  have ok: "table_ok now tab" by (rule table_ok_mono [OF assms])
  then have wf: "wf_map (seen tab)" and len: "int (length (seen tab)) \<le> tbl_max tab" by (simp_all add: table_ok_def)
  let ?R = "table_ok now (snd (Table_Allow key now tab)) \<and>
     fst (Table_Allow key now tab) = fst (Allow_spec (tbl_max tab) (window tab) key now (table_abs tab)) \<and>
     table_abs (snd (Table_Allow key now tab)) = snd (Allow_spec (tbl_max tab) (window tab) key now (table_abs tab)) \<and>
     tbl_max (snd (Table_Allow key now tab)) = tbl_max tab \<and> window (snd (Table_Allow key now tab)) = window tab"
  have ?R
  proof (cases "get (seen tab) key")
    case (Some stamp)
    then show ?thesis
      using ok len insert_ok [OF ok, of key] by (auto simp: Table_Allow_def Allow_spec_def table_abs_def length_put)
  next
    case None
    show ?thesis
    proof (cases "int (length (seen tab)) \<ge> tbl_max tab")
      case False
      then show ?thesis
        using None ok insert_ok [OF ok, of key] by (auto simp: Table_Allow_def Allow_spec_def table_abs_def length_put)
    next
      case full: True
      let ?s = "if window tab > 0 \<and> \<not> now < reclaimAt tab then reclaimLocked now tab else tab"
      have s: "table_ok now ?s" using ok reclaim_ok [OF assms] by simp
      have f: "saturated ?s = saturated tab" "tbl_max ?s = tbl_max tab" "window ?s = window tab" by (simp_all add: reclaim_frame)
      have seen: "seen ?s = (if 0 < window tab then prune now (window tab) (seen tab) else seen tab)"
        using prune_idle [OF assms(1), of now] by (simp add: reclaim_seen [OF wf])
      have none: "get (seen ?s) key = None"
        unfolding seen using None by (auto simp: prune_def map_of_eq_None_iff)
      have sat: "table_ok now (?s\<lparr>saturated := True\<rparr>)" using s by (simp add: table_ok_def)
      have ins: "table_ok now (?s\<lparr>seen := put key now (seen ?s)\<rparr>)" if "\<not> int (length (seen ?s)) \<ge> tbl_max ?s"
        by (rule insert_ok [OF s]) (use that none in \<open>simp add: length_put\<close>)
      have A: "Table_Allow key now tab = (if int (length (seen ?s)) \<ge> tbl_max ?s then ((False, \<not> saturated ?s), ?s\<lparr>saturated := True\<rparr>)
             else ((True, False), ?s\<lparr>seen := put key now (seen ?s)\<rparr>))"
        using None full by (simp add: Table_Allow_def Let_def)
      have B: "Allow_spec (tbl_max tab) (window tab) key now (table_abs tab) =
          (if int (length (seen ?s)) \<ge> tbl_max tab then ((False, \<not> saturated tab), seen ?s, True)
           else ((True, False), put key now (seen ?s), saturated tab))"
        using None full unfolding seen by (simp add: Allow_spec_def table_abs_def Let_def)
      show ?thesis unfolding A B using f sat ins by (simp add: table_abs_def)
    qed
  qed
  then show "table_ok now (snd (Table_Allow key now tab))"
    "fst (Table_Allow key now tab) = fst (Allow_spec (tbl_max tab) (window tab) key now (table_abs tab))"
    "table_abs (snd (Table_Allow key now tab)) = snd (Allow_spec (tbl_max tab) (window tab) key now (table_abs tab))"
    "tbl_max (snd (Table_Allow key now tab)) = tbl_max tab" "window (snd (Table_Allow key now tab)) = window tab"
    by blast+
qed

lemma New_Table_ok: "0 < t \<Longrightarrow> table_ok t (New_Table limit w)"
  by (simp add: table_ok_def New_Table_def)

subsubsection \<open>What the table promises\<close>

lemma table_runs:
  "table_ok t tab \<Longrightarrow> sorted (t # map snd qs) \<Longrightarrow>
     answers Table_Allow qs tab = answers (Allow_spec (tbl_max tab) (window tab)) qs (table_abs tab)"
proof (induction qs arbitrary: t tab)
  case (Cons qn qs)
  obtain q now where qn: "qn = (q, now)" by fastforce
  have t: "t \<le> now" "sorted (now # map snd qs)" using Cons.prems(2) qn by auto
  note S = Table_Allow_step [OF Cons.prems(1) t(1), of q]
  from Cons.IH [OF S(1) t(2)] show ?case by (simp add: qn S(2-))
qed simp

text \<open>
  C33. Skipping sweeps changes no decision: a table that sweeps only when its bound says that
  something may have expired answers every sequence of calls as one that sweeps on every refused new key.
\<close>
theorem Table_Allow_refines:
  assumes "sorted (map snd qs)" and "\<forall>(k, now) \<in> set qs. 0 < now"
  shows "answers Table_Allow qs (New_Table limit w) = answers (Allow_spec (max 1 limit) w) qs ([], False)"
proof (cases qs)
  case (Cons qn qs')
  have s: "sorted (snd qn # map snd qs)" using assms(1) Cons by auto
  have "0 < snd qn" using assms(2) Cons by (cases qn) auto
  from table_runs [OF New_Table_ok [OF this] s, of limit w] show ?thesis
    by (simp add: New_Table_def table_abs_def max_def)
qed simp

theorem Table_Allow_refines_witness:
  "sorted (map snd [(''a'', 1 :: int), (''b'', 2), (''b'', 12)]) \<and>
   answers (Allow_spec 1 10) [(''a'', 1), (''b'', 2), (''b'', 12)] ([], False) = [(True, False), (False, True), (True, False)]"
proof -
  have "answers Table_Allow [(''a'', 1), (''b'', 2), (''b'', 12)] (New_Table 1 10) = [(True, False), (False, True), (True, False)]"
    by (simp add: Table_Allow_def New_Table_def reclaimLocked_def)
  with Table_Allow_refines [of "[(''a'', 1), (''b'', 2), (''b'', 12)]" 1 10] show ?thesis by simp
qed

lemma spec_keeps:
  assumes "get m k = Some stamp" "wf_map m"
  shows "(\<exists>stamp'. get (fst (snd (Allow_spec l w q now (m, sat)))) k = Some stamp' \<and> (stamp \<le> stamp' \<or> stamp' = now)) \<or>
    0 < w \<and> stamp + w \<le> now"
proof -
  have p: "get (prune now w m) k = Some stamp \<or> stamp + w \<le> now"
    using assms by (auto simp: prune_def distinct_map_filter)
  show ?thesis
  proof (cases "k = q")
    case True
    then show ?thesis using assms(1) by (auto simp: Allow_spec_def split: if_splits)
  next
    case False
    then show ?thesis using assms(1) p by (auto simp: Allow_spec_def Let_def split: option.splits if_splits)
  qed
qed

interpretation table: log_gate
  "\<lambda>k now s. (fst (fst (Table_Allow k now s)), snd (Table_Allow k now s))"
  "\<lambda>t s. table_ok t s \<and> window s = w" "\<lambda>k n s. \<exists>stamp. get (seen s) k = Some stamp \<and> n \<le> stamp"
  "\<lambda>n m. 0 < w \<and> n + w \<le> m"
  for w :: duration
proof (unfold_locales, goal_cases)
  case (1 t s now q)
  then show ?case using Table_Allow_step(1,5) [of t s now q] by simp
next
  case (2 t s now q)
  then show ?case by (auto simp: Table_Allow_def Let_def split: option.splits if_splits)
next
  case (3 t s now q n q')
  then obtain stamp where st: "get (seen s) q = Some stamp" "n \<le> stamp" by blast
  have wf: "wf_map (seen s)" and le: "stamp \<le> now"
    using 3 st(1) by (auto simp: table_ok_def dest: map_of_SomeD)
  have "seen (snd (Table_Allow q' now s)) = fst (snd (Allow_spec (tbl_max s) w q' now (seen s, saturated s)))"
    using Table_Allow_step(3) [of t s now q'] 3 by (metis fst_conv table_abs_def)
  with spec_keeps [OF st(1) wf, of "tbl_max s" w q' now "saturated s"] st(2) le show ?case by fastforce
next
  case (4 t s now q n)
  then show ?case by (auto simp: Table_Allow_def split: option.splits if_splits)
next
  case (5 n m m')
  then show ?case by simp
qed

lemma answers_fst: "answers (\<lambda>k now s. (fst (fst (f k now s)), snd (f k now s))) qs s = map fst (answers f qs s)"
  by (induction qs arbitrary: s) auto

text \<open>
  One key logs at most once per window, and once per process when there is no window: of two
  calls with the same key that both may log, the later is at least the window after the earlier,
  whatever other keys do to the table in between.
\<close>
theorem Table_spaced:
  assumes "0 < t" and "sorted (t # map snd qs)" and "i < j" and "j < length qs" and "fst (qs ! i) = fst (qs ! j)"
    and "fst (answers Table_Allow qs (New_Table limit w) ! i)" and "fst (answers Table_Allow qs (New_Table limit w) ! j)"
  shows "0 < w \<and> snd (qs ! i) + w \<le> snd (qs ! j)"
proof -
  have len: "length (answers Table_Allow qs s) = length qs" for s by (induction qs arbitrary: s) auto
  have v: "table_ok t (New_Table limit w) \<and> window (New_Table limit w) = w"
    using New_Table_ok [OF assms(1)] by (simp add: New_Table_def)
  show ?thesis
    by (rule table.spaced [OF v assms(2-5)]) (use assms(3,4,6,7) len in \<open>simp_all add: answers_fst\<close>)
qed

theorem Table_spaced_witness:
  "fst (answers Table_Allow [(''a'', 1), (''a'', 5), (''a'', 12)] (New_Table 8 10) ! 2) \<and> (0 :: int) < 10 \<and> (1 :: int) + 10 \<le> 12"
proof -
  have a: "answers Table_Allow [(''a'', 1), (''a'', 5), (''a'', 12)] (New_Table 8 10) = [(True, False), (False, False), (True, False)]"
    by (simp add: Table_Allow_def New_Table_def)
  with Table_spaced [of 1 "[(''a'', 1), (''a'', 5), (''a'', 12)]" 0 2 8 10] show ?thesis by simp
qed

fun after :: "('q \<Rightarrow> instant \<Rightarrow> 's \<Rightarrow> 'r \<times> 's) \<Rightarrow> ('q \<times> instant) list \<Rightarrow> 's \<Rightarrow> 's" where
  "after ask [] s = s"
| "after ask ((q, now) # qs) s = after ask qs (snd (ask q now s))"

lemma after_ok: "table_ok t tab \<Longrightarrow> sorted (t # map snd qs) \<Longrightarrow>
    (\<exists>t'. table_ok t' (after Table_Allow qs tab)) \<and> tbl_max (after Table_Allow qs tab) = tbl_max tab"
proof (induction qs arbitrary: t tab)
  case (Cons qn qs)
  obtain q now where qn: "qn = (q, now)" by fastforce
  have t: "t \<le> now" "sorted (now # map snd qs)" using Cons.prems(2) qn by auto
  note S = Table_Allow_step [OF Cons.prems(1) t(1), of q]
  from Cons.IH [OF S(1) t(2)] S(4) show ?case by (simp add: qn)
qed auto

lemma saturated_silent: "saturated tab \<Longrightarrow> filter snd (answers Table_Allow qs tab) = []"
proof (induction qs arbitrary: tab)
  case (Cons qn qs)
  obtain q now where qn: "qn = (q, now)" by fastforce
  have "saturated (snd (Table_Allow q now tab)) \<and> \<not> snd (fst (Table_Allow q now tab))"
    using Cons.prems by (auto simp: Table_Allow_def Let_def reclaim_frame split: option.splits)
  with Cons.IH qn show ?case by simp
qed simp

lemma saturated_once: "length (filter snd (answers Table_Allow qs tab)) \<le> 1"
proof (induction qs arbitrary: tab)
  case (Cons qn qs)
  obtain q now where qn: "qn = (q, now)" by fastforce
  have "snd (fst (Table_Allow q now tab)) \<longrightarrow> saturated (snd (Table_Allow q now tab))"
    by (auto simp: Table_Allow_def Let_def split: option.splits)
  with Cons.IH saturated_silent [of "snd (Table_Allow q now tab)" qs] qn show ?case by auto
qed simp

text \<open>
  The table is bounded and says once that it is full: after any sequence of calls it holds at
  most its limit of keys, and over the whole life of the table at most one call is told that it
  saturated.
\<close>
theorem Table_bounded:
  assumes "0 < t" and "sorted (t # map snd qs)"
  shows "int (Table_Len (after Table_Allow qs (New_Table limit w))) \<le> max 1 limit \<and>
    length (filter snd (answers Table_Allow qs (New_Table limit w))) \<le> 1"
  using after_ok [OF New_Table_ok [OF assms(1)] assms(2), of limit w] saturated_once
  by (auto simp: table_ok_def Table_Len_def New_Table_def max_def split: if_splits)

theorem Table_bounded_witness:
  "Table_Len (after Table_Allow [(''a'', 1), (''b'', 2), (''c'', 3)] (New_Table 1 0)) \<le> 1"
  using Table_bounded [of 1 "[(''a'', 1), (''b'', 2), (''c'', 3)]" 1 0] by simp

end
