(* ===== verification/Owners.thy ===== *)
theory Owners
  imports Kubeconvert Logdedupe
begin

section \<open>Owner chains (internal/owners)\<close>

text \<open>
  The resolver of \<^verbatim>\<open>internal/owners\<close>: from a pod's owner references to the chain of owners the API
  serves, with their metadata read from informer caches. The caches (client-go listers), the parser of
  an \<^verbatim>\<open>apiVersion\<close> (apimachinery's \<^verbatim>\<open>ParseGroupVersion\<close>) and the clock are what the code is given; they form
  the \<open>world\<close> an operation takes as an argument. What the resolver leaves behind are the counters it
  bumps, the throttles of its log lines and the lines themselves.
\<close>

subsection \<open>The watched kinds\<close>

record GVR =
  gvr_Group :: string
  gvr_Version :: string
  gvr_Resource :: string

definition ReplicaSetGVR :: GVR where "ReplicaSetGVR = \<lparr>gvr_Group = ''apps'', gvr_Version = ''v1'', gvr_Resource = ''replicasets''\<rparr>"
definition DeploymentGVR :: GVR where "DeploymentGVR = \<lparr>gvr_Group = ''apps'', gvr_Version = ''v1'', gvr_Resource = ''deployments''\<rparr>"
definition StatefulSetGVR :: GVR where "StatefulSetGVR = \<lparr>gvr_Group = ''apps'', gvr_Version = ''v1'', gvr_Resource = ''statefulsets''\<rparr>"
definition DaemonSetGVR :: GVR where "DaemonSetGVR = \<lparr>gvr_Group = ''apps'', gvr_Version = ''v1'', gvr_Resource = ''daemonsets''\<rparr>"
definition JobGVR :: GVR where "JobGVR = \<lparr>gvr_Group = ''batch'', gvr_Version = ''v1'', gvr_Resource = ''jobs''\<rparr>"
definition CronJobGVR :: GVR where "CronJobGVR = \<lparr>gvr_Group = ''batch'', gvr_Version = ''v1'', gvr_Resource = ''cronjobs''\<rparr>"
definition NamespaceGVR :: GVR where "NamespaceGVR = \<lparr>gvr_Group = [], gvr_Version = ''v1'', gvr_Resource = ''namespaces''\<rparr>"
definition NodeGVR :: GVR where "NodeGVR = \<lparr>gvr_Group = [], gvr_Version = ''v1'', gvr_Resource = ''nodes''\<rparr>"

lemmas gvr_defs = ReplicaSetGVR_def DeploymentGVR_def StatefulSetGVR_def DaemonSetGVR_def JobGVR_def CronJobGVR_def
  NamespaceGVR_def NodeGVR_def

record ownerKindRow =
  row_group :: string
  row_kind :: string
  row_gvr :: GVR
  row_follow :: bool

definition ownerKinds :: "ownerKindRow list" where
  "ownerKinds =
     [\<lparr>row_group = ''apps'', row_kind = ''ReplicaSet'', row_gvr = ReplicaSetGVR, row_follow = True\<rparr>,
      \<lparr>row_group = ''apps'', row_kind = ''Deployment'', row_gvr = DeploymentGVR, row_follow = False\<rparr>,
      \<lparr>row_group = ''apps'', row_kind = ''StatefulSet'', row_gvr = StatefulSetGVR, row_follow = False\<rparr>,
      \<lparr>row_group = ''apps'', row_kind = ''DaemonSet'', row_gvr = DaemonSetGVR, row_follow = False\<rparr>,
      \<lparr>row_group = ''batch'', row_kind = ''Job'', row_gvr = JobGVR, row_follow = True\<rparr>,
      \<lparr>row_group = ''batch'', row_kind = ''CronJob'', row_gvr = CronJobGVR, row_follow = False\<rparr>]"

definition AllGVRs :: "GVR list" where
  "AllGVRs = map row_gvr ownerKinds @ [NamespaceGVR, NodeGVR]"

definition gvrKind :: "GVR \<Rightarrow> string" where
  "gvrKind gvr =
     (case find (\<lambda>row. row_gvr row = gvr) ownerKinds of
        Some row \<Rightarrow> row_kind row
      | None \<Rightarrow> if gvr = NamespaceGVR then ''Namespace'' else if gvr = NodeGVR then ''Node'' else ''unknown'')"

definition knownKind :: "string \<Rightarrow> string" where
  "knownKind kind = (if \<exists>row \<in> set ownerKinds. row_kind row = kind then kind else ''unknown'')"

subsection \<open>What the resolver is given, and what it keeps\<close>

text \<open>The metadata-only object of a cache.\<close>
record PartialObjectMetadata =
  pm_UID :: uid
  pm_Labels :: strmap
  pm_Annotations :: strmap
  pm_OwnerReferences :: "OwnerReference list"

text \<open>What a lister answers: an object of the expected type, one of another type, or an error.\<close>
datatype lister_result = Got PartialObjectMetadata | WrongType | IsNotFound | ListerError

record world =
  w_listers :: "GVR \<Rightarrow> (string \<Rightarrow> string \<Rightarrow> lister_result) option"
  w_ParseGroupVersion :: "string \<Rightarrow> string option"
  w_now :: instant
  w_since :: int
  w_debug :: bool

definition reasonNotFound :: string where "reasonNotFound = ''not_found''"
definition reasonListerError :: string where "reasonListerError = ''lister_error''"
definition reasonNoInformer :: string where "reasonNoInformer = ''no_informer''"
definition reasonWrongType :: string where "reasonWrongType = ''wrong_type''"
definition reasonBadAPIVersion :: string where "reasonBadAPIVersion = ''bad_api_version''"
definition reasonUIDMismatch :: string where "reasonUIDMismatch = ''uid_mismatch''"
definition reasonOwnersCapped :: string where "reasonOwnersCapped = ''owners_capped''"

lemmas reason_defs = reasonNotFound_def reasonListerError_def reasonNoInformer_def reasonWrongType_def
  reasonBadAPIVersion_def reasonUIDMismatch_def reasonOwnersCapped_def

datatype log_line =
    DedupeFull string
  | ReadFailed string string string string    \<comment> \<open>kind, reason, namespace, name\<close>
  | NotAvailable string string string string
  | ChainTruncated string nat string nat nat  \<comment> \<open>namespace, references, first reference, served, omitted\<close>

text \<open>
  The dedupe tables are absent in a resolver that was not built from listers. The counters are
  those of \<^verbatim>\<open>internal/obs\<close>, by their label values.
\<close>
record Resolver =
  warnDedupe :: "Table option"
  debugDedupe :: "Table option"
  capThrottle :: Throttle
  lines :: "log_line list"
  OwnerResolveFailures :: "(string \<times> string, nat) gomap"
  MetadataAnnotationsOmitted :: "(string, nat) gomap"
  MetadataLabelsOmitted :: "(string, nat) gomap"

definition bump_by :: "'k \<Rightarrow> nat \<Rightarrow> ('k, nat) gomap \<Rightarrow> ('k, nat) gomap" where
  "bump_by k n m = put k ((case get m k of Some c \<Rightarrow> c | None \<Rightarrow> 0) + n) m"

definition resolveWarnEvery :: duration where "resolveWarnEvery = 300000000000"
definition maxResolveWarnKeys :: int where "maxResolveWarnKeys = 512"
definition MaxOwners :: nat where "MaxOwners = 8"
definition ownersCapWarnEvery :: duration where "ownersCapWarnEvery = 300000000000"

definition NewFromListers :: Resolver where
  "NewFromListers =
     \<lparr>warnDedupe = Some (New_Table maxResolveWarnKeys resolveWarnEvery),
      debugDedupe = Some (New_Table maxResolveWarnKeys resolveWarnEvery),
      capThrottle = zero_Throttle, lines = [], OwnerResolveFailures = [],
      MetadataAnnotationsOmitted = [], MetadataLabelsOmitted = []\<rparr>"

subsubsection \<open>The change token\<close>

text \<open>A nil \<^verbatim>\<open>*Changes\<close> is \<open>None\<close>.\<close>
type_synonym Changes = "u64 option"

definition Bump :: "Changes \<Rightarrow> Changes" where
  "Bump c = (case c of None \<Rightarrow> None | Some g \<Rightarrow> Some (g + 1))"

definition Changes_Generation :: "Changes \<Rightarrow> u64" where
  "Changes_Generation c = (case c of None \<Rightarrow> 0 | Some g \<Rightarrow> g)"

subsection \<open>Reporting\<close>

definition reportObj :: "world \<Rightarrow> string \<Rightarrow> string \<Rightarrow> string \<Rightarrow> string \<Rightarrow> Resolver \<Rightarrow> Resolver" where
  "reportObj w kind namespace name reason r =
     (let r = r\<lparr>OwnerResolveFailures := bump_by (kind, reason) 1 (OwnerResolveFailures r)\<rparr>;
          is_warn = (reason = reasonListerError \<or> reason = reasonNoInformer \<or> reason = reasonWrongType) in
      if \<not> is_warn \<and> \<not> w_debug w then r
      else (case (if is_warn then warnDedupe r else debugDedupe r) of
              None \<Rightarrow> r
            | Some table \<Rightarrow>
                (case Table_Allow (kind @ [CHR 0x00] @ reason @ [CHR 0x00] @ namespace @ ''/'' @ name) (w_now w) table of
                   ((allow, full), table') \<Rightarrow>
                     (let r = (if is_warn then r\<lparr>warnDedupe := Some table'\<rparr> else r\<lparr>debugDedupe := Some table'\<rparr>) in
                      if \<not> allow \<and> \<not> full then r
                      else (let r = (if full then r\<lparr>lines := lines r @ [DedupeFull (if is_warn then ''warn'' else ''debug'')]\<rparr> else r) in
                            if \<not> allow then r
                            else if is_warn then r\<lparr>lines := lines r @ [ReadFailed kind reason namespace name]\<rparr>
                            else r\<lparr>lines := lines r @ [NotAvailable kind reason namespace name]\<rparr>)))))"

definition report :: "world \<Rightarrow> GVR \<Rightarrow> string \<Rightarrow> string \<Rightarrow> string \<Rightarrow> Resolver \<Rightarrow> Resolver" where
  "report w gvr namespace name reason r = reportObj w (gvrKind gvr) namespace name reason r"

text \<open>The \<^verbatim>\<open>get\<close> closure of \<^verbatim>\<open>NewFromListers\<close>.\<close>
definition cached :: "world \<Rightarrow> GVR \<Rightarrow> string \<Rightarrow> string \<Rightarrow> Resolver \<Rightarrow> PartialObjectMetadata option \<times> Resolver" where
  "cached w gvr namespace name r =
     (case w_listers w gvr of
        None \<Rightarrow> (None, report w gvr namespace name reasonNoInformer r)
      | Some lister \<Rightarrow>
          (case lister namespace name of
             IsNotFound \<Rightarrow> (None, report w gvr namespace name reasonNotFound r)
           | ListerError \<Rightarrow> (None, report w gvr namespace name reasonListerError r)
           | WrongType \<Rightarrow> (None, report w gvr namespace name reasonWrongType r)
           | Got m \<Rightarrow> (Some m, r)))"

subsection \<open>References\<close>

text \<open>An error, an unwatched kind, or the row.\<close>
definition ownerKind :: "world \<Rightarrow> OwnerReference \<Rightarrow> unit + ownerKindRow option" where
  "ownerKind w ref =
     (case w_ParseGroupVersion w (or_APIVersion ref) of
        None \<Rightarrow> Inl ()
      | Some g \<Rightarrow> Inr (find (\<lambda>row. g = row_group row \<and> or_Kind ref = row_kind row) ownerKinds))"

definition ownerRow :: "world \<Rightarrow> OwnerReference \<Rightarrow> Resolver \<Rightarrow> ownerKindRow option \<times> Resolver" where
  "ownerRow w ref r =
     (case ownerKind w ref of
        Inl _ \<Rightarrow> (None, reportObj w (knownKind (or_Kind ref)) [] (or_Name ref) reasonBadAPIVersion r)
      | Inr k \<Rightarrow> (k, r))"

record servedRef =
  sr_apiVersion :: string
  sr_kind :: string
  sr_name :: string
  sr_uid :: string
  sr_controller :: bool

definition servedRefOf :: "OwnerReference \<Rightarrow> servedRef" where
  "servedRefOf ref =
     \<lparr>sr_apiVersion = or_APIVersion ref, sr_kind = or_Kind ref, sr_name = or_Name ref, sr_uid = or_UID ref,
      sr_controller = (case or_Controller ref of None \<Rightarrow> False | Some c \<Rightarrow> c)\<rparr>"

definition owner :: "servedRef \<Rightarrow> Owner" where
  "owner s =
     \<lparr>own_APIVersion = sr_apiVersion s, own_Kind = sr_kind s, own_Name = sr_name s, own_UID = sr_uid s,
      own_Controller = sr_controller s, own_Labels = [], own_Annotations = []\<rparr>"

text \<open>\<^verbatim>\<open>slices.EqualFunc\<close>: equal lengths, and the function holds at every index.\<close>
definition SameServedRefs :: "OwnerReference list \<Rightarrow> OwnerReference list \<Rightarrow> bool" where
  "SameServedRefs a b \<longleftrightarrow> list_all2 (\<lambda>x y. servedRefOf x = servedRefOf y) a b"

subsection \<open>The walk\<close>

record kindCount =
  kc_kind :: string
  kc_n :: nat

fun tally :: "kindCount list \<Rightarrow> string \<Rightarrow> kindCount list" where
  "tally [] kind = [\<lparr>kc_kind = kind, kc_n = 1\<rparr>]"
| "tally (c # cs) kind = (if kc_kind c = kind then c\<lparr>kc_n := kc_n c + 1\<rparr> # cs else c # tally cs kind)"

definition countAnnotationsOmitted :: "string \<Rightarrow> strmap \<Rightarrow> Resolver \<Rightarrow> Resolver" where
  "countAnnotationsOmitted kind annotations r =
     (if AnnotationsOmitted annotations
      then r\<lparr>MetadataAnnotationsOmitted := bump_by kind 1 (MetadataAnnotationsOmitted r)\<rparr> else r)"

text \<open>The variables the closure \<^verbatim>\<open>add\<close> captures; \<^verbatim>\<open>seen\<close> is the set of the listed UIDs.\<close>
record walk =
  out :: "Owner list"
  seen_uids :: "string list"
  omitted :: nat
  capped :: "kindCount list"
  res :: Resolver

text \<open>
  The body of \<^verbatim>\<open>add\<close>, with what it does with the parents of a followed owner as an argument: for
  one of the pod's own references the parents are added too, for a parent nothing more is.
\<close>
definition add_ref :: "world \<Rightarrow> string \<Rightarrow> (PartialObjectMetadata \<Rightarrow> walk \<Rightarrow> walk) \<Rightarrow> OwnerReference \<Rightarrow> walk \<Rightarrow> walk" where
  "add_ref w namespace parents ref a =
     (if or_UID ref \<in> set (seen_uids a) then a
      else if length (out a) \<ge> MaxOwners
      then a\<lparr>capped := tally (capped a) (knownKind (or_Kind ref)), omitted := omitted a + 1\<rparr>
      else (let a = a\<lparr>seen_uids := or_UID ref # seen_uids a\<rparr>; o' = owner (servedRefOf ref) in
        case ownerRow w ref (res a) of
          (None, r) \<Rightarrow> a\<lparr>out := out a @ [o'], res := r\<rparr>
        | (Some row, r) \<Rightarrow>
            (case cached w (row_gvr row) namespace (or_Name ref) r of
               (None, r) \<Rightarrow> a\<lparr>out := out a @ [o'], res := r\<rparr>
             | (Some m, r) \<Rightarrow>
                 if or_UID ref \<noteq> [] \<and> or_UID ref \<noteq> pm_UID m
                 then a\<lparr>out := out a @ [o'], res := report w (row_gvr row) namespace (or_Name ref) reasonUIDMismatch r\<rparr>
                 else (case CopyOwnerMeta (pm_Labels m) (pm_Annotations m) of
                         (labels, annotations) \<Rightarrow>
                           (let kind = gvrKind (row_gvr row);
                                r = countAnnotationsOmitted kind annotations r;
                                r = (if LabelsOmitted annotations
                                     then r\<lparr>MetadataLabelsOmitted := bump_by kind 1 (MetadataLabelsOmitted r)\<rparr> else r);
                                a = a\<lparr>out := out a @ [o'\<lparr>own_Labels := labels, own_Annotations := annotations\<rparr>], res := r\<rparr>
                            in if row_follow row then parents m a else a)))))"

definition add_parent :: "world \<Rightarrow> string \<Rightarrow> OwnerReference \<Rightarrow> walk \<Rightarrow> walk" where
  "add_parent w namespace = add_ref w namespace (\<lambda>m a. a)"

definition add_top :: "world \<Rightarrow> string \<Rightarrow> OwnerReference \<Rightarrow> walk \<Rightarrow> walk" where
  "add_top w namespace = add_ref w namespace (\<lambda>m. fold (add_parent w namespace) (pm_OwnerReferences m))"

definition reportOwnersCapped :: "world \<Rightarrow> string \<Rightarrow> OwnerReference list \<Rightarrow> nat \<Rightarrow> nat \<Rightarrow> Resolver \<Rightarrow> Resolver" where
  "reportOwnersCapped w namespace refs served omit r =
     (case Throttle_Allow (w_since w) ownersCapWarnEvery (capThrottle r) of
        (allow, t) \<Rightarrow>
          (let r = r\<lparr>capThrottle := t\<rparr> in
           if \<not> allow then r
           else r\<lparr>lines := lines r @ [ChainTruncated namespace (length refs)
                    (knownKind (or_Kind (hd refs)) @ ''/'' @ or_Name (hd refs)) served omit]\<rparr>))"

definition start_walk :: "Resolver \<Rightarrow> walk" where
  "start_walk r = \<lparr>out = [], seen_uids = [], omitted = 0, capped = [], res = r\<rparr>"

definition count_capped :: "kindCount list \<Rightarrow> Resolver \<Rightarrow> Resolver" where
  "count_capped cs r =
     fold (\<lambda>c r. r\<lparr>OwnerResolveFailures := bump_by (kc_kind c, reasonOwnersCapped) (kc_n c) (OwnerResolveFailures r)\<rparr>) cs r"

definition Resolve :: "world \<Rightarrow> string \<Rightarrow> OwnerReference list \<Rightarrow> Resolver \<Rightarrow> (Owner list \<times> nat) \<times> Resolver" where
  "Resolve w namespace refs r =
     (if refs = [] then (([], 0), r)
      else (let a = fold (add_top w namespace) refs (start_walk r);
                r = count_capped (capped a) (res a);
                r = (if omitted a > 0 then reportOwnersCapped w namespace refs (length (out a)) (omitted a) r else r)
            in ((out a, omitted a), r)))"

definition clusterScoped :: "world \<Rightarrow> GVR \<Rightarrow> string \<Rightarrow> Resolver \<Rightarrow> ObjectMeta option \<times> Resolver" where
  "clusterScoped w gvr name r =
     (case cached w gvr [] name r of
        (None, r) \<Rightarrow> (None, r)
      | (Some m, r) \<Rightarrow>
          (case CopyMeta (pm_Labels m) (pm_Annotations m) of
             (labels, annotations) \<Rightarrow>
               (Some \<lparr>om_UID = pm_UID m, om_Labels = labels, om_Annotations = annotations\<rparr>,
                countAnnotationsOmitted (gvrKind gvr) annotations r)))"

definition Namespace :: "world \<Rightarrow> string \<Rightarrow> Resolver \<Rightarrow> ObjectMeta option \<times> Resolver" where
  "Namespace w name r = clusterScoped w NamespaceGVR name r"

definition Node :: "world \<Rightarrow> string \<Rightarrow> Resolver \<Rightarrow> ObjectMeta option \<times> Resolver" where
  "Node w name r = clusterScoped w NodeGVR name r"

subsection \<open>The shape of a chain\<close>

text \<open>What one reference may contribute: its scalar fields, with the metadata of a cached object of its UID or without.\<close>
definition served_as :: "world \<Rightarrow> string \<Rightarrow> OwnerReference \<Rightarrow> Owner \<Rightarrow> bool" where
  "served_as w namespace ref o' \<longleftrightarrow> o' = owner (servedRefOf ref) \<or>
     (\<exists>row lister m labels annotations. row \<in> set ownerKinds \<and> row_kind row = or_Kind ref \<and>
        w_ParseGroupVersion w (or_APIVersion ref) = Some (row_group row) \<and>
        w_listers w (row_gvr row) = Some lister \<and> lister namespace (or_Name ref) = Got m \<and>
        (or_UID ref = [] \<or> or_UID ref = pm_UID m) \<and> CopyOwnerMeta (pm_Labels m) (pm_Annotations m) = (labels, annotations) \<and>
        o' = (owner (servedRefOf ref))\<lparr>own_Labels := labels, own_Annotations := annotations\<rparr>)"

text \<open>The label values the failure counter may carry.\<close>
definition metricKinds :: "string list" where
  "metricKinds = map row_kind ownerKinds @ [''Namespace'', ''Node'', ''unknown'']"

definition readReasons :: "string list" where
  "readReasons = [reasonNotFound, reasonListerError, reasonNoInformer, reasonWrongType, reasonBadAPIVersion, reasonUIDMismatch]"

definition metricReasons :: "string list" where
  "metricReasons = readReasons @ [reasonOwnersCapped]"

definition labels_ok :: "Resolver \<Rightarrow> bool" where
  "labels_ok r \<longleftrightarrow> fst ` set (OwnerResolveFailures r) \<subseteq> set metricKinds \<times> set metricReasons"

lemma gvrKind_known: "gvrKind gvr \<in> set metricKinds"
proof (cases "find (\<lambda>row. row_gvr row = gvr) ownerKinds")
  case (Some row)
  then have "row \<in> set ownerKinds" by (auto simp: find_Some_iff)
  with Some show ?thesis by (simp add: gvrKind_def metricKinds_def)
qed (simp add: gvrKind_def metricKinds_def)

lemma knownKind_known: "knownKind kind \<in> set metricKinds"
  by (auto simp: knownKind_def metricKinds_def)

lemma bump_by_keys: "fst ` set (bump_by k n m) = insert k (fst ` set m)"
  by (simp add: bump_by_def dom_update)

lemma reportObj_failures: "OwnerResolveFailures (reportObj w kind ns name reason r) = bump_by (kind, reason) 1 (OwnerResolveFailures r)"
proof -
  define counted where "counted = r\<lparr>OwnerResolveFailures := bump_by (kind, reason) 1 (OwnerResolveFailures r)\<rparr>"
  define is_warn where "is_warn \<longleftrightarrow> reason = reasonListerError \<or> reason = reasonNoInformer \<or> reason = reasonWrongType"
  define table where "table = (if is_warn then warnDedupe counted else debugDedupe counted)"
  note def = reportObj_def [of w kind ns name reason r, unfolded Let_def, folded counted_def is_warn_def, folded table_def]
  have "OwnerResolveFailures (reportObj w kind ns name reason r) = OwnerResolveFailures counted"
  proof (cases table)
    case None
    then show ?thesis unfolding def by simp
  next
    case (Some t)
    obtain allow full t' where "Table_Allow (kind @ [CHR 0x00] @ reason @ [CHR 0x00] @ ns @ ''/'' @ name) (w_now w) t = ((allow, full), t')"
      by (metis prod.exhaust)
    then show ?thesis unfolding def Some by (cases is_warn; cases allow; cases full) simp_all
  qed
  then show ?thesis by (simp add: counted_def)
qed

text \<open>How many references the counter says were refused.\<close>
definition capped_total :: "Resolver \<Rightarrow> nat" where
  "capped_total r = sum_list (map snd (filter (\<lambda>p. snd (fst p) = reasonOwnersCapped) (OwnerResolveFailures r)))"

lemma bump_by_sum:
  "sum_list (map snd (filter (\<lambda>p. Q (fst p)) (bump_by k n m))) =
     (if Q k then n else 0) + sum_list (map snd (filter (\<lambda>p. Q (fst p)) m))"
  unfolding bump_by_def by (induction m) auto

text \<open>A step of the resolver that reports nothing but failed reads.\<close>
definition plain_step :: "Resolver \<Rightarrow> Resolver \<Rightarrow> bool" where
  "plain_step r r' \<longleftrightarrow> (labels_ok r \<longrightarrow> labels_ok r') \<and> capped_total r' = capped_total r"

lemma plain_refl [simp]: "plain_step r r"
  by (simp add: plain_step_def)

lemma plain_trans: "plain_step r1 r2 \<Longrightarrow> plain_step r2 r3 \<Longrightarrow> plain_step r1 r3"
  by (simp add: plain_step_def)

lemma plain_same: "OwnerResolveFailures r' = OwnerResolveFailures r \<Longrightarrow> plain_step r r'"
  by (simp add: plain_step_def labels_ok_def capped_total_def)

lemma readReasons_plain: "reason \<in> set readReasons \<Longrightarrow> reason \<noteq> reasonOwnersCapped \<and> reason \<in> set metricReasons"
  by (auto simp: metricReasons_def readReasons_def reason_defs)

lemma reportObj_plain:
  "kind \<in> set metricKinds \<Longrightarrow> reason \<in> set readReasons \<Longrightarrow>
     plain_step r (reportObj w kind ns name reason r)"
  by (simp add: plain_step_def labels_ok_def capped_total_def reportObj_failures bump_by_keys
      readReasons_plain bump_by_sum [where Q = "\<lambda>k. snd k = reasonOwnersCapped"])

lemma report_plain: "reason \<in> set readReasons \<Longrightarrow> plain_step r (report w gvr ns name reason r)"
  unfolding report_def by (rule reportObj_plain [OF gvrKind_known])

lemma ownerRow_plain: "plain_step r (snd (ownerRow w ref r))"
  by (auto simp: ownerRow_def readReasons_def intro!: reportObj_plain knownKind_known split: sum.splits)

lemma ownerRow_Some: "ownerRow w ref r = (Some row, r') \<Longrightarrow>
    row \<in> set ownerKinds \<and> row_kind row = or_Kind ref \<and> w_ParseGroupVersion w (or_APIVersion ref) = Some (row_group row)"
  by (auto simp: ownerRow_def ownerKind_def find_Some_iff split: sum.splits option.splits)

lemma cached_plain: "plain_step r (snd (cached w gvr ns name r))"
  by (auto simp: cached_def readReasons_def intro!: report_plain split: option.splits lister_result.splits)

lemma cached_Some: "cached w gvr ns name r = (Some m, r') \<Longrightarrow> \<exists>lister. w_listers w gvr = Some lister \<and> lister ns name = Got m"
  by (auto simp: cached_def split: option.splits lister_result.splits)

lemma countAnnotationsOmitted_plain: "plain_step r (countAnnotationsOmitted kind annotations r)"
  by (rule plain_same) (simp add: countAnnotationsOmitted_def)

text \<open>What one call of \<^verbatim>\<open>add\<close> does.\<close>
lemma add_ref_cases:
  obtains (known) "or_UID ref \<in> set (seen_uids a)" "add_ref w ns P ref a = a"
  | (refused) "or_UID ref \<notin> set (seen_uids a)" "MaxOwners \<le> length (out a)"
      "add_ref w ns P ref a = a\<lparr>capped := tally (capped a) (knownKind (or_Kind ref)), omitted := omitted a + 1\<rparr>"
  | (served) o' r Q where "or_UID ref \<notin> set (seen_uids a)" "length (out a) < MaxOwners" "served_as w ns ref o'"
      "plain_step (res a) r" "Q = (\<lambda>a. a) \<or> (\<exists>m. Q = P m)"
      "add_ref w ns P ref a = Q (a\<lparr>seen_uids := or_UID ref # seen_uids a, out := out a @ [o'], res := r\<rparr>)"
proof -
  consider "or_UID ref \<in> set (seen_uids a)" | "or_UID ref \<notin> set (seen_uids a)" "MaxOwners \<le> length (out a)"
    | "or_UID ref \<notin> set (seen_uids a)" "length (out a) < MaxOwners" by fastforce
  then show thesis
  proof cases
    case 1
    then show thesis using known by (simp add: add_ref_def)
  next
    case 2
    then show thesis using refused by (simp add: add_ref_def)
  next
    case 3
    obtain k r1 where row: "ownerRow w ref (res a) = (k, r1)" by fastforce
    have ok1: "plain_step (res a) r1" using ownerRow_plain [of "res a" w ref] row by simp
    note A = add_ref_def [of w ns P ref a, unfolded Let_def]
    have plain: "served_as w ns ref (owner (servedRefOf ref))" by (simp add: served_as_def)
    show thesis
    proof (cases k)
      case None
      show thesis by (rule served [OF 3 plain ok1, of "\<lambda>a. a"]) (use 3 row None in \<open>simp_all add: A\<close>)
    next
      case k: (Some row')
      obtain mo r2 where c: "cached w (row_gvr row') ns (or_Name ref) r1 = (mo, r2)" by fastforce
      have ok2: "plain_step (res a) r2"
        using plain_trans [OF ok1 cached_plain [of r1 w "row_gvr row'" ns "or_Name ref"]] c by simp
      show thesis
      proof (cases mo)
        case None
        show thesis by (rule served [OF 3 plain ok2, of "\<lambda>a. a"]) (use 3 row k c None in \<open>simp_all add: A\<close>)
      next
        case (Some m)
        show thesis
        proof (cases "or_UID ref \<noteq> [] \<and> or_UID ref \<noteq> pm_UID m")
          case True
          have "plain_step (res a) (report w (row_gvr row') ns (or_Name ref) reasonUIDMismatch r2)"
            by (rule plain_trans [OF ok2 report_plain]) (simp add: readReasons_def)
          then show thesis
            by (rule served [OF 3 plain, of _ "\<lambda>a. a"]) (use 3 row k c Some True in \<open>simp_all add: A\<close>)
        next
          case False
          obtain labels annotations where cp: "CopyOwnerMeta (pm_Labels m) (pm_Annotations m) = (labels, annotations)" by fastforce
          let ?o = "(owner (servedRefOf ref))\<lparr>own_Labels := labels, own_Annotations := annotations\<rparr>"
          let ?r = "countAnnotationsOmitted (gvrKind (row_gvr row')) annotations r2"
          let ?r' = "if LabelsOmitted annotations
            then ?r\<lparr>MetadataLabelsOmitted := bump_by (gvrKind (row_gvr row')) 1 (MetadataLabelsOmitted ?r)\<rparr> else ?r"
          have sv: "served_as w ns ref ?o"
            using cached_Some [OF c [unfolded Some]] ownerRow_Some [OF row [unfolded k]] False cp unfolding served_as_def by blast
          have ok3: "plain_step (res a) ?r'"
            by (rule plain_trans [OF plain_trans [OF ok2 countAnnotationsOmitted_plain] plain_same]) simp
          show thesis
            by (rule served [OF 3 sv ok3, of "if row_follow row' then P m else (\<lambda>a. a)"])
              (use 3 row k c Some False cp in \<open>auto simp: A\<close>)
        qed
      qed
    qed
  qed
qed

text \<open>An invariant of the walk: kept by a refusal and by serving one more reference.\<close>
lemma walk_invariant:
  fixes I :: "walk \<Rightarrow> bool"
  assumes refuse: "\<And>(a :: walk) (ref :: OwnerReference). I a \<Longrightarrow> or_UID ref \<notin> set (seen_uids a) \<Longrightarrow> MaxOwners \<le> length (out a) \<Longrightarrow>
      I (a\<lparr>capped := tally (capped a) (knownKind (or_Kind ref)), omitted := omitted a + 1\<rparr>)"
    and serve: "\<And>(a :: walk) (ref :: OwnerReference) o' r. I a \<Longrightarrow> or_UID ref \<notin> set (seen_uids a) \<Longrightarrow> length (out a) < MaxOwners \<Longrightarrow> served_as w ns ref o' \<Longrightarrow>
      plain_step (res a) r \<Longrightarrow> I (a\<lparr>seen_uids := or_UID ref # seen_uids a, out := out a @ [o'], res := r\<rparr>)"
  shows "I a \<Longrightarrow> I (add_top w ns ref a)" "I a \<Longrightarrow> I (fold (add_top w ns) refs a)"
proof -
  have step: "I (add_ref w ns P ref a)" if "I a" "\<And>m a. I a \<Longrightarrow> I (P m a)" for P ref a
  proof (cases rule: add_ref_cases [where ref = ref and a = a and w = w and ns = ns and P = P])
    case (served o' r Q)
    from serve [OF that(1) served(1-4)] served(5,6) that(2) show ?thesis by auto
  next
    case refused
    from refuse [OF that(1) refused(1,2)] show ?thesis unfolding refused(3) .
  next
    case known
    then show ?thesis using that(1) by simp
  qed
  have parents: "I (fold (add_parent w ns) rs a)" if "I a" for rs a
    using that
  proof (induction rs arbitrary: a)
    case (Cons x rs)
    have "I (add_parent w ns x a)" unfolding add_parent_def by (rule step) (simp_all add: Cons.prems)
    then show ?case using Cons.IH by simp
  qed simp
  show top: "I (add_top w ns ref a)" if "I a" for ref a
    unfolding add_top_def by (rule step [OF that parents])
  show "I (fold (add_top w ns) refs a)" if "I a"
    using that by (induction refs arbitrary: a) (auto intro: top)
qed

definition walk_ok :: "walk \<Rightarrow> bool" where
  "walk_ok a \<longleftrightarrow> length (out a) \<le> MaxOwners \<and> map own_UID (out a) = rev (seen_uids a) \<and> distinct (seen_uids a) \<and>
     (omitted a > 0 \<longrightarrow> length (out a) = MaxOwners) \<and> sum_list (map kc_n (capped a)) = omitted a"

lemma served_UID: "served_as w ns ref o' \<Longrightarrow> own_UID o' = or_UID ref"
  by (auto simp: served_as_def owner_def servedRefOf_def)

lemma tally_sum: "sum_list (map kc_n (tally cs k)) = Suc (sum_list (map kc_n cs))"
  by (induction cs) auto

lemma walk_ok_fold: "walk_ok a \<Longrightarrow> walk_ok (fold (add_top w ns) refs a)" "walk_ok a \<Longrightarrow> walk_ok (add_top w ns ref a)"
  by (rule walk_invariant [where I = walk_ok]; (auto simp: walk_ok_def tally_sum served_UID))+

lemma start_ok: "walk_ok (start_walk r)"
  by (simp add: walk_ok_def start_walk_def)

lemma walk_grows: "set (seen_uids a) \<subseteq> set (seen_uids (fold (add_top w ns) refs a)) \<and> omitted a \<le> omitted (fold (add_top w ns) refs a)"
  by (rule walk_invariant(2) [where I = "\<lambda>b. set (seen_uids a) \<subseteq> set (seen_uids b) \<and> omitted a \<le> omitted b"]) auto

lemma add_top_counts:
  "or_UID ref \<in> set (seen_uids (add_top w ns ref a)) \<or> omitted a < omitted (add_top w ns ref a)"
proof (cases rule: add_ref_cases [where ref = ref and a = a and w = w and ns = ns and P = "\<lambda>m. fold (add_parent w ns) (pm_OwnerReferences m)"])
  case (served o' r Q)
  let ?a = "a\<lparr>seen_uids := or_UID ref # seen_uids a, out := out a @ [o'], res := r\<rparr>"
  have keep: "or_UID ref \<in> set (seen_uids (fold (add_parent w ns) rs b))" if "or_UID ref \<in> set (seen_uids b)" for rs b
    using that
  proof (induction rs arbitrary: b)
    case (Cons x rs)
    have "or_UID ref \<in> set (seen_uids (add_parent w ns x b))"
      using Cons.prems unfolding add_parent_def
      by (cases rule: add_ref_cases [where ref = x and a = b and w = w and ns = ns and P = "\<lambda>m a. a"]) auto
    with Cons.IH show ?case by simp
  qed simp
  have "or_UID ref \<in> set (seen_uids (Q ?a))" using served(5) keep by auto
  then show ?thesis by (simp add: add_top_def served(6))
qed (simp_all add: add_top_def)

lemma unserved_counted:
  "length (filter (\<lambda>ref. or_UID ref \<notin> set (seen_uids (fold (add_top w ns) refs a))) refs) + omitted a
     \<le> omitted (fold (add_top w ns) refs a)"
proof (induction refs arbitrary: a)
  case (Cons ref refs)
  let ?b = "add_top w ns ref a"
  have "or_UID ref \<in> set (seen_uids (fold (add_top w ns) refs ?b)) \<or> omitted a < omitted ?b"
    using add_top_counts [of ref w ns a] walk_grows [of ?b w ns refs] by blast
  moreover have "omitted a \<le> omitted ?b" using walk_grows [of a w ns "[ref]"] by simp
  ultimately show ?case using Cons.IH [of ?b] by auto
qed simp

lemma walk_UIDs: "walk_ok a \<Longrightarrow> own_UID ` set (out a) = set (seen_uids a)"
  by (metis list.set_map set_rev walk_ok_def)

lemma Resolve_eq: "fst (Resolve w ns refs r) =
    (out (fold (add_top w ns) refs (start_walk r)), omitted (fold (add_top w ns) refs (start_walk r)))"
  by (simp add: Resolve_def Let_def start_walk_def)

text \<open>
  C30. The served owner chain is bounded and complete as far as it says: at most eight owners, each
  UID once; every one of the pod's own references is in the chain or counted as omitted; and a chain
  is only ever short when it is full.
\<close>
theorem Resolve_chain:
  assumes "Resolve w ns refs r = ((chain, omit), r')"
  shows "length chain \<le> MaxOwners \<and> distinct (map own_UID chain) \<and>
    length (filter (\<lambda>ref. or_UID ref \<notin> own_UID ` set chain) refs) \<le> omit \<and>
    (omit > 0 \<longrightarrow> length chain = MaxOwners)"
proof -
  let ?a = "fold (add_top w ns) refs (start_walk r)"
  have ok: "walk_ok ?a" by (rule walk_ok_fold [OF start_ok])
  have e: "chain = out ?a" "omit = omitted ?a" using assms Resolve_eq [of w ns refs r] by simp_all
  have "omitted (start_walk r) = 0" by (simp add: start_walk_def)
  then show ?thesis
    using ok unserved_counted [where w = w and ns = ns and refs = refs and a = "start_walk r"]
    unfolding e walk_UIDs [OF ok] by (auto simp: walk_ok_def)
qed

subsection \<open>Where the metadata comes from\<close>

lemma walk_served:
  assumes "o' \<in> set (out (fold (add_top w ns) refs (start_walk r)))"
  shows "\<exists>ref. served_as w ns ref o'"
proof -
  have "\<forall>o' \<in> set (out (fold (add_top w ns) refs (start_walk r))). \<exists>ref. served_as w ns ref o'"
    by (rule walk_invariant(2) [where I = "\<lambda>b. \<forall>o' \<in> set (out b). \<exists>ref. served_as w ns ref o'"])
      (auto simp: start_walk_def)
  with assms show ?thesis by blast
qed

text \<open>
  C32. An owner is served with labels and annotations only when a cached object of its own kind,
  namespace, name and UID has them; the reference of a recreated owner, of an unknown kind or of an
  absent object is served bare. A reference without a UID takes the object found by name.
\<close>
theorem Resolve_metadata:
  assumes "Resolve w ns refs r = ((chain, omit), r')" "o' \<in> set chain"
  shows "own_Labels o' = [] \<and> own_Annotations o' = [] \<or>
    (\<exists>row lister m. row \<in> set ownerKinds \<and> row_kind row = own_Kind o' \<and>
       w_ParseGroupVersion w (own_APIVersion o') = Some (row_group row) \<and>
       w_listers w (row_gvr row) = Some lister \<and> lister ns (own_Name o') = Got m \<and>
       (own_UID o' = [] \<or> own_UID o' = pm_UID m) \<and>
       CopyOwnerMeta (pm_Labels m) (pm_Annotations m) = (own_Labels o', own_Annotations o'))"
proof -
  have "o' \<in> set (out (fold (add_top w ns) refs (start_walk r)))"
    using assms Resolve_eq [of w ns refs r] by simp
  then obtain ref where "served_as w ns ref o'"
    using walk_served by blast
  then show ?thesis unfolding served_as_def
  proof
    assume "o' = owner (servedRefOf ref)"
    then show ?thesis by (simp add: owner_def)
  next
    assume "\<exists>row lister m labels annotations. row \<in> set ownerKinds \<and> row_kind row = or_Kind ref \<and>
        w_ParseGroupVersion w (or_APIVersion ref) = Some (row_group row) \<and>
        w_listers w (row_gvr row) = Some lister \<and> lister ns (or_Name ref) = Got m \<and>
        (or_UID ref = [] \<or> or_UID ref = pm_UID m) \<and> CopyOwnerMeta (pm_Labels m) (pm_Annotations m) = (labels, annotations) \<and>
        o' = (owner (servedRefOf ref))\<lparr>own_Labels := labels, own_Annotations := annotations\<rparr>"
    then show ?thesis by (intro disjI2) (auto simp: owner_def servedRefOf_def)
  qed
qed

subsection \<open>The counter\<close>

lemma count_capped_Cons: "count_capped (c # cs) r = count_capped cs
    (r\<lparr>OwnerResolveFailures := bump_by (kc_kind c, reasonOwnersCapped) (kc_n c) (OwnerResolveFailures r)\<rparr>)"
  by (simp add: count_capped_def)

lemma count_capped_keys:
  "fst ` set (OwnerResolveFailures (count_capped cs r)) =
     fst ` set (OwnerResolveFailures r) \<union> (\<lambda>c. (kc_kind c, reasonOwnersCapped)) ` set cs"
proof (induction cs arbitrary: r)
  case (Cons c cs)
  show ?case unfolding count_capped_Cons Cons.IH by (simp add: bump_by_keys)
qed (simp add: count_capped_def)

lemma count_capped_total: "capped_total (count_capped cs r) = capped_total r + sum_list (map kc_n cs)"
proof (induction cs arbitrary: r)
  case (Cons c cs)
  show ?case unfolding count_capped_Cons Cons.IH
    by (simp add: capped_total_def bump_by_sum [where Q = "\<lambda>k. snd k = reasonOwnersCapped"])
qed (simp add: count_capped_def)

lemma tally_kinds: "kc_kind ` set (tally cs k) = insert k (kc_kind ` set cs)"
  by (induction cs) auto

lemma reportOwnersCapped_failures: "OwnerResolveFailures (reportOwnersCapped w ns refs n m r) = OwnerResolveFailures r"
  by (simp add: reportOwnersCapped_def Let_def split: prod.splits)

lemma Resolve_failures: "OwnerResolveFailures (snd (Resolve w ns refs r)) =
    OwnerResolveFailures (count_capped (capped (fold (add_top w ns) refs (start_walk r))) (res (fold (add_top w ns) refs (start_walk r))))"
  by (simp add: Resolve_def Let_def reportOwnersCapped_failures start_walk_def count_capped_def)

lemma walk_counts:
  "labels_ok (res a) \<longrightarrow> labels_ok (res (fold (add_top w ns) refs a))"
  "capped_total (res (fold (add_top w ns) refs a)) = capped_total (res a)"
  "kc_kind ` set (capped a) \<subseteq> set metricKinds \<Longrightarrow> kc_kind ` set (capped (fold (add_top w ns) refs a)) \<subseteq> set metricKinds"
proof -
  have "plain_step (res a) (res (fold (add_top w ns) refs a))"
    by (rule walk_invariant(2) [where I = "\<lambda>b. plain_step (res a) (res b)"]) (auto intro: plain_trans)
  then show "labels_ok (res a) \<longrightarrow> labels_ok (res (fold (add_top w ns) refs a))"
    "capped_total (res (fold (add_top w ns) refs a)) = capped_total (res a)"
    by (simp_all add: plain_step_def)
  show "kc_kind ` set (capped (fold (add_top w ns) refs a)) \<subseteq> set metricKinds"
    if "kc_kind ` set (capped a) \<subseteq> set metricKinds"
    by (rule walk_invariant(2) [where I = "\<lambda>b. kc_kind ` set (capped b) \<subseteq> set metricKinds"])
      (use that in \<open>auto simp: tally_kinds knownKind_known simp del: image_subset_iff\<close>)
qed

lemma Resolve_labels_ok: "labels_ok r \<Longrightarrow> labels_ok (snd (Resolve w ns refs r))"
proof -
  assume ok: "labels_ok r"
  let ?a = "fold (add_top w ns) refs (start_walk r)"
  have "labels_ok (res ?a)" using walk_counts(1) [of "start_walk r" w ns refs] ok by (simp add: start_walk_def)
  moreover have "kc_kind ` set (capped ?a) \<subseteq> set metricKinds"
    by (rule walk_counts(3)) (simp add: start_walk_def)
  moreover have "reasonOwnersCapped \<in> set metricReasons" by (simp add: metricReasons_def)
  ultimately show ?thesis
    unfolding labels_ok_def Resolve_failures count_capped_keys by blast
qed

lemma clusterScoped_labels_ok: "labels_ok r \<Longrightarrow> labels_ok (snd (clusterScoped w gvr name r))"
  using cached_plain [of r w gvr "[]" name] plain_step_def countAnnotationsOmitted_plain
  by (auto simp: clusterScoped_def split: prod.splits option.splits)

text \<open>The resolver's exported operations, one after another.\<close>
datatype call = Call_Resolve world string "OwnerReference list" | Call_Namespace world string | Call_Node world string

fun run_call :: "call \<Rightarrow> Resolver \<Rightarrow> Resolver" where
  "run_call (Call_Resolve w ns refs) r = snd (Resolve w ns refs r)"
| "run_call (Call_Namespace w name) r = snd (Namespace w name r)"
| "run_call (Call_Node w name) r = snd (Node w name r)"

text \<open>
  The cardinality of the failure counter is a property of the program and not of the cluster:
  whatever kinds, names and API versions the references name, its label values are the watched kinds
  or ``unknown'' and the seven reasons.
\<close>
theorem Resolver_metric_labels:
  "fst ` set (OwnerResolveFailures (fold run_call calls NewFromListers)) \<subseteq> set metricKinds \<times> set metricReasons"
proof -
  have "labels_ok (run_call c r)" if "labels_ok r" for c r
    using that by (cases c) (simp_all add: Resolve_labels_ok clusterScoped_labels_ok Namespace_def Node_def)
  then have "labels_ok r \<Longrightarrow> labels_ok (fold run_call calls r)" for r
    by (induction calls arbitrary: r) simp_all
  moreover have "labels_ok NewFromListers" by (simp add: labels_ok_def NewFromListers_def)
  ultimately show ?thesis by (simp add: labels_ok_def)
qed

text \<open>
  A truncated chain is accounted for: resolving adds to the \<^verbatim>\<open>owners_capped\<close> series, over all kinds,
  exactly the number of references it reports as omitted.
\<close>
theorem Resolve_omitted_counted:
  "capped_total (snd (Resolve w ns refs r)) = capped_total r + snd (fst (Resolve w ns refs r))"
proof -
  let ?a = "fold (add_top w ns) refs (start_walk r)"
  have "capped_total (snd (Resolve w ns refs r)) = capped_total (count_capped (capped ?a) (res ?a))"
    by (simp add: capped_total_def Resolve_failures)
  also have "\<dots> = capped_total r + omitted ?a"
    using walk_ok_fold(1) [OF start_ok [of r], where w = w and ns = ns and refs = refs]
    by (simp add: count_capped_total walk_counts(2) walk_ok_def) (simp add: start_walk_def)
  finally show ?thesis by (simp add: Resolve_eq)
qed

subsection \<open>What an answer depends on\<close>

definition same_object :: "PartialObjectMetadata \<Rightarrow> PartialObjectMetadata \<Rightarrow> bool" where
  "same_object m m' \<longleftrightarrow> pm_UID m = pm_UID m' \<and> pm_Labels m = pm_Labels m' \<and> pm_Annotations m = pm_Annotations m' \<and>
     SameServedRefs (pm_OwnerReferences m) (pm_OwnerReferences m')"

definition cached_object :: "world \<Rightarrow> GVR \<Rightarrow> string \<Rightarrow> string \<Rightarrow> PartialObjectMetadata option" where
  "cached_object w gvr namespace name =
     (case w_listers w gvr of None \<Rightarrow> None
      | Some lister \<Rightarrow> (case lister namespace name of Got m \<Rightarrow> Some m | _ \<Rightarrow> None))"

text \<open>Caches whose objects are the same as far as the handler of an owner's change compares them.\<close>
definition same_caches :: "world \<Rightarrow> world \<Rightarrow> bool" where
  "same_caches w w' \<longleftrightarrow> w_ParseGroupVersion w = w_ParseGroupVersion w' \<and>
     (\<forall>gvr \<in> row_gvr ` set ownerKinds. \<forall>namespace name.
        rel_option same_object (cached_object w gvr namespace name) (cached_object w' gvr namespace name))"

definition same_walk :: "walk \<Rightarrow> walk \<Rightarrow> bool" where
  "same_walk a b \<longleftrightarrow> out a = out b \<and> seen_uids a = seen_uids b \<and> omitted a = omitted b"

lemma cached_fst: "fst (cached w gvr ns name r) = cached_object w gvr ns name"
  by (simp add: cached_def cached_object_def split: option.splits lister_result.splits)

lemma ownerRow_fst:
  assumes "servedRefOf ref = servedRefOf ref'" "w_ParseGroupVersion w = w_ParseGroupVersion w'"
  shows "fst (ownerRow w ref r) = fst (ownerRow w' ref' r')"
  using assms by (simp add: ownerRow_def ownerKind_def servedRefOf_def split: sum.splits option.splits)

lemma add_ref_same:
  assumes w: "same_caches w w'" and ref: "servedRefOf ref = servedRefOf ref'" and ab: "same_walk a b"
    and P: "\<And>m m' a b. same_object m m' \<Longrightarrow> same_walk a b \<Longrightarrow> same_walk (P m a) (P' m' b)"
  shows "same_walk (add_ref w ns P ref a) (add_ref w' ns P' ref' b)"
proof -
  have f: "or_UID ref = or_UID ref'" "or_Name ref = or_Name ref'" using ref by (simp_all add: servedRefOf_def)
  have e: "out a = out b" "seen_uids a = seen_uids b" "omitted a = omitted b" using ab by (simp_all add: same_walk_def)
  consider "or_UID ref \<in> set (seen_uids b) \<or> MaxOwners \<le> length (out b)"
    | "or_UID ref \<notin> set (seen_uids b)" "length (out b) < MaxOwners" by fastforce
  then show ?thesis
  proof cases
    case 1
    then show ?thesis using e f by (auto simp: add_ref_def same_walk_def)
  next
    case 2
    obtain k r1 where row: "ownerRow w ref (res a) = (k, r1)" by fastforce
    obtain r1' where row': "ownerRow w' ref' (res b) = (k, r1')"
      using ownerRow_fst [OF ref, of w w' "res a" "res b"] w row
      by (cases "ownerRow w' ref' (res b)") (simp add: same_caches_def)
    note A = add_ref_def [of w ns P ref a, unfolded Let_def] add_ref_def [of w' ns P' ref' b, unfolded Let_def]
    show ?thesis
    proof (cases k)
      case None
      then show ?thesis using 2 e f ref row row' by (simp add: A same_walk_def)
    next
      case (Some row0)
      obtain mo r2 where c: "cached w (row_gvr row0) ns (or_Name ref) r1 = (mo, r2)" by fastforce
      obtain mo' r2' where c': "cached w' (row_gvr row0) ns (or_Name ref) r1' = (mo', r2')" by fastforce
      have "row0 \<in> set ownerKinds" using ownerRow_Some row Some by blast
      then have rel: "rel_option same_object mo mo'"
        using w c c' cached_fst unfolding same_caches_def by (metis fst_conv imageI)
      show ?thesis
      proof (cases mo)
        case None
        then show ?thesis using 2 e f ref row row' Some c c' rel by (simp add: A same_walk_def)
      next
        case m: (Some m)
        with rel obtain m' where m': "mo' = Some m'" and same: "same_object m m'" by (cases mo') auto
        have me: "pm_UID m = pm_UID m'" "pm_Labels m = pm_Labels m'" "pm_Annotations m = pm_Annotations m'"
          using same by (simp_all add: same_object_def)
        obtain labels annotations where "CopyOwnerMeta (pm_Labels m') (pm_Annotations m') = (labels, annotations)" by fastforce
        then show ?thesis using 2 e f ref row row' Some c c' m m' me
          by (auto simp: A intro!: P [OF same]) (simp_all add: same_walk_def)
      qed
    qed
  qed
qed

lemma walk_same:
  assumes w: "same_caches w w'" and refs: "SameServedRefs refs refs'" and ab: "same_walk a b"
  shows "same_walk (fold (add_top w ns) refs a) (fold (add_top w' ns) refs' b)"
proof -
  have gen: "same_walk (fold f rs a) (fold g rs' b)"
    if "SameServedRefs rs rs'" "same_walk a b"
      and "\<And>x y a b. servedRefOf x = servedRefOf y \<Longrightarrow> same_walk a b \<Longrightarrow> same_walk (f x a) (g y b)" for f g rs rs' a b
    using that unfolding SameServedRefs_def by (induction rs rs' arbitrary: a b rule: list_all2_induct) simp_all
  have parent: "same_walk (add_parent w ns x a) (add_parent w' ns y b)"
    if "servedRefOf x = servedRefOf y" "same_walk a b" for x y a b
    unfolding add_parent_def by (rule add_ref_same [OF w that]) simp
  have top: "same_walk (add_top w ns x a) (add_top w' ns y b)"
    if "servedRefOf x = servedRefOf y" "same_walk a b" for x y a b
    unfolding add_top_def by (rule add_ref_same [OF w that]) (auto simp: same_object_def intro!: gen parent)
  show ?thesis by (rule gen [OF refs ab top])
qed

text \<open>
  C31. The comparison by which a change of an owner is told from a redelivery is sound: if the
  references of a pod, and the UID, labels, annotations and references of every cached owner, compare
  equal, the served chain is equal. Nothing else of a reference or of an object can change an answer;
  neither can the time, the log level or what was reported before.
\<close>
theorem SameServedRefs_sound:
  assumes "same_caches w w'" "SameServedRefs refs refs'"
  shows "fst (Resolve w ns refs r) = fst (Resolve w' ns refs' r')"
  using walk_same [OF assms, of "start_walk r" "start_walk r'" ns]
  by (simp add: Resolve_eq) (simp add: same_walk_def start_walk_def)

subsection \<open>A ReplicaSet of a Deployment\<close>

definition a_ref :: "string \<Rightarrow> string \<Rightarrow> string \<Rightarrow> bool \<Rightarrow> OwnerReference" where
  "a_ref kind name u block = \<lparr>or_APIVersion = ''apps/v1'', or_Kind = kind, or_Name = name, or_UID = u,
     or_Controller = Some True, or_BlockOwnerDeletion = Some block\<rparr>"

definition rs_lister :: "bool \<Rightarrow> string \<Rightarrow> string \<Rightarrow> lister_result" where
  "rs_lister block ns name = (if ns = ''shop'' \<and> name = ''web-1'' then Got \<lparr>pm_UID = ''u1'', pm_Labels = [(''app'', ''web'')],
     pm_Annotations = [], pm_OwnerReferences = [a_ref ''Deployment'' ''web'' ''u2'' block]\<rparr> else IsNotFound)"

definition apps_world :: "bool \<Rightarrow> world" where
  "apps_world block = \<lparr>w_listers = \<lambda>gvr. if gvr = ReplicaSetGVR then Some (rs_lister block) else None,
     w_ParseGroupVersion = \<lambda>v. if v = ''apps/v1'' then Some ''apps'' else None, w_now = 1, w_since = 1, w_debug = False\<rparr>"

definition apps_refs :: "bool \<Rightarrow> OwnerReference list" where
  "apps_refs block = a_ref ''ReplicaSet'' ''web-1'' ''u1'' block # map (\<lambda>u. a_ref ''Widget'' ''w'' [u] block) ''abcdefgh''"

definition apps_chain :: "(Owner list \<times> nat) \<times> Resolver" where
  "apps_chain = Resolve (apps_world True) ''shop'' (apps_refs True) NewFromListers"

lemma apps_chain_omits: "snd (fst apps_chain) = 2"
  by code_simp

lemma apps_chain_head: "hd (fst (fst apps_chain)) = (owner (servedRefOf (hd (apps_refs True))))\<lparr>own_Labels := [(''app'', ''web'')]\<rparr>"
  by code_simp

lemma apps_chain_eq: "Resolve (apps_world True) ''shop'' (apps_refs True) NewFromListers =
    ((fst (fst apps_chain), snd (fst apps_chain)), snd apps_chain)"
  by (simp add: apps_chain_def)

theorem Resolve_chain_witness:
  "length (fst (fst apps_chain)) = MaxOwners \<and> distinct (map own_UID (fst (fst apps_chain))) \<and>
    length (filter (\<lambda>ref. or_UID ref \<notin> own_UID ` set (fst (fst apps_chain))) (apps_refs True)) \<le> 2"
  using Resolve_chain [OF apps_chain_eq] apps_chain_omits by simp

theorem Resolve_metadata_witness:
  "\<exists>lister m. w_listers (apps_world True) ReplicaSetGVR = Some lister \<and> lister ''shop'' ''web-1'' = Got m \<and> pm_UID m = ''u1''"
proof -
  have "length (fst (fst apps_chain)) = MaxOwners" by code_simp
  then have "fst (fst apps_chain) \<noteq> []" by (auto simp: MaxOwners_def)
  then have mem: "hd (fst (fst apps_chain)) \<in> set (fst (fst apps_chain))" by simp
  have row: "row_gvr row = ReplicaSetGVR" if "row \<in> set ownerKinds" "row_kind row = ''ReplicaSet''" for row
    using that by (auto simp: ownerKinds_def)
  have e: "hd (fst (fst apps_chain)) = \<lparr>own_APIVersion = ''apps/v1'', own_Kind = ''ReplicaSet'', own_Name = ''web-1'', own_UID = ''u1'',
      own_Controller = True, own_Labels = [(''app'', ''web'')], own_Annotations = []\<rparr>"
    by (simp add: apps_chain_head apps_refs_def a_ref_def owner_def servedRefOf_def)
  from Resolve_metadata [OF apps_chain_eq mem] show ?thesis
    unfolding e by (auto dest!: row)
qed

theorem SameServedRefs_sound_witness:
  "apps_refs True \<noteq> apps_refs False \<and>
   fst (Resolve (apps_world True) ''shop'' (apps_refs True) NewFromListers) =
   fst (Resolve (apps_world False) ''shop'' (apps_refs False) NewFromListers)"
proof
  show "apps_refs True \<noteq> apps_refs False" by code_simp
  have "same_caches (apps_world True) (apps_world False)"
    by (auto simp: same_caches_def cached_object_def apps_world_def rs_lister_def same_object_def SameServedRefs_def a_ref_def servedRefOf_def)
  moreover have "SameServedRefs (apps_refs True) (apps_refs False)" by code_simp
  ultimately show "fst (Resolve (apps_world True) ''shop'' (apps_refs True) NewFromListers) =
      fst (Resolve (apps_world False) ''shop'' (apps_refs False) NewFromListers)"
    by (rule SameServedRefs_sound)
qed

end
