(* ===== verification/NodeTargets.thy ===== *)
theory NodeTargets
  imports MonitoredServices TargetOrder Owners StoreModel
begin

section \<open>The targets of a node (internal/server: nodetargets.go, targetwarn.go, server.go)\<close>

text \<open>
  The derivation behind \<^verbatim>\<open>GET /v1/nodes/{node}/targets\<close>: every scrapeable pod of the node is offered to the
  accumulator by its annotations, by the Services that select it, by the ServiceMonitors of those Services
  and by the PodMonitors; the list is put in order and searched for collisions. A warning is an entry of the
  list of reports, in front of the throttle that decides whether it is logged. A panic is \<^verbatim>\<open>None\<close>.
\<close>

subsection \<open>Enrichment\<close>

definition Enrich :: "world \<Rightarrow> OwnerReference list \<Rightarrow> Pod \<Rightarrow> Resolver \<Rightarrow> Pod \<times> Resolver" where
  "Enrich w refs pod r =
     (case Resolve w (pod_Namespace pod) refs r of
        ((owners, dropped), r) \<Rightarrow>
          (case Namespace w (pod_Namespace pod) r of
             (meta, r) \<Rightarrow> (pod\<lparr>pod_Owners := owners, pod_OwnersOmitted := int dropped, pod_NamespaceMetadata := meta\<rparr>, r)))"

record enrichCache =
  ec_owners :: "(string, Owner list \<times> nat) gomap"
  ec_namespaces :: "(string, ObjectMeta option) gomap"

definition appendOwnerKey :: "string \<Rightarrow> OwnerReference list \<Rightarrow> string" where
  "appendOwnerKey namespace refs =
     namespace @
     concat (map (\<lambda>ref. CHR 0x00 # or_APIVersion ref @ CHR 0x00 # or_Kind ref @ CHR 0x00 # or_Name ref @ CHR 0x00 # or_UID ref @
                        [if or_Controller ref = Some True then CHR 0x01 else CHR 0x02]) refs)"

definition enrichCached :: "world \<Rightarrow> OwnerReference list \<Rightarrow> Pod \<Rightarrow> enrichCache \<times> Resolver \<Rightarrow> Pod \<times> enrichCache \<times> Resolver" where
  "enrichCached w refs pod st =
     (case st of (c, r) \<Rightarrow>
        (let key = appendOwnerKey (pod_Namespace pod) refs;
             ((owners, dropped), c, r) =
               (case get (ec_owners c) key of
                  Some got \<Rightarrow> (got, c, r)
                | None \<Rightarrow>
                    (case Resolve w (pod_Namespace pod) refs r of
                       (got, r) \<Rightarrow> (got, c\<lparr>ec_owners := put key got (ec_owners c)\<rparr>, r)));
             pod = pod\<lparr>pod_Owners := owners, pod_OwnersOmitted := int dropped\<rparr>
         in case get (ec_namespaces c) (pod_Namespace pod) of
              Some meta \<Rightarrow> (pod\<lparr>pod_NamespaceMetadata := meta\<rparr>, c, r)
            | None \<Rightarrow>
                (case Namespace w (pod_Namespace pod) r of
                   (meta, r) \<Rightarrow>
                     (pod\<lparr>pod_NamespaceMetadata := meta\<rparr>, c\<lparr>ec_namespaces := put (pod_Namespace pod) meta (ec_namespaces c)\<rparr>, r))))"

subsection \<open>Doors of Services\<close>

text \<open>The code keys the memo by the address of the Service; two Services with one content have one door.\<close>
definition doors_targets :: "Pod \<Rightarrow> Service \<Rightarrow> (Service, ServiceDoor) gomap \<Rightarrow> ScrapeTarget list \<times> (Service, ServiceDoor) gomap" where
  "doors_targets pod svc doors =
     (case get doors svc of
        Some door \<Rightarrow> (Door_Targets door pod, doors)
      | None \<Rightarrow> (let door = NewServiceDoor (Some svc) in (Door_Targets door pod, put svc door doors)))"

subsection \<open>Reports\<close>

datatype derived_report =
    AuthConflict string string string string
  | RelabelCapped string string string
  | ContributorsCapped string string string bool
  | UnresolvedEndpoint string string Endpoint Pod
  | PodCapped Pod nat nat
  | ViewTrimmed Pod "ServiceView option" nat
  | Collided InstanceCollision

text \<open>\<^verbatim>\<open>servingAuth\<close> and \<^verbatim>\<open>firstContribCap\<close> are asked of the accumulator; the second one is remembered there.\<close>
definition reportMerge :: "string \<Rightarrow> string \<Rightarrow> string \<Rightarrow> nat \<Rightarrow> MergeReport \<Rightarrow> targetDedup \<Rightarrow> derived_report list \<times> targetDedup" where
  "reportMerge kind monitor url i rep d =
     (let auth = (if rep_AuthConflict rep then [AuthConflict kind (servingAuth url (t_Monitor (d_out d ! i)) d) monitor url] else []);
          chain = (if rep_RelabelCapped rep then [RelabelCapped kind monitor url] else []) in
      if rep_ContributorsCapped rep
      then (case firstContribCap kind url d of (first, d) \<Rightarrow> (auth @ chain @ [ContributorsCapped kind monitor url first], d))
      else (auth @ chain, d))"

definition trimmedFor :: "viewTrim list \<Rightarrow> ServiceView option \<Rightarrow> nat" where
  "trimmedFor trs svc =
     length (filter (\<lambda>tr. map_option (\<lambda>s. (sv_Namespace s, sv_Name s)) (vt_svc tr) = map_option (\<lambda>s. (sv_Namespace s, sv_Name s)) svc) trs)"

definition reportViewsTrimmed :: "Pod \<Rightarrow> targetDedup \<Rightarrow> derived_report list" where
  "reportViewsTrimmed pod d =
     concat (map (\<lambda>i. let svc = vt_svc (trimmed d ! i) in
                       if trimmedFor (take i (trimmed d)) svc > 0 then []
                       else [ViewTrimmed pod svc (trimmedFor (drop i (trimmed d)) svc)]) [0..<length (trimmed d)])"

definition reportableUnresolved :: "Endpoint \<Rightarrow> bool" where
  "reportableUnresolved ep \<longleftrightarrow> ep_Port ep \<noteq> [] \<or> ep_TargetPort ep \<noteq> None"

subsection \<open>One derivation\<close>

text \<open>
  The variables of \<^verbatim>\<open>nodeTargets\<close>, with those of \<^verbatim>\<open>unresolvedReports\<close>: the endpoints pending for the pod and the
  monitors asked about. The slice of targets is in the accumulator.
\<close>
record derivation =
  dv_d :: targetDedup
  dv_offers :: monitorOffers
  dv_pending :: "monitorEndpoint_ref list"
  dv_asked :: "(string \<times> string) list"
  dv_doors :: "(Service, ServiceDoor) gomap"
  dv_enr :: enrichCache
  dv_resolver :: Resolver
  dv_evals :: nat
  dv_reports :: "derived_report list"

definition noteUnresolved :: "string \<Rightarrow> string \<Rightarrow> Endpoint \<Rightarrow> Pod \<Rightarrow> derivation \<Rightarrow> derivation" where
  "noteUnresolved kind monitor ep pod s =
     (if \<not> reportableUnresolved ep then s
      else if (kind, monitor) \<in> set (dv_asked s) then s
      else s\<lparr>dv_asked := (kind, monitor) # dv_asked s, dv_reports := dv_reports s @ [UnresolvedEndpoint kind monitor ep pod]\<rparr>)"

definition note_merge :: "string \<Rightarrow> string \<Rightarrow> endpointOffer \<Rightarrow> derivation \<Rightarrow> derivation" where
  "note_merge kind monitor o' s =
     (case eo_held o' of
        None \<Rightarrow> s
      | Some i \<Rightarrow>
          (case reportMerge kind monitor (eo_url o') i (eo_rep o') (dv_d s) of
             (reports, d) \<Rightarrow> s\<lparr>dv_d := d, dv_reports := dv_reports s @ reports\<rparr>))"

definition add_offered :: "ScrapeTarget list \<Rightarrow> targetDedup \<Rightarrow> targetDedup" where
  "add_offered ts d = fold (\<lambda>t d. snd (Dedup_add t d)) ts d"

text \<open>One endpoint of a ServiceMonitor, through one Service.\<close>
definition offer_endpoint :: "(string \<Rightarrow> duration option) \<Rightarrow> Pod \<Rightarrow> Service \<Rightarrow> monitorEndpoint_ref \<Rightarrow> derivation \<Rightarrow> derivation" where
  "offer_endpoint promDuration pod svc sme s =
     (case offerServiceMonitor promDuration pod (Some svc) sme (dv_offers s, dv_d s) of
        (o', offered, d) \<Rightarrow>
          (let s = s\<lparr>dv_offers := offered, dv_d := d\<rparr> in
           if \<not> eo_resolved o' then s\<lparr>dv_pending := dv_pending s @ [sme]\<rparr>
           else if eo_merged o' then note_merge ''servicemonitor'' (me_monitor sme) o' s
           else s))"

definition offer_service :: "(string \<Rightarrow> duration option) \<Rightarrow> (uid, monitorEndpoint_ref list) gomap \<Rightarrow> Pod \<Rightarrow> Service \<Rightarrow> derivation \<Rightarrow> derivation" where
  "offer_service promDuration monitored pod svc s =
     (case doors_targets pod svc (dv_doors s) of
        (ts, doors) \<Rightarrow>
          fold (offer_endpoint promDuration pod svc) (list_at monitored (svc_UID svc))
            (s\<lparr>dv_doors := doors, dv_d := add_offered ts (dv_d s)\<rparr>))"

text \<open>\<^verbatim>\<open>unresolvedReports.resolved\<close>: the declaration resolved to some URL on the pod.\<close>
definition offers_resolved :: "monitorOffers \<Rightarrow> endpoint_ptr \<Rightarrow> bool" where
  "offers_resolved offered ptr \<longleftrightarrow> ptr \<in> snd ` set offered"

definition settle_endpoint :: "Pod \<Rightarrow> monitorEndpoint_ref \<Rightarrow> derivation \<Rightarrow> derivation" where
  "settle_endpoint pod sme s =
     (if (''servicemonitor'', me_monitor sme) \<in> set (dv_asked s) \<or> offers_resolved (dv_offers s) (me_ptr sme) then s
      else noteUnresolved ''servicemonitor'' (me_monitor sme) (me_endpoint sme) pod s)"

definition offer_pod_endpoint :: "(string \<Rightarrow> duration option) \<Rightarrow> Pod \<Rightarrow> string \<Rightarrow> Endpoint \<Rightarrow> derivation \<Rightarrow> derivation" where
  "offer_pod_endpoint promDuration pod name ep s =
     (case offerPodMonitor promDuration pod name ep (dv_d s) of
        (o', d) \<Rightarrow>
          (let s = s\<lparr>dv_d := d\<rparr> in
           if \<not> eo_resolved o' then noteUnresolved ''podmonitor'' name ep pod s
           else if eo_merged o' then note_merge ''podmonitor'' name o' s
           else s))"

definition offer_pod_monitor :: "(string \<Rightarrow> duration option) \<Rightarrow> Pod \<Rightarrow> 'sel podMonitorRef \<Rightarrow> derivation \<Rightarrow> derivation" where
  "offer_pod_monitor promDuration pod pm s =
     fold (offer_pod_endpoint promDuration pod (pr_name pm)) (mb_Endpoints (snd (pr_monitor pm))) s"

text \<open>The doors of one pod, from the reset of the accumulator to the reports about the pod.\<close>
definition derive_pod :: "(string \<Rightarrow> duration option) \<Rightarrow> (uid, monitorEndpoint_ref list) gomap \<Rightarrow> Service list \<Rightarrow> 'sel podMonitorRef list \<Rightarrow>
    Pod \<Rightarrow> derivation \<Rightarrow> derivation" where
  "derive_pod promDuration monitored matched podMonitors pod s =
     (let s = s\<lparr>dv_d := add_offered (PodTargets pod) (Dedup_reset (d_out (dv_d s)) (dv_d s)), dv_offers := [], dv_pending := []\<rparr>;
          s = fold (offer_service promDuration monitored pod) matched s;
          s = fold (settle_endpoint pod) (dv_pending s) s;
          s = fold (offer_pod_monitor promDuration pod) podMonitors s;
          d = dv_d s
      in s\<lparr>dv_reports := dv_reports s @ (if d_capped d > 0 then [PodCapped pod (d_capped d) (cappedBySize d)] else []) @
             (if trimmed d \<noteq> [] then reportViewsTrimmed pod d else [])\<rparr>)"

definition node_pod_step :: "(string \<Rightarrow> duration option) \<Rightarrow> ('sel \<Rightarrow> strmap \<Rightarrow> bool) \<Rightarrow> world \<Rightarrow> (uid, monitorEndpoint_ref list) gomap \<Rightarrow>
    (string, Service list) gomap \<Rightarrow> 'sel podMonitorRef list \<Rightarrow> NodePod \<Rightarrow> derivation \<Rightarrow> derivation" where
  "node_pod_step promDuration matches w monitored optIn refs np s =
     (if \<not> Scrapeable (np_Pod np) then s
      else (let inNamespace = list_at optIn (pod_Namespace (np_Pod np));
                s = s\<lparr>dv_evals := dv_evals s + length inNamespace\<rparr>;
                matched = matchingServices inNamespace (pod_Labels (np_Pod np));
                podMonitors = podMonitorsFor matches (np_Pod np) refs in
            if \<not> OptedIn (pod_Annotations (np_Pod np)) \<and> matched = [] \<and> podMonitors = [] then s
            else (case enrichCached w (np_OwnerRefs np) (np_Pod np) (dv_enr s, dv_resolver s) of
                    (pod, enr, r) \<Rightarrow> derive_pod promDuration monitored matched podMonitors pod (s\<lparr>dv_enr := enr, dv_resolver := r\<rparr>))))"

subsection \<open>The handler\<close>

fun add_namespace :: "string \<Rightarrow> string list \<Rightarrow> string list" where
  "add_namespace ns nss = (if ns \<in> set nss then nss else nss @ [ns])"

definition podNamespaces :: "NodePod list \<Rightarrow> string list" where
  "podNamespaces nps = fold (\<lambda>np. add_namespace (pod_Namespace (np_Pod np))) nps []"

record 'sel target_server =
  sv_store :: store
  sv_memos :: "'sel monitor_memos"
  sv_resolver :: Resolver
  sv_targetBuilds :: nat
  sv_svcSelectorEvals :: nat

definition start_derivation :: "Resolver \<Rightarrow> derivation" where
  "start_derivation r = \<lparr>dv_d = zero_targetDedup, dv_offers = [], dv_pending = [], dv_asked = [], dv_doors = [],
     dv_enr = \<lparr>ec_owners = [], ec_namespaces = []\<rparr>, dv_resolver = r, dv_evals = 0, dv_reports = []\<rparr>"

text \<open>The targets, whether the node has pods at all, the reports, and the server afterwards.\<close>
definition nodeTargets :: "(string \<Rightarrow> duration option) \<Rightarrow> ('sel \<Rightarrow> strmap \<Rightarrow> bool) \<Rightarrow> world \<Rightarrow> string \<Rightarrow> 'sel target_server \<Rightarrow>
    (ScrapeTarget list \<times> bool \<times> derived_report list \<times> 'sel target_server) option" where
  "nodeTargets promDuration matches w node sv =
     (let sv = sv\<lparr>sv_targetBuilds := sv_targetBuilds sv + 1\<rparr>;
          nps = PodsOnNode node (sv_store sv) in
      if nps = [] then Some ([], False, [], sv)
      else (case monitoredServices matches (sv_memos sv) of
             (monitored, mm) \<Rightarrow>
              (case allPodMonitors mm of
                (refs, mm) \<Rightarrow>
                 (case InNamespaces (podNamespaces nps) (mm_services mm) of
                   (byNS, ix) \<Rightarrow>
                    (let s = fold (node_pod_step promDuration matches w monitored (optInServices byNS monitored) refs) nps
                               (start_derivation (sv_resolver sv));
                         sv = sv\<lparr>sv_memos := mm\<lparr>mm_services := ix\<rparr>, sv_resolver := dv_resolver s,
                                 sv_svcSelectorEvals := sv_svcSelectorEvals sv + dv_evals s\<rparr>
                     in map_option (\<lambda>targets. (targets, True, dv_reports s @ map Collided (Collisions targets), sv))
                          (sortTargets (d_out (dv_d s))))))))"

subsection \<open>The accumulator does not see the pods before\<close>

text \<open>
  The accumulator of a pod that comes after the targets \<open>pre\<close>, and the one of the same pod on its own: the
  same but for the position, for what was warned about and for the counter.
\<close>
definition rebase :: "ScrapeTarget list \<Rightarrow> targetDedup \<Rightarrow> targetDedup \<Rightarrow> bool" where
  "rebase pre d0 d \<longleftrightarrow> d_out d = pre @ d_out d0 \<and> d_base d = length pre \<and> d_base d0 = 0 \<and>
     (\<forall>u. get (urlOwner d) u = map_option ((+) (length pre)) (get (urlOwner d0) u)) \<and>
     (\<forall>u i. get (urlOwner d0) u = Some i \<longrightarrow> i < length (d_out d0)) \<and>
     authOwner d = authOwner d0 \<and> d_capped d = d_capped d0 \<and> cappedBySize d = cappedBySize d0 \<and> podBytes d = podBytes d0 \<and>
     d_bytes d = d_bytes d0 \<and> trimmed d = trimmed d0 \<and> \<not> diagnostic d \<and> \<not> diagnostic d0"

lemma rebase_reset: "\<not> diagnostic d \<Longrightarrow> rebase ts zero_targetDedup (Dedup_reset ts d)"
  by (simp add: rebase_def Dedup_reset_def zero_targetDedup_def)

lemma rebase_nth:
  assumes "rebase pre d0 d" "get (urlOwner d0) u = Some i"
  shows "get (urlOwner d) u = Some (length pre + i)" "d_out d ! (length pre + i) = d_out d0 ! i" "i < length (d_out d0)"
  using assms by (auto simp: rebase_def)

lemma rebase_refuse: "rebase pre d0 d \<Longrightarrow> fst (refuse v d) = fst (refuse v d0) \<and> rebase pre (snd (refuse v d0)) (snd (refuse v d))"
  by (auto simp: rebase_def refuse_def Let_def)

lemma rebase_add_url:
  assumes "rebase pre d0 d"
  shows "fst (add_url t d) = fst (add_url t d0) \<and> rebase pre (snd (add_url t d0)) (snd (add_url t d))"
proof -
  define e0 where "e0 = (if podBytes d0 = 0 then d0\<lparr>podBytes := int (PodDocBytes (t_Pod t))\<rparr> else d0)"
  define e where "e = (if podBytes d = 0 then d\<lparr>podBytes := int (PodDocBytes (t_Pod t))\<rparr> else d)"
  have e: "rebase pre e0 e" using assms by (auto simp: rebase_def e_def e0_def)
  have fields: "length (d_out d) - d_base d = length (d_out d0) - d_base d0" "length (d_out e) = d_base e \<longleftrightarrow> length (d_out e0) = d_base e0"
    "d_bytes e = d_bytes e0" "podBytes e = podBytes e0" using assms e by (simp_all add: rebase_def)
  have put: "rebase pre (e0\<lparr>d_bytes := d_bytes e0 + c, urlOwner := put (t_URL t) (length (d_out e0)) (urlOwner e0), d_out := d_out e0 @ [t]\<rparr>)
      (e\<lparr>d_bytes := d_bytes e0 + c, urlOwner := put (t_URL t) (length (d_out e)) (urlOwner e), d_out := d_out e @ [t]\<rparr>)" for c
    using e by (auto simp: rebase_def less_Suc_eq)
  show ?thesis
    using rebase_refuse [OF assms, of targetRefusedCount] rebase_refuse [OF e, of targetRefusedBytes] put fields
    unfolding add_url_def e_def [symmetric] e0_def [symmetric] by (auto simp: Let_def)
qed

lemma rebase_untrim: "rebase pre d0 d \<Longrightarrow> rebase pre (untrimView u d0) (untrimView u d)"
  by (auto simp: rebase_def untrimView_def trimmedAt_def Let_def)

lemma rebase_swap_view:
  assumes "rebase pre d0 d" "boundSwapView same i cand before grown d0 = (g0, c0, e0)"
    "boundSwapView same (length pre + i) cand before grown d = (g, c, e)"
  shows "g = g0 \<and> c = c0 \<and> rebase pre e0 e"
proof (cases same)
  case True
  then show ?thesis using assms by (simp add: boundSwapView_def)
next
  case False
  define u0 u where "u0 = untrimView (t_URL cand) d0" and "u = untrimView (t_URL cand) d"
  have r: "rebase pre u0 u" unfolding u0_def u_def by (rule rebase_untrim [OF assms(1)])
  then have f: "d_base u = length pre" "d_base u0 = 0" "d_bytes u = d_bytes u0" "trimmed u = trimmed u0" by (simp_all add: rebase_def)
  have t: "rebase pre (u0\<lparr>trimmed := x\<rparr>) (u\<lparr>trimmed := x\<rparr>)" for x using r by (simp add: rebase_def)
  show ?thesis
    using assms(2,3) False r t f unfolding boundSwapView_def u0_def [symmetric] u_def [symmetric]
    by (auto simp: Let_def split: if_splits)
qed

lemma rebase_charge: "rebase pre d0 d \<Longrightarrow> rebase pre (chargeSwap n d0) (chargeSwap n d)" "rebase pre d0 d \<Longrightarrow> rebase pre (charge n d0) (charge n d)"
  by (auto simp: rebase_def chargeSwap_def charge_def)

lemma rebase_update:
  "rebase pre d0 d \<Longrightarrow> i < length (d_out d0) \<Longrightarrow> rebase pre (d0\<lparr>d_out := (d_out d0)[i := t]\<rparr>) (d\<lparr>d_out := (d_out d)[length pre + i := t]\<rparr>)"
  by (auto simp: rebase_def list_update_append)

lemma swap_out: "boundSwapView same i cand before grown d = (g, c, e) \<Longrightarrow> d_out e = d_out d"
  by (auto simp: boundSwapView_def untrimView_def Let_def split: if_splits)

lemma rebase_upgrade:
  assumes r: "rebase pre d0 d" and i: "i < length (d_out d0)"
  shows "rebase pre (upgrade i t d0) (upgrade (length pre + i) t d)"
proof -
  have h: "d_out d ! (length pre + i) = d_out d0 ! i" using r by (simp add: rebase_def)
  let ?t = "carryForward t (d_out d0 ! i)"
  let ?g = "int (TargetOwnBytes ?t) - int (TargetOwnBytes (d_out d0 ! i))"
  obtain g0 c0 e0 where b0: "boundSwapView (t_Service t = None) i ?t (t_Service (d_out d0 ! i)) ?g d0 = (g0, c0, e0)" by (metis prod_cases3)
  obtain g c e where b: "boundSwapView (t_Service t = None) (length pre + i) ?t (t_Service (d_out d0 ! i)) ?g d = (g, c, e)" by (metis prod_cases3)
  note s = rebase_swap_view [OF r b0 b]
  have "rebase pre (e0\<lparr>d_out := (d_out e0)[i := c0]\<rparr>) (e\<lparr>d_out := (d_out e)[length pre + i := c0]\<rparr>)"
    by (rule rebase_update) (use s i swap_out [OF b0] in simp_all)
  then show ?thesis using s by (simp add: upgrade_def h b0 b Let_def rebase_charge)
qed

lemma rebase_keep_held:
  assumes r: "rebase pre d0 d" and i: "i < length (d_out d0)"
  shows "rebase pre (keep_held i t d0) (keep_held (length pre + i) t d)"
proof -
  have h: "d_out d ! (length pre + i) = d_out d0 ! i" using r by (simp add: rebase_def)
  let ?h = "carryForward (d_out d0 ! i) t"
  let ?g = "int (ServiceViewBytes (t_Service ?h))"
  obtain g0 c0 e0 where b0: "boundSwapView False i ?h None ?g d0 = (g0, c0, e0)" by (metis prod_cases3)
  obtain g c e where b: "boundSwapView False (length pre + i) ?h None ?g d = (g, c, e)" by (metis prod_cases3)
  note s = rebase_swap_view [OF r b0 b]
  have "rebase pre (e0\<lparr>d_out := (d_out e0)[i := c0]\<rparr>) (e\<lparr>d_out := (d_out e)[length pre + i := c0]\<rparr>)"
    by (rule rebase_update) (use s i swap_out [OF b0] in simp_all)
  then show ?thesis using s r by (simp add: keep_held_def h b0 b Let_def rebase_charge)
qed

lemma rebase_add:
  assumes "rebase pre d0 d"
  shows "fst (Dedup_add t d) = fst (Dedup_add t d0) \<and> rebase pre (snd (Dedup_add t d0)) (snd (Dedup_add t d))"
proof (cases "get (urlOwner d0) (t_URL t)")
  case None
  then have "get (urlOwner d) (t_URL t) = None" using assms by (simp add: rebase_def)
  then show ?thesis using None rebase_add_url [OF assms] by (simp add: Dedup_add_def)
next
  case (Some i)
  note n = rebase_nth [OF assms Some]
  then show ?thesis using Some rebase_upgrade [OF assms n(3)] rebase_keep_held [OF assms n(3)] by (simp add: Dedup_add_def)
qed

lemma rebase_add_offered: "rebase pre d0 d \<Longrightarrow> rebase pre (add_offered ts d0) (add_offered ts d)"
  unfolding add_offered_def by (induction ts arbitrary: d0 d) (simp_all add: rebase_add)

lemma rebase_add_all:
  "rebase pre d0 d \<Longrightarrow> fst (add_all ts o' d) = fst (add_all ts o' d0) \<and> rebase pre (snd (add_all ts o' d0)) (snd (add_all ts o' d))"
proof (induction ts arbitrary: d0 d o')
  case (Cons t ts)
  obtain v d1 v0 d2 where a: "Dedup_add t d = (v, d1)" "Dedup_add t d0 = (v0, d2)" by fastforce
  then have "v = v0" "rebase pre d2 d1" using rebase_add [OF Cons.prems, of t] by simp_all
  with Cons.IH [OF this(2)] show ?case by (simp add: a)
qed simp

lemma rebase_merge:
  assumes r: "rebase pre d0 d" and i: "i < length (d_out d0)"
  shows "fst (mergeInto pd (length pre + i) url m ep d) = fst (mergeInto pd i url m ep d0) \<and>
    rebase pre (snd (mergeInto pd i url m ep d0)) (snd (mergeInto pd (length pre + i) url m ep d))"
proof -
  have h: "d_out d ! (length pre + i) = d_out d0 ! i" using r by (simp add: rebase_def)
  obtain rep t where mm: "MergeMonitorEndpoint pd m ep (d_out d0 ! i) = (rep, t)" by fastforce
  have "rebase pre (charge (rep_Bytes rep) (d0\<lparr>d_out := (d_out d0)[i := t]\<rparr>)) (charge (rep_Bytes rep) (d\<lparr>d_out := (d_out d)[length pre + i := t]\<rparr>))"
    by (rule rebase_charge(2) [OF rebase_update [OF r i]])
  then show ?thesis by (simp add: mergeInto_def h mm Let_def) (simp add: rebase_def adoptedAuth_def)
qed

lemma rebase_holder:
  assumes "rebase pre d0 d"
  shows "monitorHolder url d = map_option ((+) (length pre)) (monitorHolder url d0)" "monitorHolder url d0 = Some i \<Longrightarrow> i < length (d_out d0)"
proof -
  show "monitorHolder url d = map_option ((+) (length pre)) (monitorHolder url d0)"
    using assms rebase_nth [OF assms, of url] by (cases "get (urlOwner d0) url") (auto simp: monitorHolder_def rebase_def)
  show "monitorHolder url d0 = Some i \<Longrightarrow> i < length (d_out d0)" using rebase_nth(3) [OF assms holder_index] by simp
qed

text \<open>What an offer answers, but for the position of the target that holds the URL.\<close>
definition same_offer :: "endpointOffer \<Rightarrow> endpointOffer \<Rightarrow> bool" where
  "same_offer a b \<longleftrightarrow> eo_resolved a = eo_resolved b \<and> eo_merged a = eo_merged b"

lemma rebase_offerServiceMonitor:
  assumes r: "rebase pre d0 d" and o: "offerServiceMonitor pd pod svc sme (offered, d) = (o1, offered1, d1)"
    "offerServiceMonitor pd pod svc sme (offered, d0) = (o2, offered2, d2)"
  shows "same_offer o1 o2 \<and> offered1 = offered2 \<and> rebase pre d2 d1"
proof (cases "MonitorTargetURL pod svc (me_endpoint sme)")
  case None
  then show ?thesis using r o by (auto simp: offerServiceMonitor_def same_offer_def)
next
  case (Some url)
  show ?thesis
  proof (cases "fst (offers_first url (me_ptr sme) offered)")
    case False
    then show ?thesis using r o Some by (auto simp: offerServiceMonitor_def same_offer_def split: prod.splits)
  next
    case first: True
    show ?thesis
    proof (cases "monitorHolder url d0")
      case None
      then have "monitorHolder url d = None" using rebase_holder(1) [OF r] by simp
      then show ?thesis using o Some first None rebase_add_all [OF r]
        by (auto simp: offerServiceMonitor_def same_offer_def split: prod.splits) (metis fst_conv snd_conv)+
    next
      case (Some i)
      then have "monitorHolder url d = Some (length pre + i)" using rebase_holder(1) [OF r] by simp
      then show ?thesis using o \<open>MonitorTargetURL pod svc (me_endpoint sme) = Some url\<close> first Some rebase_merge [OF r rebase_holder(2) [OF r Some]]
        by (auto simp: offerServiceMonitor_def same_offer_def split: prod.splits) (metis snd_conv)+
    qed
  qed
qed

lemma rebase_offerPodMonitor:
  assumes r: "rebase pre d0 d" and o: "offerPodMonitor pd pod name ep d = (o1, d1)" "offerPodMonitor pd pod name ep d0 = (o2, d2)"
  shows "same_offer o1 o2 \<and> rebase pre d2 d1"
proof (cases "PodMonitorTargetURL pod ep")
  case None
  then show ?thesis using r o by (auto simp: offerPodMonitor_def same_offer_def)
next
  case (Some url)
  show ?thesis
  proof (cases "monitorHolder url d0")
    case None
    then have "monitorHolder url d = None" using rebase_holder(1) [OF r] by simp
    then show ?thesis using o Some None rebase_add_all [OF r] by (auto simp: offerPodMonitor_def same_offer_def) (metis fst_conv snd_conv)+
  next
    case (Some i)
    then have "monitorHolder url d = Some (length pre + i)" using rebase_holder(1) [OF r] by simp
    then show ?thesis using o \<open>PodMonitorTargetURL pod ep = Some url\<close> Some rebase_merge [OF r rebase_holder(2) [OF r Some]]
      by (auto simp: offerPodMonitor_def same_offer_def split: prod.splits) (metis snd_conv)+
  qed
qed

subsection \<open>The memo of the enrichment\<close>

lemma SameServedRefs_refl [simp]: "SameServedRefs refs refs"
  by (simp add: SameServedRefs_def list_all2_refl)

lemma same_caches_refl [simp]: "same_caches w w"
  by (simp add: same_caches_def same_object_def option.rel_refl)

lemma Resolve_state: "SameServedRefs refs refs' \<Longrightarrow> fst (Resolve w ns refs r) = fst (Resolve w ns refs' r')"
  using walk_same [OF same_caches_refl [of w], of refs refs' "start_walk r" "start_walk r'" ns]
  by (simp add: Resolve_eq) (simp add: same_walk_def start_walk_def)

lemma Namespace_state: "fst (Namespace w name r) = fst (Namespace w name r')"
  using cached_fst [of w NamespaceGVR "[]" name r] cached_fst [of w NamespaceGVR "[]" name r']
  by (cases "cached w NamespaceGVR [] name r"; cases "cached w NamespaceGVR [] name r'"; cases "cached_object w NamespaceGVR [] name")
    (simp_all add: Namespace_def clusterScoped_def case_prod_beta)

text \<open>The pod as it is served, whatever the resolver has warned about.\<close>
definition enriched :: "world \<Rightarrow> OwnerReference list \<Rightarrow> Pod \<Rightarrow> Pod" where
  "enriched w refs pod = fst (Enrich w refs pod NewFromListers)"

lemma enriched_eq:
  "enriched w refs pod = pod\<lparr>pod_Owners := fst (fst (Resolve w (pod_Namespace pod) refs r)),
     pod_OwnersOmitted := int (snd (fst (Resolve w (pod_Namespace pod) refs r))), pod_NamespaceMetadata := fst (Namespace w (pod_Namespace pod) r')\<rparr>"
proof -
  have "enriched w refs pod = pod\<lparr>pod_Owners := fst (fst (Resolve w (pod_Namespace pod) refs NewFromListers)),
      pod_OwnersOmitted := int (snd (fst (Resolve w (pod_Namespace pod) refs NewFromListers))),
      pod_NamespaceMetadata := fst (Namespace w (pod_Namespace pod) (snd (Resolve w (pod_Namespace pod) refs NewFromListers)))\<rparr>"
    by (simp add: enriched_def Enrich_def case_prod_beta)
  then show ?thesis
    unfolding Resolve_state [OF SameServedRefs_refl, of w "pod_Namespace pod" refs NewFromListers r]
      Namespace_state [of w "pod_Namespace pod" "snd (Resolve w (pod_Namespace pod) refs NewFromListers)" r'] .
qed

lemma enriched_fields [simp]:
  "pod_Namespace (enriched w refs pod) = pod_Namespace pod" "pod_UID (enriched w refs pod) = pod_UID pod"
  "pod_Annotations (enriched w refs pod) = pod_Annotations pod" "Scrapeable (enriched w refs pod) = Scrapeable pod"
  unfolding enriched_eq [of w refs pod NewFromListers NewFromListers] by (simp_all add: Scrapeable_def unscrapeableReasons_def)

definition ref_fields :: "OwnerReference \<Rightarrow> string list" where
  "ref_fields ref = [or_APIVersion ref, or_Kind ref, or_Name ref, or_UID ref @ [if or_Controller ref = Some True then CHR 0x01 else CHR 0x02]]"

text \<open>No field that the key is made of has a NUL byte in it.\<close>
definition plain_refs :: "string \<Rightarrow> OwnerReference list \<Rightarrow> bool" where
  "plain_refs ns refs \<longleftrightarrow> (\<forall>f \<in> set (ns # concat (map ref_fields refs)). CHR 0x00 \<notin> set f)"

lemma owner_key_joined: "appendOwnerKey ns refs @ [CHR 0x00] = concat (map (\<lambda>f. f @ [CHR 0x00]) (ns # concat (map ref_fields refs)))"
proof -
  have "concat (map (\<lambda>ref. CHR 0x00 # or_APIVersion ref @ CHR 0x00 # or_Kind ref @ CHR 0x00 # or_Name ref @ CHR 0x00 # or_UID ref @
            [if or_Controller ref = Some True then CHR 0x01 else CHR 0x02]) refs) @ [CHR 0x00] =
      CHR 0x00 # concat (map (\<lambda>f. f @ [CHR 0x00]) (concat (map ref_fields refs)))"
    by (induction refs) (simp_all add: ref_fields_def)
  then show ?thesis by (simp add: appendOwnerKey_def)
qed

lemma ref_fields_served: "ref_fields a = ref_fields b \<Longrightarrow> servedRefOf a = servedRefOf b"
  by (auto simp: ref_fields_def servedRefOf_def split: if_splits option.splits)

lemma ref_fields_inj: "concat (map ref_fields refs) = concat (map ref_fields refs') \<Longrightarrow> SameServedRefs refs refs'"
proof (induction refs arbitrary: refs')
  case Nil
  then show ?case by (cases refs') (auto simp: ref_fields_def SameServedRefs_def)
next
  case (Cons ref refs)
  then obtain r rs where refs': "refs' = r # rs" by (cases refs') (auto simp: ref_fields_def)
  have "length (ref_fields ref) = length (ref_fields r)" by (simp add: ref_fields_def)
  moreover have "ref_fields ref @ concat (map ref_fields refs) = ref_fields r @ concat (map ref_fields rs)" using Cons.prems unfolding refs' by simp
  ultimately have "ref_fields ref = ref_fields r" "concat (map ref_fields refs) = concat (map ref_fields rs)" by (metis append_eq_append_conv)+
  then show ?case using Cons.IH [of rs] ref_fields_served [of ref r] by (simp add: refs' SameServedRefs_def)
qed

lemma owner_key_inj:
  assumes "plain_refs ns refs" "plain_refs ns' refs'" "appendOwnerKey ns refs = appendOwnerKey ns' refs'"
  shows "ns = ns' \<and> SameServedRefs refs refs'"
proof -
  have "ns # concat (map ref_fields refs) = ns' # concat (map ref_fields refs')"
    by (rule joined_inj [of _ "CHR 0x00"]) (use assms(1,2) in \<open>simp_all only: plain_refs_def owner_key_joined [symmetric] assms(3)\<close>)
  then show ?thesis using ref_fields_inj by simp
qed

definition enr_ok :: "world \<Rightarrow> enrichCache \<Rightarrow> bool" where
  "enr_ok w c \<longleftrightarrow>
     (\<forall>key got. get (ec_owners c) key = Some got \<longrightarrow>
        (\<exists>ns refs. plain_refs ns refs \<and> key = appendOwnerKey ns refs \<and> got = fst (Resolve w ns refs NewFromListers))) \<and>
     (\<forall>ns meta. get (ec_namespaces c) ns = Some meta \<longrightarrow> meta = fst (Namespace w ns NewFromListers))"

lemma enrichCached_exact:
  assumes ok: "enr_ok w c" and plain: "plain_refs (pod_Namespace pod) refs"
  shows "fst (enrichCached w refs pod (c, r)) = enriched w refs pod \<and> enr_ok w (fst (snd (enrichCached w refs pod (c, r))))"
proof -
  let ?ns = "pod_Namespace pod" and ?key = "appendOwnerKey (pod_Namespace pod) refs"
  define c1 r1 where "c1 = (if get (ec_owners c) ?key = None then c\<lparr>ec_owners := put ?key (fst (Resolve w ?ns refs r)) (ec_owners c)\<rparr> else c)"
    and "r1 = (if get (ec_owners c) ?key = None then snd (Resolve w ?ns refs r) else r)"
  have R: "fst (Resolve w ?ns refs x) = fst (Resolve w ?ns refs NewFromListers)" for x by (simp add: Resolve_state)
  have N: "fst (Namespace w ?ns x) = fst (Namespace w ?ns NewFromListers)" for x by (rule Namespace_state)
  have hit: "got = fst (Resolve w ?ns refs NewFromListers)" if g: "get (ec_owners c) ?key = Some got" for got
  proof -
    obtain ns' refs' where "plain_refs ns' refs'" "?key = appendOwnerKey ns' refs'" "got = fst (Resolve w ns' refs' NewFromListers)"
      using ok g unfolding enr_ok_def by blast
    then show ?thesis using owner_key_inj [OF plain] Resolve_state [of refs refs' w ?ns] by metis
  qed
  have ok1: "enr_ok w c1" unfolding enr_ok_def
  proof (intro conjI allI impI)
    fix key got
    assume g: "get (ec_owners c1) key = Some got"
    show "\<exists>ns refs. plain_refs ns refs \<and> key = appendOwnerKey ns refs \<and> got = fst (Resolve w ns refs NewFromListers)"
    proof (cases "get (ec_owners c) key = Some got")
      case True
      then show ?thesis using ok unfolding enr_ok_def by blast
    next
      case False
      then have "key = ?key" "got = fst (Resolve w ?ns refs r)" using g by (auto simp: c1_def split: if_splits)
      then show ?thesis using plain R [of r] by blast
    qed
  qed (use ok in \<open>auto simp: c1_def enr_ok_def split: if_splits\<close>)
  have first: "(case get (ec_owners c) ?key of Some got \<Rightarrow> (got, c, r) | None \<Rightarrow> (case Resolve w ?ns refs r of
      (got, r) \<Rightarrow> (got, c\<lparr>ec_owners := put ?key got (ec_owners c)\<rparr>, r))) = (fst (Resolve w ?ns refs NewFromListers), c1, r1)"
    using hit R [of r] by (auto simp: c1_def r1_def split: option.split prod.split)
  have meta: "meta = fst (Namespace w ?ns NewFromListers)" if "get (ec_namespaces c1) ?ns = Some meta" for meta
    using ok1 that unfolding enr_ok_def by blast
  have put: "enr_ok w (c1\<lparr>ec_namespaces := put ?ns (fst (Namespace w ?ns r1)) (ec_namespaces c1)\<rparr>)"
    using ok1 N [of r1] unfolding enr_ok_def by auto
  show ?thesis
    unfolding enrichCached_def enriched_eq [of w refs pod NewFromListers NewFromListers]
    using first ok1 meta put N [of r1]
    by (cases "get (ec_namespaces c1) ?ns"; cases "Namespace w ?ns r1"; cases "fst (Resolve w ?ns refs NewFromListers)") (simp_all add: Let_def)
qed

subsection \<open>The reference derivation of one pod\<close>

text \<open>A pod on its own, with nothing memoised and nothing narrowed: the doors in their order.\<close>
definition ref_endpoint :: "(string \<Rightarrow> duration option) \<Rightarrow> Pod \<Rightarrow> Service \<Rightarrow> monitorEndpoint_ref \<Rightarrow> monitorOffers \<times> targetDedup \<Rightarrow> monitorOffers \<times> targetDedup" where
  "ref_endpoint pd pod svc sme st = snd (offerServiceMonitor pd pod (Some svc) sme st)"

definition ref_service :: "(string \<Rightarrow> duration option) \<Rightarrow> (uid, monitorEndpoint_ref list) gomap \<Rightarrow> Pod \<Rightarrow> Service \<Rightarrow>
    monitorOffers \<times> targetDedup \<Rightarrow> monitorOffers \<times> targetDedup" where
  "ref_service pd monitored pod svc st =
     fold (ref_endpoint pd pod svc) (list_at monitored (svc_UID svc)) (fst st, add_offered (ServiceTargets pod (Some svc)) (snd st))"

definition ref_pod_monitor :: "(string \<Rightarrow> duration option) \<Rightarrow> Pod \<Rightarrow> 'sel podMonitorRef \<Rightarrow> targetDedup \<Rightarrow> targetDedup" where
  "ref_pod_monitor pd pod pm d = fold (\<lambda>ep d. snd (offerPodMonitor pd pod (pr_name pm) ep d)) (mb_Endpoints (snd (pr_monitor pm))) d"

definition ref_pod :: "(string \<Rightarrow> duration option) \<Rightarrow> (uid, monitorEndpoint_ref list) gomap \<Rightarrow> Service list \<Rightarrow> 'sel podMonitorRef list \<Rightarrow> Pod \<Rightarrow> targetDedup" where
  "ref_pod pd monitored matched pms pod =
     fold (ref_pod_monitor pd pod) pms (snd (fold (ref_service pd monitored pod) matched ([], add_offered (PodTargets pod) zero_targetDedup)))"

definition doors_ok :: "(Service, ServiceDoor) gomap \<Rightarrow> bool" where
  "doors_ok doors \<longleftrightarrow> (\<forall>svc door. get doors svc = Some door \<longrightarrow> door = NewServiceDoor (Some svc))"

lemma doors_targets_exact:
  assumes "doors_ok doors"
  shows "fst (doors_targets pod svc doors) = ServiceTargets pod (Some svc) \<and> doors_ok (snd (doors_targets pod svc doors))"
  using assms by (auto simp: doors_targets_def doors_ok_def ServiceTargets_def Door_Targets_def Let_def split: option.split)

text \<open>What a derivation and a reference derivation share while they go through the doors.\<close>
definition in_step :: "ScrapeTarget list \<Rightarrow> derivation \<Rightarrow> derivation \<Rightarrow> monitorOffers \<times> targetDedup \<Rightarrow> bool" where
  "in_step pre s0 s st \<longleftrightarrow> rebase pre (snd st) (dv_d s) \<and> dv_offers s = fst st \<and> doors_ok (dv_doors s) \<and> dv_enr s = dv_enr s0"

lemma firstContribCap_rebase: "firstContribCap kind url d = (b, d') \<Longrightarrow> rebase pre d0 d \<Longrightarrow> rebase pre d0 d'"
  by (auto simp: firstContribCap_def rebase_def split: if_splits)

lemma note_merge_step: "in_step pre s0 s st \<Longrightarrow> in_step pre s0 (note_merge kind m o' s) st"
  by (auto simp: in_step_def note_merge_def reportMerge_def Let_def firstContribCap_rebase split: option.splits prod.splits)

lemma note_unresolved_step: "in_step pre s0 s st \<Longrightarrow> in_step pre s0 (noteUnresolved kind m ep pod s) st"
  by (simp add: in_step_def noteUnresolved_def)

lemma offer_endpoint_step:
  assumes "in_step pre s0 s st"
  shows "in_step pre s0 (offer_endpoint pd pod svc sme s) (ref_endpoint pd pod svc sme st)"
proof -
  obtain offered d0 where st: "st = (offered, d0)" by (cases st)
  have a: "rebase pre d0 (dv_d s)" "dv_offers s = offered" using assms by (simp_all add: in_step_def st)
  obtain o1 f1 d1 where o1: "offerServiceMonitor pd pod (Some svc) sme (offered, dv_d s) = (o1, f1, d1)" by (metis prod_cases3)
  obtain o2 f2 d2 where o2: "offerServiceMonitor pd pod (Some svc) sme (offered, d0) = (o2, f2, d2)" by (metis prod_cases3)
  note r = rebase_offerServiceMonitor [OF a(1) o1 o2]
  have "in_step pre s0 (s\<lparr>dv_offers := f1, dv_d := d1\<rparr>) (f2, d2)" using assms r by (simp add: in_step_def)
  then show ?thesis using note_merge_step
    by (simp add: offer_endpoint_def ref_endpoint_def st a(2) o1 o2 Let_def) (simp add: in_step_def)
qed

lemma offer_endpoints_step:
  "in_step pre s0 s st \<Longrightarrow> in_step pre s0 (fold (offer_endpoint pd pod svc) smes s) (fold (ref_endpoint pd pod svc) smes st)"
  by (induction smes arbitrary: s st) (simp_all add: offer_endpoint_step)

lemma offer_service_step:
  assumes "in_step pre s0 s st"
  shows "in_step pre s0 (offer_service pd monitored pod svc s) (ref_service pd monitored pod svc st)"
proof -
  obtain ts doors where t: "doors_targets pod svc (dv_doors s) = (ts, doors)" by fastforce
  have "ts = ServiceTargets pod (Some svc)" "doors_ok doors" using doors_targets_exact [of "dv_doors s" pod svc] assms t by (simp_all add: in_step_def)
  then have "in_step pre s0 (s\<lparr>dv_doors := doors, dv_d := add_offered ts (dv_d s)\<rparr>) (fst st, add_offered (ServiceTargets pod (Some svc)) (snd st))"
    using assms by (simp add: in_step_def rebase_add_offered)
  from offer_endpoints_step [OF this] show ?thesis by (simp add: offer_service_def ref_service_def t)
qed

lemma offer_services_step:
  "in_step pre s0 s st \<Longrightarrow> in_step pre s0 (fold (offer_service pd monitored pod) svcs s) (fold (ref_service pd monitored pod) svcs st)"
  by (induction svcs arbitrary: s st) (simp_all add: offer_service_step)

lemma settle_step: "in_step pre s0 s st \<Longrightarrow> in_step pre s0 (fold (settle_endpoint pod) smes s) st"
  by (induction smes arbitrary: s) (simp_all add: settle_endpoint_def note_unresolved_step)

lemma offer_pod_endpoint_step:
  assumes "in_step pre s0 s (f, d0)"
  shows "in_step pre s0 (offer_pod_endpoint pd pod name ep s) (f, snd (offerPodMonitor pd pod name ep d0))"
proof -
  obtain o1 d1 o2 d2 where o: "offerPodMonitor pd pod name ep (dv_d s) = (o1, d1)" "offerPodMonitor pd pod name ep d0 = (o2, d2)" by fastforce
  have "rebase pre d2 d1" using rebase_offerPodMonitor [OF _ o] assms by (simp add: in_step_def)
  then have "in_step pre s0 (s\<lparr>dv_d := d1\<rparr>) (f, d2)" using assms by (simp add: in_step_def)
  then show ?thesis using note_merge_step note_unresolved_step by (simp add: offer_pod_endpoint_def o Let_def)
qed

lemma offer_pod_monitor_step:
  assumes "in_step pre s0 s (f, d0)"
  shows "in_step pre s0 (offer_pod_monitor pd pod pm s) (f, ref_pod_monitor pd pod pm d0)"
proof -
  have "in_step pre s0 (fold (offer_pod_endpoint pd pod n) eps s) (f, fold (\<lambda>ep d. snd (offerPodMonitor pd pod n ep d)) eps d0)"
    if "in_step pre s0 s (f, d0)" for n eps s d0
    using that by (induction eps arbitrary: s d0) (simp_all add: offer_pod_endpoint_step)
  then show ?thesis using assms by (simp add: offer_pod_monitor_def ref_pod_monitor_def)
qed

lemma offer_pod_monitors_step:
  "in_step pre s0 s (f, d0) \<Longrightarrow> in_step pre s0 (fold (offer_pod_monitor pd pod) pms s) (f, fold (ref_pod_monitor pd pod) pms d0)"
  by (induction pms arbitrary: s d0) (simp_all add: offer_pod_monitor_step)

text \<open>The accumulator of the running derivation after a pod is that of the pod on its own, behind the targets so far.\<close>
lemma derive_pod_exact:
  assumes "\<not> diagnostic (dv_d s)" "doors_ok (dv_doors s)"
  shows "rebase (d_out (dv_d s)) (ref_pod pd monitored matched pms pod) (dv_d (derive_pod pd monitored matched pms pod s)) \<and>
    doors_ok (dv_doors (derive_pod pd monitored matched pms pod s)) \<and> dv_enr (derive_pod pd monitored matched pms pod s) = dv_enr s"
proof -
  let ?pre = "d_out (dv_d s)" and ?st = "([], add_offered (PodTargets pod) zero_targetDedup)"
  define s1 where "s1 = s\<lparr>dv_d := add_offered (PodTargets pod) (Dedup_reset ?pre (dv_d s)), dv_offers := [], dv_pending := []\<rparr>"
  define s2 where "s2 = fold (offer_service pd monitored pod) matched s1"
  define s3 where "s3 = fold (settle_endpoint pod) (dv_pending s2) s2"
  define s4 where "s4 = fold (offer_pod_monitor pd pod) pms s3"
  have "in_step ?pre s s1 ?st" using assms rebase_reset by (simp add: in_step_def s1_def rebase_add_offered)
  then have "in_step ?pre s s2 (fold (ref_service pd monitored pod) matched ?st)" unfolding s2_def by (rule offer_services_step)
  then have "in_step ?pre s s3 (fold (ref_service pd monitored pod) matched ?st)" unfolding s3_def by (rule settle_step)
  then have "in_step ?pre s s4 (fst (fold (ref_service pd monitored pod) matched ?st), ref_pod pd monitored matched pms pod)"
    unfolding s4_def ref_pod_def by (metis offer_pod_monitors_step prod.collapse)
  moreover have "dv_d (derive_pod pd monitored matched pms pod s) = dv_d s4" "dv_doors (derive_pod pd monitored matched pms pod s) = dv_doors s4"
    "dv_enr (derive_pod pd monitored matched pms pod s) = dv_enr s4"
    by (simp_all add: derive_pod_def Let_def s1_def s2_def s3_def s4_def)
  ultimately show ?thesis by (simp add: in_step_def)
qed

subsection \<open>Narrowing\<close>

lemma ref_service_idle: "\<not> serviceOptsIn svc monitored \<Longrightarrow> ref_service pd monitored pod svc st = st"
  by (cases st) (simp add: ref_service_def serviceOptsIn_def ServiceTargets_def Door_Targets_def NewServiceDoor_def closed_door_def add_offered_def)

lemma ref_services_narrow:
  "fold (ref_service pd monitored pod) (filter (\<lambda>svc. serviceOptsIn svc monitored) svcs) st = fold (ref_service pd monitored pod) svcs st"
  by (induction svcs arbitrary: st) (simp_all add: ref_service_idle)

lemma ref_pod_narrow: "ref_pod pd monitored (filter (\<lambda>svc. serviceOptsIn svc monitored) svcs) pms pod = ref_pod pd monitored svcs pms pod"
  by (simp add: ref_pod_def ref_services_narrow)

lemma list_at_optIn:
  assumes "wf_map byNS"
  shows "list_at (optInServices byNS monitored) ns = filter (\<lambda>svc. serviceOptsIn svc monitored) (list_at byNS ns)"
proof -
  have "get (optInServices byNS monitored) ns =
      (case get byNS ns of None \<Rightarrow> None | Some l \<Rightarrow> if filter (\<lambda>svc. serviceOptsIn svc monitored) l = [] then None else Some (filter (\<lambda>svc. serviceOptsIn svc monitored) l))"
    using assms unfolding optInServices_def
  proof (induction byNS)
    case (Cons p byNS)
    have "get byNS (fst p) = None" using Cons.prems by (simp add: map_of_eq_None_iff)
    then show ?case using Cons by (cases p) auto
  qed simp
  then show ?thesis by (simp add: list_at_def split: option.split)
qed

subsection \<open>The targets of a node\<close>

text \<open>The targets of one pod of the node, given every Service of its namespace in the order of their names.\<close>
definition pod_targets :: "(string \<Rightarrow> duration option) \<Rightarrow> ('sel \<Rightarrow> strmap \<Rightarrow> bool) \<Rightarrow> world \<Rightarrow> (uid, monitorEndpoint_ref list) gomap \<Rightarrow>
    Index \<Rightarrow> 'sel podMonitorRef list \<Rightarrow> NodePod \<Rightarrow> targetDedup" where
  "pod_targets pd matches w monitored ix refs np =
     (if \<not> Scrapeable (np_Pod np) then zero_targetDedup
      else ref_pod pd monitored (matchingServices (sorted_services (byNamespace ix) (pod_Namespace (np_Pod np))) (pod_Labels (np_Pod np)))
             (podMonitorsFor matches (np_Pod np) refs) (enriched w (np_OwnerRefs np) (np_Pod np)))"

definition pods_plain :: "NodePod list \<Rightarrow> bool" where
  "pods_plain nps \<longleftrightarrow> (\<forall>np \<in> set nps. plain_refs (pod_Namespace (np_Pod np)) (np_OwnerRefs np))"

definition node_ok :: "world \<Rightarrow> derivation \<Rightarrow> bool" where
  "node_ok w s \<longleftrightarrow> \<not> diagnostic (dv_d s) \<and> doors_ok (dv_doors s) \<and> enr_ok w (dv_enr s)"

subsection \<open>Refusals are reported\<close>

lemma reports_grow:
  "set (dv_reports s) \<subseteq> set (dv_reports (offer_service pd monitored pod svc s))"
  "set (dv_reports s) \<subseteq> set (dv_reports (settle_endpoint pod sme s))"
  "set (dv_reports s) \<subseteq> set (dv_reports (offer_pod_monitor pd pod pm s))"
proof -
  have f: "set (dv_reports s) \<subseteq> set (dv_reports (fold g xs s))" if "\<And>x s. set (dv_reports s) \<subseteq> set (dv_reports (g x s))" for g :: "'x \<Rightarrow> derivation \<Rightarrow> derivation" and xs s
    using that by (induction xs arbitrary: s) (auto, meson subsetD)
  have n: "set (dv_reports s) \<subseteq> set (dv_reports (note_merge k m o' s))" "set (dv_reports s) \<subseteq> set (dv_reports (noteUnresolved k m ep pod s))" for k m o' ep s
    by (auto simp: note_merge_def noteUnresolved_def split: option.split prod.split)
  have e: "set (dv_reports s) \<subseteq> set (dv_reports (offer_endpoint pd pod svc sme s))" for sme s
  proof -
    obtain o' f d where "offerServiceMonitor pd pod (Some svc) sme (dv_offers s, dv_d s) = (o', f, d)" by (metis prod_cases3)
    then show ?thesis using n(1) [of "s\<lparr>dv_offers := f, dv_d := d\<rparr>"] by (simp add: offer_endpoint_def Let_def)
  qed
  have p: "set (dv_reports s) \<subseteq> set (dv_reports (offer_pod_endpoint pd pod name ep s))" for name ep s
  proof -
    obtain o' d where "offerPodMonitor pd pod name ep (dv_d s) = (o', d)" by fastforce
    then show ?thesis using n [of "s\<lparr>dv_d := d\<rparr>"] by (simp add: offer_pod_endpoint_def Let_def)
  qed
  show "set (dv_reports s) \<subseteq> set (dv_reports (offer_service pd monitored pod svc s))"
  proof -
    obtain ts doors where "doors_targets pod svc (dv_doors s) = (ts, doors)" by fastforce
    then show ?thesis using f [OF e, of "s\<lparr>dv_doors := doors, dv_d := add_offered ts (dv_d s)\<rparr>"] by (simp add: offer_service_def)
  qed
  show "set (dv_reports s) \<subseteq> set (dv_reports (settle_endpoint pod sme s))" using n(2) by (simp add: settle_endpoint_def)
  show "set (dv_reports s) \<subseteq> set (dv_reports (offer_pod_monitor pd pod pm s))" using f [OF p] by (simp add: offer_pod_monitor_def)
qed

lemma reports_fold:
  assumes "\<And>x s. set (dv_reports s) \<subseteq> set (dv_reports (g x s))"
  shows "set (dv_reports s) \<subseteq> set (dv_reports (fold g xs s))"
  using assms by (induction xs arbitrary: s) (auto, meson subsetD)

lemma derive_pod_reports:
  "set (dv_reports s) \<subseteq> set (dv_reports (derive_pod pd monitored matched pms pod s)) \<and>
   (d_capped (dv_d (derive_pod pd monitored matched pms pod s)) > 0 \<longrightarrow>
      PodCapped pod (d_capped (dv_d (derive_pod pd monitored matched pms pod s))) (cappedBySize (dv_d (derive_pod pd monitored matched pms pod s)))
        \<in> set (dv_reports (derive_pod pd monitored matched pms pod s)))"
proof -
  define s1 where "s1 = s\<lparr>dv_d := add_offered (PodTargets pod) (Dedup_reset (d_out (dv_d s)) (dv_d s)), dv_offers := [], dv_pending := []\<rparr>"
  define s2 where "s2 = fold (offer_service pd monitored pod) matched s1"
  define s3 where "s3 = fold (settle_endpoint pod) (dv_pending s2) s2"
  define s4 where "s4 = fold (offer_pod_monitor pd pod) pms s3"
  have "set (dv_reports s) \<subseteq> set (dv_reports s1)" by (simp add: s1_def)
  also have "\<dots> \<subseteq> set (dv_reports s2)" unfolding s2_def by (rule reports_fold) (rule reports_grow(1))
  also have "\<dots> \<subseteq> set (dv_reports s3)" unfolding s3_def by (rule reports_fold) (rule reports_grow(2))
  also have "\<dots> \<subseteq> set (dv_reports s4)" unfolding s4_def by (rule reports_fold) (rule reports_grow(3))
  finally show ?thesis by (auto simp: derive_pod_def Let_def s1_def s2_def s3_def s4_def)
qed

lemmas derive_pod_grow = derive_pod_reports [THEN conjunct1]

lemma node_pod_step_cases:
  obtains "node_pod_step pd matches w monitored optIn refs np s = s"
  | n where "node_pod_step pd matches w monitored optIn refs np s = s\<lparr>dv_evals := n\<rparr>"
  | n enr r matched pod where "node_pod_step pd matches w monitored optIn refs np s =
      derive_pod pd monitored matched (podMonitorsFor matches (np_Pod np) refs) pod (s\<lparr>dv_evals := n, dv_enr := enr, dv_resolver := r\<rparr>)"
proof -
  obtain pod enr r where "enrichCached w (np_OwnerRefs np) (np_Pod np) (dv_enr s, dv_resolver s) = (pod, enr, r)" by (metis prod_cases3)
  note e = this
  let ?m = "matchingServices (list_at optIn (pod_Namespace (np_Pod np))) (pod_Labels (np_Pod np))" and ?p = "podMonitorsFor matches (np_Pod np) refs"
  show ?thesis
  proof (cases "Scrapeable (np_Pod np)")
    case True
    show ?thesis
    proof (cases "\<not> OptedIn (pod_Annotations (np_Pod np)) \<and> ?m = [] \<and> ?p = []")
      case skip: True
      show ?thesis by (rule that(2)) (simp add: node_pod_step_def Let_def True skip)
    next
      case go: False
      have "node_pod_step pd matches w monitored optIn refs np s =
          derive_pod pd monitored ?m ?p pod (s\<lparr>dv_evals := dv_evals s + length (list_at optIn (pod_Namespace (np_Pod np))), dv_enr := enr, dv_resolver := r\<rparr>)"
        using go by (auto simp: node_pod_step_def Let_def True e)
      then show ?thesis by (rule that(3))
    qed
  qed (rule that(1), simp add: node_pod_step_def)
qed

lemma node_pod_step_reports: "set (dv_reports s) \<subseteq> set (dv_reports (node_pod_step pd matches w monitored optIn refs np s))"
proof (cases rule: node_pod_step_cases [of pd matches w monitored optIn refs np s])
  case (3 n enr r matched pod)
  have "set (dv_reports (s\<lparr>dv_evals := n, dv_enr := enr, dv_resolver := r\<rparr>)) \<subseteq> set (dv_reports (node_pod_step pd matches w monitored optIn refs np s))"
    unfolding 3 by (rule derive_pod_grow)
  then show ?thesis by simp
qed simp_all

lemma matching_narrow:
  "matchingServices (filter (\<lambda>svc. serviceOptsIn svc monitored) svcs) labels = filter (\<lambda>svc. serviceOptsIn svc monitored) (matchingServices svcs labels)"
  by (simp add: matchingServices_def conj_commute)

lemma idle_pod:
  assumes "\<not> OptedIn (pod_Annotations pod)" "filter (\<lambda>svc. serviceOptsIn svc monitored) svcs = []"
  shows "ref_pod pd monitored svcs [] (enriched w orefs pod) = zero_targetDedup"
  using assms ref_services_narrow [of pd monitored "enriched w orefs pod" svcs, symmetric]
  by (simp add: ref_pod_def PodTargets_def add_offered_def)

text \<open>The report about a pod whose targets met a ceiling.\<close>
definition pod_capped :: "world \<Rightarrow> NodePod \<Rightarrow> targetDedup \<Rightarrow> derived_report" where
  "pod_capped w np d = PodCapped (enriched w (np_OwnerRefs np) (np_Pod np)) (d_capped d) (cappedBySize d)"

lemma node_pod_step_exact:
  assumes ok: "node_ok w s" and plain: "plain_refs (pod_Namespace (np_Pod np)) (np_OwnerRefs np)"
    and opt: "list_at optIn (pod_Namespace (np_Pod np)) =
      filter (\<lambda>svc. serviceOptsIn svc monitored) (sorted_services (byNamespace ix) (pod_Namespace (np_Pod np)))"
  shows "d_out (dv_d (node_pod_step pd matches w monitored optIn refs np s)) = d_out (dv_d s) @ d_out (pod_targets pd matches w monitored ix refs np) \<and>
    node_ok w (node_pod_step pd matches w monitored optIn refs np s) \<and>
    (d_capped (pod_targets pd matches w monitored ix refs np) > 0 \<longrightarrow>
       pod_capped w np (pod_targets pd matches w monitored ix refs np) \<in> set (dv_reports (node_pod_step pd matches w monitored optIn refs np s)))"
proof (cases "Scrapeable (np_Pod np)")
  case False
  then show ?thesis using ok by (simp add: node_pod_step_def pod_targets_def zero_targetDedup_def)
next
  case True
  let ?svcs = "matchingServices (sorted_services (byNamespace ix) (pod_Namespace (np_Pod np))) (pod_Labels (np_Pod np))"
  let ?pms = "podMonitorsFor matches (np_Pod np) refs" and ?pod = "enriched w (np_OwnerRefs np) (np_Pod np)"
  let ?matched = "filter (\<lambda>svc. serviceOptsIn svc monitored) ?svcs"
  have m: "matchingServices (list_at optIn (pod_Namespace (np_Pod np))) (pod_Labels (np_Pod np)) = ?matched"
    unfolding opt by (rule matching_narrow)
  define s1 where "s1 = s\<lparr>dv_evals := dv_evals s + length (list_at optIn (pod_Namespace (np_Pod np)))\<rparr>"
  show ?thesis
  proof (cases "\<not> OptedIn (pod_Annotations (np_Pod np)) \<and> ?matched = [] \<and> ?pms = []")
    case skip: True
    have "pod_targets pd matches w monitored ix refs np = zero_targetDedup"
      using skip True by (simp add: pod_targets_def idle_pod)
    then have "d_out (pod_targets pd matches w monitored ix refs np) = []" "d_capped (pod_targets pd matches w monitored ix refs np) = 0"
      by (simp_all add: zero_targetDedup_def)
    moreover have "node_pod_step pd matches w monitored optIn refs np s = s1" using True skip m by (simp add: node_pod_step_def s1_def Let_def)
    ultimately show ?thesis using ok by (simp add: s1_def node_ok_def)
  next
    case go: False
    obtain pod enr r where e: "enrichCached w (np_OwnerRefs np) (np_Pod np) (dv_enr s, dv_resolver s) = (pod, enr, r)" by (metis prod_cases3)
    have e': "pod = ?pod" "enr_ok w enr" using enrichCached_exact [OF _ plain, of w "dv_enr s" "dv_resolver s"] ok e by (simp_all add: node_ok_def)
    define s2 where "s2 = s1\<lparr>dv_enr := enr, dv_resolver := r\<rparr>"
    have step: "node_pod_step pd matches w monitored optIn refs np s = derive_pod pd monitored ?matched ?pms ?pod s2"
      using True go m e e' by (auto simp: node_pod_step_def s2_def s1_def Let_def)
    have "\<not> diagnostic (dv_d s2)" "doors_ok (dv_doors s2)" "d_out (dv_d s2) = d_out (dv_d s)" "dv_enr s2 = enr"
      using ok by (simp_all add: node_ok_def s2_def s1_def)
    note x = derive_pod_exact [OF this(1,2), of pd monitored ?matched ?pms ?pod] this
    have "ref_pod pd monitored ?matched ?pms ?pod = pod_targets pd matches w monitored ix refs np"
      using True by (simp add: pod_targets_def ref_pod_narrow)
    then show ?thesis unfolding step using x e' derive_pod_reports [of s2 pd monitored ?matched ?pms ?pod]
      by (simp add: node_ok_def rebase_def pod_capped_def)
  qed
qed

lemma node_pods_exact:
  assumes "node_ok w s" "pods_plain nps"
    and "\<And>np. np \<in> set nps \<Longrightarrow> list_at optIn (pod_Namespace (np_Pod np)) =
      filter (\<lambda>svc. serviceOptsIn svc monitored) (sorted_services (byNamespace ix) (pod_Namespace (np_Pod np)))"
  shows "d_out (dv_d (fold (node_pod_step pd matches w monitored optIn refs) nps s)) =
      d_out (dv_d s) @ concat (map (\<lambda>np. d_out (pod_targets pd matches w monitored ix refs np)) nps) \<and>
    (\<forall>np \<in> set nps. d_capped (pod_targets pd matches w monitored ix refs np) > 0 \<longrightarrow>
       pod_capped w np (pod_targets pd matches w monitored ix refs np) \<in> set (dv_reports (fold (node_pod_step pd matches w monitored optIn refs) nps s)))"
  using assms
proof (induction nps arbitrary: s)
  case (Cons np nps)
  have "plain_refs (pod_Namespace (np_Pod np)) (np_OwnerRefs np)" "pods_plain nps" using Cons.prems(2) by (simp_all add: pods_plain_def)
  note s = node_pod_step_exact [OF Cons.prems(1) this(1) Cons.prems(3), where pd = pd and matches = matches and refs = refs] this(2)
  let ?s = "node_pod_step pd matches w monitored optIn refs np s"
  have "set (dv_reports ?s) \<subseteq> set (dv_reports (fold (node_pod_step pd matches w monitored optIn refs) nps ?s))"
    by (rule reports_fold) (rule node_pod_step_reports)
  then show ?case using Cons.IH [OF _ s(2) Cons.prems(3)] s(1) by auto
qed simp

lemma podNamespaces_set: "set (podNamespaces nps) = (\<lambda>np. pod_Namespace (np_Pod np)) ` set nps"
proof -
  have "set (fold (\<lambda>np. add_namespace (pod_Namespace (np_Pod np))) nps acc) = set acc \<union> (\<lambda>np. pod_Namespace (np_Pod np)) ` set nps" for acc
    by (induction nps arbitrary: acc) auto
  then show ?thesis by (simp add: podNamespaces_def)
qed

lemma wf_filter_put: "wf_map (found :: ('k, 'v) gomap) \<Longrightarrow> wf_map (put k v found)" by simp

lemma memo_one_wf: "wf_map found \<Longrightarrow> wf_map (fst (memo_one memo ns (found, missing)))"
  by (auto split: option.split)

lemma InNamespaces_wf: "wf_map (fst (InNamespaces nss ix))"
proof -
  have m: "wf_map (fst (fold (memo_one memo) nss st))" if "wf_map (fst st)" for memo nss st
    using that
  proof (induction nss arbitrary: st)
    case (Cons ns nss)
    have "wf_map (fst (memo_one memo ns st))" using Cons.prems memo_one_wf by (cases st) simp
    from Cons.IH [OF this] show ?case by simp
  qed simp
  have b: "wf_map (fst (build_lists data nss found))" if "wf_map found" for data nss found
    using that by (induction data nss found rule: build_lists.induct) (auto simp: Let_def split: option.split prod.split)
  obtain found missing usable ix' where s: "memo_section nss (Index.gen ix) ix = ((found, missing, usable), ix')" by (metis prod.exhaust)
  have "wf_map found" using s m [of "([], [])"] by (auto simp: memo_section_def Let_def split: if_splits prod.splits) (metis fst_conv)+
  then show ?thesis using b by (auto simp: InNamespaces_def s build_section_def Let_def split: prod.split) (metis fst_conv)+
qed

lemma run_section_reads: "run_section namespaces (run, ix) = (run', ix') \<Longrightarrow> \<exists>n. ix' = ix\<lparr>reads := n\<rparr>"
  by (cases ix) (auto simp: run_section_def Index_All_def Let_def split: if_splits)

lemma build_reads:
  "fold (build_monitor matches) mons (cache, run, ix) = (cache', run', ix') \<Longrightarrow> \<exists>n. ix' = ix\<lparr>reads := n\<rparr>"
proof (induction mons arbitrary: cache run ix)
  case Nil
  then show ?case by (cases ix) auto
next
  case (Cons m mons)
  obtain run1 ix1 where r: "run_section (monitor_namespaces (snd m)) (run, ix) = (run1, ix1)" by fastforce
  obtain n where "ix1 = ix\<lparr>reads := n\<rparr>" using run_section_reads [OF r] ..
  then show ?case using Cons.prems Cons.IH [of "fold (select_service matches m) (runSvcs run1) cache" run1 ix1]
    by (auto simp: build_monitor_def [of _ m] r)
qed

lemma monitoredServices_frame:
  assumes "monitoredServices matches mm = (monitored, mm')"
  shows "\<exists>n. mm_services mm' = (mm_services mm)\<lparr>reads := n\<rparr>" "fst (allPodMonitors mm') = fst (allPodMonitors mm)"
    "mm_services (snd (allPodMonitors mm')) = mm_services mm'"
proof -
  obtain c run i where f: "fold (build_monitor matches) (MIndex_All (held_index mm)) ([], \<lparr>runKey = [], runSvcs = [], runValid = False\<rparr>, mm_services mm) = (c, run, i)"
    by (metis prod_cases3)
  have "\<exists>n. mm_services mm = (mm_services mm)\<lparr>reads := n\<rparr>" by (cases "mm_services mm") auto
  then show "\<exists>n. mm_services mm' = (mm_services mm)\<lparr>reads := n\<rparr>" using assms build_reads [OF f]
    by (auto simp: monitoredServices_def monitoredServicesAt_def buildMonitoredServices_def f Let_def split: option.splits if_splits)
  have same: "mm_monitors mm' = mm_monitors mm" "pmValid mm' = pmValid mm" "pmGen mm' = pmGen mm" "pmCache mm' = pmCache mm"
    using assms memo_stamps(3,4,5) [of matches _ _ mm] memo_use(1) [of matches _ _ mm]
    by (auto simp: monitoredServices_def split: option.splits) (metis snd_conv)+
  then have "held_index mm' = held_index mm" by (simp add: held_index_def)
  with same show "fst (allPodMonitors mm') = fst (allPodMonitors mm)" by (simp add: allPodMonitors_def allPodMonitorsAt_def Let_def split: option.split)
  show "mm_services (snd (allPodMonitors mm')) = mm_services mm'" by (simp add: allPodMonitors_def allPodMonitorsAt_def Let_def split: option.split)
qed

lemma start_ok': "node_ok w (start_derivation r)" "d_out (dv_d (start_derivation r)) = []"
  by (simp_all add: node_ok_def start_derivation_def zero_targetDedup_def doors_ok_def enr_ok_def)

lemma nodeTargets_list:
  fixes sv :: "'sel target_server"
  assumes memo: "memo_ok (mm_services (sv_memos sv))" and plain: "pods_plain (PodsOnNode node (sv_store sv))"
    and monitored: "monitored = fst (monitoredServices matches (sv_memos sv))" and refs: "refs = fst (allPodMonitors (sv_memos sv))"
  shows "\<exists>reports sv'. nodeTargets pd matches w node sv =
    Some (sort_key target_key (concat (map (\<lambda>np. d_out (pod_targets pd matches w monitored (mm_services (sv_memos sv)) refs np)) (PodsOnNode node (sv_store sv)))),
      PodsOnNode node (sv_store sv) \<noteq> [], reports, sv') \<and>
    (\<forall>np \<in> set (PodsOnNode node (sv_store sv)).
       d_capped (pod_targets pd matches w monitored (mm_services (sv_memos sv)) refs np) > 0 \<longrightarrow>
       pod_capped w np (pod_targets pd matches w monitored (mm_services (sv_memos sv)) refs np) \<in> set reports)"
proof (cases "PodsOnNode node (sv_store sv) = []")
  case True
  then show ?thesis by (simp add: nodeTargets_def Let_def)
next
  case False
  let ?nps = "PodsOnNode node (sv_store sv)" and ?ix = "mm_services (sv_memos sv)"
  obtain mon mm1 where m: "monitoredServices matches (sv_memos sv) = (mon, mm1)" by fastforce
  obtain rf mm2 where p: "allPodMonitors mm1 = (rf, mm2)" by fastforce
  obtain byNS ix where i: "InNamespaces (podNamespaces ?nps) (mm_services mm2) = (byNS, ix)" by fastforce
  note frame = monitoredServices_frame [OF m]
  obtain n where n: "mm_services mm2 = ?ix\<lparr>reads := n\<rparr>" using frame(1,3) p by auto
  have names: "mon = monitored" "rf = refs" using m frame(2) p by (simp_all add: monitored refs)
  have memo2: "memo_ok (mm_services mm2)" and byN: "byNamespace (mm_services mm2) = byNamespace ?ix" using memo by (simp_all add: n memo_ok_def)
  have "list_at byNS (pod_Namespace (np_Pod np)) = sorted_services (byNamespace ?ix) (pod_Namespace (np_Pod np))" if "np \<in> set ?nps" for np
    using InNamespaces_memo(1) [OF memo2, of "podNamespaces ?nps" "pod_Namespace (np_Pod np)"] that
    by (simp add: i byN podNamespaces_set list_at_def split: if_splits)
  moreover have "wf_map byNS" using InNamespaces_wf [of "podNamespaces ?nps" "mm_services mm2"] by (simp add: i)
  ultimately have opt: "list_at (optInServices byNS monitored) (pod_Namespace (np_Pod np)) =
      filter (\<lambda>svc. serviceOptsIn svc monitored) (sorted_services (byNamespace ?ix) (pod_Namespace (np_Pod np)))" if "np \<in> set ?nps" for np
    using that by (simp add: list_at_optIn)
  note node_pods_exact [OF start_ok'(1) [of w "sv_resolver sv"] plain opt, where pd = pd and matches = matches and refs = refs]
  then show ?thesis using False by (simp add: nodeTargets_def m p i names Let_def sortTargets_sorts start_ok'(2))
qed

end
