(* ===== verification/NodeDoors.thy ===== *)
theory NodeDoors
  imports NodeTargets
begin

section \<open>What is served of a node (internal/server: nodetargets.go)\<close>

text \<open>
  The properties of the list of targets of a node: it is the concatenation of what each pod has on its own, every
  URL a door of a pod offers is served or its refusal is reported, and it does not depend on the order in which
  the pods came.
\<close>

subsection \<open>What the doors of a pod offer is served or refused\<close>

lemma door_loop_pod: "\<forall>t \<in> set ts. t_Pod t = pod \<Longrightarrow> t \<in> set (door_loop d pod sps ports ts) \<Longrightarrow> t_Pod t = pod"
proof (induction d pod sps ports ts rule: door_loop.induct)
  case (2 d pod sp sps ports ts)
  show ?case
  proof (cases "MaxPortsPerPod \<le> length ts")
    case False
    show ?thesis
    proof (cases "targetPodPort pod sp")
      case None
      then show ?thesis using 2(1) [OF False None] 2(4,5) False by simp
    next
      case (Some port)
      show ?thesis
      proof (cases "port \<in> set ports")
        case True
        then show ?thesis using 2(2) [OF False Some True] 2(4,5) False Some by simp
      next
        case new: False
        then show ?thesis using 2(3) [OF False Some new] 2(4,5) False Some by simp
      qed
    qed
  qed (use 2(4,5) in simp)
qed simp

lemma ServiceTargets_cases:
  "ServiceTargets pod svc = [] \<or> ServiceTargets pod svc = door_loop (NewServiceDoor svc) pod (door_ports (NewServiceDoor svc)) [] []"
  unfolding ServiceTargets_def Door_Targets_def by presburger

lemma ServiceTargets_pod:
  assumes "t \<in> set (ServiceTargets pod svc)" shows "t_Pod t = pod"
  using ServiceTargets_cases [of pod svc]
proof
  assume "ServiceTargets pod svc = door_loop (NewServiceDoor svc) pod (door_ports (NewServiceDoor svc)) [] []"
  with assms door_loop_pod [of "[]" pod t] show ?thesis by (metis empty_iff list.set(1))
qed (use assms in simp)

text \<open>The URLs the doors of a pod offer.\<close>
definition service_urls :: "(uid, monitorEndpoint_ref list) gomap \<Rightarrow> Pod \<Rightarrow> Service \<Rightarrow> string set" where
  "service_urls monitored pod svc = t_URL ` set (ServiceTargets pod (Some svc)) \<union>
     {u. \<exists>sme \<in> set (list_at monitored (svc_UID svc)). MonitorTargetURL pod (Some svc) (me_endpoint sme) = Some u}"

definition pod_monitor_urls :: "Pod \<Rightarrow> 'sel podMonitorRef \<Rightarrow> string set" where
  "pod_monitor_urls pod pm = {u. \<exists>ep \<in> set (mb_Endpoints (snd (pr_monitor pm))). PodMonitorTargetURL pod ep = Some u}"

definition door_urls :: "(uid, monitorEndpoint_ref list) gomap \<Rightarrow> Service list \<Rightarrow> 'sel podMonitorRef list \<Rightarrow> Pod \<Rightarrow> string set" where
  "door_urls monitored matched pms pod = t_URL ` set (PodTargets pod) \<union> (\<Union>svc \<in> set matched. service_urls monitored pod svc) \<union>
     (\<Union>pm \<in> set pms. pod_monitor_urls pod pm)"

text \<open>After the doors that offer the URLs \<open>U\<close>: nothing else is served, and all of it unless something was refused.\<close>
definition covers :: "Pod \<Rightarrow> string set \<Rightarrow> monitorOffers \<times> targetDedup \<Rightarrow> bool" where
  "covers pod U st \<longleftrightarrow> dedup_ok pod (snd st) \<and> served_urls (snd st) \<subseteq> U \<and>
     (d_capped (snd st) = 0 \<longrightarrow> U \<subseteq> served_urls (snd st) \<and> fst ` set (fst st) \<subseteq> served_urls (snd st))"

lemma held_urlOwner: "urlOwner (upgrade i t d) = urlOwner d" "urlOwner (keep_held i t d) = urlOwner d" "urlOwner (snd (mergeInto pd i u m ep d)) = urlOwner d"
proof -
  have "boundSwapView same i c b g d = (g', c', d') \<Longrightarrow> urlOwner d' = urlOwner d" for same i c b g g' c' d'
    by (auto simp: boundSwapView_def Let_def split: if_splits)
  then show "urlOwner (upgrade i t d) = urlOwner d" "urlOwner (keep_held i t d) = urlOwner d"
    by (auto simp: upgrade_def keep_held_def Let_def chargeSwap_def split: prod.splits)
  show "urlOwner (snd (mergeInto pd i u m ep d)) = urlOwner d" by (auto simp: mergeInto_def Let_def charge_def adoptedAuth_def split: prod.split)
qed

lemma add_url_owner: "u \<noteq> t_URL t \<Longrightarrow> get (urlOwner (snd (add_url t d))) u = get (urlOwner d) u"
  unfolding add_url_def refuse_fields(3) by (simp add: refuse_fields(3) Let_def)

lemma add_urls:
  assumes ok: "dedup_ok pod d" and t: "t_Pod t = pod"
  shows "served_urls (snd (Dedup_add t d)) \<subseteq> insert (t_URL t) (served_urls d)"
proof -
  have ok': "dedup_ok pod (snd (Dedup_add t d))" using Dedup_add_ok [OF ok t] by (simp add: good_step_def)
  have "get (urlOwner (snd (Dedup_add t d))) u = get (urlOwner d) u" if "u \<noteq> t_URL t" for u
    using that by (simp add: Dedup_add_def held_urlOwner add_url_owner split: option.split)
  then show ?thesis unfolding subset_iff served_iff [OF ok] served_iff [OF ok'] insert_iff by metis
qed

lemma covers_add:
  assumes c: "covers pod U (f, d)" and t: "t_Pod t = pod"
  shows "covers pod (insert (t_URL t) U) (f, snd (Dedup_add t d))"
proof -
  have ok: "dedup_ok pod d" using c by (simp add: covers_def)
  obtain v d' where a: "Dedup_add t d = (v, d')" by fastforce
  note s = Dedup_add_settles(1) [OF ok t a]
  have g: "dedup_ok pod d'" "grows d d'" using Dedup_add_ok [OF ok t] by (simp_all add: a good_step_def)
  note grows_served [OF ok g] add_urls [OF ok t]
  then show ?thesis using c s g(1) unfolding covers_def settled_def a by auto
qed

lemma covers_add_offered:
  assumes "covers pod U (f, d)" "\<forall>t \<in> set ts. t_Pod t = pod"
  shows "covers pod (U \<union> t_URL ` set ts) (f, add_offered ts d)"
  using assms
proof (induction ts arbitrary: U d)
  case (Cons t ts)
  have "covers pod (insert (t_URL t) U) (f, snd (Dedup_add t d))" using covers_add Cons.prems by simp
  from Cons.IH [OF this] Cons.prems(2) show ?case by (simp add: add_offered_def)
qed (simp add: add_offered_def)

lemma add_all_urls:
  "dedup_ok pod d \<Longrightarrow> \<forall>t \<in> set ts. t_Pod t = pod \<Longrightarrow> served_urls (snd (add_all ts o' d)) \<subseteq> t_URL ` set ts \<union> served_urls d"
proof (induction ts arbitrary: d o')
  case (Cons t ts)
  obtain v e where a: "Dedup_add t d = (v, e)" by fastforce
  have t: "t_Pod t = pod" using Cons.prems(2) by simp
  have "dedup_ok pod e" using Dedup_add_ok [OF Cons.prems(1) t] by (simp add: a good_step_def)
  from Cons.IH [OF this, of "if v \<noteq> targetAccepted then o'\<lparr>eo_refused := v\<rparr> else o'"] Cons.prems(2) add_urls [OF Cons.prems(1) t]
  show ?case by (auto simp: a)
qed simp

lemma merge_urls:
  assumes ok: "dedup_ok pod d" and h: "monitorHolder url d = Some i"
  shows "served_urls (snd (mergeInto pd i url m ep d)) = served_urls d"
proof -
  have ok': "dedup_ok pod (snd (mergeInto pd i url m ep d))" using mergeInto_ok [OF ok holder_index [OF h]] by (simp add: good_step_def)
  show ?thesis by (rule set_eqI) (simp add: served_iff [OF ok] served_iff [OF ok'] held_urlOwner(3))
qed

lemma offer_urls:
  assumes ok: "dedup_ok pod d" and o: "offerServiceMonitor pd pod svc sme (f, d) = (r, f', d')"
  shows "served_urls d' \<subseteq> served_urls d \<union> {u. MonitorTargetURL pod svc (me_endpoint sme) = Some u}"
proof (cases "MonitorTargetURL pod svc (me_endpoint sme)")
  case None
  then show ?thesis using o by (simp add: offerServiceMonitor_def)
next
  case (Some url)
  let ?ts = "MonitorTargets pod svc (me_monitor sme) (me_endpoint sme)"
  have ts: "t_URL ` set ?ts = {url}"
    using Some by (auto simp: MonitorTargets_def MonitorTargetURL_def stampEndpoint_def makeTarget_URL split: option.splits)
  have "\<forall>t \<in> set ?ts. t_Pod t = pod" using targets_pod(1) by blast
  note a = add_all_urls [OF ok this, unfolded ts]
  consider "d' = d" | i where "monitorHolder url d = Some i" "d' = snd (mergeInto pd i url (me_monitor sme) (me_endpoint sme) d)"
    | o' where "d' = snd (add_all ?ts o' d)"
    using o Some by (auto simp: offerServiceMonitor_def offers_first_def split: option.splits prod.splits if_splits) (metis snd_conv)+
  then show ?thesis
  proof cases
    case (2 i)
    then show ?thesis using merge_urls [OF ok] by auto
  qed (use a Some in auto)
qed

lemma offer_pod_urls:
  assumes ok: "dedup_ok pod d" and o: "offerPodMonitor pd pod name ep d = (r, d')"
  shows "served_urls d' \<subseteq> served_urls d \<union> {u. PodMonitorTargetURL pod ep = Some u}"
proof (cases "PodMonitorTargetURL pod ep")
  case None
  then show ?thesis using o by (simp add: offerPodMonitor_def)
next
  case (Some url)
  let ?ts = "PodMonitorTargets pod name ep"
  have ts: "t_URL ` set ?ts = {url}"
    using Some by (auto simp: PodMonitorTargets_def PodMonitorTargetURL_def stampEndpoint_def makeTarget_URL split: option.splits)
  have "\<forall>t \<in> set ?ts. t_Pod t = pod" using targets_pod(2) by blast
  note a = add_all_urls [OF ok this, unfolded ts]
  consider i where "monitorHolder url d = Some i" "d' = snd (mergeInto pd i url name ep d)" | o' where "d' = snd (add_all ?ts o' d)"
    using o Some by (auto simp: offerPodMonitor_def split: option.splits prod.splits) (metis snd_conv)+
  then show ?thesis
  proof cases
    case (1 i)
    then show ?thesis using merge_urls [OF ok] by auto
  qed (use a Some in auto)
qed

lemma covers_endpoint:
  assumes c: "covers pod U st"
  shows "covers pod (U \<union> {u. MonitorTargetURL pod (Some svc) (me_endpoint sme) = Some u}) (ref_endpoint pd pod svc sme st)"
proof -
  obtain f d where st: "st = (f, d)" by (cases st)
  obtain r f' d' where o: "offerServiceMonitor pd pod (Some svc) sme (f, d) = (r, f', d')" by (metis prod_cases3)
  have ok: "dedup_ok pod d" using c by (simp add: covers_def st)
  have ok': "dedup_ok pod d'" "grows d d'" using offerServiceMonitor_ok [OF ok o] by (simp_all add: good_step_def)
  note s = offerServiceMonitor_settles [OF ok o] and g = grows_served [OF ok ok'] and b = offer_urls [OF ok o]
  show ?thesis
  proof (cases "MonitorTargetURL pod (Some svc) (me_endpoint sme)")
    case None
    then show ?thesis using c o st by (simp add: ref_endpoint_def offerServiceMonitor_def)
  next
    case (Some u)
    have f': "set f' = insert (u, me_ptr sme) (set f)" and le: "d_capped d \<le> d_capped d'" using s Some by auto
    have u: "u \<in> served_urls d'" if "d_capped d' = 0"
    proof (cases "(u, me_ptr sme) \<in> set f")
      case True
      then have "d' = d" using s Some by simp
      then show ?thesis using c that True by (force simp: covers_def st)
    next
      case False
      then show ?thesis using s Some that le by (simp add: settled_def)
    qed
    have "served_urls d' \<subseteq> U \<union> {u}" using c b Some by (auto simp: covers_def st)
    moreover have "U \<subseteq> served_urls d' \<and> fst ` set f' \<subseteq> served_urls d'" if "d_capped d' = 0"
      using c g u [OF that] that le by (auto simp: covers_def st f')
    ultimately show ?thesis using ok' u Some by (simp add: covers_def ref_endpoint_def st o)
  qed
qed

lemma covers_endpoints:
  "covers pod U st \<Longrightarrow> covers pod (U \<union> {u. \<exists>sme \<in> set smes. MonitorTargetURL pod (Some svc) (me_endpoint sme) = Some u}) (fold (ref_endpoint pd pod svc) smes st)"
proof (induction smes arbitrary: U st)
  case (Cons sme smes)
  have "U \<union> {u. MonitorTargetURL pod (Some svc) (me_endpoint sme) = Some u} \<union> {u. \<exists>sme \<in> set smes. MonitorTargetURL pod (Some svc) (me_endpoint sme) = Some u} =
      U \<union> {u. \<exists>sme \<in> set (sme # smes). MonitorTargetURL pod (Some svc) (me_endpoint sme) = Some u}" by auto
  with Cons.IH [OF covers_endpoint [OF Cons.prems, of svc sme pd]] show ?case by simp
qed simp

lemma covers_service:
  assumes "covers pod U st"
  shows "covers pod (U \<union> service_urls monitored pod svc) (ref_service pd monitored pod svc st)"
proof -
  have t: "\<forall>t \<in> set (ServiceTargets pod (Some svc)). t_Pod t = pod"
    using ServiceTargets_pod by blast
  have "covers pod (U \<union> t_URL ` set (ServiceTargets pod (Some svc))) (fst st, add_offered (ServiceTargets pod (Some svc)) (snd st))"
    by (rule covers_add_offered [OF _ t]) (use assms in simp)
  from covers_endpoints [OF this, of "list_at monitored (svc_UID svc)" svc pd] show ?thesis
    by (simp add: ref_service_def service_urls_def Un_assoc)
qed

lemma covers_services:
  "covers pod U st \<Longrightarrow> covers pod (U \<union> (\<Union>svc \<in> set svcs. service_urls monitored pod svc)) (fold (ref_service pd monitored pod) svcs st)"
proof (induction svcs arbitrary: U st)
  case (Cons svc svcs)
  from Cons.IH [OF covers_service [OF Cons.prems, of monitored svc pd]] show ?case by (simp add: Un_assoc)
qed simp

lemma covers_pod_endpoint:
  assumes c: "covers pod U (f, d)"
  shows "covers pod (U \<union> {u. PodMonitorTargetURL pod ep = Some u}) (f, snd (offerPodMonitor pd pod name ep d))"
proof -
  obtain r d' where o: "offerPodMonitor pd pod name ep d = (r, d')" by fastforce
  have ok: "dedup_ok pod d" using c by (simp add: covers_def)
  have ok': "dedup_ok pod d'" "grows d d'" using offerPodMonitor_ok [OF ok o] by (simp_all add: good_step_def)
  note s = offerPodMonitor_settles [OF ok o] and g = grows_served [OF ok ok'] and b = offer_pod_urls [OF ok o]
  show ?thesis using c s g b ok' by (auto simp: covers_def settled_def o)
qed

lemma covers_pod_monitor:
  assumes "covers pod U (f, d)"
  shows "covers pod (U \<union> pod_monitor_urls pod pm) (f, ref_pod_monitor pd pod pm d)"
proof -
  have "covers pod (U \<union> {u. \<exists>ep \<in> set eps. PodMonitorTargetURL pod ep = Some u}) (f, fold (\<lambda>ep d. snd (offerPodMonitor pd pod name ep d)) eps d)"
    if "covers pod U (f, d)" for eps name U d
    using that
  proof (induction eps arbitrary: U d)
    case (Cons ep eps)
    have "U \<union> {u. PodMonitorTargetURL pod ep = Some u} \<union> {u. \<exists>ep \<in> set eps. PodMonitorTargetURL pod ep = Some u} =
        U \<union> {u. \<exists>ep \<in> set (ep # eps). PodMonitorTargetURL pod ep = Some u}" by auto
    with Cons.IH [OF covers_pod_endpoint [OF Cons.prems, of ep pd name]] show ?case by simp
  qed simp
  then show ?thesis using assms by (simp add: ref_pod_monitor_def pod_monitor_urls_def)
qed

lemma covers_ref_pod: "covers pod (door_urls monitored matched pms pod) (f', ref_pod pd monitored matched pms pod)" if "f' = []"
proof -
  have start: "covers pod {} ([], zero_targetDedup)"
    by (simp add: covers_def dedup_ok_def zero_targetDedup_def pod_window_def served_bytes_def served_urls_def)
  have t: "\<forall>t \<in> set (PodTargets pod). t_Pod t = pod" using targets_pod(3) by blast
  define st where "st = fold (ref_service pd monitored pod) matched ([], add_offered (PodTargets pod) zero_targetDedup)"
  define U where "U = t_URL ` set (PodTargets pod) \<union> (\<Union>svc \<in> set matched. service_urls monitored pod svc)"
  have "covers pod U st" unfolding st_def U_def using covers_services [OF covers_add_offered [OF start t], of monitored matched pd] by simp
  then have "covers pod U ([], snd st)" by (simp add: covers_def)
  moreover have "covers pod (V \<union> (\<Union>pm \<in> set pms. pod_monitor_urls pod pm)) ([], fold (ref_pod_monitor pd pod) pms d)"
    if "covers pod V ([], d)" for V d
    using that
  proof (induction pms arbitrary: V d)
    case (Cons pm pms)
    from Cons.IH [OF covers_pod_monitor [OF Cons.prems, of pm pd]] show ?case by (simp add: Un_assoc)
  qed simp
  ultimately show ?thesis using that by (simp add: ref_pod_def st_def [symmetric] door_urls_def U_def)
qed

subsection \<open>The list of a node\<close>

text \<open>The pod as it is served, the URLs its doors offer, and its part of a list.\<close>
definition served_pod :: "world \<Rightarrow> NodePod \<Rightarrow> Pod" where
  "served_pod w np = enriched w (np_OwnerRefs np) (np_Pod np)"

definition offered_urls :: "('sel \<Rightarrow> strmap \<Rightarrow> bool) \<Rightarrow> world \<Rightarrow> (uid, monitorEndpoint_ref list) gomap \<Rightarrow> Index \<Rightarrow>
    'sel podMonitorRef list \<Rightarrow> NodePod \<Rightarrow> string set" where
  "offered_urls matches w monitored ix refs np =
     door_urls monitored (matchingServices (sorted_services (byNamespace ix) (pod_Namespace (np_Pod np))) (pod_Labels (np_Pod np)))
       (podMonitorsFor matches (np_Pod np) refs) (served_pod w np)"

definition served_for :: "string \<Rightarrow> ScrapeTarget list \<Rightarrow> ScrapeTarget list" where
  "served_for uid targets = filter (\<lambda>t. pod_UID (t_Pod t) = uid) targets"

lemma served_pod_UID: "pod_UID (served_pod w np) = pod_UID (np_Pod np)"
  by (simp add: served_pod_def enriched_eq)

lemma ref_pod_base: "d_base (ref_pod pd monitored matched pms pod) = 0"
proof -
  have "\<not> diagnostic (dv_d (start_derivation NewFromListers))" "doors_ok (dv_doors (start_derivation NewFromListers))"
    by (simp_all add: start_derivation_def zero_targetDedup_def doors_ok_def)
  from derive_pod_exact [OF this, of pd monitored matched pms pod] show ?thesis by (simp add: rebase_def)
qed

lemma pod_targets_base: "d_base (pod_targets pd matches w monitored ix refs np) = 0"
  by (simp add: pod_targets_def ref_pod_base zero_targetDedup_def)

lemma pod_targets_window: "pod_window (pod_targets pd matches w monitored ix refs np) = d_out (pod_targets pd matches w monitored ix refs np)"
  by (simp add: pod_window_def pod_targets_base)

lemma dedup_ok_urls:
  assumes "dedup_ok pod d"
  shows "distinct (map t_URL (pod_window d))"
proof -
  have owner: "get (urlOwner d) (t_URL (pod_window d ! i)) = Some (d_base d + i)" if "i < length (pod_window d)" for i
  proof -
    have a: "get (urlOwner d) u = Some k \<longleftrightarrow> d_base d \<le> k \<and> k < length (d_out d) \<and> t_URL (d_out d ! k) = u" for u k
      using assms unfolding dedup_ok_def by iprover
    have "d_base d \<le> length (d_out d)" using assms unfolding dedup_ok_def by iprover
    then have "d_base d + i < length (d_out d)" "pod_window d ! i = d_out d ! (d_base d + i)"
      using that by (simp_all add: pod_window_def)
    then show ?thesis unfolding a by (intro conjI le_add1) simp_all
  qed
  have "i = j" if "i < length (pod_window d)" "j < length (pod_window d)" "t_URL (pod_window d ! i) = t_URL (pod_window d ! j)" for i j
    using owner [OF that(1)] owner [OF that(2)] that(3) by (metis add_left_imp_eq option.inject)
  then show ?thesis unfolding distinct_conv_nth by (metis length_map nth_map)
qed

lemma pod_targets_served:
  assumes "d = pod_targets pd matches w monitored ix refs np"
  shows "\<forall>t \<in> set (d_out d). t_Pod t = served_pod w np" "length (d_out d) \<le> MaxPortsPerPod" "distinct (map t_URL (d_out d))"
    "t_URL ` set (d_out d) \<subseteq> offered_urls matches w monitored ix refs np"
    "Scrapeable (np_Pod np) \<Longrightarrow> d_capped d = 0 \<Longrightarrow> t_URL ` set (d_out d) = offered_urls matches w monitored ix refs np"
proof -
  have c: "covers (served_pod w np) (offered_urls matches w monitored ix refs np) ([], d)" if "Scrapeable (np_Pod np)"
    using that covers_ref_pod [OF refl] by (simp add: assms pod_targets_def served_pod_def offered_urls_def)
  have w: "pod_window d = d_out d" by (simp add: assms pod_targets_window)
  have z: "d_out d = []" if "\<not> Scrapeable (np_Pod np)" using that by (simp add: assms pod_targets_def zero_targetDedup_def)
  show "\<forall>t \<in> set (d_out d). t_Pod t = served_pod w np" "length (d_out d) \<le> MaxPortsPerPod" "distinct (map t_URL (d_out d))"
      "t_URL ` set (d_out d) \<subseteq> offered_urls matches w monitored ix refs np"
    using c z dedup_ok_urls [of "served_pod w np" d] by (cases "Scrapeable (np_Pod np)"; force simp: covers_def dedup_ok_def w served_urls_def)+
  show "t_URL ` set (d_out d) = offered_urls matches w monitored ix refs np" if "Scrapeable (np_Pod np)" "d_capped d = 0"
    using c [OF that(1)] that(2) by (auto simp: covers_def w served_urls_def)
qed

lemma served_for_concat:
  assumes "distinct (map key xs)" "x \<in> set xs" "\<And>y t. y \<in> set xs \<Longrightarrow> t \<in> set (f y) \<Longrightarrow> pod_UID (t_Pod t) = key y"
  shows "served_for (key x) (concat (map f xs)) = f x"
  using assms
proof (induction xs)
  case (Cons y ys)
  have y: "served_for (key x) (f y) = (if key y = key x then f y else [])"
    using Cons.prems(3) [of y] by (auto simp: served_for_def filter_empty_conv intro: filter_True)
  show ?case
  proof (cases "y = x")
    case True
    have "pod_UID (t_Pod t) \<noteq> key x" if "z \<in> set ys" "t \<in> set (f z)" for z t
      using Cons.prems(1) Cons.prems(3) [of z t] that True by force
    then have "served_for (key x) (concat (map f ys)) = []" by (auto simp: served_for_def filter_empty_conv)
    then show ?thesis using y True by (simp add: served_for_def)
  next
    case False
    then have "x \<in> set ys" "key y \<noteq> key x" using Cons.prems(1,2) by auto
    then show ?thesis using Cons y by (simp add: served_for_def)
  qed
qed simp

lemma served_for_sort:
  "mset (served_for uid (sort_key target_key ts)) = mset (served_for uid ts)"
  by (simp add: served_for_def)

text \<open>The keys the list is sorted by are distinct.\<close>
lemma node_keys_distinct:
  assumes "distinct (map (\<lambda>np. pod_UID (np_Pod np)) nps)"
  shows "distinct (map target_key (concat (map (\<lambda>np. d_out (pod_targets pd matches w monitored ix refs np)) nps)))"
  using assms
proof (induction nps)
  case (Cons np nps)
  let ?f = "\<lambda>np. d_out (pod_targets pd matches w monitored ix refs np)"
  have u: "pod_UID (t_Pod t) = pod_UID (np_Pod q)" if "t \<in> set (?f q)" for t q
    using pod_targets_served(1) [OF refl, of pd matches w monitored ix refs q] that by (simp add: served_pod_UID)
  have "distinct (map target_key (?f np))"
    using pod_targets_served(3) [OF refl, of pd matches w monitored ix refs np] by (auto simp: distinct_map inj_on_def target_key_def)
  moreover have "target_key t \<noteq> target_key t'" if "t \<in> set (?f np)" "q \<in> set nps" "t' \<in> set (?f q)" for t t' q
    using u [OF that(1)] u [OF that(3)] Cons.prems that(2) by (force simp: target_key_def)
  ultimately show ?case using Cons by (simp add: image_iff disjoint_iff) metis
qed simp

lemma sort_keys_unique:
  assumes "mset us = mset ts" "distinct (map key ts)"
  shows "sort_key key us = sort_key key ts"
proof (rule sort_key_inj_key_eq)
  show "mset us = mset (sort_key key ts)" using assms by simp
  show "inj_on key (set us)" using assms mset_eq_setD by (metis distinct_map)
  show "sorted (map key (sort_key key ts))" by simp
qed

lemma nodeTargets_fst:
  fixes sv :: "'sel target_server"
  assumes "memo_ok (mm_services (sv_memos sv))" "pods_plain (PodsOnNode node (sv_store sv))"
  shows "map_option fst (nodeTargets pd matches w node sv) =
    Some (sort_key target_key (concat (map (\<lambda>np. d_out (pod_targets pd matches w (fst (monitoredServices matches (sv_memos sv)))
      (mm_services (sv_memos sv)) (fst (allPodMonitors (sv_memos sv))) np)) (PodsOnNode node (sv_store sv)))))"
proof -
  obtain reports sv' where "nodeTargets pd matches w node sv =
      Some (sort_key target_key (concat (map (\<lambda>np. d_out (pod_targets pd matches w (fst (monitoredServices matches (sv_memos sv)))
        (mm_services (sv_memos sv)) (fst (allPodMonitors (sv_memos sv))) np)) (PodsOnNode node (sv_store sv)))),
        PodsOnNode node (sv_store sv) \<noteq> [], reports, sv')"
    using nodeTargets_list [OF assms refl refl] by metis
  then show ?thesis by simp
qed

lemma mset_concat_map: "mset (concat (map f xs)) = sum_mset (image_mset (\<lambda>x. mset (f x)) (mset xs))"
  by (induction xs) simp_all

text \<open>
  C8. The derivation of a node is the concatenation of what each of its pods has on its own, put in order. What is
  kept between pods and between requests (the accumulator that is reset, the memo of owners and namespaces, the doors
  of Services, the narrowing to the Services that opt in, the sorted Services of a namespace) changes no target, and a
  pod with a refused target has its report.
\<close>
theorem nodeTargets_reference:
  fixes sv :: "'sel target_server"
  assumes "memo_ok (mm_services (sv_memos sv))" "pods_plain (PodsOnNode node (sv_store sv))"
    and "monitored = fst (monitoredServices matches (sv_memos sv))" "refs = fst (allPodMonitors (sv_memos sv))"
  shows "\<exists>reports sv'. nodeTargets pd matches w node sv =
    Some (sort_key target_key (concat (map (\<lambda>np. d_out (pod_targets pd matches w monitored (mm_services (sv_memos sv)) refs np)) (PodsOnNode node (sv_store sv)))),
      PodsOnNode node (sv_store sv) \<noteq> [], reports, sv') \<and>
    (\<forall>np \<in> set (PodsOnNode node (sv_store sv)).
       d_capped (pod_targets pd matches w monitored (mm_services (sv_memos sv)) refs np) > 0 \<longrightarrow>
       pod_capped w np (pod_targets pd matches w monitored (mm_services (sv_memos sv)) refs np) \<in> set reports)"
  by (rule nodeTargets_list [OF assms])

text \<open>
  C7. What is served of each pod of a node. Every target carries the pod with its owners and its namespace, there are
  at most \<^verbatim>\<open>MaxPortsPerPod\<close> of them, their URLs are distinct and are URLs that an annotation, a Service or a monitor
  of the pod offers; and every URL that one of them offers is served, unless the refusal is reported.
\<close>
theorem nodeTargets_complete:
  fixes sv :: "'sel target_server"
  assumes "memo_ok (mm_services (sv_memos sv))" "pods_plain (PodsOnNode node (sv_store sv))"
    and "monitored = fst (monitoredServices matches (sv_memos sv))" "refs = fst (allPodMonitors (sv_memos sv))"
    and "distinct (map (\<lambda>np. pod_UID (np_Pod np)) (PodsOnNode node (sv_store sv)))"
    and "nodeTargets pd matches w node sv = Some (targets, has_pods, reports, sv')"
    and "np \<in> set (PodsOnNode node (sv_store sv))" "served = served_for (pod_UID (np_Pod np)) targets"
  shows "(\<forall>t \<in> set served. t_Pod t = served_pod w np) \<and> length served \<le> MaxPortsPerPod \<and> distinct (map t_URL served) \<and>
    t_URL ` set served \<subseteq> offered_urls matches w monitored (mm_services (sv_memos sv)) refs np \<and>
    (Scrapeable (np_Pod np) \<longrightarrow>
       t_URL ` set served = offered_urls matches w monitored (mm_services (sv_memos sv)) refs np \<or>
       (\<exists>n bysize. 0 < n \<and> PodCapped (served_pod w np) n bysize \<in> set reports))"
proof -
  let ?f = "\<lambda>np. pod_targets pd matches w monitored (mm_services (sv_memos sv)) refs np" and ?nps = "PodsOnNode node (sv_store sv)"
  let ?ts = "concat (map (\<lambda>np. d_out (?f np)) ?nps)"
  have t: "targets = sort_key target_key ?ts" and r: "d_capped (?f np) > 0 \<longrightarrow> pod_capped w np (?f np) \<in> set reports"
    using nodeTargets_list [OF assms(1-4), where pd = pd and w = w] assms(6,7) by auto
  note p = pod_targets_served [OF refl, where pd = pd and matches = matches and w = w and monitored = monitored and ix = "mm_services (sv_memos sv)" and refs = refs]
  have "served_for (pod_UID (np_Pod np)) ?ts = d_out (?f np)"
    by (rule served_for_concat [OF assms(5,7)]) (use p(1) served_pod_UID in metis)
  then have m: "mset served = mset (d_out (?f np))" using served_for_sort by (metis assms(8) t)
  then have s: "set served = set (d_out (?f np))" "length served = length (d_out (?f np))" by (metis mset_eq_setD, metis mset_eq_length)
  have "mset (map t_URL served) = mset (map t_URL (d_out (?f np)))" using m by simp
  then have "distinct (map t_URL served)" using p(3) by (metis mset_eq_imp_distinct_iff)
  then show ?thesis using p(1,2,4,5) [where np = np] r unfolding s pod_capped_def served_pod_def by (cases "d_capped (?f np)") auto
qed

text \<open>
  C9. The list of a node does not depend on the order the pods came in, nor on what was memoised or counted before:
  two servers with the same Services, monitors and pods serve the same bytes.
\<close>
theorem nodeTargets_order:
  fixes sv tv :: "'sel target_server"
  assumes "memo_ok (mm_services (sv_memos sv))" "memo_ok (mm_services (sv_memos tv))"
    and "byNamespace (mm_services (sv_memos tv)) = byNamespace (mm_services (sv_memos sv))"
    and "fst (monitoredServices matches (sv_memos tv)) = fst (monitoredServices matches (sv_memos sv))"
    and "fst (allPodMonitors (sv_memos tv)) = fst (allPodMonitors (sv_memos sv))"
    and "pods_plain (PodsOnNode node (sv_store sv))" "distinct (map (\<lambda>np. pod_UID (np_Pod np)) (PodsOnNode node (sv_store sv)))"
    and "mset (PodsOnNode node (sv_store tv)) = mset (PodsOnNode node (sv_store sv))"
  shows "map_option fst (nodeTargets pd matches w node tv) = map_option fst (nodeTargets pd matches w node sv)"
proof -
  let ?mon = "fst (monitoredServices matches (sv_memos sv))" and ?refs = "fst (allPodMonitors (sv_memos sv))" and ?ix = "mm_services (sv_memos sv)"
  let ?list = "\<lambda>nps. concat (map (\<lambda>np. d_out (pod_targets pd matches w ?mon ?ix ?refs np)) nps)"
  have "set (PodsOnNode node (sv_store tv)) = set (PodsOnNode node (sv_store sv))" using assms(8) by (rule mset_eq_setD)
  then have plain: "pods_plain (PodsOnNode node (sv_store tv))" using assms(6) by (simp add: pods_plain_def)
  have ix: "pod_targets pd matches w ?mon (mm_services (sv_memos tv)) ?refs = pod_targets pd matches w ?mon ?ix ?refs"
    by (rule ext) (simp add: pod_targets_def assms(3))
  have lists: "map_option fst (nodeTargets pd matches w node sv) = Some (sort_key target_key (?list (PodsOnNode node (sv_store sv))))"
      "map_option fst (nodeTargets pd matches w node tv) = Some (sort_key target_key (?list (PodsOnNode node (sv_store tv))))"
    by (rule nodeTargets_fst [OF assms(1,6)],
        rule nodeTargets_fst [OF assms(2) plain, where matches = matches and pd = pd and w = w, unfolded assms(4,5) ix])
  have "mset (?list (PodsOnNode node (sv_store tv))) = mset (?list (PodsOnNode node (sv_store sv)))"
    by (simp only: mset_concat_map assms(8))
  moreover have "distinct (map target_key (?list (PodsOnNode node (sv_store sv))))" using assms(7) by (rule node_keys_distinct)
  ultimately have "sort_key target_key (?list (PodsOnNode node (sv_store tv))) = sort_key target_key (?list (PodsOnNode node (sv_store sv)))"
    using sort_keys_unique by blast
  then show ?thesis by (simp add: lists)
qed

subsection \<open>A node with pods of one address\<close>

definition web_pod :: "string \<Rightarrow> NodePod" where
  "web_pod uid = \<lparr>np_Pod = metrics_pod\<lparr>pod_Namespace := ''shop'', pod_UID := uid,
     pod_Annotations := [(AnnotationScrape, ''true''), (AnnotationPort, ''9090'')]\<rparr>, np_OwnerRefs = []\<rparr>"

definition node_server :: "string list \<Rightarrow> strmap target_server" where
  "node_server uids = \<lparr>sv_store = (New 10 [])\<lparr>byNode := [(''n'', map (\<lambda>i. (uids ! i, i)) [0..<length uids])],
       heap := \<lambda>i. zero_record\<lparr>r_pod := np_Pod (web_pod (uids ! i))\<rparr>\<rparr>,
     sv_memos = new_memos, sv_resolver = NewFromListers, sv_targetBuilds = 0, sv_svcSelectorEvals = 0\<rparr>"

lemma node_server_pods: "PodsOnNode ''n'' (sv_store (node_server uids)) = map web_pod uids"
proof -
  have "map (web_pod \<circ> (!) uids) [0..<length uids] = map web_pod uids" by (metis map_map map_nth)
  moreover have "node_pod (zero_record\<lparr>r_pod := np_Pod (web_pod u)\<rparr>) = web_pod u" for u by (simp add: node_pod_def zero_record_def web_pod_def)
  ultimately show ?thesis by (simp add: PodsOnNode_def node_server_def get_map_def comp_def)
qed

lemma node_server_ok: "memo_ok (mm_services (sv_memos (node_server uids)))" "pods_plain (PodsOnNode ''n'' (sv_store (node_server uids)))"
  by (simp add: node_server_def new_memos_def NewIndex_memo) (simp add: node_server_pods pods_plain_def plain_refs_def web_pod_def metrics_pod_def zero_Pod_def)

lemma node_server_monitors: "fst (monitoredServices matches (sv_memos (node_server uids))) = []" "fst (allPodMonitors (sv_memos (node_server uids))) = []"
  by (simp_all add: node_server_def new_memos_def monitoredServices_def monitoredServicesAt_def allPodMonitors_def allPodMonitorsAt_def
      buildMonitoredServices_def held_index_def New_MIndex_def MIndex_All_def PodMonitors_def sortedMonitors_def Let_def split: prod.split)

lemma node_server_index: "mm_services (sv_memos (node_server uids)) = NewIndex"
  by (simp add: node_server_def new_memos_def)

definition web_annotations :: strmap where
  "web_annotations = [(AnnotationScrape, ''true''), (AnnotationPort, ''9090'')]"

lemma web_annotations: "OptedIn web_annotations" "schemeAndPath web_annotations = Some (''http'', ''/metrics'')"
    "portAnnotation web_annotations = (''9090'', True)" "listEntries ''9090'' = [''9090'']"
  by code_simp+

lemma web_pod_fields: "pod_Annotations (np_Pod (web_pod uid)) = web_annotations" "Scrapeable (np_Pod (web_pod uid))"
    "pod_UID (np_Pod (web_pod uid)) = uid" "np_OwnerRefs (web_pod uid) = []"
  by (simp add: web_pod_def web_annotations_def) (unfold web_pod_def, code_simp, simp_all)

lemma served_web_pod: "served_pod (apps_world True) (web_pod uid) = (np_Pod (web_pod uid))\<lparr>pod_NamespaceMetadata := None\<rparr>"
  unfolding served_pod_def web_pod_def by code_simp

definition web_target :: "string \<Rightarrow> ScrapeTarget" where
  "web_target uid = (makeTarget (served_pod (apps_world True) (web_pod uid)) ''http'' ''/metrics'' 9090)\<lparr>t_Source := ''pod''\<rparr>"

lemma web_pod_port: "podPorts (served_pod (apps_world True) (web_pod uid)) = [9090]"
proof -
  have "parsePort ''9090'' = Some 9090" by (simp add: parsePort_def word_sless_alt)
  moreover have "add_port [] 9090 = [9090]" by (simp add: add_port_def word_sless_alt MaxPortsPerPod_def)
  ultimately show ?thesis by (simp add: podPorts_def served_web_pod web_pod_fields web_annotations MaxPortsPerPod_def)
qed

lemma web_PodTargets: "PodTargets (served_pod (apps_world True) (web_pod uid)) = [web_target uid]"
proof -
  have "Scrapeable (served_pod (apps_world True) (web_pod uid))"
    unfolding served_web_pod web_pod_def by code_simp
  moreover have "pod_Annotations (served_pod (apps_world True) (web_pod uid)) = web_annotations" by (simp add: served_web_pod web_pod_fields)
  ultimately show ?thesis by (simp add: PodTargets_def web_annotations web_pod_port web_target_def)
qed

abbreviation any_selector :: "strmap \<Rightarrow> strmap \<Rightarrow> bool" where
  "any_selector \<equiv> \<lambda>_ _. True"

lemma web_offered: "offered_urls any_selector (apps_world True) [] NewIndex [] (web_pod uid) = {t_URL (web_target uid)}"
proof -
  have "sorted_services (byNamespace NewIndex) ns = []" for ns by (simp add: NewIndex_def sorted_services_def get_map_def)
  then show ?thesis by (simp add: offered_urls_def door_urls_def web_PodTargets podMonitorsFor_def matchingServices_def)
qed

lemma web_derived: "d_out (pod_targets pd any_selector (apps_world True) [] NewIndex [] (web_pod uid)) = [web_target uid]"
proof -
  have "sorted_services (byNamespace NewIndex) ns = []" for ns by (simp add: NewIndex_def sorted_services_def get_map_def)
  moreover have "d_out (add_offered [t] zero_targetDedup) = [t]" for t
    by (simp add: add_offered_def Dedup_add_def add_url_def zero_targetDedup_def MaxPortsPerPod_def Let_def)
  ultimately show ?thesis using web_PodTargets [of uid] web_pod_fields
    by (simp add: pod_targets_def ref_pod_def podMonitorsFor_def matchingServices_def served_pod_def)
qed

lemma web_target_key: "target_key (web_target uid) = [targetURL metrics_pod ''http'' ''/metrics'' 9090, [], ''pod'', uid]"
    "t_Pod (web_target uid) = served_pod (apps_world True) (web_pod uid)"
proof -
  have pod: "pod_PodIP (served_pod (apps_world True) (web_pod uid)) = pod_PodIP metrics_pod" "pod_UID (served_pod (apps_world True) (web_pod uid)) = uid"
    by (simp_all add: served_web_pod) (simp_all add: web_pod_def)
  show "target_key (web_target uid) = [targetURL metrics_pod ''http'' ''/metrics'' 9090, [], ''pod'', uid]"
      "t_Pod (web_target uid) = served_pod (apps_world True) (web_pod uid)"
    by (simp_all add: target_key_def web_target_def makeTarget_def targetURL_def pod split: prod.split)
qed

lemma web_pods_plain: "pods_plain (map web_pod uids)"
  using node_server_ok(2) [of uids] by (simp add: node_server_pods)

lemma web_sorted: "sort_key target_key [web_target ''b'', web_target ''a''] = [web_target ''a'', web_target ''b'']"
proof -
  have "\<not> target_key (web_target ''b'') \<le> target_key (web_target ''a'')" by (simp add: web_target_key not_le less_char_def)
  then show ?thesis by simp
qed

lemma web_nodeTargets:
  "\<exists>reports sv'. nodeTargets (\<lambda>_. None) any_selector (apps_world True) ''n'' (node_server [''b'', ''a'']) =
     Some ([web_target ''a'', web_target ''b''], True, reports, sv')"
  using nodeTargets_list [OF node_server_ok [of "[''b'', ''a'']"] refl refl, where matches = any_selector and pd = "\<lambda>_. None" and w = "apps_world True"] web_sorted
  by (auto simp: node_server_monitors node_server_pods web_derived node_server_index)

theorem nodeTargets_reference_witness:
  "\<exists>reports sv'. nodeTargets (\<lambda>_. None) any_selector (apps_world True) ''n'' (node_server [''b'', ''a'']) =
     Some ([web_target ''a'', web_target ''b''], True, reports, sv')"
  using nodeTargets_reference [OF node_server_ok [of "[''b'', ''a'']"] refl refl, where matches = any_selector and pd = "\<lambda>_. None" and w = "apps_world True"] web_sorted
  by (auto simp: node_server_monitors node_server_pods web_derived node_server_index)

theorem nodeTargets_complete_witness:
  "\<exists>targets reports sv'. nodeTargets (\<lambda>_. None) any_selector (apps_world True) ''n'' (node_server [''b'', ''a'']) = Some (targets, True, reports, sv') \<and>
     (\<forall>t \<in> set (served_for ''a'' targets). t_Pod t = served_pod (apps_world True) (web_pod ''a'') \<and> t_URL t = t_URL (web_target ''a''))"
proof -
  obtain reports sv' where n: "nodeTargets (\<lambda>_. None) any_selector (apps_world True) ''n'' (node_server [''b'', ''a'']) =
      Some ([web_target ''a'', web_target ''b''], True, reports, sv')"
    using web_nodeTargets by blast
  have mem: "web_pod ''a'' \<in> set (PodsOnNode ''n'' (sv_store (node_server [''b'', ''a''])))" by (simp add: node_server_pods)
  have uids: "distinct (map (\<lambda>np. pod_UID (np_Pod np)) (PodsOnNode ''n'' (sv_store (node_server [''b'', ''a'']))))"
    by (simp add: node_server_pods web_pod_fields)
  from nodeTargets_complete [OF node_server_ok refl refl uids n mem refl] show ?thesis
    unfolding node_server_monitors node_server_index web_offered web_pod_fields using n by auto
qed

theorem nodeTargets_order_witness:
  "map_option fst (nodeTargets (\<lambda>_. None) any_selector (apps_world True) ''n'' (node_server [''a'', ''b''])) =
   map_option fst (nodeTargets (\<lambda>_. None) any_selector (apps_world True) ''n'' (node_server [''b'', ''a'']))"
  by (rule nodeTargets_order [OF node_server_ok(1) node_server_ok(1)])
    (simp_all add: node_server_monitors node_server_index node_server_ok node_server_pods web_pods_plain [of "[_, _]", simplified] web_pod_fields)

end
