(* ===== verification/HttpReply.thy ===== *)
theory HttpReply
  imports Prelude "HOL-Library.Signed_Division"
begin

section \<open>Responses of the metadata service (internal/server: httpcache.go, handlers.go)\<close>

text \<open>
  What a handler writes: a status, headers and a body, with the cache headers and the entity tags of the metadata
  responses. The digest of a body is an argument, and the header of a request is its \<^verbatim>\<open>If-None-Match\<close>.
\<close>

subsection \<open>Responses\<close>

datatype cachePolicy = cacheNone | cacheShared | cachePrivate

definition noStore :: "cachePolicy \<Rightarrow> string" where
  "noStore p = (case p of cacheNone \<Rightarrow> ''no-store'' | cachePrivate \<Rightarrow> ''private, no-store'' | cacheShared \<Rightarrow> [])"

text \<open>The body: none, bytes, or the JSON document of an error message or of the value of a secret.\<close>
datatype reply_body = NoBody | Bytes string | ErrorBody string | ValueBody string

record reply =
  rp_status :: nat
  rp_headers :: strmap
  rp_body :: reply_body

definition writeError :: "nat \<Rightarrow> string \<Rightarrow> reply" where
  "writeError status msg = \<lparr>rp_status = status, rp_headers = [(''Content-Type'', ''application/json'')], rp_body = ErrorBody msg\<rparr>"

text \<open>The encoder writes nothing of a value that it refuses, and ends a document with a newline.\<close>
definition writeJSON :: "nat \<Rightarrow> string option \<Rightarrow> reply" where
  "writeJSON status doc =
     \<lparr>rp_status = status, rp_headers = [(''Content-Type'', ''application/json'')],
      rp_body = Bytes (case doc of Some b \<Rightarrow> b @ [CHR 0x0A] | None \<Rightarrow> [])\<rparr>"

definition hex_char :: "nat \<Rightarrow> char" where
  "hex_char n = ''0123456789abcdef'' ! n"

text \<open>\<^verbatim>\<open>hex.Encode\<close> of the eight bytes of \<^verbatim>\<open>binary.BigEndian.PutUint64\<close>.\<close>
definition hex_half :: "u64 \<Rightarrow> string" where
  "hex_half x = map (\<lambda>i. hex_char (unat (x div 16 ^ (15 - i)) mod 16)) [0..<16]"

definition formatTag :: "u64 \<times> u64 \<Rightarrow> string" where
  "formatTag h = [CHR 0x22] @ hex_half (fst h) @ hex_half (snd h) @ [CHR 0x22]"

definition entityTag :: "(string \<Rightarrow> u64 \<times> u64) \<Rightarrow> string \<Rightarrow> string" where
  "entityTag digest body = formatTag (digest body)"

definition TrimPrefix :: "string \<Rightarrow> string \<Rightarrow> string" where
  "TrimPrefix s pre = (if prefix pre s then drop (length pre) s else s)"

definition etagMatches :: "string \<Rightarrow> string \<Rightarrow> bool" where
  "etagMatches header etag \<longleftrightarrow>
     list_ex (\<lambda>c. let c = TrimSpace c in c = ''*'' \<or> TrimPrefix c ''W/'' = etag) (Split '','' header)"

definition second :: duration where
  "second = 1000000000"

definition maxAgeSeconds :: "duration \<Rightarrow> int" where
  "maxAgeSeconds cacheTTL = max 1 (cacheTTL sdiv second)"

definition cacheControlFor :: "int \<Rightarrow> bool \<Rightarrow> string" where
  "cacheControlFor maxAge private =
     (let cc = ''max-age='' @ Itoa (nat maxAge) in if private then ''private, '' @ cc else cc)"

definition cache_headers :: "string \<Rightarrow> string \<Rightarrow> strmap" where
  "cache_headers etag cc = [(''Content-Type'', ''application/json''), (''Cache-Control'', cc), (''ETag'', etag)]"

definition writeNotModified :: "string \<Rightarrow> string \<Rightarrow> reply" where
  "writeNotModified etag cc = \<lparr>rp_status = 304, rp_headers = cache_headers etag cc, rp_body = NoBody\<rparr>"

definition writeCachedBody :: "duration \<Rightarrow> string \<Rightarrow> string \<Rightarrow> string \<Rightarrow> bool \<Rightarrow> reply" where
  "writeCachedBody cacheTTL header body etag private =
     (let cc = cacheControlFor (maxAgeSeconds cacheTTL) private in
      if header \<noteq> [] \<and> etagMatches header etag then writeNotModified etag cc
      else \<lparr>rp_status = 200, rp_headers = cache_headers etag cc, rp_body = Bytes body\<rparr>)"

text \<open>The bytes and their tag, or the answer to a value that cannot be encoded.\<close>
definition encodeCached :: "(string \<Rightarrow> u64 \<times> u64) \<Rightarrow> string option \<Rightarrow> reply + (string \<times> string)" where
  "encodeCached digest doc =
     (case doc of None \<Rightarrow> Inl (writeError 500 ''encoding response'') | Some body \<Rightarrow> Inr (body, entityTag digest body))"

definition writeCached :: "duration \<Rightarrow> (string \<Rightarrow> u64 \<times> u64) \<Rightarrow> string \<Rightarrow> string option \<Rightarrow> bool \<Rightarrow> reply" where
  "writeCached cacheTTL digest header doc private =
     (if cacheTTL \<le> 0
      then (let r = writeJSON 200 doc in
            if private then r\<lparr>rp_headers := (''Cache-Control'', ''private, no-store'') # rp_headers r\<rparr> else r)
      else (case encodeCached digest doc of
              Inl r \<Rightarrow> r
            | Inr (body, etag) \<Rightarrow> writeCachedBody cacheTTL header body etag private))"

subsection \<open>Entity tags\<close>

lemma digits_determine:
  fixes n m :: nat
  assumes "\<forall>k < d. n div b ^ k mod b = m div b ^ k mod b" "n < b ^ d" "m < b ^ d" "0 < b"
  shows "n = m"
  using assms
proof (induction d arbitrary: n m)
  case (Suc d)
  have "n div b ^ Suc k mod b = m div b ^ Suc k mod b" if "k < d" for k
    using Suc.prems(1) [rule_format, of "Suc k"] that by (simp only: Suc_less_eq)
  then have d: "\<forall>k < d. n div b div b ^ k mod b = m div b div b ^ k mod b" by (simp add: div_mult2_eq)
  have "n div b < b ^ d" "m div b < b ^ d" using Suc.prems(2-4) by (simp_all add: less_mult_imp_div_less mult.commute)
  with Suc.IH [OF d] Suc.prems(4) have q: "n div b = m div b" by blast
  have r: "n mod b = m mod b" using Suc.prems(1) by force
  show ?case using q r by (metis div_mult_mod_eq)
qed simp

lemma hex_char_inj: "i < 16 \<Longrightarrow> j < 16 \<Longrightarrow> hex_char i = hex_char j \<Longrightarrow> i = j"
proof -
  assume a: "i < 16" "j < 16" "hex_char i = hex_char j"
  have "distinct ''0123456789abcdef''" by simp
  then show "i = j" using a nth_eq_iff_index_eq [of "''0123456789abcdef''" i j] by (simp add: hex_char_def)
qed

lemma hex_half_length: "length (hex_half x) = 16"
  by (simp add: hex_half_def)

lemma hex_half_inj: "hex_half x = hex_half y \<Longrightarrow> x = y"
proof -
  assume h: "hex_half x = hex_half y"
  have nib: "unat (z div 16 ^ k) = unat z div 16 ^ k" if "k < 16" for z :: u64 and k
  proof -
    have "(16 :: nat) ^ k < 2 ^ 64" using power_strict_increasing [of k 16 "16 :: nat"] that by simp
    moreover have "(16 :: u64) ^ k = word_of_nat (16 ^ k)" by simp
    ultimately have "unat ((16 :: u64) ^ k) = 16 ^ k" by (simp only: unat_of_nat) simp
    then show ?thesis by (simp add: unat_div)
  qed
  have "unat x div 16 ^ k mod 16 = unat y div 16 ^ k mod 16" if k: "k < 16" for k
  proof -
    have "hex_half x ! (15 - k) = hex_half y ! (15 - k)" using h by simp
    then have "hex_char (unat (x div 16 ^ k) mod 16) = hex_char (unat (y div 16 ^ k) mod 16)" using k nth_upt [of 0 "15 - k" 16] by (simp add: hex_half_def)
    then show ?thesis using hex_char_inj nib [OF k] by simp
  qed
  moreover have "unat z < 16 ^ 16" for z :: u64 using unsigned_less [of z] by simp
  ultimately have "unat x = unat y" using digits_determine [of 16 "unat x" 16 "unat y"] by simp
  then show "x = y" by (rule word_unat_eq_iff [THEN iffD2])
qed

lemma formatTag_inj: "formatTag h = formatTag h' \<Longrightarrow> h = h'"
proof -
  assume "formatTag h = formatTag h'"
  then have "hex_half (fst h) @ hex_half (snd h) @ [CHR 0x22] = hex_half (fst h') @ hex_half (snd h') @ [CHR 0x22]" by (simp add: formatTag_def)
  then have "hex_half (fst h) = hex_half (fst h')" "hex_half (snd h) = hex_half (snd h')" by (simp_all add: hex_half_length)
  then show "h = h'" using hex_half_inj by (simp add: prod_eq_iff)
qed

lemma formatTag_ne: "formatTag h \<noteq> []"
  by (simp add: formatTag_def)

text \<open>Two bodies have one tag exactly when they have one digest, and every tag has the same width.\<close>
theorem entityTag_exact:
  "length (entityTag digest a) = 34 \<and> (entityTag digest a = entityTag digest b \<longleftrightarrow> digest a = digest b)"
proof -
  have "entityTag digest a = entityTag digest b \<longleftrightarrow> digest a = digest b" unfolding entityTag_def by (metis formatTag_inj)
  then show ?thesis by (simp add: entityTag_def formatTag_def hex_half_length)
qed

end
