(* ===== verification/NodeMemo.thy ===== *)
theory NodeMemo
  imports NodeDoors HttpReply StoreExamples
begin

section \<open>The revalidation of a node's targets (internal/server: httpcache.go, nodetargets.go)\<close>

text \<open>
  The memo that answers a conditional request for the targets of a node without building them, and the handler of
  the route. The JSON encoder is an argument.
\<close>

subsection \<open>The composite token\<close>

record targetsToken =
  tv_pods :: u64
  tv_owners :: u64
  tv_services :: u64
  tv_monitors :: u64
  tv_wired :: bool

text \<open>Without a token of the owners the composite one is not wired.\<close>
definition targetsValidity :: "u64 option \<Rightarrow> string \<Rightarrow> 'sel target_server \<Rightarrow> targetsToken" where
  "targetsValidity ownerGeneration nd sv =
     (case ownerGeneration of
        None \<Rightarrow> \<lparr>tv_pods = 0, tv_owners = 0, tv_services = 0, tv_monitors = 0, tv_wired = False\<rparr>
      | Some g \<Rightarrow>
          \<lparr>tv_pods = NodeGeneration (sv_store sv) nd, tv_owners = g, tv_services = Generation (mm_services (sv_memos sv)),
           tv_monitors = (case mm_monitors (sv_memos sv) of None \<Rightarrow> 0 | Some mons \<Rightarrow> MIndex_Generation mons), tv_wired = True\<rparr>)"

subsection \<open>The memo\<close>

record nodeTargetsETag =
  ne_etag :: string
  ne_builtAt :: instant
  ne_valid :: targetsToken

definition maxNodeTargetETags :: nat where
  "maxNodeTargetETags = 8192"

text \<open>What the entry grants a request: the seconds, and whether the entry was confirmed by its token.\<close>
definition memo_verdict :: "duration \<Rightarrow> string \<Rightarrow> targetsToken \<Rightarrow> instant \<Rightarrow> nodeTargetsETag \<Rightarrow> (int \<times> bool) option" where
  "memo_verdict cacheTTL header cur now e =
     (if \<not> etagMatches header (ne_etag e) then None
      else if tv_wired cur \<and> tv_wired (ne_valid e)
      then (if ne_valid e \<noteq> cur then None else Some (maxAgeSeconds cacheTTL, True))
      else (let remaining = cacheTTL - (now - ne_builtAt e);
                maxAge = remaining sdiv second;
                maxAge = (if maxAge < 1 \<and> remaining > 0 \<and> cacheTTL < second then maxAgeSeconds cacheTTL else maxAge)
            in if maxAge < 1 then None else Some (maxAge, False)))"

text \<open>The second critical section: a confirmed entry is young again.\<close>
definition touch_section :: "string \<Rightarrow> string \<Rightarrow> instant \<Rightarrow> (string, nodeTargetsETag) gomap \<Rightarrow> (string, nodeTargetsETag) gomap" where
  "touch_section nd etag now m =
     (case get m nd of
        Some held_tag \<Rightarrow> if ne_etag held_tag = etag then put nd (held_tag\<lparr>ne_builtAt := now\<rparr>) m else m
      | None \<Rightarrow> m)"

text \<open>The tag and the seconds of a 304, when there is one, with the memo afterwards.\<close>
definition nodeTargetsNotModified :: "duration \<Rightarrow> string \<Rightarrow> targetsToken \<Rightarrow> instant \<Rightarrow> string \<Rightarrow>
    (string, nodeTargetsETag) gomap \<Rightarrow> (string \<times> int) option \<times> (string, nodeTargetsETag) gomap" where
  "nodeTargetsNotModified cacheTTL header cur now nd m =
     (if cacheTTL \<le> 0 \<or> header = [] then (None, m)
      else (case get m nd of
              None \<Rightarrow> (None, m)
            | Some e \<Rightarrow>
                (case memo_verdict cacheTTL header cur now e of
                   None \<Rightarrow> (None, m)
                 | Some (maxAge, confirmed) \<Rightarrow>
                     (Some (ne_etag e, maxAge), if confirmed then touch_section nd (ne_etag e) now m else m))))"

definition evictNodeTargetsLocked :: "(string \<Rightarrow> nodeTargetsETag \<Rightarrow> bool) \<Rightarrow> (string, nodeTargetsETag) gomap \<Rightarrow>
    bool \<times> (string, nodeTargetsETag) gomap" where
  "evictNodeTargetsLocked evict m = (list_ex (\<lambda>(k, e). evict k e) m, filter (\<lambda>(k, e). \<not> evict k e) m)"

definition nodeTargetsUnusable :: "duration \<Rightarrow> store \<Rightarrow> string \<Rightarrow> nodeTargetsETag \<Rightarrow> targetsToken \<Rightarrow> instant \<Rightarrow> bool" where
  "nodeTargetsUnusable cacheTTL st nd e cur now \<longleftrightarrow>
     (if \<not> tv_wired cur \<or> \<not> tv_wired (ne_valid e) then now - ne_builtAt e \<ge> cacheTTL
      else if tv_owners (ne_valid e) < tv_owners cur \<or> tv_services (ne_valid e) < tv_services cur \<or> tv_monitors (ne_valid e) < tv_monitors cur
      then True
      else tv_pods (ne_valid e) < NodeGeneration st nd)"

definition rememberNodeTargets :: "duration \<Rightarrow> store \<Rightarrow> string \<Rightarrow> string \<Rightarrow> targetsToken \<Rightarrow> instant \<Rightarrow>
    (string, nodeTargetsETag) gomap \<Rightarrow> (string, nodeTargetsETag) gomap" where
  "rememberNodeTargets cacheTTL st nd etag valid now m =
     (if etag = [] then m
      else (let entry = \<lparr>ne_etag = etag, ne_builtAt = now, ne_valid = valid\<rparr> in
            if get m nd = None \<and> length m \<ge> maxNodeTargetETags
            then (let (freed, m1) = evictNodeTargetsLocked (\<lambda>k e. nodeTargetsUnusable cacheTTL st k e valid now) m;
                      m2 = (if freed then m1 else snd (evictNodeTargetsLocked (\<lambda>k e. now - ne_builtAt e \<ge> cacheTTL) m1))
                  in if length m2 \<ge> maxNodeTargetETags then m2 else put nd entry m2)
            else put nd entry m))"

subsection \<open>The handler\<close>

text \<open>
  The server with its memo; the informer caches that the resolver reads and the token they publish, when they
  do, are part of the state.
\<close>
record 'sel cached_server =
  cs_server :: "'sel target_server"
  cs_etags :: "(string, nodeTargetsETag) gomap"
  cs_ready :: bool
  cs_cacheTTL :: duration
  cs_world :: world
  cs_ownerGeneration :: "u64 option"
  cs_memo_hit :: nat
  cs_built :: nat

definition handleNodeTargets :: "(string \<Rightarrow> duration option) \<Rightarrow> ('sel \<Rightarrow> strmap \<Rightarrow> bool) \<Rightarrow> (string \<Rightarrow> ScrapeTarget list \<Rightarrow> string option) \<Rightarrow>
    (string \<Rightarrow> u64 \<times> u64) \<Rightarrow> string \<Rightarrow> instant \<Rightarrow> string \<Rightarrow> 'sel cached_server \<Rightarrow> (reply \<times> 'sel cached_server) option" where
  "handleNodeTargets promDuration matches marshal digest header now nd cs =
     (if \<not> cs_ready cs then Some (writeError 503 ''informer caches not synced'', cs)
      else (case nodeTargetsNotModified (cs_cacheTTL cs) header (targetsValidity (cs_ownerGeneration cs) nd (cs_server cs)) now nd (cs_etags cs) of
              (Some (etag, maxAge), m) \<Rightarrow>
                Some (writeNotModified etag (cacheControlFor maxAge False), cs\<lparr>cs_etags := m, cs_memo_hit := cs_memo_hit cs + 1\<rparr>)
            | (None, m) \<Rightarrow>
                (let valid = targetsValidity (cs_ownerGeneration cs) nd (cs_server cs) in
                 case nodeTargets promDuration matches (cs_world cs) nd (cs_server cs) of
                   None \<Rightarrow> None
                 | Some (targets, built, reports, sv) \<Rightarrow>
                     (let doc = marshal nd targets; cs = cs\<lparr>cs_server := sv, cs_etags := m, cs_built := cs_built cs + 1\<rparr> in
                      if cs_cacheTTL cs \<le> 0 then Some (writeCached (cs_cacheTTL cs) digest header doc False, cs)
                      else (case encodeCached digest doc of
                              Inl r \<Rightarrow> Some (r, cs)
                            | Inr (body, etag) \<Rightarrow>
                                Some (writeCachedBody (cs_cacheTTL cs) header body etag False,
                                      if built then cs\<lparr>cs_etags := rememberNodeTargets (cs_cacheTTL cs) (sv_store sv) nd etag valid now (cs_etags cs)\<rparr>
                                      else cs))))))"

subsection \<open>The memo is bounded\<close>

lemma put_length: "length (put k v m) \<le> Suc (length m)" "get m k \<noteq> None \<Longrightarrow> length (put k v m) = length m"
  by (induction m) auto

lemma evict_length: "length (snd (evictNodeTargetsLocked p m)) \<le> length m"
  by (simp add: evictNodeTargetsLocked_def)

lemma remember_bounded:
  assumes "length m \<le> maxNodeTargetETags"
  shows "length (rememberNodeTargets ttl' st nd etag valid now m) \<le> maxNodeTargetETags"
proof (cases "etag = []")
  case False
  note e = evict_length [of "\<lambda>k e. nodeTargetsUnusable ttl' st k e valid now" m]
  show ?thesis
  proof (cases "get m nd = None \<and> length m \<ge> maxNodeTargetETags")
    case True
    obtain freed m1 where f: "evictNodeTargetsLocked (\<lambda>k e. nodeTargetsUnusable ttl' st k e valid now) m = (freed, m1)" by fastforce
    define m2 where "m2 = (if freed then m1 else snd (evictNodeTargetsLocked (\<lambda>k e. now - ne_builtAt e \<ge> ttl') m1))"
    have "length m2 \<le> length m" using e evict_length [of _ m1] by (auto simp: f m2_def intro: order_trans)
    moreover have "length (put nd e m2) \<le> maxNodeTargetETags" if "\<not> length m2 \<ge> maxNodeTargetETags" for e
      using put_length(1) [where k = nd and v = e and m = m2] that by linarith
    ultimately show ?thesis using True False assms by (simp add: rememberNodeTargets_def f m2_def [symmetric] Let_def)
  next
    case not_full: False
    have "length (put nd e m) \<le> maxNodeTargetETags" for e
      using put_length(1) [where k = nd and v = e and m = m] put_length(2) [where k = nd and v = e and m = m] not_full assms
      by (cases "get m nd = None") linarith+
    then show ?thesis unfolding rememberNodeTargets_def Let_def if_not_P [OF not_full] if_not_P [OF False] .
  qed
qed (use assms in \<open>simp add: rememberNodeTargets_def\<close>)

lemma get_filter: "wf_map m \<Longrightarrow> get (filter (\<lambda>(k, e). P k e) m) k = (case get m k of None \<Rightarrow> None | Some e \<Rightarrow> if P k e then Some e else None)"
proof (induction m)
  case (Cons kv m)
  have "get m (fst kv) = None" using Cons.prems by (simp add: map_of_eq_None_iff)
  moreover have "get (filter (\<lambda>(k, e). P k e) m) k = (case get m k of None \<Rightarrow> None | Some e \<Rightarrow> if P k e then Some e else None)"
    using Cons by simp
  ultimately show ?case by (cases kv) (auto split: option.split)
qed simp

lemma evict_get:
  assumes "wf_map m"
  shows "wf_map (snd (evictNodeTargetsLocked p m))"
    "get (snd (evictNodeTargetsLocked p m)) k = (case get m k of None \<Rightarrow> None | Some e \<Rightarrow> if p k e then None else Some e)"
  using assms get_filter [OF assms, of "\<lambda>k e. \<not> p k e" k]
  by (auto simp: evictNodeTargetsLocked_def distinct_map_filter split: option.split)

text \<open>What the memo holds after an entry is remembered: the entry, or what it held.\<close>
lemma remember_get:
  assumes wf: "wf_map m"
  shows "wf_map (rememberNodeTargets ttl' st nd etag valid now m)"
    "get (rememberNodeTargets ttl' st nd etag valid now m) k = Some e \<Longrightarrow>
       get m k = Some e \<or> k = nd \<and> e = \<lparr>ne_etag = etag, ne_builtAt = now, ne_valid = valid\<rparr>"
proof -
  let ?e = "\<lparr>ne_etag = etag, ne_builtAt = now, ne_valid = valid\<rparr>"
  obtain freed m1 where f: "evictNodeTargetsLocked (\<lambda>k e. nodeTargetsUnusable ttl' st k e valid now) m = (freed, m1)" by fastforce
  define m2 where "m2 = (if freed then m1 else snd (evictNodeTargetsLocked (\<lambda>k e. now - ne_builtAt e \<ge> ttl') m1))"
  have m1: "wf_map m1" "get m1 k = Some e \<Longrightarrow> get m k = Some e" for k e
    using evict_get(1) [OF wf, of "\<lambda>k e. nodeTargetsUnusable ttl' st k e valid now"] evict_get(2) [OF wf, of "\<lambda>k e. nodeTargetsUnusable ttl' st k e valid now" k]
    by (auto simp: f simp del: map_of_eq_Some_iff split: option.splits if_splits)
  have m2: "wf_map m2" using evict_get(1) [OF m1(1)] m1(1) by (simp add: m2_def)
  have g2: "get m2 k = Some e \<Longrightarrow> get m1 k = Some e" for k e
    unfolding m2_def using evict_get(2) [OF m1(1), of "\<lambda>k e. now - ne_builtAt e \<ge> ttl'" k] by (auto split: option.splits if_splits simp del: map_of_eq_Some_iff)
  have r: "rememberNodeTargets ttl' st nd etag valid now m \<in> {m, m2, put nd ?e m, put nd ?e m2}"
    by (simp add: rememberNodeTargets_def f m2_def [symmetric] Let_def)
  show "wf_map (rememberNodeTargets ttl' st nd etag valid now m)" using r wf m2 by auto
  show "get m k = Some e \<or> k = nd \<and> e = ?e" if "get (rememberNodeTargets ttl' st nd etag valid now m) k = Some e"
    using r that m1(2) g2 by (auto split: if_splits)
qed

lemma touch_get:
  shows "wf_map m \<Longrightarrow> wf_map (touch_section nd etag now m)"
    "get (touch_section nd etag now m) k = Some e \<Longrightarrow> \<exists>e'. get m k = Some e' \<and> ne_etag e = ne_etag e' \<and> ne_valid e = ne_valid e'"
  by (auto simp: touch_section_def split: option.splits if_splits)

subsection \<open>A history of the server\<close>

abbreviation cs_memos :: "'sel cached_server \<Rightarrow> 'sel monitor_memos" where
  "cs_memos c \<equiv> sv_memos (cs_server c)"

abbreviation cs_store :: "'sel cached_server \<Rightarrow> store" where
  "cs_store c \<equiv> sv_store (cs_server c)"

abbreviation token_now :: "string \<Rightarrow> 'sel cached_server \<Rightarrow> targetsToken" where
  "token_now nd c \<equiv> targetsValidity (cs_ownerGeneration c) nd (cs_server c)"

text \<open>
  A change of a source: an event or a lookup of the store, a delivery to an index or a use of the
  memos that are kept of them, a change of the informer caches of owners, whose token advances when what they
  serve changes; or of what no source reads.
\<close>
definition source_step :: "(uid \<Rightarrow> string) \<Rightarrow> (string \<Rightarrow> uid) \<Rightarrow> ('raw, 'sel) apimachinery \<Rightarrow> regex_engine \<Rightarrow> ('sel \<Rightarrow> strmap \<Rightarrow> bool) \<Rightarrow>
    'sel cached_server \<Rightarrow> 'sel cached_server \<Rightarrow> bool" where
  "source_step nm own api rx matches c c' \<longleftrightarrow>
     (\<exists>s. node_step nm own (cs_store c) s \<and> c' = c\<lparr>cs_server := (cs_server c)\<lparr>sv_store := s\<rparr>\<rparr>) \<or>
     (\<exists>mm. mm_step api rx matches (cs_memos c) mm \<and> c' = c\<lparr>cs_server := (cs_server c)\<lparr>sv_memos := mm\<rparr>\<rparr>) \<or>
     (\<exists>ix. ix_step (mm_services (cs_memos c)) ix \<and> c' = c\<lparr>cs_server := (cs_server c)\<lparr>sv_memos := (cs_memos c)\<lparr>mm_services := ix\<rparr>\<rparr>\<rparr>) \<or>
     (\<exists>g g' w. cs_ownerGeneration c = Some g \<and> (g < g' \<or> g \<le> g' \<and> enriched w = enriched (cs_world c)) \<and>
        c' = c\<lparr>cs_world := w, cs_ownerGeneration := Some g'\<rparr>) \<or>
     (\<exists>r k l b h n. c' = c\<lparr>cs_server := (cs_server c)\<lparr>sv_resolver := r, sv_targetBuilds := k, sv_svcSelectorEvals := l\<rparr>,
        cs_ready := b, cs_memo_hit := h, cs_built := n\<rparr>)"

text \<open>
  The list that a derivation serves when it reads its sources between two moments of a history: the pods of the
  node, the two snapshots of the monitors, and for each pod the Services of its namespace and its owners.
\<close>
definition derived_in :: "(string \<Rightarrow> duration option) \<Rightarrow> ('sel \<Rightarrow> strmap \<Rightarrow> bool) \<Rightarrow> (nat \<Rightarrow> 'sel cached_server) \<Rightarrow> nat \<Rightarrow> nat \<Rightarrow> string \<Rightarrow> ScrapeTarget list \<Rightarrow> bool" where
  "derived_in pd matches tr j i nd targets \<longleftrightarrow>
     (\<exists>a b d c e. a \<in> {j..i} \<and> b \<in> {j..i} \<and> d \<in> {j..i} \<and> (\<forall>np. c np \<in> {j..i} \<and> e np \<in> {j..i}) \<and>
        targets = sort_key target_key (concat (map (\<lambda>np.
          d_out (pod_targets pd matches (cs_world (tr (e np))) (mm_build matches (cs_memos (tr b)))
                  (mm_services (cs_memos (tr (c np)))) (pm_build (cs_memos (tr d))) np)) (PodsOnNode nd (cs_store (tr a))))))"

text \<open>
  The history of a server that publishes all of its tokens: the sources change; a request confirms an entry of
  the memo; or a build, which sampled the token before it read, is remembered.
\<close>
definition cache_history :: "(uid \<Rightarrow> string) \<Rightarrow> (string \<Rightarrow> uid) \<Rightarrow> ('raw, 'sel) apimachinery \<Rightarrow> regex_engine \<Rightarrow> ('sel \<Rightarrow> strmap \<Rightarrow> bool) \<Rightarrow>
    (string \<Rightarrow> duration option) \<Rightarrow> (string \<Rightarrow> ScrapeTarget list \<Rightarrow> string option) \<Rightarrow> (string \<Rightarrow> u64 \<times> u64) \<Rightarrow> (nat \<Rightarrow> 'sel cached_server) \<Rightarrow> nat \<Rightarrow> bool" where
  "cache_history nm own api rx matches pd marshal digest tr n \<longleftrightarrow>
     (\<exists>t cap. cs_store (tr 0) = New t (options cap)) \<and> cs_etags (tr 0) = [] \<and> cs_ownerGeneration (tr 0) \<noteq> None \<and>
     (\<forall>i < n. source_step nm own api rx matches (tr i) (tr (Suc i)) \<or>
        (\<exists>nd etag now. tr (Suc i) = (tr i)\<lparr>cs_etags := touch_section nd etag now (cs_etags (tr i))\<rparr>) \<or>
        (\<exists>j k nd targets body now. j \<le> k \<and> k \<le> i \<and> derived_in pd matches tr j k nd targets \<and> marshal nd targets = Some body \<and>
           tr (Suc i) = (tr i)\<lparr>cs_etags := rememberNodeTargets (cs_cacheTTL (tr i)) (cs_store (tr i)) nd (entityTag digest body)
             (token_now nd (tr j)) now (cs_etags (tr i))\<rparr>))"

text \<open>What is read of a source.\<close>
definition same_sources :: "string \<Rightarrow> 'sel cached_server \<Rightarrow> 'sel cached_server \<Rightarrow> bool" where
  "same_sources nd c c' \<longleftrightarrow>
     PodsOnNode nd (cs_store c') = PodsOnNode nd (cs_store c) \<and> enriched (cs_world c') = enriched (cs_world c) \<and>
     byNamespace (mm_services (cs_memos c')) = byNamespace (mm_services (cs_memos c)) \<and> mi_view (held_index (cs_memos c')) = mi_view (held_index (cs_memos c))"

text \<open>Every component of the token is at most that of the other.\<close>
definition tok_le :: "targetsToken \<Rightarrow> targetsToken \<Rightarrow> bool" where
  "tok_le t t' \<longleftrightarrow> tv_pods t \<le> tv_pods t' \<and> tv_owners t \<le> tv_owners t' \<and> tv_services t \<le> tv_services t' \<and> tv_monitors t \<le> tv_monitors t' \<and> tv_wired t = tv_wired t'"

lemma tok_le_antisym: "tok_le t t' \<Longrightarrow> tok_le t' t \<Longrightarrow> t = t'"
  by (auto simp: tok_le_def intro: targetsToken.equality)

lemma tok_le_trans: "tok_le t t' \<Longrightarrow> tok_le t' t'' \<Longrightarrow> tok_le t t''"
  by (auto simp: tok_le_def)

lemma tok_le_refl [simp]: "tok_le t t"
  by (simp add: tok_le_def)

text \<open>What a step keeps: the store is sound, the tokens advance, and with the same token the sources are the same.\<close>
definition cs_valid :: "(uid \<Rightarrow> string) \<Rightarrow> 'sel cached_server \<Rightarrow> bool" where
  "cs_valid nm c \<longleftrightarrow> store_ok nm (cs_store c) \<and> tokens_ok (cs_store c) \<and> cs_ownerGeneration c \<noteq> None"

definition advances :: "string \<Rightarrow> 'sel cached_server \<Rightarrow> 'sel cached_server \<Rightarrow> bool" where
  "advances nd c c' \<longleftrightarrow> tok_le (token_now nd c) (token_now nd c') \<and> (token_now nd c' = token_now nd c \<longrightarrow> same_sources nd c c')"

lemma node_token_step:
  assumes "store_ok nm s" "tokens_ok s" "node_step nm own s s'"
  shows "store_ok nm s' \<and> tokens_ok s' \<and> NodeGeneration s nd \<le> NodeGeneration s' nd \<and>
    (NodeGeneration s' nd = NodeGeneration s nd \<longrightarrow> PodsOnNode nd s' = PodsOnNode nd s)"
  using node_token.valid_step [OF _ assms(3)] node_token.token_mono [OF _ assms(3), of nd]
    node_token.same_token_same_view [OF r_into_rtranclp [of "node_step nm own", OF assms(3)], of nd] assms(1,2) by blast

lemma index_token_step:
  assumes "ix_step ix ix'"
  shows "Generation ix \<le> Generation ix' \<and> (Generation ix' = Generation ix \<longrightarrow> byNamespace ix' = byNamespace ix)"
  using index_token.token_mono [OF TrueI assms] index_token.same_token_same_view [OF r_into_rtranclp [of ix_step, OF assms] TrueI] by blast

lemma monitor_step:
  assumes st: "mm_step api rx matches s s'"
  shows "mm_monitors s \<noteq> None" "mm_monitors s' \<noteq> None"
    "MIndex_Generation (held_index s) \<le> MIndex_Generation (held_index s')" "Generation (mm_services s) \<le> Generation (mm_services s')"
    "MIndex_Generation (held_index s') = MIndex_Generation (held_index s) \<Longrightarrow> Generation (mm_services s') = Generation (mm_services s) \<Longrightarrow>
       mi_view (held_index s') = mi_view (held_index s) \<and> byNamespace (mm_services s') = byNamespace (mm_services s)"
proof -
  show "mm_monitors s \<noteq> None" "mm_monitors s' \<noteq> None" using st by (auto simp: mm_step_def memo_use)
  show "MIndex_Generation (held_index s) \<le> MIndex_Generation (held_index s')" "Generation (mm_services s) \<le> Generation (mm_services s')"
    "MIndex_Generation (held_index s') = MIndex_Generation (held_index s) \<Longrightarrow> Generation (mm_services s') = Generation (mm_services s) \<Longrightarrow>
       mi_view (held_index s') = mi_view (held_index s) \<and> byNamespace (mm_services s') = byNamespace (mm_services s)"
    using mm_step_tokens [OF st] by (auto simp: both_le_def mm_tokens_def)
qed

lemma source_advances:
  assumes v: "cs_valid nm c" and st: "source_step nm own api rx matches c c'"
  shows "cs_valid nm c' \<and> advances nd c c' \<and> cs_etags c' = cs_etags c"
  using st unfolding source_step_def
proof (elim disjE exE conjE)
  fix s
  assume "node_step nm own (cs_store c) s" "c' = c\<lparr>cs_server := (cs_server c)\<lparr>sv_store := s\<rparr>\<rparr>"
  then show ?thesis using node_token_step [of nm "cs_store c" own s nd] v
    by (auto simp: cs_valid_def advances_def tok_le_def same_sources_def targetsValidity_def split: option.split)
next
  fix mm
  assume "mm_step api rx matches (cs_memos c) mm" "c' = c\<lparr>cs_server := (cs_server c)\<lparr>sv_memos := mm\<rparr>\<rparr>"
  then show ?thesis using monitor_step [of api rx matches "cs_memos c" mm] v
    by (auto simp: cs_valid_def advances_def tok_le_def same_sources_def targetsValidity_def held_index_def split: option.splits)
next
  fix ix
  assume "ix_step (mm_services (cs_memos c)) ix" "c' = c\<lparr>cs_server := (cs_server c)\<lparr>sv_memos := (cs_memos c)\<lparr>mm_services := ix\<rparr>\<rparr>\<rparr>"
  then show ?thesis using index_token_step [of "mm_services (cs_memos c)" ix] v
    by (auto simp: cs_valid_def advances_def tok_le_def same_sources_def targetsValidity_def held_index_def split: option.splits)
qed (use v in \<open>auto simp: cs_valid_def advances_def tok_le_def same_sources_def targetsValidity_def split: option.split\<close>)

text \<open>A step of a history: the token advances as the sources change, and an entry is new only from a build.\<close>
lemma touch_advances: "advances nd c (c\<lparr>cs_etags := m\<rparr>)" "cs_valid nm (c\<lparr>cs_etags := m\<rparr>) = cs_valid nm c"
  by (simp_all add: advances_def same_sources_def cs_valid_def)

lemma advances_trans:
  assumes "advances nd a b" "advances nd b c"
  shows "advances nd a c"
proof -
  have le: "tok_le (token_now nd a) (token_now nd b)" "tok_le (token_now nd b) (token_now nd c)" using assms by (simp_all add: advances_def)
  have "same_sources nd a c" if eq: "token_now nd c = token_now nd a"
  proof -
    have "token_now nd b = token_now nd a" using le unfolding eq by (metis tok_le_antisym)
    then have "same_sources nd a b" "same_sources nd b c" using assms eq by (simp_all add: advances_def)
    then show ?thesis by (simp add: same_sources_def)
  qed
  then show ?thesis using tok_le_trans [OF le] by (simp add: advances_def)
qed

lemma advances_refl [simp]: "advances nd c c"
  by (simp add: advances_def same_sources_def)

lemma history_step:
  assumes h: "cache_history nm own api rx matches pd marshal digest tr n" and i: "i < n" and v: "cs_valid nm (tr i)"
  shows "cs_valid nm (tr (Suc i)) \<and> advances nd (tr i) (tr (Suc i))"
proof -
  from h i consider "source_step nm own api rx matches (tr i) (tr (Suc i))" | m where "tr (Suc i) = (tr i)\<lparr>cs_etags := m\<rparr>"
    unfolding cache_history_def by blast
  then show ?thesis using source_advances [OF v] touch_advances v by cases fastforce+
qed

lemma history_valid:
  assumes h: "cache_history nm own api rx matches pd marshal digest tr n"
  shows "i \<le> n \<Longrightarrow> cs_valid nm (tr i)"
proof (induction i)
  case 0
  then show ?case using h New_tokens by (auto simp: cache_history_def cs_valid_def)
qed (use history_step [OF h] in simp)

lemma history_advances:
  assumes h: "cache_history nm own api rx matches pd marshal digest tr n"
  shows "j \<le> i \<Longrightarrow> i \<le> n \<Longrightarrow> advances nd (tr j) (tr i)"
proof (induction i)
  case (Suc i)
  show ?case
  proof (cases "j = Suc i")
    case False
    then have "advances nd (tr j) (tr i)" "advances nd (tr i) (tr (Suc i))" using Suc history_step [OF h] history_valid [OF h] by simp_all
    then show ?thesis by (rule advances_trans)
  qed simp
qed simp

text \<open>Where an entry of the memo comes from.\<close>
lemma entry_origin:
  assumes h: "cache_history nm own api rx matches pd marshal digest tr n"
  shows "i \<le> n \<Longrightarrow> wf_map (cs_etags (tr i)) \<and> (\<forall>nd e. get (cs_etags (tr i)) nd = Some e \<longrightarrow>
    (\<exists>j k targets body. j \<le> k \<and> k \<le> i \<and> derived_in pd matches tr j k nd targets \<and> marshal nd targets = Some body \<and>
       ne_etag e = entityTag digest body \<and> ne_valid e = token_now nd (tr j)))"
proof (induction i)
  case 0
  then show ?case using h by (simp add: cache_history_def)
next
  case (Suc i)
  let ?P = "\<lambda>i nd e. \<exists>j k targets body. j \<le> k \<and> k \<le> i \<and> derived_in pd matches tr j k nd targets \<and> marshal nd targets = Some body \<and>
       ne_etag e = entityTag digest body \<and> ne_valid e = token_now nd (tr j)"
  have ih: "wf_map (cs_etags (tr i))" "\<And>nd e. get (cs_etags (tr i)) nd = Some e \<Longrightarrow> ?P i nd e" using Suc by auto
  have up: "?P (Suc i) nd e" if "?P i nd e" for nd e using that le_SucI by blast
  have finish: ?case if "wf_map (cs_etags (tr (Suc i)))" "\<And>nd e. get (cs_etags (tr (Suc i))) nd = Some e \<Longrightarrow> ?P i nd e"
    by (intro conjI allI impI, rule that(1), rule up, rule that(2))
  from h Suc.prems consider (src) "source_step nm own api rx matches (tr i) (tr (Suc i))"
    | (touch) nd etag now where "tr (Suc i) = (tr i)\<lparr>cs_etags := touch_section nd etag now (cs_etags (tr i))\<rparr>"
    | (build) j k nd targets body now where "j \<le> k" "k \<le> i" "derived_in pd matches tr j k nd targets" "marshal nd targets = Some body"
        "tr (Suc i) = (tr i)\<lparr>cs_etags := rememberNodeTargets (cs_cacheTTL (tr i)) (cs_store (tr i)) nd (entityTag digest body)
             (token_now nd (tr j)) now (cs_etags (tr i))\<rparr>"
    unfolding cache_history_def by (meson Suc_le_eq)
  then show ?case
  proof cases
    case src
    have e: "cs_etags (tr (Suc i)) = cs_etags (tr i)" using source_advances [OF history_valid [OF h] src] Suc.prems by simp
    show ?thesis by (rule finish) (simp_all only: e ih)
  next
    case (touch nd etag now)
    have e: "cs_etags (tr (Suc i)) = touch_section nd etag now (cs_etags (tr i))" by (simp add: touch)
    have "?P i nd' e" if g: "get (touch_section nd etag now (cs_etags (tr i))) nd' = Some e" for nd' e
    proof -
      obtain e' where "get (cs_etags (tr i)) nd' = Some e'" "ne_etag e = ne_etag e'" "ne_valid e = ne_valid e'" using touch_get(2) [OF g] by blast
      with ih(2) [OF this(1)] show ?thesis by simp
    qed
    then show ?thesis using touch_get(1) [OF ih(1)] by (intro finish) (simp_all only: e)
  next
    case (build j k nd targets body now)
    let ?m = "rememberNodeTargets (cs_cacheTTL (tr i)) (cs_store (tr i)) nd (entityTag digest body) (token_now nd (tr j)) now (cs_etags (tr i))"
    have e: "cs_etags (tr (Suc i)) = ?m" by (simp add: build(5))
    have "?P i nd' e" if g: "get ?m nd' = Some e" for nd' e
    proof (cases "get (cs_etags (tr i)) nd' = Some e")
      case False
      then have "nd' = nd" "ne_etag e = entityTag digest body" "ne_valid e = token_now nd (tr j)" using remember_get(2) [OF ih(1) g] by auto
      then show ?thesis using build(1-4) by blast
    qed (rule ih(2))
    then show ?thesis using remember_get(1) [OF ih(1)] by (intro finish) (simp_all only: e)
  qed
qed

lemma pod_targets_cong:
  assumes "enriched w' = enriched w" "byNamespace ix' = byNamespace ix"
  shows "pod_targets pd matches w' monitored ix' refs np = pod_targets pd matches w monitored ix refs np"
  by (simp add: pod_targets_def assms)

lemma same_sources_builds:
  assumes "same_sources nd c c'"
  shows "mm_build matches (cs_memos c') = mm_build matches (cs_memos c)" "pm_build (cs_memos c') = pm_build (cs_memos c)"
proof -
  have "mi_view (held_index (cs_memos c')) = mi_view (held_index (cs_memos c))" "byNamespace (mm_services (cs_memos c')) = byNamespace (mm_services (cs_memos c))"
    using assms by (simp_all add: same_sources_def)
  then show "mm_build matches (cs_memos c') = mm_build matches (cs_memos c)" "pm_build (cs_memos c') = pm_build (cs_memos c)"
    using build_cong by (auto simp: pm_build_def PodMonitors_def mi_view_def)
qed

text \<open>A list that was derived since a sample is, as long as the sample is the token, one that was derived since now.\<close>
lemma derived_later:
  assumes h: "cache_history nm own api rx matches pd marshal digest tr n" and d: "derived_in pd matches tr j k nd targets"
    and tok: "token_now nd (tr j) = token_now nd (tr j')" and le: "k \<le> i" "j' \<le> i" "i \<le> n"
  shows "derived_in pd matches tr j' i nd targets"
proof -
  have at: "max m j' \<in> {j'..i} \<and> same_sources nd (tr m) (tr (max m j'))" if m: "m \<in> {j..k}" for m
  proof (cases "j' \<le> m")
    case True
    then show ?thesis using m le by (simp add: max_def same_sources_def)
  next
    case False
    then have a: "advances nd (tr j) (tr m)" "advances nd (tr m) (tr j')" using history_advances [OF h] m le by simp_all
    then have "tok_le (token_now nd (tr j)) (token_now nd (tr m))" "tok_le (token_now nd (tr m)) (token_now nd (tr j'))"
      by (simp_all add: advances_def)
    then have "token_now nd (tr m) = token_now nd (tr j')" using tok by (metis tok_le_antisym)
    then show ?thesis using a(2) False le by (simp add: advances_def max_def)
  qed
  obtain a b d' c e where x: "a \<in> {j..k}" "b \<in> {j..k}" "d' \<in> {j..k}" "\<forall>np. c np \<in> {j..k} \<and> e np \<in> {j..k}"
    "targets = sort_key target_key (concat (map (\<lambda>np. d_out (pod_targets pd matches (cs_world (tr (e np))) (mm_build matches (cs_memos (tr b)))
        (mm_services (cs_memos (tr (c np)))) (pm_build (cs_memos (tr d'))) np)) (PodsOnNode nd (cs_store (tr a)))))"
    using d unfolding derived_in_def by blast
  have "pod_targets pd matches (cs_world (tr (max (e np) j'))) (mm_build matches (cs_memos (tr (max b j'))))
        (mm_services (cs_memos (tr (max (c np) j')))) (pm_build (cs_memos (tr (max d' j')))) np =
      pod_targets pd matches (cs_world (tr (e np))) (mm_build matches (cs_memos (tr b))) (mm_services (cs_memos (tr (c np)))) (pm_build (cs_memos (tr d'))) np" for np
  proof -
    have s: "same_sources nd (tr (e np)) (tr (max (e np) j'))" "same_sources nd (tr (c np)) (tr (max (c np) j'))"
      "same_sources nd (tr b) (tr (max b j'))" "same_sources nd (tr d') (tr (max d' j'))" using at x(1-4) by blast+
    have "enriched (cs_world (tr (max (e np) j'))) = enriched (cs_world (tr (e np)))"
      "byNamespace (mm_services (cs_memos (tr (max (c np) j')))) = byNamespace (mm_services (cs_memos (tr (c np))))"
      using s(1,2) by (simp_all add: same_sources_def)
    then show ?thesis unfolding same_sources_builds(1) [OF s(3)] same_sources_builds(2) [OF s(4)] by (rule pod_targets_cong)
  qed
  moreover have "PodsOnNode nd (cs_store (tr (max a j'))) = PodsOnNode nd (cs_store (tr a))" using at [OF x(1)] by (simp add: same_sources_def)
  ultimately have list: "targets = sort_key target_key (concat (map (\<lambda>np. d_out (pod_targets pd matches (cs_world (tr (max (e np) j'))) (mm_build matches (cs_memos (tr (max b j'))))
        (mm_services (cs_memos (tr (max (c np) j')))) (pm_build (cs_memos (tr (max d' j')))) np)) (PodsOnNode nd (cs_store (tr (max a j'))))))"
    by (simp add: x(5))
  have mem: "max a j' \<in> {j'..i}" "max b j' \<in> {j'..i}" "max d' j' \<in> {j'..i}" using at x(1-3) by blast+
  have mem': "\<forall>np. max (c np) j' \<in> {j'..i} \<and> max (e np) j' \<in> {j'..i}" using at x(4) by blast
  show ?thesis unfolding derived_in_def
    by (rule exI [of _ "max a j'"], rule exI [of _ "max b j'"], rule exI [of _ "max d' j'"], rule exI [of _ "\<lambda>np. max (c np) j'"], rule exI [of _ "\<lambda>np. max (e np) j'"])
      (intro conjI mem mem' list)
qed

subsection \<open>The snapshots of the monitors at one moment\<close>

context ordered_memo
begin

lemma memo_now:
  assumes "valid s" "step s s'" "\<And>t r. memo s = Some (t, r) \<Longrightarrow> le t (tokens s)" "\<And>t r. memo s = Some (t, r) \<Longrightarrow> le (tokens s) t \<Longrightarrow> r = build s"
    and "memo s' = Some (t, r)" "le (tokens s') t"
  shows "r = build s'"
proof (cases "memo s' = memo s")
  case True
  then have m: "memo s = Some (t, r)" using assms(5) by simp
  have "le (tokens s') (tokens s)" using le_trans [OF assms(6) assms(3) [OF m]] .
  then have "build s' = build s" by (rule change_advances [OF assms(2)])
  moreover have "le (tokens s) t" using le_trans [OF tokens_advance [OF assms(2)] assms(6)] .
  ultimately show ?thesis using assms(4) [OF m] by simp
next
  case False
  then show ?thesis using memo_step [OF assms(1,2)] assms(5) by auto
qed

end

definition memos_now :: "('sel \<Rightarrow> strmap \<Rightarrow> bool) \<Rightarrow> 'sel monitor_memos \<Rightarrow> bool" where
  "memos_now matches s \<longleftrightarrow> mm_ok s \<and> memo_ok (mm_services s) \<and> (mm_monitors s = None \<longrightarrow> \<not> monValid s \<and> \<not> pmValid s) \<and>
     (\<forall>t r. mm_memo s = Some (t, r) \<longrightarrow> both_le (mm_tokens s) t \<longrightarrow> r = mm_build matches s) \<and>
     (\<forall>t r. pm_memo s = Some (t, r) \<longrightarrow> MIndex_Generation (held_index s) \<le> t \<longrightarrow> r = pm_build s)"

lemma memo_ok_reads [simp]: "memo_ok (ix\<lparr>reads := n\<rparr>) = memo_ok ix"
  by (simp add: memo_ok_def)

lemma mm_step_memo_ok:
  assumes ok: "memo_ok (mm_services s)" and st: "mm_step api rx matches s s'"
  shows "memo_ok (mm_services s')"
  using st unfolding mm_step_def
proof (elim conjE disjE exE)
  fix ix
  assume "ix_step (mm_services s) ix" "s' = s\<lparr>mm_services := ix\<rparr>"
  then show ?thesis using ix_run_memo [OF ok] by (auto simp: ix_step_def)
next
  fix mg sg
  assume "s' = snd (monitoredServicesAt matches mg sg s)"
  moreover obtain c run i where f: "fold (build_monitor matches) (MIndex_All (held_index s)) ([], \<lparr>runKey = [], runSvcs = [], runValid = False\<rparr>, mm_services s) = (c, run, i)"
    by (metis prod_cases3)
  ultimately show ?thesis using ok build_reads [OF f] by (auto simp: monitoredServicesAt_def buildMonitoredServices_def f Let_def)
qed (use ok in \<open>simp_all add: allPodMonitorsAt_def Let_def\<close>)

lemma mm_step_now:
  assumes now: "memos_now matches s" and st: "mm_step api rx matches s s'"
  shows "memos_now matches s'"
proof -
  have ok: "mm_ok s" and some: "mm_monitors s' \<noteq> None" using now monitor_step(2) [OF st] by (simp_all add: memos_now_def)
  have stamp: "both_le t (mm_tokens s)" if "mm_memo s = Some (t, r)" for t r
    using ok that by (auto simp: mm_ok_def mm_memo_def split: if_splits)
  have pstamp: "t \<le> MIndex_Generation (held_index s)" if "pm_memo s = Some (t, r)" for t r
    using ok that by (auto simp: mm_ok_def mm_tokens_def pm_memo_def split: if_splits)
  have "r = mm_build matches s'" if "mm_memo s' = Some (t, r)" "both_le (mm_tokens s') t" for t r
    by (rule monitored_memo.memo_now [OF ok st stamp _ that]) (use now in \<open>auto simp: memos_now_def\<close>)
  moreover have "r = pm_build s'" if "pm_memo s' = Some (t, r)" "MIndex_Generation (held_index s') \<le> t" for t r
    by (rule pod_monitor_memo.memo_now [OF ok st pstamp _ that]) (use now in \<open>auto simp: memos_now_def\<close>)
  moreover have "memo_ok (mm_services s')" using mm_step_memo_ok [OF _ st] now by (simp add: memos_now_def)
  ultimately show ?thesis using mm_step_ok [OF ok st] some by (cases "mm_monitors s'") (simp_all add: memos_now_def)
qed

lemma ix_step_now:
  assumes now: "memos_now matches s" and st: "ix_step (mm_services s) ix"
  shows "memos_now matches (s\<lparr>mm_services := ix\<rparr>)"
proof (cases "mm_monitors s")
  case None
  have "Generation (mm_services s) \<le> Generation ix" using index_token_step [OF st] by simp
  then have "mm_ok (s\<lparr>mm_services := ix\<rparr>)" using now by (auto simp: memos_now_def mm_ok_def both_le_def mm_tokens_def held_index_def)
  moreover have "memo_ok ix" using ix_run_memo now st by (auto simp: ix_step_def memos_now_def)
  ultimately show ?thesis using now None by (simp add: memos_now_def mm_memo_def pm_memo_def)
next
  case (Some mons)
  then have "mm_step api rx matches s (s\<lparr>mm_services := ix\<rparr>)" for api :: "(unit, 'a) apimachinery" and rx using st by (auto simp: mm_step_def)
  then show ?thesis using mm_step_now [OF now] by blast
qed

lemma memos_now_reads:
  assumes "memos_now matches s"
  shows "fst (monitoredServices matches s) = mm_build matches s" "fst (allPodMonitors s) = pm_build s"
proof -
  show "fst (monitoredServices matches s) = mm_build matches s"
  proof (cases "mm_monitors s")
    case None
    then show ?thesis
      by (simp add: monitoredServices_def mm_build_def held_index_def buildMonitoredServices_def New_MIndex_def MIndex_All_def sortedMonitors_def)
  next
    case (Some mons)
    let ?mg = "MIndex_Generation mons" and ?sg = "Generation (mm_services s)"
    show ?thesis
    proof (cases "\<not> monValid s \<or> monGen s < ?mg \<or> svcGen s < ?sg")
      case True
      then have "fst (monitoredServicesAt matches ?mg ?sg s) = mm_build matches s"
        by (simp add: monitoredServicesAt_def mm_build_def Let_def split: prod.split)
      then show ?thesis by (simp add: monitoredServices_def Some)
    next
      case False
      then have "mm_memo s = Some ((monGen s, svcGen s), monCache s)" "both_le (mm_tokens s) (monGen s, svcGen s)"
        by (auto simp: mm_memo_def both_le_def mm_tokens_def held_index_def Some)
      then have "monCache s = mm_build matches s" using assms by (simp add: memos_now_def)
      then show ?thesis using False by (simp add: monitoredServices_def Some monitoredServicesAt_def Let_def)
    qed
  qed
  show "fst (allPodMonitors s) = pm_build s"
  proof (cases "mm_monitors s")
    case None
    then show ?thesis by (simp add: allPodMonitors_def pm_build_def held_index_def PodMonitors_def New_MIndex_def sortedMonitors_def)
  next
    case (Some mons)
    then show ?thesis using assms
      by (auto simp: allPodMonitors_def allPodMonitorsAt_def memos_now_def pm_memo_def pm_build_def held_index_def Let_def)
  qed
qed

lemma new_memos_now: "memos_now matches new_memos" "memos_now matches (new_memos\<lparr>mm_monitors := None\<rparr>)"
proof -
  have k: "mm_ok new_memos" "mm_ok (new_memos\<lparr>mm_monitors := None\<rparr>)"
    by (simp_all add: new_memos_def mm_ok_def both_le_def)
  show "memos_now matches new_memos" using k(1) NewIndex_memo by (simp add: memos_now_def new_memos_def mm_memo_def pm_memo_def)
  show "memos_now matches (new_memos\<lparr>mm_monitors := None\<rparr>)" using k(2) NewIndex_memo by (simp add: memos_now_def new_memos_def mm_memo_def pm_memo_def)
qed

subsection \<open>The answers\<close>

text \<open>A server that starts, with the index of monitors or without it.\<close>
definition server_start :: "'sel cached_server \<Rightarrow> bool" where
  "server_start c \<longleftrightarrow> cs_memos c = new_memos \<or> cs_memos c = new_memos\<lparr>mm_monitors := None\<rparr>"

lemma history_now:
  assumes h: "cache_history nm own api rx matches pd marshal digest tr n" and s: "server_start (tr 0)"
  shows "i \<le> n \<Longrightarrow> memos_now matches (cs_memos (tr i))"
proof (induction i)
  case 0
  then show ?case using s new_memos_now by (auto simp: server_start_def)
next
  case (Suc i)
  then have now: "memos_now matches (cs_memos (tr i))" by simp
  from h Suc.prems consider "source_step nm own api rx matches (tr i) (tr (Suc i))" | m where "tr (Suc i) = (tr i)\<lparr>cs_etags := m\<rparr>"
    unfolding cache_history_def by (meson Suc_le_eq)
  then show ?case
  proof cases
    case 1
    then show ?thesis using now mm_step_now [OF now] ix_step_now [OF now] unfolding source_step_def by fastforce
  qed (use now in simp)
qed

lemma derived_at: "derived_in pd matches tr i i nd targets \<longleftrightarrow>
    targets = sort_key target_key (concat (map (\<lambda>np. d_out (pod_targets pd matches (cs_world (tr i)) (mm_build matches (cs_memos (tr i)))
      (mm_services (cs_memos (tr i))) (pm_build (cs_memos (tr i))) np)) (PodsOnNode nd (cs_store (tr i)))))"
proof -
  have "\<exists>c e :: NodePod \<Rightarrow> nat. \<forall>np. c np = i \<and> e np = i" by (intro exI [of _ "\<lambda>_. i"]) simp
  then show ?thesis unfolding derived_in_def by (simp cong: conj_cong)
qed

lemma not_modified_fresh:
  assumes h: "cache_history nm own api rx matches pd marshal digest tr n" and ji: "j \<le> i" "i \<le> n"
    and v: "nodeTargetsNotModified cacheTTL header (token_now nd (tr j)) now nd (cs_etags (tr i)) = (Some (etag, maxAge), m)"
  shows "etagMatches header etag \<and> maxAge = maxAgeSeconds cacheTTL \<and>
    (\<exists>targets body. derived_in pd matches tr j i nd targets \<and> marshal nd targets = Some body \<and> etag = entityTag digest body)"
proof -
  obtain e confirmed where e: "get (cs_etags (tr i)) nd = Some e" "memo_verdict cacheTTL header (token_now nd (tr j)) now e = Some (maxAge, confirmed)" "etag = ne_etag e"
    using v by (auto simp: nodeTargetsNotModified_def split: if_splits option.splits prod.splits simp del: map_of_eq_Some_iff)
  obtain j0 k targets body where o: "j0 \<le> k" "k \<le> i" "derived_in pd matches tr j0 k nd targets" "marshal nd targets = Some body"
      "ne_etag e = entityTag digest body" "ne_valid e = token_now nd (tr j0)"
    using entry_origin [OF h ji(2)] e(1) by blast
  have wired: "tv_wired (token_now nd (tr l))" if "l \<le> n" for l
    using history_valid [OF h that] by (auto simp: cs_valid_def targetsValidity_def)
  have w: "tv_wired (token_now nd (tr j))" "tv_wired (ne_valid e)" using wired o(1,2,6) ji by simp_all
  then have a: "etagMatches header (ne_etag e)" "ne_valid e = token_now nd (tr j)" "maxAge = maxAgeSeconds cacheTTL"
    using e(2) by (auto simp: memo_verdict_def split: if_splits)
  then have "token_now nd (tr j0) = token_now nd (tr j)" using o(6) by simp
  from derived_later [OF h o(3) this o(2) ji] show ?thesis using a o(4,5) e(3) by auto
qed


text \<open>
  C11. The memo is invisible: whatever requests it answered and whatever it evicted before, the handler replies
  as the handler that derives, sorts, encodes and digests the whole list for every request.
\<close>
theorem handleNodeTargets_memo_invisible:
  assumes "cache_history nm own api rx matches pd marshal digest tr n" "server_start (tr 0)" "i \<le> n" "pods_plain (PodsOnNode nd (cs_store (tr i)))"
  shows "map_option fst (handleNodeTargets pd matches marshal digest header now nd (tr i)) =
    map_option fst (handleNodeTargets pd matches marshal digest header now nd ((tr i)\<lparr>cs_etags := []\<rparr>))"
proof (cases "cs_ready (tr i)")
  case ready: True
  let ?c = "tr i" and ?ttl = "cs_cacheTTL (tr i)"
  obtain v m where v: "nodeTargetsNotModified ?ttl header (token_now nd ?c) now nd (cs_etags ?c) = (v, m)" by fastforce
  have none: "nodeTargetsNotModified ?ttl header (token_now nd ?c) now nd [] = (None, [])" by (simp add: nodeTargetsNotModified_def)
  note now = history_now [OF assms(1-3)]
  have memo: "memo_ok (mm_services (cs_memos ?c))" using now by (simp add: memos_now_def)
  obtain targets reports sv' where t: "nodeTargets pd matches (cs_world ?c) nd (cs_server ?c) = Some (targets, PodsOnNode nd (cs_store ?c) \<noteq> [], reports, sv')"
      "derived_in pd matches tr i i nd targets"
    using nodeTargets_list [OF memo assms(4) refl refl, of pd matches "cs_world ?c"] unfolding memos_now_reads [OF now] derived_at by blast
  show ?thesis
  proof (cases v)
    case None
    then show ?thesis using ready by (simp add: handleNodeTargets_def v none t(1) Let_def split: sum.split)
  next
    case (Some grant)
    obtain etag maxAge where g: "grant = (etag, maxAge)" by (cases grant)
    note f = not_modified_fresh [OF assms(1) order_refl assms(3) v [unfolded Some g]]
    obtain targets' body where b: "derived_in pd matches tr i i nd targets'" "marshal nd targets' = Some body" "etag = entityTag digest body"
      using f by blast
    have "targets' = targets" using b(1) t(2) by (simp add: derived_at)
    moreover have "?ttl > 0" "header \<noteq> []" using v unfolding Some by (auto simp: nodeTargetsNotModified_def split: if_splits)
    ultimately show ?thesis using ready f b
      by (simp add: handleNodeTargets_def v none t(1) Some g Let_def encodeCached_def writeCachedBody_def)
  qed
qed (simp add: handleNodeTargets_def)

text \<open>Why an entry is gone.\<close>
lemma evicted_why:
  assumes wf: "wf_map m" and e: "get m k = Some e" and gone: "get (rememberNodeTargets cacheTTL st nd etag valid now m) k = None"
  shows "nodeTargetsUnusable cacheTTL st k e valid now \<or> cacheTTL \<le> now - ne_builtAt e"
proof -
  obtain freed m1 where f: "evictNodeTargetsLocked (\<lambda>k e. nodeTargetsUnusable cacheTTL st k e valid now) m = (freed, m1)" by fastforce
  define m2 where "m2 = (if freed then m1 else snd (evictNodeTargetsLocked (\<lambda>k e. now - ne_builtAt e \<ge> cacheTTL) m1))"
  have m1: "wf_map m1" "get m1 k = (if nodeTargetsUnusable cacheTTL st k e valid now then None else Some e)"
    using evict_get [OF wf, of "\<lambda>k e. nodeTargetsUnusable cacheTTL st k e valid now"] e by (simp_all add: f)
  have "get m2 k = None \<Longrightarrow> ?thesis"
    using m1(2) evict_get(2) [OF m1(1), of "\<lambda>k e. now - ne_builtAt e \<ge> cacheTTL" k] by (auto simp: m2_def split: if_splits)
  moreover have "get m2 k = None" using gone e by (auto simp: rememberNodeTargets_def f m2_def [symmetric] Let_def split: if_splits)
  ultimately show ?thesis by simp
qed

text \<open>
  The memo holds at most 8192 nodes, and making room costs no answer: an entry that is evicted while a newer
  build is remembered is one that no later request can confirm by its token, or one that was not used for a whole
  lifetime.
\<close>
theorem rememberNodeTargets_room:
  assumes "cache_history nm own api rx matches pd marshal digest tr n" "j \<le> i" "i \<le> l" "l \<le> n"
    and "length (cs_etags (tr i)) \<le> maxNodeTargetETags" "get (cs_etags (tr i)) k = Some e"
    and "m = rememberNodeTargets cacheTTL (cs_store (tr i)) nd etag (token_now nd (tr j)) now (cs_etags (tr i))"
  shows "length m \<le> maxNodeTargetETags \<and>
    (get m k = None \<longrightarrow> ne_valid e \<noteq> token_now k (tr l) \<or> cacheTTL \<le> now - ne_builtAt e)"
proof (intro conjI impI)
  show "length m \<le> maxNodeTargetETags" unfolding assms(7) by (rule remember_bounded [OF assms(5)])
  assume gone: "get m k = None"
  have wf: "wf_map (cs_etags (tr i))" using entry_origin [OF assms(1), of i] assms(3,4) by simp
  from evicted_why [OF wf assms(6) gone [unfolded assms(7)]]
  show "ne_valid e \<noteq> token_now k (tr l) \<or> cacheTTL \<le> now - ne_builtAt e"
  proof
    assume u: "nodeTargetsUnusable cacheTTL (cs_store (tr i)) k e (token_now nd (tr j)) now"
    have le: "tok_le (token_now k (tr j)) (token_now k (tr l))" "tok_le (token_now k (tr i)) (token_now k (tr l))"
      using history_advances [OF assms(1)] assms(2-4) by (simp_all add: advances_def)
    have wired: "cs_ownerGeneration (tr i) \<noteq> None" "cs_ownerGeneration (tr j) \<noteq> None"
      using history_valid [OF assms(1)] assms(2-4) by (simp_all add: cs_valid_def)
    then obtain g g' where g: "cs_ownerGeneration (tr i) = Some g" "cs_ownerGeneration (tr j) = Some g'" by blast
    have "tv_owners (token_now nd (tr j)) = tv_owners (token_now k (tr j))" "tv_services (token_now nd (tr j)) = tv_services (token_now k (tr j))"
      "tv_monitors (token_now nd (tr j)) = tv_monitors (token_now k (tr j))" "NodeGeneration (cs_store (tr i)) k = tv_pods (token_now k (tr i))"
      by (simp_all add: targetsValidity_def g)
    then have "tv_owners (token_now nd (tr j)) \<le> tv_owners (token_now k (tr l))" "tv_services (token_now nd (tr j)) \<le> tv_services (token_now k (tr l))"
      "tv_monitors (token_now nd (tr j)) \<le> tv_monitors (token_now k (tr l))" "NodeGeneration (cs_store (tr i)) k \<le> tv_pods (token_now k (tr l))"
      using le by (simp_all add: tok_le_def)
    then show ?thesis using u by (auto simp: nodeTargetsUnusable_def split: if_splits)
  qed simp
qed

text \<open>
  Without the tokens a copy is granted no longer than its lifetime: what the clock grants ends within the
  lifetime of the build, unless the lifetime is below a second.
\<close>
theorem memo_verdict_window:
  assumes "memo_verdict cacheTTL header cur now e = Some (maxAge, confirmed)"
  shows "1 \<le> maxAge \<and>
    (if confirmed then ne_valid e = cur \<and> tv_wired cur
     else cacheTTL < second \<or> now + maxAge * second \<le> ne_builtAt e + cacheTTL)"
proof (cases "tv_wired cur \<and> tv_wired (ne_valid e)")
  case True
  then show ?thesis using assms by (auto simp: memo_verdict_def maxAgeSeconds_def split: if_splits)
next
  case False
  let ?r = "cacheTTL - (now - ne_builtAt e)"
  have "1 \<le> maxAge \<and> \<not> confirmed \<and> (cacheTTL < second \<or> maxAge = ?r sdiv second)"
    using assms False by (auto simp: memo_verdict_def maxAgeSeconds_def Let_def split: if_splits)
  moreover have "q * second \<le> r" if "1 \<le> q" "q = r sdiv second" for q r :: int
  proof -
    have "0 < r" using that by (cases r "0 :: int" rule: linorder_cases) (auto simp: signed_divide_int_def second_def)
    then have "q = r div second" using that(2) by (simp add: signed_divide_int_def second_def)
    then show ?thesis using div_mult_mod_eq [of r second] pos_mod_sign [of second r] by (simp add: second_def)
  qed
  ultimately show ?thesis by force
qed


subsection \<open>A node that is polled\<close>

definition polled_server :: "store \<Rightarrow> strmap cached_server" where
  "polled_server st = \<lparr>cs_server = \<lparr>sv_store = st, sv_memos = new_memos, sv_resolver = NewFromListers, sv_targetBuilds = 0, sv_svcSelectorEvals = 0\<rparr>,
     cs_etags = [], cs_ready = True, cs_cacheTTL = 10000000000, cs_world = apps_world True, cs_ownerGeneration = Some 7, cs_memo_hit = 0, cs_built = 0\<rparr>"

definition polled_tag :: string where
  "polled_tag = entityTag (\<lambda>_. (1, 2)) ''body''"

definition polled_etags :: "(string, nodeTargetsETag) gomap" where
  "polled_etags = [(''node-a'', \<lparr>ne_etag = polled_tag, ne_builtAt = 5, ne_valid = token_now ''node-a'' (polled_server quiet_store)\<rparr>)]"

text \<open>A pod is delivered; a request builds its list and remembers it.\<close>
definition polled_history :: "nat \<Rightarrow> strmap cached_server" where
  "polled_history i =
     (if i = 0 then polled_server empty_store
      else if i = 1 then polled_server quiet_store
      else (polled_server quiet_store)\<lparr>cs_etags := polled_etags\<rparr>)"

lemma polled_tag: "etagMatches polled_tag polled_tag" "polled_tag \<noteq> []" "maxAgeSeconds 10000000000 = 10"
  by code_simp+

lemma polled_remembers:
  "rememberNodeTargets 10000000000 quiet_store ''node-a'' (entityTag (\<lambda>_. (1, 2)) ''body'') (token_now ''node-a'' (polled_server quiet_store)) 5 [] = polled_etags"
  using polled_tag(2) by (simp add: rememberNodeTargets_def polled_etags_def polled_tag_def [symmetric] maxNodeTargetETags_def)

lemma polled_run:
  "cache_history one_name one_owner typed_api literal_engine any_selector (\<lambda>_. None) (\<lambda>_ _. Some ''body'') (\<lambda>_. (1, 2)) polled_history 2"
proof -
  have n: "node_step one_name one_owner empty_store quiet_store"
    using node_step.on_event [of 10 one_name one_owner "Upsert quiet_pod" empty_store] quiet_faithful
    by (simp add: quiet_store_def) (simp add: empty_store_def New_def options_def)
  have s: "source_step one_name one_owner typed_api literal_engine any_selector (polled_history 0) (polled_history 1)"
    unfolding source_step_def by (rule disjI1, rule exI [of _ quiet_store]) (simp add: polled_history_def polled_server_def n)
  obtain targets where d: "derived_in (\<lambda>_. None) any_selector polled_history 1 1 ''node-a'' targets" using derived_at by blast
  have r: "polled_history (Suc 1) = (polled_history 1)\<lparr>cs_etags := rememberNodeTargets (cs_cacheTTL (polled_history 1)) (cs_store (polled_history 1)) ''node-a''
      (entityTag (\<lambda>_. (1, 2)) ''body'') (token_now ''node-a'' (polled_history 1)) 5 (cs_etags (polled_history 1))\<rparr>"
  proof -
    have "cs_cacheTTL (polled_history 1) = 10000000000" "cs_store (polled_history 1) = quiet_store" "cs_etags (polled_history 1) = []"
      "polled_history 1 = polled_server quiet_store" "polled_history (Suc 1) = (polled_server quiet_store)\<lparr>cs_etags := polled_etags\<rparr>"
      by (simp_all add: polled_history_def polled_server_def)
    then show ?thesis using polled_remembers by simp
  qed
  have start: "cs_store (polled_history 0) = New 100 (options None)" "cs_etags (polled_history 0) = []" "cs_ownerGeneration (polled_history 0) \<noteq> None"
    by (simp_all add: polled_history_def polled_server_def empty_store_def)
  show ?thesis unfolding cache_history_def
  proof (intro conjI allI impI)
    show "\<exists>t cap. cs_store (polled_history 0) = New t (options cap)" using start(1) by blast
    fix i :: nat
    assume "i < 2"
    then consider "i = 0" | "i = 1" by linarith
    then show "source_step one_name one_owner typed_api literal_engine any_selector (polled_history i) (polled_history (Suc i)) \<or>
      (\<exists>nd etag now. polled_history (Suc i) = (polled_history i)\<lparr>cs_etags := touch_section nd etag now (cs_etags (polled_history i))\<rparr>) \<or>
      (\<exists>j k nd targets body now. j \<le> k \<and> k \<le> i \<and> derived_in (\<lambda>_. None) any_selector polled_history j k nd targets \<and> Some ''body'' = Some body \<and>
         polled_history (Suc i) = (polled_history i)\<lparr>cs_etags := rememberNodeTargets (cs_cacheTTL (polled_history i)) (cs_store (polled_history i)) nd
           (entityTag (\<lambda>_. (1, 2)) body) (token_now nd (polled_history j)) now (cs_etags (polled_history i))\<rparr>)"
    proof cases
      case 1
      then show ?thesis using s by simp
    next
      case 2
      then show ?thesis using d r by blast
    qed
  qed (use start in simp_all)
qed

lemma polled_not_modified:
  "\<exists>m. nodeTargetsNotModified 10000000000 polled_tag (token_now ''node-a'' (polled_history 1)) 9 ''node-a'' (cs_etags (polled_history 2)) = (Some (polled_tag, 10), m)"
proof -
  have "token_now ''node-a'' (polled_history 1) = token_now ''node-a'' (polled_server quiet_store)" "cs_etags (polled_history 2) = polled_etags"
    "tv_wired (token_now ''node-a'' (polled_server quiet_store))"
    by (simp_all add: polled_history_def polled_server_def targetsValidity_def)
  then show ?thesis using polled_tag by (simp add: nodeTargetsNotModified_def polled_etags_def memo_verdict_def)
qed


lemma polled_plain: "pods_plain (PodsOnNode ''node-a'' quiet_store)"
proof -
  have "plain_refs (pod_Namespace (np_Pod (node_pod (at quiet_store 0)))) (np_OwnerRefs (node_pod (at quiet_store 0)))" by code_simp
  then show ?thesis by (simp add: pods_plain_def quiet_state(4))
qed

theorem handleNodeTargets_memo_invisible_witness:
  "map_option fst (handleNodeTargets (\<lambda>_. None) any_selector (\<lambda>_ _. Some ''body'') (\<lambda>_. (1, 2)) polled_tag 9 ''node-a'' ((polled_history 2)\<lparr>cs_etags := []\<rparr>)) =
     Some (writeNotModified polled_tag ''max-age=10'')"
proof -
  have t: "token_now ''node-a'' (polled_history 2) = token_now ''node-a'' (polled_history 1)" "cs_ready (polled_history 2)" "cs_cacheTTL (polled_history 2) = 10000000000"
      "PodsOnNode ''node-a'' (cs_store (polled_history 2)) = PodsOnNode ''node-a'' quiet_store"
    by (simp_all add: polled_history_def polled_server_def)
  obtain m where "nodeTargetsNotModified 10000000000 polled_tag (token_now ''node-a'' (polled_history 2)) 9 ''node-a'' (cs_etags (polled_history 2)) = (Some (polled_tag, 10), m)"
    unfolding t(1) using polled_not_modified by blast
  then have "map_option fst (handleNodeTargets (\<lambda>_. None) any_selector (\<lambda>_ _. Some ''body'') (\<lambda>_. (1, 2)) polled_tag 9 ''node-a'' (polled_history 2)) =
      Some (writeNotModified polled_tag (cacheControlFor 10 False))" by (simp add: handleNodeTargets_def t(2,3))
  moreover have "cacheControlFor 10 False = ''max-age=10''" by code_simp
  moreover have "server_start (polled_history 0)" by (simp add: server_start_def polled_history_def polled_server_def)
  ultimately show ?thesis
    using handleNodeTargets_memo_invisible [OF polled_run _ order_refl, of "''node-a''" polled_tag 9] polled_plain by (simp add: t(4))
qed

theorem rememberNodeTargets_room_witness:
  "length (rememberNodeTargets 10000000000 (cs_store (polled_history 2)) ''node-b'' ''t'' (token_now ''node-b'' (polled_history 1)) 9 (cs_etags (polled_history 2))) \<le> 8192"
proof -
  have "length (cs_etags (polled_history 2)) \<le> maxNodeTargetETags"
      "get (cs_etags (polled_history 2)) ''node-a'' = Some \<lparr>ne_etag = polled_tag, ne_builtAt = 5, ne_valid = token_now ''node-a'' (polled_server quiet_store)\<rparr>"
    by (simp_all add: polled_history_def polled_etags_def maxNodeTargetETags_def)
  from rememberNodeTargets_room [OF polled_run _ _ order_refl this refl, of 1] show ?thesis by (simp add: maxNodeTargetETags_def)
qed

theorem memo_verdict_window_witness:
  "\<exists>e. memo_verdict 10000000000 polled_tag (targetsValidity None ''node-a'' (cs_server (polled_server empty_store))) 2000000000 e = Some (8, False) \<and>
     2000000000 + 8 * second \<le> ne_builtAt e + 10000000000"
proof -
  let ?cur = "targetsValidity None ''node-a'' (cs_server (polled_server empty_store))"
  let ?e = "\<lparr>ne_etag = polled_tag, ne_builtAt = 0, ne_valid = ?cur\<rparr>"
  have "memo_verdict 10000000000 polled_tag ?cur 2000000000 ?e = Some (8, False)"
    using polled_tag(1) by (simp add: memo_verdict_def targetsValidity_def second_def signed_divide_int_def)
  with memo_verdict_window [OF this] show ?thesis by (intro exI [of _ ?e]) (simp add: second_def)
qed

end
