(* ===== verification/MonitoredBuild.thy ===== *)
theory MonitoredBuild
  imports MonitoredServices
begin

section \<open>The build of the Service snapshot among deliveries (internal/server/nodetargets.go)\<close>

text \<open>
  \<^verbatim>\<open>monitoredServicesAt\<close> builds under \<^verbatim>\<open>monMu\<close>, which keeps other builders out and nothing else: the list of
  monitors is read under the lock of the monitor index, and the Services of each run of monitors under that
  of the Service index, so that deliveries to both land between any two of these reads. Here every read is
  a step of its own, between which any delivery and any other request may happen.

  A delivery mints its token and changes the index inside one write-locked section, and a read of the index waits for
  that section to end; the delivery counts from the moment its token can be read.
\<close>

subsection \<open>State and steps\<close>

text \<open>A build in progress: the local variables of \<^verbatim>\<open>buildMonitoredServices\<close> and the samples of its caller.\<close>
record 'sel building =
  bl_todo :: "'sel stored list"
  bl_cache :: "(uid, monitorEndpoint_ref list) gomap"
  bl_run :: run_snapshot
  bl_mg :: u64
  bl_sg :: u64

text \<open>The memos, and the build whose caller holds \<^verbatim>\<open>monMu\<close>.\<close>
record 'sel racing =
  rc_memos :: "'sel monitor_memos"
  rc_build :: "'sel building option"

text \<open>The caller takes \<^verbatim>\<open>monMu\<close> and, when the stamp is behind its samples, reads the list of monitors.\<close>
definition build_enter :: "u64 \<Rightarrow> u64 \<Rightarrow> 'sel racing \<Rightarrow> 'sel racing" where
  "build_enter mg sg r =
     (let s = rc_memos r in
      if \<not> monValid s \<or> monGen s < mg \<or> svcGen s < sg
      then \<lparr>rc_memos = s\<lparr>monBuilds := monBuilds s + 1\<rparr>,
            rc_build = Some \<lparr>bl_todo = MIndex_All (held_index s), bl_cache = [],
              bl_run = \<lparr>runKey = [], runSvcs = [], runValid = False\<rparr>, bl_mg = mg, bl_sg = sg\<rparr>\<rparr>
      else r)"

text \<open>One turn of the loop over the monitors; it reads the Services when a new run starts.\<close>
definition build_next :: "('sel \<Rightarrow> strmap \<Rightarrow> bool) \<Rightarrow> 'sel building \<Rightarrow> 'sel racing \<Rightarrow> 'sel racing" where
  "build_next matches b r =
     (case bl_todo b of
        [] \<Rightarrow> r
      | m # ms \<Rightarrow>
          (case build_monitor matches m (bl_cache b, bl_run b, mm_services (rc_memos r)) of
             (cache, run, ix) \<Rightarrow>
               \<lparr>rc_memos = (rc_memos r)\<lparr>mm_services := ix\<rparr>,
                rc_build = Some (b\<lparr>bl_todo := ms, bl_cache := cache, bl_run := run\<rparr>)\<rparr>))"

text \<open>The build is stored and stamped, and \<^verbatim>\<open>monMu\<close> is free again.\<close>
definition build_store :: "'sel building \<Rightarrow> 'sel racing \<Rightarrow> 'sel racing" where
  "build_store b r =
     (let s = rc_memos r in
      \<lparr>rc_memos = s\<lparr>monCache := bl_cache b, monGen := max (monGen s) (bl_mg b), svcGen := max (svcGen s) (bl_sg b), monValid := True\<rparr>,
       rc_build = None\<rparr>)"

inductive race_step :: "('raw, 'sel) apimachinery \<Rightarrow> regex_engine \<Rightarrow> ('sel \<Rightarrow> strmap \<Rightarrow> bool) \<Rightarrow> 'sel racing \<Rightarrow> 'sel racing \<Rightarrow> bool"
  for api rx matches where
  deliver_monitor: "mi_step api rx (held_index (rc_memos r)) mons \<Longrightarrow>
    race_step api rx matches r (r\<lparr>rc_memos := (rc_memos r)\<lparr>mm_monitors := Some mons\<rparr>\<rparr>)"
| deliver_service: "ix_step (mm_services (rc_memos r)) ix \<Longrightarrow>
    race_step api rx matches r (r\<lparr>rc_memos := (rc_memos r)\<lparr>mm_services := ix\<rparr>\<rparr>)"
| enter: "rc_build r = None \<Longrightarrow> mg \<le> MIndex_Generation (held_index (rc_memos r)) \<Longrightarrow> sg \<le> Generation (mm_services (rc_memos r)) \<Longrightarrow>
    race_step api rx matches r (build_enter mg sg r)"
| turn: "rc_build r = Some b \<Longrightarrow> bl_todo b \<noteq> [] \<Longrightarrow> race_step api rx matches r (build_next matches b r)"
| store: "rc_build r = Some b \<Longrightarrow> bl_todo b = [] \<Longrightarrow> race_step api rx matches r (build_store b r)"
| pod_monitors: "g \<le> MIndex_Generation (held_index (rc_memos r)) \<Longrightarrow>
    race_step api rx matches r (r\<lparr>rc_memos := snd (allPodMonitorsAt g (rc_memos r))\<rparr>)"

inductive_cases race_stepE: "race_step api rx matches r r'"

abbreviation mons_of :: "'sel racing \<Rightarrow> 'sel MIndex" where "mons_of r \<equiv> held_index (rc_memos r)"
abbreviation svcs_of :: "'sel racing \<Rightarrow> Index" where "svcs_of r \<equiv> mm_services (rc_memos r)"

subsection \<open>The tokens\<close>

lemma build_monitor_index:
  assumes "build_monitor matches m (cache, run, ix) = (cache', run', ix')"
  shows "byNamespace ix' = byNamespace ix" "gen ix' = gen ix"
  using build_monitor_frame [of matches "[m]" cache run ix cache' run' ix'] assms by simp_all

lemma build_next_frame:
  "mm_monitors (rc_memos (build_next matches b r)) = mm_monitors (rc_memos r)"
  "byNamespace (svcs_of (build_next matches b r)) = byNamespace (svcs_of r)"
  "gen (svcs_of (build_next matches b r)) = gen (svcs_of r)"
  "monGen (rc_memos (build_next matches b r)) = monGen (rc_memos r)" "svcGen (rc_memos (build_next matches b r)) = svcGen (rc_memos r)"
  "monValid (rc_memos (build_next matches b r)) = monValid (rc_memos r)" "monCache (rc_memos (build_next matches b r)) = monCache (rc_memos r)"
  "pmGen (rc_memos (build_next matches b r)) = pmGen (rc_memos r)" "pm_memo (rc_memos (build_next matches b r)) = pm_memo (rc_memos r)"
proof -
  consider "bl_todo b = []" | m ms cache run ix where "bl_todo b = m # ms" "build_monitor matches m (bl_cache b, bl_run b, svcs_of r) = (cache, run, ix)"
    by (metis list.exhaust prod_cases3)
  then show "mm_monitors (rc_memos (build_next matches b r)) = mm_monitors (rc_memos r)"
    "byNamespace (svcs_of (build_next matches b r)) = byNamespace (svcs_of r)"
    "gen (svcs_of (build_next matches b r)) = gen (svcs_of r)"
    "monGen (rc_memos (build_next matches b r)) = monGen (rc_memos r)" "svcGen (rc_memos (build_next matches b r)) = svcGen (rc_memos r)"
    "monValid (rc_memos (build_next matches b r)) = monValid (rc_memos r)" "monCache (rc_memos (build_next matches b r)) = monCache (rc_memos r)"
    "pmGen (rc_memos (build_next matches b r)) = pmGen (rc_memos r)" "pm_memo (rc_memos (build_next matches b r)) = pm_memo (rc_memos r)"
    by (cases; simp add: build_next_def pm_memo_def build_monitor_index)+
qed

lemma build_enter_frame:
  "mm_monitors (rc_memos (build_enter mg sg r)) = mm_monitors (rc_memos r)" "svcs_of (build_enter mg sg r) = svcs_of r"
  "monGen (rc_memos (build_enter mg sg r)) = monGen (rc_memos r)" "svcGen (rc_memos (build_enter mg sg r)) = svcGen (rc_memos r)"
  "monValid (rc_memos (build_enter mg sg r)) = monValid (rc_memos r)" "monCache (rc_memos (build_enter mg sg r)) = monCache (rc_memos r)"
  "pmGen (rc_memos (build_enter mg sg r)) = pmGen (rc_memos r)" "pm_memo (rc_memos (build_enter mg sg r)) = pm_memo (rc_memos r)"
  by (simp_all add: build_enter_def Let_def pm_memo_def)

lemma build_store_frame:
  "mm_monitors (rc_memos (build_store b r)) = mm_monitors (rc_memos r)" "svcs_of (build_store b r) = svcs_of r"
  "pmGen (rc_memos (build_store b r)) = pmGen (rc_memos r)" "pm_memo (rc_memos (build_store b r)) = pm_memo (rc_memos r)"
  by (simp_all add: build_store_def Let_def pm_memo_def)

lemmas race_frames = build_next_frame build_enter_frame build_store_frame memo_use memo_stamps

lemma race_services:
  assumes "race_step api rx matches r r'"
  shows "(byNamespace (svcs_of r') = byNamespace (svcs_of r) \<and> gen (svcs_of r') = gen (svcs_of r)) \<or> gen (svcs_of r) < gen (svcs_of r')"
  using assms by (cases rule: race_step.cases) (simp_all add: race_frames ix_step_token)

lemma race_monitors:
  assumes "race_step api rx matches r r'"
  shows "(mi_view (mons_of r') = mi_view (mons_of r) \<and> mi_gen (mons_of r') = mi_gen (mons_of r)) \<or> mi_gen (mons_of r) < mi_gen (mons_of r')"
  using assms by (cases rule: race_step.cases) (simp_all add: held_index_def race_frames mi_step_token)

interpretation svc_race: change_token "\<lambda>_. True" "race_step api rx matches" "\<lambda>r. byNamespace (svcs_of r)"
  "\<lambda>r. Generation (svcs_of r)" "\<lambda>r. Generation (svcs_of r)"
  by unfold_locales (use race_services in \<open>force simp: Generation_def\<close>)+

interpretation mon_race: change_token "\<lambda>_. True" "race_step api rx matches" "\<lambda>r. mi_view (mons_of r)"
  "\<lambda>r. MIndex_Generation (mons_of r)" "\<lambda>r. MIndex_Generation (mons_of r)"
  by unfold_locales (use race_monitors in \<open>force simp: MIndex_Generation_def\<close>)+


subsection \<open>What a build has read\<close>

text \<open>The endpoints monitor \<open>m\<close> gives a Service, on one state of the Service index.\<close>
definition monitor_part :: "('sel \<Rightarrow> strmap \<Rightarrow> bool) \<Rightarrow> 'sel stored \<Rightarrow> Index \<Rightarrow> uid \<Rightarrow> monitorEndpoint_ref list" where
  "monitor_part matches m ix uid = selected_refs matches [m] ix uid"

text \<open>The endpoints the monitors give a Service, each on the Services of a moment of its own.\<close>
definition read_at :: "('sel \<Rightarrow> strmap \<Rightarrow> bool) \<Rightarrow> (nat \<Rightarrow> 'sel racing) \<Rightarrow> 'sel stored list \<Rightarrow> nat list \<Rightarrow> uid \<Rightarrow> monitorEndpoint_ref list" where
  "read_at matches tr ms ks uid = concat (map2 (\<lambda>m k. monitor_part matches m (svcs_of (tr k)) uid) ms ks)"

text \<open>A map that the first monitors of the list of moment \<open>k\<close> have written, reading at the moments \<open>ks\<close>.\<close>
definition written :: "('sel \<Rightarrow> strmap \<Rightarrow> bool) \<Rightarrow> (nat \<Rightarrow> 'sel racing) \<Rightarrow> nat \<Rightarrow> nat \<Rightarrow> nat list \<Rightarrow> 'sel stored list \<Rightarrow>
    (uid, monitorEndpoint_ref list) gomap \<Rightarrow> bool" where
  "written matches tr i k ks ms cache \<longleftrightarrow> sorted (k # ks @ [i]) \<and> length ks = length ms \<and>
     (\<forall>uid. list_at cache uid = read_at matches tr ms ks uid)"

definition stamped :: "'sel racing \<Rightarrow> u64 \<Rightarrow> u64 \<Rightarrow> bool" where
  "stamped r mg sg \<longleftrightarrow> mg \<le> MIndex_Generation (mons_of r) \<and> sg \<le> Generation (svcs_of r)"

text \<open>The snapshot of the run at hand was read at the last moment, for namespaces with its key.\<close>
definition run_read :: "(nat \<Rightarrow> 'sel racing) \<Rightarrow> nat list \<Rightarrow> run_snapshot \<Rightarrow> bool" where
  "run_read tr ks run \<longleftrightarrow> (runValid run \<longrightarrow> ks \<noteq> [] \<and> run_ok (svcs_of (tr (last ks))) run)"

definition cache_ok :: "('sel \<Rightarrow> strmap \<Rightarrow> bool) \<Rightarrow> (nat \<Rightarrow> 'sel racing) \<Rightarrow> nat \<Rightarrow> bool" where
  "cache_ok matches tr i \<longleftrightarrow> (let s = rc_memos (tr i) in
     stamped (tr i) (monGen s) (svcGen s) \<and>
     (monValid s \<longrightarrow> (\<exists>k ks. written matches tr i k ks (MIndex_All (mons_of (tr k))) (monCache s) \<and> stamped (tr k) (monGen s) (svcGen s))))"

definition build_ok :: "('sel \<Rightarrow> strmap \<Rightarrow> bool) \<Rightarrow> (nat \<Rightarrow> 'sel racing) \<Rightarrow> nat \<Rightarrow> bool" where
  "build_ok matches tr i \<longleftrightarrow> (let s = rc_memos (tr i) in
     (case rc_build (tr i) of
        None \<Rightarrow> True
      | Some b \<Rightarrow> \<exists>k ks ms. MIndex_All (mons_of (tr k)) = ms @ bl_todo b \<and> written matches tr i k ks ms (bl_cache b) \<and>
          stamped (tr k) (monGen s) (svcGen s) \<and> stamped (tr k) (bl_mg b) (bl_sg b) \<and> run_read tr ks (bl_run b)))"

definition plain_history :: "(nat \<Rightarrow> 'sel racing) \<Rightarrow> nat \<Rightarrow> bool" where
  "plain_history tr n \<longleftrightarrow> (\<forall>k \<le> n. \<forall>m \<in> set (MIndex_All (mons_of (tr k))). plain_namespaces (monitor_namespaces (snd m)))"

lemma stamped_mono:
  assumes "race_step api rx matches r r'" "stamped r mg sg"
  shows "stamped r' mg sg"
  using assms(2) svc_race.token_mono [OF TrueI assms(1)] mon_race.token_mono [OF TrueI assms(1)] by (auto simp: stamped_def)

lemma run_of_steps: "run_of step tr n \<Longrightarrow> i \<le> j \<Longrightarrow> j \<le> n \<Longrightarrow> step\<^sup>*\<^sup>* (tr i) (tr j)"
proof (induction j)
  case (Suc j)
  then show ?case by (cases "i = Suc j") (auto simp: run_of_def intro: rtranclp.rtrancl_into_rtrancl)
qed simp

lemma stamped_history:
  assumes "run_of (race_step api rx matches) tr n" "stamped (tr k) mg sg" "k \<le> i" "i \<le> n"
  shows "stamped (tr i) mg sg"
proof -
  note st = run_of_steps [OF assms(1,3,4)]
  show ?thesis using assms(2) svc_race.token_mono_steps [OF st TrueI] mon_race.token_mono_steps [OF st TrueI] by (auto simp: stamped_def)
qed

lemma written_later: "written matches tr i k ks ms cache \<Longrightarrow> i \<le> i' \<Longrightarrow> written matches tr i' k ks ms cache"
  by (auto simp: written_def sorted_append)

lemma written_next:
  assumes "written matches tr i k ks ms cache" "k' \<le> i" "\<forall>x \<in> set (k # ks). x \<le> k'"
    and "\<And>uid. list_at cache' uid = list_at cache uid @ monitor_part matches m (svcs_of (tr k')) uid"
  shows "written matches tr i k (ks @ [k']) (ms @ [m]) cache'"
proof -
  have "read_at matches tr (ms @ [m]) (ks @ [k']) uid = read_at matches tr ms ks uid @ monitor_part matches m (svcs_of (tr k')) uid" for uid
    using assms(1) by (simp add: read_at_def written_def)
  then show ?thesis using assms by (auto simp: written_def sorted_append)
qed

lemma build_monitor_part:
  assumes "run_ok ix run" "plain_namespaces (monitor_namespaces (snd m))" "build_monitor matches m (cache, run, ix) = (cache', run', ix')"
  shows "list_at cache' uid = list_at cache uid @ monitor_part matches m ix uid"
  unfolding monitor_part_def by (rule build_monitors [of "[m]", OF _ assms(1)]) (use assms(2,3) in simp_all)

text \<open>A monitor that reuses the snapshot of the run reads at the moment the run was read.\<close>
lemma build_monitor_reused:
  assumes "runValid run" "appendNamespaceSetKey (monitor_namespaces (snd m)) = runKey run"
  shows "build_monitor matches m (cache, run, ix) = (fst (build_monitor matches m (cache, run, jx)), run, ix)"
  using assms by (simp add: build_monitor_def run_section_def)

lemma build_monitor_reads:
  assumes "\<not> runValid run \<or> appendNamespaceSetKey (monitor_namespaces (snd m)) \<noteq> runKey run" "plain_namespaces (monitor_namespaces (snd m))"
    and "build_monitor matches m (cache, run, ix) = (cache', run', ix')"
  shows "list_at cache' uid = list_at cache uid @ monitor_part matches m ix uid" "run_ok ix run'"
proof -
  have "build_monitor matches m (cache, run, ix) = build_monitor matches m (cache, run\<lparr>runValid := False\<rparr>, ix)"
    using assms(1) by (simp add: build_monitor_def run_section_def)
  then have b: "build_monitor matches m (cache, run\<lparr>runValid := False\<rparr>, ix) = (cache', run', ix')" using assms(3) by simp
  have ok: "run_ok ix (run\<lparr>runValid := False\<rparr>)" by (simp add: run_ok_def)
  show "list_at cache' uid = list_at cache uid @ monitor_part matches m ix uid" by (rule build_monitor_part [OF ok assms(2) b])
  obtain run1 ix1 where r: "run_section (monitor_namespaces (snd m)) (run\<lparr>runValid := False\<rparr>, ix) = (run1, ix1)" by fastforce
  have "run_ok ix1 run1" "byNamespace ix1 = byNamespace ix" using run_section_exact [OF ok assms(2) r] run_section_frame [OF r] by simp_all
  moreover have "run' = run1" using b by (simp add: build_monitor_def r)
  ultimately show "run_ok ix run'" using All_fst [of ix1 ix] by (auto simp: run_ok_def)
qed

lemma turn_ok:
  assumes ok: "build_ok matches tr i" and b: "rc_build (tr i) = Some b" "bl_todo b = m # ms"
    and plain: "plain_history tr n" "i < n" and next': "tr (Suc i) = build_next matches b (tr i)"
  shows "build_ok matches tr (Suc i)"
proof -
  from ok b obtain k ks ds where w: "MIndex_All (mons_of (tr k)) = ds @ m # ms" "written matches tr i k ks ds (bl_cache b)"
    "stamped (tr k) (monGen (rc_memos (tr i))) (svcGen (rc_memos (tr i)))" "stamped (tr k) (bl_mg b) (bl_sg b)" "run_read tr ks (bl_run b)"
    by (auto simp: build_ok_def Let_def)
  obtain cache run ix where s: "build_monitor matches m (bl_cache b, bl_run b, svcs_of (tr i)) = (cache, run, ix)" by (metis prod_cases3)
  have le: "\<forall>x \<in> set (k # ks). x \<le> i" using w(2) by (auto simp: written_def sorted_append)
  have pm: "plain_namespaces (monitor_namespaces (snd m))" 
  proof -
    have "m \<in> set (MIndex_All (mons_of (tr k)))" "k \<le> n" using w(1) le plain(2) by simp_all
    then show ?thesis using plain(1) by (simp add: plain_history_def)
  qed
  have "\<exists>k'. written matches tr i k (ks @ [k']) (ds @ [m]) cache \<and> run_read tr (ks @ [k']) run"
  proof (cases "\<not> runValid (bl_run b) \<or> appendNamespaceSetKey (monitor_namespaces (snd m)) \<noteq> runKey (bl_run b)")
    case True
    from build_monitor_reads [OF True pm s] show ?thesis
      by (intro exI [of _ i] conjI written_next [OF w(2) _ le]) (auto simp: run_read_def)
  next
    case False
    let ?k = "last ks"
    have r: "ks \<noteq> []" "run_ok (svcs_of (tr ?k)) (bl_run b)" using w(5) False by (auto simp: run_read_def)
    obtain cache1 run1 ix1 where s1: "build_monitor matches m (bl_cache b, bl_run b, svcs_of (tr ?k)) = (cache1, run1, ix1)" by (metis prod_cases3)
    have c: "cache = cache1" "run = bl_run b"
      using build_monitor_reused [of "bl_run b" m matches "bl_cache b" "svcs_of (tr i)" "svcs_of (tr ?k)"] s s1 False by simp_all
    have "\<forall>x \<in> set (k # ks). x \<le> ?k" using w(2) r(1) by (cases ks rule: rev_cases) (auto simp: written_def sorted_append)
    moreover have "?k \<le> i" using le r(1) by simp
    ultimately show ?thesis using build_monitor_part [OF r(2) pm s1] r c
      by (intro exI [of _ ?k] conjI written_next [OF w(2)]) (auto simp: run_read_def)
  qed
  then obtain k' where k': "written matches tr (Suc i) k (ks @ [k']) (ds @ [m]) cache" "run_read tr (ks @ [k']) run"
    using written_later [of matches tr i] by (meson le_SucI order_refl)
  have e: "rc_build (tr (Suc i)) = Some (b\<lparr>bl_todo := ms, bl_cache := cache, bl_run := run\<rparr>)" by (simp add: next' build_next_def b(2) s)
  show ?thesis unfolding build_ok_def Let_def e
    by (simp, intro exI [of _ k] exI [of _ "ks @ [k']"] exI [of _ "ds @ [m]"])
      (use w k' in \<open>simp add: next' build_next_frame\<close>)
qed

lemma kept_cache:
  assumes "cache_ok matches tr i" "race_step api rx matches (tr i) (tr (Suc i))"
    and "monGen (rc_memos (tr (Suc i))) = monGen (rc_memos (tr i))" "svcGen (rc_memos (tr (Suc i))) = svcGen (rc_memos (tr i))"
    "monValid (rc_memos (tr (Suc i))) = monValid (rc_memos (tr i))" "monCache (rc_memos (tr (Suc i))) = monCache (rc_memos (tr i))"
  shows "cache_ok matches tr (Suc i)"
  using assms(1) stamped_mono [OF assms(2)] written_later [of matches tr i _ _ _ _ "Suc i"] unfolding cache_ok_def Let_def assms(3-6) by (meson le_SucI order_refl)

lemma kept_build:
  assumes "build_ok matches tr i" "rc_build (tr (Suc i)) = rc_build (tr i)"
    "monGen (rc_memos (tr (Suc i))) = monGen (rc_memos (tr i))" "svcGen (rc_memos (tr (Suc i))) = svcGen (rc_memos (tr i))"
  shows "build_ok matches tr (Suc i)"
proof (cases "rc_build (tr i)")
  case (Some b)
  from assms(1) Some obtain k ks ms where "MIndex_All (mons_of (tr k)) = ms @ bl_todo b" "written matches tr i k ks ms (bl_cache b)"
    "stamped (tr k) (monGen (rc_memos (tr i))) (svcGen (rc_memos (tr i)))" "stamped (tr k) (bl_mg b) (bl_sg b)" "run_read tr ks (bl_run b)"
    by (auto simp: build_ok_def Let_def)
  then show ?thesis using written_later [of matches tr i k ks ms "bl_cache b" "Suc i"] unfolding build_ok_def Let_def assms(2-4) Some by auto
qed (use assms(2) in \<open>simp add: build_ok_def\<close>)

lemma enter_ok:
  assumes ok: "cache_ok matches tr i" "build_ok matches tr i" and st: "race_step api rx matches (tr i) (tr (Suc i))"
    and s: "stamped (tr i) mg sg" "tr (Suc i) = build_enter mg sg (tr i)"
  shows "cache_ok matches tr (Suc i) \<and> build_ok matches tr (Suc i)"
proof
  show "cache_ok matches tr (Suc i)" by (rule kept_cache [OF ok(1) st]) (simp_all add: s(2) build_enter_frame)
  let ?s = "rc_memos (tr i)"
  show "build_ok matches tr (Suc i)"
  proof (cases "\<not> monValid ?s \<or> monGen ?s < mg \<or> svcGen ?s < sg")
    case True
    let ?b = "\<lparr>bl_todo = MIndex_All (held_index ?s), bl_cache = [], bl_run = \<lparr>runKey = [], runSvcs = [], runValid = False\<rparr>, bl_mg = mg, bl_sg = sg\<rparr>"
    have e: "rc_build (tr (Suc i)) = Some ?b" using True by (simp add: s(2) build_enter_def Let_def)
    have "written matches tr (Suc i) i [] [] []" by (simp add: written_def read_at_def list_at_def)
    moreover have "stamped (tr i) (monGen ?s) (svcGen ?s)" using ok(1) by (simp add: cache_ok_def Let_def)
    ultimately show ?thesis unfolding build_ok_def Let_def e using s(1)
      by (simp, intro exI [of _ i] exI [of _ "[]"]) (simp add: s(2) build_enter_frame run_read_def)
  next
    case False
    show ?thesis by (rule kept_build [OF ok(2)]) (use False in \<open>simp_all add: s(2) build_enter_def Let_def\<close>)
  qed
qed

lemma store_ok:
  assumes ok: "cache_ok matches tr i" "build_ok matches tr i" and h: "run_of (race_step api rx matches) tr n" "i < n"
    and b: "rc_build (tr i) = Some b" "bl_todo b = []" "tr (Suc i) = build_store b (tr i)"
  shows "cache_ok matches tr (Suc i) \<and> build_ok matches tr (Suc i)"
proof
  from ok(2) b obtain k ks where w: "written matches tr i k ks (MIndex_All (mons_of (tr k))) (bl_cache b)"
    "stamped (tr k) (monGen (rc_memos (tr i))) (svcGen (rc_memos (tr i)))" "stamped (tr k) (bl_mg b) (bl_sg b)"
    by (auto simp: build_ok_def Let_def)
  let ?mg = "max (monGen (rc_memos (tr i))) (bl_mg b)" and ?sg = "max (svcGen (rc_memos (tr i))) (bl_sg b)"
  have k: "stamped (tr k) ?mg ?sg" using w(2,3) by (simp add: stamped_def)
  have "k \<le> i" using w(1) by (simp add: written_def)
  show "build_ok matches tr (Suc i)" by (simp add: build_ok_def b(3) build_store_def Let_def)
  have e: "monGen (rc_memos (tr (Suc i))) = ?mg" "svcGen (rc_memos (tr (Suc i))) = ?sg" "monCache (rc_memos (tr (Suc i))) = bl_cache b"
    by (simp_all add: b(3) build_store_def Let_def)
  have "stamped (tr (Suc i)) ?mg ?sg" by (rule stamped_history [OF h(1) k]) (use \<open>k \<le> i\<close> h(2) in simp_all)
  then show "cache_ok matches tr (Suc i)"
    using k written_later [OF w(1), of "Suc i"] unfolding cache_ok_def Let_def e by (auto intro!: exI [of _ k] exI [of _ ks])
qed

text \<open>The state of a new server, with nobody building.\<close>
definition new_racing :: "'sel racing" where
  "new_racing = \<lparr>rc_memos = new_memos, rc_build = None\<rparr>"

definition racing_history :: "('raw, 'sel) apimachinery \<Rightarrow> regex_engine \<Rightarrow> ('sel \<Rightarrow> strmap \<Rightarrow> bool) \<Rightarrow> (nat \<Rightarrow> 'sel racing) \<Rightarrow> nat \<Rightarrow> bool" where
  "racing_history api rx matches tr n \<longleftrightarrow> tr 0 = new_racing \<and> run_of (race_step api rx matches) tr n"

lemma race_ok:
  assumes "racing_history api rx matches tr n" "plain_history tr n"
  shows "i \<le> n \<Longrightarrow> cache_ok matches tr i \<and> build_ok matches tr i"
proof (induction i)
  case 0
  then show ?case using assms(1)
    by (simp add: racing_history_def new_racing_def new_memos_def cache_ok_def build_ok_def stamped_def Let_def)
next
  case (Suc i)
  have ok: "cache_ok matches tr i" "build_ok matches tr i" and i: "i < n" using Suc by simp_all
  have h: "run_of (race_step api rx matches) tr n" and st: "race_step api rx matches (tr i) (tr (Suc i))"
    using assms(1) i by (simp_all add: racing_history_def run_of_def)
  note kept = conjI [OF kept_cache [OF ok(1) st] kept_build [OF ok(2)]]
  from st show ?case
  proof (cases rule: race_step.cases)
    case (deliver_monitor mons)
    then show ?thesis by (intro kept) simp_all
  next
    case (deliver_service ix)
    then show ?thesis by (intro kept) simp_all
  next
    case (enter mg sg)
    then show ?thesis using enter_ok [OF ok st] by (simp add: stamped_def)
  next
    case (turn b)
    then obtain m ms where t: "bl_todo b = m # ms" by (cases "bl_todo b") simp_all
    have "cache_ok matches tr (Suc i)" by (rule kept_cache [OF ok(1) st]) (simp_all add: turn(1) build_next_frame)
    then show ?thesis using turn_ok [OF ok(2) turn(2) t assms(2) i turn(1)] by simp
  next
    case (store b)
    then show ?thesis using store_ok [OF ok h i] by simp
  next
    case (pod_monitors g)
    then show ?thesis by (intro kept) (simp_all add: allPodMonitorsAt_def Let_def)
  qed
qed

subsection \<open>The list of PodMonitors\<close>

definition pod_stamp_ok :: "'sel racing \<Rightarrow> bool" where
  "pod_stamp_ok r \<longleftrightarrow> pmGen (rc_memos r) \<le> MIndex_Generation (mons_of r)"

lemma race_step_pods:
  assumes "race_step api rx matches r r'"
  shows "(pm_memo (rc_memos r') = pm_memo (rc_memos r) \<and> pmGen (rc_memos r') = pmGen (rc_memos r)) \<or>
    (\<exists>g. g \<le> MIndex_Generation (mons_of r) \<and> r' = r\<lparr>rc_memos := snd (allPodMonitorsAt g (rc_memos r))\<rparr>)"
proof -
  have "pm_memo (s\<lparr>mm_monitors := x\<rparr>) = pm_memo s" "pm_memo (s\<lparr>mm_services := y\<rparr>) = pm_memo s" for s :: "'b monitor_memos" and x y
    by (simp_all add: pm_memo_def)
  with assms show ?thesis by (cases rule: race_step.cases) (auto simp: race_frames)
qed

lemma pod_stamp_step:
  assumes "pod_stamp_ok r" "race_step api rx matches r r'"
  shows "pod_stamp_ok r'"
proof -
  have "pmGen (rc_memos r') \<le> MIndex_Generation (mons_of r)"
    using race_step_pods [OF assms(2)]
  proof
    assume "\<exists>g. g \<le> MIndex_Generation (mons_of r) \<and> r' = r\<lparr>rc_memos := snd (allPodMonitorsAt g (rc_memos r))\<rparr>"
    then obtain g where "g \<le> MIndex_Generation (mons_of r)" "r' = r\<lparr>rc_memos := snd (allPodMonitorsAt g (rc_memos r))\<rparr>" by blast
    then show ?thesis using assms(1) memo_stamps(8) [of g "rc_memos r"] by (auto simp: pod_stamp_ok_def)
  qed (use assms(1) in \<open>simp add: pod_stamp_ok_def\<close>)
  then show ?thesis using mon_race.token_mono [OF TrueI assms(2)] by (auto simp: pod_stamp_ok_def)
qed

interpretation pod_race: ordered_memo pod_stamp_ok "race_step api rx matches" "\<lambda>r. MIndex_Generation (mons_of r)" "(\<le>)"
  "\<lambda>r. pm_memo (rc_memos r)" "\<lambda>r. pm_build (rc_memos r)"
proof (unfold_locales, goal_cases)
  case (4 r r')
  then show ?case using race_monitors [of api rx matches r r']
    by (auto simp: MIndex_Generation_def pm_build_def PodMonitors_def mi_view_def)
next
  case (5 r r')
  from race_step_pods [OF 5(2)] show ?case
  proof
    assume "\<exists>g. g \<le> MIndex_Generation (mons_of r) \<and> r' = r\<lparr>rc_memos := snd (allPodMonitorsAt g (rc_memos r))\<rparr>"
    then obtain g where g: "r' = r\<lparr>rc_memos := snd (allPodMonitorsAt g (rc_memos r))\<rparr>" by blast
    have "pmGen (rc_memos r') \<le> MIndex_Generation (mons_of r')" using pod_stamp_step [OF 5] by (simp add: pod_stamp_ok_def)
    then show ?thesis
      by (cases "pmValid (rc_memos r) \<and> pmGen (rc_memos r) \<ge> g")
        (auto simp: g allPodMonitorsAt_def pm_memo_def pm_build_def held_index_def Let_def)
  qed simp
next
  case (3 r r')
  then show ?case using mon_race.token_mono [OF TrueI] by blast
qed (auto intro: pod_stamp_step)

subsection \<open>Freshness\<close>

text \<open>A caller with these samples is given the memo: nobody builds, and the stamp is at or past the samples.\<close>
definition memo_answers :: "u64 \<Rightarrow> u64 \<Rightarrow> 'sel racing \<Rightarrow> bool" where
  "memo_answers mg sg r \<longleftrightarrow> rc_build r = None \<and> build_enter mg sg r = r"

lemma memo_answers_iff:
  "memo_answers mg sg r \<longleftrightarrow>
     rc_build r = None \<and> monValid (rc_memos r) \<and> mg \<le> monGen (rc_memos r) \<and> sg \<le> svcGen (rc_memos r)"
proof (cases "\<not> monValid (rc_memos r) \<or> monGen (rc_memos r) < mg \<or> svcGen (rc_memos r) < sg")
  case True
  then have "rc_build (build_enter mg sg r) \<noteq> None" by (simp add: build_enter_def Let_def)
  then have "\<not> memo_answers mg sg r" by (auto simp: memo_answers_def)
  then show ?thesis using True by (auto simp: not_le)
qed (auto simp: memo_answers_def build_enter_def Let_def not_less)

text \<open>A moment before \<open>j\<close> at which the token was already that of \<open>j\<close> shows what \<open>j\<close> shows.\<close>
lemma services_since:
  assumes "run_of (race_step api rx matches) tr n" "j \<le> n" "Generation (svcs_of (tr j)) \<le> Generation (svcs_of (tr k))" "k \<le> k'" "k' \<le> n"
  shows "byNamespace (svcs_of (tr (max j k'))) = byNamespace (svcs_of (tr k'))"
proof (cases "k' \<le> j")
  case True
  note st = run_of_steps [OF assms(1) True assms(2)]
  have "Generation (svcs_of (tr k)) \<le> Generation (svcs_of (tr k'))"
    using svc_race.token_mono_steps [OF run_of_steps [OF assms(1,4,5)] TrueI] .
  then have "Generation (svcs_of (tr j)) = Generation (svcs_of (tr k'))"
    using svc_race.token_mono_steps [OF st TrueI] assms(3) by simp
  from svc_race.same_token_same_view [OF st TrueI this] True show ?thesis by (simp add: max_def)
qed (simp add: max_def)

lemma monitors_since:
  assumes "run_of (race_step api rx matches) tr n" "j \<le> n" "MIndex_Generation (mons_of (tr j)) \<le> MIndex_Generation (mons_of (tr k))" "k \<le> n"
  shows "mi_view (mons_of (tr (max j k))) = mi_view (mons_of (tr k))"
proof (cases "k \<le> j")
  case True
  note st = run_of_steps [OF assms(1) True assms(2)]
  have "MIndex_Generation (mons_of (tr j)) = MIndex_Generation (mons_of (tr k))"
    using mon_race.token_mono_steps [OF st TrueI] assms(3) by simp
  from mon_race.same_token_same_view [OF st TrueI this] True show ?thesis by (simp add: max_def)
qed (simp add: max_def)

lemma part_cong: "byNamespace ix = byNamespace jx \<Longrightarrow> monitor_part matches m ix uid = monitor_part matches m jx uid"
  using All_fst [of ix jx] by (simp add: monitor_part_def selected_refs_def)

lemma read_at_cong:
  assumes "\<forall>k \<in> set ks. byNamespace (svcs_of (tr (f k))) = byNamespace (svcs_of (tr k))"
  shows "read_at matches tr ms (map f ks) uid = read_at matches tr ms ks uid"
  using assms
proof (induction ks arbitrary: ms)
  case (Cons k ks)
  show ?case
  proof (cases ms)
    case m: (Cons m ms')
    have "monitor_part matches m (svcs_of (tr (f k))) uid = monitor_part matches m (svcs_of (tr k)) uid"
      by (rule part_cong) (use Cons.prems in simp)
    then show ?thesis using Cons.IH [of ms'] Cons.prems by (simp add: read_at_def m)
  qed (simp add: read_at_def)
qed (simp add: read_at_def)

text \<open>What a memo with such a stamp was written from can be read at moments since the samples were taken.\<close>
lemma written_since:
  assumes h: "run_of (race_step api rx matches) tr n" and j: "j \<le> j'" "j' \<le> i" "i \<le> n"
    and w: "written matches tr i k ks (MIndex_All (mons_of (tr k))) cache"
    and st: "stamped (tr k) (MIndex_Generation (mons_of (tr j))) (Generation (svcs_of (tr j')))"
  shows "\<exists>k ks. j \<le> k \<and> (\<forall>x \<in> set ks. j' \<le> x) \<and> written matches tr i k ks (MIndex_All (mons_of (tr k))) cache"
proof -
  let ?k = "max j k" and ?ks = "map (max j') ks"
  have le: "k \<le> i" "\<forall>x \<in> set ks. k \<le> x \<and> x \<le> i" "sorted ks" using w by (auto simp: written_def sorted_append)
  have jn: "j \<le> n" "j' \<le> n" "k \<le> n" using j le(1) by simp_all
  have all: "MIndex_All (mons_of (tr ?k)) = MIndex_All (mons_of (tr k))"
    using monitors_since [OF h jn(1) _ jn(3)] st by (simp add: stamped_def MIndex_All_def mi_view_def)
  have "byNamespace (svcs_of (tr (max j' x))) = byNamespace (svcs_of (tr x))" if "x \<in> set ks" for x
    using services_since [OF h jn(2), of k x] st le(2) that j(3) by (auto simp: stamped_def)
  then have "read_at matches tr ms ?ks uid = read_at matches tr ms ks uid" for ms uid by (intro read_at_cong) blast
  moreover have "sorted ?ks" by (rule sorted_map_mono [OF le(3)]) (auto simp: mono_on_def)
  then have "sorted (?k # ?ks @ [i])" using le j by (auto simp: sorted_append)
  ultimately have "written matches tr i ?k ?ks (MIndex_All (mons_of (tr ?k))) cache" using w all by (simp add: written_def)
  then show ?thesis by (intro exI [of _ ?k] exI [of _ ?ks]) simp
qed

lemma pod_list_fresh:
  assumes h: "racing_history api rx matches tr n" and j: "j \<le> i" "i \<le> n" and mg: "mg = MIndex_Generation (mons_of (tr j))"
  shows "\<exists>k. j \<le> k \<and> k \<le> i \<and> fst (allPodMonitorsAt mg (rc_memos (tr i))) = map pod_monitor_ref (PodMonitors (mons_of (tr k)))"
proof (cases "pmValid (rc_memos (tr i)) \<and> pmGen (rc_memos (tr i)) \<ge> mg")
  case True
  have r: "run_of (race_step api rx matches) tr n" using h by (simp add: racing_history_def)
  have ok: "pod_stamp_ok (tr 0)" "pm_memo (rc_memos (tr 0)) = None"
    using h by (simp_all add: racing_history_def new_racing_def pod_stamp_ok_def new_memos_def pm_memo_def)
  have "pm_memo (rc_memos (tr i)) = Some (pmGen (rc_memos (tr i)), pmCache (rc_memos (tr i)))" using True by (simp add: pm_memo_def)
  from pod_race.memo_fresh [OF r ok j _ _ this, of mg] True show ?thesis by (simp add: allPodMonitorsAt_def mg pm_build_def)
qed (use j in \<open>auto simp: allPodMonitorsAt_def Let_def\<close>)

text \<open>
  C14. The snapshots of the monitors are never stale, and a snapshot of the Services is what its reads saw. In any
  history of deliveries and of requests, with every read of a build a step of its own, a request samples the token
  of the monitors at moment \<open>j\<close> and that of the Services at moment \<open>j'\<close>, and is given the memo at moment \<open>i\<close>. Then the
  memo has for each Service the endpoints of the monitors indexed at some moment \<open>k\<close> from \<open>j\<close> on, in their
  order, each matched against the Services of a moment between \<open>j'\<close> and \<open>i\<close>, these moments following the order
  of the monitors: nothing that was indexed before the samples is missing, however deliveries, overtaken requests and other
  builds interleave with it. The list of PodMonitors is that of a single moment from \<open>j\<close> on. The namespaces the
  monitors name hold no NUL byte.
\<close>
theorem monitoredServices_fresh:
  assumes "racing_history api rx matches tr n" "plain_history tr n" "j \<le> j'" "j' \<le> i" "i \<le> n"
    and "mg = MIndex_Generation (mons_of (tr j))" "sg = Generation (svcs_of (tr j'))"
  shows "(memo_answers mg sg (tr i) \<longrightarrow>
      (\<exists>k ks. j \<le> k \<and> sorted (k # ks @ [i]) \<and> (\<forall>x \<in> set ks. j' \<le> x) \<and> length ks = length (MIndex_All (mons_of (tr k))) \<and>
        (\<forall>uid. list_at (monCache (rc_memos (tr i))) uid =
           concat (map2 (\<lambda>m x. selected_refs matches [m] (svcs_of (tr x)) uid) (MIndex_All (mons_of (tr k))) ks)))) \<and>
    (\<exists>k. j \<le> k \<and> k \<le> i \<and> fst (allPodMonitorsAt mg (rc_memos (tr i))) = map pod_monitor_ref (PodMonitors (mons_of (tr k))))"
proof (intro conjI impI)
  have h: "run_of (race_step api rx matches) tr n" using assms(1) by (simp add: racing_history_def)
  assume "memo_answers mg sg (tr i)"
  then have a: "monValid (rc_memos (tr i))" "mg \<le> monGen (rc_memos (tr i))" "sg \<le> svcGen (rc_memos (tr i))"
    by (simp_all add: memo_answers_iff)
  then obtain k ks where w: "written matches tr i k ks (MIndex_All (mons_of (tr k))) (monCache (rc_memos (tr i)))"
    "stamped (tr k) (monGen (rc_memos (tr i))) (svcGen (rc_memos (tr i)))"
    using race_ok [OF assms(1,2,5)] by (auto simp: cache_ok_def Let_def)
  have "stamped (tr k) (MIndex_Generation (mons_of (tr j))) (Generation (svcs_of (tr j')))"
    using w(2) a(2,3) assms(6,7) by (auto simp: stamped_def)
  from written_since [OF h assms(3-5) w(1) this] obtain k ks where
    "j \<le> k" "\<forall>x \<in> set ks. j' \<le> x" "written matches tr i k ks (MIndex_All (mons_of (tr k))) (monCache (rc_memos (tr i)))" by blast
  then show "\<exists>k ks. j \<le> k \<and> sorted (k # ks @ [i]) \<and> (\<forall>x \<in> set ks. j' \<le> x) \<and> length ks = length (MIndex_All (mons_of (tr k))) \<and>
      (\<forall>uid. list_at (monCache (rc_memos (tr i))) uid =
         concat (map2 (\<lambda>m x. selected_refs matches [m] (svcs_of (tr x)) uid) (MIndex_All (mons_of (tr k))) ks))"
    unfolding written_def read_at_def monitor_part_def by blast
qed (rule pod_list_fresh [OF assms(1) order_trans [OF assms(3,4)] assms(5,6)])

subsection \<open>The call that nothing interleaves with\<close>

text \<open>The next step of the builder, if there is one.\<close>
definition build_turn :: "('sel \<Rightarrow> strmap \<Rightarrow> bool) \<Rightarrow> 'sel racing \<Rightarrow> 'sel racing" where
  "build_turn matches r =
     (case rc_build r of None \<Rightarrow> r | Some b \<Rightarrow> if bl_todo b = [] then build_store b r else build_next matches b r)"

lemma build_turns:
  "fold (build_monitor matches) ms (cache, run, mm_services s) = (cache', run', ix') \<Longrightarrow>
   (build_turn matches ^^ length ms) \<lparr>rc_memos = s, rc_build = Some \<lparr>bl_todo = ms, bl_cache = cache, bl_run = run, bl_mg = mg, bl_sg = sg\<rparr>\<rparr> =
     \<lparr>rc_memos = s\<lparr>mm_services := ix'\<rparr>, rc_build = Some \<lparr>bl_todo = [], bl_cache = cache', bl_run = run', bl_mg = mg, bl_sg = sg\<rparr>\<rparr>"
proof (induction ms arbitrary: cache run s)
  case (Cons m ms)
  obtain c r ix where b: "build_monitor matches m (cache, run, mm_services s) = (c, r, ix)" by (metis prod_cases3)
  have "build_turn matches \<lparr>rc_memos = s, rc_build = Some \<lparr>bl_todo = m # ms, bl_cache = cache, bl_run = run, bl_mg = mg, bl_sg = sg\<rparr>\<rparr> =
      \<lparr>rc_memos = s\<lparr>mm_services := ix\<rparr>, rc_build = Some \<lparr>bl_todo = ms, bl_cache = c, bl_run = r, bl_mg = mg, bl_sg = sg\<rparr>\<rparr>"
    by (simp add: build_turn_def build_next_def b)
  moreover have "fold (build_monitor matches) ms (c, r, mm_services (s\<lparr>mm_services := ix\<rparr>)) = (cache', run', ix')"
    using Cons.prems b by simp
  from Cons.IH [OF this] have "(build_turn matches ^^ length ms) \<lparr>rc_memos = s\<lparr>mm_services := ix\<rparr>, rc_build = Some \<lparr>bl_todo = ms, bl_cache = c, bl_run = r, bl_mg = mg, bl_sg = sg\<rparr>\<rparr> =
     \<lparr>rc_memos = s\<lparr>mm_services := ix'\<rparr>, rc_build = Some \<lparr>bl_todo = [], bl_cache = cache', bl_run = run', bl_mg = mg, bl_sg = sg\<rparr>\<rparr>" by simp
  ultimately show ?case by (simp add: funpow_swap1)
qed simp

text \<open>
  A builder that is left alone ends, after one turn for each monitor and the store, and the memos are then those of
  \<^const>\<open>monitoredServicesAt\<close>; its caller is answered.
\<close>
lemma undisturbed_build:
  assumes "rc_build r = None"
  shows "(build_turn matches ^^ Suc (length (MIndex_All (mons_of r)))) (build_enter mg sg r) =
    \<lparr>rc_memos = snd (monitoredServicesAt matches mg sg (rc_memos r)), rc_build = None\<rparr>"
proof (cases "\<not> monValid (rc_memos r) \<or> monGen (rc_memos r) < mg \<or> svcGen (rc_memos r) < sg")
  case True
  let ?s = "rc_memos r"
  obtain cache run ix where f: "fold (build_monitor matches) (MIndex_All (mons_of r))
      ([], \<lparr>runKey = [], runSvcs = [], runValid = False\<rparr>, mm_services (?s\<lparr>monBuilds := monBuilds ?s + 1\<rparr>)) = (cache, run, ix)" by (metis prod_cases3)
  from build_turns [OF f, of mg sg] True f show ?thesis
    by (simp add: build_enter_def Let_def monitoredServicesAt_def buildMonitoredServices_def build_turn_def build_store_def)
next
  case False
  have "(build_turn matches ^^ n) r = r" for n by (induction n) (simp_all add: build_turn_def assms)
  then show ?thesis using False assms by (simp add: build_enter_def monitoredServicesAt_def build_turn_def Let_def)
qed

lemma store_answers: "memo_answers (bl_mg b) (bl_sg b) (build_store b r)"
  by (simp add: memo_answers_iff build_store_def Let_def)


subsection \<open>A delivery in the middle of a build\<close>

text \<open>A monitor is indexed and a caller starts to build; a Service arrives before the Services are read.\<close>
definition any_labels :: "strmap \<Rightarrow> strmap \<Rightarrow> bool" where
  "any_labels sel ls \<longleftrightarrow> True"

definition indexed_race :: "strmap racing" where
  "indexed_race = new_racing\<lparr>rc_memos := new_memos\<lparr>mm_monitors := Some (mi_run typed_api literal_engine (MUpsert ServiceMonitor token_monitor) New_MIndex)\<rparr>\<rparr>"

definition entered_race :: "strmap racing" where
  "entered_race = build_enter (MIndex_Generation (mons_of indexed_race)) 0 indexed_race"

definition disturbed_race :: "strmap racing" where
  "disturbed_race = entered_race\<lparr>rc_memos := (rc_memos entered_race)\<lparr>mm_services := shop_index\<rparr>\<rparr>"

definition race_trace :: "nat \<Rightarrow> strmap racing" where
  "race_trace i = (if i = 0 then new_racing else if i = 1 then indexed_race else if i = 2 then entered_race
     else (build_turn any_labels ^^ (i - 3)) disturbed_race)"

lemma indexed_monitors:
  "\<exists>b. MIndex_All (mons_of indexed_race) = [(0, b)] \<and> plain_namespaces (monitor_namespaces b)"
proof -
  obtain b where b: "parseMonitorSpec typed_api literal_engine ServiceMonitor token_monitor = Inr b" using token_parse by blast
  have "case parseMonitorSpec typed_api literal_engine ServiceMonitor token_monitor of
      Inl _ \<Rightarrow> False | Inr b \<Rightarrow> monitor_namespaces b = Some [''shop'']" by code_simp
  then have "monitor_namespaces b = Some [''shop'']" by (simp add: b)
  then show ?thesis
    by (simp add: indexed_race_def new_racing_def held_index_def UpsertChanged_def b upsertMonitor_def New_MIndex_def MIndex_All_def sortedMonitors_def
        mi_run_def kind_monitors_def kind_rejected_def set_kind_def bump_def plain_namespaces_def Let_def)
qed

lemma race_trace_history: "racing_history typed_api literal_engine any_labels race_trace 5"
proof -
  have ix: "ix_step NewIndex shop_index" unfolding ix_step_def
    by (intro conjI exI [of _ "Ix_Upsert (web_service ''u'' ''1'')"]) (simp_all add: shop_index_def NewIndex_def)
  have mi: "mi_step typed_api literal_engine New_MIndex (mi_run typed_api literal_engine (MUpsert ServiceMonitor token_monitor) New_MIndex)"
    unfolding mi_step_def by (intro disjI1 exI [of _ "MUpsert ServiceMonitor token_monitor"]) (simp add: New_MIndex_def)
  obtain b where b: "MIndex_All (mons_of indexed_race) = [(0, b)]" using indexed_monitors by blast
  have new: "rc_build indexed_race = None" "svcs_of indexed_race = NewIndex" "\<not> monValid (rc_memos indexed_race)"
    by (simp_all add: indexed_race_def new_racing_def new_memos_def)
  have e: "rc_build entered_race = Some \<lparr>bl_todo = [(0, b)], bl_cache = [], bl_run = \<lparr>runKey = [], runSvcs = [], runValid = False\<rparr>,
      bl_mg = MIndex_Generation (mons_of indexed_race), bl_sg = 0\<rparr>" "svcs_of entered_race = NewIndex"
    using new by (simp_all add: entered_race_def build_enter_def b Let_def)
  have turn: "race_step typed_api literal_engine any_labels r (build_turn any_labels r)" if "rc_build r \<noteq> None" for r

  proof -
    obtain c where c: "rc_build r = Some c" using \<open>rc_build r \<noteq> None\<close> by blast
    then show ?thesis using race_step.turn [OF c] race_step.store [OF c] by (cases "bl_todo c = []") (simp_all add: build_turn_def)
  qed
  have n: "rc_build disturbed_race \<noteq> None" "rc_build (build_turn any_labels disturbed_race) \<noteq> None"
    using e by (simp_all add: disturbed_race_def build_turn_def build_next_def split: prod.split)
  have "race_step typed_api literal_engine any_labels new_racing indexed_race"
    using race_step.deliver_monitor [of typed_api literal_engine new_racing] mi
    by (simp add: indexed_race_def new_racing_def new_memos_def held_index_def)
  moreover have "race_step typed_api literal_engine any_labels indexed_race entered_race"
    unfolding entered_race_def by (rule race_step.enter) (simp_all add: new)
  moreover have "race_step typed_api literal_engine any_labels entered_race disturbed_race"
    unfolding disturbed_race_def by (rule race_step.deliver_service) (simp add: e ix)
  ultimately show ?thesis using turn [OF n(1)] turn [OF n(2)]
    by (simp add: racing_history_def run_of_def race_trace_def eval_nat_numeral less_Suc_eq all_conj_distrib)
qed

lemma race_trace_plain: "plain_history race_trace 5"
proof -
  have mons: "mons_of (race_trace k) = mons_of (race_trace 1)" if "1 \<le> k" for k
  proof -
    have "mm_monitors (rc_memos (build_turn any_labels r)) = mm_monitors (rc_memos r)" for r
      by (simp add: build_turn_def build_next_frame build_store_frame split: option.split)
    then have "mm_monitors (rc_memos ((build_turn any_labels ^^ i) disturbed_race)) = mm_monitors (rc_memos indexed_race)" for i
      by (induction i) (simp_all add: disturbed_race_def entered_race_def build_enter_frame)
    then show ?thesis using that by (simp add: race_trace_def entered_race_def build_enter_frame held_index_def)
  qed
  have "\<forall>m \<in> set (MIndex_All (mons_of (race_trace k))). plain_namespaces (monitor_namespaces (snd m))" for k
  proof (cases "k = 0")
    case True
    then show ?thesis by (simp add: race_trace_def new_racing_def new_memos_def held_index_def New_MIndex_def MIndex_All_def sortedMonitors_def)
  next
    case False
    then show ?thesis using mons [of k] indexed_monitors by (auto simp: race_trace_def)
  qed
  then show ?thesis by (simp add: plain_history_def)
qed

lemma race_trace_answers:
  "memo_answers (MIndex_Generation (mons_of (race_trace 1))) (Generation (svcs_of (race_trace 1))) (race_trace 5)"
proof -
  obtain b where b: "MIndex_All (mons_of indexed_race) = [(0, b)]" using indexed_monitors by blast
  have new: "svcs_of indexed_race = NewIndex" "\<not> monValid (rc_memos indexed_race)"
    by (simp_all add: indexed_race_def new_racing_def new_memos_def)
  have "race_trace 5 = build_turn any_labels (build_turn any_labels disturbed_race)" by (simp add: race_trace_def eval_nat_numeral)
  moreover obtain cache run ix where
    m: "build_monitor any_labels (0, b) ([], \<lparr>runKey = [], runSvcs = [], runValid = False\<rparr>, shop_index) = (cache, run, ix)" by (metis prod_cases3)
  obtain c where "rc_build (build_turn any_labels disturbed_race) = Some c" "bl_todo c = []"
    "bl_mg c = MIndex_Generation (mons_of indexed_race)" "bl_sg c = 0"
    using new by (auto simp: disturbed_race_def entered_race_def build_enter_def b Let_def build_turn_def build_next_def m)
  ultimately show ?thesis using store_answers [of c "build_turn any_labels disturbed_race"] new
    by (simp add: build_turn_def [of _ "build_turn any_labels disturbed_race"] race_trace_def Generation_def NewIndex_def)
qed

theorem monitoredServices_fresh_witness:
  "racing_history typed_api literal_engine any_labels race_trace 5 \<and> plain_history race_trace 5 \<and>
   (\<exists>k ks. 1 \<le> k \<and> sorted (k # ks @ [5]) \<and> (\<forall>x \<in> set ks. 1 \<le> x) \<and> length ks = length (MIndex_All (mons_of (race_trace k))) \<and>
     list_at (monCache (rc_memos (race_trace 5))) ''u'' =
       concat (map2 (\<lambda>m x. selected_refs any_labels [m] (svcs_of (race_trace x)) ''u'') (MIndex_All (mons_of (race_trace k))) ks))"
proof -
  note fresh = monitoredServices_fresh [OF race_trace_history race_trace_plain, of 1 1 5, OF _ _ _ refl refl]
  have "memo_answers (MIndex_Generation (mons_of (race_trace 1))) (Generation (svcs_of (race_trace 1))) (race_trace 5)"
    by (rule race_trace_answers)
  with fresh obtain k ks where "1 \<le> k" "sorted (k # ks @ [5])" "\<forall>x \<in> set ks. 1 \<le> x" "length ks = length (MIndex_All (mons_of (race_trace k)))"
    "\<forall>uid. list_at (monCache (rc_memos (race_trace 5))) uid =
       concat (map2 (\<lambda>m x. selected_refs any_labels [m] (svcs_of (race_trace x)) uid) (MIndex_All (mons_of (race_trace k))) ks)"
    by (simp only: order_refl one_le_numeral) blast
  then show ?thesis using race_trace_history race_trace_plain by blast
qed

end
