(* ===== verification/RelabelFilter.thy ===== *)
theory RelabelFilter
  imports MonitorRelabel
begin

section \<open>The filter of a scrape (internal/agent/promscrape: relabel.go, labels.go)\<close>

text \<open>
  What the agent does with the chain it is served: the compiled chains it keeps under a fingerprint, and the
  filter of one scrape with the verdict each rule remembers. A compiled expression is its text; the engine that matches is the
  argument \<open>regex_engine\<close> of \<^verbatim>\<open>MonitorRelabel\<close>.
\<close>

subsection \<open>Labels\<close>

text \<open>The labels of a sample in the order of the exposition, each a name and a value.\<close>
fun labelValue :: "(string \<times> string) list \<Rightarrow> string \<Rightarrow> string" where
  "labelValue [] name = []"
| "labelValue ((n, v) # ls) name = (if n = name then v else labelValue ls name)"

definition labelOrName :: "string \<Rightarrow> (string \<times> string) list \<Rightarrow> string \<Rightarrow> string" where
  "labelOrName name ls key = (if key = ''__name__'' then name else labelValue ls key)"

subsection \<open>The fingerprint of a chain\<close>

definition appendLP :: "string \<Rightarrow> string" where
  "appendLP v = Itoa (length v) @ '':'' @ v"

definition rule_fingerprint :: "RelabelRule \<Rightarrow> string" where
  "rule_fingerprint r =
     appendLP (rr_Action r) @ Itoa (length (rr_SourceLabels r)) @ '';'' @ concat (map appendLP (rr_SourceLabels r)) @ appendLP (rr_Regex r)"

definition relabelFingerprint :: "RelabelRule list \<Rightarrow> string" where
  "relabelFingerprint rules = concat (map rule_fingerprint rules)"

subsection \<open>Compiled chains\<close>

record compiledRelabel =
  cr_keep :: bool
  cr_src :: "string list"
  cr_re :: string

record relabelLast =
  la_val :: string
  la_ok :: bool
  la_matched :: bool

record relabelFilter =
  rf_rules :: "compiledRelabel list"
  rf_last :: "relabelLast list"

definition maxRelabelMemoBytes :: nat where "maxRelabelMemoBytes = 256"
definition maxRelabelChains :: nat where "maxRelabelChains = 1024"

text \<open>The loop that compiles a chain: the first expression that does not compile, or the compiled rules.\<close>
fun compile_chain :: "regex_engine \<Rightarrow> RelabelRule list \<Rightarrow> string + compiledRelabel list" where
  "compile_chain rx [] = Inr []"
| "compile_chain rx (r # rs) =
     (if rr_Action r \<noteq> ''keep'' \<and> rr_Action r \<noteq> ''drop'' then compile_chain rx rs
      else if \<not> compiles rx (rr_Regex r) then Inl (rr_Regex r)
      else (case compile_chain rx rs of
              Inl e \<Rightarrow> Inl e
            | Inr cs \<Rightarrow> Inr (\<lparr>cr_keep = (rr_Action r = ''keep''), cr_src = rr_SourceLabels r, cr_re = rr_Regex r\<rparr> # cs)))"

type_synonym relabelCache = "(string, compiledRelabel list) gomap"

text \<open>
  The second critical section: a full cache gives up one entry, whichever key \<open>victim\<close> a \<^verbatim>\<open>range\<close> over it visits
  first. The flag says that it did.
\<close>
definition session_insert :: "string \<Rightarrow> string \<Rightarrow> compiledRelabel list \<Rightarrow> relabelCache \<Rightarrow> bool \<times> relabelCache" where
  "session_insert victim key compiled m =
     (let evict = get m key = None \<and> length m \<ge> maxRelabelChains
      in (evict, put key compiled (if evict then del victim m else m)))"

definition new_filter :: "compiledRelabel list \<Rightarrow> relabelFilter" where
  "new_filter compiled = \<lparr>rf_rules = compiled, rf_last = replicate (length compiled) \<lparr>la_val = [], la_ok = False, la_matched = False\<rparr>\<rparr>"

text \<open>
  \<open>before\<close> is the cache at the first critical section and \<open>m\<close> at the second: other scrapes may have moved it in between. The
  filter, when there are rules; the flag; and the cache.
\<close>
definition session :: "regex_engine \<Rightarrow> string \<Rightarrow> RelabelRule list \<Rightarrow> relabelCache \<Rightarrow> relabelCache \<Rightarrow> (string + relabelFilter option \<times> bool) \<times> relabelCache" where
  "session rx victim rules before m =
     (if rules = [] then (Inr (None, False), m)
      else (case get before (relabelFingerprint rules) of
              Some compiled \<Rightarrow> (Inr (Some (new_filter compiled), False), m)
            | None \<Rightarrow>
                (case compile_chain rx rules of
                   Inl e \<Rightarrow> (Inl e, m)
                 | Inr compiled \<Rightarrow>
                     (case session_insert victim (relabelFingerprint rules) compiled m of
                        (made_room, m) \<Rightarrow> (Inr (Some (new_filter compiled), made_room), m)))))"

subsection \<open>The filter\<close>

definition joined :: "string \<Rightarrow> (string \<times> string) list \<Rightarrow> string list \<Rightarrow> string" where
  "joined name ls src = join '';'' (map (labelOrName name ls) src)"

definition rule_matched :: "regex_engine \<Rightarrow> string \<Rightarrow> string \<Rightarrow> relabelLast \<Rightarrow> bool \<times> relabelLast" where
  "rule_matched rx re buf l =
     (if la_ok l \<and> la_val l = buf then (la_matched l, l)
      else (let matched = MatchString rx re buf in
            (matched, if length buf \<le> maxRelabelMemoBytes then \<lparr>la_val = buf, la_ok = True, la_matched = matched\<rparr> else l\<lparr>la_ok := False\<rparr>)))"

text \<open>The rules in turn, up to the first that refuses the sample.\<close>
fun keep_loop :: "regex_engine \<Rightarrow> string \<Rightarrow> (string \<times> string) list \<Rightarrow> compiledRelabel list \<Rightarrow> relabelLast list \<Rightarrow> bool \<times> relabelLast list" where
  "keep_loop rx name ls (r # rs) (l # lasts) =
     (case rule_matched rx (cr_re r) (joined name ls (cr_src r)) l of
        (matched, l) \<Rightarrow>
          if cr_keep r \<and> \<not> matched \<or> \<not> cr_keep r \<and> matched then (False, l # lasts)
          else (case keep_loop rx name ls rs lasts of (ok, lasts) \<Rightarrow> (ok, l # lasts)))"
| "keep_loop rx name ls _ lasts = (True, lasts)"

definition filter_Keep :: "regex_engine \<Rightarrow> string \<Rightarrow> (string \<times> string) list \<Rightarrow> relabelFilter \<Rightarrow> bool \<times> relabelFilter" where
  "filter_Keep rx name ls f = (case keep_loop rx name ls (rf_rules f) (rf_last f) of (ok, lasts) \<Rightarrow> (ok, f\<lparr>rf_last := lasts\<rparr>))"

subsection \<open>The fingerprint is injective\<close>

lemma digit_char: "c \<in> set (Itoa n) \<Longrightarrow> c \<noteq> CHR '':'' \<and> c \<noteq> CHR '';''"
  using Itoa_digits by force

lemma counted_inj:
  assumes "c = CHR '':'' \<or> c = CHR '';''" "Itoa n @ c # r = Itoa m @ c # r'"
  shows "n = m \<and> r = r'"
proof -
  have t: "takeWhile (\<lambda>x. x \<noteq> c) (Itoa k @ c # s) = Itoa k" for k s
    using assms(1) digit_char [of _ k] by (subst takeWhile_append2) auto
  then have "Itoa n = Itoa m" using assms(2) by metis
  then show ?thesis using assms(2) Itoa_inj by simp
qed

lemma appendLP_inj:
  assumes "appendLP v @ r = appendLP w @ r'"
  shows "v = w \<and> r = r'"
proof -
  have "Itoa (length v) @ CHR '':'' # (v @ r) = Itoa (length w) @ CHR '':'' # (w @ r')" using assms by (simp add: appendLP_def)
  from counted_inj [OF disjI1 [OF refl] this] show ?thesis using append_eq_append_conv by blast
qed

lemma appendLPs_inj: "length vs = length ws \<Longrightarrow> concat (map appendLP vs) @ r = concat (map appendLP ws) @ r' \<Longrightarrow> vs = ws \<and> r = r'"
proof (induction vs ws rule: list_induct2)
  case (Cons v vs w ws)
  have "appendLP v @ concat (map appendLP vs) @ r = appendLP w @ concat (map appendLP ws) @ r'" using Cons.prems by simp
  from appendLP_inj [OF this] Cons.IH show ?case by simp
qed simp

lemma rule_fingerprint_inj:
  assumes "rule_fingerprint r @ s = rule_fingerprint q @ s'"
  shows "r = q \<and> s = s'"
proof -
  let ?tail = "\<lambda>r s. concat (map appendLP (rr_SourceLabels r)) @ appendLP (rr_Regex r) @ s"
  have "appendLP (rr_Action r) @ Itoa (length (rr_SourceLabels r)) @ CHR '';'' # ?tail r s =
      appendLP (rr_Action q) @ Itoa (length (rr_SourceLabels q)) @ CHR '';'' # ?tail q s'"
    using assms by (simp add: rule_fingerprint_def)
  from appendLP_inj [OF this] have a: "rr_Action r = rr_Action q"
    "Itoa (length (rr_SourceLabels r)) @ CHR '';'' # ?tail r s = Itoa (length (rr_SourceLabels q)) @ CHR '';'' # ?tail q s'" by simp_all
  from counted_inj [OF disjI2 [OF refl] a(2)] have n: "length (rr_SourceLabels r) = length (rr_SourceLabels q)" "?tail r s = ?tail q s'" by simp_all
  from appendLPs_inj [OF n] have "rr_SourceLabels r = rr_SourceLabels q" "appendLP (rr_Regex r) @ s = appendLP (rr_Regex q) @ s'" by simp_all
  with appendLP_inj [OF this(2)] a(1) show ?thesis by (simp add: RelabelRule.equality)
qed

lemma fingerprint_inj: "relabelFingerprint rules = relabelFingerprint rules' \<Longrightarrow> rules = rules'"
proof (induction rules arbitrary: rules')
  case Nil
  then show ?case by (cases rules') (auto simp: relabelFingerprint_def rule_fingerprint_def appendLP_def)
next
  case (Cons r rules)
  then obtain q qs where q: "rules' = q # qs" by (cases rules') (auto simp: relabelFingerprint_def rule_fingerprint_def appendLP_def)
  then have "rule_fingerprint r @ relabelFingerprint rules = rule_fingerprint q @ relabelFingerprint qs"
    using Cons.prems by (simp add: relabelFingerprint_def)
  from rule_fingerprint_inj [OF this] Cons.IH q show ?case by simp
qed

subsection \<open>Every scrape filters by its own chain\<close>

text \<open>Every compiled chain is that of the rules its key was made of.\<close>
definition chains_ok :: "regex_engine \<Rightarrow> relabelCache \<Rightarrow> bool" where
  "chains_ok rx m \<longleftrightarrow> wf_map m \<and> length m \<le> maxRelabelChains \<and>
     (\<forall>rules compiled. get m (relabelFingerprint rules) = Some compiled \<longrightarrow> compile_chain rx rules = Inr compiled)"

text \<open>A sample passes a rule: its action is keep and the joined values match, or drop and they do not.\<close>
definition passes :: "regex_engine \<Rightarrow> RelabelRule \<Rightarrow> string \<Rightarrow> bool" where
  "passes rx r v \<longleftrightarrow> (rr_Action r = ''keep'' \<longrightarrow> MatchString rx (rr_Regex r) v) \<and> (rr_Action r = ''drop'' \<longrightarrow> \<not> MatchString rx (rr_Regex r) v)"

definition chain_keeps :: "regex_engine \<Rightarrow> RelabelRule list \<Rightarrow> string \<Rightarrow> (string \<times> string) list \<Rightarrow> bool" where
  "chain_keeps rx rules name ls \<longleftrightarrow> (\<forall>r \<in> set rules. passes rx r (joined name ls (rr_SourceLabels r)))"

text \<open>What a rule remembers is short, and is what it would compute.\<close>
definition last_ok :: "regex_engine \<Rightarrow> compiledRelabel \<Rightarrow> relabelLast \<Rightarrow> bool" where
  "last_ok rx r l \<longleftrightarrow> length (la_val l) \<le> maxRelabelMemoBytes \<and> (la_ok l \<longrightarrow> la_matched l = MatchString rx (cr_re r) (la_val l))"

definition lasts_ok :: "regex_engine \<Rightarrow> relabelFilter \<Rightarrow> bool" where
  "lasts_ok rx f \<longleftrightarrow> list_all2 (last_ok rx) (rf_rules f) (rf_last f)"

lemma keep_loop_exact:
  assumes "list_all2 (last_ok rx) rs lasts" "keep_loop rx name ls rs lasts = (ok, lasts')"
  shows "(ok \<longleftrightarrow> (\<forall>r \<in> set rs. cr_keep r = MatchString rx (cr_re r) (joined name ls (cr_src r)))) \<and>
    list_all2 (last_ok rx) rs lasts'"
  using assms
proof (induction rs lasts arbitrary: ok lasts' rule: list_all2_induct)
  case (Cons r rs l lasts)
  obtain matched l' where m: "rule_matched rx (cr_re r) (joined name ls (cr_src r)) l = (matched, l')" by fastforce
  have v: "matched = MatchString rx (cr_re r) (joined name ls (cr_src r))" "last_ok rx r l'"
    using m Cons.hyps(1) by (auto simp: last_ok_def rule_matched_def Let_def split: if_splits)
  obtain ok1 lasts1 where k: "keep_loop rx name ls rs lasts = (ok1, lasts1)" by fastforce
  from Cons.IH [OF k] Cons.prems Cons.hyps(2) v show ?case by (auto simp: m k split: if_splits)
qed simp

lemma filter_Keep_exact:
  assumes "lasts_ok rx f" "filter_Keep rx name ls f = (ok, f')"
  shows "ok \<longleftrightarrow> (\<forall>r \<in> set (rf_rules f). cr_keep r = MatchString rx (cr_re r) (joined name ls (cr_src r)))" "lasts_ok rx f'" "rf_rules f' = rf_rules f"
  using assms keep_loop_exact [of rx "rf_rules f" "rf_last f" name ls] by (auto simp: filter_Keep_def lasts_ok_def split: prod.splits)

lemma compile_keeps:
  "compile_chain rx rules = Inr compiled \<Longrightarrow>
     (\<forall>r \<in> set compiled. cr_keep r = MatchString rx (cr_re r) (joined name ls (cr_src r))) \<longleftrightarrow> chain_keeps rx rules name ls"
  by (induction rules arbitrary: compiled) (auto simp: chain_keeps_def passes_def split: if_splits sum.splits)

lemma new_filter_ok: "lasts_ok rx (new_filter compiled)"
  by (auto simp: lasts_ok_def last_ok_def new_filter_def list_all2_conv_all_nth)

lemma put_entries: "length (put k v m) = (if get m k = None then Suc (length m) else length m)"
  by (induction m) auto

lemma del_entries: "get m k \<noteq> None \<Longrightarrow> wf_map m \<Longrightarrow> Suc (length (del k m)) = length m"
proof (induction m)
  case (Cons p m)
  show ?case
  proof (cases "fst p = k")
    case True
    then have "del k m = m" using Cons.prems(2) by (simp add: delete_idem)
    then show ?thesis using True by (cases p) simp
  qed (use Cons in \<open>cases p; auto\<close>)
qed simp

text \<open>Whatever key the \<^verbatim>\<open>range\<close> visits first, it is one of the map.\<close>
definition visits :: "string \<Rightarrow> relabelCache \<Rightarrow> bool" where
  "visits victim m \<longleftrightarrow> m = [] \<or> get m victim \<noteq> None"

lemma chain_insert_ok:
  assumes "chains_ok rx m" "compile_chain rx rules = Inr compiled" "visits victim m" "session_insert victim (relabelFingerprint rules) compiled m = (made_room, m')"
  shows "chains_ok rx m'"
proof -
  let ?key = "relabelFingerprint rules"
  define base where "base = (if get m ?key = None \<and> length m \<ge> maxRelabelChains then del victim m else m)"
  have b: "wf_map base" "\<And>k c. get base k = Some c \<Longrightarrow> get m k = Some c" using assms(1) by (auto simp: base_def chains_ok_def simp del: map_of_eq_Some_iff split: if_splits)
  have m': "m' = put ?key compiled base" using assms(4) by (auto simp: session_insert_def base_def Let_def)
  have "length m' \<le> maxRelabelChains"
  proof (cases "get m ?key = None \<and> length m \<ge> maxRelabelChains")
    case True
    then have "m \<noteq> []" by (auto simp: maxRelabelChains_def)
    then have "Suc (length base) = length m" using del_entries [of m victim] True assms(1,3) by (auto simp: base_def chains_ok_def visits_def)
    then show ?thesis using assms(1) put_entries [of ?key compiled base] by (auto simp: m' chains_ok_def)
  next
    case False
    then show ?thesis using assms(1) put_entries [of ?key compiled m] by (auto simp: m' base_def chains_ok_def)
  qed
  moreover have "compile_chain rx rs = Inr cs" if "get m' (relabelFingerprint rs) = Some cs" for rs cs
    using that assms(1,2) b(2) fingerprint_inj [of rs rules] by (auto simp: m' chains_ok_def simp del: map_of_eq_Some_iff split: if_splits)
  ultimately show ?thesis using b(1) by (simp add: chains_ok_def m')
qed

text \<open>The samples of one scrape in turn, through the one filter of its session.\<close>
fun keep_all :: "regex_engine \<Rightarrow> (string \<times> (string \<times> string) list) list \<Rightarrow> relabelFilter \<Rightarrow> bool list \<times> relabelFilter" where
  "keep_all rx [] f = ([], f)"
| "keep_all rx ((name, ls) # samples) f =
     (case filter_Keep rx name ls f of (ok, f) \<Rightarrow> case keep_all rx samples f of (oks, f) \<Rightarrow> (ok # oks, f))"

lemma keep_all_exact:
  assumes "compile_chain rx rules = Inr (rf_rules f)" "lasts_ok rx f"
  shows "fst (keep_all rx samples f) = map (\<lambda>(name, ls). chain_keeps rx rules name ls) samples \<and> lasts_ok rx (snd (keep_all rx samples f))"
  using assms
proof (induction samples arbitrary: f)
  case (Cons sample samples)
  obtain name ls where sm: "sample = (name, ls)" by fastforce
  obtain ok f' where k: "filter_Keep rx name ls f = (ok, f')" by fastforce
  note e = filter_Keep_exact [OF Cons.prems(2) k]
  have "ok = chain_keeps rx rules name ls" using e(1) compile_keeps [OF Cons.prems(1), of name ls] by simp
  then show ?case using Cons.IH [of f'] Cons.prems(1) e(2,3) by (auto simp: sm k split: prod.splits)
qed simp

text \<open>The cache as other scrapes move it: one of them stores the chain it has compiled.\<close>
definition cache_step :: "regex_engine \<Rightarrow> relabelCache \<Rightarrow> relabelCache \<Rightarrow> bool" where
  "cache_step rx m m' \<longleftrightarrow> (\<exists>victim rules compiled. compile_chain rx rules = Inr compiled \<and> visits victim m \<and>
     m' = snd (session_insert victim (relabelFingerprint rules) compiled m))"

lemma cache_reach_ok: "(cache_step rx)\<^sup>*\<^sup>* m m' \<Longrightarrow> chains_ok rx m \<Longrightarrow> chains_ok rx m'"
proof (induction rule: rtranclp_induct)
  case (step m1 m2)
  then obtain victim rules compiled where "compile_chain rx rules = Inr compiled" "visits victim m1"
    "m2 = snd (session_insert victim (relabelFingerprint rules) compiled m1)" by (auto simp: cache_step_def)
  with chain_insert_ok [of rx m1 rules compiled victim _ m2] step show ?case by (metis prod.collapse)
qed simp

lemma compile_error:
  "compile_chain rx rules = Inl e \<Longrightarrow> \<exists>r \<in> set rules. rr_Action r \<in> {''keep'', ''drop''} \<and> rr_Regex r = e \<and> \<not> compiles rx e"
  by (induction rules) (auto split: if_splits sum.splits)

subsection \<open>Sessions\<close>

text \<open>
  C23. A scrape filters by its own chain, whatever the shared cache of compiled chains has been through. The
  cache is looked up at one moment and stored into at a later one, with other scrapes storing and evicting before and
  between; the session then either reports an expression of the chain that does not compile, or gives a filter whose verdict on
  every sample of the scrape, with all that its rules remember of earlier samples, is that of the chain: every keep rule
  matches the joined source labels and no drop rule does. Each rule remembers at most 256 bytes, and
  the cache stays within its 1024 chains.
\<close>
theorem session_filters_own_chain:
  assumes "(cache_step rx)\<^sup>*\<^sup>* [] before" "(cache_step rx)\<^sup>*\<^sup>* before m" "rules \<noteq> []" "visits victim m"
    and "session rx victim rules before m = (result, m')"
  shows "(case result of
      Inl e \<Rightarrow> \<exists>r \<in> set rules. rr_Action r \<in> {''keep'', ''drop''} \<and> rr_Regex r = e \<and> \<not> compiles rx e
    | Inr (None, made_room) \<Rightarrow> False
    | Inr (Some f, made_room) \<Rightarrow>
        fst (keep_all rx samples f) =
          map (\<lambda>(name, ls). \<forall>r \<in> set rules.
            (rr_Action r = ''keep'' \<longrightarrow> MatchString rx (rr_Regex r) (join '';'' (map (labelOrName name ls) (rr_SourceLabels r)))) \<and>
            (rr_Action r = ''drop'' \<longrightarrow> \<not> MatchString rx (rr_Regex r) (join '';'' (map (labelOrName name ls) (rr_SourceLabels r))))) samples \<and>
        (\<forall>l \<in> set (rf_last (snd (keep_all rx samples f))). length (la_val l) \<le> 256)) \<and>
    length m' \<le> 1024 \<and> (m' = m \<or> cache_step rx m m')"
proof -
  have start: "chains_ok rx []" by (simp add: chains_ok_def)
  have b: "chains_ok rx before" by (rule cache_reach_ok [OF assms(1) start])
  have ok: "chains_ok rx m" by (rule cache_reach_ok [OF assms(2) b])
  have spec: "(\<lambda>(name, ls). chain_keeps rx rules name ls) = (\<lambda>(name, ls). \<forall>r \<in> set rules.
      (rr_Action r = ''keep'' \<longrightarrow> MatchString rx (rr_Regex r) (join '';'' (map (labelOrName name ls) (rr_SourceLabels r)))) \<and>
      (rr_Action r = ''drop'' \<longrightarrow> \<not> MatchString rx (rr_Regex r) (join '';'' (map (labelOrName name ls) (rr_SourceLabels r)))))"
    by (simp add: fun_eq_iff chain_keeps_def passes_def joined_def)
  have filt: "fst (keep_all rx samples (new_filter compiled)) = map (\<lambda>(name, ls). chain_keeps rx rules name ls) samples \<and>
      (\<forall>l \<in> set (rf_last (snd (keep_all rx samples (new_filter compiled)))). length (la_val l) \<le> 256)" if "compile_chain rx rules = Inr compiled" for compiled
  proof -
    have "compile_chain rx rules = Inr (rf_rules (new_filter compiled))" using that by (simp add: new_filter_def)
    from keep_all_exact [OF this new_filter_ok, of samples] show ?thesis
      by (auto simp: lasts_ok_def last_ok_def maxRelabelMemoBytes_def list_all2_conv_all_nth in_set_conv_nth)
  qed
  have len: "length m \<le> 1024" using ok by (simp add: chains_ok_def maxRelabelChains_def)
  show ?thesis
  proof (cases "get before (relabelFingerprint rules)")
    case (Some compiled)
    then have "compile_chain rx rules = Inr compiled" using b by (simp add: chains_ok_def)
    from filt [OF this] Some assms(3,5) len show ?thesis unfolding spec [symmetric] by (auto simp: session_def)
  next
    case None
    show ?thesis
    proof (cases "compile_chain rx rules")
      case (Inl e)
      then show ?thesis using None assms(3,5) len compile_error [OF Inl] by (auto simp: session_def)
    next
      case (Inr compiled)
      obtain made_room m1 where i: "session_insert victim (relabelFingerprint rules) compiled m = (made_room, m1)" by fastforce
      have r: "result = Inr (Some (new_filter compiled), made_room)" "m' = m1" using None Inr assms(3,5) i by (simp_all add: session_def)
      have "cache_step rx m m1" unfolding cache_step_def using Inr assms(4) i by (metis snd_conv)
      moreover have "length m1 \<le> 1024" using chain_insert_ok [OF ok Inr assms(4) i] by (simp add: chains_ok_def maxRelabelChains_def)
      ultimately show ?thesis unfolding spec [symmetric] using filt [OF Inr] by (simp add: r)
    qed
  qed
qed

theorem session_filters_own_chain_witness:
  "\<exists>f m'. session literal_engine [] [\<lparr>rr_Action = ''keep'', rr_SourceLabels = [''__name__''], rr_Regex = ''up''\<rparr>] [] [] = (Inr (Some f, False), m') \<and>
     fst (keep_all literal_engine [(''up'', []), (''go_info'', []), (''up'', [])] f) = [True, False, True] \<and> length m' \<le> 1024"
proof -
  let ?rules = "[\<lparr>rr_Action = ''keep'', rr_SourceLabels = [''__name__''], rr_Regex = ''up''\<rparr>]"
  let ?samples = "[(''up'', []), (''go_info'', []), (''up'', [])]"
  have "\<exists>f m'. session literal_engine [] ?rules [] [] = (Inr (Some f, False), m')"
    by (simp add: session_def session_insert_def literal_engine_def maxRelabelChains_def Let_def)
  then obtain f m' where s: "session literal_engine [] ?rules [] [] = (Inr (Some f, False), m')" by blast
  from session_filters_own_chain [OF rtranclp.rtrancl_refl rtranclp.rtrancl_refl _ _ s, where samples = ?samples]
  have "fst (keep_all literal_engine ?samples f) = [True, False, True] \<and> length m' \<le> 1024"
    by (simp add: visits_def literal_engine_def labelOrName_def)
  with s show ?thesis by blast
qed

subsection \<open>The declared chain\<close>

text \<open>
  What a monitor's list says of a series, read as Prometheus reads it: the rules in order, each on the labels the rules before
  it have left. A keep or drop rule joins the source labels with its separator, a semicolon when it has none. What
  any other rule does is not code of this repository and is the argument \<open>rewrite\<close>: the labels after it, or
  nothing when the rule drops the series itself. A series is the value of every label, the empty string for an absent one.
\<close>
type_synonym series = "string \<Rightarrow> string"

definition separator_of :: "relabelSpec \<Rightarrow> string" where
  "separator_of r = (if rs_Separator r = [] then '';'' else rs_Separator r)"

fun declared_keeps :: "regex_engine \<Rightarrow> (relabelSpec \<Rightarrow> series \<Rightarrow> series option) \<Rightarrow> relabelSpec list \<Rightarrow> series \<Rightarrow> bool" where
  "declared_keeps rx rewrite [] s \<longleftrightarrow> True"
| "declared_keeps rx rewrite (r # rs) s \<longleftrightarrow>
     (if isKeepDrop (rs_Action r)
      then MatchString rx (rs_Regex r) (join (separator_of r) (map s (rs_SourceLabels r))) = (ToLower (rs_Action r) = ''keep'') \<and>
        declared_keeps rx rewrite rs s
      else (case rewrite r s of None \<Rightarrow> False | Some s' \<Rightarrow> declared_keeps rx rewrite rs s'))"

text \<open>The documented reach of the other actions: a rule leaves the labels alone that it does not write, map, drop or fail to keep.\<close>
definition rewrites_only :: "regex_engine \<Rightarrow> (relabelSpec \<Rightarrow> series \<Rightarrow> series option) \<Rightarrow> bool" where
  "rewrites_only rx rewrite \<longleftrightarrow> (\<forall>r s s' l. rewrite r s = Some s' \<longrightarrow> \<not> isKeepDrop (rs_Action r) \<longrightarrow> \<not> rewrites_label rx r l \<longrightarrow> s' l = s l)"

text \<open>The verdict of the agent on a rule that is served for a declared one.\<close>
lemma passes_rule_of:
  assumes "applicable r"
  shows "passes rx (rule_of r) (join '';'' (map s (rs_SourceLabels r))) \<longleftrightarrow>
    MatchString rx (rs_Regex r) (join (separator_of r) (map s (rs_SourceLabels r))) = (ToLower (rs_Action r) = ''keep'')"
proof -
  have "join (separator_of r) (map s (rs_SourceLabels r)) = join '';'' (map s (rs_SourceLabels r))"

  proof (cases "length (rs_SourceLabels r) \<le> 1")
    case True
    then show ?thesis by (cases "rs_SourceLabels r") auto
  next
    case False
    then show ?thesis using assms by (auto simp: applicable_def separator_of_def)
  qed
  moreover have "ToLower (rs_Action r) = ''keep'' \<or> ToLower (rs_Action r) = ''drop''" using assms by (auto simp: applicable_def isKeepDrop_def)
  ultimately show ?thesis by (auto simp: passes_def rule_of_def)
qed

definition series_keeps :: "regex_engine \<Rightarrow> RelabelRule list \<Rightarrow> series \<Rightarrow> bool" where
  "series_keeps rx rules s \<longleftrightarrow> (\<forall>r \<in> set rules. passes rx r (join '';'' (map s (rr_SourceLabels r))))"

lemma chain_keeps_series: "chain_keeps rx rules name ls = series_keeps rx rules (labelOrName name ls)"
  by (simp add: chain_keeps_def series_keeps_def joined_def)

text \<open>\<open>past\<close> are the rules before, and \<open>s0\<close> the series they started with.\<close>
lemma declared_served:
  assumes "rewrites_only rx rewrite" "faithful rx (past @ take k specs)" "declared_keeps rx rewrite specs s"
    and "\<forall>l. (\<forall>a \<in> set past. \<not> rewrites_label rx a l) \<longrightarrow> s l = s0 l"
  shows "series_keeps rx (map rule_of (filter applicable (take k specs))) s0"
  using assms(2-)
proof (induction specs arbitrary: past k s)
  case (Cons r specs)
  show ?case
  proof (cases k)
    case (Suc j)
    have f: "faithful rx ((past @ [r]) @ take j specs)" using Cons.prems(1) Suc by simp
    obtain s' where s': "declared_keeps rx rewrite specs s'" "\<forall>l. \<not> rewrites_label rx r l \<longrightarrow> s' l = s l"
    proof (cases "isKeepDrop (rs_Action r)")
      case True
      then show ?thesis using that [of s] Cons.prems(2) by simp
    next
      case False
      then obtain s1 where "rewrite r s = Some s1" "declared_keeps rx rewrite specs s1" using Cons.prems(2) by (auto split: option.splits)
      then show ?thesis using that [of s1] assms(1) False by (auto simp: rewrites_only_def)
    qed
    have rest: "series_keeps rx (map rule_of (filter applicable (take j specs))) s0"
      by (rule Cons.IH [OF f s'(1)]) (use s'(2) Cons.prems(3) in auto)
    have "passes rx (rule_of r) (join '';'' (map s0 (rs_SourceLabels r)))" if a: "applicable r"
    proof -
      have "\<forall>l \<in> set (rs_SourceLabels r). \<forall>a \<in> set past. \<not> rewrites_label rx a l"
        using f a unfolding faithful_def by (metis append.assoc append_Cons append_Nil)
      then have "map s (rs_SourceLabels r) = map s0 (rs_SourceLabels r)" using Cons.prems(3) by auto
      moreover have "MatchString rx (rs_Regex r) (join (separator_of r) (map s (rs_SourceLabels r))) = (ToLower (rs_Action r) = ''keep'')"
        using a Cons.prems(2) by (simp add: applicable_def)
      ultimately show ?thesis using passes_rule_of [OF a, of rx s0] by argo
    qed
    then show ?thesis using rest Suc by (auto simp: series_keeps_def rule_of_def)
  qed (simp add: series_keeps_def)
qed (simp add: series_keeps_def)

text \<open>A list of applicable rules only is filtered exactly.\<close>
lemma declared_exact:
  "\<forall>r \<in> set specs. applicable r \<Longrightarrow> declared_keeps rx rewrite specs s \<longleftrightarrow> series_keeps rx (map rule_of (filter applicable specs)) s"
proof (induction specs)
  case (Cons r specs)
  have "isKeepDrop (rs_Action r)" using Cons.prems by (simp add: applicable_def)
  then show ?case using Cons passes_rule_of [of r rx s] by (simp add: series_keeps_def) (simp add: rule_of_def)
qed (simp add: series_keeps_def)

text \<open>
  C22. The chain that is served for a monitor's endpoint filters as the monitor says. Evaluated on the labels of a
  sample it drops no series that the declared list, evaluated as Prometheus does it, would keep; and when every
  rule of the list is one the agent applies and the report does not say the list was capped, it keeps exactly
  those. The applied rules are the keep and drop rules of a prefix of the list, in order and unchanged, and of the
  whole list unless the report says it was capped; no applied rule reads a label that a rule before it, which is not
  applied, would have rewritten; each has a regular expression that parses, and together they are within
  the budgets of number, bytes and cost. A rule too large for any chain refuses the endpoint wherever
  it stands, a refused endpoint has no rules, and the report is bounded.
\<close>
theorem relabelChain_sound:
  assumes "relabelChain rx specs = (rules, ign, field)" "rewrites_only rx rewrite"
  shows "(field = [] \<longrightarrow>
      (declared_keeps rx rewrite specs (labelOrName name ls) \<longrightarrow> chain_keeps rx rules name ls) \<and>
      ((\<forall>r \<in> set specs. applicable r) \<and> relabelCappedIgnored \<notin> set ign \<longrightarrow>
        declared_keeps rx rewrite specs (labelOrName name ls) = chain_keeps rx rules name ls) \<and>
      (\<exists>k \<le> length specs. rules = map rule_of (filter applicable (take k specs)) \<and> faithful rx (take k specs) \<and>
         (relabelCappedIgnored \<in> set ign \<or> k = length specs)) \<and>
      length rules \<le> maxRelabelRules \<and> chain_bytes rules \<le> maxRelabelChainBytes \<and> chain_cost rx rules \<le> maxRelabelChainCost \<and>
      (\<forall>r \<in> set specs. applicable r \<longrightarrow> RelabelRuleBytes (rs_Regex r) (rs_SourceLabels r) \<le> maxRelabelRuleBytes)) \<and>
    (field \<noteq> [] \<longrightarrow> rules = []) \<and> length ign \<le> maxRelabelIgnored + 3"
proof -
  note shape = relabelChain_shape [OF assms(1)]
  have "(declared_keeps rx rewrite specs (labelOrName name ls) \<longrightarrow> chain_keeps rx rules name ls) \<and>
      ((\<forall>r \<in> set specs. applicable r) \<and> relabelCappedIgnored \<notin> set ign \<longrightarrow>
        declared_keeps rx rewrite specs (labelOrName name ls) = chain_keeps rx rules name ls)" if f: "field = []"
  proof -
    obtain k where k: "rules = map rule_of (filter applicable (take k specs))" "faithful rx (take k specs)" "relabelCappedIgnored \<in> set ign \<or> k = length specs"
      using shape f by blast
    show ?thesis unfolding chain_keeps_series k(1)
      using declared_served [OF assms(2), of "[]" k specs "labelOrName name ls" "labelOrName name ls"]
        declared_exact [of specs rx rewrite "labelOrName name ls"] k(2,3) by auto
  qed
  with shape show ?thesis by simp
qed

text \<open>Prometheus' \<^verbatim>\<open>labeldrop\<close> on the expressions of \<^const>\<open>literal_engine\<close>, every other rule leaving the series alone.\<close>
definition drop_label :: "relabelSpec \<Rightarrow> series \<Rightarrow> series option" where
  "drop_label r s = Some (if ToLower (rs_Action r) = ''labeldrop'' then s(rs_Regex r := []) else s)"

theorem relabelChain_sound_witness:
  "rewrites_only literal_engine drop_label \<and>
   declared_keeps literal_engine drop_label keep_by_name (labelOrName ''up'' [(''pod'', ''web-0'')]) \<and>
   chain_keeps literal_engine [\<lparr>rr_Action = ''keep'', rr_SourceLabels = [''__name__''], rr_Regex = ''up''\<rparr>] ''up'' [(''pod'', ''web-0'')]"
proof -
  have e: "relabelChain literal_engine keep_by_name =
     ([\<lparr>rr_Action = ''keep'', rr_SourceLabels = [''__name__''], rr_Regex = ''up''\<rparr>], [''metricRelabelings.action=labeldrop''], [])"
    by code_simp
  have w: "rewrites_only literal_engine drop_label"
    by (auto simp: rewrites_only_def drop_label_def rewrites_label_def isKeepDrop_def literal_engine_def Let_def)
  have "declared_keeps literal_engine drop_label keep_by_name (labelOrName ''up'' [(''pod'', ''web-0'')])"
    by (simp add: keep_by_name_def isKeepDrop_def drop_label_def literal_engine_def separator_of_def labelOrName_def lower_ascii_def)
  with relabelChain_sound [OF e w, of "''up''" "[(''pod'', ''web-0'')]"] w show ?thesis by simp
qed

end
