(* ===== verification/Promdur.thy ===== *)
theory Promdur
  imports Prelude "HOL-Library.Signed_Division"
begin

section \<open>Durations of monitors (internal/promdur)\<close>

text \<open>
  The reader of the durations of a monitor: the language of the resource definition
  (\<^verbatim>\<open>y w d h m s ms\<close>, largest unit first), with \<^verbatim>\<open>time.ParseDuration\<close> of the standard library behind it. A
  \<^verbatim>\<open>time.Duration\<close> is a 64-bit integer of nanoseconds, read by \<^const>\<open>sint\<close>.
\<close>

type_synonym i64 = "64 word"

subsection \<open>What is called of the standard library\<close>

definition MaxInt64 :: i64 where
  "MaxInt64 = 0x7FFFFFFFFFFFFFFF"

text \<open>Division of two signed integers, truncated.\<close>
definition go_div :: "i64 \<Rightarrow> i64 \<Rightarrow> i64" where
  "go_div a b = word_of_int (sint a sdiv sint b)"

definition ascii_digit :: "char \<Rightarrow> bool" where
  "ascii_digit c \<longleftrightarrow> (48 :: nat) \<le> of_char c \<and> of_char c \<le> (57 :: nat)"

definition digits_value :: "string \<Rightarrow> nat" where
  "digits_value s = foldl (\<lambda>n c. 10 * n + (of_char c - 48)) 0 s"

text \<open>\<^verbatim>\<open>strconv.ParseInt(g, 10, 64)\<close> on a string of digits.\<close>
definition ParseInt :: "string \<Rightarrow> i64 option" where
  "ParseInt g = (if digits_value g > 9223372036854775807 then None else Some (of_nat (digits_value g)))"

text \<open>
  \<^verbatim>\<open>FindStringSubmatch\<close> of the pattern: each unit may have a group of digits, in the order of the units, and
  nothing else is left. A group that is taken is preferred to one that is skipped.
\<close>
fun crd_match :: "string list \<Rightarrow> string \<Rightarrow> string list option" where
  "crd_match [] s = (if s = [] then Some [] else None)"
| "crd_match (u # us) s =
     (let g = takeWhile ascii_digit s; rest = dropWhile ascii_digit s;
          skipped = map_option (Cons []) (crd_match us s) in
      if g \<noteq> [] \<and> prefix u rest
      then (case crd_match us (drop (length u) rest) of Some gs \<Rightarrow> Some (g # gs) | None \<Rightarrow> skipped)
      else skipped)"

definition unit_names :: "string list" where
  "unit_names = [''y'', ''w'', ''d'', ''h'', ''m'', ''s'', ''ms'']"

subsubsection \<open>\<^verbatim>\<open>time.ParseDuration\<close>\<close>

definition two63 :: u64 where
  "two63 = 0x8000000000000000"

text \<open>\<^verbatim>\<open>leadingInt\<close>: the number and what follows it, or an overflow.\<close>
fun leadingInt :: "u64 \<Rightarrow> string \<Rightarrow> (u64 \<times> string) option" where
  "leadingInt x [] = Some (x, [])"
| "leadingInt x (c # s) =
     (if \<not> ascii_digit c then Some (x, c # s)
      else if x > two63 div 10 then None
      else (let x = x * 10 + of_nat (of_char c - 48) in if x > two63 then None else leadingInt x s))"

text \<open>\<^verbatim>\<open>leadingFraction\<close>: the number, the count of its digits and what follows.\<close>
fun leadingFraction :: "bool \<Rightarrow> u64 \<Rightarrow> nat \<Rightarrow> string \<Rightarrow> u64 \<times> nat \<times> string" where
  "leadingFraction overflow x n [] = (x, n, [])"
| "leadingFraction overflow x n (c # s) =
     (if \<not> ascii_digit c then (x, n, c # s)
      else if overflow then leadingFraction True x n s
      else if x > (two63 - 1) div 10 then leadingFraction True x n s
      else (let y = x * 10 + of_nat (of_char c - 48) in
            if y > two63 then leadingFraction True x n s else leadingFraction False y (Suc n) s))"

text \<open>The two spellings of micro are the bytes of U+00B5 and U+03BC.\<close>
definition unitMap :: "(string, u64) gomap" where
  "unitMap = [(''ns'', 1), (''us'', 1000), ([CHR 0xC2, CHR 0xB5, CHR ''s''], 1000), ([CHR 0xCE, CHR 0xBC, CHR ''s''], 1000),
     (''ms'', 1000000), (''s'', 1000000000), (''m'', 60000000000), (''h'', 3600000000000)]"

text \<open>
  One term: its value and what follows it. \<^verbatim>\<open>uint64(float64(f) * (float64(unit) / scale))\<close> is the argument
  \<open>fraction f unit n\<close>, with \<open>n\<close> the digits of the fraction.
\<close>
definition duration_term :: "(u64 \<Rightarrow> u64 \<Rightarrow> nat \<Rightarrow> u64) \<Rightarrow> string \<Rightarrow> (u64 \<times> string) option" where
  "duration_term fraction s =
     (if \<not> (hd s = CHR ''.'' \<or> ascii_digit (hd s)) then None
      else (case leadingInt 0 s of
              None \<Rightarrow> None
            | Some (v, s1) \<Rightarrow>
                (let pre = length s1 \<noteq> length s;
                     ((f, n, s2), post) =
                       (if s1 \<noteq> [] \<and> hd s1 = CHR ''.''
                        then (let r = leadingFraction False 0 0 (tl s1) in (r, length (snd (snd r)) \<noteq> length (tl s1)))
                        else ((0, 0, s1), False)) in
                 if \<not> pre \<and> \<not> post then None
                 else (let u = takeWhile (\<lambda>c. \<not> (c = CHR ''.'' \<or> ascii_digit c)) s2; s3 = drop (length u) s2 in
                       if u = [] then None
                       else (case get unitMap u of
                               None \<Rightarrow> None
                             | Some unit \<Rightarrow>
                                 if v > two63 div unit then None
                                 else (let v = v * unit;
                                           v' = (if f > 0 then v + fraction f unit n else v) in
                                       if f > 0 \<and> v' > two63 then None else Some (v', s3)))))))"

text \<open>The terms take one byte at least, so the length of the string is enough fuel.\<close>
fun duration_terms :: "(u64 \<Rightarrow> u64 \<Rightarrow> nat \<Rightarrow> u64) \<Rightarrow> nat \<Rightarrow> u64 \<Rightarrow> string \<Rightarrow> u64 option" where
  "duration_terms fraction 0 d s = (if s = [] then Some d else None)"
| "duration_terms fraction (Suc fuel) d s =
     (if s = [] then Some d
      else (case duration_term fraction s of
              None \<Rightarrow> None
            | Some (v, s) \<Rightarrow> (let d = d + v in if d > two63 then None else duration_terms fraction fuel d s)))"

definition ParseDuration :: "(u64 \<Rightarrow> u64 \<Rightarrow> nat \<Rightarrow> u64) \<Rightarrow> string \<Rightarrow> i64 option" where
  "ParseDuration fraction s =
     (let signed = s \<noteq> [] \<and> (hd s = CHR ''-'' \<or> hd s = CHR ''+''); neg = (signed \<and> hd s = CHR ''-'');
          s = (if signed then tl s else s) in
      if s = ''0'' then Some 0
      else if s = [] then None
      else (case duration_terms fraction (length s) 0 s of
              None \<Rightarrow> None
            | Some d \<Rightarrow> if neg then Some (- d) else if d > two63 - 1 then None else Some d))"

subsection \<open>The reader\<close>

datatype duration_error = ErrParseInt | ErrOverflows | ErrParseDuration

definition units :: "i64 list" where
  "units = [365 * 24 * 3600000000000, 7 * 24 * 3600000000000, 24 * 3600000000000, 3600000000000, 60000000000, 1000000000, 1000000]"

fun add_terms :: "(i64 \<times> string) list \<Rightarrow> i64 \<Rightarrow> duration_error + i64" where
  "add_terms [] d = Inr d"
| "add_terms ((u, g) # gs) d =
     (if g = [] then add_terms gs d
      else (case ParseInt g of
              None \<Rightarrow> Inl ErrParseInt
            | Some n \<Rightarrow>
                if go_div MaxInt64 u <s n then Inl ErrOverflows
                else (let t = n * u in
                      if MaxInt64 - t <s d then Inl ErrOverflows else add_terms gs (d + t))))"

definition Parse_duration :: "(u64 \<Rightarrow> u64 \<Rightarrow> nat \<Rightarrow> u64) \<Rightarrow> string \<Rightarrow> duration_error + i64" where
  "Parse_duration fraction s =
     (if s = ''0'' then Inr 0
      else (case crd_match unit_names s of
              None \<Rightarrow> (case ParseDuration fraction s of None \<Rightarrow> Inl ErrParseDuration | Some d \<Rightarrow> Inr d)
            | Some gs \<Rightarrow> add_terms (zip units gs) 0))"

definition Interval :: "(u64 \<Rightarrow> u64 \<Rightarrow> nat \<Rightarrow> u64) \<Rightarrow> string \<Rightarrow> duration option" where
  "Interval fraction s = (case Parse_duration fraction s of Inl _ \<Rightarrow> None | Inr d \<Rightarrow> if 0 <s d then Some (sint d) else None)"

subsection \<open>The sum is exact or refused\<close>

text \<open>The nanoseconds a declaration stands for, without a width.\<close>
definition nanoseconds :: "(i64 \<times> string) list \<Rightarrow> int" where
  "nanoseconds gs = (\<Sum>(u, g) \<leftarrow> gs. sint u * int (digits_value g))"

lemma sint_MaxInt64: "sint MaxInt64 = 9223372036854775807"
  by (simp add: MaxInt64_def)

lemma sint_small_i64: "0 \<le> n \<Longrightarrow> n \<le> 9223372036854775807 \<Longrightarrow> sint (word_of_int n :: i64) = n"
  by (simp add: sint_sbintrunc' signed_take_bit_int_eq_self)

lemma sint_le_MaxInt64: "sint (d :: i64) \<le> 9223372036854775807"
  using sint_less [of d] by simp

lemma ParseInt_eq: "ParseInt g = (if int (digits_value g) \<le> 9223372036854775807 then Some (word_of_int (int (digits_value g))) else None)"
  by (simp add: ParseInt_def not_less flip: of_nat_le_iff)

lemma int_div_less_iff: "0 < b \<Longrightarrow> (a :: int) div b < n \<longleftrightarrow> a < n * b"
proof -
  assume b: "0 < b"
  show ?thesis
  proof
    assume "a div b < n"
    then have "(a div b + 1) * b \<le> n * b" using b by (intro mult_right_mono) auto
    moreover have "a < (a div b + 1) * b" using b pos_mod_bound [of b a] div_mult_mod_eq [of a b] unfolding distrib_right by linarith
    ultimately show "a < n * b" by linarith
  next
    assume "a < n * b"
    show "a div b < n"
    proof (rule ccontr)
      assume "\<not> a div b < n"
      then have "n * b \<le> (a div b) * b" using b by (intro mult_right_mono) auto
      then show False using \<open>a < n * b\<close> b pos_mod_sign [of b a] div_mult_mod_eq [of a b] by linarith
    qed
  qed
qed

lemma go_div_MaxInt64: "0 < sint u \<Longrightarrow> sint (go_div MaxInt64 u) = 9223372036854775807 div sint u"
  unfolding go_div_def sint_MaxInt64
  using zdiv_mono2 [of 9223372036854775807 1 "sint u"] by (subst sint_small_i64) (simp_all add: signed_divide_int_def pos_imp_zdiv_nonneg_iff)

text \<open>One step of the sum, on the integers.\<close>
lemma add_term_exact:
  assumes u: "0 < sint u" and d: "0 \<le> sint d" and n: "0 \<le> n" "n \<le> 9223372036854775807"
  shows "go_div MaxInt64 u <s (word_of_int n :: i64) \<longleftrightarrow> 9223372036854775807 < sint u * n"
    and "sint u * n \<le> 9223372036854775807 \<Longrightarrow> MaxInt64 - word_of_int n * u <s d \<longleftrightarrow> 9223372036854775807 < sint d + sint u * n"
    and "sint d + sint u * n \<le> 9223372036854775807 \<Longrightarrow> sint (d + word_of_int n * u) = sint d + sint u * n"
proof -
  have "9223372036854775807 div sint u < n \<longleftrightarrow> 9223372036854775807 < n * sint u"
    using u by (rule int_div_less_iff)
  then show "go_div MaxInt64 u <s (word_of_int n :: i64) \<longleftrightarrow> 9223372036854775807 < sint u * n"
    by (simp add: word_sless_alt go_div_MaxInt64 [OF u] sint_small_i64 [OF n] mult.commute)
  have pos: "0 \<le> sint u * n" using u n by simp
  have prod: "word_of_int n * u = word_of_int (sint u * n)" by (simp add: mult.commute)
  show "MaxInt64 - word_of_int n * u <s d \<longleftrightarrow> 9223372036854775807 < sint d + sint u * n" if "sint u * n \<le> 9223372036854775807"
  proof -
    have "MaxInt64 - word_of_int (sint u * n) = word_of_int (9223372036854775807 - sint u * n)" by (simp add: MaxInt64_def)
    then have "sint (MaxInt64 - word_of_int (sint u * n)) = 9223372036854775807 - sint u * n" using that pos by (simp only:) (rule sint_small_i64, simp_all)
    then show ?thesis unfolding prod word_sless_alt by linarith
  qed
  show "sint (d + word_of_int n * u) = sint d + sint u * n" if "sint d + sint u * n \<le> 9223372036854775807"
  proof -
    have "d + word_of_int (sint u * n) = word_of_int (sint d + sint u * n)" by simp
    then show ?thesis using that pos d unfolding prod by (simp only:) (rule sint_small_i64, simp_all)
  qed
qed

lemma add_terms_exact:
  assumes "\<forall>(u, g) \<in> set gs. 0 < sint u" "0 \<le> sint d"
  shows "case add_terms gs d of
      Inl e \<Rightarrow> 9223372036854775807 < sint d + nanoseconds gs
    | Inr d' \<Rightarrow> sint d' = sint d + nanoseconds gs"
  using assms
proof (induction gs d rule: add_terms.induct)
  case (2 u g gs d)
  have u: "0 < sint u" and us: "\<forall>(u, g) \<in> set gs. 0 < sint u" using 2(3) by auto
  have rest: "0 \<le> nanoseconds gs"
    unfolding nanoseconds_def using us by (intro sum_list_nonneg) force
  let ?n = "int (digits_value g)"
  have sum: "nanoseconds ((u, g) # gs) = sint u * ?n + nanoseconds gs" by (simp add: nanoseconds_def)
  show ?case
  proof (cases "g = []")
    case True
    then have e: "nanoseconds ((u, g) # gs) = nanoseconds gs" using sum True by (simp add: digits_value_def)
    show ?thesis using 2(1) [OF True us 2(4)] True unfolding e by simp
  next
    case g: False
    show ?thesis
    proof (cases "?n \<le> 9223372036854775807")
      case False
      have "1 * ?n \<le> sint u * ?n" using u by (intro mult_right_mono) auto
      then have "9223372036854775807 < sint d + nanoseconds ((u, g) # gs)" using False rest 2(4) unfolding sum by linarith
      then show ?thesis using g False by (simp add: ParseInt_eq)
    next
      case n: True
      have p: "ParseInt g = Some (word_of_int ?n)" using n by (simp add: ParseInt_eq)
      note step = add_term_exact [OF u 2(4) _ n, OF of_nat_0_le_iff]
      show ?thesis
      proof (cases "sint d + sint u * ?n \<le> 9223372036854775807")
        case False
        then have "add_terms ((u, g) # gs) d = Inl ErrOverflows"
          using step(1,2) g p by (cases "sint u * ?n \<le> 9223372036854775807") simp_all
        then show ?thesis using False rest unfolding sum by simp
      next
        case fits: True
        have le: "sint u * ?n \<le> 9223372036854775807" using fits 2(4) by linarith
        have pos: "0 \<le> sint u * ?n" using u by simp
        have a: "\<not> go_div MaxInt64 u <s word_of_int ?n" "\<not> MaxInt64 - word_of_int ?n * u <s d" using step(1) step(2) [OF le] fits le by simp_all
        have e: "sint (d + word_of_int ?n * u) = sint d + sint u * ?n" using step(3) fits by simp
        have step: "add_terms ((u, g) # gs) d = add_terms gs (d + word_of_int ?n * u)" using g p a by (simp add: Let_def)
        have "0 \<le> sint (d + word_of_int ?n * u)" using e pos 2(4) by linarith
        from 2(2) [OF g p a(1) refl a(2) us this] show ?thesis unfolding step sum e add.assoc .
      qed
    qed
  qed
qed (simp add: nanoseconds_def)

subsection \<open>The pattern is the grammar\<close>

text \<open>The text of groups of digits, one per unit; an empty group is left out.\<close>
definition group_text :: "string list \<Rightarrow> string list \<Rightarrow> string" where
  "group_text us gs = concat (map (\<lambda>(u, g). if g = [] then [] else g @ u) (zip us gs))"

definition digit_groups :: "string list \<Rightarrow> bool" where
  "digit_groups gs \<longleftrightarrow> (\<forall>g \<in> set gs. \<forall>c \<in> set g. ascii_digit c)"

definition letter_units :: "string list \<Rightarrow> bool" where
  "letter_units us \<longleftrightarrow> distinct us \<and> (\<forall>u \<in> set us. u \<noteq> [] \<and> (\<forall>c \<in> set u. \<not> ascii_digit c))"

lemma group_text_simps:
  "group_text [] gs = []" "group_text us [] = []" "group_text (u # us) (g # gs) = (if g = [] then [] else g @ u) @ group_text us gs"
  by (simp_all add: group_text_def)

lemma group_text_hd:
  "digit_groups gs \<Longrightarrow> group_text us gs \<noteq> [] \<Longrightarrow> ascii_digit (hd (group_text us gs))"
proof (induction us arbitrary: gs)
  case (Cons u us)
  then show ?case by (cases gs) (auto simp: group_text_simps digit_groups_def hd_append split: if_splits)
qed (simp add: group_text_simps)

lemma digits_run: "\<forall>c \<in> set g. ascii_digit c \<Longrightarrow> u \<noteq> [] \<Longrightarrow> \<not> ascii_digit (hd u) \<Longrightarrow> takeWhile ascii_digit (g @ u @ r) = g \<and> dropWhile ascii_digit (g @ u @ r) = u @ r"
  by (cases u) (auto simp: takeWhile_append2 dropWhile_append2)

lemma unit_run:
  assumes "\<forall>c \<in> set u. \<not> ascii_digit c" "r = [] \<or> ascii_digit (hd r)"
  shows "takeWhile (\<lambda>c. \<not> ascii_digit c) (u @ r) = u"
  using assms by (cases r) (auto simp: takeWhile_append2)

lemma letter_unitsD:
  assumes "letter_units (u # us)"
  shows "u \<noteq> []" "\<not> ascii_digit (hd u)" "\<forall>c \<in> set u. \<not> ascii_digit c" "u \<notin> set us" "letter_units us"
  using assms by (auto simp: letter_units_def)

lemma first_unit:
  assumes "letter_units us" "digit_groups gs" "group_text us gs \<noteq> []"
  shows "takeWhile (\<lambda>c. \<not> ascii_digit c) (dropWhile ascii_digit (group_text us gs)) \<in> set us"
  using assms
proof (induction us arbitrary: gs)
  case (Cons u us)
  note u = letter_unitsD [OF Cons.prems(1)]
  obtain g gs' where gs: "gs = g # gs'" using Cons.prems(3) by (cases gs) (auto simp: group_text_simps)
  have d: "digit_groups gs'" "\<forall>c \<in> set g. ascii_digit c" using Cons.prems(2) by (simp_all add: gs digit_groups_def)
  show ?case
  proof (cases "g = []")
    case True
    then show ?thesis using Cons.IH [OF u(5) d(1)] Cons.prems(3) by (simp add: gs group_text_simps)
  next
    case False
    have "takeWhile (\<lambda>c. \<not> ascii_digit c) (u @ group_text us gs') = u" using unit_run [OF u(3)] group_text_hd [OF d(1)] by blast
    then show ?thesis using digits_run [OF d(2) u(1,2)] False by (simp add: gs group_text_simps)
  qed
qed (simp add: group_text_simps)

lemma group_text_inj:
  assumes "letter_units us" "digit_groups gs" "digit_groups gs'" "length gs = length us" "length gs' = length us"
    and "group_text us gs = group_text us gs'"
  shows "gs = gs'"
  using assms
proof (induction us arbitrary: gs gs')
  case (Cons u us)
  note u = letter_unitsD [OF Cons.prems(1)]
  obtain g h r r' where gs: "gs = g # r" "gs' = h # r'" using Cons.prems(4,5) by (metis length_Suc_conv)
  have d: "digit_groups r" "\<forall>c \<in> set g. ascii_digit c" "digit_groups r'" "\<forall>c \<in> set h. ascii_digit c"
    using Cons.prems(2,3) by (simp_all add: gs digit_groups_def)
  have len: "length r = length us" "length r' = length us" using Cons.prems(4,5) by (simp_all add: gs)
  have run: "takeWhile (\<lambda>c. \<not> ascii_digit c) (dropWhile ascii_digit (g @ u @ group_text us q)) = u" if "digit_groups q" "\<forall>c \<in> set g. ascii_digit c" for g q
    using digits_run [OF that(2) u(1,2)] unit_run [OF u(3)] group_text_hd [OF that(1)] by metis
  have no: "group_text us q \<noteq> g @ u @ group_text us q'" if "digit_groups q" "digit_groups q'" "\<forall>c \<in> set g. ascii_digit c" for g q q'
    using first_unit [OF u(5) that(1)] run [OF that(2,3)] u(1,4) by (metis append_is_Nil_conv)
  have e: "(if g = [] then [] else g @ u) @ group_text us r = (if h = [] then [] else h @ u) @ group_text us r'"
    using Cons.prems(6) by (simp add: gs group_text_simps)
  have "g = h \<and> group_text us r = group_text us r'"
  proof (cases "g = []"; cases "h = []")
    assume "g \<noteq> []" "h \<noteq> []"
    then have "g @ u @ group_text us r = h @ u @ group_text us r'" using e by simp
    then show ?thesis using digits_run [OF d(2) u(1,2)] digits_run [OF d(4) u(1,2)] by (metis same_append_eq)
  qed (use e no [OF d(1,3,4)] no [OF d(3,1,2)] in auto)
  then show ?case using Cons.IH [OF u(5) d(1,3) len] by (simp add: gs)
qed simp

lemma crd_match_sound: "crd_match us s = Some gs \<Longrightarrow> s = group_text us gs \<and> length gs = length us \<and> digit_groups gs"
proof (induction us arbitrary: s gs)
  case (Cons u us)
  let ?g = "takeWhile ascii_digit s" and ?rest = "dropWhile ascii_digit s"
  have skip: ?case if "map_option (Cons []) (crd_match us s) = Some gs"
    using that Cons.IH [of s] by (auto simp: group_text_simps digit_groups_def)
  have take: ?case if "prefix u ?rest" "?g \<noteq> []" "crd_match us (drop (length u) ?rest) = Some gs'" "gs = ?g # gs'" for gs'
  proof -
    have "\<exists>r. ?rest = u @ r" using that(1) by (simp add: prefix_def)
    then obtain r where r: "?rest = u @ r" by blast
    then have "s = ?g @ u @ r" by (metis takeWhile_dropWhile_id)
    moreover have "\<forall>c \<in> set ?g. ascii_digit c" by (metis set_takeWhileD)
    ultimately show ?thesis using Cons.IH [OF that(3)] that(2,4) r by (simp add: group_text_simps digit_groups_def)
  qed
  show ?case
  proof (cases "?g \<noteq> [] \<and> prefix u ?rest")
    case True
    then show ?thesis
    proof (cases "crd_match us (drop (length u) ?rest)")
      case None
      then show ?thesis using Cons.prems True skip by (simp add: Let_def)
    next
      case (Some gs')
      then have "gs = ?g # gs'" using Cons.prems True by (simp add: Let_def)
      then show ?thesis using take True Some by blast
    qed
  next
    case False
    then have "map_option (Cons []) (crd_match us s) = Some gs" using Cons.prems by (simp only: crd_match.simps Let_def if_False)
    then show ?thesis by (rule skip)
  qed
qed (auto simp: group_text_simps digit_groups_def split: if_splits)

lemma crd_match_complete:
  assumes "letter_units us" "digit_groups gs" "length gs = length us"
  shows "crd_match us (group_text us gs) \<noteq> None"
  using assms
proof (induction us arbitrary: gs)
  case (Cons u us)
  note u = letter_unitsD [OF Cons.prems(1)]
  obtain g r where gs: "gs = g # r" using Cons.prems(3) by (metis length_Suc_conv)
  have d: "digit_groups r" "\<forall>c \<in> set g. ascii_digit c" using Cons.prems(2) by (simp_all add: gs digit_groups_def)
  have ih: "crd_match us (group_text us r) \<noteq> None" using Cons.IH [OF u(5) d(1)] Cons.prems(3) by (simp add: gs)
  show ?case
  proof (cases "g = []")
    case True
    then have "group_text (u # us) gs = group_text us r" by (simp add: gs group_text_simps)
    then show ?thesis using ih by (auto simp: Let_def split: option.split)
  next
    case False
    then have "group_text (u # us) gs = g @ u @ group_text us r" by (simp add: gs group_text_simps)
    then show ?thesis using ih False digits_run [OF d(2) u(1,2)] by (auto simp: Let_def)
  qed
qed (simp add: group_text_simps)

lemma crd_match_exact:
  assumes "letter_units us" "digit_groups gs" "length gs = length us"
  shows "crd_match us (group_text us gs) = Some gs"
proof -
  obtain gs' where m: "crd_match us (group_text us gs) = Some gs'" using crd_match_complete [OF assms] by blast
  with crd_match_sound [OF m] group_text_inj [OF assms(1,2) _ assms(3)] show ?thesis by metis
qed

lemma unit_names_ok: "letter_units unit_names"
  by code_simp

text \<open>The text of a duration with the numbers of its years, weeks, days, hours, minutes, seconds and milliseconds.\<close>
definition duration_text :: "string list \<Rightarrow> string" where
  "duration_text gs = group_text unit_names gs"

text \<open>
  C27. A duration of the resource definition is usable exactly when its nanoseconds are positive and fit a
  \<^verbatim>\<open>time.Duration\<close>, and then it is read as exactly that sum: no product or sum wraps, and every number of digits
  is covered. The metadata service and the agent share this reader.
\<close>
theorem Interval_exact:
  assumes "digit_groups gs" "length gs = 7"
  shows "Interval fraction (duration_text gs) =
    (let n = nanoseconds (zip units gs) in if 0 < n \<and> n \<le> 9223372036854775807 then Some n else None)"
proof -
  have m: "crd_match unit_names (duration_text gs) = Some gs"
    unfolding duration_text_def by (rule crd_match_exact [OF unit_names_ok assms(1)]) (simp add: assms(2) unit_names_def)
  have "crd_match unit_names ''0'' = None" by code_simp
  then have z: "duration_text gs \<noteq> ''0''" using m by auto
  have "\<forall>u \<in> set units. 0 < sint u" by (simp add: units_def)
  then have "\<forall>(u, g) \<in> set (zip units gs). 0 < sint u" by (auto dest: set_zip_leftD)
  note sum = add_terms_exact [OF this, of 0]
  have i: "Interval fraction (duration_text gs) = (case add_terms (zip units gs) 0 of Inl _ \<Rightarrow> None | Inr d \<Rightarrow> if 0 <s d then Some (sint d) else None)"
    by (simp add: Interval_def Parse_duration_def m z)
  show ?thesis
  proof (cases "add_terms (zip units gs) 0")
    case (Inr d)
    then show ?thesis using sum sint_le_MaxInt64 [of d] by (simp add: i Let_def word_sless_alt)
  qed (use sum in \<open>simp add: i Let_def\<close>)
qed

theorem Interval_exact_witness:
  "Interval (\<lambda>_ _ _. 0) ''1d12h'' = Some 129600000000000 \<and> Interval (\<lambda>_ _ _. 0) ''18446744073710ms'' = None"
proof -
  let ?day = "[[], [], ''1'', ''12'', [], [], []]" and ?huge = "[[], [], [], [], [], [], ''18446744073710'']"
  have t: "duration_text ?day = ''1d12h''" "duration_text ?huge = ''18446744073710ms''" by code_simp+
  have g: "digit_groups ?day" "digit_groups ?huge" by code_simp+
  have n: "nanoseconds (zip units ?day) = 129600000000000" "nanoseconds (zip units ?huge) = 18446744073710000000"
    by (simp_all add: nanoseconds_def units_def digits_value_def)
  show ?thesis
    using Interval_exact [OF g(1), of "\<lambda>_ _ _. 0"] Interval_exact [OF g(2), of "\<lambda>_ _ _. 0"] by (simp add: t n)
qed

end
