(* ===== verification/ScrapeAuth.thy ===== *)
theory ScrapeAuth
  imports MonitorIndex PeerIP Logdedupe HttpReply
begin

section \<open>The route that serves secrets (internal/server: scrapeauth.go, auth.go; internal/bearer)\<close>

text \<open>
  \<^verbatim>\<open>GET /v1/scrape-auth/{namespace}/{name}/{key}\<close>: the one route that serves material of a Secret, to callers that
  present a token and only for the keys that an indexed monitor names. The reader of Secrets, the API server's
  check of a path segment (\<^verbatim>\<open>IsPathSegmentName\<close>) and \<^verbatim>\<open>%q\<close> are arguments.
\<close>

subsection \<open>The bearer token (internal/bearer/bearer.go)\<close>

text \<open>\<^verbatim>\<open>strings.EqualFold\<close> with a text of which no letter has a fold outside ASCII, as \<^verbatim>\<open>bearer\<close> has none.\<close>
definition ascii_lower :: "char \<Rightarrow> char" where
  "ascii_lower c = (if (65 :: nat) \<le> of_char c \<and> of_char c \<le> (90 :: nat) then char_of (of_char c + (32 :: nat)) else c)"

definition EqualFold :: "string \<Rightarrow> string \<Rightarrow> bool" where
  "EqualFold s t \<longleftrightarrow> map ascii_lower s = map ascii_lower t"

definition parseHeader :: "string \<Rightarrow> string option" where
  "parseHeader header =
     (case Cut '' '' header of
        None \<Rightarrow> None
      | Some (scheme, token) \<Rightarrow>
          if \<not> EqualFold scheme ''bearer'' then None
          else (let token = TrimSpace token in if token = [] then None else Some token))"

definition ConstantTimeCompare :: "string \<Rightarrow> string \<Rightarrow> nat" where
  "ConstantTimeCompare a b = (if a = b then 1 else 0)"

text \<open>Every candidate is compared; \<^verbatim>\<open>matched |= ...\<close> on 0 and 1.\<close>
definition Authorized :: "string \<Rightarrow> string list \<Rightarrow> bool" where
  "Authorized header tokens \<longleftrightarrow>
     (case parseHeader header of
        None \<Rightarrow> False
      | Some got \<Rightarrow>
          fold (\<lambda>tok matched. if tok = [] then matched else max matched (ConstantTimeCompare got tok)) tokens 0 = 1)"

subsection \<open>UTF-8\<close>

definition byte_in :: "nat \<Rightarrow> nat \<Rightarrow> char \<Rightarrow> bool" where
  "byte_in lo hi c \<longleftrightarrow> lo \<le> of_char c \<and> of_char c \<le> hi"

text \<open>\<^verbatim>\<open>utf8.ValidString\<close>: no overlong form, no surrogate, nothing above U+10FFFF.\<close>
fun ValidString :: "string \<Rightarrow> bool" where
  "ValidString [] \<longleftrightarrow> True"
| "ValidString (a # s) \<longleftrightarrow>
     (if byte_in 0x00 0x7F a then ValidString s
      else (case s of
              [] \<Rightarrow> False
            | b # s \<Rightarrow>
                if byte_in 0xC2 0xDF a \<and> byte_in 0x80 0xBF b then ValidString s
                else (case s of
                        [] \<Rightarrow> False
                      | c # s \<Rightarrow>
                          if ((byte_in 0xE0 0xE0 a \<and> byte_in 0xA0 0xBF b) \<or> ((byte_in 0xE1 0xEC a \<or> byte_in 0xEE 0xEF a) \<and> byte_in 0x80 0xBF b) \<or>
                              (byte_in 0xED 0xED a \<and> byte_in 0x80 0x9F b)) \<and> byte_in 0x80 0xBF c
                          then ValidString s
                          else (case s of
                                  [] \<Rightarrow> False
                                | d # s \<Rightarrow>
                                    ((byte_in 0xF0 0xF0 a \<and> byte_in 0x90 0xBF b) \<or> (byte_in 0xF1 0xF3 a \<and> byte_in 0x80 0xBF b) \<or>
                                     (byte_in 0xF4 0xF4 a \<and> byte_in 0x80 0x8F b)) \<and> byte_in 0x80 0xBF c \<and> byte_in 0x80 0xBF d \<and> ValidString s))))"

subsection \<open>The handler\<close>

text \<open>What the reader of Secrets answers; an error may say that there is no such Secret or key.\<close>
datatype secret_answer = SecretValue string | SecretError bool string

record auth_request =
  rq_authorization :: string
  rq_remote :: string
  rq_namespace :: string
  rq_name :: string
  rq_key :: string

datatype auth_log =
    LogOff
  | LogToken string string
  | LogNoMonitors
  | LogSegment string string string
  | LogSaturated string
  | LogDenied string string string
  | LogRead string string string string
  | LogNotUtf8 string string string

text \<open>The state of the route: the index, the throttles of its warnings, its counter and its log.\<close>
record 'sel auth_server =
  as_monitors :: "'sel MIndex option"
  as_ready :: bool
  as_warnAuthOff :: Throttle
  as_warnAuthToken :: Throttle
  as_warnAuthNoMonitors :: Throttle
  as_warnAuthSegment :: Throttle
  as_warnRefs :: Table
  as_warnAuthDenied :: Table
  as_failures :: "string list"
  as_log :: "auth_log list"

definition scrapeAuthWarnEvery :: duration where
  "scrapeAuthWarnEvery = 300000000000"

definition clipSegment :: "string \<Rightarrow> string" where
  "clipSegment v = Marked v 253 ([CHR 0xE2, CHR 0x80, CHR 0xA6] @ ''(truncated)'')"

definition auth_fail :: "string \<Rightarrow> 'sel auth_server \<Rightarrow> 'sel auth_server" where
  "auth_fail reason s = s\<lparr>as_failures := as_failures s @ [reason]\<rparr>"

definition auth_line :: "auth_log list \<Rightarrow> 'sel auth_server \<Rightarrow> 'sel auth_server" where
  "auth_line ls s = s\<lparr>as_log := as_log s @ ls\<rparr>"

text \<open>\<^verbatim>\<open>allowKeyed\<close> with the line that follows it when it allows: the lines, and the table.\<close>
definition allowKeyed :: "string \<Rightarrow> string \<Rightarrow> instant \<Rightarrow> auth_log \<Rightarrow> Table \<Rightarrow> auth_log list \<times> Table" where
  "allowKeyed table key now line t =
     (case Table_Allow key now t of
        ((allow, full), t) \<Rightarrow> ((if full then [LogSaturated table] else []) @ (if allow then [line] else []), t))"

definition no_store :: "reply \<Rightarrow> reply" where
  "no_store r = r\<lparr>rp_headers := (''Cache-Control'', ''no-store'') # rp_headers r\<rparr>"

definition scrapeAuthRealm :: string where
  "scrapeAuthRealm = ''Bearer realm='' @ [CHR 0x22] @ ''kubescrape scrape-auth'' @ [CHR 0x22]"

definition writeUnauthorized :: reply where
  "writeUnauthorized =
     (let r = writeError 401 ''missing or invalid bearer token (-scrape-auth-token-file)''
      in r\<lparr>rp_headers := (''WWW-Authenticate'', scrapeAuthRealm) # rp_headers r\<rparr>)"

definition with_retry :: "string \<Rightarrow> reply \<Rightarrow> reply" where
  "with_retry secs r = r\<lparr>rp_headers := (''Retry-After'', secs) # rp_headers r\<rparr>"

text \<open>The first segment, in path order, that cannot name an object, with the first reason.\<close>
definition bad_segment :: "(string \<Rightarrow> string list) \<Rightarrow> auth_request \<Rightarrow> (string \<times> string \<times> string) option" where
  "bad_segment segment_errors rq =
     map_option (\<lambda>(what, v). (what, v, hd (segment_errors v)))
       (find (\<lambda>(what, v). segment_errors v \<noteq> []) [(''namespace'', rq_namespace rq), (''name'', rq_name rq), (''key'', rq_key rq)])"

text \<open>The part after the checks of the request: the allowlist, the Secret and its value.\<close>
definition serve_secret :: "(string \<Rightarrow> string \<Rightarrow> string \<Rightarrow> secret_answer) \<Rightarrow> instant \<Rightarrow> auth_request \<Rightarrow> 'sel MIndex \<Rightarrow>
    'sel auth_server \<Rightarrow> reply \<times> 'sel auth_server" where
  "serve_secret secrets now rq mons s =
     (let ns = rq_namespace rq; name = rq_name rq; key = rq_key rq; ref = ns @ ''/'' @ name @ ''/'' @ key in
      case AuthSecretRefs mons of
        (refs, mons) \<Rightarrow>
          (let s = s\<lparr>as_monitors := Some mons\<rparr> in
           if \<not> Has refs ref
           then (case allowKeyed ''scrape-auth allowlist-miss'' (clipSegment ns @ [CHR 0x00] @ clipSegment name @ [CHR 0x00] @ clipSegment key) now
                        (LogDenied (clipSegment ns) (clipSegment name) (clipSegment key)) (as_warnAuthDenied s) of
                   (ls, t) \<Rightarrow>
                     (writeError 403 ''secret is not referenced by any monitor endpoint'',
                      auth_line ls (auth_fail ''not_allowed'' (s\<lparr>as_warnAuthDenied := t\<rparr>))))
           else (case secrets ns name key of
                   SecretError not_found err \<Rightarrow>
                     (let msg = ''secret '' @ ns @ ''/'' @ name @ '' key '' @ key @ '': '' @ err in
                      if not_found then (writeError 404 msg, auth_fail ''not_found'' s)
                      else (case allowKeyed ''scrape-auth'' (''read:'' @ ref) now (LogRead ns name key err) (as_warnRefs s) of
                              (ls, t) \<Rightarrow> (with_retry ''5'' (writeError 502 msg), auth_fail ''upstream'' (auth_line ls (s\<lparr>as_warnRefs := t\<rparr>)))))
                 | SecretValue val \<Rightarrow>
                     if \<not> ValidString val
                     then (case allowKeyed ''scrape-auth'' (''utf8:'' @ ref) now (LogNotUtf8 ns name key) (as_warnRefs s) of
                             (ls, t) \<Rightarrow>
                               (writeError 422 (''secret '' @ ns @ ''/'' @ name @ '' key '' @ key @
                                  '' is not valid UTF-8; kubescrape serves credentials as JSON strings''),
                                auth_line ls (auth_fail ''not_utf8'' (s\<lparr>as_warnRefs := t\<rparr>))))
                     else (\<lparr>rp_status = 200, rp_headers = [(''Content-Type'', ''application/json'')], rp_body = ValueBody val\<rparr>, s))))"

text \<open>
  \<open>secrets\<close> is absent when the feature is off, and so may the source of the tokens be. \<open>ago\<close> and \<open>now\<close> are the
  readings of the clock.
\<close>
definition handleScrapeAuth :: "(string \<Rightarrow> string \<Rightarrow> string \<Rightarrow> secret_answer) option \<Rightarrow> string list option \<Rightarrow> (string \<Rightarrow> string list) \<Rightarrow>
    (string \<Rightarrow> string) \<Rightarrow> int \<Rightarrow> instant \<Rightarrow> auth_request \<Rightarrow> 'sel auth_server \<Rightarrow> reply \<times> 'sel auth_server" where
  "handleScrapeAuth secrets tokens segment_errors quoted ago now rq s =
     (case (case secrets of
              None \<Rightarrow>
                (case Throttle_Allow ago scrapeAuthWarnEvery (as_warnAuthOff s) of
                   (allow, t) \<Rightarrow>
                     (writeError 404 ''scrape auth secrets are not enabled (-scrape-auth-secrets)'',
                      auth_line (if allow then [LogOff] else []) (auth_fail ''disabled'' (s\<lparr>as_warnAuthOff := t\<rparr>))))
            | Some reader \<Rightarrow>
                if \<not> (case tokens of None \<Rightarrow> False | Some toks \<Rightarrow> Authorized (rq_authorization rq) toks)
                then (case Throttle_Allow ago scrapeAuthWarnEvery (as_warnAuthToken s) of
                        (allow, t) \<Rightarrow>
                          (writeUnauthorized,
                           auth_line (if allow then [LogToken (From (rq_remote rq)) (if rq_authorization rq \<noteq> [] then ''mismatch'' else ''missing'')] else [])
                             (auth_fail ''unauthorized'' (s\<lparr>as_warnAuthToken := t\<rparr>))))
                else if \<not> as_ready s then (with_retry ''1'' (writeError 503 ''informer caches not synced''), s)
                else (case as_monitors s of
                        None \<Rightarrow>
                          (case Throttle_Allow ago scrapeAuthWarnEvery (as_warnAuthNoMonitors s) of
                             (allow, t) \<Rightarrow>
                               (writeError 404 ''no monitors indexed'',
                                auth_line (if allow then [LogNoMonitors] else []) (auth_fail ''no_monitors'' (s\<lparr>as_warnAuthNoMonitors := t\<rparr>))))
                      | Some mons \<Rightarrow>
                          (case bad_segment segment_errors rq of
                             Some (what, v, err) \<Rightarrow>
                               (case Throttle_Allow ago scrapeAuthWarnEvery (as_warnAuthSegment s) of
                                  (allow, t) \<Rightarrow>
                                    (writeError 400 (''invalid '' @ what @ '' '' @ quoted v @ '': '' @ err),
                                     auth_line (if allow then [LogSegment what (clipSegment v) err] else []) (auth_fail ''bad_request'' (s\<lparr>as_warnAuthSegment := t\<rparr>))))
                           | None \<Rightarrow> serve_secret reader now rq mons s))) of
        (r, s) \<Rightarrow> (no_store r, s))"

subsection \<open>What a caller can read\<close>

lemma last_slash:
  assumes "x @ ''/'' @ a = y @ ''/'' @ b" "slash_free a" "slash_free b"
  shows "x = y \<and> a = b"
proof -
  have "rev a @ CHR ''/'' # rev x = rev b @ CHR ''/'' # rev y" using arg_cong [OF assms(1), of rev] by simp
  moreover have "takeWhile ((\<noteq>) (CHR ''/'')) (rev c @ CHR ''/'' # z) = rev c" if "slash_free c" for c z
    using that by (intro takeWhile_append2 [THEN trans]) (auto simp: slash_free_def)
  ultimately have "rev a = rev b" using assms(2,3) by metis
  then show ?thesis using assms(1) by simp
qed

lemma section_kept: "kind_monitors k (snd (auth_section g ix)) = kind_monitors k ix" "mi_next (snd (auth_section g ix)) = mi_next ix"
  by (cases k) (simp_all add: auth_section_def buildAuthSecretRefs_def kind_monitors_def)

lemma records_section: "records_ok api rx ix \<Longrightarrow> records_ok api rx (snd (auth_section g ix))"
  unfolding records_ok_def section_kept .

lemma records_trace: "auth_trace api rx tr n \<Longrightarrow> i \<le> n \<Longrightarrow> records_ok api rx (tr i)"
proof (induction i)
  case 0
  then show ?case using records_new by (simp add: auth_trace_def)
next
  case (Suc i)
  have "records_ok api rx (tr i)" "i < n" using Suc by simp_all
  then show ?case using Suc.prems(1) records_run records_section unfolding auth_trace_def by metis
qed

text \<open>A monitor of the index declares the key of the Secret in its own namespace.\<close>
definition secret_declared :: "('raw, 'sel) apimachinery \<Rightarrow> regex_engine \<Rightarrow> 'sel MIndex \<Rightarrow> string \<Rightarrow> string \<Rightarrow> string \<Rightarrow> bool" where
  "secret_declared api rx ix ns name key \<longleftrightarrow>
     (\<exists>kind m u specRaw spec ep r. m \<in> set (map snd (kind_monitors kind ix)) \<and> parseMonitorSpec api rx kind u = Inr (snd m) \<and> u_Namespace u = ns \<and>
        u_spec u = Some specRaw \<and> FromUnstructured api kind (fst (cut_endpoints kind specRaw)) = Inr spec \<and> ep \<in> set (ms_Endpoints spec) \<and>
        r \<in> declared_secrets ep \<and> sr_Name r = name \<and> sr_Key r = key)"

lemma collected_declared:
  assumes "records_ok api rx ix" "ns @ ''/'' @ name @ ''/'' @ key \<in> collect_refs ix" "slash_free name" "slash_free key"
  shows "secret_declared api rx ix ns name key"
proof -
  let ?ref = "ns @ ''/'' @ name @ ''/'' @ key"
  obtain kind k m e where e: "(k, m) \<in> set (kind_monitors kind ix)" "e \<in> set (mb_Endpoints (snd m))" "?ref \<in> set (secretRefs e)"
    using assms(2) unfolding collect_refs_named named_refs_def by blast
  have "wf_map (kind_monitors kind ix)" using assms(1) by (simp add: records_ok_def)
  then have "get (kind_monitors kind ix) k = Some m" using e(1) by (simp add: map_of_eq_Some_iff)
  then obtain u where u: "parseMonitorSpec api rx kind u = Inr (snd m)" using assms(1) unfolding records_ok_def by blast
  obtain specRaw spec ig where p: "u_spec u = Some specRaw" "FromUnstructured api kind (fst (cut_endpoints kind specRaw)) = Inr spec"
    "mb_Endpoints (snd m) = map (monitor_endpoint rx ig (u_Namespace u)) (take maxEndpointsPerMonitor (ms_Endpoints spec))"
    by (rule parse_Inr [OF u]) blast
  obtain ep where ep: "ep \<in> set (ms_Endpoints spec)" "e = monitor_endpoint rx ig (u_Namespace u) ep" using e(2) p(3) in_set_takeD by fastforce
  obtain r where r: "r \<in> declared_secrets ep" "?ref = u_Namespace u @ ''/'' @ sr_Name r @ ''/'' @ sr_Key r" "slash_free (sr_Name r)" "slash_free (sr_Key r)"
    using monitor_endpoint_refs [of ?ref rx ig "u_Namespace u" ep] e(3) ep(2) by auto
  have "key = sr_Key r" "ns @ ''/'' @ name = u_Namespace u @ ''/'' @ sr_Name r"
    using last_slash [of "ns @ ''/'' @ name" key "u_Namespace u @ ''/'' @ sr_Name r" "sr_Key r"] r assms(4) by simp_all
  then have "sr_Key r = key \<and> sr_Name r = name \<and> u_Namespace u = ns" using last_slash [of ns name "u_Namespace u" "sr_Name r"] r assms(3) by simp
  then show ?thesis unfolding secret_declared_def
    by (intro exI [of _ kind] exI [of _ m] exI [of _ u] exI [of _ specRaw] exI [of _ spec] exI [of _ ep] exI [of _ r])
      (use e(1) u p ep r in force)
qed

text \<open>The token that is presented is one of those accepted, and not the empty one.\<close>
definition token_accepted :: "string \<Rightarrow> string list \<Rightarrow> bool" where
  "token_accepted header toks \<longleftrightarrow> (\<exists>scheme token. Cut '' '' header = Some (scheme, token) \<and> EqualFold scheme ''bearer'' \<and>
     TrimSpace token \<noteq> [] \<and> TrimSpace token \<in> set toks)"

lemma matched_fold:
  "got \<noteq> [] \<Longrightarrow> m \<le> 1 \<Longrightarrow> fold (\<lambda>tok matched. if tok = [] then matched else max matched (ConstantTimeCompare got tok)) toks m = (if got \<in> set toks then 1 else m)"
  by (induction toks arbitrary: m) (auto simp: ConstantTimeCompare_def)

lemma Authorized_iff: "Authorized header toks \<longleftrightarrow> token_accepted header toks"
proof (cases "parseHeader header")
  case None
  then show ?thesis by (auto simp: Authorized_def token_accepted_def parseHeader_def Let_def split: option.splits if_splits)
next
  case (Some got)
  then have "got \<noteq> []" by (auto simp: parseHeader_def Let_def split: option.splits if_splits)
  then have "Authorized header toks \<longleftrightarrow> got \<in> set toks" using matched_fold [of got 0 toks] Some by (simp add: Authorized_def)
  moreover have "token_accepted header toks \<longleftrightarrow> got \<in> set toks" using Some
    by (auto simp: token_accepted_def parseHeader_def Let_def split: option.splits if_splits)
  ultimately show ?thesis by simp
qed

text \<open>What is assumed of \<^verbatim>\<open>IsPathSegmentName\<close>: a text with a slash is refused.\<close>
definition refuses_slash :: "(string \<Rightarrow> string list) \<Rightarrow> bool" where
  "refuses_slash segment_errors \<longleftrightarrow> (\<forall>v. segment_errors v = [] \<longrightarrow> slash_free v)"

definition request_accepted :: "string list option \<Rightarrow> auth_request \<Rightarrow> bool" where
  "request_accepted tokens rq \<longleftrightarrow> (\<exists>toks. tokens = Some toks \<and> token_accepted (rq_authorization rq) toks)"

lemma accepted_case: "(case tokens of None \<Rightarrow> False | Some toks \<Rightarrow> Authorized (rq_authorization rq) toks) \<longleftrightarrow> request_accepted tokens rq"
  by (simp add: request_accepted_def Authorized_iff split: option.split)

lemma good_segments: "bad_segment segment_errors rq = None \<Longrightarrow> refuses_slash segment_errors \<Longrightarrow> slash_free (rq_name rq) \<and> slash_free (rq_key rq)"
  by (auto simp: bad_segment_def refuses_slash_def split: if_splits)

lemma allowed_declared:
  assumes "auth_trace api rx tr n" "i \<le> n" "bad_segment segment_errors rq = None" "refuses_slash segment_errors"
    "Has (fst (AuthSecretRefs (tr i))) (rq_namespace rq @ ''/'' @ rq_name rq @ ''/'' @ rq_key rq)"
  shows "secret_declared api rx (tr i) (rq_namespace rq) (rq_name rq) (rq_key rq)"
proof -
  obtain k where "i \<le> k" "k \<le> i" "fst (AuthSecretRefs (tr i)) = collect_refs (tr k)"
    using auth_fresh [OF assms(1) order_refl assms(2)] by (auto simp: AuthSecretRefs_def)
  then show ?thesis
    using collected_declared [OF records_trace [OF assms(1,2)]] assms(5) good_segments [OF assms(3,4)] by (simp add: Has_def)
qed

definition error_reply :: "reply \<Rightarrow> bool" where
  "error_reply r \<longleftrightarrow> rp_status r \<noteq> 200 \<and> (\<exists>msg. rp_body r = ErrorBody msg)"

lemma error_replies [simp]: "error_reply (writeError st msg) \<longleftrightarrow> st \<noteq> 200" "error_reply writeUnauthorized"
  "error_reply (with_retry secs r) \<longleftrightarrow> error_reply r" "error_reply (no_store r) \<longleftrightarrow> error_reply r"
  by (simp_all add: error_reply_def writeError_def writeJSON_def writeUnauthorized_def with_retry_def no_store_def Let_def)

lemma serve_secret_value:
  assumes "serve_secret secrets now rq mons s = (r, s')"
  shows "error_reply r \<or> Has (fst (AuthSecretRefs mons)) (rq_namespace rq @ ''/'' @ rq_name rq @ ''/'' @ rq_key rq) \<and>
    (\<exists>v. rp_status r = 200 \<and> rp_body r = ValueBody v \<and> ValidString v \<and> secrets (rq_namespace rq) (rq_name rq) (rq_key rq) = SecretValue v)"
  using assms by (auto simp: serve_secret_def Let_def split: prod.splits if_splits secret_answer.splits)

text \<open>
  C12. What the only route that serves secrets gives away. A reply that carries a value is a 200 to a caller that presented one of the
  accepted tokens, of a value that the reader of Secrets gave for exactly the three segments of the path, and the named key is one that
  a monitor which is indexed at that moment declares in its own namespace: no cut of the path into segments reaches
  a Secret that no monitor of that namespace names. A caller without an accepted token is told the same whatever it asks for. No reply may be stored.
\<close>
theorem scrape_auth_confined:
  assumes "auth_trace api rx tr n" "i \<le> n" "as_monitors s = Some (tr i)" "refuses_slash segment_errors"
    "handleScrapeAuth secrets tokens segment_errors quoted ago now rq s = (r, s')"
  shows "(''Cache-Control'', ''no-store'') \<in> set (rp_headers r) \<and>
    (error_reply r \<or>
      (\<exists>reader v. rp_status r = 200 \<and> rp_body r = ValueBody v \<and> ValidString v \<and> request_accepted tokens rq \<and> as_ready s \<and>
         secrets = Some reader \<and> reader (rq_namespace rq) (rq_name rq) (rq_key rq) = SecretValue v \<and>
         secret_declared api rx (tr i) (rq_namespace rq) (rq_name rq) (rq_key rq))) \<and>
    (secrets \<noteq> None \<and> \<not> request_accepted tokens rq \<longrightarrow> r = no_store writeUnauthorized \<and> as_monitors s' = as_monitors s)"
proof (cases "\<exists>reader. secrets = Some reader \<and> request_accepted tokens rq \<and> as_ready s \<and> bad_segment segment_errors rq = None")
  case True
  then obtain reader where c: "secrets = Some reader" "request_accepted tokens rq" "as_ready s" "bad_segment segment_errors rq = None" by blast
  obtain r0 s0 where v: "serve_secret reader now rq (tr i) s = (r0, s0)" by fastforce
  then have r: "r = no_store r0" using assms(3,5) c by (simp add: handleScrapeAuth_def accepted_case)
  show ?thesis using serve_secret_value [OF v] allowed_declared [OF assms(1,2) c(4) assms(4)] c
    by (auto simp: r) (auto simp: no_store_def)
next
  case False
  show ?thesis using assms(3,5) False
    by (auto simp: handleScrapeAuth_def accepted_case auth_line_def auth_fail_def split: option.splits if_splits prod.splits)
      (auto simp: no_store_def)
qed

text \<open>
  C13. The route is no oracle for other secrets. What it answers, logs, counts and keeps does not depend on what the reader holds under
  any other name than the one asked for, nor on that one unless the caller is accepted and an indexed monitor declares it.
\<close>
theorem scrape_auth_blind:
  assumes "auth_trace api rx tr n" "i \<le> n" "as_monitors s = Some (tr i)" "refuses_slash segment_errors"
    "request_accepted tokens rq \<Longrightarrow> secret_declared api rx (tr i) (rq_namespace rq) (rq_name rq) (rq_key rq) \<Longrightarrow>
      reader (rq_namespace rq) (rq_name rq) (rq_key rq) = reader' (rq_namespace rq) (rq_name rq) (rq_key rq)"
  shows "handleScrapeAuth (Some reader) tokens segment_errors quoted ago now rq s = handleScrapeAuth (Some reader') tokens segment_errors quoted ago now rq s"
proof (cases "request_accepted tokens rq \<and> bad_segment segment_errors rq = None")
  case True
  have "serve_secret reader now rq (tr i) s = serve_secret reader' now rq (tr i) s"
  proof (cases "Has (fst (AuthSecretRefs (tr i))) (rq_namespace rq @ ''/'' @ rq_name rq @ ''/'' @ rq_key rq)")
    case True
    then show ?thesis using assms(5) allowed_declared [OF assms(1,2) _ assms(4) True] \<open>request_accepted tokens rq \<and> _\<close> by (simp add: serve_secret_def Let_def split_beta)
  qed (simp add: serve_secret_def Let_def split_beta)
  then show ?thesis using assms(3) by (simp add: handleScrapeAuth_def accepted_case True)
next
  case False
  then show ?thesis using assms(3) by (auto simp: handleScrapeAuth_def accepted_case split: option.split)
qed

subsection \<open>Two callers\<close>

definition shop_secrets :: "string \<Rightarrow> string \<Rightarrow> string \<Rightarrow> secret_answer" where
  "shop_secrets ns name key = (if ns = ''shop'' \<and> name = ''scrape'' \<and> key = ''token'' then SecretValue ''s3cret'' else SecretError True ''absent'')"

definition no_slash_segments :: "string \<Rightarrow> string list" where
  "no_slash_segments v = (if slash_free v \<and> v \<noteq> [] then [] else [''may not contain '' @ [CHR 0x27, CHR ''/'', CHR 0x27]])"

definition shop_caller :: "string \<Rightarrow> auth_request" where
  "shop_caller header = \<lparr>rq_authorization = header, rq_remote = ''10.0.0.9:4711'', rq_namespace = ''shop'', rq_name = ''scrape'', rq_key = ''token''\<rparr>"

definition shop_server :: "strmap auth_server" where
  "shop_server = \<lparr>as_monitors = Some (token_trace 1), as_ready = True, as_warnAuthOff = zero_Throttle, as_warnAuthToken = zero_Throttle,
     as_warnAuthNoMonitors = zero_Throttle, as_warnAuthSegment = zero_Throttle, as_warnRefs = New_Table 1024 scrapeAuthWarnEvery,
     as_warnAuthDenied = New_Table 1024 scrapeAuthWarnEvery, as_failures = [], as_log = []\<rparr>"

lemma shop_trace: "auth_trace typed_api literal_engine token_trace 1"
  unfolding auth_trace_def by (auto simp: token_trace_def intro!: exI [of _ "MUpsert ServiceMonitor token_monitor"])

lemma no_slash_refuses: "refuses_slash no_slash_segments"
  by (simp add: refuses_slash_def no_slash_segments_def)

lemma shop_answer:
  "rp_body (fst (handleScrapeAuth (Some shop_secrets) (Some [''t0k'']) no_slash_segments id 1 1 (shop_caller ''bEARER t0k'') shop_server)) = ValueBody ''s3cret''"
  by code_simp

lemma shop_refusal: "\<not> request_accepted (Some [''t0k'']) (shop_caller ''Bearer t0'')"
proof -
  have "\<not> Authorized ''Bearer t0'' [''t0k'']" by code_simp
  then show ?thesis by (simp add: request_accepted_def shop_caller_def Authorized_iff)
qed

theorem scrape_auth_confined_witness:
  "as_monitors shop_server = Some (token_trace 1) \<and> secret_declared typed_api literal_engine (token_trace 1) ''shop'' ''scrape'' ''token'' \<and>
   fst (handleScrapeAuth (Some shop_secrets) (Some [''t0k'']) no_slash_segments id 1 1 (shop_caller ''Bearer t0'') shop_server) = no_store writeUnauthorized"
proof -
  have s: "as_monitors shop_server = Some (token_trace 1)" by (simp add: shop_server_def)
  note c = scrape_auth_confined [OF shop_trace order_refl s no_slash_refuses prod.collapse [symmetric]]
  show ?thesis
    using s shop_answer shop_refusal c [of "Some shop_secrets" "Some [''t0k'']" id 1 1 "shop_caller ''bEARER t0k''"]
      c [of "Some shop_secrets" "Some [''t0k'']" id 1 1 "shop_caller ''Bearer t0''"]
    by (auto simp: error_reply_def) (simp_all add: shop_caller_def)
qed

theorem scrape_auth_blind_witness:
  "handleScrapeAuth (Some shop_secrets) (Some [''t0k'']) no_slash_segments id 1 1 (shop_caller ''Bearer t0'') shop_server =
   handleScrapeAuth (Some (\<lambda>_ _ _. SecretError False ''forbidden'')) (Some [''t0k'']) no_slash_segments id 1 1 (shop_caller ''Bearer t0'') shop_server"
proof (rule scrape_auth_blind [OF shop_trace order_refl _ no_slash_refuses])
  show "as_monitors shop_server = Some (token_trace 1)" by (simp add: shop_server_def)
qed (use shop_refusal in blast)

end
