(* ===== verification/Spec2Isabelle.thy ===== *)
theory Spec2Isabelle
  imports StoreExamples NodeDoors NodeMemo MonitoredBuild RelabelFilter Promdur ScrapeAuth
begin

text \<open>
  \<^bold>\<open>The metadata service of kubescrape\<close>

  kubescrape is a node agent and a metadata service for Kubernetes. The service watches pods, owners,
  Services and monitors through informers, keeps what it has seen in memory, and answers lookups over
  HTTP: the pod of a container ID, of an address or of a name, the pods of a node, the scrape targets.
  The theories here model the state of that service and the operations on it, from the sources under
  \<^verbatim>\<open>src/\<close>; each definition keeps the name of the Go function it translates where the name is free.

  \<^bold>\<open>Theories and sources\<close>

  \<^item> \<^verbatim>\<open>Prelude\<close>: Go maps as association lists whose order stands for the order of a \<^verbatim>\<open>range\<close> loop (the
    locale \<open>go_map\<close>), byte strings with the functions of \<^verbatim>\<open>strings\<close> and \<^verbatim>\<open>strconv\<close> that are called,
    instants, 64-bit counters.
  \<^item> \<^verbatim>\<open>Kubemeta\<close> (\<^verbatim>\<open>pkg/kubemeta/types.go\<close>, \<^verbatim>\<open>normalize.go\<close>): the served documents and the
    normalisation of container IDs. \<^verbatim>\<open>Annotations\<close> (\<^verbatim>\<open>annotations.go\<close>): what of an object's labels and
    annotations is served, the two ceilings, the note that says what was left out and its reader.
    \<^verbatim>\<open>Kubeconvert\<close> (\<^verbatim>\<open>kubeconvert/convert.go\<close>): from an API pod to the served pod and the index of its
    container IDs.
  \<^item> \<^verbatim>\<open>PeerIP\<close> (\<^verbatim>\<open>internal/peerip\<close>, \<^verbatim>\<open>internal/clip\<close>): the canonical form of an address, over a model of
    the functions of \<^verbatim>\<open>net/netip\<close> it calls, and clipping at a rune boundary.
  \<^item> \<^verbatim>\<open>StoreModel\<close> (\<^verbatim>\<open>internal/store\<close>): the store. Records live in a heap (\<open>at\<close>, \<open>set_rec\<close>), because the
    indexes by UID, by name, by node and by address share them; a channel is a number and a closed
    channel a member of \<open>closed\<close>. \<open>UpsertPod\<close>, \<open>DeletePod\<close>, \<open>sweep\<close>, the lookups, and \<open>GetContainer\<close> as a
    machine of phases (\<open>gc_step\<close>) that ends a phase where the code drops its lock. Each operation reads
    the clock once.
  \<^item> \<^verbatim>\<open>ChangeToken\<close>: the contract of a change token as a locale. The per-node token of the store
    (\<^verbatim>\<open>StoreNodeToken\<close>) and the token of the Service index interpret it.
  \<^item> \<^verbatim>\<open>Logdedupe\<close> (\<^verbatim>\<open>internal/logdedupe\<close>): throttle, outage and keyed table; the locale \<open>log_gate\<close> is what
    a caller relies on, interpreted by the throttle and by the table.
  \<^item> \<^verbatim>\<open>Owners\<close> (\<^verbatim>\<open>internal/owners\<close>): the owner chain of a pod, read from informer caches, reported through
    the tables of \<^verbatim>\<open>Logdedupe\<close> and trimmed by the budgets of \<^verbatim>\<open>Annotations\<close>.
  \<^item> \<^verbatim>\<open>Services\<close> (\<^verbatim>\<open>internal/services\<close>): the index of Services, its memo and its concurrent readers.
  \<^item> \<^verbatim>\<open>ScrapeTargets\<close> (\<^verbatim>\<open>internal/scrape/targets.go\<close>): the targets a pod asks for by annotation, through a
    Service and through a monitor endpoint. \<^verbatim>\<open>TargetMerge\<close> (\<^verbatim>\<open>docsize.go\<close>, \<^verbatim>\<open>merge.go\<close>): what a target weighs
    in the served document, and how a second monitor's endpoint is folded into a target. \<^verbatim>\<open>TargetDedup\<close>
    (\<^verbatim>\<open>internal/server/targetdedup.go\<close>, \<^verbatim>\<open>monitoroffers.go\<close>): the accumulator of one pod's targets.
    \<^verbatim>\<open>TargetOrder\<close> (\<^verbatim>\<open>nodetargets.go\<close>, \<^verbatim>\<open>instance.go\<close>): the order of the served list and the scan for targets
    with one identity.
  \<^item> \<^verbatim>\<open>MonitorRelabel\<close>, \<^verbatim>\<open>MonitorSpec\<close>, \<^verbatim>\<open>MonitorIndex\<close> (\<^verbatim>\<open>internal/servicemonitors\<close>): the relabel chain of an
    endpoint, the parsing of a monitor with its bounds, and the index of monitors with its change token
    and its allowlist of secrets.
  \<^item> \<^verbatim>\<open>MonitoredServices\<close> (\<^verbatim>\<open>internal/server/nodetargets.go\<close>): the two snapshots of the monitors that every
    request reads, kept under change tokens (the locale \<open>ordered_memo\<close> of \<^verbatim>\<open>ChangeToken\<close>), each call as one step.
    \<^verbatim>\<open>MonitoredBuild\<close>: the build of the Service snapshot as the steps \<open>build_enter\<close>, \<open>build_next\<close> and \<open>build_store\<close>, one for each
    section under another lock, with deliveries and other requests between them (\<open>race_step\<close>). \<^verbatim>\<open>NodeTargets\<close>
    (\<^verbatim>\<open>nodetargets.go\<close>, \<^verbatim>\<open>targetwarn.go\<close>, \<^verbatim>\<open>server.go\<close>): the derivation of the targets of a node, from the store,
    the indexes and the resolver, with its request memos; a warning is an entry of a list of reports, in
    front of the throttle that decides whether it is logged. \<^verbatim>\<open>NodeDoors\<close> has its properties.
  \<^item> \<^verbatim>\<open>HttpReply\<close> (\<^verbatim>\<open>internal/server/httpcache.go\<close>, \<^verbatim>\<open>handlers.go\<close>): status, headers and body of a reply, the entity
    tag and the conditional request. \<^verbatim>\<open>NodeMemo\<close> (\<^verbatim>\<open>httpcache.go\<close>, \<^verbatim>\<open>nodetargets.go\<close>): the composite change token of
    a node's list, the memo of entity tags that answers a revalidation without the derivation, its eviction,
    and the handler of the route. \<^verbatim>\<open>ScrapeAuth\<close> (\<^verbatim>\<open>scrapeauth.go\<close>, \<^verbatim>\<open>auth.go\<close>, \<^verbatim>\<open>internal/bearer\<close>): the route that serves
    values of Secrets, with every refusal, counter and log line.
  \<^item> \<^verbatim>\<open>RelabelFilter\<close> (\<^verbatim>\<open>internal/agent/promscrape/relabel.go\<close>, \<^verbatim>\<open>labels.go\<close>): the agent's filter of a scrape, with the shared
    cache of compiled chains, and the meaning of a declared chain that the served one is compared with.
  \<^item> \<^verbatim>\<open>Promdur\<close> (\<^verbatim>\<open>internal/promdur\<close>): the reader of the intervals a monitor declares, on 64-bit words.

  \<^bold>\<open>What is shown\<close>

  For the store, an invariant of every reachable state (\<^verbatim>\<open>StoreReach\<close>: any sequence of deliveries,
  deletions, sweeps, lookups in flight, parks and drains) is assembled from one theory per concern:
  \<^verbatim>\<open>StoreFrames\<close> (what an operation leaves alone), \<^verbatim>\<open>StoreIP\<close> (address claims), \<^verbatim>\<open>StoreInv\<close> (the indexes),
  \<^verbatim>\<open>StoreExpiry\<close> (the pending list), \<^verbatim>\<open>StoreWaiters\<close> (blocked lookups), \<^verbatim>\<open>StoreToken\<close> (tokens). From it
  \<^verbatim>\<open>StoreProps\<close>, \<^verbatim>\<open>StoreNodeToken\<close> and \<^verbatim>\<open>StoreBlocked\<close> prove what a client sees: lookups are exact, an
  address goes to the pod that acquired it last, a deleted
  pod stays resolvable exactly for its TTL, the sweep is equivalent to a full scan and invisible, a
  token that did not move means the node did not change, no wakeup is lost, the waiter budget holds
  and a drain ends every lookup. \<^verbatim>\<open>StoreExamples\<close> has the concrete runs.

  For the conversion and the budgets: what is served is bounded, independent of map order, a
  verbatim part of the object, and what is left out is counted, named as far as the note has room, and can be read back. For addresses:
  one canonical text per address, up to zone and IPv4-mapping. For the log gates: spacing, bounded memory, and that the table
  without its short cut decides the same. For owners: the chain is bounded and complete as far as it
  says, metadata comes from an object of the reference's UID, the metric labels are bounded, and the
  comparison that suppresses change notifications is sound. For Services: the index implements a
  directory of the last delivered Services, and a read that races with writers returns for each
  namespace the list of a version between its call and its return. For targets: the derivation with its
  indexes is the plain one, the accumulator keeps one target per URL within its ceilings and loses no
  target it served, a merge keeps what it found, the permutation sorts and the collision scan is exact. For monitors: an endpoint
  is honoured as declared or not at all, a monitor names secrets of its own namespace only, the index
  holds the last delivered objects, and the allowlist that is read beside deliveries is never stale. The relabel chain
  that is served for an endpoint drops no series that the declared one keeps, and the agent filters by that chain
  whatever its cache has been through.
  For a node: the list is what each pod has on its own, in an order that does not depend on how the pods came;
  every URL a door offers is served or its refusal is reported; the snapshots of the monitors are never stale, with
  every read of a build a step of its own.
  A 304 from the memo names a list of the present sources, so that the memo cannot be told from its absence. A
  value of a Secret goes only to a caller with an accepted token and only for a key that an indexed monitor of
  that namespace declares, and the route says nothing of any other. A declared interval is read exactly or refused.

  \<^bold>\<open>Assumptions and bounds\<close>

  The API server is taken at its word where a theorem says so: the name of a UID does not change, and
  a namespace has no slash; the memo of owner chains is keyed by fields joined with NUL bytes and is shown exact
  for references without one (\<open>plain_refs\<close>), and so is the run of monitors (\<open>plain_namespaces\<close>, with the
  counterexample \<open>runs_share_a_key\<close>). Change tokens are 64-bit words; the theorems about them are about
  runs in which a counter does not wrap. A map read while the code ranges over it is read in one piece,
  as the locks guarantee. Loops are structural recursion or folds over the data they range over, and
  need no fuel; a blocked lookup is a step relation, and that it ends is a theorem.

  What the code calls outside the repository is a parameter: the informer caches, the parser of an
  \<^verbatim>\<open>apiVersion\<close> and the log level of the resolver are the fields of its \<open>world\<close>; the decoder of an object and the builder of
  a label selector are the fields of \<open>apimachinery\<close>, and the regular expressions are a \<open>regex_engine\<close>. The JSON
  encoder, the digest of a body, the reader of Secrets, the API server's check of a path segment (assumed to refuse a
  slash: \<open>refuses_slash\<close>), what Prometheus does with a relabel rule other than keep and drop (assumed to leave alone the labels
  its documentation does not name: \<open>rewrites_only\<close>) and the floating-point product of a fraction in \<^verbatim>\<open>time.ParseDuration\<close> are arguments. A history of
  the memo (\<open>cache_history\<close>) assumes that the token of the owners advances when what the informers serve of them changes.

  \<^bold>\<open>Not modelled\<close>

  HTTP routing and encoding, the handlers of the other routes, the throttles in front of the warnings of the
  derivation and its explain mirror, the wiring of the two commands, the agent's pipelines over collector
  data, file-system and network input and output, and Prometheus instruments other than the counters an
  operation bumps.
\<close>

end
